(* ===== verification/Prelude.thy ===== *)
theory Prelude
  imports Main "HOL-Library.Multiset"
begin

text \<open>
  Shared vocabulary of the development: the faults a kernel-C statement can end in, the
  result type of a fallible operation and its sequencing, reads through a pointer and
  through an allocated array, 32-bit wrap-around, the circular kernel list with its head
  node, and the index arithmetic of an array heap.  Everything else is built on these.
\<close>

section \<open>Collections of facts\<close>

named_theorems res_simps \<open>inversion of fallible computations\<close>
named_theorems heap_index \<open>arithmetic of the heap index macros\<close>

section \<open>Faults and fallible results\<close>

text \<open>
  A statement of the C source that has no defined outcome is a fault: a NULL pointer is
  dereferenced, freed memory is read, the list head is used as if it were embedded in an
  entry, an array is indexed outside its allocation, an uninitialised variable or slot is
  read, a division has divisor zero, or a \<open>BUG_ON\<close> fires.
\<close>

datatype fault = NullDeref | UseAfterFree | ListHeadDeref | OutOfBounds | Uninit | BugOn | DivByZero

type_synonym 'a res = "fault + 'a"

fun bindE :: "'a res \<Rightarrow> ('a \<Rightarrow> 'b res) \<Rightarrow> 'b res" where
  "bindE (Inl e) f = Inl e"
| "bindE (Inr x) f = f x"

lemma bindE_eq_Inr [res_simps]: "bindE m f = Inr y \<longleftrightarrow> (\<exists>x. m = Inr x \<and> f x = Inr y)"
  by (cases m) auto

lemma bindE_eq_Inl [res_simps]:
  "bindE m f = Inl e \<longleftrightarrow> m = Inl e \<or> (\<exists>x. m = Inr x \<and> f x = Inl e)"
  by (cases m) auto

lemma bindE_cong [fundef_cong]:
  "m = m' \<Longrightarrow> (\<And>x. m' = Inr x \<Longrightarrow> f x = g x) \<Longrightarrow> bindE m f = bindE m' g"
  by (cases m') auto

lemma bindE_assoc: "bindE (bindE m f) g = bindE m (\<lambda>x. bindE (f x) g)"
  by (cases m) auto

lemma bindE_if: "bindE (if b then m else m') f = (if b then bindE m f else bindE m' f)"
  by simp

definition guardE :: "bool \<Rightarrow> fault \<Rightarrow> unit res" where
  "guardE b e = (if b then Inr () else Inl e)"

lemma guardE_eq_Inr [res_simps]: "guardE b e = Inr u \<longleftrightarrow> b"
  by (simp add: guardE_def)

lemma guardE_True [simp]: "guardE True e = Inr ()"
  and guardE_False [simp]: "guardE False e = Inl e"
  by (simp_all add: guardE_def)

definition ok_res :: "'a res \<Rightarrow> bool" where
  "ok_res m = (case m of Inl _ \<Rightarrow> False | Inr _ \<Rightarrow> True)"

section \<open>Memory\<close>

text \<open>
  Objects of one kind live in a store from addresses to contents; an address that is not
  in the store was never allocated or has been freed.  A pointer variable is an optional
  address, \<open>None\<close> being NULL.
\<close>

definition deref :: "('p \<rightharpoonup> 'v) \<Rightarrow> 'p \<Rightarrow> 'v res" where
  "deref m p = (case m p of None \<Rightarrow> Inl UseAfterFree | Some v \<Rightarrow> Inr v)"

definition deref_ptr :: "('p \<rightharpoonup> 'v) \<Rightarrow> 'p option \<Rightarrow> 'v res" where
  "deref_ptr m p = (case p of None \<Rightarrow> Inl NullDeref | Some a \<Rightarrow> deref m a)"

lemma deref_eq_Inr [res_simps]: "deref m p = Inr v \<longleftrightarrow> m p = Some v"
  by (auto simp: deref_def split: option.splits)

lemma deref_Some [simp]: "m p = Some v \<Longrightarrow> deref m p = Inr v"
  and deref_None [simp]: "m p = None \<Longrightarrow> deref m p = Inl UseAfterFree"
  by (simp_all add: deref_def)

lemma deref_ptr_None [simp]: "deref_ptr m None = Inl NullDeref"
  and deref_ptr_Some [simp]: "deref_ptr m (Some a) = deref m a"
  by (simp_all add: deref_ptr_def)

text \<open>
  An array of pointers is the list of its slots, as long as its allocation; a slot that
  was never written is \<open>None\<close>.
\<close>

definition aget :: "'p option list \<Rightarrow> nat \<Rightarrow> 'p res" where
  "aget a i = (if i < length a then (case a ! i of None \<Rightarrow> Inl Uninit | Some p \<Rightarrow> Inr p)
               else Inl OutOfBounds)"

definition aset :: "'p option list \<Rightarrow> nat \<Rightarrow> 'p \<Rightarrow> 'p option list res" where
  "aset a i p = (if i < length a then Inr (a[i := Some p]) else Inl OutOfBounds)"

lemma aget_eq_Inr [res_simps]: "aget a i = Inr p \<longleftrightarrow> i < length a \<and> a ! i = Some p"
  by (auto simp: aget_def split: option.splits)

lemma aset_eq_Inr [res_simps]: "aset a i p = Inr b \<longleftrightarrow> i < length a \<and> b = a[i := Some p]"
  by (auto simp: aset_def)

text \<open>
  \<open>krealloc\<close> keeps the slots up to the smaller of the two sizes; new slots hold nothing
  that may be read.
\<close>

definition arealloc :: "'p option list \<Rightarrow> nat \<Rightarrow> 'p option list" where
  "arealloc a n = take n a @ replicate (n - length a) None"

lemma length_arealloc [simp]: "length (arealloc a n) = n"
  by (simp add: arealloc_def)

lemma take_arealloc: "m \<le> length a \<Longrightarrow> m \<le> n \<Longrightarrow> take m (arealloc a n) = take m a"
  by (simp add: arealloc_def min_absorb2)

section \<open>Signed 32-bit integers\<close>

text \<open>
  The kernel is built with wrapping signed arithmetic, so \<open>int\<close> addition is the
  mathematical sum brought back into the 32-bit range.
\<close>

definition s32 :: "int \<Rightarrow> int" where
  "s32 x = (x + 2147483648) mod 4294967296 - 2147483648"

lemma s32_range: "- 2147483648 \<le> s32 x \<and> s32 x < 2147483648"
  by (simp add: s32_def)

lemma s32_id: "- 2147483648 \<le> x \<Longrightarrow> x < 2147483648 \<Longrightarrow> s32 x = x"
  by (simp add: s32_def)

section \<open>Circular lists with a head\<close>

text \<open>
  A kernel list is a ring through its head node.  The entries in order are a HOL list;
  a position in the ring is the head itself or an entry.  \<open>list_next_entry\<close> applied to
  the last entry yields the head, dressed up as an entry.
\<close>

datatype 'a lnode = LHead | LEntry 'a

fun list_next_after :: "'a list \<Rightarrow> 'a \<Rightarrow> 'a lnode" where
  "list_next_after [] a = LHead"
| "list_next_after (x # xs) a =
     (if x = a then (case xs of [] \<Rightarrow> LHead | y # _ \<Rightarrow> LEntry y) else list_next_after xs a)"

fun list_next :: "'a list \<Rightarrow> 'a lnode \<Rightarrow> 'a lnode" where
  "list_next xs LHead = (case xs of [] \<Rightarrow> LHead | y # _ \<Rightarrow> LEntry y)"
| "list_next xs (LEntry a) = list_next_after xs a"

lemma list_next_after_in: "list_next_after xs a = LHead \<or> (\<exists>b \<in> set xs. list_next_after xs a = LEntry b)"
proof (induction xs)
  case (Cons x xs)
  then show ?case by (cases xs) auto
qed simp

lemma list_next_in: "list_next xs p = LHead \<or> (\<exists>a \<in> set xs. list_next xs p = LEntry a)"
proof (cases p)
  case LHead
  then show ?thesis by (cases xs) simp_all
next
  case (LEntry a)
  then show ?thesis using list_next_after_in [of xs a] by simp
qed

definition list_first :: "'a list \<Rightarrow> 'a option" where
  "list_first xs = (case xs of [] \<Rightarrow> None | x # _ \<Rightarrow> Some x)"

lemma list_first_simps [simp]: "list_first [] = None" "list_first (x # xs) = Some x"
  by (simp_all add: list_first_def)

lemma list_first_eq_Some: "list_first xs = Some x \<longleftrightarrow> xs \<noteq> [] \<and> x = hd xs"
  by (cases xs) auto

lemma list_first_eq_None [simp]: "list_first xs = None \<longleftrightarrow> xs = []"
  by (cases xs) auto

lemma list_next_after_nth:
  "distinct xs \<Longrightarrow> i < length xs \<Longrightarrow>
   list_next_after xs (xs ! i) = (if Suc i < length xs then LEntry (xs ! Suc i) else LHead)"
proof (induction xs arbitrary: i)
  case Nil
  then show ?case by simp
next
  case (Cons x xs)
  show ?case
  proof (cases i)
    case 0
    then show ?thesis by (cases xs) auto
  next
    case (Suc k)
    with Cons.prems have "x \<noteq> xs ! k" by auto
    with Suc Cons show ?thesis by auto
  qed
qed

lemma list_next_head: "list_next xs LHead = (if xs = [] then LHead else LEntry (xs ! 0))"
  by (cases xs) auto

section \<open>Heap indices\<close>

text \<open>The macros \<open>LCHILD\<close>, \<open>RCHILD\<close> and \<open>PARENT\<close>, applied to plain variables.\<close>

definition LCHILD :: "nat \<Rightarrow> nat" where "LCHILD x = 2 * x + 1"

definition RCHILD :: "nat \<Rightarrow> nat" where "RCHILD x = 2 * x + 2"

definition PARENT :: "nat \<Rightarrow> nat" where "PARENT x = (x - 1) div 2"

lemma PARENT_less [heap_index]: "0 < i \<Longrightarrow> PARENT i < i"
  by (simp add: PARENT_def)

lemma child_greater [heap_index]: "i < LCHILD i" "i < RCHILD i"
  by (simp_all add: LCHILD_def RCHILD_def)

lemma PARENT_child [simp]: "PARENT (LCHILD i) = i" "PARENT (RCHILD i) = i"
  by (simp_all add: PARENT_def LCHILD_def RCHILD_def)

lemma child_nonzero [simp]: "0 < LCHILD i" "0 < RCHILD i" "LCHILD i \<noteq> RCHILD i"
  by (simp_all add: LCHILD_def RCHILD_def)

lemma PARENT_eq_iff: "0 < j \<Longrightarrow> PARENT j = i \<longleftrightarrow> j = LCHILD i \<or> j = RCHILD i"
  unfolding PARENT_def LCHILD_def RCHILD_def by presburger

lemma PARENT_mono: "i \<le> j \<Longrightarrow> PARENT i \<le> PARENT j"
  by (simp add: PARENT_def div_le_mono)

end
