(* ===== verification/ArrayHeap.thy ===== *)
theory ArrayHeap
  imports Prelude
begin

text \<open>
  The abstract specification of the heaps of this repository: a list of nodes ordered by a
  key, with the two restoring walks as pure functions.  Every heap of the sources (the
  user-space experiments and the request heaps of the schedulers) is refined to this one.
\<close>

section \<open>The heap property\<close>

definition heap_from :: "('n \<Rightarrow> 'k::linorder) \<Rightarrow> nat \<Rightarrow> 'n list \<Rightarrow> bool" where
  "heap_from key k xs \<longleftrightarrow>
     (\<forall>j<length xs. 0 < j \<longrightarrow> k \<le> PARENT j \<longrightarrow> key (xs ! PARENT j) \<le> key (xs ! j))"

abbreviation is_heap :: "('n \<Rightarrow> 'k::linorder) \<Rightarrow> 'n list \<Rightarrow> bool" where
  "is_heap key \<equiv> heap_from key 0"

text \<open>The property everywhere but at index \<open>i\<close>, whose children still respect \<open>i\<close>'s parent.\<close>

definition heap_hole :: "('n \<Rightarrow> 'k::linorder) \<Rightarrow> nat \<Rightarrow> nat \<Rightarrow> 'n list \<Rightarrow> bool" where
  "heap_hole key k i xs \<longleftrightarrow>
     (\<forall>j<length xs. 0 < j \<longrightarrow> k \<le> PARENT j \<longrightarrow>
        (PARENT j \<noteq> i \<longrightarrow> key (xs ! PARENT j) \<le> key (xs ! j)) \<and>
        (PARENT j = i \<longrightarrow> 0 < i \<longrightarrow> k \<le> PARENT i \<longrightarrow> key (xs ! PARENT i) \<le> key (xs ! j)))"

lemma heap_fromD:
  "heap_from key k xs \<Longrightarrow> j < length xs \<Longrightarrow> 0 < j \<Longrightarrow> k \<le> PARENT j \<Longrightarrow>
   key (xs ! PARENT j) \<le> key (xs ! j)"
  by (simp add: heap_from_def)

lemma is_heap_root_min:
  "is_heap key xs \<Longrightarrow> j < length xs \<Longrightarrow> key (xs ! 0) \<le> key (xs ! j)"
proof (induction j rule: less_induct)
  case (less j)
  show ?case
  proof (cases "j = 0")
    case False
    then have "PARENT j < j" by (simp add: heap_index)
    with less have "key (xs ! 0) \<le> key (xs ! PARENT j)" by simp
    also have "\<dots> \<le> key (xs ! j)" using less.prems False by (simp add: heap_from_def)
    finally show ?thesis .
  qed simp
qed

lemma is_heap_root_min_set: "is_heap key xs \<Longrightarrow> x \<in> set xs \<Longrightarrow> key (xs ! 0) \<le> key x"
  by (auto simp: in_set_conv_nth is_heap_root_min)

lemma is_heap_Nil [simp]: "heap_from key k []"
  by (simp add: heap_from_def)

lemma is_heap_take: "heap_from key k xs \<Longrightarrow> heap_from key k (take n xs)"
  unfolding heap_from_def by (auto simp: PARENT_def)

lemma is_heap_butlast: "heap_from key k xs \<Longrightarrow> heap_from key k (butlast xs)"
  by (simp add: butlast_conv_take is_heap_take)

lemma heap_from_leaves: "length xs \<le> 2 * k + 1 \<Longrightarrow> heap_from key k xs"
  unfolding heap_from_def PARENT_def by auto

section \<open>Sifting down\<close>

definition smallest :: "('n \<Rightarrow> 'k::linorder) \<Rightarrow> 'n list \<Rightarrow> nat \<Rightarrow> nat" where
  "smallest key xs i =
     (let l = (if LCHILD i < length xs \<and> key (xs ! LCHILD i) < key (xs ! i) then LCHILD i else i)
      in if RCHILD i < length xs \<and> key (xs ! RCHILD i) < key (xs ! l) then RCHILD i else l)"

lemma smallest_cases:
  "smallest key xs i = i \<or>
   smallest key xs i = LCHILD i \<and> LCHILD i < length xs \<or>
   smallest key xs i = RCHILD i \<and> RCHILD i < length xs"
  by (simp add: smallest_def Let_def)

lemma smallest_bounds: "smallest key xs i \<noteq> i \<Longrightarrow>
   i < smallest key xs i \<and> smallest key xs i < length xs \<and> PARENT (smallest key xs i) = i
   \<and> 0 < smallest key xs i"
  using smallest_cases [of key xs i] by (auto simp: heap_index)

lemma smallest_le:
  "key (xs ! smallest key xs i) \<le> key (xs ! i)"
  "LCHILD i < length xs \<Longrightarrow> key (xs ! smallest key xs i) \<le> key (xs ! LCHILD i)"
  "RCHILD i < length xs \<Longrightarrow> key (xs ! smallest key xs i) \<le> key (xs ! RCHILD i)"
  by (auto simp: smallest_def Let_def)

lemma smallest_le_child:
  "0 < j \<Longrightarrow> j < length xs \<Longrightarrow> PARENT j = i \<Longrightarrow> key (xs ! smallest key xs i) \<le> key (xs ! j)"
  by (auto simp: PARENT_eq_iff smallest_le)

lemma smallest_less: "smallest key xs i \<noteq> i \<Longrightarrow> key (xs ! smallest key xs i) < key (xs ! i)"
  by (auto simp: smallest_def Let_def split: if_splits)

definition list_swap :: "'n list \<Rightarrow> nat \<Rightarrow> nat \<Rightarrow> 'n list" where
  "list_swap xs i j = xs[i := xs ! j, j := xs ! i]"

lemma length_list_swap [simp]: "length (list_swap xs i j) = length xs"
  by (simp add: list_swap_def)

lemma mset_list_swap: "i < length xs \<Longrightarrow> j < length xs \<Longrightarrow> mset (list_swap xs i j) = mset xs"
  unfolding list_swap_def by (cases "i = j") (simp_all add: mset_swap list_update_swap [of i j])

lemma nth_list_swap:
  "i < length xs \<Longrightarrow> j < length xs \<Longrightarrow>
   list_swap xs i j ! m = (if m = j then xs ! i else if m = i then xs ! j else xs ! m)"
  by (auto simp: list_swap_def nth_list_update)

lemma list_swap_map: "i < length xs \<Longrightarrow> j < length xs \<Longrightarrow>
   list_swap (map f xs) i j = map f (list_swap xs i j)"
  by (simp add: list_swap_def map_update)

function sift_down :: "('n \<Rightarrow> 'k::linorder) \<Rightarrow> 'n list \<Rightarrow> nat \<Rightarrow> 'n list" where
  "sift_down key xs i =
     (let s = smallest key xs i in
      if s = i then xs else sift_down key (list_swap xs i s) s)"
  by pat_completeness auto
termination
  by (relation "measure (\<lambda>(key, xs, i). length xs - i)")
     (auto dest!: smallest_bounds simp: Let_def)

declare sift_down.simps [simp del]

lemma length_sift_down [simp]: "length (sift_down key xs i) = length xs"
  by (induction key xs i rule: sift_down.induct) (subst sift_down.simps, auto simp: Let_def)

lemma mset_sift_down: "i < length xs \<Longrightarrow> mset (sift_down key xs i) = mset xs"
proof (induction key xs i rule: sift_down.induct)
  case (1 key xs i)
  show ?case
  proof (cases "smallest key xs i = i")
    case True
    then show ?thesis by (subst sift_down.simps) simp
  next
    case False
    note b = smallest_bounds [OF False]
    with 1 False show ?thesis
      by (subst sift_down.simps) (simp add: mset_list_swap Let_def)
  qed
qed

lemma heap_hole_swap:
  assumes hole: "heap_hole key k i xs" and s: "s = smallest key xs i" "s \<noteq> i" and i: "i < length xs"
  shows "heap_hole key k s (list_swap xs i s)"
proof -
  note b = smallest_bounds [of key xs i, folded s(1), OF s(2)]
  have lt: "key (xs ! s) < key (xs ! i)" using s smallest_less by metis
  have ch: "key (xs ! s) \<le> key (xs ! j)" if "0 < j" "j < length xs" "PARENT j = i" for j
    using that s(1) by (simp add: smallest_le_child)
  have old: "key (xs ! PARENT j) \<le> key (xs ! j)"
    if "0 < j" "j < length xs" "k \<le> PARENT j" "PARENT j \<noteq> i" for j
    using hole that by (simp add: heap_hole_def)
  have gp: "key (xs ! PARENT i) \<le> key (xs ! s)" if "0 < i" "k \<le> PARENT i"
  proof -
    have "k \<le> i" using that heap_index(1) [of i] by linarith
    then show ?thesis using hole b that i unfolding heap_hole_def by auto
  qed
  show ?thesis
    unfolding heap_hole_def
  proof (intro allI impI conjI)
    fix j assume j: "j < length (list_swap xs i s)" "0 < j" "k \<le> PARENT j"
    have neq: "PARENT j \<noteq> j" using j(2) heap_index(1) [of j] by linarith
    {
      assume pj: "PARENT j \<noteq> s"
      show "key (list_swap xs i s ! PARENT j) \<le> key (list_swap xs i s ! j)"
      proof (cases "PARENT j = i")
        case True
        with j b ch [of j] lt neq i show ?thesis by (auto simp: nth_list_swap)
      next
        case False
        show ?thesis
        proof (cases "j = i")
          case True
          with gp [unfolded True [symmetric]] j b i pj False show ?thesis
            by (auto simp: nth_list_swap)
        next
          case False
          with j b i pj \<open>PARENT j \<noteq> i\<close> old [of j] show ?thesis
            by (auto simp: nth_list_swap)
        qed
      qed
    }
    {
      assume "PARENT j = s" "0 < s" "k \<le> PARENT s"
      moreover from this b have "j \<noteq> s" "j \<noteq> i" using neq j(2) PARENT_less [of j] by auto
      ultimately show "key (list_swap xs i s ! PARENT s) \<le> key (list_swap xs i s ! j)"
        using b i j old [of j] by (auto simp: nth_list_swap)
    }
  qed
qed

lemma sift_down_heap:
  "heap_hole key k i xs \<Longrightarrow> i < length xs \<Longrightarrow> heap_from key k (sift_down key xs i)"
proof (induction key xs i rule: sift_down.induct)
  case (1 key xs i)
  show ?case
  proof (cases "smallest key xs i = i")
    case True
    have "heap_from key k xs"
      unfolding heap_from_def
    proof (intro allI impI)
      fix j assume j: "j < length xs" "0 < j" "k \<le> PARENT j"
      show "key (xs ! PARENT j) \<le> key (xs ! j)"
        using j "1.prems"(1) smallest_le_child [OF j(2,1) refl, of key] True
        by (cases "PARENT j = i") (auto simp: heap_hole_def)
    qed
    with True show ?thesis by (subst sift_down.simps) simp
  next
    case False
    with 1 smallest_bounds [OF False] heap_hole_swap [OF "1.prems"(1) refl False]
    show ?thesis by (subst sift_down.simps) (simp add: Let_def)
  qed
qed

lemma heap_hole_update_root: "is_heap key xs \<Longrightarrow> heap_hole key 0 0 (xs[0 := x])"
  unfolding heap_hole_def heap_from_def by auto

lemma heap_hole_extend: "heap_from key (Suc k) xs \<Longrightarrow> heap_hole key k k xs"
  unfolding heap_hole_def heap_from_def
  by (metis PARENT_less not_less_eq_eq le_antisym linorder_not_le)

section \<open>Removing the root\<close>

definition heap_pop :: "('n \<Rightarrow> 'k::linorder) \<Rightarrow> 'n list \<Rightarrow> 'n list" where
  "heap_pop key xs = sift_down key ((butlast xs)[0 := last xs]) 0"

lemma mset_pop_list: "xs \<noteq> [] \<Longrightarrow> mset ((butlast xs)[0 := last xs]) = mset xs - {#xs ! 0#}"
proof (cases xs rule: rev_cases)
  case (snoc ys y)
  then show ?thesis by (cases ys) (auto simp: mset_update)
qed simp

lemma length_heap_pop [simp]: "length (heap_pop key xs) = length xs - 1"
  by (simp add: heap_pop_def)

lemma sift_down_short: "length xs \<le> 1 \<Longrightarrow> sift_down key xs 0 = xs"
  by (subst sift_down.simps) (simp add: smallest_def LCHILD_def RCHILD_def)

lemma mset_heap_pop: "xs \<noteq> [] \<Longrightarrow> mset (heap_pop key xs) = mset xs - {#xs ! 0#}"
proof (cases "length xs = 1")
  case True
  then obtain x where "xs = [x]" by (cases xs) auto
  then show ?thesis by (simp add: heap_pop_def sift_down_short)
next
  case False
  assume "xs \<noteq> []"
  with False have "0 < length ((butlast xs)[0 := last xs])" by (cases xs) auto
  with \<open>xs \<noteq> []\<close> show ?thesis by (simp add: heap_pop_def mset_sift_down mset_pop_list)
qed

lemma is_heap_pop: "is_heap key xs \<Longrightarrow> is_heap key (heap_pop key xs)"
proof (cases "length xs \<le> 1")
  case True
  then show ?thesis by (simp add: heap_from_def)
next
  case False
  assume "is_heap key xs"
  then have "is_heap key (butlast xs)" by (rule is_heap_butlast)
  with False show ?thesis
    unfolding heap_pop_def by (intro sift_down_heap heap_hole_update_root) auto
qed

section \<open>Sifting up\<close>

function sift_up :: "('n \<Rightarrow> 'k::linorder) \<Rightarrow> 'n list \<Rightarrow> nat \<Rightarrow> 'n \<Rightarrow> 'n list" where
  "sift_up key xs i x =
     (if 0 < i \<and> key x < key (xs ! PARENT i)
      then sift_up key (xs[i := xs ! PARENT i]) (PARENT i) x
      else xs[i := x])"
  by pat_completeness auto
termination
  by (relation "measure (\<lambda>(key, xs, i, x). i)") (auto simp: heap_index)

declare sift_up.simps [simp del]

definition heap_insert :: "('n \<Rightarrow> 'k::linorder) \<Rightarrow> 'n \<Rightarrow> 'n list \<Rightarrow> 'n list" where
  "heap_insert key x xs = sift_up key (xs @ [x]) (length xs) x"

definition heap_up :: "('n \<Rightarrow> 'k::linorder) \<Rightarrow> nat \<Rightarrow> 'n \<Rightarrow> 'n list \<Rightarrow> bool" where
  "heap_up key i x xs \<longleftrightarrow>
     (\<forall>j<length xs. 0 < j \<longrightarrow>
        (j \<noteq> i \<longrightarrow> PARENT j \<noteq> i \<longrightarrow> key (xs ! PARENT j) \<le> key (xs ! j)) \<and>
        (PARENT j = i \<longrightarrow> key x \<le> key (xs ! j) \<and> (0 < i \<longrightarrow> key (xs ! PARENT i) \<le> key (xs ! j))))"

lemma length_sift_up [simp]: "length (sift_up key xs i x) = length xs"
  by (induction key xs i x rule: sift_up.induct) (subst sift_up.simps, auto)

lemma mset_sift_up: "i < length xs \<Longrightarrow> mset (sift_up key xs i x) = mset (xs[i := x])"
proof (induction key xs i x rule: sift_up.induct)
  case (1 key xs i x)
  show ?case
  proof (cases "0 < i \<and> key x < key (xs ! PARENT i)")
    case True
    then have p: "PARENT i < i" by (simp add: heap_index)
    have "mset (xs[i := xs ! PARENT i, PARENT i := x]) = mset (xs[i := x])"
      using p "1.prems" mset_list_swap [of i "xs[i := x]" "PARENT i"]
      by (simp add: list_swap_def)
    with 1 True p show ?thesis by (subst sift_up.simps) simp
  next
    case False
    then show ?thesis by (subst sift_up.simps) auto
  qed
qed

lemma heap_up_step:
  assumes up: "heap_up key i x xs" and i: "0 < i" "i < length xs"
    and lt: "key x < key (xs ! PARENT i)"
  shows "heap_up key (PARENT i) x (xs[i := xs ! PARENT i])"
proof -
  have p: "PARENT i < i" using i by (simp add: heap_index)
  have old: "key (xs ! PARENT j) \<le> key (xs ! j)"
    if "0 < j" "j < length xs" "j \<noteq> i" "PARENT j \<noteq> i" for j
    using up that by (simp add: heap_up_def)
  have gp: "key (xs ! PARENT i) \<le> key (xs ! j)" if "0 < j" "j < length xs" "PARENT j = i" for j
    using up that i by (simp add: heap_up_def)
  show ?thesis
    unfolding heap_up_def
  proof (intro allI impI conjI)
    fix j assume j: "j < length (xs[i := xs ! PARENT i])" "0 < j"
    have pj: "PARENT j < j" using j by (simp add: heap_index)
    show "key (xs[i := xs ! PARENT i] ! PARENT j) \<le> key (xs[i := xs ! PARENT i] ! j)"
      if "j \<noteq> PARENT i" "PARENT j \<noteq> PARENT i"
      using that j i p pj old [of j] gp [of j] by (cases "PARENT j = i") (auto simp: nth_list_update)
    assume c: "PARENT j = PARENT i"
    have le: "key (xs ! PARENT i) \<le> key (xs[i := xs ! PARENT i] ! j)"
      using c j p old [of j] by (cases "j = i") auto
    with lt show "key x \<le> key (xs[i := xs ! PARENT i] ! j)" by simp
    show "key (xs[i := xs ! PARENT i] ! PARENT (PARENT i)) \<le> key (xs[i := xs ! PARENT i] ! j)"
      if "0 < PARENT i"
    proof -
      have "PARENT (PARENT i) < PARENT i" using that by (simp add: heap_index)
      with old [of "PARENT i"] that p i le show ?thesis by (auto simp: nth_list_update)
    qed
  qed
qed

lemma sift_up_heap: "heap_up key i x xs \<Longrightarrow> i < length xs \<Longrightarrow> is_heap key (sift_up key xs i x)"
proof (induction key xs i x rule: sift_up.induct)
  case (1 key xs i x)
  show ?case
  proof (cases "0 < i \<and> key x < key (xs ! PARENT i)")
    case True
    with 1 heap_up_step [OF "1.prems"(1)] PARENT_less [of i] show ?thesis
      by (subst sift_up.simps) simp
  next
    case False
    have "is_heap key (xs[i := x])"
      unfolding heap_from_def
    proof (intro allI impI)
      fix j assume j: "j < length (xs[i := x])" "0 < j"
      then have "PARENT j < j" by (simp add: heap_index)
      with j False "1.prems" show "key (xs[i := x] ! PARENT j) \<le> key (xs[i := x] ! j)"
        unfolding heap_up_def by (cases "j = i") (auto simp: nth_list_update)
    qed
    with False show ?thesis by (subst sift_up.simps) auto
  qed
qed

lemma length_heap_insert [simp]: "length (heap_insert key x xs) = Suc (length xs)"
  by (simp add: heap_insert_def)

lemma mset_heap_insert: "mset (heap_insert key x xs) = add_mset x (mset xs)"
  by (simp add: heap_insert_def mset_sift_up)

lemma heap_up_append: "is_heap key xs \<Longrightarrow> heap_up key (length xs) x (xs @ [x])"
  unfolding heap_up_def heap_from_def
proof (intro allI impI)
  fix j
  assume h: "\<forall>j<length xs. 0 < j \<longrightarrow> 0 \<le> PARENT j \<longrightarrow> key (xs ! PARENT j) \<le> key (xs ! j)"
    and j: "j < length (xs @ [x])" "0 < j"
  have "PARENT j < j" using j by (simp add: heap_index)
  with h j show "(j \<noteq> length xs \<longrightarrow> PARENT j \<noteq> length xs \<longrightarrow>
        key ((xs @ [x]) ! PARENT j) \<le> key ((xs @ [x]) ! j)) \<and>
       (PARENT j = length xs \<longrightarrow> key x \<le> key ((xs @ [x]) ! j) \<and>
        (0 < length xs \<longrightarrow> key ((xs @ [x]) ! PARENT (length xs)) \<le> key ((xs @ [x]) ! j)))"
    by (auto simp: nth_append)
qed

lemma is_heap_insert: "is_heap key xs \<Longrightarrow> is_heap key (heap_insert key x xs)"
  unfolding heap_insert_def by (rule sift_up_heap) (auto intro: heap_up_append)

lemma heap_insert_max:
  "(\<And>y. y \<in> set xs \<Longrightarrow> key y \<le> key x) \<Longrightarrow> heap_insert key x xs = xs @ [x]"
proof -
  assume m: "\<And>y. y \<in> set xs \<Longrightarrow> key y \<le> key x"
  have "key ((xs @ [x]) ! PARENT (length xs)) \<le> key x" if "0 < length xs"
    using that PARENT_less [of "length xs"] m by (simp add: nth_append)
  then show ?thesis
    unfolding heap_insert_def by (subst sift_up.simps) auto
qed

end
