(* ===== verification/HeapStore.thy ===== *)
theory HeapStore
  imports ArrayHeap
begin

text \<open>
  The heap as the C code has it: an array of pointers to nodes in a store.  Restoring the
  heap downwards exchanges the \<^emph>\<open>contents\<close> of two nodes (\<open>heap_swap\<close> copies whole
  structs) and leaves the pointers where they are; inserting moves the pointers.  The
  lemmas relate both walks to the abstract ones of the array heap.
\<close>

section \<open>The operations of the source\<close>

definition heap_swap :: "('p \<rightharpoonup> 'n) \<Rightarrow> 'p \<Rightarrow> 'p \<Rightarrow> ('p \<rightharpoonup> 'n) res" where
  "heap_swap mem n1 n2 =
     bindE (deref mem n1) (\<lambda>temp.
     bindE (deref mem n2) (\<lambda>y.
       Inr (mem(n1 \<mapsto> y, n2 \<mapsto> temp))))"

definition node_at :: "'p option list \<Rightarrow> ('p \<rightharpoonup> 'n) \<Rightarrow> nat \<Rightarrow> 'n res" where
  "node_at arr mem i = bindE (aget arr i) (deref mem)"

text \<open>\<open>i < n \<and> arr[i]->key < arr[j]->key\<close>, evaluated from left to right.\<close>

definition key_less_at ::
  "('n \<Rightarrow> 'k::linorder) \<Rightarrow> 'p option list \<Rightarrow> nat \<Rightarrow> ('p \<rightharpoonup> 'n) \<Rightarrow> nat \<Rightarrow> nat \<Rightarrow> bool res" where
  "key_less_at key arr n mem i j =
     (if i < n
      then bindE (node_at arr mem i) (\<lambda>x. bindE (node_at arr mem j) (\<lambda>y. Inr (key x < key y)))
      else Inr False)"

definition smallest_at ::
  "('n \<Rightarrow> 'k::linorder) \<Rightarrow> 'p option list \<Rightarrow> nat \<Rightarrow> ('p \<rightharpoonup> 'n) \<Rightarrow> nat \<Rightarrow> nat res" where
  "smallest_at key arr n mem i =
     bindE (key_less_at key arr n mem (LCHILD i) i) (\<lambda>b.
     let smallest = (if b then LCHILD i else i) in
     bindE (key_less_at key arr n mem (RCHILD i) smallest) (\<lambda>b'.
       Inr (if b' then RCHILD i else smallest)))"

lemma smallest_at_bounds:
  "smallest_at key arr n mem i = Inr s \<Longrightarrow> s = i \<or> i < s \<and> s < n"
  by (auto simp: smallest_at_def key_less_at_def Let_def res_simps heap_index split: if_splits)

function heapify_at ::
  "('n \<Rightarrow> 'k::linorder) \<Rightarrow> 'p option list \<Rightarrow> nat \<Rightarrow> ('p \<rightharpoonup> 'n) \<Rightarrow> nat \<Rightarrow> ('p \<rightharpoonup> 'n) res" where
  "heapify_at key arr n mem i =
     bindE (smallest_at key arr n mem i) (\<lambda>smallest.
       if smallest \<noteq> i then
         bindE (aget arr i) (\<lambda>p.
         bindE (aget arr smallest) (\<lambda>q.
         bindE (heap_swap mem p q) (\<lambda>mem'.
           heapify_at key arr n mem' smallest)))
       else Inr mem)"
  by pat_completeness auto
termination
  by (relation "measure (\<lambda>(key, arr, n, mem, i). n - i)") (auto dest!: smallest_at_bounds)

declare heapify_at.simps [simp del]

text \<open>
  The insertion loop: while the parent's key is larger, the parent's pointer is copied
  down; the new node's pointer is then stored in the free slot.
\<close>

function sift_up_at ::
  "('n \<Rightarrow> 'k::linorder) \<Rightarrow> ('p \<rightharpoonup> 'n) \<Rightarrow> 'p option list \<Rightarrow> nat \<Rightarrow> 'p \<Rightarrow> 'p option list res" where
  "sift_up_at key mem arr i p =
     bindE (if 0 < i then
              bindE (deref mem p) (\<lambda>x.
              bindE (node_at arr mem (PARENT i)) (\<lambda>y. Inr (key x < key y)))
            else Inr False) (\<lambda>b.
     if b \<and> 0 < i then
       bindE (aget arr (PARENT i)) (\<lambda>q.
       bindE (aset arr i q) (\<lambda>arr'.
         sift_up_at key mem arr' (PARENT i) p))
     else aset arr i p)"
  by pat_completeness auto
termination
  by (relation "measure (\<lambda>(key, mem, arr, i, p). i)") (auto simp: heap_index)

declare sift_up_at.simps [simp del]

section \<open>Well-formed heaps and their abstraction\<close>

definition ptrs :: "'p option list \<Rightarrow> nat \<Rightarrow> 'p list" where
  "ptrs arr n = map the (take n arr)"

definition vals :: "'p option list \<Rightarrow> nat \<Rightarrow> ('p \<rightharpoonup> 'n) \<Rightarrow> 'n list" where
  "vals arr n mem = map (\<lambda>p. the (mem p)) (ptrs arr n)"

definition heap_ok :: "'p option list \<Rightarrow> nat \<Rightarrow> ('p \<rightharpoonup> 'n) \<Rightarrow> bool" where
  "heap_ok arr n mem \<longleftrightarrow>
     n \<le> length arr \<and> None \<notin> set (take n arr) \<and> distinct (ptrs arr n) \<and>
     set (ptrs arr n) \<subseteq> dom mem"

lemma length_ptrs [simp]: "length (ptrs arr n) = min (length arr) n"
  by (simp add: ptrs_def)

lemma length_vals [simp]: "length (vals arr n mem) = min (length arr) n"
  by (simp add: vals_def)

lemma heap_ok_len: "heap_ok arr n mem \<Longrightarrow> n \<le> length arr"
  by (simp add: heap_ok_def)

lemma heap_ok_nth:
  assumes "heap_ok arr n mem" "i < n"
  shows "arr ! i = Some (ptrs arr n ! i)" "mem (ptrs arr n ! i) = Some (vals arr n mem ! i)"
proof -
  have n: "n \<le> length arr" and none: "None \<notin> set (take n arr)" and d: "set (ptrs arr n) \<subseteq> dom mem"
    using assms by (auto simp: heap_ok_def)
  have "take n arr ! i \<in> set (take n arr)" using assms n by (intro nth_mem) simp
  with assms have "arr ! i \<in> set (take n arr)" by simp
  with none have "arr ! i \<noteq> None" by metis
  with assms n show *: "arr ! i = Some (ptrs arr n ! i)" by (auto simp: ptrs_def)
  have "ptrs arr n ! i \<in> set (ptrs arr n)" using assms n by (intro nth_mem) simp
  with d obtain v where "mem (ptrs arr n ! i) = Some v" by auto
  then show "mem (ptrs arr n ! i) = Some (vals arr n mem ! i)"
    using assms n by (simp add: vals_def)
qed

lemma heap_ok_aget [simp]: "heap_ok arr n mem \<Longrightarrow> i < n \<Longrightarrow> aget arr i = Inr (ptrs arr n ! i)"
  using heap_ok_len heap_ok_nth(1) by (fastforce simp: aget_def)

lemma heap_ok_node_at [simp]:
  "heap_ok arr n mem \<Longrightarrow> i < n \<Longrightarrow> node_at arr mem i = Inr (vals arr n mem ! i)"
  by (simp add: node_at_def heap_ok_nth)

lemma smallest_at_vals:
  "heap_ok arr n mem \<Longrightarrow> i < n \<Longrightarrow>
   smallest_at key arr n mem i = Inr (smallest key (vals arr n mem) i)"
  using heap_ok_len [of arr n mem]
  by (auto simp: smallest_at_def smallest_def key_less_at_def Let_def min_absorb2)

lemma heap_swap_at:
  assumes ok: "heap_ok arr n mem" and i: "i < n" and j: "j < n"
  obtains mem' where
    "heap_swap mem (ptrs arr n ! i) (ptrs arr n ! j) = Inr mem'"
    "heap_ok arr n mem'" "vals arr n mem' = list_swap (vals arr n mem) i j"
    "dom mem' = dom mem" "\<forall>p. p \<notin> set (ptrs arr n) \<longrightarrow> mem' p = mem p"
proof
  let ?P = "ptrs arr n" and ?V = "vals arr n mem"
  let ?mem = "mem(?P ! i \<mapsto> ?V ! j, ?P ! j \<mapsto> ?V ! i)"
  have n: "n \<le> length arr" and d: "distinct ?P" using ok by (auto simp: heap_ok_def)
  have in_dom: "?P ! i \<in> dom mem" "?P ! j \<in> dom mem" using heap_ok_nth(2) [OF ok] i j by auto
  have mem_i: "?P ! i \<in> set ?P" "?P ! j \<in> set ?P" using n i j by (auto intro!: nth_mem)
  show "heap_swap mem (?P ! i) (?P ! j) = Inr ?mem"
    using heap_ok_nth(2) [OF ok] i j by (simp add: heap_swap_def)
  show dom: "dom ?mem = dom mem" using in_dom by auto
  show "heap_ok arr n ?mem" using ok in_dom by (auto simp: heap_ok_def)
  show "\<forall>p. p \<notin> set ?P \<longrightarrow> ?mem p = mem p" using mem_i by auto
  show "vals arr n ?mem = list_swap ?V i j"
  proof (rule nth_equalityI)
    fix k assume "k < length (vals arr n ?mem)"
    then have k: "k < n" "k < length ?P" using n by auto
    have "?P ! k = ?P ! i \<longleftrightarrow> k = i" "?P ! k = ?P ! j \<longleftrightarrow> k = j"
      using nth_eq_iff_index_eq [OF d] k i j n by auto
    then show "vals arr n ?mem ! k = list_swap ?V i j ! k"
      using k i j n by (auto simp: vals_def nth_list_swap)
  qed (use n in simp)
qed

lemma heapify_at_refines:
  assumes "heap_ok arr n mem" "i < n"
  shows "\<exists>mem'. heapify_at key arr n mem i = Inr mem' \<and> heap_ok arr n mem' \<and>
     vals arr n mem' = sift_down key (vals arr n mem) i \<and> dom mem' = dom mem \<and>
     (\<forall>p. p \<notin> set (ptrs arr n) \<longrightarrow> mem' p = mem p)"
  using assms
proof (induction "n - i" arbitrary: mem i rule: less_induct)
  case less
  let ?s = "smallest key (vals arr n mem) i"
  note sm = smallest_at_vals [OF less.prems, of key]
  show ?case
  proof (cases "?s = i")
    case True
    with sm less.prems show ?thesis
      by (subst heapify_at.simps, subst sift_down.simps) simp
  next
    case False
    note b = smallest_bounds [OF False]
    have s: "?s < n" "i < ?s" using b by auto
    obtain mem1 where m1:
      "heap_swap mem (ptrs arr n ! i) (ptrs arr n ! ?s) = Inr mem1" "heap_ok arr n mem1"
      "vals arr n mem1 = list_swap (vals arr n mem) i ?s" "dom mem1 = dom mem"
      "\<forall>p. p \<notin> set (ptrs arr n) \<longrightarrow> mem1 p = mem p"
      using heap_swap_at [OF less.prems s(1)] .
    have step: "heapify_at key arr n mem i = heapify_at key arr n mem1 ?s"
      using sm m1 less.prems s False by (subst heapify_at.simps) simp
    have down: "sift_down key (vals arr n mem) i = sift_down key (vals arr n mem1) ?s"
      using False m1(3) by (subst sift_down.simps) (simp add: Let_def)
    have "n - ?s < n - i" using s by simp
    from less.hyps [OF this m1(2) s(1)] step down m1(4,5) show ?thesis by auto
  qed
qed

section \<open>Inserting a pointer\<close>

definition pkey :: "('n \<Rightarrow> 'k) \<Rightarrow> ('p \<rightharpoonup> 'n) \<Rightarrow> 'p \<Rightarrow> 'k" where
  "pkey key mem p = key (the (mem p))"

lemma sift_up_map:
  "i < length xs \<Longrightarrow> map f (sift_up (\<lambda>p. key (f p)) xs i x) = sift_up key (map f xs) i (f x)"
proof (induction "\<lambda>p. key (f p)" xs i x rule: sift_up.induct)
  case (1 xs i x)
  show ?case
  proof (cases "0 < i \<and> key (f x) < key (f (xs ! PARENT i))")
    case True
    then have "PARENT i < i" by (simp add: heap_index)
    with 1 True show ?thesis
      by (subst sift_up.simps, subst (2) sift_up.simps) (simp add: map_update)
  next
    case False
    then have "PARENT i < i \<or> i = 0" by (auto simp: heap_index)
    with 1 False show ?thesis
      by (subst sift_up.simps, subst (2) sift_up.simps) (auto simp: map_update)
  qed
qed

lemma sift_up_at_refines:
  assumes "length arr \<ge> n" "i < n" "\<forall>j<n. j \<noteq> i \<longrightarrow> arr ! j = Some (P ! j)" "length P = n"
    and "insert p (set P) \<subseteq> dom mem"
  shows "\<exists>arr'. sift_up_at key mem arr i p = Inr arr' \<and> length arr' = length arr \<and>
     take n arr' = map Some (sift_up (pkey key mem) P i p) \<and> drop n arr' = drop n arr"
  using assms
proof (induction i arbitrary: arr P rule: less_induct)
  case (less i)
  obtain x where x: "mem p = Some x" using less.prems(5) by auto
  show ?case
  proof (cases "0 < i \<and> pkey key mem p < pkey key mem (P ! PARENT i)")
    case True
    then have pi: "PARENT i < i" by (simp add: heap_index)
    have pn: "PARENT i < n" using pi less.prems(2) by simp
    have q: "arr ! PARENT i = Some (P ! PARENT i)" using less.prems(3) pi pn by simp
    have "P ! PARENT i \<in> set P" using pn less.prems(4) by simp
    then obtain y where y: "mem (P ! PARENT i) = Some y" using less.prems(5) by auto
    let ?arr = "arr[i := Some (P ! PARENT i)]" and ?P = "P[i := P ! PARENT i]"
    have step: "sift_up_at key mem arr i p = sift_up_at key mem ?arr (PARENT i) p"
      using True less.prems(1,2) pn q x y
      by (subst sift_up_at.simps) (simp add: node_at_def aget_def aset_def pkey_def)
    have "set ?P \<subseteq> set P"
      using pn less.prems(4) by (auto dest!: set_update_subset_insert [THEN subsetD])
    with less.prems have "insert p (set ?P) \<subseteq> dom mem" by blast
    moreover have "\<forall>j<n. j \<noteq> PARENT i \<longrightarrow> ?arr ! j = Some (?P ! j)"
      using less.prems by (auto simp: nth_list_update)
    ultimately obtain arr' where
      "sift_up_at key mem ?arr (PARENT i) p = Inr arr'" "length arr' = length arr"
      "take n arr' = map Some (sift_up (pkey key mem) ?P (PARENT i) p)"
      "drop n arr' = drop n arr"
      using less.IH [OF pi, of ?arr ?P] less.prems pn by auto
    with step True show ?thesis by (subst sift_up.simps) auto
  next
    case False
    have "sift_up_at key mem arr i p = Inr (arr[i := Some p])"
    proof (cases "i = 0")
      case True
      with less.prems have "arr \<noteq> []" by auto
      with True show ?thesis by (subst sift_up_at.simps) (simp add: aset_def)
    next
      case False
      with \<open>\<not> (0 < i \<and> _)\<close> have "\<not> pkey key mem p < pkey key mem (P ! PARENT i)" by simp
      moreover have pn: "PARENT i < n" "PARENT i \<noteq> i" "PARENT i < length arr"
        using False less.prems heap_index(1) [of i] by auto
      moreover have q: "arr ! PARENT i = Some (P ! PARENT i)" using less.prems(3) pn by simp
      moreover have "P ! PARENT i \<in> set P" using pn less.prems(4) by simp
      then obtain y where y: "mem (P ! PARENT i) = Some y" using less.prems(5) by auto
      ultimately show ?thesis using less.prems x False
        by (subst sift_up_at.simps) (simp add: node_at_def aget_def aset_def pkey_def)
    qed
    moreover have "take n (arr[i := Some p]) = map Some (P[i := p])"
      using less.prems by (intro nth_equalityI) (auto simp: nth_list_update)
    ultimately show ?thesis using False less.prems
      by (subst sift_up.simps) (auto simp: drop_update_cancel)
  qed
qed

lemma heap_insert_at_refines:
  assumes ok: "heap_ok arr n mem" and cap: "n < length arr"
    and p: "p \<in> dom mem" "p \<notin> set (ptrs arr n)"
  shows "\<exists>arr'. sift_up_at key mem arr n p = Inr arr' \<and> length arr' = length arr \<and>
     heap_ok arr' (Suc n) mem \<and>
     vals arr' (Suc n) mem = heap_insert key (the (mem p)) (vals arr n mem) \<and>
     set (ptrs arr' (Suc n)) = insert p (set (ptrs arr n)) \<and>
     drop (Suc n) arr' = drop (Suc n) arr"
proof -
  let ?P = "ptrs arr n @ [p]"
  have len: "length (ptrs arr n) = n" using cap by simp
  have pre: "\<forall>j<Suc n. j \<noteq> n \<longrightarrow> arr ! j = Some (?P ! j)"
    using heap_ok_nth(1) [OF ok] len by (auto simp: nth_append)
  have sub: "insert p (set ?P) \<subseteq> dom mem" using ok p by (auto simp: heap_ok_def)
  from sift_up_at_refines [OF _ _ pre _ sub, of key] cap len
  obtain arr' where a: "sift_up_at key mem arr n p = Inr arr'" "length arr' = length arr"
    "take (Suc n) arr' = map Some (sift_up (pkey key mem) ?P n p)"
    "drop (Suc n) arr' = drop (Suc n) arr" by auto
  let ?Q = "sift_up (pkey key mem) ?P n p"
  have Q: "ptrs arr' (Suc n) = ?Q" by (simp add: ptrs_def a(3) comp_def)
  have "?P[n := p] = ?P" using len by (metis list_update_length)
  then have m: "mset ?Q = mset ?P" using mset_sift_up [of n ?P "pkey key mem" p] len by simp
  note set = mset_eq_setD [OF m] and dist = mset_eq_imp_distinct_iff [OF m]
  have "heap_ok arr' (Suc n) mem"
    using ok p cap a(2,3) Q set dist sub by (auto simp: heap_ok_def)
  moreover have "vals arr' (Suc n) mem = heap_insert key (the (mem p)) (vals arr n mem)"
  proof -
    have "vals arr' (Suc n) mem = map (\<lambda>q. the (mem q)) (sift_up (\<lambda>q. key (the (mem q))) ?P n p)"
      by (simp add: vals_def Q pkey_def [abs_def])
    also have "\<dots> = sift_up key (map (\<lambda>q. the (mem q)) ?P) n (the (mem p))"
      using len by (intro sift_up_map) simp
    finally show ?thesis using len cap by (simp add: heap_insert_def vals_def)
  qed
  ultimately show ?thesis using a Q set by auto
qed

section \<open>Removing the root\<close>

text \<open>\<open>arr[0] = arr[--n]\<close>, then the walk down from the root.\<close>

lemma heap_ok_pop:
  assumes ok: "heap_ok arr (Suc n) mem"
  shows "heap_ok (arr[0 := arr ! n]) n mem"
    and "vals (arr[0 := arr ! n]) n mem = (butlast (vals arr (Suc n) mem))[0 := last (vals arr (Suc n) mem)]"
    and "set (ptrs (arr[0 := arr ! n]) n) = set (ptrs arr (Suc n)) - {ptrs arr (Suc n) ! 0}"
    and "ptrs (arr[0 := arr ! n]) n = (butlast (ptrs arr (Suc n)))[0 := last (ptrs arr (Suc n))]"
proof -
  let ?P = "ptrs arr (Suc n)" and ?arr = "arr[0 := arr ! n]"
  have len: "Suc n \<le> length arr" "length ?P = Suc n" and d: "distinct ?P"
    using ok by (auto simp: heap_ok_def)
  have ne: "arr \<noteq> []" using len by auto
  have lastP: "last ?P = ?P ! n" using len by (metis diff_Suc_1 last_conv_nth length_0_conv nat.simps(3))
  have some: "arr ! j = Some (?P ! j)" if "j \<le> n" for j using heap_ok_nth(1) [OF ok] that by simp
  show pt: "ptrs ?arr n = (butlast ?P)[0 := last ?P]"
  proof (rule nth_equalityI)
    fix i assume "i < length (ptrs ?arr n)"
    then have i: "i < n" using len by simp
    show "ptrs ?arr n ! i = (butlast ?P)[0 := last ?P] ! i"
      using i len ne some [of i] some [of n] lastP
      by (cases i) (auto simp: ptrs_def nth_butlast)
  qed (use len in simp)
  have m: "mset (ptrs ?arr n) = mset (remove1 (?P ! 0) ?P)"
    using mset_pop_list [of ?P] len pt by fastforce
  show s: "set (ptrs ?arr n) = set ?P - {?P ! 0}"
    using mset_eq_setD [OF m] d by simp
  show "vals ?arr n mem = (butlast (vals arr (Suc n) mem))[0 := last (vals arr (Suc n) mem)]"
    using len by (cases "?P = []") (auto simp: vals_def pt map_update map_butlast last_map)
  have "distinct (ptrs ?arr n)"
    using mset_eq_imp_distinct_iff [OF m] d by simp
  moreover have "None \<notin> set (take n ?arr)"
  proof
    assume "None \<in> set (take n ?arr)"
    then obtain i where "i < n" "?arr ! i = None" by (auto simp: in_set_conv_nth)
    with some [of i] some [of n] len ne show False by (cases i) auto
  qed
  ultimately show "heap_ok ?arr n mem" using ok s len by (auto simp: heap_ok_def)
qed

text \<open>
  The same with the guard of the kernel code, which restores the heap only when more than
  one element is left: the node that was the root is untouched.
\<close>

lemma heapify_after_pop:
  assumes ok: "heap_ok arr (Suc n) mem" and g: "g \<longleftrightarrow> 1 < n \<or> 0 < n \<and> g"
  shows "\<exists>mem'. (if g then heapify_at key (arr[0 := arr ! n]) n mem 0 else Inr mem) = Inr mem' \<and>
     heap_ok (arr[0 := arr ! n]) n mem' \<and>
     vals (arr[0 := arr ! n]) n mem' = heap_pop key (vals arr (Suc n) mem) \<and> dom mem' = dom mem \<and>
     (\<forall>p. p \<notin> set (ptrs arr (Suc n)) - {ptrs arr (Suc n) ! 0} \<longrightarrow> mem' p = mem p)"
proof (cases g)
  case True
  with g have "0 < n" by auto
  from heapify_at_refines [OF heap_ok_pop(1) [OF ok] this, of key] True heap_ok_pop(2,3) [OF ok]
  show ?thesis by (fastforce simp: heap_pop_def)
next
  case False
  with g have "n \<le> 1" by auto
  then have "vals (arr[0 := arr ! n]) n mem = heap_pop key (vals arr (Suc n) mem)"
    using heap_ok_pop(2) [OF ok] by (simp add: heap_pop_def sift_down_short)
  with False heap_ok_pop(1) [OF ok] show ?thesis by simp
qed

section \<open>Growing the array\<close>

lemma ptrs_arealloc [simp]: "n \<le> length arr \<Longrightarrow> n \<le> m \<Longrightarrow> ptrs (arealloc arr m) n = ptrs arr n"
  by (simp add: ptrs_def take_arealloc)

lemma vals_arealloc [simp]:
  "n \<le> length arr \<Longrightarrow> n \<le> m \<Longrightarrow> vals (arealloc arr m) n mem = vals arr n mem"
  by (simp add: vals_def)

lemma heap_ok_arealloc: "heap_ok arr n mem \<Longrightarrow> n \<le> m \<Longrightarrow> heap_ok (arealloc arr m) n mem"
  by (auto simp: heap_ok_def take_arealloc)

lemma heap_ok_0 [simp]: "heap_ok arr 0 mem" "vals arr 0 mem = []" "ptrs arr 0 = []"
  by (simp_all add: heap_ok_def vals_def ptrs_def)

lemma heap_ok_extend: "heap_ok arr n mem \<Longrightarrow> p \<notin> set (ptrs arr n) \<Longrightarrow> heap_ok arr n (mem(p \<mapsto> v))"
  by (auto simp: heap_ok_def)

lemma vals_extend: "p \<notin> set (ptrs arr n) \<Longrightarrow> vals arr n (mem(p \<mapsto> v)) = vals arr n mem"
  by (auto simp: vals_def)

text \<open>Two arrays with the same slots below the size are the same to the walk down.\<close>

lemma heapify_at_same_slots:
  assumes "heap_ok arr n mem" "\<And>i. i < n \<Longrightarrow> aget arr' i = aget arr i" "i < n"
  shows "heapify_at key arr' n mem i = heapify_at key arr n mem i"
  using assms(1,3)
proof (induction "n - i" arbitrary: mem i rule: less_induct)
  case less
  have node: "node_at arr' mem j = node_at arr mem j" if "j < n" for j
    using assms(2) [OF that] by (simp add: node_at_def)
  have kl: "key_less_at key arr' n mem j k = key_less_at key arr n mem j k" if "j < n \<Longrightarrow> k < n" for j k
    using node that by (simp add: key_less_at_def)
  have "RCHILD i < n \<Longrightarrow> LCHILD i < n" by (simp add: RCHILD_def LCHILD_def)
  then have "key_less_at key arr' n mem (RCHILD i) (if b then LCHILD i else i) =
      key_less_at key arr n mem (RCHILD i) (if b then LCHILD i else i)" for b
    using less.prems(2) by (intro kl) simp
  moreover have "key_less_at key arr' n mem (LCHILD i) i = key_less_at key arr n mem (LCHILD i) i"
    using less.prems(2) by (intro kl)
  ultimately have sm: "smallest_at key arr' n mem i = smallest_at key arr n mem i"
    by (simp add: smallest_at_def Let_def)
  let ?s = "smallest key (vals arr n mem) i"
  have s: "smallest_at key arr n mem i = Inr ?s" by (rule smallest_at_vals [OF less.prems])
  show ?case
  proof (cases "?s = i")
    case True
    then show ?thesis using s sm by (subst (1 2) heapify_at.simps) simp
  next
    case False
    with smallest_at_bounds [OF s] have b: "i < ?s" "?s < n" by auto
    from heap_swap_at [OF less.prems b(2)] obtain mem' where
      m: "heap_swap mem (ptrs arr n ! i) (ptrs arr n ! ?s) = Inr mem'" "heap_ok arr n mem'" by metis
    have "heapify_at key arr' n mem' ?s = heapify_at key arr n mem' ?s"
      using less.hyps [OF _ m(2) b(2)] b by simp
    then show ?thesis
      using s sm False m b less.prems assms(2) by (subst (1 2) heapify_at.simps) simp
  qed
qed

lemma heapify_at_arealloc:
  assumes "heap_ok arr n mem" "0 < n"
  shows "heapify_at key (arealloc arr n) n mem 0 = heapify_at key arr n mem 0"
proof (rule heapify_at_same_slots [OF assms(1) _ assms(2)])
  fix i assume "i < n"
  with heap_ok_len [OF assms(1)] show "aget (arealloc arr n) i = aget arr i"
    by (simp add: aget_def arealloc_def nth_append)
qed

end
