(* ===== verification/MinQueue.thy ===== *)
theory MinQueue
  imports Prelude
begin

text \<open>
  The contract of a priority queue with fallible operations, as the clients of the heaps
  use it: fill it, then take elements out until it is empty.  The client's loop is defined
  once for any queue; that it ends, never faults and delivers the elements in key order is
  proved from the contract alone.
\<close>

text \<open>\<open>for (x in xs) put(x)\<close>\<close>

fun put_all :: "('x \<Rightarrow> 's \<Rightarrow> 's res) \<Rightarrow> 'x list \<Rightarrow> 's \<Rightarrow> 's res" where
  "put_all put [] s = Inr s"
| "put_all put (x # xs) s = bindE (put x s) (put_all put xs)"

text \<open>\<open>while (nonempty) take()\<close>, collecting what is taken; \<open>None\<close> is "runs forever".\<close>

partial_function (option) take_all ::
  "('s \<Rightarrow> bool) \<Rightarrow> ('s \<Rightarrow> ('x \<times> 's) res) \<Rightarrow> 's \<Rightarrow> ('x list \<times> 's) res option" where
  "take_all nonempty rm s =
     (if nonempty s then
        (case rm s of
           Inl e \<Rightarrow> Some (Inl e)
         | Inr p \<Rightarrow> Option.bind (take_all nonempty rm (snd p))
             (\<lambda>r. Some (bindE r (\<lambda>(xs, t). Inr (fst p # xs, t)))))
      else Some (Inr ([], s)))"

locale min_queue =
  fixes inv :: "'s \<Rightarrow> bool"
    and items :: "'s \<Rightarrow> 'x multiset"
    and key :: "'x \<Rightarrow> 'k::linorder"
    and put :: "'x \<Rightarrow> 's \<Rightarrow> 's res"
    and take_min :: "'s \<Rightarrow> ('x \<times> 's) res"
    and nonempty :: "'s \<Rightarrow> bool"
  assumes put_law: "inv s \<Longrightarrow> \<exists>t. put x s = Inr t \<and> inv t \<and> items t = add_mset x (items s)"
    and take_law: "inv s \<Longrightarrow> items s \<noteq> {#} \<Longrightarrow>
      \<exists>x t. take_min s = Inr (x, t) \<and> inv t \<and> items s = add_mset x (items t) \<and>
            (\<forall>y \<in># items s. key x \<le> key y)"
    and nonempty_law: "inv s \<Longrightarrow> nonempty s \<longleftrightarrow> items s \<noteq> {#}"
begin

lemma put_all_ok:
  "inv s \<Longrightarrow> \<exists>t. put_all put xs s = Inr t \<and> inv t \<and> items t = mset xs + items s"
proof (induction xs arbitrary: s)
  case Nil
  then show ?case by simp
next
  case (Cons x xs)
  from put_law [OF Cons.prems] obtain u where
    "put x s = Inr u" "inv u" "items u = add_mset x (items s)" by blast
  with Cons.IH [of u] show ?case by auto
qed

lemma take_all_sorted:
  "inv s \<Longrightarrow> \<exists>xs t. take_all nonempty take_min s = Some (Inr (xs, t)) \<and> inv t \<and>
     items t = {#} \<and> mset xs = items s \<and> sorted (map key xs)"
proof (induction "size (items s)" arbitrary: s)
  case 0
  then have "items s = {#}" by simp
  with 0 show ?case by (simp add: take_all.simps nonempty_law)
next
  case (Suc n)
  then have ne: "items s \<noteq> {#}" by auto
  from take_law [OF Suc.prems ne] obtain x u where u:
    "take_min s = Inr (x, u)" "inv u" "items s = add_mset x (items u)"
    "\<forall>y \<in># items s. key x \<le> key y" by blast
  have "n = size (items u)" using Suc.hyps(2) u(3) by simp
  from Suc.hyps(1) [OF this u(2)] obtain xs t where t:
    "take_all nonempty take_min u = Some (Inr (xs, t))" "inv t" "items t = {#}"
    "mset xs = items u" "sorted (map key xs)" by blast
  have le: "\<forall>y\<in>set xs. key x \<le> key y" using u(3,4) t(4) by (metis insert_iff set_mset_add_mset_insert set_mset_mset)
  have "take_all nonempty take_min s = Some (Inr (x # xs, t))"
    using u t ne Suc.prems by (subst take_all.simps) (simp add: nonempty_law)
  with u t le show ?case by auto
qed

lemma fill_then_drain:
  "inv s \<Longrightarrow> items s = {#} \<Longrightarrow>
   \<exists>u ys t. put_all put xs s = Inr u \<and> take_all nonempty take_min u = Some (Inr (ys, t)) \<and>
     mset ys = mset xs \<and> sorted (map key ys) \<and> items t = {#} \<and> inv t"
  using put_all_ok [of s xs] take_all_sorted by fastforce

end

end
