(* ===== verification/MinHeap.thy ===== *)
theory MinHeap
  imports HeapStore MinQueue
begin

text \<open>
  The user-space min-heap of \<open>heap_experiments/min_heap_2\<close> (\<open>minHeap.h\<close>, \<open>minHeap.c\<close>
  and its client \<open>launch.c\<close>), with the one function of \<open>min_heap_3\<close> that differs.
\<close>

section \<open>State\<close>

text \<open>
  A \<open>malloc\<close>ed block is reached through a pointer variable that may never have been
  assigned (or been freed), be NULL, or point to the block.
\<close>

datatype 'a mptr = Garbage | Null | Block 'a

definition mblk :: "'a mptr \<Rightarrow> 'a res" where
  "mblk p = (case p of Garbage \<Rightarrow> Inl Uninit | Null \<Rightarrow> Inl NullDeref | Block a \<Rightarrow> Inr a)"

lemma mblk_eq_Inr [res_simps]: "mblk p = Inr a \<longleftrightarrow> p = Block a"
  by (cases p) (auto simp: mblk_def)

lemma mblk_Block [simp]: "mblk (Block a) = Inr a"
  by (simp add: mblk_def)

record node =
  data :: int
  start_tag :: "int option"

text \<open>
  \<open>nodes\<close> and \<open>brk\<close> are not fields of the C struct: they are the heap objects its
  pointers refer to and the next address \<open>malloc\<close> hands out.
\<close>

record minHeap =
  hsize :: nat
  elem :: "node option list mptr"
  elem_test :: "nat option list mptr"
  nodes :: "nat \<rightharpoonup> node"
  brk :: nat

section \<open>Operations\<close>

definition initMinHeap :: "minHeap" where
  "initMinHeap = \<lparr>hsize = 0, elem = Garbage, elem_test = Garbage, nodes = Map.empty, brk = 0\<rparr>"

definition swap_nodes :: "minHeap \<Rightarrow> nat \<Rightarrow> nat \<Rightarrow> minHeap res" where
  "swap_nodes hp n1 n2 = bindE (heap_swap (nodes hp) n1 n2) (\<lambda>m. Inr (hp\<lparr>nodes := m\<rparr>))"

text \<open>The array is looked at only when the left child exists.\<close>

definition heapify :: "minHeap \<Rightarrow> nat \<Rightarrow> minHeap res" where
  "heapify hp i =
     (if LCHILD i < hsize hp then
        bindE (mblk (elem_test hp)) (\<lambda>a.
        bindE (heapify_at data a (hsize hp) (nodes hp) i) (\<lambda>m.
          Inr (hp\<lparr>nodes := m\<rparr>)))
      else Inr hp)"

text \<open>\<open>realloc\<close> of a block, with the C rules for a NULL pointer and for size 0.\<close>

definition mrealloc :: "'a option list mptr \<Rightarrow> nat \<Rightarrow> 'a option list mptr res" where
  "mrealloc p n =
     (case p of
        Garbage \<Rightarrow> Inl Uninit
      | Null \<Rightarrow> Inr (Block (replicate n None))
      | Block a \<Rightarrow> Inr (if n = 0 then Null else Block (arealloc a n)))"

definition insertNode :: "minHeap \<Rightarrow> nat \<Rightarrow> minHeap res" where
  "insertNode hp nd =
     bindE (if hsize hp \<noteq> 0 then mrealloc (elem_test hp) (hsize hp + 1)
            else Inr (Block [None])) (\<lambda>p.
     bindE (mblk p) (\<lambda>a.
     let i = hsize hp in
     bindE (sift_up_at data (nodes hp) a i nd) (\<lambda>a'.
       Inr (hp\<lparr>hsize := i + 1, elem_test := Block a'\<rparr>))))"

text \<open>\<open>deleteNode\<close> prints the root's data before it removes it; the printed value is returned.\<close>

definition deleteNode :: "minHeap \<Rightarrow> (int option \<times> minHeap) res" where
  "deleteNode hp =
     (if hsize hp \<noteq> 0 then
        bindE (mblk (elem_test hp)) (\<lambda>a.
        bindE (node_at a (nodes hp) 0) (\<lambda>root.
        let n = hsize hp - 1 in
        bindE (aget a n) (\<lambda>p.
        bindE (aset a 0 p) (\<lambda>a'.
        bindE (mrealloc (Block a') n) (\<lambda>p'.
        bindE (heapify (hp\<lparr>hsize := n, elem_test := p'\<rparr>) 0) (\<lambda>hp'.
          Inr (Some (data root), hp')))))))
      else
        (case elem_test hp of
           Garbage \<Rightarrow> Inl Uninit
         | Null \<Rightarrow> Inr (None, hp)
         | Block _ \<Rightarrow> Inr (None, hp\<lparr>elem_test := Garbage\<rparr>)))"

definition elem_at :: "minHeap \<Rightarrow> nat \<Rightarrow> node res" where
  "elem_at hp i = bindE (mblk (elem hp)) (\<lambda>a. aget a i)"

function getMaxNode :: "minHeap \<Rightarrow> nat \<Rightarrow> int res" where
  "getMaxNode hp i =
     (if LCHILD i \<ge> hsize hp then bindE (elem_at hp i) (\<lambda>nd. Inr (data nd))
      else
        bindE (getMaxNode hp (LCHILD i)) (\<lambda>l.
        bindE (getMaxNode hp (RCHILD i)) (\<lambda>r.
          if l \<ge> r then Inr l else Inr r)))"
  by pat_completeness auto
termination
  by (relation "measure (\<lambda>(hp, i). hsize hp - i)") (auto simp: LCHILD_def RCHILD_def)

declare getMaxNode.simps [simp del]

text \<open>The variant of \<open>min_heap_3.c\<close> reads the pointer array instead.\<close>

definition elem_test_at :: "minHeap \<Rightarrow> nat \<Rightarrow> node res" where
  "elem_test_at hp i = bindE (mblk (elem_test hp)) (\<lambda>a. node_at a (nodes hp) i)"

function getMaxNode3 :: "minHeap \<Rightarrow> nat \<Rightarrow> int res" where
  "getMaxNode3 hp i =
     (if LCHILD i \<ge> hsize hp then bindE (elem_test_at hp i) (\<lambda>nd. Inr (data nd))
      else
        bindE (getMaxNode3 hp (LCHILD i)) (\<lambda>l.
        bindE (getMaxNode3 hp (RCHILD i)) (\<lambda>r.
          if l \<ge> r then Inr l else Inr r)))"
  by pat_completeness auto
termination
  by (relation "measure (\<lambda>(hp, i). hsize hp - i)") (auto simp: LCHILD_def RCHILD_def)

declare getMaxNode3.simps [simp del]

text \<open>The two loops of \<open>buildMinHeap\<close>: fill \<open>elem\<close>, then heapify from the middle down.\<close>

fun build_fill :: "int list \<Rightarrow> minHeap \<Rightarrow> minHeap res" where
  "build_fill [] hp = Inr hp"
| "build_fill (x # arr) hp =
     bindE (if hsize hp \<noteq> 0 then mrealloc (elem hp) (hsize hp + 1)
            else Inr (Block [None])) (\<lambda>p.
     bindE (mblk p) (\<lambda>a.
     let nd = \<lparr>data = x, start_tag = None\<rparr> in
     bindE (aset a (hsize hp) nd) (\<lambda>a'.
       build_fill arr (hp\<lparr>hsize := hsize hp + 1, elem := Block a'\<rparr>))))"

fun build_heapify :: "nat \<Rightarrow> minHeap \<Rightarrow> minHeap res" where
  "build_heapify 0 hp = heapify hp 0"
| "build_heapify (Suc i) hp = bindE (heapify hp (Suc i)) (build_heapify i)"

definition buildMinHeap :: "minHeap \<Rightarrow> int list \<Rightarrow> minHeap res" where
  "buildMinHeap hp arr =
     bindE (build_fill arr hp) (\<lambda>hp'. build_heapify ((hsize hp' - 1) div 2) hp')"

definition deleteMinHeap :: "minHeap \<Rightarrow> minHeap res" where
  "deleteMinHeap hp =
     (case elem hp of
        Garbage \<Rightarrow> Inl Uninit
      | Null \<Rightarrow> Inr hp
      | Block _ \<Rightarrow> Inr (hp\<lparr>elem := Garbage\<rparr>))"

text \<open>The traversals print; the model returns the printed sequence.\<close>

function inorderTraversal :: "minHeap \<Rightarrow> nat \<Rightarrow> int list res" where
  "inorderTraversal hp i =
     bindE (if LCHILD i < hsize hp then inorderTraversal hp (LCHILD i) else Inr []) (\<lambda>l.
     bindE (elem_at hp i) (\<lambda>nd.
     bindE (if RCHILD i < hsize hp then inorderTraversal hp (RCHILD i) else Inr []) (\<lambda>r.
       Inr (l @ [data nd] @ r))))"
  by pat_completeness auto
termination
  by (relation "measure (\<lambda>(hp, i). hsize hp - i)") (auto simp: LCHILD_def RCHILD_def)

declare inorderTraversal.simps [simp del]

function preorderTraversal :: "minHeap \<Rightarrow> nat \<Rightarrow> int list res" where
  "preorderTraversal hp i =
     bindE (if LCHILD i < hsize hp then preorderTraversal hp (LCHILD i) else Inr []) (\<lambda>l.
     bindE (if RCHILD i < hsize hp then preorderTraversal hp (RCHILD i) else Inr []) (\<lambda>r.
     bindE (elem_at hp i) (\<lambda>nd.
       Inr (l @ r @ [data nd]))))"
  by pat_completeness auto
termination
  by (relation "measure (\<lambda>(hp, i). hsize hp - i)") (auto simp: LCHILD_def RCHILD_def)

declare preorderTraversal.simps [simp del]

function postorderTraversal :: "minHeap \<Rightarrow> nat \<Rightarrow> int list res" where
  "postorderTraversal hp i =
     bindE (elem_at hp i) (\<lambda>nd.
     bindE (if LCHILD i < hsize hp then postorderTraversal hp (LCHILD i) else Inr []) (\<lambda>l.
     bindE (if RCHILD i < hsize hp then postorderTraversal hp (RCHILD i) else Inr []) (\<lambda>r.
       Inr ([data nd] @ l @ r))))"
  by pat_completeness auto
termination
  by (relation "measure (\<lambda>(hp, i). hsize hp - i)") (auto simp: LCHILD_def RCHILD_def)

declare postorderTraversal.simps [simp del]

function levelorder_from :: "minHeap \<Rightarrow> nat \<Rightarrow> int list res" where
  "levelorder_from hp i =
     (if i < hsize hp then
        bindE (elem_at hp i) (\<lambda>nd.
        bindE (levelorder_from hp (i + 1)) (\<lambda>r. Inr (data nd # r)))
      else Inr [])"
  by pat_completeness auto
termination
  by (relation "measure (\<lambda>(hp, i). hsize hp - i)") auto

declare levelorder_from.simps [simp del]

definition levelorderTraversal :: "minHeap \<Rightarrow> int list res" where
  "levelorderTraversal hp = levelorder_from hp 0"

text \<open>
  The client \<open>launch.c\<close>: allocate a node for each of the random numbers and insert it,
  then delete until the heap is empty.  The numbers \<open>rand()\<close> delivers are the argument.
\<close>

definition malloc_insert :: "int \<Rightarrow> minHeap \<Rightarrow> minHeap res" where
  "malloc_insert x hp =
     (let n = brk hp in
      insertNode (hp\<lparr>nodes := (nodes hp)(n \<mapsto> \<lparr>data = x, start_tag = None\<rparr>), brk := n + 1\<rparr>) n)"

definition delete_printed :: "minHeap \<Rightarrow> (int \<times> minHeap) res" where
  "delete_printed hp = bindE (deleteNode hp) (\<lambda>(x, hp').
     case x of None \<Rightarrow> Inl Uninit | Some d \<Rightarrow> Inr (d, hp'))"

definition launch_main :: "int list \<Rightarrow> (int list \<times> minHeap) res option" where
  "launch_main xs =
     (case put_all malloc_insert xs initMinHeap of
        Inl e \<Rightarrow> Some (Inl e)
      | Inr hp \<Rightarrow> take_all (\<lambda>hp. hsize hp \<noteq> 0) delete_printed hp)"

end
