(* ===== verification/MinHeap_Correct.thy ===== *)
theory MinHeap_Correct
  imports MinHeap
begin

text \<open>
  Correctness of the user-space min-heap: insertion and deletion refine the abstract array
  heap and keep the invariant, the client program prints its numbers in order and ends,
  and the auxiliary routines are characterised, with the inputs on which they go wrong.
\<close>

section \<open>Invariant\<close>

definition hvals :: "minHeap \<Rightarrow> node list" where
  "hvals hp = (case elem_test hp of Block a \<Rightarrow> vals a (hsize hp) (nodes hp) | _ \<Rightarrow> [])"

definition hptrs :: "minHeap \<Rightarrow> nat list" where
  "hptrs hp = (case elem_test hp of Block a \<Rightarrow> ptrs a (hsize hp) | _ \<Rightarrow> [])"

definition hp_shape :: "minHeap \<Rightarrow> bool" where
  "hp_shape hp \<longleftrightarrow>
     (hsize hp \<noteq> 0 \<longrightarrow> (case elem_test hp of Block a \<Rightarrow> heap_ok a (hsize hp) (nodes hp) | _ \<Rightarrow> False))"

definition hp_inv :: "minHeap \<Rightarrow> bool" where
  "hp_inv hp \<longleftrightarrow> hp_shape hp \<and> is_heap data (hvals hp)"

definition hp_fresh :: "minHeap \<Rightarrow> bool" where
  "hp_fresh hp \<longleftrightarrow> (\<forall>p. p \<in> dom (nodes hp) \<or> p \<in> set (hptrs hp) \<longrightarrow> p < brk hp)"

lemma hp_shapeE:
  assumes "hp_shape hp" "hsize hp \<noteq> 0"
  obtains a where "elem_test hp = Block a" "heap_ok a (hsize hp) (nodes hp)"
    "hvals hp = vals a (hsize hp) (nodes hp)" "hptrs hp = ptrs a (hsize hp)"
  using assms by (auto simp: hp_shape_def hvals_def hptrs_def split: mptr.splits)

lemma length_hvals: "hp_shape hp \<Longrightarrow> length (hvals hp) = hsize hp"
  by (cases "hsize hp = 0")
     (auto simp: hp_shape_def hvals_def heap_ok_len min_absorb2 split: mptr.splits)

lemma hvals_empty: "hsize hp = 0 \<Longrightarrow> hvals hp = []"
  and hptrs_empty: "hsize hp = 0 \<Longrightarrow> hptrs hp = []"
  by (auto simp: hvals_def hptrs_def split: mptr.splits)

section \<open>The operations against the abstract heap\<close>

lemma heapify_refines:
  assumes "hp_shape hp" "i < hsize hp"
  shows "\<exists>m. heapify hp i = Inr (hp\<lparr>nodes := m\<rparr>) \<and> dom m = dom (nodes hp) \<and>
     hp_shape (hp\<lparr>nodes := m\<rparr>) \<and> hvals (hp\<lparr>nodes := m\<rparr>) = sift_down data (hvals hp) i"
proof -
  obtain a where a: "elem_test hp = Block a" "heap_ok a (hsize hp) (nodes hp)"
    "hvals hp = vals a (hsize hp) (nodes hp)"
    using assms by (elim hp_shapeE) auto
  show ?thesis
  proof (cases "LCHILD i < hsize hp")
    case True
    then show ?thesis
      using heapify_at_refines [OF a(2) assms(2), of data] a
      by (auto simp: heapify_def hp_shape_def hvals_def)
  next
    case False
    have "smallest data (hvals hp) i = i"
      using False length_hvals [OF assms(1)]
      by (simp add: smallest_def LCHILD_def RCHILD_def)
    with False assms show ?thesis
      by (intro exI [of _ "nodes hp"]) (subst sift_down.simps, simp add: heapify_def)
  qed
qed

lemma insertNode_refines:
  assumes inv: "hp_shape hp" and p: "nodes hp p = Some nd" "p \<notin> set (hptrs hp)"
  shows "\<exists>hp'. insertNode hp p = Inr hp' \<and> hp_shape hp' \<and>
     hvals hp' = heap_insert data nd (hvals hp) \<and> nodes hp' = nodes hp \<and> brk hp' = brk hp \<and>
     set (hptrs hp') = insert p (set (hptrs hp)) \<and> hsize hp' = Suc (hsize hp)"
proof -
  obtain b where b: "heap_ok b (hsize hp) (nodes hp)" "hsize hp < length b"
    "hvals hp = vals b (hsize hp) (nodes hp)" "hptrs hp = ptrs b (hsize hp)"
    "bindE (if hsize hp \<noteq> 0 then mrealloc (elem_test hp) (hsize hp + 1) else Inr (Block [None])) mblk
       = Inr b"
  proof (cases "hsize hp = 0")
    case True
    then show ?thesis
      by (intro that [of "[None]"]) (auto simp: hvals_empty hptrs_empty)
  next
    case False
    obtain a where "elem_test hp = Block a" "heap_ok a (hsize hp) (nodes hp)"
      "hvals hp = vals a (hsize hp) (nodes hp)" "hptrs hp = ptrs a (hsize hp)"
      using inv False by (elim hp_shapeE)
    with False show ?thesis
      by (intro that [of "arealloc a (hsize hp + 1)"])
         (auto simp: mrealloc_def heap_ok_arealloc heap_ok_len)
  qed
  have "p \<in> dom (nodes hp)" "p \<notin> set (ptrs b (hsize hp))" using p b(4) by auto
  from heap_insert_at_refines [OF b(1,2) this, of data] p b
  show ?thesis
    by (auto simp: insertNode_def bindE_assoc [symmetric] Let_def hp_shape_def hvals_def hptrs_def)
qed

lemma deleteNode_refines:
  assumes inv: "hp_shape hp" and ne: "hsize hp \<noteq> 0"
  shows "\<exists>hp'. deleteNode hp = Inr (Some (data (hvals hp ! 0)), hp') \<and> hp_shape hp' \<and>
     hvals hp' = heap_pop data (hvals hp) \<and> dom (nodes hp') = dom (nodes hp) \<and> brk hp' = brk hp \<and>
     set (hptrs hp') \<subseteq> set (hptrs hp) \<and> Suc (hsize hp') = hsize hp"
proof -
  obtain a where a: "elem_test hp = Block a" "heap_ok a (hsize hp) (nodes hp)"
    "hvals hp = vals a (hsize hp) (nodes hp)" "hptrs hp = ptrs a (hsize hp)"
    using inv ne by (elim hp_shapeE)
  obtain n where n: "hsize hp = Suc n" using ne by (cases "hsize hp") auto
  note ok = a(2) [unfolded n] and pop = heap_ok_pop [OF a(2) [unfolded n]]
  let ?a = "a[0 := a ! n]"
  have nth: "a ! n = Some (ptrs a (Suc n) ! n)" and len: "Suc n \<le> length a" "a \<noteq> []"
    using heap_ok_nth(1) [OF ok, of n] heap_ok_len [OF ok] by auto
  let ?p = "if n = 0 then Null else Block (arealloc ?a n)"
  let ?hp = "hp\<lparr>hsize := n, elem_test := ?p\<rparr>"
  have step: "deleteNode hp = bindE (heapify ?hp 0) (\<lambda>hp'. Inr (Some (data (hvals hp ! 0)), hp'))"
    using n a ok nth len
    by (simp add: deleteNode_def aset_def mrealloc_def Let_def)
  have shape: "hp_shape ?hp"
    using pop(1) len by (simp add: hp_shape_def heap_ok_arealloc)
  have "hvals ?hp = vals ?a n (nodes hp)" using len by (simp add: hvals_def)
  then have hv: "hvals ?hp = (butlast (hvals hp))[0 := last (hvals hp)]"
    using pop(2) a(3) n by simp
  have "set (hptrs ?hp) \<subseteq> set (ptrs ?a n)" using len by (simp add: hptrs_def)
  then have hs: "set (hptrs ?hp) \<subseteq> set (hptrs hp)"
    using pop(3) a(4) n by auto
  show ?thesis
  proof (cases "n = 0")
    case True
    with step n shape hv hs a show ?thesis
      by (auto simp: heapify_def hvals_empty hptrs_empty heap_pop_def sift_down_short hp_shape_def)
  next
    case False
    then have "0 < hsize ?hp" by simp
    from heapify_refines [OF shape this] step hv hs n False show ?thesis
      by (auto simp: heap_pop_def hptrs_def)
  qed
qed

section \<open>The invariant is kept\<close>

lemma insertNode_inv:
  assumes "hp_inv hp" "nodes hp p = Some nd" "p \<notin> set (hptrs hp)"
  shows "\<exists>hp'. insertNode hp p = Inr hp' \<and> hp_inv hp' \<and>
     mset (hvals hp') = add_mset nd (mset (hvals hp)) \<and> hsize hp' = Suc (hsize hp) \<and>
     nodes hp' = nodes hp \<and> brk hp' = brk hp \<and> set (hptrs hp') = insert p (set (hptrs hp))"
  using insertNode_refines [of hp p nd] assms
  by (fastforce simp: hp_inv_def is_heap_insert mset_heap_insert)

lemma deleteNode_inv:
  assumes "hp_inv hp" "hsize hp \<noteq> 0"
  shows "\<exists>hp'. deleteNode hp = Inr (Some (data (hvals hp ! 0)), hp') \<and> hp_inv hp' \<and>
     add_mset (hvals hp ! 0) (mset (hvals hp')) = mset (hvals hp) \<and> Suc (hsize hp') = hsize hp \<and>
     (hp_fresh hp \<longrightarrow> hp_fresh hp')"
proof -
  from assms have shape: "hp_shape hp" by (simp add: hp_inv_def)
  from length_hvals [OF this] assms have ne: "hvals hp \<noteq> []" by auto
  then have "hvals hp ! 0 \<in># mset (hvals hp)" by simp
  moreover obtain hp' where "deleteNode hp = Inr (Some (data (hvals hp ! 0)), hp')" "hp_shape hp'"
    "hvals hp' = heap_pop data (hvals hp)" "dom (nodes hp') = dom (nodes hp)" "brk hp' = brk hp"
    "set (hptrs hp') \<subseteq> set (hptrs hp)" "Suc (hsize hp') = hsize hp"
    using deleteNode_refines [OF shape assms(2)] by blast
  ultimately show ?thesis
    using assms ne by (auto simp: hp_inv_def is_heap_pop mset_heap_pop hp_fresh_def)
qed

lemma malloc_insert_inv:
  assumes "hp_inv hp" "hp_fresh hp"
  shows "\<exists>hp'. malloc_insert x hp = Inr hp' \<and> hp_inv hp' \<and> hp_fresh hp' \<and>
     mset (map data (hvals hp')) = add_mset x (mset (map data (hvals hp)))"
proof -
  let ?n = "brk hp" and ?nd = "\<lparr>data = x, start_tag = None\<rparr>"
  let ?hp = "hp\<lparr>nodes := (nodes hp)(?n \<mapsto> ?nd), brk := ?n + 1\<rparr>"
  have notin: "?n \<notin> set (hptrs hp)" using assms(2) by (auto simp: hp_fresh_def)
  then have "hvals ?hp = hvals hp" "hptrs ?hp = hptrs hp"
    by (auto simp: hvals_def hptrs_def vals_extend split: mptr.splits)
  moreover have "hp_shape ?hp"
    using assms(1) notin
    by (auto simp: hp_inv_def hp_shape_def hptrs_def heap_ok_extend split: mptr.splits)
  ultimately have "hp_inv ?hp" "nodes ?hp ?n = Some ?nd" "?n \<notin> set (hptrs ?hp)"
    using assms(1) notin by (auto simp: hp_inv_def)
  from insertNode_inv [OF this] \<open>hvals ?hp = hvals hp\<close> \<open>hptrs ?hp = hptrs hp\<close> assms(2)
  show ?thesis by (fastforce simp: malloc_insert_def Let_def hp_fresh_def)
qed

section \<open>The heap as a priority queue\<close>

interpretation mh: min_queue
  "\<lambda>hp. hp_inv hp \<and> hp_fresh hp" "\<lambda>hp. mset (map data (hvals hp))" "\<lambda>x::int. x"
  malloc_insert delete_printed "\<lambda>hp. hsize hp \<noteq> 0"
proof (unfold_locales, goal_cases)
  case (1 s x)
  then show ?case using malloc_insert_inv by auto
next
  case (2 s)
  then have inv: "hp_inv s" "hp_shape s" and "hvals s \<noteq> []" by (auto simp: hp_inv_def)
  then have ne: "hsize s \<noteq> 0" using hvals_empty by blast
  from deleteNode_inv [OF inv(1) ne] obtain t where
    t: "deleteNode s = Inr (Some (data (hvals s ! 0)), t)" "hp_inv t"
    "add_mset (hvals s ! 0) (mset (hvals t)) = mset (hvals s)" "hp_fresh s \<longrightarrow> hp_fresh t" by blast
  have "mset (map data (hvals s)) = image_mset data (mset (hvals s))" by simp
  also have "\<dots> = add_mset (data (hvals s ! 0)) (mset (map data (hvals t)))"
    by (simp flip: t(3))
  finally have "mset (map data (hvals s)) = add_mset (data (hvals s ! 0)) (mset (map data (hvals t)))" .
  moreover have "\<forall>y \<in># mset (map data (hvals s)). data (hvals s ! 0) \<le> y"
    using inv(1) by (auto simp: hp_inv_def is_heap_root_min_set)
  ultimately show ?case using 2 t by (auto simp: delete_printed_def)
next
  case (3 s)
  then have "length (hvals s) = hsize s" by (simp add: hp_inv_def length_hvals)
  then show ?case by (cases "hvals s") auto
qed

lemma initMinHeap_inv: "hp_inv initMinHeap" "hp_fresh initMinHeap" "hvals initMinHeap = []"
  by (simp_all add: initMinHeap_def hp_inv_def hp_shape_def hvals_def hp_fresh_def hptrs_def)

section \<open>Building a heap in place\<close>

lemma build_heapify_heap:
  "hp_shape hp \<Longrightarrow> i < hsize hp \<Longrightarrow> heap_from data (Suc i) (hvals hp) \<Longrightarrow>
   \<exists>hp'. build_heapify i hp = Inr hp' \<and> hp_inv hp' \<and> hsize hp' = hsize hp \<and>
     mset (hvals hp') = mset (hvals hp)"
proof (induction i hp rule: build_heapify.induct)
  case (1 hp)
  have "is_heap data (sift_down data (hvals hp) 0)"
    using 1 length_hvals [of hp] by (intro sift_down_heap heap_hole_extend) auto
  with heapify_refines [OF 1(1,2)] 1 length_hvals [of hp] show ?case
    by (auto simp: hp_inv_def mset_sift_down)
next
  case (2 i hp)
  obtain m where m: "heapify hp (Suc i) = Inr (hp\<lparr>nodes := m\<rparr>)" "hp_shape (hp\<lparr>nodes := m\<rparr>)"
    "hvals (hp\<lparr>nodes := m\<rparr>) = sift_down data (hvals hp) (Suc i)"
    using heapify_refines [OF "2.prems"(1,2)] by blast
  have "heap_from data (Suc i) (sift_down data (hvals hp) (Suc i))"
    using "2.prems" length_hvals [of hp] by (intro sift_down_heap heap_hole_extend) auto
  with 2 m length_hvals [of hp] show ?case by (simp add: mset_sift_down)
qed

lemma build_fill_garbage:
  "(hsize hp \<noteq> 0 \<longrightarrow> (\<exists>a. elem hp = Block a \<and> length a = hsize hp)) \<Longrightarrow>
   \<exists>hp'. build_fill arr hp = Inr hp' \<and> hsize hp' = hsize hp + length arr \<and>
     elem_test hp' = elem_test hp"
proof (induction arr hp rule: build_fill.induct)
  case (1 hp)
  then show ?case by simp
next
  case (2 x arr hp)
  show ?case
  proof (cases "hsize hp = 0")
    case True
    with 2 show ?thesis by (auto simp: aset_def Let_def)
  next
    case False
    with 2 show ?thesis by (auto simp: aset_def Let_def mrealloc_def)
  qed
qed

lemma build_heapify_garbage:
  "elem_test hp = Garbage \<Longrightarrow> 2 \<le> hsize hp \<Longrightarrow> build_heapify i hp = Inl Uninit"
  by (induction i) (auto simp: heapify_def mblk_def LCHILD_def)

section \<open>The maximum\<close>

inductive anc :: "nat \<Rightarrow> nat \<Rightarrow> bool" where
  anc_refl: "anc i i"
| anc_step: "0 < j \<Longrightarrow> anc i (PARENT j) \<Longrightarrow> anc i j"

lemma anc_ge: "anc i j \<Longrightarrow> i \<le> j"
  by (induction rule: anc.induct) (auto dest: PARENT_less)

lemma anc_children: "anc i j \<Longrightarrow> j = i \<or> anc (LCHILD i) j \<or> anc (RCHILD i) j"
proof (induction rule: anc.induct)
  case (anc_step j i)
  then show ?case
    by (cases "PARENT j = i") (auto simp: PARENT_eq_iff intro: anc.intros)
qed simp

lemma anc_root: "anc 0 j"
  by (induction j rule: less_induct) (metis anc.simps PARENT_less neq0_conv)

lemma elem_test_at_ok: "hp_shape hp \<Longrightarrow> i < hsize hp \<Longrightarrow> elem_test_at hp i = Inr (hvals hp ! i)"
  by (erule hp_shapeE) (auto simp: elem_test_at_def)

lemma getMaxNode3_odd:
  assumes inv: "hp_inv hp" and odd: "odd (hsize hp)"
  shows "i < hsize hp \<Longrightarrow> \<exists>m. getMaxNode3 hp i = Inr m \<and>
     (\<forall>j<hsize hp. anc i j \<longrightarrow> data (hvals hp ! j) \<le> m) \<and> (\<exists>j<hsize hp. data (hvals hp ! j) = m)"
proof (induction "hsize hp - i" arbitrary: i rule: less_induct)
  case less
  from inv have shape: "hp_shape hp" and heap: "is_heap data (hvals hp)" by (auto simp: hp_inv_def)
  note len = length_hvals [OF shape]
  show ?case
  proof (cases "LCHILD i < hsize hp")
    case False
    then have "j = i" if "anc i j" "j < hsize hp" for j
      using that anc_children [of i j] anc_ge child_greater(1)
      by (auto simp: LCHILD_def RCHILD_def dest!: anc_ge)
    with False less.prems elem_test_at_ok [OF shape] show ?thesis
      by (subst getMaxNode3.simps) auto
  next
    case True
    then have R: "RCHILD i < hsize hp" using odd unfolding LCHILD_def RCHILD_def by presburger
    have dec: "hsize hp - LCHILD i < hsize hp - i" "hsize hp - RCHILD i < hsize hp - i"
      using True R child_greater [of i] by linarith+
    obtain l where l: "getMaxNode3 hp (LCHILD i) = Inr l"
      "\<forall>j<hsize hp. anc (LCHILD i) j \<longrightarrow> data (hvals hp ! j) \<le> l" "\<exists>j<hsize hp. data (hvals hp ! j) = l"
      using less.hyps [OF dec(1) True] by blast
    obtain r where r: "getMaxNode3 hp (RCHILD i) = Inr r"
      "\<forall>j<hsize hp. anc (RCHILD i) j \<longrightarrow> data (hvals hp ! j) \<le> r" "\<exists>j<hsize hp. data (hvals hp ! j) = r"
      using less.hyps [OF dec(2) R] by blast
    have "data (hvals hp ! i) \<le> data (hvals hp ! LCHILD i)"
      using heap_fromD [OF heap, of "LCHILD i"] True len by simp
    also have "\<dots> \<le> l" using l(2) True by (auto intro: anc_refl)
    finally have root: "data (hvals hp ! i) \<le> l" .
    have "\<forall>j<hsize hp. anc i j \<longrightarrow> data (hvals hp ! j) \<le> max l r"
      using l(2) r(2) root anc_children [of i] by (metis max.coboundedI1 max.coboundedI2)
    moreover have "getMaxNode3 hp i = Inr (max l r)"
      using True l(1) r(1) by (subst getMaxNode3.simps) (auto simp: max_def)
    ultimately show ?thesis using l(3) r(3) by (metis max_def)
  qed
qed

lemma getMaxNode3_even:
  assumes shape: "hp_shape hp" and a: "elem_test hp = Block a" "length a = hsize hp"
    and even: "even (hsize hp)" "0 < hsize hp"
  shows "i < hsize hp \<Longrightarrow> (case getMaxNode3 hp i of
     Inl e \<Rightarrow> e = OutOfBounds | Inr m \<Rightarrow> \<not> anc i (PARENT (hsize hp)))"
proof (induction "hsize hp - i" arbitrary: i rule: less_induct)
  case less
  let ?n = "hsize hp"
  have out: "getMaxNode3 hp ?n = Inl OutOfBounds"
    using a by (subst getMaxNode3.simps) (simp add: elem_test_at_def LCHILD_def node_at_def aget_def)
  have p: "LCHILD (PARENT ?n) < ?n" "RCHILD (PARENT ?n) = ?n"
    using even unfolding LCHILD_def RCHILD_def PARENT_def by presburger+
  show ?case
  proof (cases "LCHILD i < ?n")
    case False
    then have "\<not> anc i (PARENT ?n)" using p(1) anc_ge [of i "PARENT ?n"] by (auto simp: LCHILD_def)
    with False less.prems elem_test_at_ok [OF shape] show ?thesis
      by (subst getMaxNode3.simps) auto
  next
    case True
    have dec: "?n - LCHILD i < ?n - i" using True child_greater(1) [of i] by linarith
    note L = less.hyps [OF dec True]
    have rec: "getMaxNode3 hp i = bindE (getMaxNode3 hp (LCHILD i)) (\<lambda>l.
        bindE (getMaxNode3 hp (RCHILD i)) (\<lambda>r. if l \<ge> r then Inr l else Inr r))"
      using True by (subst getMaxNode3.simps) simp
    have "RCHILD i \<le> ?n" using True by (simp add: LCHILD_def RCHILD_def)
    then consider "RCHILD i = ?n" | "RCHILD i < ?n" by linarith
    then show ?thesis
    proof cases
      case 1
      with rec out L show ?thesis
        by (cases "getMaxNode3 hp (LCHILD i)") auto
    next
      case 2
      with p(2) have "PARENT ?n \<noteq> i" by auto
      moreover have "PARENT ?n \<noteq> i \<Longrightarrow> anc i (PARENT ?n) \<Longrightarrow>
          anc (LCHILD i) (PARENT ?n) \<or> anc (RCHILD i) (PARENT ?n)"
        using anc_children by blast
      moreover have "?n - RCHILD i < ?n - i" using 2 child_greater(2) [of i] by linarith
      note R = less.hyps [OF this 2]
      ultimately show ?thesis using rec L R
        by (cases "getMaxNode3 hp (LCHILD i)"; cases "getMaxNode3 hp (RCHILD i)") auto
    qed
  qed
qed

end
