(* ===== verification/MinHeap_Props.thy ===== *)
theory MinHeap_Props
  imports MinHeap_Correct "HOL-Library.Tree"
begin

text \<open>
  The properties of the user-space min-heap: the client sorts, insertion and deletion keep a
  heap, and what the functions that read the other array do.
\<close>

section \<open>The traversals and the tree in the array\<close>

function tree_of :: "nat \<Rightarrow> (nat \<Rightarrow> 'a) \<Rightarrow> nat \<Rightarrow> 'a tree" where
  "tree_of n f i =
     (if i < n then Node (tree_of n f (LCHILD i)) (f i) (tree_of n f (RCHILD i)) else Leaf)"
  by pat_completeness auto
termination
  by (relation "measure (\<lambda>(n, f, i). n - i)") (auto simp: LCHILD_def RCHILD_def)

declare tree_of.simps [simp del]

text \<open>The array \<open>elem\<close> holds \<open>f 0, f 1, ...\<close> for each index below the size.\<close>

definition elem_holds :: "minHeap \<Rightarrow> (nat \<Rightarrow> int) \<Rightarrow> bool" where
  "elem_holds hp f \<longleftrightarrow> (\<forall>i < hsize hp. \<exists>nd. elem_at hp i = Inr nd \<and> data nd = f i)"

lemma tree_of_leaf: "\<not> i < n \<Longrightarrow> tree_of n f i = Leaf"
  by (subst tree_of.simps) simp

lemma traversals_tree:
  assumes "elem_holds hp f"
  shows "i < hsize hp \<Longrightarrow>
    inorderTraversal hp i = Inr (inorder (tree_of (hsize hp) f i)) \<and>
    preorderTraversal hp i = Inr (postorder (tree_of (hsize hp) f i)) \<and>
    postorderTraversal hp i = Inr (preorder (tree_of (hsize hp) f i))"
proof (induction "hsize hp - i" arbitrary: i rule: less_induct)
  case less
  obtain nd where nd: "elem_at hp i = Inr nd" "data nd = f i"
    using assms less.prems by (auto simp: elem_holds_def)
  have sub: "hsize hp - LCHILD i < hsize hp - i" "hsize hp - RCHILD i < hsize hp - i"
    using less.prems by (auto simp: LCHILD_def RCHILD_def)
  note IH = less.hyps [OF sub(1)] less.hyps [OF sub(2)]
  have t: "tree_of (hsize hp) f i =
     Node (tree_of (hsize hp) f (LCHILD i)) (f i) (tree_of (hsize hp) f (RCHILD i))"
    using less.prems by (subst tree_of.simps) simp
  show ?case
    using nd IH tree_of_leaf [of "LCHILD i" "hsize hp" f] tree_of_leaf [of "RCHILD i" "hsize hp" f]
    by (subst inorderTraversal.simps, subst preorderTraversal.simps, subst postorderTraversal.simps,
        cases "LCHILD i < hsize hp"; cases "RCHILD i < hsize hp") (simp_all add: t)
qed

section \<open>Properties\<close>

text \<open>C11: The client program: for every sequence of random numbers, the inserts and the deletion loop
  run without a fault, the loop ends, and the numbers it prints are exactly the inserted ones in
  ascending order.\<close>

theorem launch_main_sorts:
  "\<exists>ys hp. launch_main xs = Some (Inr (ys, hp)) \<and> sorted ys \<and> mset ys = mset xs \<and> hsize hp = 0"
proof -
  have "hp_inv initMinHeap \<and> hp_fresh initMinHeap" "mset (map data (hvals initMinHeap)) = {#}"
    using initMinHeap_inv by simp_all
  from mh.fill_then_drain [OF this, of xs] obtain u ys t where
    t: "put_all malloc_insert xs initMinHeap = Inr u"
      "take_all (\<lambda>hp. hsize hp \<noteq> 0) delete_printed u = Some (Inr (ys, t))"
      "mset ys = mset xs" "sorted (map (\<lambda>x. x) ys)" "mset (map data (hvals t)) = {#}" "hp_inv t" by blast
  from t(5,6) have "hsize t = 0" using length_hvals [of t] by (simp add: hp_inv_def)
  with t show ?thesis by (simp add: launch_main_def)
qed

text \<open>Inserting an allocated node that is not in the heap never faults, keeps the heap order and adds
  exactly that node.\<close>

theorem insertNode_correct:
  assumes "hp_inv hp" "nodes hp p = Some nd" "p \<notin> set (hptrs hp)"
  shows "\<exists>hp'. insertNode hp p = Inr hp' \<and> hp_inv hp' \<and>
     mset (hvals hp') = add_mset nd (mset (hvals hp)) \<and> hsize hp' = Suc (hsize hp)"
  using insertNode_inv [OF assms] by blast

definition heap_of_two :: minHeap where
  "heap_of_two = \<lparr>hsize = 2, elem = Garbage, elem_test = Block [Some 0, Some 1],
     nodes = [0 \<mapsto> \<lparr>data = 3, start_tag = None\<rparr>, 1 \<mapsto> \<lparr>data = 5, start_tag = None\<rparr>,
              2 \<mapsto> \<lparr>data = 4, start_tag = None\<rparr>], brk = 3\<rparr>"

lemma heap_of_two_inv: "hp_inv heap_of_two" "hptrs heap_of_two = [0, 1]" "map data (hvals heap_of_two) = [3, 5]"
  by (auto simp: heap_of_two_def hp_inv_def hp_shape_def hvals_def hptrs_def heap_ok_def ptrs_def vals_def
      heap_from_def numeral_2_eq_2 less_Suc_eq PARENT_def)

lemma heap_of_two_fields [simp]:
  "hsize heap_of_two = 2" "nodes heap_of_two 2 = Some \<lparr>data = 4, start_tag = None\<rparr>"
  by (simp_all add: heap_of_two_def)

theorem insertNode_correct_witness:
  "\<exists>hp'. insertNode heap_of_two 2 = Inr hp' \<and> hp_inv hp' \<and> hsize hp' = 3"
  using insertNode_correct [of heap_of_two 2 "\<lparr>data = 4, start_tag = None\<rparr>"] heap_of_two_inv
  by auto

text \<open>Deleting from a non-empty heap never faults, prints and removes a minimal element, keeps the heap
  order and all other elements.\<close>

theorem deleteNode_correct:
  assumes "hp_inv hp" "hsize hp \<noteq> 0"
  shows "\<exists>nd hp'. deleteNode hp = Inr (Some (data nd), hp') \<and> hp_inv hp' \<and>
     mset (hvals hp) = add_mset nd (mset (hvals hp')) \<and> (\<forall>y \<in> set (hvals hp). data nd \<le> data y) \<and>
     Suc (hsize hp') = hsize hp"
proof -
  from deleteNode_inv [OF assms] obtain hp' where
    d: "deleteNode hp = Inr (Some (data (hvals hp ! 0)), hp')" "hp_inv hp'"
      "add_mset (hvals hp ! 0) (mset (hvals hp')) = mset (hvals hp)" "Suc (hsize hp') = hsize hp" by blast
  have "\<forall>y \<in> set (hvals hp). data (hvals hp ! 0) \<le> data y"
    using assms(1) is_heap_root_min_set by (auto simp: hp_inv_def)
  with d show ?thesis by metis
qed

theorem deleteNode_correct_witness:
  "\<exists>(nd :: node) hp'. deleteNode heap_of_two = Inr (Some (data nd), hp') \<and> hp_inv hp' \<and> hsize hp' = 1"
  using deleteNode_correct [of heap_of_two] heap_of_two_inv(1)
  by (simp add: numeral_2_eq_2) blast

text \<open>The loop of \<open>buildMinHeap\<close> that heapifies from the middle down turns any array of distinct
  live nodes into a heap with the same elements.\<close>

theorem bottom_up_heapify:
  assumes "hp_shape hp" "hsize hp \<noteq> 0"
  shows "\<exists>hp'. build_heapify ((hsize hp - 1) div 2) hp = Inr hp' \<and> hp_inv hp' \<and>
     mset (hvals hp') = mset (hvals hp)"
proof -
  let ?i = "(hsize hp - 1) div 2"
  have "?i < hsize hp" using assms(2) by simp
  moreover have "heap_from data (Suc ?i) (hvals hp)"
    using length_hvals [OF assms(1)] by (auto simp: heap_from_def PARENT_def)
  ultimately show ?thesis using build_heapify_heap [OF assms(1)] by blast
qed

theorem bottom_up_heapify_witness:
  "\<exists>hp'. build_heapify 0 (heap_of_two\<lparr>elem_test := Block [Some 1, Some 0]\<rparr>) = Inr hp' \<and> hp_inv hp'"
proof -
  let ?hp = "heap_of_two\<lparr>elem_test := Block [Some 1, Some 0]\<rparr>"
  have "hp_shape ?hp"
    by (auto simp: heap_of_two_def hp_shape_def heap_ok_def ptrs_def numeral_2_eq_2)
  from bottom_up_heapify [OF this] show ?thesis by (simp add: heap_of_two_def) blast
qed

text \<open>\<open>buildMinHeap\<close> itself never gets there: it fills \<open>elem\<close> but heapifies \<open>elem_test\<close>, which on a
  fresh heap was never assigned, so every array of two or more numbers ends in a read through an
  uninitialised pointer.\<close>

theorem buildMinHeap_uninitialised:
  assumes "2 \<le> length arr"
  shows "buildMinHeap initMinHeap arr = Inl Uninit"
proof -
  obtain hp' where hp': "build_fill arr initMinHeap = Inr hp'" "hsize hp' = length arr" "elem_test hp' = Garbage"
    using build_fill_garbage [of initMinHeap arr] by (auto simp: initMinHeap_def)
  with build_heapify_garbage [of hp'] assms show ?thesis by (simp add: buildMinHeap_def)
qed

theorem buildMinHeap_uninitialised_witness: "buildMinHeap initMinHeap [4, 2] = Inl Uninit"
  using buildMinHeap_uninitialised [of "[4, 2]"] by simp

text \<open>\<open>getMaxNode\<close> of \<open>min_heap_3.c\<close> returns the maximum of a heap with an odd number of nodes.\<close>

theorem getMaxNode_odd:
  assumes "hp_inv hp" "odd (hsize hp)"
  shows "\<exists>m. getMaxNode3 hp 0 = Inr m \<and> m \<in> data ` set (hvals hp) \<and> (\<forall>x \<in> set (hvals hp). data x \<le> m)"
proof -
  have len: "length (hvals hp) = hsize hp" using assms(1) length_hvals by (simp add: hp_inv_def)
  have "0 < hsize hp" using assms(2) by (auto intro: Nat.gr0I)
  from getMaxNode3_odd [OF assms this] obtain m where m: "getMaxNode3 hp 0 = Inr m"
    "\<forall>j<hsize hp. anc 0 j \<longrightarrow> data (hvals hp ! j) \<le> m" "\<exists>j<hsize hp. data (hvals hp ! j) = m" by blast
  from m(2,3) len anc_root have "m \<in> data ` set (hvals hp)" "\<forall>x \<in> set (hvals hp). data x \<le> m"
    by (metis imageI nth_mem, metis in_set_conv_nth)
  with m(1) show ?thesis by blast
qed

theorem getMaxNode_odd_witness:
  "\<exists>m. getMaxNode3 (heap_of_two\<lparr>hsize := 1, elem_test := Block [Some 1]\<rparr>) 0 = Inr m"
proof -
  let ?hp = "heap_of_two\<lparr>hsize := 1, elem_test := Block [Some 1]\<rparr>"
  have "hp_inv ?hp"
    by (auto simp: heap_of_two_def hp_inv_def hp_shape_def hvals_def heap_ok_def ptrs_def vals_def
        heap_from_def less_Suc_eq PARENT_def)
  from getMaxNode_odd [OF this] show ?thesis by (auto simp: heap_of_two_def)
qed

text \<open>With an even, positive number of nodes in an array of exactly that size, the same function always
  reads one slot past the end of the array.\<close>

theorem getMaxNode_even:
  assumes "hp_shape hp" "elem_test hp = Block a" "length a = hsize hp"
    and "even (hsize hp)" "0 < hsize hp"
  shows "getMaxNode3 hp 0 = Inl OutOfBounds"
  using getMaxNode3_even [OF assms, of 0] assms(5) anc_root
  by (auto split: sum.splits)

theorem getMaxNode_even_witness: "getMaxNode3 heap_of_two 0 = Inl OutOfBounds"
  by (rule getMaxNode_even [where a = "[Some 0, Some 1]"])
     (use heap_of_two_inv in \<open>auto simp: hp_inv_def\<close>, simp_all add: heap_of_two_def)

text \<open>On a filled \<open>elem\<close> array the three recursive traversals end without a fault; the in-order one
  prints the in-order sequence of the tree in the array, but the one called pre-order prints the
  post-order sequence and the one called post-order the pre-order sequence.\<close>

theorem traversals_print:
  assumes "elem_holds hp f" "0 < hsize hp"
  shows "inorderTraversal hp 0 = Inr (inorder (tree_of (hsize hp) f 0)) \<and>
    preorderTraversal hp 0 = Inr (postorder (tree_of (hsize hp) f 0)) \<and>
    postorderTraversal hp 0 = Inr (preorder (tree_of (hsize hp) f 0))"
  using traversals_tree [OF assms(1,2)] by simp_all

theorem traversals_print_witness:
  "preorderTraversal (initMinHeap\<lparr>hsize := 2,
     elem := Block [Some \<lparr>data = 1, start_tag = None\<rparr>, Some \<lparr>data = 2, start_tag = None\<rparr>]\<rparr>) 0 =
   Inr (postorder (tree_of 2 (\<lambda>i. int i + 1) 0))"
  using traversals_print [of "initMinHeap\<lparr>hsize := 2,
     elem := Block [Some \<lparr>data = 1, start_tag = None\<rparr>, Some \<lparr>data = 2, start_tag = None\<rparr>]\<rparr>" "\<lambda>i. int i + 1"]
  by (simp add: elem_holds_def elem_at_def aget_def less_Suc_eq numeral_2_eq_2)

end
