(* ===== verification/BinaryHeap.thy ===== *)
theory BinaryHeap
  imports Prelude "HOL-Library.Signed_Division" "HOL-Library.Tree_Multiset"
begin

text \<open>
  The pointer-based user-space heap (\<open>heap_experiments/min_heap_binary/min-heap.c\<close>): a complete
  binary tree whose next free place is found from the number of nodes.  The model, the path
  computation, the downward pass, and why no insertion ever finishes properly.
\<close>

section \<open>Model\<close>

record bnode =
  bdata :: int
  bleft :: "nat option"
  bright :: "nat option"
  bparent :: "nat option"

text \<open>\<open>bnodes\<close> and \<open>bbrk\<close> are the objects \<open>malloc\<close> has handed out and its next address.\<close>

record bheap =
  bnodes :: "nat \<rightharpoonup> bnode"
  bbrk :: nat
  total_nodes :: int
  latest_node :: "nat option"

definition bswap :: "nat \<Rightarrow> nat \<Rightarrow> bheap \<Rightarrow> bheap res" where
  "bswap n1 n2 h =
     bindE (deref (bnodes h) n1) (\<lambda>x1.
     bindE (deref (bnodes h) n2) (\<lambda>x2.
     let m = (bnodes h)(n1 \<mapsto> x1\<lparr>bdata := bdata x2\<rparr>) in
     bindE (deref m n2) (\<lambda>y2.
       Inr (h\<lparr>bnodes := m(n2 \<mapsto> y2\<lparr>bdata := bdata x1\<rparr>)\<rparr>))))"

definition data_at :: "bheap \<Rightarrow> nat \<Rightarrow> int res" where
  "data_at h p = bindE (deref (bnodes h) p) (\<lambda>n. Inr (bdata n))"

text \<open>
  The variable \<open>smallest\<close> of \<open>heapify_upward\<close> after its first assignment, which happens only
  when there is a smaller left child; the next statement reads it in any case.
\<close>

definition first_smallest :: "bheap \<Rightarrow> bnode \<Rightarrow> nat res" where
  "first_smallest h sel =
     (case bleft sel of
        None \<Rightarrow> Inl Uninit
      | Some l \<Rightarrow> bindE (data_at h l) (\<lambda>d. if d < bdata sel then Inr l else Inl Uninit))"

definition second_smallest :: "bheap \<Rightarrow> bnode \<Rightarrow> nat \<Rightarrow> nat res" where
  "second_smallest h sel sm =
     (case bright sel of
        None \<Rightarrow> Inr sm
      | Some r \<Rightarrow>
          bindE (data_at h r) (\<lambda>d.
          bindE (data_at h sm) (\<lambda>e.
            if d < e then Inr r else if d < bdata sel then Inr r else Inr sm)))"

text \<open>\<open>None\<close> is "calls itself for ever".\<close>

partial_function (option) heapify_upward :: "nat option \<Rightarrow> bheap \<Rightarrow> bheap res option" where
  "heapify_upward p h =
     (case p of
        None \<Rightarrow> Some (Inr h)
      | Some s0 \<Rightarrow>
          (case deref (bnodes h) s0 of
             Inl e \<Rightarrow> Some (Inl e)
           | Inr n0 \<Rightarrow>
               (let s = (case bparent n0 of None \<Rightarrow> s0 | Some q \<Rightarrow> q) in
                case bindE (deref (bnodes h) s) (\<lambda>sel.
                     bindE (first_smallest h sel) (\<lambda>sm.
                     bindE (second_smallest h sel sm) (\<lambda>sm.
                     bindE (data_at h sm) (\<lambda>d.
                       if d \<noteq> bdata sel \<and> bdata sel > d then bindE (bswap sm s h) (\<lambda>h. Inr (True, h))
                       else Inr (False, h))))) of
                  Inl e \<Rightarrow> Some (Inl e)
                | Inr r \<Rightarrow> if fst r then heapify_upward (Some s) (snd r) else Some (Inr (snd r)))))"

text \<open>A child whose data is 0 is skipped on the left, and nothing is swapped for a 0.\<close>

definition smallest_down :: "bheap \<Rightarrow> nat \<Rightarrow> bnode \<Rightarrow> nat res" where
  "smallest_down h s sel =
     bindE (case bleft sel of
              None \<Rightarrow> Inr s
            | Some l \<Rightarrow> bindE (data_at h l) (\<lambda>d. Inr (if d \<noteq> 0 \<and> d \<le> bdata sel then l else s))) (\<lambda>sm.
     case bright sel of
       None \<Rightarrow> Inr sm
     | Some r \<Rightarrow> bindE (data_at h r) (\<lambda>d. bindE (data_at h sm) (\<lambda>e. Inr (if d \<le> e then r else sm))))"

partial_function (option) heapify_downward :: "nat option \<Rightarrow> bheap \<Rightarrow> bheap res option" where
  "heapify_downward p h =
     (case p of
        None \<Rightarrow> Some (Inr h)
      | Some s \<Rightarrow>
          (case bindE (deref (bnodes h) s) (\<lambda>sel.
                bindE (smallest_down h s sel) (\<lambda>sm.
                bindE (data_at h sm) (\<lambda>d.
                  if d \<noteq> 0 \<and> d \<noteq> bdata sel then bindE (bswap sm s h) (\<lambda>h. Inr (Some sm, h))
                  else Inr (None, h)))) of
             Inl e \<Rightarrow> Some (Inl e)
           | Inr r \<Rightarrow> (case fst r of None \<Rightarrow> Some (Inr (snd r)) | Some sm \<Rightarrow> heapify_downward (Some sm) (snd r))))"

definition get_new_node :: "int \<Rightarrow> bheap \<Rightarrow> nat \<times> bheap" where
  "get_new_node data h =
     (bbrk h, h\<lparr>bnodes := (bnodes h)(bbrk h \<mapsto> \<lparr>bdata = data, bleft = None, bright = None, bparent = None\<rparr>),
               bbrk := bbrk h + 1, total_nodes := s32 (total_nodes h + 1)\<rparr>)"

text \<open>
  The path to a place, from the root; the list of \<open>track_node\<close>s is the list of their \<open>path\<close>
  fields.  Division and remainder are C's, which round towards zero.
\<close>

partial_function (option) track_loop :: "int \<Rightarrow> int list \<Rightarrow> int list option" where
  "track_loop i path = (if i \<noteq> 0 then track_loop ((i - 1) sdiv 2) (i smod 2 # path) else Some (i smod 2 # path))"

definition tracking_nodes :: "int \<Rightarrow> int list option" where
  "tracking_nodes n = track_loop ((n - 1) sdiv 2) [n smod 2]"

text \<open>The walk of \<open>insert_node\<close> along the path after its first entry; it hangs \<open>new\<close> into every gap.\<close>

fun insert_walk :: "nat \<Rightarrow> int list \<Rightarrow> nat \<Rightarrow> bheap \<Rightarrow> (nat \<times> bheap) res" where
  "insert_walk new [] c h = Inr (c, h)"
| "insert_walk new (d # ds) c h =
     bindE (deref (bnodes h) c) (\<lambda>n.
     if d \<noteq> 0 then
       (case bleft n of
          Some l \<Rightarrow> insert_walk new ds l h
        | None \<Rightarrow>
            let m = (bnodes h)(c \<mapsto> n\<lparr>bleft := Some new\<rparr>) in
            bindE (deref m new) (\<lambda>x.
              insert_walk new ds new (h\<lparr>bnodes := m(new \<mapsto> x\<lparr>bparent := Some c\<rparr>)\<rparr>)))
     else
       (case bright n of
          Some r \<Rightarrow> insert_walk new ds r h
        | None \<Rightarrow>
            let m = (bnodes h)(c \<mapsto> n\<lparr>bright := Some new\<rparr>) in
            bindE (deref m new) (\<lambda>x.
              insert_walk new ds new (h\<lparr>bnodes := m(new \<mapsto> x\<lparr>bparent := Some c\<rparr>)\<rparr>))))"

definition insert_node :: "nat \<Rightarrow> int \<Rightarrow> bheap \<Rightarrow> bheap res option" where
  "insert_node root data h =
     (let (new, h) = get_new_node data h in
      Option.bind (tracking_nodes (total_nodes h)) (\<lambda>td.
        case insert_walk new (tl td) root h of
          Inl e \<Rightarrow> Some (Inl e)
        | Inr r \<Rightarrow> Option.bind (heapify_upward (Some (fst r)) (snd r)) (\<lambda>u.
            Some (bindE u (\<lambda>h. Inr (h\<lparr>latest_node := Some (fst r)\<rparr>))))))"

fun refresh_walk :: "int list \<Rightarrow> nat \<Rightarrow> bheap \<Rightarrow> nat res" where
  "refresh_walk [] c h = Inr c"
| "refresh_walk (d # ds) c h =
     bindE (deref (bnodes h) c) (\<lambda>n.
       case (if d \<noteq> 0 then bleft n else bright n) of
         None \<Rightarrow> refresh_walk ds c h
       | Some x \<Rightarrow> refresh_walk ds x h)"

definition refresh_latest_node :: "nat \<Rightarrow> bheap \<Rightarrow> bheap res option" where
  "refresh_latest_node root h =
     Option.bind (tracking_nodes (total_nodes h)) (\<lambda>td. Some (
       bindE (refresh_walk (tl td) root h) (\<lambda>c.
       bindE (deref (bnodes h) c) (\<lambda>n.
         Inr (h\<lparr>latest_node := Some c,
                bnodes := (bnodes h)(c \<mapsto> n\<lparr>bleft := None, bright := None\<rparr>)\<rparr>)))))"

definition swap_and_delete :: "nat \<Rightarrow> nat option \<Rightarrow> bheap \<Rightarrow> (int \<times> bheap) res" where
  "swap_and_delete root latest h =
     bindE (deref (bnodes h) root) (\<lambda>r.
     bindE (deref_ptr (bnodes h) latest) (\<lambda>l.
     let m = (bnodes h)(root \<mapsto> r\<lparr>bdata := bdata l\<rparr>) in
     bindE (case bparent l of
              None \<Rightarrow> Inr m
            | Some p \<Rightarrow> bindE (deref m p) (\<lambda>n.
                Inr (m(p \<mapsto> if total_nodes h smod 2 \<noteq> 0 then n\<lparr>bleft := None\<rparr> else n\<lparr>bright := None\<rparr>)))) (\<lambda>m.
       Inr (bdata r, h\<lparr>bnodes := m, total_nodes := s32 (total_nodes h - 1)\<rparr>))))"

definition root_entry :: "nat \<Rightarrow> bheap \<Rightarrow> (int \<times> bheap) res option" where
  "root_entry root h =
     (case swap_and_delete root (latest_node h) h of
        Inl e \<Rightarrow> Some (Inl e)
      | Inr r \<Rightarrow> Option.bind (heapify_downward (Some root) (snd r)) (\<lambda>u. Some (bindE u (\<lambda>h. Inr (fst r, h)))))"

section \<open>The path\<close>

text \<open>Following a path in the array numbering of a complete tree.\<close>

fun follow :: "int list \<Rightarrow> int \<Rightarrow> int" where
  "follow [] i = i"
| "follow (d # ds) i = follow ds (if d \<noteq> 0 then 2 * i + 1 else 2 * i + 2)"

lemma follow_append: "follow (xs @ ys) i = follow ys (follow xs i)"
  by (induction xs arbitrary: i) auto

lemma sdiv_smod_nonneg: "0 \<le> (i :: int) \<Longrightarrow> i sdiv 2 = i div 2 \<and> i smod 2 = i mod 2"
  by (simp add: signed_divide_int_def signed_modulo_int_def sgn_if)

lemma track_loop_path:
  "0 \<le> i \<Longrightarrow> \<exists>ps. track_loop i path = Some (0 # ps @ path) \<and> follow ps 0 = i"
proof (induction "nat i" arbitrary: i path rule: less_induct)
  case less
  show ?case
  proof (cases "i = 0")
    case True
    then show ?thesis by (subst track_loop.simps) (simp add: sdiv_smod_nonneg)
  next
    case False
    with less.prems have j: "0 \<le> (i - 1) sdiv 2" "nat ((i - 1) sdiv 2) < nat i"
      using sdiv_smod_nonneg [of "i - 1"] by auto
    from less.hyps [OF j(2,1), of "i smod 2 # path"] obtain ps where
      ps: "track_loop ((i - 1) sdiv 2) (i smod 2 # path) = Some (0 # ps @ i smod 2 # path)"
        "follow ps 0 = (i - 1) sdiv 2" by blast
    have "follow (ps @ [i smod 2]) 0 = i"
      using ps(2) False less.prems sdiv_smod_nonneg [of "i - 1"] sdiv_smod_nonneg [of i]
      by (simp add: follow_append) presburger
    then show ?thesis using ps(1) False
      by (subst track_loop.simps) (intro exI [of _ "ps @ [i smod 2]"], simp)
  qed
qed

lemma tracking_path:
  assumes "0 < n"
  shows "\<exists>ps. tracking_nodes n = Some (0 # ps) \<and> follow ps 0 = n"
proof -
  have "0 \<le> (n - 1) sdiv 2" using assms sdiv_smod_nonneg [of "n - 1"] by simp
  from track_loop_path [OF this, of "[n smod 2]"] obtain ps where
    ps: "tracking_nodes n = Some (0 # ps @ [n smod 2])" "follow ps 0 = (n - 1) sdiv 2"
    by (auto simp: tracking_nodes_def)
  then have "follow (ps @ [n smod 2]) 0 = n"
    using assms sdiv_smod_nonneg [of "n - 1"] sdiv_smod_nonneg [of n] by (simp add: follow_append) presburger
  with ps(1) show ?thesis by auto
qed

section \<open>Insertion\<close>

lemma upward_pick:
  assumes "first_smallest h sel = Inr sm0" "second_smallest h sel sm0 = Inr sm" "data_at h sm = Inr d"
  shows "d < bdata sel"
  using assms by (auto simp: first_smallest_def second_smallest_def res_simps split: option.splits if_splits)

lemma heapify_upward_faults:
  assumes "heapify_upward p h = Some r"
  shows "p \<noteq> None \<longrightarrow> (\<exists>e. r = Inl e)"
proof (rule heapify_upward.raw_induct [where P = "\<lambda>p h r. p \<noteq> None \<longrightarrow> (\<exists>e. r = Inl e)", OF _ assms], goal_cases)
  case (1 f p h r)
  show ?case
  proof
    assume "p \<noteq> None"
    then obtain s0 where p: "p = Some s0" by blast
    show "\<exists>e. r = Inl e"
    proof (cases "deref (bnodes h) s0")
      case (Inl e)
      with 1(2) p show ?thesis by auto
    next
      case (Inr n0)
      define s where "s = (case bparent n0 of None \<Rightarrow> s0 | Some q \<Rightarrow> q)"
      define b where "b = bindE (deref (bnodes h) s) (\<lambda>sel.
                     bindE (first_smallest h sel) (\<lambda>sm.
                     bindE (second_smallest h sel sm) (\<lambda>sm.
                     bindE (data_at h sm) (\<lambda>d.
                       if d \<noteq> bdata sel \<and> bdata sel > d then bindE (bswap sm s h) (\<lambda>h. Inr (True, h))
                       else Inr (False, h)))))"
      have body: "(case b of Inl e \<Rightarrow> Some (Inl e)
          | Inr r \<Rightarrow> if fst r then f (Some s) (snd r) else Some (Inr (snd r))) = Some r"
        using 1(2) p Inr unfolding b_def s_def by (simp add: Let_def)
      show ?thesis
      proof (cases b)
        case (Inl e)
        with body show ?thesis by auto
      next
        case (Inr x)
        then have "fst x" unfolding b_def using upward_pick
          by (auto simp: res_simps split: if_splits)
        with body Inr have "f (Some s) (snd x) = Some r" by simp
        from 1(1) [OF this] show ?thesis by simp
      qed
    qed
  qed
qed

lemma insert_node_faults:
  assumes "insert_node root data h = Some r"
  shows "\<exists>e. r = Inl e"
proof -
  obtain new h1 where n: "get_new_node data h = (new, h1)" by force
  with assms obtain td where td: "tracking_nodes (total_nodes h1) = Some td"
    by (auto simp: insert_node_def split: Option.bind_splits)
  show ?thesis
  proof (cases "insert_walk new (tl td) root h1")
    case (Inl e)
    with assms n td show ?thesis by (auto simp: insert_node_def)
  next
    case (Inr x)
    with assms n td obtain u where u: "heapify_upward (Some (fst x)) (snd x) = Some u"
      "r = bindE u (\<lambda>h. Inr (h\<lparr>latest_node := Some (fst x)\<rparr>))"
      by (auto simp: insert_node_def split: Option.bind_splits)
    from heapify_upward_faults [OF u(1)] u(2) show ?thesis by auto
  qed
qed

section \<open>The downward pass\<close>

text \<open>
  \<open>shape m p t\<close>: the pointer \<open>p\<close> is the root of a tree in \<open>m\<close> whose nodes have the addresses
  of \<open>t\<close>.
\<close>

fun shape :: "(nat \<rightharpoonup> bnode) \<Rightarrow> nat option \<Rightarrow> nat tree \<Rightarrow> bool" where
  "shape m p Leaf \<longleftrightarrow> p = None"
| "shape m p (Node l a r) \<longleftrightarrow> p = Some a \<and> m a \<noteq> None \<and> shape m (bleft (the (m a))) l \<and> shape m (bright (the (m a))) r"

definition val :: "(nat \<rightharpoonup> bnode) \<Rightarrow> nat \<Rightarrow> int" where "val m a = bdata (the (m a))"

fun theap :: "(nat \<Rightarrow> int) \<Rightarrow> nat tree \<Rightarrow> bool" where
  "theap f Leaf \<longleftrightarrow> True"
| "theap f (Node l a r) \<longleftrightarrow> (\<forall>x \<in> set_tree l \<union> set_tree r. f a \<le> f x) \<and> theap f l \<and> theap f r"

lemma theap_cong: "(\<And>x. x \<in> set_tree t \<Longrightarrow> f x = g x) \<Longrightarrow> theap f t = theap g t"
  by (induction t) auto

lemma theap_root: "theap f t \<Longrightarrow> t \<noteq> Leaf \<Longrightarrow> x \<in> set_tree t \<Longrightarrow> f (value t) \<le> f x"
  by (cases t) auto

text \<open>Writing other data into nodes keeps every shape.\<close>

definition same_links :: "(nat \<rightharpoonup> bnode) \<Rightarrow> (nat \<rightharpoonup> bnode) \<Rightarrow> bool" where
  "same_links m m' \<longleftrightarrow> dom m' = dom m \<and>
     (\<forall>a n n'. m a = Some n \<longrightarrow> m' a = Some n' \<longrightarrow> bleft n' = bleft n \<and> bright n' = bright n \<and> bparent n' = bparent n)"

lemma same_links_trans:
  assumes ab: "same_links a b" and bc: "same_links b c"
  shows "same_links a c"
  unfolding same_links_def
proof (intro conjI allI impI)
  show "dom c = dom a" using ab bc by (simp add: same_links_def)
  fix x n n' assume n: "a x = Some n" "c x = Some n'"
  then have "x \<in> dom b" using ab by (auto simp: same_links_def)
  then obtain k where k: "b x = Some k" by blast
  show "bleft n' = bleft n" "bright n' = bright n" "bparent n' = bparent n"
    using ab bc n k by (simp_all add: same_links_def)
qed

lemma shape_same_links: "same_links m m' \<Longrightarrow> shape m p t \<Longrightarrow> shape m' p t"
proof (induction t arbitrary: p)
  case (Node l a r)
  then obtain n where n: "m a = Some n" by auto
  with Node.prems(1) obtain n' where n': "m' a = Some n'" unfolding same_links_def by blast
  with n Node.prems(1) have "bleft n' = bleft n" "bright n' = bright n" by (auto simp: same_links_def)
  with Node n n' show ?case by auto
qed simp

lemma shape_live: "shape m p t \<Longrightarrow> x \<in> set_tree t \<Longrightarrow> m x \<noteq> None"
  by (induction t arbitrary: p) auto

lemma bswap_ok:
  assumes "bnodes h a = Some x" "bnodes h b = Some y" "a \<noteq> b"
  shows "\<exists>m. bswap a b h = Inr (h\<lparr>bnodes := m\<rparr>) \<and> same_links (bnodes h) m \<and> val m a = bdata y \<and> val m b = bdata x \<and>
     (\<forall>z. z \<noteq> a \<longrightarrow> z \<noteq> b \<longrightarrow> m z = bnodes h z)"
  using assms by (intro exI [of _ "(bnodes h)(a \<mapsto> x\<lparr>bdata := bdata y\<rparr>, b \<mapsto> y\<lparr>bdata := bdata x\<rparr>)"])
    (auto simp: bswap_def Let_def same_links_def val_def)


lemma data_at_live: "m = bnodes h \<Longrightarrow> m a \<noteq> None \<Longrightarrow> data_at h a = Inr (val m a)"
  by (auto simp: data_at_def val_def)

text \<open>The child the pass goes to, from the roots of the two subtrees.\<close>

definition down_choice :: "(nat \<Rightarrow> int) \<Rightarrow> nat tree \<Rightarrow> nat \<Rightarrow> nat tree \<Rightarrow> nat" where
  "down_choice f l a r =
     (let s = (case l of Leaf \<Rightarrow> a | Node _ x _ \<Rightarrow> if f x \<noteq> 0 \<and> f x \<le> f a then x else a) in
      case r of Leaf \<Rightarrow> s | Node _ y _ \<Rightarrow> if f y \<le> f s then y else s)"

lemma smallest_down_choice:
  assumes "shape (bnodes h) p (Node l a r)"
  shows "smallest_down h a (the (bnodes h a)) = Inr (down_choice (val (bnodes h)) l a r)"
proof -
  let ?m = "bnodes h"
  obtain n where n: "?m a = Some n" using assms by auto
  then have va: "val ?m a = bdata n" "data_at h a = Inr (bdata n)" by (simp_all add: val_def data_at_def)
  have l: "shape ?m (bleft n) l" and r: "shape ?m (bright n) r" using assms n by simp_all
  let ?s = "case l of Leaf \<Rightarrow> a | Node _ x _ \<Rightarrow> if val ?m x \<noteq> 0 \<and> val ?m x \<le> val ?m a then x else a"
  have first: "(case bleft n of None \<Rightarrow> Inr a
      | Some l \<Rightarrow> bindE (data_at h l) (\<lambda>d. Inr (if d \<noteq> 0 \<and> d \<le> bdata n then l else a))) = Inr ?s"
    using l va by (cases l) (auto simp: data_at_live)
  have "data_at h ?s = Inr (val ?m ?s)"
    using l n va by (cases l) (auto simp: data_at_live)
  with first r n show ?thesis
    by (cases r) (auto simp: smallest_down_def down_choice_def Let_def data_at_live)
qed

lemma down_first:
  assumes "theap f l" "\<forall>x \<in> set_tree l. f x \<noteq> 0"
    and "s = (case l of Leaf \<Rightarrow> a | Node _ x _ \<Rightarrow> if f x \<noteq> 0 \<and> f x \<le> f a then x else a)"
  shows "\<forall>x \<in> insert a (set_tree l). f s \<le> f x" "s = a \<or> l \<noteq> Leaf \<and> s = value l"
proof -
  show "\<forall>x \<in> insert a (set_tree l). f s \<le> f x"
  proof (cases l)
    case (Node ll x lr)
    with assms have "f s \<le> f a" "f s \<le> f x" "\<forall>y \<in> set_tree ll \<union> set_tree lr. f x \<le> f y"
      by (auto split: if_splits)
    then show ?thesis unfolding Node by (auto intro: order_trans)
  qed (use assms in simp)
qed (use assms in \<open>auto split: tree.splits if_splits\<close>)

lemma down_choice_min:
  assumes "theap f l" "theap f r" "\<forall>x \<in> set_tree l \<union> set_tree r. f x \<noteq> 0"
  shows "\<forall>x \<in> insert a (set_tree l \<union> set_tree r). f (down_choice f l a r) \<le> f x"
    and "down_choice f l a r = a \<or> l \<noteq> Leaf \<and> down_choice f l a r = value l \<or>
      r \<noteq> Leaf \<and> down_choice f l a r = value r"
proof -
  define s where "s = (case l of Leaf \<Rightarrow> a | Node _ x _ \<Rightarrow> if f x \<noteq> 0 \<and> f x \<le> f a then x else a)"
  have nz: "\<forall>x \<in> set_tree l. f x \<noteq> 0" using assms(3) by simp
  note s = down_first [OF assms(1) nz s_def]
  have c: "down_choice f l a r = (case r of Leaf \<Rightarrow> s | Node _ y _ \<Rightarrow> if f y \<le> f s then y else s)"
    by (simp add: down_choice_def Let_def flip: s_def)
  show "\<forall>x \<in> insert a (set_tree l \<union> set_tree r). f (down_choice f l a r) \<le> f x"
  proof (cases r)
    case (Node rl y rr)
    with assms(2) c have "f (down_choice f l a r) \<le> f s" "f (down_choice f l a r) \<le> f y"
      "\<forall>x \<in> set_tree rl \<union> set_tree rr. f y \<le> f x" by auto
    then show ?thesis using s(1) unfolding Node by (auto intro: order_trans)
  qed (use c s(1) in simp)
  show "down_choice f l a r = a \<or> l \<noteq> Leaf \<and> down_choice f l a r = value l \<or>
      r \<noteq> Leaf \<and> down_choice f l a r = value r"
    using s(2) c by (auto split: tree.splits if_splits)
qed

text \<open>
  The data after the root \<open>a\<close> has changed places with the root \<open>c\<close> of one subtree and has sunk
  to its place there.
\<close>

lemma sink_values:
  assumes t: "t = Node t1 c t2" and d: "distinct (a # inorder t @ inorder u)"
    and min: "\<forall>x \<in> insert a (set_tree t \<union> set_tree u). f c \<le> f x"
    and u: "\<forall>x \<in> set_tree u. g x = f x" "theap f u" and a: "g a = f c"
    and im: "image_mset g (mset (inorder t)) = image_mset (f(c := f a)) (mset (inorder t))"
  shows "\<forall>x \<in> set_tree t \<union> set_tree u. g a \<le> g x" "theap g u"
    "add_mset (g a) (image_mset g (mset (inorder t)) + image_mset g (mset (inorder u))) =
     add_mset (f a) (image_mset f (mset (inorder t)) + image_mset f (mset (inorder u)))"
proof -
  show "\<forall>x \<in> set_tree t \<union> set_tree u. g a \<le> g x"
  proof
    fix x assume x: "x \<in> set_tree t \<union> set_tree u"
    show "g a \<le> g x"
    proof (cases "x \<in> set_tree t")
      case True
      then have "g x \<in># image_mset g (mset (inorder t))" by simp
      then obtain y where y: "y \<in> set_tree t" "g x = (f(c := f a)) y" unfolding im by auto
      show ?thesis
      proof (cases "y = c")
        case True
        then show ?thesis using y(2) min a by simp
      next
        case False
        then show ?thesis using y min a by simp
      qed
    next
      case False
      then show ?thesis using x min a u(1) by simp
    qed
  qed
  show "theap g u" using u theap_cong [of u f g] by simp
  have c: "c \<notin> set (inorder t1 @ inorder t2)" using d t by auto
  then have "image_mset (f(c := f a)) (mset (inorder t1 @ inorder t2)) = image_mset f (mset (inorder t1 @ inorder t2))"
    by (intro image_mset_cong) auto
  then have "add_mset (f c) (image_mset (f(c := f a)) (mset (inorder t))) = add_mset (f a) (image_mset f (mset (inorder t)))"
    unfolding t by simp
  moreover have "image_mset g (mset (inorder u)) = image_mset f (mset (inorder u))"
    using u(1) by (intro image_mset_cong) simp
  ultimately show "add_mset (g a) (image_mset g (mset (inorder t)) + image_mset g (mset (inorder u))) =
     add_mset (f a) (image_mset f (mset (inorder t)) + image_mset f (mset (inorder u)))"
    using a im by (metis union_mset_add_mset_left)
qed

text \<open>
  One tree: its root sinks to its place.  \<open>image_mset (val m) (mset (inorder t))\<close> are the data
  in the tree.
\<close>

definition sinks :: "bheap \<Rightarrow> nat tree \<Rightarrow> (nat \<rightharpoonup> bnode) \<Rightarrow> bool" where
  "sinks h t m \<longleftrightarrow> same_links (bnodes h) m \<and> theap (val m) t \<and>
     image_mset (val m) (mset (inorder t)) = image_mset (val (bnodes h)) (mset (inorder t)) \<and>
     (\<forall>x. x \<notin> set_tree t \<longrightarrow> m x = bnodes h x)"

lemma sink_subtree:
  assumes sh: "shape (bnodes h) p (Node l a r)" and tu: "(t, u) = (l, r) \<or> (t, u) = (r, l)" and t: "t = Node t1 c t2"
    and d: "distinct (a # inorder t @ inorder u)" and min: "\<forall>x \<in> insert a (set_tree t \<union> set_tree u). val (bnodes h) c \<le> val (bnodes h) x"
    and th: "theap (val (bnodes h)) t" "theap (val (bnodes h)) u"
    and nz: "\<forall>x \<in> insert a (set_tree t \<union> set_tree u). val (bnodes h) x \<noteq> 0"
    and IH: "\<And>h' p'. shape (bnodes h') p' t \<Longrightarrow> theap (val (bnodes h')) t1 \<Longrightarrow> theap (val (bnodes h')) t2 \<Longrightarrow>
      \<forall>x \<in> set_tree t. val (bnodes h') x \<noteq> 0 \<Longrightarrow>
      \<exists>m. heapify_downward (Some c) h' = Some (Inr (h'\<lparr>bnodes := m\<rparr>)) \<and> sinks h' t m"
  shows "\<exists>m1 m. bswap c a h = Inr (h\<lparr>bnodes := m1\<rparr>) \<and>
    heapify_downward (Some c) (h\<lparr>bnodes := m1\<rparr>) = Some (Inr (h\<lparr>bnodes := m\<rparr>)) \<and> sinks h (Node l a r) m"
proof -
  let ?f = "val (bnodes h)"
  have ca: "c \<noteq> a" "a \<notin> set_tree t" "a \<notin> set_tree u" "set_tree t \<inter> set_tree u = {}" using d t by auto
  obtain x y where xy: "bnodes h c = Some x" "bnodes h a = Some y"
    using sh tu t by auto
  from bswap_ok [OF this ca(1)] obtain m1 where
    m1: "bswap c a h = Inr (h\<lparr>bnodes := m1\<rparr>)" "same_links (bnodes h) m1" "val m1 c = ?f a" "val m1 a = ?f c"
      "\<forall>z. z \<noteq> c \<longrightarrow> z \<noteq> a \<longrightarrow> m1 z = bnodes h z" using xy by (auto simp: val_def)
  let ?h1 = "h\<lparr>bnodes := m1\<rparr>"
  have same: "val m1 z = ?f z" if "z \<noteq> c" "z \<noteq> a" for z using m1(5) that by (simp add: val_def)
  have ct: "c \<notin> set_tree t1" "c \<notin> set_tree t2" using d t by auto
  have "\<exists>p'. shape (bnodes h) p' t" using sh tu by auto
  then obtain p' where "shape (bnodes h) p' t" by blast
  then have s1: "shape (bnodes ?h1) p' t" using shape_same_links [OF m1(2)] by simp
  have th1: "theap (val (bnodes ?h1)) t1" "theap (val (bnodes ?h1)) t2"
    using th(1) t ct ca same theap_cong [of t1 ?f "val m1"] theap_cong [of t2 ?f "val m1"]
    by (metis bheap.select_convs(1) bheap.surjective bheap.update_convs(1) theap.simps(2) tree.set_intros(1,3))+
  have nz1: "\<forall>x \<in> set_tree t. val (bnodes ?h1) x \<noteq> 0"
  proof
    fix x assume x: "x \<in> set_tree t"
    show "val (bnodes ?h1) x \<noteq> 0"
    proof (cases "x = c")
      case False
      moreover have "x \<noteq> a" using x ca(2) by blast
      ultimately show ?thesis using x nz same [of x] by simp
    qed (use nz m1(3) in simp)
  qed
  from IH [OF s1 th1 nz1] obtain m where
    m: "heapify_downward (Some c) ?h1 = Some (Inr (?h1\<lparr>bnodes := m\<rparr>))" "sinks ?h1 t m" by blast
  have v: "val m z = val m1 z" if "z \<notin> set_tree t" for z using m(2) that by (simp add: sinks_def val_def)
  have u: "\<forall>x \<in> set_tree u. val m x = ?f x" using v same ca t by (metis disjoint_iff tree.set_intros(2))
  have a: "val m a = ?f c" using v ca m1(4) by simp
  have "image_mset (val m1) (mset (inorder t)) = image_mset (?f(c := ?f a)) (mset (inorder t))"
    using same m1(3) ca(2) by (intro image_mset_cong) auto
  then have im: "image_mset (val m) (mset (inorder t)) = image_mset (?f(c := ?f a)) (mset (inorder t))"
    using m(2) by (simp add: sinks_def)
  note sv = sink_values [OF t d min u th(2) a im]
  have "theap (val m) (Node l a r)" using sv(1,2) m(2) tu by (auto simp: sinks_def)
  moreover have "image_mset (val m) (mset (inorder (Node l a r))) = image_mset ?f (mset (inorder (Node l a r)))"
    using sv(3) tu by (auto simp: union_commute)
  moreover have "same_links (bnodes h) m" using same_links_trans [OF m1(2)] m(2) by (simp add: sinks_def)
  moreover have "\<forall>x. x \<notin> set_tree (Node l a r) \<longrightarrow> m x = bnodes h x"
    using m(2) m1(5) tu t by (auto simp: sinks_def)
  ultimately show ?thesis using m1(1) m(1)
    by (intro exI [of _ m1] exI [of _ m]) (simp add: sinks_def)
qed

lemma pick_subtree:
  "c = a \<or> l \<noteq> Leaf \<and> c = value l \<or> r \<noteq> Leaf \<and> c = value r \<Longrightarrow> c \<noteq> a \<Longrightarrow>
   \<exists>t u t1 t2. ((t, u) = (l, r) \<or> (t, u) = (r, l)) \<and> t = Node t1 c t2"
  by (cases l; cases r) auto

lemma heapify_downward_tree:
  assumes "shape (bnodes h) p (Node l a r)" "distinct (inorder (Node l a r))"
    and "theap (val (bnodes h)) l" "theap (val (bnodes h)) r"
    and "\<forall>x \<in> set_tree (Node l a r). val (bnodes h) x \<noteq> 0"
  shows "\<exists>m. heapify_downward (Some a) h = Some (Inr (h\<lparr>bnodes := m\<rparr>)) \<and> sinks h (Node l a r) m"
  using assms
proof (induction "size l + size r" arbitrary: l a r h p rule: less_induct)
  case less
  let ?f = "val (bnodes h)" and ?c = "down_choice (val (bnodes h)) l a r"
  have nz: "\<forall>x \<in> set_tree l \<union> set_tree r. ?f x \<noteq> 0" using less.prems(5) by auto
  note min = down_choice_min(1) [OF less.prems(3,4) nz, of a]
    and pick = down_choice_min(2) [OF less.prems(3,4) nz, of a]
  obtain n where n: "bnodes h a = Some n" using less.prems(1) by auto
  have sm: "smallest_down h a n = Inr ?c" using smallest_down_choice [OF less.prems(1)] n by simp
  have cin: "?c \<in> set_tree (Node l a r)" using pick by (auto simp: neq_Leaf_iff)
  have dc: "data_at h ?c = Inr (?f ?c)"
    using shape_live [OF less.prems(1) cin] by (intro data_at_live) simp_all
  have fa: "?f a = bdata n" using n by (simp add: val_def)
  show ?case
  proof (cases "?f ?c = ?f a")
    case True
    then have "heapify_downward (Some a) h = Some (Inr h)"
      using n sm dc fa by (subst heapify_downward.simps) simp
    moreover have "sinks h (Node l a r) (bnodes h)"
      using True min less.prems(3,4) by (simp add: sinks_def same_links_def)
    ultimately show ?thesis by (intro exI [of _ "bnodes h"]) simp
  next
    case False
    have nzc: "?f ?c \<noteq> 0" using cin less.prems(5) by blast
    have one: "heapify_downward (Some a) h = heapify_downward (Some ?c) h1" if "bswap ?c a h = Inr h1" for h1
      using n sm dc fa False nzc that by (subst heapify_downward.simps) simp
    from pick False have "?c \<noteq> a" by metis
    from pick_subtree [OF pick this] obtain t u t1 t2 where
      tu: "(t, u) = (l, r) \<or> (t, u) = (r, l)" "t = Node t1 ?c t2" by blast
    have d: "distinct (a # inorder t @ inorder u)" "distinct (inorder t)" using tu(1) less.prems(2) by auto
    have "size t = size t1 + size t2 + 1" using tu(2) by simp
    moreover have "size t + size u = size l + size r" using tu(1) by auto
    ultimately have sz: "size t1 + size t2 < size l + size r" by linarith
    have "\<exists>m1 m. bswap ?c a h = Inr (h\<lparr>bnodes := m1\<rparr>) \<and>
      heapify_downward (Some ?c) (h\<lparr>bnodes := m1\<rparr>) = Some (Inr (h\<lparr>bnodes := m\<rparr>)) \<and> sinks h (Node l a r) m"
    proof (rule sink_subtree [OF less.prems(1) tu d(1)])
      show "\<forall>x \<in> insert a (set_tree t \<union> set_tree u). ?f ?c \<le> ?f x" using min tu(1) by auto
      show "theap ?f t" "theap ?f u" using tu(1) less.prems(3,4) by auto
      show "\<forall>x \<in> insert a (set_tree t \<union> set_tree u). ?f x \<noteq> 0" using tu(1) less.prems(5) by auto
      fix h' :: bheap and p' assume h': "shape (bnodes h') p' t" "theap (val (bnodes h')) t1" "theap (val (bnodes h')) t2"
        "\<forall>x \<in> set_tree t. val (bnodes h') x \<noteq> 0"
      show "\<exists>m. heapify_downward (Some ?c) h' = Some (Inr (h'\<lparr>bnodes := m\<rparr>)) \<and> sinks h' t m"
        using less.hyps [OF sz, of h' p' ?c] h' d(2) unfolding tu(2) by blast
    qed
    then show ?thesis using one by auto
  qed
qed


section \<open>Properties\<close>

text \<open>The path computed for the \<open>n\<close>-th node, followed from the root in the numbering of a complete
  tree (left child \<open>2 * i + 1\<close>, right child \<open>2 * i + 2\<close>), leads to number \<open>n\<close>.\<close>

theorem tracking_nodes_path:
  assumes "0 < n"
  shows "\<exists>ps. tracking_nodes n = Some (0 # ps) \<and> follow ps 0 = n"
  using assms by (rule tracking_path)

theorem tracking_nodes_path_witness: "\<exists>ps. tracking_nodes 12 = Some (0 # ps) \<and> follow ps 0 = 12"
  using tracking_nodes_path [of 12] by simp

text \<open>C31: No insertion returns: whatever the heap, the upward pass ends (if it ends) in a fault, because
  \<open>smallest\<close> is set only when the left child is the smaller one, in which case the pass is repeated, and
  is read without having been set in every other.\<close>

theorem insert_node_never_returns:
  assumes "insert_node root data h = Some r"
  shows "\<exists>e. r = Inl e"
  using assms by (rule insert_node_faults)

definition one_node :: bheap where
  "one_node = snd (get_new_node 5 \<lparr>bnodes = Map.empty, bbrk = 0, total_nodes = - 1, latest_node = None\<rparr>)"

theorem insert_node_never_returns_witness:
  "\<exists>r e. insert_node 0 7 one_node = Some r \<and> r = Inl e"
proof -
  have "tracking_nodes 1 = Some [0, 1]"
    using sdiv_smod_nonneg [of 1] sdiv_smod_nonneg [of 0]
    by (simp add: tracking_nodes_def) (subst track_loop.simps, simp)
  then have "insert_node 0 7 one_node = Some (Inl Uninit)"
    by (simp add: insert_node_def one_node_def get_new_node_def s32_def Let_def)
      (subst heapify_upward.simps, simp add: first_smallest_def data_at_def)
  with insert_node_never_returns show ?thesis by blast
qed

text \<open>The downward pass is right where it applies: in a tree whose data are not 0 and whose two subtrees
  are heaps, it ends without a fault, changes no pointer and nothing outside the tree, and leaves a heap of
  the same data.\<close>

theorem heapify_downward_heap:
  assumes "shape (bnodes h) (Some a) (Node l a r)" "distinct (inorder (Node l a r))"
    and "theap (val (bnodes h)) l" "theap (val (bnodes h)) r"
    and "\<forall>x \<in> set_tree (Node l a r). val (bnodes h) x \<noteq> 0"
  shows "\<exists>m. heapify_downward (Some a) h = Some (Inr (h\<lparr>bnodes := m\<rparr>)) \<and> shape m (Some a) (Node l a r) \<and>
     theap (val m) (Node l a r) \<and>
     image_mset (val m) (mset (inorder (Node l a r))) = image_mset (val (bnodes h)) (mset (inorder (Node l a r))) \<and>
     (\<forall>x. x \<notin> set_tree (Node l a r) \<longrightarrow> m x = bnodes h x)"
  using heapify_downward_tree [OF assms] shape_same_links [OF _ assms(1)] by (auto simp: sinks_def)

definition three_nodes :: bheap where
  "three_nodes = \<lparr>bnodes = [0 \<mapsto> \<lparr>bdata = 9, bleft = Some 1, bright = Some 2, bparent = None\<rparr>,
     1 \<mapsto> \<lparr>bdata = 4, bleft = None, bright = None, bparent = Some 0\<rparr>,
     2 \<mapsto> \<lparr>bdata = 3, bleft = None, bright = None, bparent = Some 0\<rparr>],
   bbrk = 3, total_nodes = 2, latest_node = Some 2\<rparr>"

theorem heapify_downward_heap_witness:
  "\<exists>m. heapify_downward (Some 0) three_nodes = Some (Inr (three_nodes\<lparr>bnodes := m\<rparr>)) \<and>
     theap (val m) (Node (Node Leaf 1 Leaf) 0 (Node Leaf 2 Leaf))"
proof -
  have "shape (bnodes three_nodes) (Some 0) (Node (Node Leaf 1 Leaf) 0 (Node Leaf 2 Leaf))"
    "\<forall>x \<in> set_tree (Node (Node Leaf 1 Leaf) 0 (Node Leaf 2 Leaf)). val (bnodes three_nodes) x \<noteq> 0"
    by (simp_all add: three_nodes_def val_def)
  from heapify_downward_heap [OF this(1) _ _ _ this(2)] show ?thesis by auto
qed

end
