(* ===== verification/Block.thy ===== *)
theory Block
  imports Prelude
begin

text \<open>
  The part of the block layer that the elevator core and the schedulers share: requests,
  the request queue with its dispatch list, and the elevator's merge hash.  A scheduler's
  private data (\<open>q->elevator->elevator_data\<close>) is added to the queue record as an
  extension, so that a core function changes the queue and provably nothing else.

  What \<open>blkdev.h\<close> computes from a request (\<open>blk_rq_pos\<close>, \<open>blk_rq_sectors\<close>, \<open>req_op\<close>,
  \<open>rq_data_dir\<close>, \<open>rq_is_sync\<close>, \<open>blk_account_rq\<close>) is a field of it.
\<close>

datatype data_dir = READ | WRITE

instantiation data_dir :: linorder
begin

definition less_eq_data_dir :: "data_dir \<Rightarrow> data_dir \<Rightarrow> bool" where
  "less_eq_data_dir a b \<longleftrightarrow> a = READ \<or> b = WRITE"

definition less_data_dir :: "data_dir \<Rightarrow> data_dir \<Rightarrow> bool" where
  "less_data_dir a b \<longleftrightarrow> a = READ \<and> b = WRITE"

instance
  by standard (auto simp: less_eq_data_dir_def less_data_dir_def intro: data_dir.exhaust)

end

datatype rq_flag = REQ_SORTED | REQ_SOFTBARRIER | REQ_STARTED | REQ_HASHED | REQ_ELVPRIV | REQ_PM
  | REQ_PRIO | REQ_NOIDLE

record request =
  rq_pos :: nat
  rq_sectors :: nat
  rq_op :: nat
  rq_dir :: data_dir
  rq_sync :: bool
  rq_account :: bool
  rq_fs :: bool
  cmd_flags :: "rq_flag set"
  priv0 :: "nat option"
  priv1 :: "nat option"
  fifo_time :: nat
  rq_icq :: "nat option"
  start_time :: nat

definition rq_end_sector :: "request \<Rightarrow> nat" where
  "rq_end_sector r = rq_pos r + rq_sectors r"

definition rq_hash_key :: "request \<Rightarrow> nat" where
  "rq_hash_key r = rq_pos r + rq_sectors r"

text \<open>
  \<open>rqhash b\<close> is bucket \<open>b\<close> of the elevator's hash; \<open>run_count\<close> counts the calls of
  \<open>blk_run_queue\<close>, whose effect (the driver's \<open>request_fn\<close>) is outside the sources.
\<close>

record request_queue =
  rqs :: "nat \<rightharpoonup> request"
  queue_head :: "nat list"
  last_merge :: "nat option"
  end_sector :: nat
  boundary_rq :: "nat option"
  nr_sorted :: int
  in_flight :: "bool \<Rightarrow> int"
  nr_pending :: int
  rqhash :: "nat \<Rightarrow> nat list"
  nomerges :: bool
  noxmerges :: bool
  run_count :: nat

definition upd_rq ::
  "nat \<Rightarrow> (request \<Rightarrow> request) \<Rightarrow> 'a request_queue_scheme \<Rightarrow> 'a request_queue_scheme res" where
  "upd_rq rq f q = bindE (deref (rqs q) rq) (\<lambda>r. Inr (q\<lparr>rqs := (rqs q)(rq \<mapsto> f r)\<rparr>))"

lemma upd_rq_Some [simp]:
  "rqs q rq = Some r \<Longrightarrow> upd_rq rq f q = Inr (q\<lparr>rqs := (rqs q)(rq \<mapsto> f r)\<rparr>)"
  by (simp add: upd_rq_def)

lemma upd_rq_eq_Inr [res_simps]:
  "upd_rq rq f q = Inr q' \<longleftrightarrow> (\<exists>r. rqs q rq = Some r \<and> q' = q\<lparr>rqs := (rqs q)(rq \<mapsto> f r)\<rparr>)"
  by (auto simp: upd_rq_def res_simps)

definition blk_run_queue :: "'a request_queue_scheme \<Rightarrow> 'a request_queue_scheme" where
  "blk_run_queue q = q\<lparr>run_count := run_count q + 1\<rparr>"

text \<open>Every entry of the dispatch list is a live request and occurs there once.\<close>

definition wf_queue :: "'a request_queue_scheme \<Rightarrow> bool" where
  "wf_queue q \<longleftrightarrow> set (queue_head q) \<subseteq> dom (rqs q) \<and> distinct (queue_head q)"

text \<open>An ordinary read of eight sectors and an idle queue holding live requests, for examples.\<close>

definition plain_request :: "nat \<Rightarrow> request" where
  "plain_request pos = \<lparr>rq_pos = pos, rq_sectors = 8, rq_op = 0, rq_dir = READ, rq_sync = True,
     rq_account = True, rq_fs = True, cmd_flags = {REQ_SORTED}, priv0 = None, priv1 = None, fifo_time = 0,
     rq_icq = None, start_time = 0\<rparr>"

end
