(* ===== verification/ElvDispatch.thy ===== *)
theory ElvDispatch
  imports Block
begin

text \<open>
  The merge hash and the two ways onto the dispatch list of \<open>elevator.c\<close>.  The sorted
  insertion is characterised completely: where the request lands, what it never passes,
  and that one sweep of the disk arm stays sorted.
\<close>

section \<open>The merge hash\<close>

definition hash_remove :: "nat \<Rightarrow> (nat \<Rightarrow> nat list) \<Rightarrow> nat \<Rightarrow> nat list" where
  "hash_remove rq h = (\<lambda>b. removeAll rq (h b))"

definition ELV_ON_HASH :: "request \<Rightarrow> bool" where
  "ELV_ON_HASH r \<longleftrightarrow> REQ_HASHED \<in> cmd_flags r"

definition elv_rqhash_del' ::
  "nat \<Rightarrow> 'a request_queue_scheme \<Rightarrow> 'a request_queue_scheme res" where
  "elv_rqhash_del' rq q =
     upd_rq rq (\<lambda>r. r\<lparr>cmd_flags := cmd_flags r - {REQ_HASHED}\<rparr>)
       (q\<lparr>rqhash := hash_remove rq (rqhash q)\<rparr>)"

definition elv_rqhash_del ::
  "nat \<Rightarrow> 'a request_queue_scheme \<Rightarrow> 'a request_queue_scheme res" where
  "elv_rqhash_del rq q =
     bindE (deref (rqs q) rq) (\<lambda>r.
       if ELV_ON_HASH r then elv_rqhash_del' rq q else Inr q)"

text \<open>\<open>bkt\<close> is the hash function of \<open>linux/hashtable.h\<close>.\<close>

definition elv_rqhash_add ::
  "(nat \<Rightarrow> nat) \<Rightarrow> nat \<Rightarrow> 'a request_queue_scheme \<Rightarrow> 'a request_queue_scheme res" where
  "elv_rqhash_add bkt rq q =
     bindE (deref (rqs q) rq) (\<lambda>r.
     if ELV_ON_HASH r then Inl BugOn
     else
       (let b = bkt (rq_hash_key r) in
        upd_rq rq (\<lambda>r. r\<lparr>cmd_flags := insert REQ_HASHED (cmd_flags r)\<rparr>)
          (q\<lparr>rqhash := (rqhash q)(b := rq # rqhash q b)\<rparr>)))"

definition elv_rqhash_reposition ::
  "(nat \<Rightarrow> nat) \<Rightarrow> nat \<Rightarrow> 'a request_queue_scheme \<Rightarrow> 'a request_queue_scheme res" where
  "elv_rqhash_reposition bkt rq q = bindE (elv_rqhash_del' rq q) (elv_rqhash_add bkt rq)"

text \<open>The loop over one bucket; \<open>mergeable\<close> is \<open>rq_mergeable\<close> of \<open>blkdev.h\<close>.\<close>

fun rqhash_scan ::
  "(request \<Rightarrow> bool) \<Rightarrow> nat \<Rightarrow> nat list \<Rightarrow> 'a request_queue_scheme \<Rightarrow>
   (nat option \<times> 'a request_queue_scheme) res" where
  "rqhash_scan mergeable offset [] q = Inr (None, q)"
| "rqhash_scan mergeable offset (rq # rest) q =
     bindE (deref (rqs q) rq) (\<lambda>r.
     if \<not> ELV_ON_HASH r then Inl BugOn
     else if \<not> mergeable r then
       bindE (elv_rqhash_del' rq q) (rqhash_scan mergeable offset rest)
     else if rq_hash_key r = offset then Inr (Some rq, q)
     else rqhash_scan mergeable offset rest q)"

definition elv_rqhash_find ::
  "(nat \<Rightarrow> nat) \<Rightarrow> (request \<Rightarrow> bool) \<Rightarrow> nat \<Rightarrow> 'a request_queue_scheme \<Rightarrow>
   (nat option \<times> 'a request_queue_scheme) res" where
  "elv_rqhash_find bkt mergeable offset q =
     rqhash_scan mergeable offset (rqhash q (bkt offset)) q"

section \<open>Onto the dispatch list\<close>

definition dispatch_stops :: "nat \<Rightarrow> request \<Rightarrow> request \<Rightarrow> bool" where
  "dispatch_stops boundary r p =
     (if rq_op r \<noteq> rq_op p then True
      else if rq_dir r \<noteq> rq_dir p then True
      else if cmd_flags p \<inter> {REQ_SOFTBARRIER, REQ_STARTED} \<noteq> {} then True
      else if rq_pos r \<ge> boundary \<and> rq_pos p < boundary then False
      else if rq_pos r < boundary \<and> rq_pos p \<ge> boundary then True
      else rq_pos r \<ge> rq_pos p)"

text \<open>\<open>list_for_each_prev\<close>: the walk starts at the tail, so it is given the list reversed.\<close>

fun sort_walk :: "(nat \<rightharpoonup> request) \<Rightarrow> nat \<Rightarrow> request \<Rightarrow> nat \<Rightarrow> nat list \<Rightarrow> nat list res" where
  "sort_walk m boundary r rq [] = Inr [rq]"
| "sort_walk m boundary r rq (pos # rest) =
     bindE (deref m pos) (\<lambda>p.
       if dispatch_stops boundary r p then Inr (rq # pos # rest)
       else bindE (sort_walk m boundary r rq rest) (\<lambda>l. Inr (pos # l)))"

definition forget_last_merge :: "nat \<Rightarrow> 'a request_queue_scheme \<Rightarrow> 'a request_queue_scheme" where
  "forget_last_merge rq q = (if last_merge q = Some rq then q\<lparr>last_merge := None\<rparr> else q)"

definition elv_dispatch_sort ::
  "nat \<Rightarrow> 'a request_queue_scheme \<Rightarrow> 'a request_queue_scheme res" where
  "elv_dispatch_sort rq q0 =
     bindE (elv_rqhash_del rq (forget_last_merge rq q0)) (\<lambda>q.
     let q = q\<lparr>nr_sorted := nr_sorted q - 1\<rparr>; boundary = end_sector q in
     bindE (deref (rqs q) rq) (\<lambda>r.
     bindE (sort_walk (rqs q) boundary r rq (rev (queue_head q))) (\<lambda>l.
       Inr (q\<lparr>queue_head := rev l\<rparr>))))"

definition elv_dispatch_add_tail ::
  "nat \<Rightarrow> 'a request_queue_scheme \<Rightarrow> 'a request_queue_scheme res" where
  "elv_dispatch_add_tail rq q0 =
     bindE (elv_rqhash_del rq (forget_last_merge rq q0)) (\<lambda>q.
     let q = q\<lparr>nr_sorted := nr_sorted q - 1\<rparr> in
     bindE (deref (rqs q) rq) (\<lambda>r.
       Inr (q\<lparr>end_sector := rq_end_sector r, boundary_rq := Some rq,
              queue_head := queue_head q @ [rq]\<rparr>)))"

section \<open>What the hash operations do to the queue\<close>

text \<open>A request without its merge-hash flag, and stores that agree but for that flag.\<close>

definition rq_core :: "request \<Rightarrow> request" where
  "rq_core r = r\<lparr>cmd_flags := cmd_flags r - {REQ_HASHED}\<rparr>"

definition same_requests :: "(nat \<rightharpoonup> request) \<Rightarrow> (nat \<rightharpoonup> request) \<Rightarrow> bool" where
  "same_requests m m' \<longleftrightarrow> map_option rq_core \<circ> m = map_option rq_core \<circ> m'"

lemma rq_core_simps [simp]:
  "rq_pos (rq_core r) = rq_pos r" "rq_sectors (rq_core r) = rq_sectors r" "rq_op (rq_core r) = rq_op r"
  "rq_dir (rq_core r) = rq_dir r" "rq_sync (rq_core r) = rq_sync r" "rq_account (rq_core r) = rq_account r"
  "priv0 (rq_core r) = priv0 r" "priv1 (rq_core r) = priv1 r" "fifo_time (rq_core r) = fifo_time r"
  "cmd_flags (rq_core r) = cmd_flags r - {REQ_HASHED}" "rq_core (rq_core r) = rq_core r"
  by (simp_all add: rq_core_def)

lemma same_requests_refl [simp]: "same_requests m m"
  by (simp add: same_requests_def)

lemma same_requests_trans: "same_requests a b \<Longrightarrow> same_requests b c \<Longrightarrow> same_requests a c"
  by (simp add: same_requests_def)

lemma same_requestsD:
  "same_requests m m' \<Longrightarrow> m p = Some r \<Longrightarrow> \<exists>r'. m' p = Some r' \<and> rq_core r' = rq_core r"
  by (auto simp: same_requests_def fun_eq_iff) (metis map_option_eq_Some)

lemma same_requests_sym: "same_requests m m' \<Longrightarrow> same_requests m' m"
  by (simp add: same_requests_def)

lemma same_requests_dom: "same_requests m m' \<Longrightarrow> dom m' = dom m"
  using same_requestsD same_requests_sym by (fastforce simp: dom_def)

lemma rq_core_unflag [simp]: "rq_core (r\<lparr>cmd_flags := cmd_flags r - {REQ_HASHED}\<rparr>) = rq_core r"
  by (simp add: rq_core_def)

lemma same_requests_upd: "m p = Some r \<Longrightarrow> rq_core r' = rq_core r \<Longrightarrow> same_requests m (m(p \<mapsto> r'))"
  by (auto simp: same_requests_def fun_eq_iff)

lemma forget_last_merge_eq:
  "forget_last_merge rq q = q\<lparr>last_merge := (if last_merge q = Some rq then None else last_merge q)\<rparr>"
  by (cases q) (simp add: forget_last_merge_def)

lemma elv_rqhash_del_ok:
  assumes "rqs q rq = Some r"
  shows "\<exists>m h. elv_rqhash_del rq q = Inr (q\<lparr>rqs := m, rqhash := h\<rparr>) \<and> same_requests (rqs q) m \<and>
     (\<forall>r'. m rq = Some r' \<longrightarrow> REQ_HASHED \<notin> cmd_flags r') \<and> (\<forall>p. p \<noteq> rq \<longrightarrow> m p = rqs q p)"
proof (cases "ELV_ON_HASH r")
  case True
  with assms show ?thesis
    by (intro exI [of _ "(rqs q)(rq \<mapsto> r\<lparr>cmd_flags := cmd_flags r - {REQ_HASHED}\<rparr>)"]
          exI [of _ "hash_remove rq (rqhash q)"])
       (cases q, auto simp: elv_rqhash_del_def elv_rqhash_del'_def intro: same_requests_upd)
next
  case False
  with assms show ?thesis
    by (intro exI [of _ "rqs q"] exI [of _ "rqhash q"])
       (cases q, auto simp: elv_rqhash_del_def ELV_ON_HASH_def)
qed

section \<open>The sorted insertion\<close>

fun sort_place :: "(nat \<Rightarrow> bool) \<Rightarrow> nat \<Rightarrow> nat list \<Rightarrow> nat list" where
  "sort_place stop rq [] = [rq]"
| "sort_place stop rq (p # ps) = (if stop p then rq # p # ps else p # sort_place stop rq ps)"

lemma sort_walk_place:
  "set l \<subseteq> dom m \<Longrightarrow>
   sort_walk m b r rq l = Inr (sort_place (\<lambda>p. dispatch_stops b r (the (m p))) rq l)"
  by (induction l) auto

lemma sort_place_eq: "sort_place stop rq l = takeWhile (\<lambda>p. \<not> stop p) l @ rq # dropWhile (\<lambda>p. \<not> stop p) l"
  by (induction l) auto

lemma mset_sort_place [simp]: "mset (sort_place stop rq l) = add_mset rq (mset l)"
  by (induction l) auto

lemma dispatch_stops_core: "dispatch_stops b (rq_core r) (rq_core p) = dispatch_stops b r p"
proof -
  have "(cmd_flags p - {REQ_HASHED}) \<inter> {REQ_SOFTBARRIER, REQ_STARTED} =
        cmd_flags p \<inter> {REQ_SOFTBARRIER, REQ_STARTED}" by auto
  then show ?thesis by (simp add: dispatch_stops_def)
qed

definition sorted_slot :: "'a request_queue_scheme \<Rightarrow> nat \<Rightarrow> nat list" where
  "sorted_slot q rq =
     rev (sort_place (\<lambda>p. dispatch_stops (end_sector q) (the (rqs q rq)) (the (rqs q p))) rq
            (rev (queue_head q)))"

lemma mset_sorted_slot [simp]: "mset (sorted_slot q rq) = add_mset rq (mset (queue_head q))"
  by (simp add: sorted_slot_def)

lemma sort_place_cong:
  "(\<And>p. p \<in> set l \<Longrightarrow> stop p = stop' p) \<Longrightarrow> sort_place stop rq l = sort_place stop' rq l"
  by (induction l) auto

lemma elv_dispatch_sort_ok:
  assumes rq: "rqs q rq = Some r" and wf: "set (queue_head q) \<subseteq> dom (rqs q)"
  shows "\<exists>m lm h. elv_dispatch_sort rq q =
       Inr (q\<lparr>rqs := m, last_merge := lm, nr_sorted := nr_sorted q - 1, rqhash := h,
              queue_head := sorted_slot q rq\<rparr>) \<and>
     same_requests (rqs q) m \<and> (\<forall>r'. m rq = Some r' \<longrightarrow> REQ_HASHED \<notin> cmd_flags r') \<and> lm \<noteq> Some rq \<and>
     (\<forall>p. p \<noteq> rq \<longrightarrow> m p = rqs q p)"
proof -
  let ?q = "forget_last_merge rq q"
  have "rqs ?q rq = Some r" using rq by (simp add: forget_last_merge_eq)
  from elv_rqhash_del_ok [OF this] obtain m h where
    del: "elv_rqhash_del rq ?q = Inr (?q\<lparr>rqs := m, rqhash := h\<rparr>)" and same: "same_requests (rqs q) m"
    and nh: "\<forall>r'. m rq = Some r' \<longrightarrow> REQ_HASHED \<notin> cmd_flags r'"
    and fr: "\<forall>p. p \<noteq> rq \<longrightarrow> m p = rqs q p"
    by (auto simp: forget_last_merge_eq)
  obtain r' where r': "m rq = Some r'" "rq_core r' = rq_core r" using same_requestsD [OF same rq] by blast
  have sub: "set (rev (queue_head q)) \<subseteq> dom m" using wf same_requests_dom [OF same] by simp
  have "dispatch_stops b r' (the (m p)) = dispatch_stops b r (the (rqs q p))"
    if "p \<in> set (rev (queue_head q))" for b p
  proof -
    from that wf obtain x where "rqs q p = Some x" by auto
    with same_requestsD [OF same this] r' dispatch_stops_core show ?thesis by (metis option.sel)
  qed
  then have "sort_walk m b r' rq (rev (queue_head q)) =
      Inr (sort_place (\<lambda>p. dispatch_stops b r (the (rqs q p))) rq (rev (queue_head q)))" for b
    using sort_walk_place [OF sub, of b r' rq] sort_place_cong by (smt (verit, del_insts))
  then have "elv_dispatch_sort rq q =
      Inr (q\<lparr>rqs := m, last_merge := (if last_merge q = Some rq then None else last_merge q),
             nr_sorted := nr_sorted q - 1, rqhash := h, queue_head := sorted_slot q rq\<rparr>)"
    using del r' rq by (simp add: elv_dispatch_sort_def forget_last_merge_eq Let_def sorted_slot_def)
  with same nh fr show ?thesis
    by (intro exI [of _ m] exI [of _ "if last_merge q = Some rq then None else last_merge q"]
          exI [of _ h]) simp
qed

lemma elv_dispatch_add_tail_ok:
  assumes rq: "rqs q rq = Some r"
  shows "\<exists>m lm h. elv_dispatch_add_tail rq q =
       Inr (q\<lparr>rqs := m, last_merge := lm, nr_sorted := nr_sorted q - 1, rqhash := h,
              end_sector := rq_end_sector r, boundary_rq := Some rq, queue_head := queue_head q @ [rq]\<rparr>) \<and>
     same_requests (rqs q) m \<and> (\<forall>r'. m rq = Some r' \<longrightarrow> REQ_HASHED \<notin> cmd_flags r') \<and> lm \<noteq> Some rq \<and>
     (\<forall>p. p \<noteq> rq \<longrightarrow> m p = rqs q p)"
proof -
  let ?q = "forget_last_merge rq q"
  have "rqs ?q rq = Some r" using rq by (simp add: forget_last_merge_eq)
  from elv_rqhash_del_ok [OF this] obtain m h where
    del: "elv_rqhash_del rq ?q = Inr (?q\<lparr>rqs := m, rqhash := h\<rparr>)" and same: "same_requests (rqs q) m"
    and nh: "\<forall>r'. m rq = Some r' \<longrightarrow> REQ_HASHED \<notin> cmd_flags r'"
    and fr: "\<forall>p. p \<noteq> rq \<longrightarrow> m p = rqs q p"
    by (auto simp: forget_last_merge_eq)
  obtain r' where r': "m rq = Some r'" "rq_core r' = rq_core r" using same_requestsD [OF same rq] by blast
  have "rq_end_sector r' = rq_end_sector r"
    using r'(2) by (metis rq_core_simps(1,2) rq_end_sector_def)
  with del r' have "elv_dispatch_add_tail rq q =
      Inr (q\<lparr>rqs := m, last_merge := (if last_merge q = Some rq then None else last_merge q),
             nr_sorted := nr_sorted q - 1, rqhash := h, end_sector := rq_end_sector r,
             boundary_rq := Some rq, queue_head := queue_head q @ [rq]\<rparr>)"
    by (simp add: elv_dispatch_add_tail_def forget_last_merge_eq Let_def)
  with same nh fr show ?thesis
    by (intro exI [of _ m] exI [of _ "if last_merge q = Some rq then None else last_merge q"]
          exI [of _ h]) simp
qed

section \<open>The one-way sweep\<close>

text \<open>
  From the current end sector the arm goes up to the last sector, then starts again at 0:
  \<open>p\<close> is served no later than \<open>r\<close> when it comes first on that tour.
\<close>

definition sweep_le :: "nat \<Rightarrow> nat \<Rightarrow> nat \<Rightarrow> bool" where
  "sweep_le b p r \<longleftrightarrow> (b \<le> p \<and> r < b) \<or> ((p < b) = (r < b) \<and> p \<le> r)"

definition same_kind :: "request \<Rightarrow> request \<Rightarrow> bool" where
  "same_kind r p \<longleftrightarrow> rq_op r = rq_op p \<and> rq_dir r = rq_dir p \<and>
     cmd_flags p \<inter> {REQ_SOFTBARRIER, REQ_STARTED} = {}"

lemma dispatch_stops_sweep:
  "same_kind r p \<Longrightarrow> dispatch_stops b r p \<longleftrightarrow> sweep_le b (rq_pos p) (rq_pos r)"
  by (auto simp: dispatch_stops_def same_kind_def sweep_le_def)

lemma sweep_le_trans: "sweep_le b x y \<Longrightarrow> sweep_le b y z \<Longrightarrow> sweep_le b x z"
  and sweep_le_total: "\<not> sweep_le b x y \<Longrightarrow> sweep_le b y x"
  by (auto simp: sweep_le_def)

definition sweep_sorted :: "'a request_queue_scheme \<Rightarrow> nat list \<Rightarrow> bool" where
  "sweep_sorted q l \<longleftrightarrow>
     sorted_wrt (\<lambda>x y. sweep_le (end_sector q) (rq_pos (the (rqs q x))) (rq_pos (the (rqs q y)))) l"

lemma sort_place_append:
  "ps = [] \<or> stop (hd ps) \<Longrightarrow> sort_place stop rq (l @ ps) = sort_place stop rq l @ ps"
  by (induction l) (cases ps, auto)

lemma sorted_wrt_sort_place:
  assumes "\<And>x y z. R x y \<Longrightarrow> R y z \<Longrightarrow> R x z" "\<And>p. p \<in> set l \<Longrightarrow> stop p = R p rq"
    "\<And>p. p \<in> set l \<Longrightarrow> \<not> R p rq \<Longrightarrow> R rq p" "sorted_wrt (\<lambda>x y. R y x) l"
  shows "sorted_wrt (\<lambda>x y. R y x) (sort_place stop rq l)"
  using assms(2-) 
proof (induction l)
  case Nil
  then show ?case by simp
next
  case (Cons p l)
  have set: "set (sort_place stop rq l) = insert rq (set l)"
    by (metis mset_sort_place set_mset_add_mset_insert set_mset_mset)
  show ?case
  proof (cases "stop p")
    case True
    with Cons.prems assms(1) show ?thesis by auto
  next
    case False
    with Cons set show ?thesis by auto
  qed
qed

lemma sorted_slot_sweep:
  assumes q: "queue_head q = pre @ suf"
    and kind: "\<And>p. p \<in> set suf \<Longrightarrow> same_kind (the (rqs q rq)) (the (rqs q p))"
    and pre: "pre \<noteq> [] \<Longrightarrow> dispatch_stops (end_sector q) (the (rqs q rq)) (the (rqs q (last pre)))"
    and sorted: "sweep_sorted q suf"
  shows "\<exists>suf'. sorted_slot q rq = pre @ suf' \<and> mset suf' = add_mset rq (mset suf) \<and> sweep_sorted q suf'"
proof -
  let ?stop = "\<lambda>p. dispatch_stops (end_sector q) (the (rqs q rq)) (the (rqs q p))"
  let ?R = "\<lambda>x y. sweep_le (end_sector q) (rq_pos (the (rqs q x))) (rq_pos (the (rqs q y)))"
  let ?suf = "rev (sort_place ?stop rq (rev suf))"
  have "sort_place ?stop rq (rev suf @ rev pre) = sort_place ?stop rq (rev suf) @ rev pre"
    using pre by (intro sort_place_append) (auto simp: hd_rev)
  then have "sorted_slot q rq = pre @ ?suf" by (simp add: sorted_slot_def q)
  moreover have "sorted_wrt (\<lambda>x y. ?R y x) (sort_place ?stop rq (rev suf))"
  proof (rule sorted_wrt_sort_place)
    show "?stop p = ?R p rq" if "p \<in> set (rev suf)" for p
      using that kind dispatch_stops_sweep by simp
    show "sorted_wrt (\<lambda>x y. ?R y x) (rev suf)" using sorted by (simp add: sweep_sorted_def sorted_wrt_rev)
  qed (auto dest: sweep_le_trans sweep_le_total)
  then have "sweep_sorted q ?suf" by (simp add: sweep_sorted_def sorted_wrt_rev)
  moreover have "mset ?suf = add_mset rq (mset suf)" by simp
  ultimately show ?thesis by blast
qed

end
