(* ===== verification/ElvSched.thy ===== *)
theory ElvSched
  imports ElvDispatch
begin

text \<open>
  What the elevator core relies on in a scheduler's dispatch function, as contracts,
  and the core's draining loop (\<open>elv_drain_elevator\<close>), whose termination and effect are
  proved from the contracts alone.
\<close>

text \<open>\<open>while (dispatch_fn(q, 1)) ;\<close> where \<open>None\<close> is "loops forever",
  of the loop or of a dispatch call inside it.\<close>

partial_function (option) drain_loop ::
  "('q \<Rightarrow> (int \<times> 'q) res option) \<Rightarrow> 'q \<Rightarrow> 'q res option" where
  "drain_loop dispatch q =
     Option.bind (dispatch q) (\<lambda>r.
       case r of
         Inl e \<Rightarrow> Some (Inl e)
       | Inr p \<Rightarrow> if fst p \<noteq> 0 then drain_loop dispatch (snd p) else Some (Inr (snd p)))"

text \<open>
  After the loop the core complains when sorted requests are left; \<open>printed\<close> is its static
  counter of complaints.  The result carries the new counter.
\<close>

definition elv_drain_elevator ::
  "('a request_queue_scheme \<Rightarrow> (int \<times> 'a request_queue_scheme) res option) \<Rightarrow> nat \<Rightarrow>
   'a request_queue_scheme \<Rightarrow> (nat \<times> 'a request_queue_scheme) res option" where
  "elv_drain_elevator dispatch printed q =
     Option.bind (drain_loop dispatch q) (\<lambda>r. Some (bindE r (\<lambda>q'.
       Inr (if nr_sorted q' \<noteq> 0 then printed + 1 else printed, q'))))"

text \<open>
  A dispatch call never faults, keeps the scheduler's invariant, and moves some of the
  scheduler's requests to the dispatch list; it reports 0 exactly when it moved none.
\<close>

locale batch_sched =
  fixes inv :: "'q \<Rightarrow> bool"
    and pending :: "'q \<Rightarrow> nat multiset"
    and dispatched :: "'q \<Rightarrow> nat multiset"
    and dispatch :: "'q \<Rightarrow> (int \<times> 'q) res option"
  assumes batch_law: "inv q \<Longrightarrow> \<exists>n q' D. dispatch q = Some (Inr (n, q')) \<and> inv q' \<and>
      pending q = D + pending q' \<and> dispatched q' = D + dispatched q \<and> (n = 0 \<longleftrightarrow> D = {#})"
begin

lemma drain_terminates:
  "inv q \<Longrightarrow> \<exists>q'. drain_loop dispatch q = Some (Inr q') \<and> inv q' \<and>
     pending q' \<subseteq># pending q \<and> pending q' + dispatched q' = pending q + dispatched q \<and>
     (\<exists>q''. inv q'' \<and> dispatch q'' = Some (Inr (0, q')) \<and> pending q'' = pending q')"
proof (induction "size (pending q)" arbitrary: q rule: less_induct)
  case less
  from batch_law [OF less.prems] obtain n q' D where d: "dispatch q = Some (Inr (n, q'))" "inv q'"
    "pending q = D + pending q'" "dispatched q' = D + dispatched q" "n = 0 \<longleftrightarrow> D = {#}" by blast
  show ?case
  proof (cases "n = 0")
    case True
    with d less.prems show ?thesis by (subst drain_loop.simps) auto
  next
    case False
    with d(3,5) have "size (pending q') < size (pending q)" by (simp add: nonempty_has_size)
    from less.hyps [OF this d(2)] obtain q2 where q2:
      "drain_loop dispatch q' = Some (Inr q2)" "inv q2" "pending q2 \<subseteq># pending q'"
      "pending q2 + dispatched q2 = pending q' + dispatched q'"
      "\<exists>q''. inv q'' \<and> dispatch q'' = Some (Inr (0, q2)) \<and> pending q'' = pending q2" by blast
    have "drain_loop dispatch q = Some (Inr q2)" using d(1) False q2(1) by (subst drain_loop.simps) simp
    moreover have "pending q2 \<subseteq># pending q" using q2(3) d(3) by (simp add: subset_mset.add_increasing)
    ultimately show ?thesis using q2 d(3,4) by auto
  qed
qed

end

text \<open>A work-conserving scheduler reports 0 only when it holds nothing.\<close>

locale batch_conserving = batch_sched +
  assumes progress: "inv q \<Longrightarrow> pending q \<noteq> {#} \<Longrightarrow> dispatch q = Some (Inr (n, q')) \<Longrightarrow> n \<noteq> 0"
begin

lemma drain_empties:
  "inv q \<Longrightarrow> \<exists>q'. drain_loop dispatch q = Some (Inr q') \<and> inv q' \<and> pending q' = {#} \<and>
     dispatched q' = pending q + dispatched q"
  using drain_terminates [of q] progress by (metis add_cancel_left_left)

end

text \<open>The schedulers that move one request in a call.\<close>

locale elv_sched =
  fixes inv :: "'q \<Rightarrow> bool"
    and pending :: "'q \<Rightarrow> nat multiset"
    and dispatched :: "'q \<Rightarrow> nat multiset"
    and dispatch :: "'q \<Rightarrow> (int \<times> 'q) res option"
  assumes dispatch_law: "inv q \<Longrightarrow> \<exists>n q'. dispatch q = Some (Inr (n, q')) \<and> inv q' \<and>
      (n = 0 \<and> pending q' = pending q \<and> dispatched q' = dispatched q \<or>
       n \<noteq> 0 \<and> (\<exists>rq. pending q = add_mset rq (pending q') \<and>
                   dispatched q' = add_mset rq (dispatched q)))"

sublocale elv_sched \<subseteq> batch_sched
proof
  fix q assume "inv q"
  from dispatch_law [OF this] obtain n q' where d: "dispatch q = Some (Inr (n, q'))" "inv q'"
    "n = 0 \<and> pending q' = pending q \<and> dispatched q' = dispatched q \<or>
     n \<noteq> 0 \<and> (\<exists>rq. pending q = add_mset rq (pending q') \<and> dispatched q' = add_mset rq (dispatched q))" by blast
  from d(3) show "\<exists>n q' D. dispatch q = Some (Inr (n, q')) \<and> inv q' \<and> pending q = D + pending q' \<and>
      dispatched q' = D + dispatched q \<and> (n = 0 \<longleftrightarrow> D = {#})"
  proof (elim disjE conjE exE)
    assume "n = 0" "pending q' = pending q" "dispatched q' = dispatched q"
    with d(1,2) show ?thesis by (intro exI [of _ n] exI [of _ q'] exI [of _ "{#}"]) simp
  next
    fix rq assume "n \<noteq> 0" "pending q = add_mset rq (pending q')" "dispatched q' = add_mset rq (dispatched q)"
    with d(1,2) show ?thesis by (intro exI [of _ n] exI [of _ q'] exI [of _ "{#rq#}"]) simp
  qed
qed

locale work_conserving = elv_sched +
  assumes never_idle: "inv q \<Longrightarrow> pending q \<noteq> {#} \<Longrightarrow> dispatch q = Some (Inr (n, q')) \<Longrightarrow> n \<noteq> 0"

sublocale work_conserving \<subseteq> batch_conserving
  by unfold_locales (rule never_idle)

text \<open>\<open>init\<close> functions: the returned code, whether the elevator object was released again, the queue.\<close>

record 'q init_result =
  ret :: int
  eq_released :: bool
  result_queue :: 'q

definition ENOMEM :: int where "ENOMEM = 12"

end
