(* ===== verification/ElvHash.thy ===== *)
theory ElvHash
  imports ElvDispatch "HOL-Library.Tree"
begin

text \<open>
  The two search structures of \<open>elevator.c\<close>: the merge hash, keyed by the sector a request
  ends at, with its invariant and the correctness of the lookup; and the rb-tree helpers,
  with the rebalancing of \<open>lib/rbtree.c\<close> as a parameter that keeps the in-order sequence.
\<close>

section \<open>The hash invariant\<close>

definition rqhash_wf :: "(nat \<Rightarrow> nat) \<Rightarrow> 'a request_queue_scheme \<Rightarrow> bool" where
  "rqhash_wf bkt q \<longleftrightarrow>
     (\<forall>b. distinct (rqhash q b)) \<and>
     (\<forall>b. \<forall>rq \<in> set (rqhash q b). \<exists>r. rqs q rq = Some r \<and> ELV_ON_HASH r \<and> bkt (rq_hash_key r) = b)"

definition on_hash :: "'a request_queue_scheme \<Rightarrow> nat \<Rightarrow> bool" where
  "on_hash q rq \<longleftrightarrow> (\<exists>b. rq \<in> set (rqhash q b))"

lemma rqhash_wfD:
  "rqhash_wf bkt q \<Longrightarrow> rq \<in> set (rqhash q b) \<Longrightarrow>
   \<exists>r. rqs q rq = Some r \<and> ELV_ON_HASH r \<and> bkt (rq_hash_key r) = b"
  by (simp add: rqhash_wf_def)

lemma rqhash_wf_upd [simp]:
  "rqhash_wf bkt (q\<lparr>last_merge := x\<rparr>) = rqhash_wf bkt q"
  "rqhash_wf bkt (q\<lparr>nr_sorted := n\<rparr>) = rqhash_wf bkt q"
  "rqhash_wf bkt (q\<lparr>queue_head := l\<rparr>) = rqhash_wf bkt q"
  by (simp_all add: rqhash_wf_def)

lemma ELV_ON_HASH_upd [simp]:
  "\<not> ELV_ON_HASH (r\<lparr>cmd_flags := cmd_flags r - {REQ_HASHED}\<rparr>)"
  "ELV_ON_HASH (r\<lparr>cmd_flags := insert REQ_HASHED (cmd_flags r)\<rparr>)"
  by (simp_all add: ELV_ON_HASH_def)

lemma rq_hash_key_upd [simp]: "rq_hash_key (r\<lparr>cmd_flags := f\<rparr>) = rq_hash_key r"
  by (simp add: rq_hash_key_def)

lemma elv_rqhash_del'_wf:
  assumes wf: "rqhash_wf bkt q" and r: "rqs q rq = Some r"
  shows "\<exists>q'. elv_rqhash_del' rq q = Inr q' \<and> rqhash_wf bkt q' \<and> \<not> on_hash q' rq \<and>
     q' = q\<lparr>rqs := (rqs q)(rq \<mapsto> r\<lparr>cmd_flags := cmd_flags r - {REQ_HASHED}\<rparr>),
            rqhash := hash_remove rq (rqhash q)\<rparr>"
  using assms
  by (cases q) (auto simp: elv_rqhash_del'_def rqhash_wf_def hash_remove_def on_hash_def distinct_removeAll)

lemma elv_rqhash_add_wf:
  assumes wf: "rqhash_wf bkt q" and r: "rqs q rq = Some r" and off: "\<not> ELV_ON_HASH r"
  shows "\<exists>q'. elv_rqhash_add bkt rq q = Inr q' \<and> rqhash_wf bkt q' \<and>
     rq \<in> set (rqhash q' (bkt (rq_hash_key r))) \<and>
     rqs q' = (rqs q)(rq \<mapsto> r\<lparr>cmd_flags := insert REQ_HASHED (cmd_flags r)\<rparr>)"
proof -
  let ?r = "r\<lparr>cmd_flags := insert REQ_HASHED (cmd_flags r)\<rparr>" and ?b = "bkt (rq_hash_key r)"
  let ?q = "q\<lparr>rqhash := (rqhash q)(?b := rq # rqhash q ?b), rqs := (rqs q)(rq \<mapsto> ?r)\<rparr>"
  have "rq \<notin> set (rqhash q b)" for b using wf r off by (fastforce simp: rqhash_wf_def)
  then have "rqhash_wf bkt ?q" using wf by (auto simp: rqhash_wf_def)
  moreover have "elv_rqhash_add bkt rq q = Inr ?q"
    using r off by (simp add: elv_rqhash_add_def Let_def)
  ultimately show ?thesis by simp
qed

text \<open>
  A request whose end moved (a back merge) is, until it is repositioned, in a bucket that
  no longer fits it; every other request still fits.
\<close>

definition rqhash_wf_but :: "nat \<Rightarrow> (nat \<Rightarrow> nat) \<Rightarrow> 'a request_queue_scheme \<Rightarrow> bool" where
  "rqhash_wf_but x bkt q \<longleftrightarrow>
     (\<forall>b. distinct (rqhash q b)) \<and>
     (\<forall>b. \<forall>rq \<in> set (rqhash q b). \<exists>r. rqs q rq = Some r \<and> (rq \<noteq> x \<longrightarrow> ELV_ON_HASH r \<and> bkt (rq_hash_key r) = b))"

lemma elv_rqhash_reposition_wf:
  assumes wf: "rqhash_wf_but rq bkt q" and r: "rqs q rq = Some r"
  shows "\<exists>q'. elv_rqhash_reposition bkt rq q = Inr q' \<and> rqhash_wf bkt q' \<and>
     rq \<in> set (rqhash q' (bkt (rq_hash_key r))) \<and>
     rqs q' = (rqs q)(rq \<mapsto> r\<lparr>cmd_flags := insert REQ_HASHED (cmd_flags r)\<rparr>)"
proof -
  let ?r = "r\<lparr>cmd_flags := cmd_flags r - {REQ_HASHED}\<rparr>"
  let ?q = "q\<lparr>rqhash := hash_remove rq (rqhash q), rqs := (rqs q)(rq \<mapsto> ?r)\<rparr>"
  have d: "elv_rqhash_del' rq q = Inr ?q" using r by (simp add: elv_rqhash_del'_def)
  have "\<exists>r. rqs q x = Some r \<and> ELV_ON_HASH r \<and> bkt (rq_hash_key r) = b"
    if "x \<in> set (rqhash q b)" "x \<noteq> rq" for x b
    using wf that unfolding rqhash_wf_but_def by blast
  moreover have "distinct (rqhash q b)" for b using wf by (simp add: rqhash_wf_but_def)
  ultimately have "rqhash_wf bkt ?q"
    unfolding rqhash_wf_def by (auto simp: hash_remove_def distinct_removeAll)
  from elv_rqhash_add_wf [OF this, of rq ?r] obtain q' where
    q': "elv_rqhash_add bkt rq ?q = Inr q'" "rqhash_wf bkt q'"
      "rq \<in> set (rqhash q' (bkt (rq_hash_key ?r)))"
      "rqs q' = (rqs ?q)(rq \<mapsto> ?r\<lparr>cmd_flags := insert REQ_HASHED (cmd_flags ?r)\<rparr>)" by auto
  have "?r\<lparr>cmd_flags := insert REQ_HASHED (cmd_flags ?r)\<rparr> = r\<lparr>cmd_flags := insert REQ_HASHED (cmd_flags r)\<rparr>"
    by (cases r) auto
  with d q' show ?thesis by (auto simp: elv_rqhash_reposition_def)
qed

section \<open>The lookup\<close>

lemma rqhash_scan_ok:
  assumes "rqhash_wf bkt q" "distinct l" "set l \<subseteq> set (rqhash q b)"
  shows "\<exists>res q'. rqhash_scan mergeable offset l q = Inr (res, q') \<and> rqhash_wf bkt q' \<and>
     same_requests (rqs q) (rqs q') \<and> queue_head q' = queue_head q \<and>
     (case res of
        Some rq \<Rightarrow> rq \<in> set l \<and> (\<exists>r. rqs q rq = Some r \<and> mergeable r \<and> rq_hash_key r = offset) \<and>
                   rqs q' rq = rqs q rq
      | None \<Rightarrow> \<forall>rq \<in> set l. \<forall>r. rqs q rq = Some r \<longrightarrow> mergeable r \<longrightarrow> rq_hash_key r \<noteq> offset)"
  using assms
proof (induction l arbitrary: q)
  case Nil
  then show ?case by simp
next
  case (Cons x l)
  from Cons.prems(3) have "x \<in> set (rqhash q b)" by simp
  from rqhash_wfD [OF Cons.prems(1) this] obtain r where
    r: "rqs q x = Some r" "ELV_ON_HASH r" by blast
  show ?case
  proof (cases "mergeable r")
    case True
    show ?thesis
    proof (cases "rq_hash_key r = offset")
      case True
      with r \<open>mergeable r\<close> Cons.prems(1) show ?thesis by auto
    next
      case False
      from Cons.prems have "distinct l" "set l \<subseteq> set (rqhash q b)" by auto
      with Cons.IH [OF Cons.prems(1)] obtain res q' where
        q': "rqhash_scan mergeable offset l q = Inr (res, q')" "rqhash_wf bkt q'"
          "same_requests (rqs q) (rqs q')" "queue_head q' = queue_head q"
          "case res of
            Some rq \<Rightarrow> rq \<in> set l \<and> (\<exists>r. rqs q rq = Some r \<and> mergeable r \<and> rq_hash_key r = offset) \<and>
                       rqs q' rq = rqs q rq
          | None \<Rightarrow> \<forall>rq \<in> set l. \<forall>r. rqs q rq = Some r \<longrightarrow> mergeable r \<longrightarrow> rq_hash_key r \<noteq> offset"
        by blast
      with r False \<open>mergeable r\<close> show ?thesis by (cases res) auto
    qed
  next
    case False
    from elv_rqhash_del'_wf [OF Cons.prems(1) r(1)] obtain q1 where
      q1: "elv_rqhash_del' x q = Inr q1" "rqhash_wf bkt q1"
        "q1 = q\<lparr>rqs := (rqs q)(x \<mapsto> r\<lparr>cmd_flags := cmd_flags r - {REQ_HASHED}\<rparr>),
            rqhash := hash_remove x (rqhash q)\<rparr>" by blast
    have same: "same_requests (rqs q) (rqs q1)" using r(1) by (simp add: q1(3) same_requests_upd)
    have l: "distinct l" "set l \<subseteq> set (rqhash q1 b)" "x \<notin> set l"
      using Cons.prems(2,3) by (auto simp: q1(3) hash_remove_def)
    from Cons.IH [OF q1(2) l(1,2)] obtain res q' where
      q': "rqhash_scan mergeable offset l q1 = Inr (res, q')" "rqhash_wf bkt q'"
          "same_requests (rqs q1) (rqs q')" "queue_head q' = queue_head q1"
          "case res of
            Some rq \<Rightarrow> rq \<in> set l \<and> (\<exists>r. rqs q1 rq = Some r \<and> mergeable r \<and> rq_hash_key r = offset) \<and>
                       rqs q' rq = rqs q1 rq
          | None \<Rightarrow> \<forall>rq \<in> set l. \<forall>r. rqs q1 rq = Some r \<longrightarrow> mergeable r \<longrightarrow> rq_hash_key r \<noteq> offset"
      by blast
    have eq: "rqs q1 rq = rqs q rq" if "rq \<in> set l" for rq using that l(3) by (auto simp: q1(3))
    have scan: "rqhash_scan mergeable offset (x # l) q = Inr (res, q')"
      using r False q1(1) q'(1) by simp
    have "case res of
            Some rq \<Rightarrow> rq \<in> set (x # l) \<and> (\<exists>r. rqs q rq = Some r \<and> mergeable r \<and> rq_hash_key r = offset) \<and>
                       rqs q' rq = rqs q rq
          | None \<Rightarrow> \<forall>rq \<in> set (x # l). \<forall>r. rqs q rq = Some r \<longrightarrow> mergeable r \<longrightarrow> rq_hash_key r \<noteq> offset"
      using q'(5) eq r(1) False by (cases res) auto
    moreover have "same_requests (rqs q) (rqs q')" using same q'(3) by (rule same_requests_trans)
    moreover have "queue_head q' = queue_head q" using q'(4) by (simp add: q1(3))
    ultimately show ?thesis using scan q'(2) by blast
  qed
qed

lemma elv_rqhash_find_ok:
  assumes "rqhash_wf bkt q"
  shows "\<exists>res q'. elv_rqhash_find bkt mergeable offset q = Inr (res, q') \<and> rqhash_wf bkt q' \<and>
     same_requests (rqs q) (rqs q') \<and> queue_head q' = queue_head q \<and>
     (case res of
        Some rq \<Rightarrow> (\<exists>r. rqs q rq = Some r \<and> mergeable r \<and> rq_hash_key r = offset) \<and> rqs q' rq = rqs q rq
      | None \<Rightarrow> \<forall>rq r. on_hash q rq \<longrightarrow> rqs q rq = Some r \<longrightarrow> mergeable r \<longrightarrow> rq_hash_key r \<noteq> offset)"
proof -
  have "distinct (rqhash q (bkt offset))" using assms by (simp add: rqhash_wf_def)
  from rqhash_scan_ok [OF assms this order_refl] obtain res q' where
    q': "rqhash_scan mergeable offset (rqhash q (bkt offset)) q = Inr (res, q')" "rqhash_wf bkt q'"
      "same_requests (rqs q) (rqs q')" "queue_head q' = queue_head q"
      "case res of
        Some rq \<Rightarrow> rq \<in> set (rqhash q (bkt offset)) \<and>
          (\<exists>r. rqs q rq = Some r \<and> mergeable r \<and> rq_hash_key r = offset) \<and> rqs q' rq = rqs q rq
      | None \<Rightarrow> \<forall>rq \<in> set (rqhash q (bkt offset)). \<forall>r. rqs q rq = Some r \<longrightarrow> mergeable r \<longrightarrow> rq_hash_key r \<noteq> offset"
    by blast
  have "rq \<in> set (rqhash q (bkt offset))"
    if "on_hash q rq" "rqs q rq = Some r" "rq_hash_key r = offset" for rq r
    using that rqhash_wfD [OF assms] by (fastforce simp: on_hash_def)
  with q'(5) have "case res of
        Some rq \<Rightarrow> (\<exists>r. rqs q rq = Some r \<and> mergeable r \<and> rq_hash_key r = offset) \<and> rqs q' rq = rqs q rq
      | None \<Rightarrow> \<forall>rq r. on_hash q rq \<longrightarrow> rqs q rq = Some r \<longrightarrow> mergeable r \<longrightarrow> rq_hash_key r \<noteq> offset"
    by (auto split: option.splits)
  with q' show ?thesis by (auto simp: elv_rqhash_find_def)
qed

section \<open>The rb-tree helpers\<close>

text \<open>
  The tree holds request addresses; \<open>pos\<close> reads a request's first sector.  \<open>color\<close> is
  \<open>rb_insert_color\<close> and \<open>erase\<close> is \<open>rb_erase\<close>; the code relies on them keeping the
  in-order sequence, and that sequence less the erased node.
\<close>

fun rb_link :: "(nat \<Rightarrow> nat) \<Rightarrow> nat \<Rightarrow> nat tree \<Rightarrow> nat tree" where
  "rb_link pos rq Leaf = Node Leaf rq Leaf"
| "rb_link pos rq (Node l x r) =
     (if pos rq < pos x then Node (rb_link pos rq l) x r
      else Node l x (rb_link pos rq r))"

definition elv_rb_add ::
  "(nat tree \<Rightarrow> nat tree) \<Rightarrow> (nat \<Rightarrow> nat) \<Rightarrow> nat \<Rightarrow> nat tree \<Rightarrow> nat tree" where
  "elv_rb_add color pos rq root = color (rb_link pos rq root)"

definition elv_rb_del ::
  "(nat \<Rightarrow> nat tree \<Rightarrow> nat tree) \<Rightarrow> nat \<Rightarrow> nat tree \<Rightarrow> nat tree res" where
  "elv_rb_del erase rq root = (if rq \<notin> set_tree root then Inl BugOn else Inr (erase rq root))"

fun elv_rb_find :: "(nat \<Rightarrow> nat) \<Rightarrow> nat \<Rightarrow> nat tree \<Rightarrow> nat option" where
  "elv_rb_find pos sector Leaf = None"
| "elv_rb_find pos sector (Node l x r) =
     (if sector < pos x then elv_rb_find pos sector l
      else if sector > pos x then elv_rb_find pos sector r
      else Some x)"

text \<open>\<open>rb_next\<close> and \<open>rb_prev\<close> walk the in-order sequence.\<close>

definition next_in :: "nat list \<Rightarrow> nat \<Rightarrow> nat option" where
  "next_in l rq = (case list_next_after l rq of LHead \<Rightarrow> None | LEntry x \<Rightarrow> Some x)"

definition elv_rb_former_request :: "nat tree \<Rightarrow> nat \<Rightarrow> nat option" where
  "elv_rb_former_request root rq = next_in (rev (inorder root)) rq"

definition elv_rb_latter_request :: "nat tree \<Rightarrow> nat \<Rightarrow> nat option" where
  "elv_rb_latter_request root rq = next_in (inorder root) rq"

definition rb_sorted :: "(nat \<Rightarrow> nat) \<Rightarrow> nat tree \<Rightarrow> bool" where
  "rb_sorted pos t \<longleftrightarrow> sorted (map pos (inorder t)) \<and> distinct (inorder t)"

lemma set_inorder_link: "set (inorder (rb_link pos rq t)) = insert rq (set (inorder t))"
  by (induction t) auto

lemma rb_link_sorted: "sorted (map pos (inorder t)) \<Longrightarrow> sorted (map pos (inorder (rb_link pos rq t)))"
  by (induction t) (auto simp: sorted_append set_inorder_link simp del: set_inorder)

lemma mset_inorder_link: "mset (inorder (rb_link pos rq t)) = add_mset rq (mset (inorder t))"
  by (induction t) auto

lemma rb_link_distinct:
  "distinct (inorder t) \<Longrightarrow> rq \<notin> set (inorder t) \<Longrightarrow> distinct (inorder (rb_link pos rq t))"
  using mset_eq_imp_distinct_iff [of "inorder (rb_link pos rq t)" "rq # inorder t"] mset_inorder_link [of pos rq t]
  by simp

lemma elv_rb_find_ok:
  "sorted (map pos (inorder t)) \<Longrightarrow>
   (case elv_rb_find pos s t of
      Some x \<Rightarrow> x \<in> set (inorder t) \<and> pos x = s
    | None \<Rightarrow> \<forall>x \<in> set (inorder t). pos x \<noteq> s)"
proof (induction t)
  case Leaf
  then show ?case by simp
next
  case (Node l x r)
  then show ?case
    by (fastforce simp: sorted_append simp del: set_inorder split: option.splits)
qed

end
