(* ===== verification/ElvCore.thy ===== *)
theory ElvCore
  imports ElvSched ElvHash
begin

text \<open>
  The request-facing half of \<open>elevator.c\<close>: merging, the insertion points, requeueing and
  the notifications passed on to the scheduler.  A scheduler is its operations table; what
  the elevator uses of the rest of the block layer is a second table of parameters.
\<close>

section \<open>The scheduler's operations and the block layer's\<close>

datatype elv_merge_ret = ELEVATOR_NO_MERGE | ELEVATOR_FRONT_MERGE | ELEVATOR_BACK_MERGE

datatype insert_where = ELEVATOR_INSERT_FRONT | ELEVATOR_INSERT_BACK | ELEVATOR_INSERT_SORT
  | ELEVATOR_INSERT_REQUEUE | ELEVATOR_INSERT_FLUSH | ELEVATOR_INSERT_SORT_MERGE | BadInsert

record bio =
  bi_sector :: nat
  bio_mergeable :: bool

record 'q elv_ops =
  allow_bio_merge_fn :: "('q \<Rightarrow> nat \<Rightarrow> bio \<Rightarrow> bool) option"
  merge_fn :: "('q \<Rightarrow> bio \<Rightarrow> ((elv_merge_ret \<times> nat option) \<times> 'q) res) option"
  merged_fn :: "('q \<Rightarrow> nat \<Rightarrow> elv_merge_ret \<Rightarrow> 'q res) option"
  merge_req_fn :: "('q \<Rightarrow> nat \<Rightarrow> nat \<Rightarrow> 'q res) option"
  bio_merged_fn :: "('q \<Rightarrow> nat \<Rightarrow> bio \<Rightarrow> 'q res) option"
  dispatch_fn :: "'q \<Rightarrow> (int \<times> 'q) res option"
  add_req_fn :: "'q \<Rightarrow> nat \<Rightarrow> 'q res"
  deactivate_req_fn :: "('q \<Rightarrow> nat \<Rightarrow> 'q res) option"
  former_req_fn :: "('q \<Rightarrow> nat \<Rightarrow> nat option res) option"
  latter_req_fn :: "('q \<Rightarrow> nat \<Rightarrow> nat option res) option"
  set_req_fn :: "('q \<Rightarrow> nat \<Rightarrow> (int \<times> 'q) res) option"
  put_req_fn :: "('q \<Rightarrow> nat \<Rightarrow> 'q res) option"
  may_queue_fn :: "('q \<Rightarrow> int) option"
  completed_req_fn :: "('q \<Rightarrow> nat \<Rightarrow> 'q res) option"

text \<open>
  \<open>pm_dev\<close> says whether the queue has a device under runtime power management; waking it
  is outside the sources.
\<close>

record 'q blk_layer =
  bkt :: "nat \<Rightarrow> nat"
  blk_rq_merge_ok :: "request \<Rightarrow> bio \<Rightarrow> bool"
  blk_try_merge :: "request \<Rightarrow> bio \<Rightarrow> elv_merge_ret"
  rq_mergeable :: "request \<Rightarrow> bool"
  blk_attempt_req_merge :: "'q \<Rightarrow> nat \<Rightarrow> nat \<Rightarrow> (bool \<times> 'q) res"
  blk_insert_flush :: "nat \<Rightarrow> 'q \<Rightarrow> 'q res"
  pm_dev :: bool

definition ELV_MQUEUE_MAY :: int where "ELV_MQUEUE_MAY = 0"

text \<open>Sequencing of steps that may loop forever (\<open>None\<close>) or fault.\<close>

definition bindO :: "'a res option \<Rightarrow> ('a \<Rightarrow> 'b res option) \<Rightarrow> 'b res option" where
  "bindO m f = Option.bind m (\<lambda>r. case r of Inl e \<Rightarrow> Some (Inl e) | Inr x \<Rightarrow> f x)"

lemma bindO_simps [simp]:
  "bindO None f = None" "bindO (Some (Inl e)) f = Some (Inl e)" "bindO (Some (Inr x)) f = f x"
  by (simp_all add: bindO_def)

section \<open>Merging\<close>

definition elv_iosched_allow_bio_merge :: "'q elv_ops \<Rightarrow> 'q \<Rightarrow> nat \<Rightarrow> bio \<Rightarrow> bool" where
  "elv_iosched_allow_bio_merge ops q rq bio =
     (case allow_bio_merge_fn ops of Some f \<Rightarrow> f q rq bio | None \<Rightarrow> True)"

definition elv_bio_merge_ok ::
  "'a request_queue_scheme elv_ops \<Rightarrow> 'a request_queue_scheme blk_layer \<Rightarrow> nat \<Rightarrow> bio \<Rightarrow>
   'a request_queue_scheme \<Rightarrow> bool res" where
  "elv_bio_merge_ok ops blk rq bio q =
     bindE (deref (rqs q) rq) (\<lambda>r.
       if \<not> blk_rq_merge_ok blk r bio then Inr False
       else if \<not> elv_iosched_allow_bio_merge ops q rq bio then Inr False
       else Inr True)"

definition elv_merge ::
  "'a request_queue_scheme elv_ops \<Rightarrow> 'a request_queue_scheme blk_layer \<Rightarrow> bio \<Rightarrow>
   'a request_queue_scheme \<Rightarrow> ((elv_merge_ret \<times> nat option) \<times> 'a request_queue_scheme) res" where
  "elv_merge ops blk bio q =
     (if nomerges q \<or> \<not> bio_mergeable bio then Inr ((ELEVATOR_NO_MERGE, None), q)
      else
        bindE (case last_merge q of
                 None \<Rightarrow> Inr ELEVATOR_NO_MERGE
               | Some lm \<Rightarrow>
                   bindE (elv_bio_merge_ok ops blk lm bio q) (\<lambda>ok.
                     if ok then bindE (deref (rqs q) lm) (\<lambda>r. Inr (blk_try_merge blk r bio))
                     else Inr ELEVATOR_NO_MERGE)) (\<lambda>rt.
        if rt \<noteq> ELEVATOR_NO_MERGE then Inr ((rt, last_merge q), q)
        else if noxmerges q then Inr ((ELEVATOR_NO_MERGE, None), q)
        else
          bindE (elv_rqhash_find (bkt blk) (rq_mergeable blk) (bi_sector bio) q) (\<lambda>(found, q).
          bindE (case found of
                   None \<Rightarrow> Inr False
                 | Some rq \<Rightarrow> elv_bio_merge_ok ops blk rq bio q) (\<lambda>ok.
            if ok then Inr ((ELEVATOR_BACK_MERGE, found), q)
            else
              (case merge_fn ops of
                 Some f \<Rightarrow> f q bio
               | None \<Rightarrow> Inr ((ELEVATOR_NO_MERGE, None), q))))))"

text \<open>\<open>while (1)\<close> over the hash; the result says whether anything was merged.\<close>

partial_function (option) insert_merge_loop ::
  "'a request_queue_scheme blk_layer \<Rightarrow> bool \<Rightarrow> nat \<Rightarrow> 'a request_queue_scheme \<Rightarrow>
   (bool \<times> 'a request_queue_scheme) res option" where
  "insert_merge_loop blk merged rq q =
     (case deref (rqs q) rq of
        Inl e \<Rightarrow> Some (Inl e)
      | Inr r \<Rightarrow>
          (case elv_rqhash_find (bkt blk) (rq_mergeable blk) (rq_pos r) q of
             Inl e \<Rightarrow> Some (Inl e)
           | Inr p \<Rightarrow>
               (case fst p of
                  None \<Rightarrow> Some (Inr (merged, snd p))
                | Some rq' \<Rightarrow>
                    (case blk_attempt_req_merge blk (snd p) rq' rq of
                       Inl e \<Rightarrow> Some (Inl e)
                     | Inr m \<Rightarrow>
                         if fst m then insert_merge_loop blk True rq' (snd m)
                         else Some (Inr (merged, snd m))))))"

definition elv_attempt_insert_merge ::
  "'a request_queue_scheme blk_layer \<Rightarrow> nat \<Rightarrow> 'a request_queue_scheme \<Rightarrow>
   (bool \<times> 'a request_queue_scheme) res option" where
  "elv_attempt_insert_merge blk rq q =
     (if nomerges q then Some (Inr (False, q))
      else
        bindO (case last_merge q of
                 None \<Rightarrow> Some (Inr (False, q))
               | Some lm \<Rightarrow> Some (blk_attempt_req_merge blk q lm rq)) (\<lambda>(ok, q).
          if ok then Some (Inr (True, q))
          else if noxmerges q then Some (Inr (False, q))
          else insert_merge_loop blk False rq q))"

definition elv_merged_request ::
  "'a request_queue_scheme elv_ops \<Rightarrow> 'a request_queue_scheme blk_layer \<Rightarrow> nat \<Rightarrow> elv_merge_ret \<Rightarrow>
   'a request_queue_scheme \<Rightarrow> 'a request_queue_scheme res" where
  "elv_merged_request ops blk rq type q =
     bindE (case merged_fn ops of Some f \<Rightarrow> f q rq type | None \<Rightarrow> Inr q) (\<lambda>q.
     bindE (if type = ELEVATOR_BACK_MERGE then elv_rqhash_reposition (bkt blk) rq q else Inr q) (\<lambda>q.
       Inr (q\<lparr>last_merge := Some rq\<rparr>)))"

definition elv_merge_requests ::
  "'a request_queue_scheme elv_ops \<Rightarrow> 'a request_queue_scheme blk_layer \<Rightarrow> nat \<Rightarrow> nat \<Rightarrow>
   'a request_queue_scheme \<Rightarrow> 'a request_queue_scheme res" where
  "elv_merge_requests ops blk rq next q =
     bindE (deref (rqs q) next) (\<lambda>n.
     let next_sorted = REQ_SORTED \<in> cmd_flags n in
     bindE (case merge_req_fn ops of
              Some f \<Rightarrow> if next_sorted then f q rq next else Inr q
            | None \<Rightarrow> Inr q) (\<lambda>q.
     bindE (elv_rqhash_reposition (bkt blk) rq q) (\<lambda>q.
     bindE (if next_sorted then
              bindE (elv_rqhash_del next q) (\<lambda>q. Inr (q\<lparr>nr_sorted := nr_sorted q - 1\<rparr>))
            else Inr q) (\<lambda>q.
       Inr (q\<lparr>last_merge := Some rq\<rparr>)))))"

definition elv_bio_merged :: "'q elv_ops \<Rightarrow> nat \<Rightarrow> bio \<Rightarrow> 'q \<Rightarrow> 'q res" where
  "elv_bio_merged ops rq bio q = (case bio_merged_fn ops of Some f \<Rightarrow> f q rq bio | None \<Rightarrow> Inr q)"

section \<open>Inserting\<close>

definition blk_pm_requeue_request ::
  "'a request_queue_scheme blk_layer \<Rightarrow> request \<Rightarrow> 'a request_queue_scheme \<Rightarrow> 'a request_queue_scheme" where
  "blk_pm_requeue_request blk r q =
     (if pm_dev blk \<and> REQ_PM \<notin> cmd_flags r then q\<lparr>nr_pending := nr_pending q - 1\<rparr> else q)"

definition blk_pm_add_request ::
  "'a request_queue_scheme blk_layer \<Rightarrow> request \<Rightarrow> 'a request_queue_scheme \<Rightarrow> 'a request_queue_scheme" where
  "blk_pm_add_request blk r q =
     (if pm_dev blk \<and> REQ_PM \<notin> cmd_flags r then q\<lparr>nr_pending := nr_pending q + 1\<rparr> else q)"

definition set_flag ::
  "nat \<Rightarrow> rq_flag \<Rightarrow> 'a request_queue_scheme \<Rightarrow> 'a request_queue_scheme res" where
  "set_flag rq f q = upd_rq rq (\<lambda>r. r\<lparr>cmd_flags := insert f (cmd_flags r)\<rparr>) q"

definition insert_sort ::
  "'a request_queue_scheme elv_ops \<Rightarrow> 'a request_queue_scheme blk_layer \<Rightarrow> nat \<Rightarrow>
   'a request_queue_scheme \<Rightarrow> 'a request_queue_scheme res" where
  "insert_sort ops blk rq q =
     bindE (deref (rqs q) rq) (\<lambda>r.
     bindE (guardE (rq_fs r) BugOn) (\<lambda>_.
     bindE (set_flag rq REQ_SORTED (q\<lparr>nr_sorted := nr_sorted q + 1\<rparr>)) (\<lambda>q.
     bindE (deref (rqs q) rq) (\<lambda>r.
     bindE (if rq_mergeable blk r then
              bindE (elv_rqhash_add (bkt blk) rq q) (\<lambda>q.
                Inr (if last_merge q = None then q\<lparr>last_merge := Some rq\<rparr> else q))
            else Inr q) (\<lambda>q.
       add_req_fn ops q rq)))))"

definition effective_where :: "request \<Rightarrow> insert_where \<Rightarrow> insert_where" where
  "effective_where r w =
     (if REQ_SOFTBARRIER \<in> cmd_flags r then w
      else if REQ_ELVPRIV \<notin> cmd_flags r \<and> w \<in> {ELEVATOR_INSERT_SORT, ELEVATOR_INSERT_SORT_MERGE}
      then ELEVATOR_INSERT_BACK else w)"

text \<open>\<open>printed\<close> is the complaint counter of \<open>elv_drain_elevator\<close>, threaded through.\<close>

definition elv_add_request' ::
  "'a request_queue_scheme elv_ops \<Rightarrow> 'a request_queue_scheme blk_layer \<Rightarrow> nat \<Rightarrow> nat \<Rightarrow> insert_where \<Rightarrow>
   'a request_queue_scheme \<Rightarrow> (nat \<times> 'a request_queue_scheme) res option" where
  "elv_add_request' ops blk printed rq w q0 =
     bindO (Some (deref (rqs q0) rq)) (\<lambda>r.
     let q = blk_pm_add_request blk r q0;
         q = (if REQ_SOFTBARRIER \<in> cmd_flags r \<and> rq_fs r
              then q\<lparr>end_sector := rq_end_sector r, boundary_rq := Some rq\<rparr> else q);
         sort = (\<lambda>q. Some (bindE (insert_sort ops blk rq q) (\<lambda>q. Inr (printed, q)))) in
     case effective_where r w of
       ELEVATOR_INSERT_REQUEUE \<Rightarrow>
         Some (bindE (set_flag rq REQ_SOFTBARRIER q) (\<lambda>q. Inr (printed, q\<lparr>queue_head := rq # queue_head q\<rparr>)))
     | ELEVATOR_INSERT_FRONT \<Rightarrow>
         Some (bindE (set_flag rq REQ_SOFTBARRIER q) (\<lambda>q. Inr (printed, q\<lparr>queue_head := rq # queue_head q\<rparr>)))
     | ELEVATOR_INSERT_BACK \<Rightarrow>
         bindO (Some (set_flag rq REQ_SOFTBARRIER q)) (\<lambda>q.
         bindO (elv_drain_elevator (dispatch_fn ops) printed q) (\<lambda>(k, q).
           Some (Inr (k, blk_run_queue (q\<lparr>queue_head := queue_head q @ [rq]\<rparr>)))))
     | ELEVATOR_INSERT_SORT_MERGE \<Rightarrow>
         bindO (elv_attempt_insert_merge blk rq q) (\<lambda>(merged, q).
           if merged then Some (Inr (printed, q)) else sort q)
     | ELEVATOR_INSERT_SORT \<Rightarrow> sort q
     | ELEVATOR_INSERT_FLUSH \<Rightarrow>
         Some (bindE (set_flag rq REQ_SOFTBARRIER q) (\<lambda>q.
               bindE (blk_insert_flush blk rq q) (\<lambda>q. Inr (printed, q))))
     | BadInsert \<Rightarrow> Some (Inl BugOn))"

definition elv_requeue_request ::
  "'a request_queue_scheme elv_ops \<Rightarrow> 'a request_queue_scheme blk_layer \<Rightarrow> nat \<Rightarrow> nat \<Rightarrow>
   'a request_queue_scheme \<Rightarrow> (nat \<times> 'a request_queue_scheme) res option" where
  "elv_requeue_request ops blk printed rq q0 =
     bindO (Some (deref (rqs q0) rq)) (\<lambda>r.
     bindO (Some (if rq_account r then
              let q = q0\<lparr>in_flight := (in_flight q0)(rq_sync r := in_flight q0 (rq_sync r) - 1)\<rparr> in
              (if REQ_SORTED \<in> cmd_flags r
               then (case deactivate_req_fn ops of Some f \<Rightarrow> f q rq | None \<Rightarrow> Inr q)
               else Inr q)
            else Inr q0)) (\<lambda>q.
     bindO (Some (upd_rq rq (\<lambda>r. r\<lparr>cmd_flags := cmd_flags r - {REQ_STARTED}\<rparr>) q)) (\<lambda>q.
       elv_add_request' ops blk printed rq ELEVATOR_INSERT_REQUEUE (blk_pm_requeue_request blk r q))))"

section \<open>Passed on to the scheduler\<close>

definition elv_latter_request :: "'q elv_ops \<Rightarrow> nat \<Rightarrow> 'q \<Rightarrow> nat option res" where
  "elv_latter_request ops rq q = (case latter_req_fn ops of Some f \<Rightarrow> f q rq | None \<Rightarrow> Inr None)"

definition elv_former_request :: "'q elv_ops \<Rightarrow> nat \<Rightarrow> 'q \<Rightarrow> nat option res" where
  "elv_former_request ops rq q = (case former_req_fn ops of Some f \<Rightarrow> f q rq | None \<Rightarrow> Inr None)"

definition elv_set_request :: "'q elv_ops \<Rightarrow> nat \<Rightarrow> 'q \<Rightarrow> (int \<times> 'q) res" where
  "elv_set_request ops rq q = (case set_req_fn ops of Some f \<Rightarrow> f q rq | None \<Rightarrow> Inr (0, q))"

definition elv_put_request :: "'q elv_ops \<Rightarrow> nat \<Rightarrow> 'q \<Rightarrow> 'q res" where
  "elv_put_request ops rq q = (case put_req_fn ops of Some f \<Rightarrow> f q rq | None \<Rightarrow> Inr q)"

definition elv_may_queue :: "'q elv_ops \<Rightarrow> 'q \<Rightarrow> int" where
  "elv_may_queue ops q = (case may_queue_fn ops of Some f \<Rightarrow> f q | None \<Rightarrow> ELV_MQUEUE_MAY)"

definition elv_completed_request ::
  "'a request_queue_scheme elv_ops \<Rightarrow> nat \<Rightarrow> 'a request_queue_scheme \<Rightarrow> 'a request_queue_scheme res" where
  "elv_completed_request ops rq q0 =
     bindE (deref (rqs q0) rq) (\<lambda>r.
       if rq_account r then
         (let q = q0\<lparr>in_flight := (in_flight q0)(rq_sync r := in_flight q0 (rq_sync r) - 1)\<rparr> in
          if REQ_SORTED \<in> cmd_flags r
          then (case completed_req_fn ops of Some f \<Rightarrow> f q rq | None \<Rightarrow> Inr q)
          else Inr q)
       else Inr q0)"

end
