(* ===== verification/ElvCore_Correct.thy ===== *)
theory ElvCore_Correct
  imports ElvCore
begin

text \<open>
  Correctness of the request-facing elevator functions: what the lookups and merges return,
  that the insertion loop ends, what each insertion point does to the queue, and that the
  sorted insertion of schedulers never passes a barrier.
\<close>

section \<open>Merging\<close>




text \<open>
  A successful merge frees the second request, as \<open>attempt_merge\<close> does with its last reference; it
  makes none.  A failed one makes and frees nothing.  Whether the call faults, and what it does to
  the hash, the loop does not depend on.
\<close>

definition merge_frees :: "'a request_queue_scheme blk_layer \<Rightarrow> bool" where
  "merge_frees blk \<longleftrightarrow> (\<forall>q rq next b q'. rq \<noteq> next \<longrightarrow> blk_attempt_req_merge blk q rq next = Inr (b, q') \<longrightarrow>
     dom (rqs q') = (if b then dom (rqs q) - {next} else dom (rqs q)))"

text \<open>No request ends where it begins, so the lookup never finds the request itself.\<close>

definition nonempty_requests :: "'a request_queue_scheme blk_layer \<Rightarrow> bool" where
  "nonempty_requests blk \<longleftrightarrow> (\<forall>r. rq_mergeable blk r \<longrightarrow> 0 < rq_sectors r)"

lemma rqhash_scan_same:
  "rqhash_scan mergeable offset l q = Inr (res, q') \<Longrightarrow> same_requests (rqs q) (rqs q')"
proof (induction l arbitrary: q)
  case (Cons x l)
  have "same_requests (rqs q) (rqs q1)" if "elv_rqhash_del' x q = Inr q1" for q1
    using that by (auto simp: elv_rqhash_del'_def res_simps same_requests_upd)
  with Cons show ?case by (auto simp: res_simps split: if_splits intro: same_requests_trans)
qed simp

lemma rqhash_scan_found:
  "rqhash_scan mergeable offset l q = Inr (Some x, q') \<Longrightarrow> \<exists>r. rqs q' x = Some r \<and> mergeable r \<and> rq_hash_key r = offset"
  by (induction l arbitrary: q) (auto simp: res_simps split: if_splits)

lemma elv_rqhash_find_same:
  "elv_rqhash_find bk mergeable offset q = Inr (res, q') \<Longrightarrow> same_requests (rqs q) (rqs q')"
  unfolding elv_rqhash_find_def by (rule rqhash_scan_same)

lemma elv_rqhash_find_dom:
  "elv_rqhash_find bk mergeable offset q = Inr (res, q') \<Longrightarrow> dom (rqs q') = dom (rqs q) \<and>
     (\<forall>x. res = Some x \<longrightarrow> (\<exists>r. rqs q' x = Some r \<and> mergeable r \<and> rq_hash_key r = offset))"
  using same_requests_dom [OF elv_rqhash_find_same] rqhash_scan_found unfolding elv_rqhash_find_def by metis

text \<open>What the loop reports: true when anything was merged, and then the request it began with is gone.\<close>

lemma insert_merge_loop_terminates:
  assumes blk: "merge_frees blk" "nonempty_requests blk" and fin: "finite (dom (rqs q))"
  shows "\<exists>res. insert_merge_loop blk m rq q = Some res \<and>
     (\<forall>b q'. res = Inr (b, q') \<longrightarrow> dom (rqs q') \<subseteq> dom (rqs q) \<and>
        (b \<and> rq \<notin> dom (rqs q') \<or> b = m \<and> dom (rqs q') = dom (rqs q)))"
  using fin
proof (induction "card (dom (rqs q))" arbitrary: m rq q rule: less_induct)
  case less
  show ?case
  proof (cases "rqs q rq")
    case None
    then show ?thesis by (subst insert_merge_loop.simps) (simp add: deref_def)
  next
    case r: (Some r)
    show ?thesis
    proof (cases "elv_rqhash_find (bkt blk) (rq_mergeable blk) (rq_pos r) q")
      case (Inl e)
      with r show ?thesis by (subst insert_merge_loop.simps) simp
    next
      case (Inr p)
      obtain found q1 where p: "p = (found, q1)" by (cases p)
      note f = elv_rqhash_find_dom [OF Inr [unfolded p]]
      show ?thesis
      proof (cases found)
        case None
        with r Inr p f show ?thesis by (subst insert_merge_loop.simps) simp
      next
        case (Some x)
        with f obtain r' where r': "rqs q1 x = Some r'" "rq_mergeable blk r'" "rq_hash_key r' = rq_pos r" by auto
        have xq: "x \<in> dom (rqs q)" using r'(1) f by blast
        show ?thesis
        proof (cases "blk_attempt_req_merge blk q1 x rq")
          case (Inl e)
          with r \<open>elv_rqhash_find _ _ _ q = Inr p\<close> p Some show ?thesis by (subst insert_merge_loop.simps) simp
        next
          case a: (Inr t)
          obtain b q2 where t: "t = (b, q2)" by (cases t)
          have ne: "x \<noteq> rq"
          proof
            assume "x = rq"
            then have "rq_core r' = rq_core r" using elv_rqhash_find_same [OF Inr [unfolded p]] r r'(1)
              by (auto simp: same_requests_def fun_eq_iff dest: spec [of _ rq])
            then have "rq_pos r' = rq_pos r" by (metis rq_core_simps(1))
            with r'(2,3) blk(2) show False by (auto simp: nonempty_requests_def rq_hash_key_def)
          qed
          have d: "dom (rqs q2) = (if b then dom (rqs q) - {rq} else dom (rqs q))"
            using blk(1) ne a [unfolded t] f unfolding merge_frees_def by metis
          have loop: "insert_merge_loop blk m rq q = (if b then insert_merge_loop blk True x q2 else Some (Inr (m, q2)))"
            using r Inr p Some a t by (subst insert_merge_loop.simps) simp
          show ?thesis
          proof (cases b)
            case False
            with loop d show ?thesis by simp
          next
            case True
            with d have d2: "dom (rqs q2) = dom (rqs q) - {rq}" by simp
            have "rq \<in> dom (rqs q)" using r by blast
            with d2 less.prems have "card (dom (rqs q2)) < card (dom (rqs q))" by (metis card_Diff1_less)
            moreover have "finite (dom (rqs q2))" using d2 less.prems by simp
            ultimately obtain res where res: "insert_merge_loop blk True x q2 = Some res" and
              all: "\<forall>b q'. res = Inr (b, q') \<longrightarrow> dom (rqs q') \<subseteq> dom (rqs q2) \<and>
                (b \<and> x \<notin> dom (rqs q') \<or> b = True \<and> dom (rqs q') = dom (rqs q2))"
              using less.hyps [of q2 True x] by (elim exE conjE meta_impE) (assumption | rule that)+
            have "dom (rqs q') \<subseteq> dom (rqs q) \<and> rq \<notin> dom (rqs q') \<and> b'" if "res = Inr (b', q')" for b' q'
            proof -
              from all that have s: "dom (rqs q') \<subseteq> dom (rqs q2)" and "b'" by auto
              have "rq \<notin> dom (rqs q2)" "dom (rqs q2) \<subseteq> dom (rqs q)" unfolding d2 by simp_all
              with s \<open>b'\<close> show ?thesis by (meson subset_trans subsetD)
            qed
            then show ?thesis using loop True res by (intro exI [of _ res]) (simp, blast)
          qed
        qed
      qed
    qed
  qed
qed

lemma elv_merged_request_ok:
  assumes wf: "if type = ELEVATOR_BACK_MERGE then rqhash_wf_but rq (bkt blk) q else rqhash_wf (bkt blk) q"
    and r: "rqs q rq = Some r" and none: "merged_fn ops = None"
  shows "\<exists>q'. elv_merged_request ops blk rq type q = Inr q' \<and> rqhash_wf (bkt blk) q' \<and> last_merge q' = Some rq \<and>
    (type = ELEVATOR_BACK_MERGE \<longrightarrow> rq \<in> set (rqhash q' (bkt blk (rq_hash_key r))))"
proof (cases "type = ELEVATOR_BACK_MERGE")
  case True
  with wf r elv_rqhash_reposition_wf [of rq "bkt blk" q r] obtain q' where
    "elv_rqhash_reposition (bkt blk) rq q = Inr q'" "rqhash_wf (bkt blk) q'"
    "rq \<in> set (rqhash q' (bkt blk (rq_hash_key r)))" by auto
  with True none show ?thesis by (simp add: elv_merged_request_def)
next
  case False
  with wf none show ?thesis by (simp add: elv_merged_request_def)
qed

section \<open>Inserting\<close>

lemma insert_sort_eq:
  assumes r: "rqs q rq = Some r" "rq_fs r" "\<not> ELV_ON_HASH r" and wf: "rqhash_wf (bkt blk) q"
  shows "\<exists>m h lm r'. insert_sort ops blk rq q =
       add_req_fn ops (q\<lparr>rqs := m, rqhash := h, last_merge := lm, nr_sorted := nr_sorted q + 1\<rparr>) rq \<and>
     m = (rqs q)(rq \<mapsto> r') \<and> REQ_SORTED \<in> cmd_flags r' \<and>
     rqhash_wf (bkt blk) (q\<lparr>rqs := m, rqhash := h, last_merge := lm, nr_sorted := nr_sorted q + 1\<rparr>) \<and>
     lm = (if rq_mergeable blk (r\<lparr>cmd_flags := insert REQ_SORTED (cmd_flags r)\<rparr>) \<and> last_merge q = None
           then Some rq else last_merge q)"
proof -
  let ?r = "r\<lparr>cmd_flags := insert REQ_SORTED (cmd_flags r)\<rparr>"
  let ?q1 = "q\<lparr>nr_sorted := nr_sorted q + 1, rqs := (rqs q)(rq \<mapsto> ?r)\<rparr>"
  have s: "set_flag rq REQ_SORTED (q\<lparr>nr_sorted := nr_sorted q + 1\<rparr>) = Inr ?q1"
    using r(1) by (simp add: set_flag_def)
  have nh: "rq \<notin> set (rqhash q b)" for b using wf r by (fastforce simp: rqhash_wf_def)
  then have wf1: "rqhash_wf (bkt blk) ?q1" using wf by (auto simp: rqhash_wf_def)
  have off: "\<not> ELV_ON_HASH ?r" using r(3) by (simp add: ELV_ON_HASH_def)
  show ?thesis
  proof (cases "rq_mergeable blk ?r")
    case False
    have wf1': "rqhash_wf (bkt blk) (q\<lparr>rqs := (rqs q)(rq \<mapsto> ?r)\<rparr>)"
      using wf1 by (simp add: rqhash_wf_def)
    have "insert_sort ops blk rq q = add_req_fn ops ?q1 rq"
      using False r s by (simp add: insert_sort_def)
    moreover have "?q1 = q\<lparr>rqs := (rqs q)(rq \<mapsto> ?r), rqhash := rqhash q, last_merge := last_merge q,
        nr_sorted := nr_sorted q + 1\<rparr>" by (cases q) simp
    ultimately show ?thesis using wf1' False
      by (intro exI [of _ "(rqs q)(rq \<mapsto> ?r)"] exI [of _ "rqhash q"] exI [of _ "last_merge q"] exI [of _ ?r])
         simp
  next
    case True
    let ?h = "(rqhash q)(bkt blk (rq_hash_key r) := rq # rqhash q (bkt blk (rq_hash_key r)))"
    let ?r2 = "?r\<lparr>cmd_flags := insert REQ_HASHED (cmd_flags ?r)\<rparr>"
    have rc: "rqs ?q1 rq = Some ?r" by simp
    from elv_rqhash_add_wf [OF wf1 rc off] have
      a: "\<exists>q2. elv_rqhash_add (bkt blk) rq ?q1 = Inr q2 \<and> rqhash_wf (bkt blk) q2" by blast
    have e: "elv_rqhash_add (bkt blk) rq ?q1 = Inr (?q1\<lparr>rqhash := ?h, rqs := (rqs ?q1)(rq \<mapsto> ?r2)\<rparr>)"
      using off by (simp add: elv_rqhash_add_def Let_def rq_hash_key_def)
    let ?lm = "if last_merge q = None then Some rq else last_merge q"
    have "insert_sort ops blk rq q = add_req_fn ops
        (q\<lparr>rqs := (rqs q)(rq \<mapsto> ?r2), rqhash := ?h, last_merge := ?lm, nr_sorted := nr_sorted q + 1\<rparr>) rq"
      using True r s e by (cases q) (simp add: insert_sort_def)
    moreover have "rqhash_wf (bkt blk)
        (q\<lparr>rqs := (rqs q)(rq \<mapsto> ?r2), rqhash := ?h, last_merge := ?lm, nr_sorted := nr_sorted q + 1\<rparr>)"
      using a e by (auto simp: rqhash_wf_def)
    ultimately show ?thesis using True
      by (intro exI [of _ "(rqs q)(rq \<mapsto> ?r2)"] exI [of _ ?h] exI [of _ ?lm] exI [of _ ?r2]) auto
  qed
qed

text \<open>Inserting at the front, for requeued requests and urgent ones.\<close>

lemma add_front_eq:
  assumes r: "rqs q rq = Some r" and w: "w = ELEVATOR_INSERT_REQUEUE \<or> w = ELEVATOR_INSERT_FRONT"
  shows "\<exists>q'. elv_add_request' ops blk printed rq w q = Some (Inr (printed, q')) \<and>
     queue_head q' = rq # queue_head q \<and>
     rqs q' = (rqs q)(rq \<mapsto> r\<lparr>cmd_flags := insert REQ_SOFTBARRIER (cmd_flags r)\<rparr>) \<and>
     nr_sorted q' = nr_sorted q \<and> last_merge q' = last_merge q \<and> rqhash q' = rqhash q \<and> in_flight q' = in_flight q"
  using w r
  by (auto simp: elv_add_request'_def effective_where_def set_flag_def Let_def blk_pm_add_request_def)

section \<open>Barriers\<close>

definition is_barrier :: "'a request_queue_scheme \<Rightarrow> nat \<Rightarrow> bool" where
  "is_barrier q p \<longleftrightarrow> cmd_flags (the (rqs q p)) \<inter> {REQ_SOFTBARRIER, REQ_STARTED} \<noteq> {}"

lemma barrier_stops: "is_barrier q p \<Longrightarrow> dispatch_stops b r (the (rqs q p))"
  by (auto simp: is_barrier_def dispatch_stops_def)

text \<open>A sorted insertion leaves everything up to the last barrier where it is.\<close>

lemma sorted_slot_barrier:
  assumes "queue_head q = pre @ p # suf" "is_barrier q p"
  shows "\<exists>suf'. sorted_slot q rq = pre @ p # suf' \<and> mset suf' = add_mset rq (mset suf)"
proof -
  let ?stop = "\<lambda>p. dispatch_stops (end_sector q) (the (rqs q rq)) (the (rqs q p))"
  have "rev (queue_head q) = rev suf @ (p # rev pre)" using assms(1) by simp
  then have "sort_place ?stop rq (rev (queue_head q)) = sort_place ?stop rq (rev suf) @ (p # rev pre)"
    using sort_place_append [of "p # rev pre" ?stop rq "rev suf"] barrier_stops [OF assms(2)] by simp
  then have "sorted_slot q rq = pre @ p # rev (sort_place ?stop rq (rev suf))"
    by (simp add: sorted_slot_def)
  then show ?thesis by (intro exI [of _ "rev (sort_place ?stop rq (rev suf))"]) simp
qed

section \<open>Neighbours on the tree\<close>

lemma set_tree_rb_link: "set_tree (rb_link pos x t) = insert x (set_tree t)"
  using set_inorder_link [of pos x t] by simp

lemma remove1_rb_link: "x \<notin> set_tree t \<Longrightarrow> remove1 x (inorder (rb_link pos x t)) = inorder t"
  by (induction t) (auto simp: remove1_append set_tree_rb_link)

lemma next_in_nth:
  "distinct l \<Longrightarrow> i < length l \<Longrightarrow> next_in l (l ! i) = (if Suc i < length l then Some (l ! Suc i) else None)"
  by (simp add: next_in_def list_next_after_nth)

lemma next_in_rev_nth:
  assumes "distinct l" "i < length l"
  shows "next_in (rev l) (l ! i) = (if 0 < i then Some (l ! (i - 1)) else None)"
proof -
  let ?k = "length l - Suc i"
  have n: "rev l ! ?k = l ! i" "distinct (rev l)" "?k < length (rev l)" using assms by (simp_all add: rev_nth)
  have "rev l ! Suc ?k = l ! (i - 1)" if "0 < i"
  proof -
    have "rev l ! Suc ?k = l ! (length l - Suc (Suc ?k))" using that assms(2) by (intro rev_nth) simp
    also have "length l - Suc (Suc ?k) = i - 1" using that assms(2) by simp
    finally show ?thesis .
  qed
  with next_in_nth [OF n(2,3)] assms(2) show ?thesis unfolding n(1) by auto
qed

fun list_tree :: "nat list \<Rightarrow> nat tree" where
  "list_tree [] = Leaf"
| "list_tree (x # xs) = Node Leaf x (list_tree xs)"

section \<open>Properties\<close>

definition elv_example :: "nat list \<Rightarrow> unit request_queue_scheme" where
  "elv_example disp = \<lparr>rqs = [0 \<mapsto> plain_request 80,
       1 \<mapsto> (plain_request 16)\<lparr>cmd_flags := {REQ_HASHED}\<rparr>, 2 \<mapsto> (plain_request 40)\<lparr>cmd_flags := {REQ_SOFTBARRIER}\<rparr>],
     queue_head = disp, last_merge = None, end_sector = 32, boundary_rq = None, nr_sorted = 1,
     in_flight = (\<lambda>_. 1), nr_pending = 0, rqhash = (\<lambda>b. if b = 0 then [1] else []), nomerges = False,
     noxmerges = False, run_count = 0\<rparr>"

definition blk_example :: "'q blk_layer" where
  "blk_example = \<lparr>bkt = (\<lambda>_. 0), blk_rq_merge_ok = (\<lambda>_ _. True), blk_try_merge = (\<lambda>_ _. ELEVATOR_NO_MERGE),
     rq_mergeable = (\<lambda>r. 0 < rq_sectors r), blk_attempt_req_merge = (\<lambda>q _ _. Inr (False, q)),
     blk_insert_flush = (\<lambda>_ q. Inr q), pm_dev = False\<rparr>"

definition ops_example :: "'q elv_ops" where
  "ops_example = \<lparr>allow_bio_merge_fn = None, merge_fn = None, merged_fn = None, merge_req_fn = None,
     bio_merged_fn = None, dispatch_fn = (\<lambda>q. Some (Inr (0, q))), add_req_fn = (\<lambda>q _. Inr q),
     deactivate_req_fn = None, former_req_fn = None, latter_req_fn = None, set_req_fn = None,
     put_req_fn = None, may_queue_fn = None, completed_req_fn = None\<rparr>"


text \<open>C20: One sweep of the disk arm: when a run of like requests without barriers at the end of the
  dispatch list is sorted from the end sector upwards and around, the sorted insertion puts a new
  like request into that run, nowhere before it, and the run stays sorted.\<close>

theorem dispatch_sort_sweep:
  assumes "rqs q rq = Some r" "set (queue_head q) \<subseteq> dom (rqs q)" "queue_head q = pre @ suf"
    and "\<And>p. p \<in> set suf \<Longrightarrow> same_kind r (the (rqs q p))"
    and "pre \<noteq> [] \<Longrightarrow> dispatch_stops (end_sector q) r (the (rqs q (last pre)))"
    and "sweep_sorted q suf"
  shows "\<exists>q' suf'. elv_dispatch_sort rq q = Inr q' \<and> queue_head q' = pre @ suf' \<and>
     mset suf' = add_mset rq (mset suf) \<and> sweep_sorted q suf' \<and> nr_sorted q' = nr_sorted q - 1"
proof -
  obtain suf' where s: "sorted_slot q rq = pre @ suf'" "mset suf' = add_mset rq (mset suf)" "sweep_sorted q suf'"
    using sorted_slot_sweep [OF assms(3), of rq] assms(1,4-6) by auto
  with elv_dispatch_sort_ok [OF assms(1,2)] show ?thesis by fastforce
qed

theorem dispatch_sort_sweep_witness:
  "\<exists>q' suf'. elv_dispatch_sort 0 (elv_example [2, 1]) = Inr q' \<and> queue_head q' = [2] @ suf' \<and>
     mset suf' = {#0, 1#}"
proof -
  let ?q = "elv_example [2, 1]"
  have f: "rqs ?q 0 = Some (plain_request 80)" "queue_head ?q = [2] @ [1]" "set (queue_head ?q) \<subseteq> dom (rqs ?q)"
    "rqs ?q 1 = Some ((plain_request 16)\<lparr>cmd_flags := {REQ_HASHED}\<rparr>)"
    "rqs ?q 2 = Some ((plain_request 40)\<lparr>cmd_flags := {REQ_SOFTBARRIER}\<rparr>)"
    by (simp_all add: elv_example_def)
  have k: "same_kind (plain_request 80) (the (rqs ?q p))" if "p \<in> set [1]" for p
    using that f(4) by (simp add: same_kind_def plain_request_def)
  have d: "dispatch_stops (end_sector ?q) (plain_request 80) (the (rqs ?q (last [2])))"
    using f(5) by (simp add: dispatch_stops_def)
  have "sweep_sorted ?q [1]" by (simp add: sweep_sorted_def)
  from dispatch_sort_sweep [OF f(1,3,2) k d this] show ?thesis by auto
qed




text \<open>C12: The insertion-time merge ends, whatever the hash holds and whether or not a merge faults, provided
  that a successful request merge frees the merged request (as \<open>attempt_merge\<close> does) and only
  non-empty requests are mergeable.  It makes no request, and what it reports is right: true exactly
  when the inserted request was merged away, and otherwise no request is gone.\<close>

theorem insert_merge_terminates:
  assumes "merge_frees blk" "nonempty_requests blk" "finite (dom (rqs q))"
    and "rq \<in> dom (rqs q)" "last_merge q \<noteq> Some rq"
  shows "\<exists>res. elv_attempt_insert_merge blk rq q = Some res \<and>
     (\<forall>b q'. res = Inr (b, q') \<longrightarrow> dom (rqs q') \<subseteq> dom (rqs q) \<and> (b \<longleftrightarrow> rq \<notin> dom (rqs q')) \<and>
        (\<not> b \<longrightarrow> dom (rqs q') = dom (rqs q)))"
proof (cases "nomerges q")
  case True
  then show ?thesis using assms(4) by (simp add: elv_attempt_insert_merge_def)
next
  case no: False
  let ?c = "case last_merge q of None \<Rightarrow> Inr (False, q) | Some lm \<Rightarrow> blk_attempt_req_merge blk q lm rq"
  have eq: "elv_attempt_insert_merge blk rq q = bindO (Some ?c) (\<lambda>(ok, q).
      if ok then Some (Inr (True, q)) else if noxmerges q then Some (Inr (False, q)) else insert_merge_loop blk False rq q)"
    using no by (simp add: elv_attempt_insert_merge_def split: option.split)
  show ?thesis
  proof (cases ?c)
    case (Inl e)
    with eq show ?thesis by simp
  next
    case (Inr t)
    obtain b q1 where t: "t = (b, q1)" by (cases t)
    have d: "dom (rqs q1) = (if b then dom (rqs q) - {rq} else dom (rqs q))"
    proof (cases "last_merge q")
      case (Some x)
      with assms(5) have "x \<noteq> rq" by simp
      with assms(1) Some Inr t show ?thesis unfolding merge_frees_def by (metis option.simps(5))
    qed (use Inr t in auto)
    show ?thesis
    proof (cases "b \<or> noxmerges q1")
      case True
      with eq Inr t d assms(4) show ?thesis by auto
    next
      case False
      with d have d1: "dom (rqs q1) = dom (rqs q)" by simp
      from insert_merge_loop_terminates [OF assms(1,2), of q1 False rq] assms(3) d1 obtain res where
        l: "insert_merge_loop blk False rq q1 = Some res"
        "\<forall>b q'. res = Inr (b, q') \<longrightarrow> dom (rqs q') \<subseteq> dom (rqs q1) \<and>
           (b \<and> rq \<notin> dom (rqs q') \<or> b = False \<and> dom (rqs q') = dom (rqs q1))" by auto
      have "elv_attempt_insert_merge blk rq q = Some res" using eq Inr t False l(1) by simp
      with l(2) d1 assms(4) show ?thesis by (intro exI [of _ res]) fastforce
    qed
  qed
qed

text \<open>
  A block layer that merges: the first request grows by the second, which is freed and leaves the
  hash.  The inserted request 0 is merged into 5, and 5 then into 3, which ends where 5 begins.
\<close>

definition merging_blk :: "'a request_queue_scheme blk_layer" where
  "merging_blk = \<lparr>bkt = (\<lambda>_. 0), blk_rq_merge_ok = (\<lambda>_ _. True), blk_try_merge = (\<lambda>_ _. ELEVATOR_NO_MERGE),
     rq_mergeable = (\<lambda>r. 0 < rq_sectors r),
     blk_attempt_req_merge = (\<lambda>q x y. bindE (deref (rqs q) x) (\<lambda>r. bindE (deref (rqs q) y) (\<lambda>s.
       Inr (True, q\<lparr>rqs := (rqs q)(x \<mapsto> r\<lparr>rq_sectors := rq_sectors r + rq_sectors s\<rparr>, y := None),
                    rqhash := hash_remove y (rqhash q)\<rparr>)))),
     blk_insert_flush = (\<lambda>_ q. Inr q), pm_dev = False\<rparr>"

definition merge_example :: "unit request_queue_scheme" where
  "merge_example = (elv_example [])\<lparr>rqs := [0 \<mapsto> plain_request 24, 5 \<mapsto> (plain_request 16)\<lparr>cmd_flags := {REQ_HASHED}\<rparr>,
     3 \<mapsto> (plain_request 8)\<lparr>cmd_flags := {REQ_HASHED}\<rparr>], rqhash := (\<lambda>b. if b = 0 then [5, 3] else [])\<rparr>"

theorem insert_merge_terminates_witness:
  "\<exists>q'. elv_attempt_insert_merge merging_blk 0 merge_example = Some (Inr (True, q')) \<and>
     0 \<notin> dom (rqs q') \<and> 5 \<notin> dom (rqs q') \<and> 3 \<in> dom (rqs q')"
proof -
  have b: "merge_frees (merging_blk :: unit request_queue_scheme blk_layer)"
    "nonempty_requests (merging_blk :: unit request_queue_scheme blk_layer)"
    by (auto simp: merge_frees_def nonempty_requests_def merging_blk_def res_simps split: if_splits)
  have "finite (dom (rqs merge_example))" "0 \<in> dom (rqs merge_example)" "last_merge merge_example \<noteq> Some 0"
    by (simp_all add: merge_example_def elv_example_def)
  from insert_merge_terminates [OF b this] obtain res where
    r: "elv_attempt_insert_merge merging_blk 0 merge_example = Some res"
    "\<forall>b q'. res = Inr (b, q') \<longrightarrow> dom (rqs q') \<subseteq> dom (rqs merge_example) \<and> (b \<longleftrightarrow> 0 \<notin> dom (rqs q')) \<and>
        (\<not> b \<longrightarrow> dom (rqs q') = dom (rqs merge_example))" by (elim exE conjE) (rule that; assumption)
  let ?h = "\<lambda>l b. if b = (0 :: nat) then l else []"
  let ?s = "\<lambda>m l. merge_example\<lparr>rqs := m, rqhash := ?h l\<rparr>"
  let ?r = "\<lambda>p n. (plain_request p)\<lparr>rq_sectors := n, cmd_flags := {REQ_HASHED}\<rparr>"
  let ?loop = "insert_merge_loop merging_blk"
  note defs = elv_rqhash_find_def merging_blk_def plain_request_def ELV_ON_HASH_def rq_hash_key_def
  have hr: "hash_remove 0 (?h [5, 3]) = ?h [5, 3]" "hash_remove 5 (?h [5, 3]) = ?h [3]" by (auto simp: hash_remove_def)
  have 0: "merge_example = ?s [0 \<mapsto> plain_request 24, 5 \<mapsto> ?r 16 8, 3 \<mapsto> ?r 8 8] [5, 3]"
    by (simp add: merge_example_def plain_request_def)
  have 1: "?loop False 0 (?s [0 \<mapsto> plain_request 24, 5 \<mapsto> ?r 16 8, 3 \<mapsto> ?r 8 8] [5, 3]) =
      ?loop True 5 (?s [5 \<mapsto> ?r 16 16, 3 \<mapsto> ?r 8 8] [5, 3])"
    by (subst insert_merge_loop.simps) (simp add: defs hr fun_upd_twist)
  have 2: "?loop True 5 (?s [5 \<mapsto> ?r 16 16, 3 \<mapsto> ?r 8 8] [5, 3]) = ?loop True 3 (?s [3 \<mapsto> ?r 8 24] [3])"
    by (subst insert_merge_loop.simps) (simp add: defs hr fun_upd_twist)
  have 3: "?loop True 3 (?s [3 \<mapsto> ?r 8 24] [3]) = Some (Inr (True, ?s [3 \<mapsto> ?r 8 24] [3]))"
    by (subst insert_merge_loop.simps) (simp add: defs)
  have "nomerges merge_example = False" "noxmerges merge_example = False" "last_merge merge_example = None"
    by (simp_all add: merge_example_def elv_example_def)
  then have "elv_attempt_insert_merge merging_blk 0 merge_example = ?loop False 0 merge_example"
    by (simp add: elv_attempt_insert_merge_def)
  also have "\<dots> = Some (Inr (True, ?s [3 \<mapsto> ?r 8 24] [3]))" by (subst 0) (simp only: 1 2 3)
  finally show ?thesis using r by auto
qed

fun later_dispatches :: "(bool \<times> nat) list \<Rightarrow> 'a request_queue_scheme \<Rightarrow> 'a request_queue_scheme res" where
  "later_dispatches [] q = Inr q"
| "later_dispatches ((tail, x) # xs) q =
     bindE (if tail then elv_dispatch_add_tail x q else elv_dispatch_sort x q) (later_dispatches xs)"

definition quiet_deactivate :: "'a request_queue_scheme elv_ops \<Rightarrow> bool" where
  "quiet_deactivate ops \<longleftrightarrow> (\<forall>f q rq. deactivate_req_fn ops = Some f \<longrightarrow>
     (\<exists>q'. f q rq = Inr q' \<and> rqs q' = rqs q \<and> queue_head q' = queue_head q \<and> in_flight q' = in_flight q))"

lemma barrier_same:
  assumes "same_requests (rqs q) (rqs q')" "rqs q p = Some r" "is_barrier q p"
  shows "is_barrier q' p"
proof -
  from same_requestsD [OF assms(1,2)] obtain r' where r': "rqs q' p = Some r'" "rq_core r' = rq_core r" by blast
  then have "cmd_flags r' - {REQ_HASHED} = cmd_flags r - {REQ_HASHED}" by (metis rq_core_simps(10))
  with assms(2,3) r'(1) show ?thesis by (auto simp: is_barrier_def)
qed

lemma later_dispatches_first:
  assumes "queue_head q = rq # l" "is_barrier q rq" "set (queue_head q) \<subseteq> dom (rqs q)" "snd ` set xs \<subseteq> dom (rqs q)"
  shows "\<exists>q' l'. later_dispatches xs q = Inr q' \<and> queue_head q' = rq # l' \<and> mset l' = mset l + mset (map snd xs)"
  using assms
proof (induction xs arbitrary: q l)
  case Nil
  then show ?case by simp
next
  case (Cons y xs)
  obtain tail x where y: "y = (tail, x)" by (cases y)
  from Cons.prems(4) y obtain r where r: "rqs q x = Some r" by auto
  from Cons.prems(1,3) obtain r0 where r0: "rqs q rq = Some r0" by auto
  obtain q1 l1 where 1: "(if tail then elv_dispatch_add_tail x q else elv_dispatch_sort x q) = Inr q1"
    "queue_head q1 = rq # l1" "mset l1 = add_mset x (mset l)" "same_requests (rqs q) (rqs q1)"
  proof (cases tail)
    case True
    from elv_dispatch_add_tail_ok [OF r] Cons.prems(1) True that show thesis by fastforce
  next
    case False
    from sorted_slot_barrier [of q "[]" rq l x] Cons.prems(1,2) obtain l1 where
      "sorted_slot q x = rq # l1" "mset l1 = add_mset x (mset l)" by auto
    with elv_dispatch_sort_ok [OF r Cons.prems(3)] False that show thesis by fastforce
  qed
  have d: "dom (rqs q1) = dom (rqs q)" by (rule same_requests_dom [OF 1(4)])
  have "set l1 \<subseteq> dom (rqs q1)" using arg_cong [OF 1(3), of set_mset] Cons.prems(1,3) r d by auto
  then have "set (queue_head q1) \<subseteq> dom (rqs q1)" using r0 d by (auto simp: 1(2))
  moreover have "snd ` set xs \<subseteq> dom (rqs q1)" using Cons.prems(4) d by auto
  ultimately obtain q' l' where "later_dispatches xs q1 = Inr q'" "queue_head q' = rq # l'"
    "mset l' = mset l1 + mset (map snd xs)"
    using Cons.IH [OF 1(2) barrier_same [OF 1(4) r0 Cons.prems(2)]] by blast
  with 1(1,3) y show ?case by auto
qed

text \<open>C22: A requeued request, for any scheduler whose deactivation function, if it has one, leaves the
  requests, the dispatch list and the in-flight counts alone: if it is accounted its in-flight count
  is given back, it is no longer marked started, it goes to the very front of the dispatch list and
  becomes a barrier there.  However many live requests the scheduler then dispatches, sorted or at
  the tail, it stays first, and nothing that was on the list is lost.\<close>

theorem requeue_stays_first:
  assumes "rqs q rq = Some r" "quiet_deactivate ops" "set (queue_head q) \<subseteq> dom (rqs q)" "snd ` set xs \<subseteq> dom (rqs q)"
  shows "\<exists>q'. elv_requeue_request ops blk printed rq q = Some (Inr (printed, q')) \<and>
     queue_head q' = rq # queue_head q \<and>
     in_flight q' = (if rq_account r then (in_flight q)(rq_sync r := in_flight q (rq_sync r) - 1) else in_flight q) \<and>
     rqs q' = (rqs q)(rq \<mapsto> r\<lparr>cmd_flags := insert REQ_SOFTBARRIER (cmd_flags r - {REQ_STARTED})\<rparr>) \<and>
     (\<exists>q'' l. later_dispatches xs q' = Inr q'' \<and> queue_head q'' = rq # l \<and> mset l = mset (queue_head q) + mset (map snd xs))"
proof -
  let ?fl = "if rq_account r then (in_flight q)(rq_sync r := in_flight q (rq_sync r) - 1) else in_flight q"
  obtain q1 where q1: "(if rq_account r then
              let q = q\<lparr>in_flight := (in_flight q)(rq_sync r := in_flight q (rq_sync r) - 1)\<rparr> in
              (if REQ_SORTED \<in> cmd_flags r
               then (case deactivate_req_fn ops of Some f \<Rightarrow> f q rq | None \<Rightarrow> Inr q)
               else Inr q)
            else Inr q) = Inr q1" "rqs q1 = rqs q" "queue_head q1 = queue_head q" "in_flight q1 = ?fl"
  proof (cases "rq_account r \<and> REQ_SORTED \<in> cmd_flags r \<and> deactivate_req_fn ops \<noteq> None")
    case True
    then obtain f where f: "deactivate_req_fn ops = Some f" by auto
    let ?p = "q\<lparr>in_flight := (in_flight q)(rq_sync r := in_flight q (rq_sync r) - 1)\<rparr>"
    from assms(2) f obtain p where "f ?p rq = Inr p" "rqs p = rqs ?p" "queue_head p = queue_head ?p" "in_flight p = in_flight ?p"
      unfolding quiet_deactivate_def by blast
    with True f that [of p] show thesis by simp
  next
    case False
    show thesis
    proof (cases "rq_account r")
      case True
      with False that [of "q\<lparr>in_flight := (in_flight q)(rq_sync r := in_flight q (rq_sync r) - 1)\<rparr>"]
      show thesis by (simp add: Let_def split: option.splits)
    next
      case False
      with that [of q] show thesis by simp
    qed
  qed
  let ?r = "r\<lparr>cmd_flags := cmd_flags r - {REQ_STARTED}\<rparr>"
  let ?q2 = "blk_pm_requeue_request blk r (q1\<lparr>rqs := (rqs q1)(rq \<mapsto> ?r)\<rparr>)"
  have f: "rqs ?q2 = (rqs q)(rq \<mapsto> ?r)" "queue_head ?q2 = queue_head q" "in_flight ?q2 = ?fl"
    using q1(2-4) by (simp_all add: blk_pm_requeue_request_def)
  let ?w = "ELEVATOR_INSERT_REQUEUE"
  have e: "elv_requeue_request ops blk printed rq q = elv_add_request' ops blk printed rq ?w ?q2"
    unfolding elv_requeue_request_def deref_Some [where m = "rqs q", OF assms(1)] bindO_simps q1(1)
    using assms(1) q1(2) by simp
  have "rqs ?q2 rq = Some ?r" using f(1) by simp
  from add_front_eq [OF this, of ?w ops blk printed] obtain q' where q': "elv_add_request' ops blk printed rq ?w ?q2 = Some (Inr (printed, q'))"
      "queue_head q' = rq # queue_head q" "in_flight q' = ?fl"
      "rqs q' = (rqs q)(rq \<mapsto> r\<lparr>cmd_flags := insert REQ_SOFTBARRIER (cmd_flags r - {REQ_STARTED})\<rparr>)"
    using f by auto
  have "is_barrier q' rq" using q'(4) by (simp add: is_barrier_def)
  moreover have d: "dom (rqs q') = dom (rqs q)" using q'(4) assms(1) by auto
  ultimately have "\<exists>q'' l. later_dispatches xs q' = Inr q'' \<and> queue_head q'' = rq # l \<and> mset l = mset (queue_head q) + mset (map snd xs)"
    using later_dispatches_first [of q' rq "queue_head q" xs] q'(2) assms(1,3,4) by auto
  with q' e show ?thesis by auto
qed

theorem requeue_stays_first_witness:
  "\<exists>q' q'' l. elv_requeue_request (ops_example\<lparr>deactivate_req_fn := Some (\<lambda>q _. Inr (q\<lparr>run_count := 7\<rparr>))\<rparr>) blk_example 0 0
       (elv_example [2]) = Some (Inr (0, q')) \<and> queue_head q' = [0, 2] \<and>
     later_dispatches [(False, 1), (True, 1)] q' = Inr q'' \<and> queue_head q'' = 0 # l"
proof -
  have "quiet_deactivate (ops_example\<lparr>deactivate_req_fn := Some (\<lambda>q _. Inr (q\<lparr>run_count := 7\<rparr>))\<rparr> ::
      unit request_queue_scheme elv_ops)" by (simp add: quiet_deactivate_def)
  from requeue_stays_first [OF _ this, of "elv_example [2]" 0 "plain_request 80" "[(False, 1), (True, 1)]" blk_example 0]
  show ?thesis by (fastforce simp: elv_example_def)
qed

text \<open>C23: The rb-tree helpers, for any rebalancing and erasing of \<open>lib/rbtree.c\<close> that keep the in-order
  sequence, and that sequence less the erased node.  Adding keeps the tree sorted by first sector
  with the new request in it; a find returns a request that starts at the sector exactly when there
  is one; deleting takes out exactly the request named and keeps the tree sorted, undoes an
  addition, and of a request that is not on the tree is a \<open>BUG_ON\<close>; the former and the latter
  request of a member are its neighbours in sector order.\<close>

theorem elv_rb_correct:
  assumes "\<And>t. inorder (color t) = inorder t" "\<And>x t. inorder (erase x t) = remove1 x (inorder t)"
    and "rb_sorted pos root" "rq \<notin> set_tree root"
  defines "t \<equiv> elv_rb_add color pos rq root"
  shows "rb_sorted pos t \<and> set_tree t = insert rq (set_tree root) \<and>
     (case elv_rb_find pos s t of
        Some x \<Rightarrow> x \<in> set_tree t \<and> pos x = s
      | None \<Rightarrow> \<forall>x \<in> set_tree t. pos x \<noteq> s) \<and>
     elv_rb_del erase rq root = Inl BugOn \<and>
     (\<forall>x \<in> set_tree t. \<exists>t'. elv_rb_del erase x t = Inr t' \<and> rb_sorted pos t' \<and> set_tree t' = set_tree t - {x} \<and>
        (x = rq \<longrightarrow> inorder t' = inorder root)) \<and>
     (\<forall>i < length (inorder t).
        elv_rb_latter_request t (inorder t ! i) = (if Suc i < length (inorder t) then Some (inorder t ! Suc i) else None) \<and>
        elv_rb_former_request t (inorder t ! i) = (if 0 < i then Some (inorder t ! (i - 1)) else None))"
proof -
  have i: "inorder t = inorder (rb_link pos rq root)" by (simp add: t_def elv_rb_add_def assms(1))
  have s: "sorted (map pos (inorder t))" "distinct (inorder t)"
    using assms(3,4) rb_link_sorted [of pos root rq] rb_link_distinct [of root rq pos]
    by (auto simp: rb_sorted_def i)
  have "set (inorder t) = insert rq (set (inorder root))" by (simp only: i set_inorder_link)
  then have st: "set_tree t = insert rq (set_tree root)" by simp
  have del: "\<exists>t'. elv_rb_del erase x t = Inr t' \<and> rb_sorted pos t' \<and> set_tree t' = set_tree t - {x} \<and>
      (x = rq \<longrightarrow> inorder t' = inorder root)" if "x \<in> set_tree t" for x
  proof -
    have io: "inorder (erase x t) = remove1 x (inorder t)" by (rule assms(2))
    have "set_tree (erase x t) = set_tree t - {x}" using io set_remove1_eq [OF s(2)] by (metis set_inorder)
    moreover have "rb_sorted pos (erase x t)" using s unfolding rb_sorted_def io by (simp add: sorted_map_remove1)
    moreover have "inorder (erase x t) = inorder root" if "x = rq"
      using io that assms(4) by (simp add: i remove1_rb_link)
    ultimately show ?thesis using that by (simp add: elv_rb_del_def)
  qed
  have near: "elv_rb_latter_request t (inorder t ! i) = (if Suc i < length (inorder t) then Some (inorder t ! Suc i) else None)"
    "elv_rb_former_request t (inorder t ! i) = (if 0 < i then Some (inorder t ! (i - 1)) else None)"
    if "i < length (inorder t)" for i
    using that next_in_nth [OF s(2) that] next_in_rev_nth [OF s(2) that]
    by (simp_all add: elv_rb_latter_request_def elv_rb_former_request_def)
  have "elv_rb_del erase rq root = Inl BugOn" using assms(4) by (simp add: elv_rb_del_def)
  with s st del near elv_rb_find_ok [OF s(1), of s] show ?thesis
    by (simp add: rb_sorted_def cong: option.case_cong)
qed

theorem elv_rb_correct_witness:
  "rb_sorted id (elv_rb_add id id 4 (Node Leaf 3 (Node Leaf 5 Leaf))) \<and>
   (\<exists>t'. elv_rb_del (\<lambda>x t. list_tree (remove1 x (inorder t))) 3 (elv_rb_add id id 4 (Node Leaf 3 (Node Leaf 5 Leaf))) = Inr t' \<and>
     set_tree t' = {4, 5})"
proof -
  have "inorder (list_tree l) = l" for l :: "nat list" by (induction l) simp_all
  with elv_rb_correct [of id "\<lambda>x t. list_tree (remove1 x (inorder t))" id "Node Leaf 3 (Node Leaf 5 Leaf)" 4 4]
  show ?thesis by (auto simp: rb_sorted_def)
qed

end
