(* ===== verification/Noop.thy ===== *)
theory Noop
  imports ElvSched
begin

text \<open>
  The no-op scheduler (\<open>noop_experiment/noop-iosched.c\<close>), the base every scheduler of this
  repository was grown from: a single FIFO of requests.
\<close>

record noop_data = request_queue +
  nd_queue :: "nat list"

definition noop_merged_requests :: "nat \<Rightarrow> nat \<Rightarrow> 'a noop_data_scheme \<Rightarrow> 'a noop_data_scheme" where
  "noop_merged_requests rq next q =
     q\<lparr>nd_queue := removeAll next (nd_queue q), queue_head := removeAll next (queue_head q)\<rparr>"

definition noop_dispatch :: "'a noop_data_scheme \<Rightarrow> (int \<times> 'a noop_data_scheme) res" where
  "noop_dispatch q =
     (case list_first (nd_queue q) of
        Some rq \<Rightarrow>
          bindE (elv_dispatch_sort rq (q\<lparr>nd_queue := removeAll rq (nd_queue q)\<rparr>)) (\<lambda>q'. Inr (1, q'))
      | None \<Rightarrow> Inr (0, q))"

definition noop_add_request :: "nat \<Rightarrow> 'a noop_data_scheme \<Rightarrow> 'a noop_data_scheme" where
  "noop_add_request rq q = q\<lparr>nd_queue := nd_queue q @ [rq]\<rparr>"

text \<open>
  \<open>former\<close> and \<open>latter\<close> follow the request's own list node, whichever list it is on: the
  FIFO (whose head means NULL), the dispatch list (whose head is mistaken for a request),
  or no list (a node removed by \<open>list_del_init\<close> is its own neighbour).
\<close>

definition neighbour :: "nat list \<Rightarrow> nat list \<Rightarrow> nat \<Rightarrow> nat option res" where
  "neighbour fifo disp rq =
     (if rq \<in> set fifo then
        (case list_next_after fifo rq of LHead \<Rightarrow> Inr None | LEntry p \<Rightarrow> Inr (Some p))
      else if rq \<in> set disp then
        (case list_next_after disp rq of LHead \<Rightarrow> Inl ListHeadDeref | LEntry p \<Rightarrow> Inr (Some p))
      else Inr (Some rq))"

definition noop_former_request :: "nat \<Rightarrow> 'a noop_data_scheme \<Rightarrow> nat option res" where
  "noop_former_request rq q = neighbour (rev (nd_queue q)) (rev (queue_head q)) rq"

definition noop_latter_request :: "nat \<Rightarrow> 'a noop_data_scheme \<Rightarrow> nat option res" where
  "noop_latter_request rq q = neighbour (nd_queue q) (queue_head q) rq"

text \<open>
  \<open>eq_ok\<close> and \<open>nd_ok\<close> are the outcomes of the two allocations; a fresh block's contents are
  whatever the state holds before the call.
\<close>

definition noop_init_queue ::
  "bool \<Rightarrow> bool \<Rightarrow> 'a noop_data_scheme \<Rightarrow> 'a noop_data_scheme init_result" where
  "noop_init_queue eq_ok nd_ok q =
     (if \<not> eq_ok then \<lparr>ret = - ENOMEM, eq_released = False, result_queue = q\<rparr>
      else if \<not> nd_ok then \<lparr>ret = - ENOMEM, eq_released = True, result_queue = q\<rparr>
      else \<lparr>ret = 0, eq_released = False, result_queue = q\<lparr>nd_queue := []\<rparr>\<rparr>)"

definition noop_exit_queue :: "'a noop_data_scheme \<Rightarrow> unit res" where
  "noop_exit_queue q = guardE (nd_queue q = []) BugOn"

section \<open>Correctness\<close>

definition noop_inv :: "'a noop_data_scheme \<Rightarrow> bool" where
  "noop_inv q \<longleftrightarrow> set (nd_queue q) \<union> set (queue_head q) \<subseteq> dom (rqs q) \<and>
     distinct (nd_queue q @ queue_head q) \<and> nr_sorted q = int (length (nd_queue q))"

lemma noop_dispatch_step:
  assumes inv: "noop_inv q" and ne: "nd_queue q = rq # rest"
  shows "\<exists>q'. noop_dispatch q = Inr (1, q') \<and> noop_inv q' \<and> nd_queue q' = rest \<and>
     queue_head q' = sorted_slot q rq \<and> nr_sorted q' = nr_sorted q - 1 \<and>
     same_requests (rqs q) (rqs q') \<and> run_count q' = run_count q"
proof -
  let ?q = "q\<lparr>nd_queue := removeAll rq (nd_queue q)\<rparr>"
  have rest: "removeAll rq (nd_queue q) = rest" using inv ne by (auto simp: noop_inv_def)
  obtain r where r: "rqs ?q rq = Some r" "set (queue_head ?q) \<subseteq> dom (rqs ?q)"
    using inv ne by (auto simp: noop_inv_def)
  from elv_dispatch_sort_ok [OF r] obtain m lm h where
    d: "elv_dispatch_sort rq ?q = Inr (?q\<lparr>rqs := m, last_merge := lm, nr_sorted := nr_sorted ?q - 1,
          rqhash := h, queue_head := sorted_slot ?q rq\<rparr>)"
    and same: "same_requests (rqs ?q) m" by blast
  have slot: "sorted_slot ?q rq = sorted_slot q rq" by (simp add: sorted_slot_def)
  have m: "mset (sorted_slot q rq) = add_mset rq (mset (queue_head q))" by simp
  have set: "set (sorted_slot q rq) = insert rq (set (queue_head q))"
    using mset_sorted_slot by (metis set_mset_add_mset_insert set_mset_mset)
  have dist: "distinct (sorted_slot q rq)"
    using mset_eq_imp_distinct_iff [of "sorted_slot q rq" "rq # queue_head q"] m inv ne
    by (auto simp: noop_inv_def)
  show ?thesis
    using d rest slot inv ne set dist same same_requests_dom [OF same]
    by (auto simp: noop_dispatch_def noop_inv_def)
qed

lemma noop_dispatch_empty: "nd_queue q = [] \<Longrightarrow> noop_dispatch q = Inr (0, q)"
  by (simp add: noop_dispatch_def)

text \<open>Draining leaves the requests as they are, but for the hash flag, and does not run the queue.\<close>

definition noop_keeps :: "(nat \<rightharpoonup> request) \<Rightarrow> nat \<Rightarrow> 'a noop_data_scheme \<Rightarrow> bool" where
  "noop_keeps m k q \<longleftrightarrow> noop_inv q \<and> same_requests m (rqs q) \<and> run_count q = k"

interpretation noop_keeping: work_conserving
  "noop_keeps m k" "\<lambda>q. mset (nd_queue q)" "\<lambda>q. mset (queue_head q)" "\<lambda>q. Some (noop_dispatch q)"
  for m k
proof (unfold_locales, goal_cases)
  case (1 q)
  then have inv: "noop_inv q" by (simp add: noop_keeps_def)
  show ?case
    using 1 noop_dispatch_step [OF inv] noop_dispatch_empty [of q]
    by (cases "nd_queue q") (auto simp: noop_keeps_def intro: same_requests_trans)
next
  case (2 q n q')
  then show ?case using noop_dispatch_step [of q] by (cases "nd_queue q") (auto simp: noop_keeps_def)
qed

interpretation noop: work_conserving
  "noop_inv" "\<lambda>q. mset (nd_queue q)" "\<lambda>q. mset (queue_head q)" "\<lambda>q. Some (noop_dispatch q)"
proof (unfold_locales, goal_cases)
  case (1 q)
  then show ?case
    using noop_dispatch_step [OF 1] noop_dispatch_empty [of q]
    by (cases "nd_queue q") auto
next
  case (2 q n q')
  then show ?case using noop_dispatch_step [of q] by (cases "nd_queue q") auto
qed

lemma noop_add_request_inv:
  "noop_inv q \<Longrightarrow> rq \<in> dom (rqs q) \<Longrightarrow> rq \<notin> set (nd_queue q @ queue_head q) \<Longrightarrow>
   noop_inv (noop_add_request rq (q\<lparr>nr_sorted := nr_sorted q + 1\<rparr>))"
  by (auto simp: noop_inv_def noop_add_request_def)

section \<open>Properties\<close>

definition noop_example :: noop_data where
  "noop_example = \<lparr>rqs = [0 \<mapsto> plain_request 80, 1 \<mapsto> plain_request 16, 2 \<mapsto> plain_request 40],
     queue_head = [2], last_merge = None, end_sector = 0, boundary_rq = None, nr_sorted = 2,
     in_flight = (\<lambda>_. 0), nr_pending = 0, rqhash = (\<lambda>_. []), nomerges = False, noxmerges = False,
     run_count = 0, nd_queue = [0, 1]\<rparr>"

lemma noop_example_inv: "noop_inv noop_example"
  and noop_example_fields [simp]: "nd_queue noop_example = [0, 1]" "queue_head noop_example = [2]"
  by (auto simp: noop_example_def noop_inv_def)

text \<open>A dispatch of a non-empty FIFO takes exactly the oldest request to its sorted place on the dispatch
  list and returns 1; an empty FIFO is left alone and reported by 0.\<close>

theorem noop_dispatch_fifo:
  assumes "noop_inv q"
  shows "case nd_queue q of
      [] \<Rightarrow> noop_dispatch q = Inr (0, q)
    | rq # rest \<Rightarrow> \<exists>q'. noop_dispatch q = Inr (1, q') \<and> noop_inv q' \<and> nd_queue q' = rest \<and>
                       queue_head q' = sorted_slot q rq"
  using noop_dispatch_step [OF assms] noop_dispatch_empty [of q] by (auto split: list.split)

theorem noop_dispatch_fifo_witness:
  "\<exists>q'. noop_dispatch noop_example = Inr (1, q') \<and> noop_inv q' \<and> nd_queue q' = [1] \<and>
     queue_head q' = sorted_slot noop_example 0"
  using noop_dispatch_fifo [OF noop_example_inv] by simp

text \<open>Draining the no-op scheduler ends, faults nowhere, empties its FIFO onto the dispatch list without
  losing or duplicating a request, leaves no request counted as sorted, and so never makes the
  elevator complain about a scheduler that keeps requests back.\<close>

theorem noop_drain:
  assumes "noop_inv q"
  shows "\<exists>q'. elv_drain_elevator (\<lambda>q. Some (noop_dispatch q)) printed q = Some (Inr (printed, q')) \<and>
     nd_queue q' = [] \<and> nr_sorted q' = 0 \<and>
     mset (queue_head q') = mset (nd_queue q) + mset (queue_head q)"
proof -
  from noop.drain_empties [OF assms] obtain q' where
    q': "drain_loop (\<lambda>q. Some (noop_dispatch q)) q = Some (Inr q')" "noop_inv q'" "nd_queue q' = []"
      "mset (queue_head q') = mset (nd_queue q) + mset (queue_head q)" by auto
  then have "nr_sorted q' = 0" by (simp add: noop_inv_def)
  with q' show ?thesis by (simp add: elv_drain_elevator_def)
qed

theorem noop_drain_witness:
  "\<exists>q'. elv_drain_elevator (\<lambda>q. Some (noop_dispatch q)) 0 noop_example = Some (Inr (0, q')) \<and>
     mset (queue_head q') = {#0, 1, 2#}"
  using noop_drain [OF noop_example_inv, of 0] by (auto simp: add_mset_commute)

text \<open>Asked for the neighbours of a request that is still in the FIFO, \<open>former\<close> and \<open>latter\<close> answer
  with the request before and after it, NULL at the ends; asked for a request that was already
  dispatched and is first or last there, they return the list head as if it were a request.\<close>

theorem noop_neighbours:
  assumes "noop_inv q"
  shows "(\<forall>i < length (nd_queue q).
        noop_latter_request (nd_queue q ! i) q =
          Inr (if Suc i < length (nd_queue q) then Some (nd_queue q ! Suc i) else None) \<and>
        noop_former_request (nd_queue q ! i) q =
          Inr (if 0 < i then Some (nd_queue q ! (i - 1)) else None)) \<and>
     (queue_head q \<noteq> [] \<longrightarrow>
        noop_latter_request (last (queue_head q)) q = Inl ListHeadDeref \<and>
        noop_former_request (hd (queue_head q)) q = Inl ListHeadDeref)"
proof -
  let ?l = "nd_queue q" and ?d = "queue_head q"
  have d: "distinct ?l" "distinct ?d" "set ?l \<inter> set ?d = {}" using assms by (auto simp: noop_inv_def)
  have 1: "noop_latter_request (?l ! i) q = Inr (if Suc i < length ?l then Some (?l ! Suc i) else None)"
    if "i < length ?l" for i
    using that list_next_after_nth [OF d(1) that] by (simp add: noop_latter_request_def neighbour_def)
  have 2: "noop_former_request (?l ! i) q = Inr (if 0 < i then Some (?l ! (i - 1)) else None)"
    if i: "i < length ?l" for i
  proof -
    let ?j = "length ?l - Suc i"
    have "rev ?l ! ?j = ?l ! i" using i by (simp add: rev_nth)
    moreover have "rev ?l ! Suc ?j = ?l ! (i - 1)" if "0 < i"
    proof -
      have "length ?l - Suc (Suc ?j) = i - 1" using that i by arith
      with that i show ?thesis by (simp add: rev_nth)
    qed
    moreover have "Suc ?j < length ?l \<longleftrightarrow> 0 < i" using i by auto
    ultimately show ?thesis using list_next_after_nth [of "rev ?l" ?j] d(1) i
      by (auto simp: noop_former_request_def neighbour_def)
  qed
  have 3: "noop_latter_request (last ?d) q = Inl ListHeadDeref" if "?d \<noteq> []"
  proof -
    have "last ?d \<notin> set ?l" using that d(3) last_in_set by blast
    with that list_next_after_nth [OF d(2), of "length ?d - 1"] show ?thesis
      by (simp add: noop_latter_request_def neighbour_def last_conv_nth)
  qed
  have 4: "noop_former_request (hd ?d) q = Inl ListHeadDeref" if "?d \<noteq> []"
  proof -
    have "hd ?d \<notin> set ?l" "hd ?d \<in> set ?d" using that d(3) hd_in_set by blast+
    moreover have "hd ?d = rev ?d ! (length ?d - 1)"
      using that by (simp add: rev_nth hd_conv_nth)
    ultimately show ?thesis
      using that list_next_after_nth [of "rev ?d" "length ?d - 1"] d(2)
      by (simp add: noop_former_request_def neighbour_def)
  qed
  show ?thesis using 1 2 3 4 by blast
qed

theorem noop_neighbours_witness:
  "noop_latter_request 0 noop_example = Inr (Some 1) \<and> noop_latter_request 2 noop_example = Inl ListHeadDeref"
  using noop_neighbours [OF noop_example_inv] by auto

end
