(* ===== verification/NoopElevator.thy ===== *)
theory NoopElevator
  imports ElvCore_Correct Noop
begin

text \<open>
  The elevator core driving the no-op scheduler: the insertion points with the scheduler's
  operations table plugged in.
\<close>

definition noop_ops :: "noop_data elv_ops" where
  "noop_ops = \<lparr>allow_bio_merge_fn = None, merge_fn = None, merged_fn = None,
     merge_req_fn = Some (\<lambda>q rq next. Inr (noop_merged_requests rq next q)),
     bio_merged_fn = None, dispatch_fn = (\<lambda>q. Some (noop_dispatch q)),
     add_req_fn = (\<lambda>q rq. Inr (noop_add_request rq q)), deactivate_req_fn = None,
     former_req_fn = Some (\<lambda>q rq. noop_former_request rq q),
     latter_req_fn = Some (\<lambda>q rq. noop_latter_request rq q),
     set_req_fn = None, put_req_fn = None, may_queue_fn = None, completed_req_fn = None\<rparr>"

definition elv_consistent :: "noop_data blk_layer \<Rightarrow> noop_data \<Rightarrow> bool" where
  "elv_consistent blk q \<longleftrightarrow> noop_inv q \<and> rqhash_wf (bkt blk) q"

lemma noop_drain_keeps:
  assumes "noop_inv q"
  shows "\<exists>q'. elv_drain_elevator (\<lambda>q. Some (noop_dispatch q)) printed q = Some (Inr (printed, q')) \<and>
     noop_inv q' \<and> nd_queue q' = [] \<and> mset (queue_head q') = mset (nd_queue q) + mset (queue_head q) \<and>
     same_requests (rqs q) (rqs q') \<and> run_count q' = run_count q"
proof -
  have "noop_keeps (rqs q) (run_count q) q" using assms by (simp add: noop_keeps_def)
  from noop_keeping.drain_empties [OF this] obtain q' where
    q': "drain_loop (\<lambda>q. Some (noop_dispatch q)) q = Some (Inr q')" "noop_keeps (rqs q) (run_count q) q'"
      "nd_queue q' = []" "mset (queue_head q') = mset (nd_queue q) + mset (queue_head q)" by auto
  then have "nr_sorted q' = 0" by (simp add: noop_keeps_def noop_inv_def)
  with q' show ?thesis by (simp add: elv_drain_elevator_def noop_keeps_def)
qed

lemma same_requests_barrier:
  "same_requests (rqs q) (rqs q') \<Longrightarrow> rqs q p = Some r \<Longrightarrow> REQ_SOFTBARRIER \<in> cmd_flags r \<Longrightarrow> is_barrier q' p"
proof -
  assume same: "same_requests (rqs q) (rqs q')" and r: "rqs q p = Some r" "REQ_SOFTBARRIER \<in> cmd_flags r"
  from same_requestsD [OF same r(1)] obtain r' where r': "rqs q' p = Some r'" "rq_core r' = rq_core r" by blast
  then have "cmd_flags r' - {REQ_HASHED} = cmd_flags r - {REQ_HASHED}" by (metis rq_core_simps(10))
  with r(2) have "REQ_SOFTBARRIER \<in> cmd_flags r'" by blast
  with r'(1) show ?thesis by (simp add: is_barrier_def)
qed

section \<open>Properties\<close>

text \<open>A request inserted at the sorted position with the no-op scheduler is counted, hashed when
  mergeable, and joins the end of the scheduler's FIFO; scheduler and hash stay consistent.\<close>

theorem noop_insert_sort:
  assumes "elv_consistent blk q" "rqs q rq = Some r" "rq_fs r" "\<not> ELV_ON_HASH r"
    and "REQ_ELVPRIV \<in> cmd_flags r" "REQ_SOFTBARRIER \<notin> cmd_flags r"
    and "rq \<notin> set (nd_queue q)" "rq \<notin> set (queue_head q)"
  shows "\<exists>q'. elv_add_request' noop_ops blk printed rq ELEVATOR_INSERT_SORT q = Some (Inr (printed, q')) \<and>
     elv_consistent blk q' \<and> nd_queue q' = nd_queue q @ [rq] \<and> nr_sorted q' = nr_sorted q + 1 \<and>
     queue_head q' = queue_head q"
proof -
  let ?q0 = "blk_pm_add_request blk r q"
  have f: "rqs ?q0 = rqs q" "nd_queue ?q0 = nd_queue q" "queue_head ?q0 = queue_head q"
    "nr_sorted ?q0 = nr_sorted q" "rqhash ?q0 = rqhash q" "last_merge ?q0 = last_merge q"
    by (simp_all add: blk_pm_add_request_def)
  have wf0: "rqhash_wf (bkt blk) ?q0" using assms(1) f by (simp add: elv_consistent_def rqhash_wf_def)
  have r0: "rqs ?q0 rq = Some r" using assms(2) f by simp
  from insert_sort_eq [OF r0 assms(3,4) wf0, of noop_ops] obtain m h lm r' where
    s: "insert_sort noop_ops blk rq ?q0 =
        add_req_fn noop_ops (?q0\<lparr>rqs := m, rqhash := h, last_merge := lm, nr_sorted := nr_sorted ?q0 + 1\<rparr>) rq"
      "m = (rqs ?q0)(rq \<mapsto> r')"
      "rqhash_wf (bkt blk) (?q0\<lparr>rqs := m, rqhash := h, last_merge := lm, nr_sorted := nr_sorted ?q0 + 1\<rparr>)"
    by blast
  let ?q' = "?q0\<lparr>rqs := m, rqhash := h, last_merge := lm, nr_sorted := nr_sorted ?q0 + 1,
       nd_queue := nd_queue ?q0 @ [rq]\<rparr>"
  have "elv_add_request' noop_ops blk printed rq ELEVATOR_INSERT_SORT q = Some (Inr (printed, ?q'))"
    using assms(2,5,6) s(1) by (simp add: elv_add_request'_def effective_where_def Let_def noop_ops_def noop_add_request_def)
  moreover have "noop_inv ?q'"
    using assms(1,7,8) f s(2) by (auto simp: elv_consistent_def noop_inv_def)
  moreover have "rqhash_wf (bkt blk) ?q'" using s(3) by (simp add: rqhash_wf_def)
  ultimately show ?thesis using f by (simp add: elv_consistent_def)
qed

theorem noop_insert_sort_witness:
  "\<exists>q'. elv_add_request' noop_ops blk_example 0 3 ELEVATOR_INSERT_SORT
      (noop_example\<lparr>rqs := (rqs noop_example)(3 \<mapsto> (plain_request 8)\<lparr>cmd_flags := {REQ_ELVPRIV}\<rparr>)\<rparr>) =
     Some (Inr (0, q')) \<and> nd_queue q' = [0, 1, 3]"
proof -
  let ?q = "noop_example\<lparr>rqs := (rqs noop_example)(3 \<mapsto> (plain_request 8)\<lparr>cmd_flags := {REQ_ELVPRIV}\<rparr>)\<rparr>"
  have c: "elv_consistent blk_example ?q"
    using noop_example_inv
    by (auto simp: elv_consistent_def noop_inv_def rqhash_wf_def) (auto simp: noop_example_def)
  from noop_insert_sort [OF c, of 3 "(plain_request 8)\<lparr>cmd_flags := {REQ_ELVPRIV}\<rparr>" 0]
  show ?thesis by (auto simp: plain_request_def ELV_ON_HASH_def)
qed

text \<open>C13: Inserting at the back first forces everything out of the no-op scheduler: afterwards its FIFO is
  empty, the new request is the last on the dispatch list behind exactly the requests that were
  waiting or already dispatched, the queue has been run once, and every later sorted insertion goes
  behind the new request.\<close>

theorem noop_insert_back:
  assumes "noop_inv q" "rqs q rq = Some r" "REQ_SOFTBARRIER \<notin> cmd_flags r"
  shows "\<exists>q' l. elv_add_request' noop_ops blk printed rq ELEVATOR_INSERT_BACK q = Some (Inr (printed, q')) \<and>
     nd_queue q' = [] \<and> nr_sorted q' = 0 \<and> queue_head q' = l @ [rq] \<and>
     mset l = mset (nd_queue q) + mset (queue_head q) \<and> run_count q' = run_count q + 1 \<and>
     (\<forall>x. sorted_slot q' x = l @ [rq, x])"
proof -
  let ?r = "r\<lparr>cmd_flags := insert REQ_SOFTBARRIER (cmd_flags r)\<rparr>"
  let ?q0 = "(blk_pm_add_request blk r q)\<lparr>rqs := (rqs q)(rq \<mapsto> ?r)\<rparr>"
  have f: "rqs (blk_pm_add_request blk r q) = rqs q" "nd_queue ?q0 = nd_queue q" "queue_head ?q0 = queue_head q"
    "nr_sorted ?q0 = nr_sorted q" "run_count ?q0 = run_count q"
    by (simp_all add: blk_pm_add_request_def)
  have "noop_inv ?q0" using assms(1) f by (auto simp: noop_inv_def)
  from noop_drain_keeps [OF this, of printed] obtain q1 where
    d: "elv_drain_elevator (\<lambda>q. Some (noop_dispatch q)) printed ?q0 = Some (Inr (printed, q1))"
      "noop_inv q1" "nd_queue q1 = []" "mset (queue_head q1) = mset (nd_queue q) + mset (queue_head q)"
      "same_requests (rqs ?q0) (rqs q1)" "run_count q1 = run_count q" using f by auto
  let ?q' = "blk_run_queue (q1\<lparr>queue_head := queue_head q1 @ [rq]\<rparr>)"
  have "elv_add_request' noop_ops blk printed rq ELEVATOR_INSERT_BACK q = Some (Inr (printed, ?q'))"
    using assms(2,3) d(1) f(1)
    by (simp add: elv_add_request'_def effective_where_def Let_def set_flag_def noop_ops_def)
  moreover have "is_barrier ?q' rq"
    using same_requests_barrier [OF d(5), of rq ?r] by (simp add: is_barrier_def blk_run_queue_def)
  then have "sorted_slot ?q' x = queue_head q1 @ [rq, x]" for x
    using sorted_slot_barrier [of ?q' "queue_head q1" rq "[]" x] by (auto simp: blk_run_queue_def)
  ultimately show ?thesis using d
    by (intro exI [of _ ?q'] exI [of _ "queue_head q1"]) (simp add: blk_run_queue_def noop_inv_def)
qed

theorem noop_insert_back_witness:
  "\<exists>q' l. elv_add_request' noop_ops blk_example 0 2 ELEVATOR_INSERT_BACK (noop_example\<lparr>queue_head := []\<rparr>) =
     Some (Inr (0, q')) \<and> queue_head q' = l @ [2] \<and> mset l = {#0, 1#}"
proof -
  have "noop_inv (noop_example\<lparr>queue_head := []\<rparr>)" using noop_example_inv by (simp add: noop_inv_def)
  moreover have "rqs (noop_example\<lparr>queue_head := []\<rparr>) 2 = Some (plain_request 40)" by (simp add: noop_example_def)
  moreover have "REQ_SOFTBARRIER \<notin> cmd_flags (plain_request 40)" by (simp add: plain_request_def)
  ultimately show ?thesis using noop_insert_back [of "noop_example\<lparr>queue_head := []\<rparr>" 2] by fastforce
qed

end
