(* ===== verification/Noop_Variants.thy ===== *)
theory Noop_Variants
  imports Noop
begin

text \<open>
  Two grown no-op schedulers: the released one, which restarts the queue by itself
  (\<open>launch.c\<close>, the same file as \<open>launch_noop.c\<close>), and the congestion experiment, which limits
  the outstanding requests (\<open>congestion_experiment/noop_with_congestion.c\<close>).
\<close>

section \<open>The released no-op scheduler\<close>

record noop_kick = noop_data +
  unplug_pending :: bool
  chara_locker :: int
  sfqr_size :: int

definition kblockd_schedule_work :: "'a noop_kick_scheme \<Rightarrow> 'a noop_kick_scheme" where
  "kblockd_schedule_work q = q\<lparr>unplug_pending := True\<rparr>"

definition sfq_kick_queue :: "'a noop_kick_scheme \<Rightarrow> 'a noop_kick_scheme" where
  "sfq_kick_queue q = blk_run_queue (q\<lparr>unplug_pending := False\<rparr>)"

definition kick_init_queue ::
  "bool \<Rightarrow> bool \<Rightarrow> 'a noop_kick_scheme \<Rightarrow> 'a noop_kick_scheme init_result" where
  "kick_init_queue eq_ok nd_ok q =
     (if \<not> eq_ok then \<lparr>ret = - ENOMEM, eq_released = False, result_queue = q\<rparr>
      else if \<not> nd_ok then \<lparr>ret = - ENOMEM, eq_released = True, result_queue = q\<rparr>
      else \<lparr>ret = 0, eq_released = False, result_queue =
        q\<lparr>chara_locker := 0, sfqr_size := 0, nd_queue := [], unplug_pending := False\<rparr>\<rparr>)"

definition kick_merged_requests :: "nat \<Rightarrow> nat \<Rightarrow> 'a noop_kick_scheme \<Rightarrow> 'a noop_kick_scheme" where
  "kick_merged_requests rq next q =
     q\<lparr>nd_queue := removeAll next (nd_queue q), queue_head := removeAll next (queue_head q)\<rparr>"

text \<open>Adding runs the queue at once.\<close>

definition kick_add_request :: "nat \<Rightarrow> 'a noop_kick_scheme \<Rightarrow> 'a noop_kick_scheme" where
  "kick_add_request rq q =
     blk_run_queue (q\<lparr>sfqr_size := sfqr_size q + 1, nd_queue := nd_queue q @ [rq]\<rparr>)"

definition kick_dispatch :: "'a noop_kick_scheme \<Rightarrow> (int \<times> 'a noop_kick_scheme) res" where
  "kick_dispatch q0 =
     (let q = (if sfqr_size q0 \<noteq> 0 then kblockd_schedule_work q0 else q0) in
      case list_first (nd_queue q) of
        Some rq \<Rightarrow>
          bindE (elv_dispatch_sort rq (q\<lparr>nd_queue := removeAll rq (nd_queue q)\<rparr>)) (\<lambda>q. Inr (1, q))
      | None \<Rightarrow> Inr (0, q))"

definition kick_completed :: "'a noop_kick_scheme \<Rightarrow> 'a noop_kick_scheme" where
  "kick_completed q0 =
     (let q = q0\<lparr>sfqr_size := sfqr_size q0 - 1\<rparr> in
      if sfqr_size q > 0 then kblockd_schedule_work q else q)"

definition kick_exit_queue :: "'a noop_kick_scheme \<Rightarrow> unit res" where
  "kick_exit_queue q = guardE (nd_queue q = []) BugOn"

lemma kick_dispatch_eq:
  "kick_dispatch q = noop_dispatch (if sfqr_size q \<noteq> 0 then kblockd_schedule_work q else q)"
  by (simp add: kick_dispatch_def noop_dispatch_def Let_def)

lemma noop_inv_kick [simp]: "noop_inv (kblockd_schedule_work q) = noop_inv q"
  and kick_fields [simp]: "nd_queue (kblockd_schedule_work q) = nd_queue q"
    "queue_head (kblockd_schedule_work q) = queue_head q" "sfqr_size (kblockd_schedule_work q) = sfqr_size q"
    "unplug_pending (kblockd_schedule_work q)"
  by (simp_all add: kblockd_schedule_work_def noop_inv_def)

interpretation kick: work_conserving
  "noop_inv" "\<lambda>q. mset (nd_queue q)" "\<lambda>q. mset (queue_head q)" "\<lambda>q. Some (kick_dispatch q)"
proof (unfold_locales, goal_cases)
  case (1 q)
  let ?q = "if sfqr_size q \<noteq> 0 then kblockd_schedule_work q else q"
  have "noop_inv ?q" using 1 by simp
  from noop.dispatch_law [OF this] show ?case by (simp add: kick_dispatch_eq split: if_splits)
next
  case (2 q n q')
  let ?q = "if sfqr_size q \<noteq> 0 then kblockd_schedule_work q else q"
  have "noop_inv ?q" "mset (nd_queue ?q) \<noteq> {#}" using 2 by auto
  from noop.progress [OF this, of n q'] 2(3) show ?case by (simp add: kick_dispatch_eq)
qed

text \<open>
  Nothing that has been accepted is forgotten: while requests are waiting or outstanding, the
  restart is scheduled after every dispatch and every completion.
\<close>

definition kick_counts :: "nat \<Rightarrow> 'a noop_kick_scheme \<Rightarrow> bool" where
  "kick_counts out q \<longleftrightarrow> noop_inv q \<and> sfqr_size q = int (length (nd_queue q) + out)"

lemma kick_dispatch_step:
  assumes "kick_counts out q" "nd_queue q = rq # rest"
  shows "\<exists>q'. kick_dispatch q = Inr (1, q') \<and> kick_counts (out + 1) q' \<and> nd_queue q' = rest \<and>
     queue_head q' = sorted_slot q rq \<and> unplug_pending q'"
proof -
  let ?q = "kblockd_schedule_work q"
  have s: "sfqr_size q \<noteq> 0" using assms by (simp add: kick_counts_def)
  have inv: "noop_inv ?q" and ne: "nd_queue ?q = rq # rest" using assms by (simp_all add: kick_counts_def)
  from inv ne have rest: "removeAll rq (nd_queue q) = rest" by (auto simp: noop_inv_def)
  obtain r where r: "rqs ?q rq = Some r" "set (queue_head ?q) \<subseteq> dom (rqs ?q)"
    using inv ne by (auto simp: noop_inv_def kblockd_schedule_work_def)
  let ?q1 = "?q\<lparr>nd_queue := rest\<rparr>"
  from r have r1: "rqs ?q1 rq = Some r" "set (queue_head ?q1) \<subseteq> dom (rqs ?q1)" by simp_all
  from elv_dispatch_sort_ok [OF r1] obtain m lm h where
    d: "elv_dispatch_sort rq ?q1 = Inr (?q1\<lparr>rqs := m, last_merge := lm, nr_sorted := nr_sorted ?q1 - 1,
          rqhash := h, queue_head := sorted_slot ?q1 rq\<rparr>)" by blast
  then have e: "kick_dispatch q = Inr (1, ?q1\<lparr>rqs := m, last_merge := lm, nr_sorted := nr_sorted ?q1 - 1,
          rqhash := h, queue_head := sorted_slot ?q1 rq\<rparr>)"
    using s rest assms(2) by (simp add: kick_dispatch_def Let_def)
  from noop_dispatch_step [OF inv ne] obtain q' where
    n: "noop_dispatch ?q = Inr (1, q')" "noop_inv q'" by blast
  have "q' = ?q1\<lparr>rqs := m, last_merge := lm, nr_sorted := nr_sorted ?q1 - 1,
          rqhash := h, queue_head := sorted_slot ?q1 rq\<rparr>"
    using e n(1) s by (simp add: kick_dispatch_eq)
  moreover have "sorted_slot ?q1 rq = sorted_slot q rq" by (simp add: sorted_slot_def kblockd_schedule_work_def)
  ultimately show ?thesis using e n(2) assms by (simp add: kick_counts_def)
qed

lemma kick_completed_counts:
  "kick_counts (Suc out) q \<Longrightarrow> kick_counts out (kick_completed q) \<and>
   (out > 0 \<or> nd_queue q \<noteq> [] \<longrightarrow> unplug_pending (kick_completed q))"
  by (cases "nd_queue q") (auto simp: kick_counts_def kick_completed_def Let_def noop_inv_def kblockd_schedule_work_def)

section \<open>The congestion experiment\<close>

definition REQUEST_DEPTH :: int where "REQUEST_DEPTH = 1"

text \<open>\<open>nrs\<close> are the allocated \<open>struct noop_request\<close>s, each holding the request it stands for.\<close>

record noop_depth = request_queue +
  dq_queue :: "nat list"
  out_req :: "nat option"
  depth :: int
  nr_size :: int
  timer_on :: bool
  work_on :: bool
  nrs :: "nat \<rightharpoonup> nat option"

definition noop_kick_queue :: "'a noop_depth_scheme \<Rightarrow> 'a noop_depth_scheme" where
  "noop_kick_queue q = blk_run_queue (q\<lparr>work_on := False\<rparr>)"

definition noop_idle_slice_timer :: "'a noop_depth_scheme \<Rightarrow> 'a noop_depth_scheme" where
  "noop_idle_slice_timer q =
     (let q = q\<lparr>timer_on := False\<rparr> in if dq_queue q \<noteq> [] then q\<lparr>work_on := True\<rparr> else q)"

definition depth_init_queue ::
  "bool \<Rightarrow> bool \<Rightarrow> 'a noop_depth_scheme \<Rightarrow> 'a noop_depth_scheme init_result" where
  "depth_init_queue eq_ok nd_ok q =
     (if \<not> eq_ok then \<lparr>ret = - ENOMEM, eq_released = False, result_queue = q\<rparr>
      else if \<not> nd_ok then \<lparr>ret = - ENOMEM, eq_released = True, result_queue = q\<rparr>
      else \<lparr>ret = 0, eq_released = False, result_queue =
        q\<lparr>depth := 0, nr_size := 0, work_on := False, timer_on := False, dq_queue := []\<rparr>\<rparr>)"

definition depth_set_request ::
  "nat option \<Rightarrow> nat \<Rightarrow> 'a noop_depth_scheme \<Rightarrow> (int \<times> 'a noop_depth_scheme) res" where
  "depth_set_request rmem rq q =
     bindE (upd_rq rq (\<lambda>r. r\<lparr>priv0 := rmem\<rparr>)
       (case rmem of None \<Rightarrow> q | Some a \<Rightarrow> q\<lparr>nrs := (nrs q)(a \<mapsto> None)\<rparr>)) (\<lambda>q. Inr (0, q))"

definition depth_add_request :: "nat \<Rightarrow> 'a noop_depth_scheme \<Rightarrow> 'a noop_depth_scheme res" where
  "depth_add_request rq q =
     bindE (deref (rqs q) rq) (\<lambda>r.
     bindE (deref_ptr (nrs q) (priv0 r)) (\<lambda>_.
       Inr (q\<lparr>nrs := (nrs q)(the (priv0 r) \<mapsto> Some rq), nr_size := nr_size q + 1,
              dq_queue := dq_queue q @ [the (priv0 r)]\<rparr>)))"

definition depth_dispatch :: "'a noop_depth_scheme \<Rightarrow> (int \<times> 'a noop_depth_scheme) res" where
  "depth_dispatch q =
     (if depth q > REQUEST_DEPTH then Inr (0, q)
      else
        let q = q\<lparr>timer_on := False, out_req := list_first (dq_queue q)\<rparr> in
        case out_req q of
          None \<Rightarrow> Inr (0, q)
        | Some nr \<Rightarrow>
            bindE (deref (nrs q) nr) (\<lambda>rqp.
            let q = q\<lparr>dq_queue := removeAll nr (dq_queue q)\<rparr> in
            case rqp of
              None \<Rightarrow> Inl NullDeref
            | Some rq \<Rightarrow> bindE (elv_dispatch_sort rq q) (\<lambda>q. Inr (1, q\<lparr>depth := depth q + 1\<rparr>))))"

definition depth_completed :: "'a noop_depth_scheme \<Rightarrow> 'a noop_depth_scheme" where
  "depth_completed q0 =
     (let q = q0\<lparr>depth := depth q0 - 1, nr_size := nr_size q0 - 1\<rparr> in
      if nr_size q > 0 then q\<lparr>timer_on := True, work_on := True\<rparr> else q)"

definition depth_put_request :: "nat \<Rightarrow> 'a noop_depth_scheme \<Rightarrow> 'a noop_depth_scheme res" where
  "depth_put_request rq q =
     bindE (deref (rqs q) rq) (\<lambda>r.
       case priv0 r of
         None \<Rightarrow> Inr q
       | Some a \<Rightarrow> bindE (deref (nrs q) a) (\<lambda>_. Inr (q\<lparr>nrs := (nrs q)(a := None)\<rparr>)))"

definition depth_exit_queue :: "'a noop_depth_scheme \<Rightarrow> 'a noop_depth_scheme res" where
  "depth_exit_queue q =
     bindE (guardE (dq_queue q = []) BugOn) (\<lambda>_. Inr (q\<lparr>timer_on := False, work_on := False\<rparr>))"


text \<open>Every waiting struct is live and stands for a live request.\<close>

definition depth_inv :: "'a noop_depth_scheme \<Rightarrow> bool" where
  "depth_inv q \<longleftrightarrow> distinct (dq_queue q) \<and> set (queue_head q) \<subseteq> dom (rqs q) \<and>
     (\<forall>a \<in> set (dq_queue q). \<exists>rq. nrs q a = Some (Some rq) \<and> rq \<in> dom (rqs q))"

definition waiting :: "'a noop_depth_scheme \<Rightarrow> nat list" where
  "waiting q = map (\<lambda>a. the (the (nrs q a))) (dq_queue q)"

lemma depth_dispatch_step:
  assumes inv: "depth_inv q" and ne: "dq_queue q = a # rest" and d: "depth q \<le> 1"
  shows "\<exists>q' rq. depth_dispatch q = Inr (1, q') \<and> depth_inv q' \<and> waiting q = rq # waiting q' \<and>
     dq_queue q' = rest \<and> queue_head q' = sorted_slot q rq \<and> depth q' = depth q + 1"
proof -
  from inv ne obtain rq where rq: "nrs q a = Some (Some rq)" "rq \<in> dom (rqs q)" by (auto simp: depth_inv_def)
  let ?q = "q\<lparr>timer_on := False, out_req := Some a, dq_queue := rest\<rparr>"
  have rest: "removeAll a (dq_queue q) = rest" using inv ne by (auto simp: depth_inv_def)
  obtain r where r: "rqs ?q rq = Some r" "set (queue_head ?q) \<subseteq> dom (rqs ?q)"
    using inv rq by (auto simp: depth_inv_def)
  from elv_dispatch_sort_ok [OF r] obtain m lm h where
    d1: "elv_dispatch_sort rq ?q = Inr (?q\<lparr>rqs := m, last_merge := lm, nr_sorted := nr_sorted ?q - 1,
          rqhash := h, queue_head := sorted_slot ?q rq\<rparr>)" and same: "same_requests (rqs ?q) m" by blast
  have slot: "sorted_slot ?q rq = sorted_slot q rq" by (simp add: sorted_slot_def)
  have set: "set (sorted_slot q rq) = insert rq (set (queue_head q))"
    using mset_sorted_slot by (metis set_mset_add_mset_insert set_mset_mset)
  let ?q' = "?q\<lparr>rqs := m, last_merge := lm, nr_sorted := nr_sorted ?q - 1,
          rqhash := h, queue_head := sorted_slot ?q rq, depth := depth q + 1\<rparr>"
  have "depth_dispatch q = Inr (1, ?q')"
    using ne d rq d1 rest by (simp add: depth_dispatch_def REQUEST_DEPTH_def Let_def)
  moreover have "depth_inv ?q'"
    using inv ne set slot same_requests_dom [OF same] rq(2) by (auto simp: depth_inv_def)
  ultimately show ?thesis using ne rq slot by (intro exI [of _ ?q'] exI [of _ rq]) (simp add: waiting_def)
qed

lemma depth_dispatch_none:
  "dq_queue q = [] \<or> 1 < depth q \<Longrightarrow> depth_inv q \<Longrightarrow>
   \<exists>q'. depth_dispatch q = Inr (0, q') \<and> depth_inv q' \<and> dq_queue q' = dq_queue q \<and> waiting q' = waiting q \<and>
     queue_head q' = queue_head q \<and> depth q' = depth q"
  by (cases "1 < depth q") (auto simp: depth_dispatch_def REQUEST_DEPTH_def Let_def depth_inv_def waiting_def)

interpretation noop_depth: elv_sched
  depth_inv "\<lambda>q. mset (waiting q)" "\<lambda>q. mset (queue_head q)" "\<lambda>q. Some (depth_dispatch q)"
proof (unfold_locales, goal_cases)
  case (1 q)
  show ?case
  proof (cases "dq_queue q = [] \<or> 1 < depth q")
    case True
    from depth_dispatch_none [OF this 1] show ?thesis by auto
  next
    case False
    then obtain a rest where "dq_queue q = a # rest" "depth q \<le> 1" by (cases "dq_queue q") auto
    from depth_dispatch_step [OF 1 this] show ?thesis by fastforce
  qed
qed

lemma depth_drains:
  assumes "depth_inv q" "k = min (length (dq_queue q)) (nat (2 - depth q))"
  shows "\<exists>q'. drain_loop (\<lambda>q. Some (depth_dispatch q)) q = Some (Inr q') \<and> depth_inv q' \<and>
     waiting q' = drop k (waiting q) \<and> depth q' = depth q + int k \<and>
     mset (queue_head q') = mset (take k (waiting q)) + mset (queue_head q)"
  using assms
proof (induction k arbitrary: q)
  case 0
  then have "dq_queue q = [] \<or> 1 < depth q" by (auto simp: min_def split: if_splits)
  from depth_dispatch_none [OF this 0(1)] show ?case by (subst drain_loop.simps) auto
next
  case (Suc k)
  then obtain a rest where n: "dq_queue q = a # rest" "depth q \<le> 1"
    by (cases "dq_queue q") (auto simp: min_def split: if_splits)
  from depth_dispatch_step [OF Suc.prems(1) n] obtain q1 rq where
    q1: "depth_dispatch q = Inr (1, q1)" "depth_inv q1" "waiting q = rq # waiting q1" "dq_queue q1 = rest"
      "queue_head q1 = sorted_slot q rq" "depth q1 = depth q + 1" by blast
  have "k = min (length (dq_queue q1)) (nat (2 - depth q1))"
    using Suc.prems(2) n q1(4,6) by simp
  from Suc.IH [OF q1(2) this] obtain q' where
    q': "drain_loop (\<lambda>q. Some (depth_dispatch q)) q1 = Some (Inr q')" "depth_inv q'"
      "waiting q' = drop k (waiting q1)" "depth q' = depth q1 + int k"
      "mset (queue_head q') = mset (take k (waiting q1)) + mset (queue_head q1)" by blast
  have "drain_loop (\<lambda>q. Some (depth_dispatch q)) q = Some (Inr q')"
    using q1(1) q'(1) by (subst drain_loop.simps) simp
  then show ?case using q' q1 by auto
qed

section \<open>Properties\<close>

definition kick_example :: noop_kick where
  "kick_example = \<lparr>
     rqs = (\<lambda>i. if i < 3 then Some (plain_request (10 * i)) else None),
     queue_head = [], last_merge = None, end_sector = 0, boundary_rq = None, nr_sorted = 2,
     in_flight = (\<lambda>_. 0), nr_pending = 0, rqhash = (\<lambda>_. []), nomerges = False, noxmerges = False,
     run_count = 0, nd_queue = [2, 1], unplug_pending = False, chara_locker = 0, sfqr_size = 3\<rparr>"

text \<open>The released no-op scheduler forgets nobody: as long as its counter is the number of waiting and
  outstanding requests, a dispatch takes the oldest request and leaves the restart scheduled, and a
  completion keeps the count and leaves the restart scheduled unless it was the last request.\<close>

theorem kick_keeps_running:
  assumes "kick_counts out q"
  shows "(\<forall>rq rest. nd_queue q = rq # rest \<longrightarrow>
            (\<exists>q'. kick_dispatch q = Inr (1, q') \<and> kick_counts (out + 1) q' \<and> nd_queue q' = rest \<and>
              queue_head q' = sorted_slot q rq \<and> unplug_pending q')) \<and>
     (0 < out \<longrightarrow> kick_counts (out - 1) (kick_completed q) \<and>
        (1 < out \<or> nd_queue q \<noteq> [] \<longrightarrow> unplug_pending (kick_completed q)))"
proof (intro conjI impI allI)
  fix rq rest assume "nd_queue q = rq # rest"
  from kick_dispatch_step [OF assms this]
  show "\<exists>q'. kick_dispatch q = Inr (1, q') \<and> kick_counts (out + 1) q' \<and> nd_queue q' = rest \<and>
      queue_head q' = sorted_slot q rq \<and> unplug_pending q'" .
next
  assume "0 < out"
  then have "kick_counts (Suc (out - 1)) q" using assms by simp
  note c = kick_completed_counts [OF this]
  from c show "kick_counts (out - 1) (kick_completed q)" by blast
  assume "1 < out \<or> nd_queue q \<noteq> []"
  then have "out - 1 > 0 \<or> nd_queue q \<noteq> []" by auto
  with c show "unplug_pending (kick_completed q)" by blast
qed

theorem kick_keeps_running_witness:
  "\<exists>q'. kick_dispatch kick_example = Inr (1, q') \<and> nd_queue q' = [1] \<and> unplug_pending q'"
proof -
  have "kick_counts 1 kick_example" "nd_queue kick_example = [2, 1]"
    by (auto simp: kick_counts_def noop_inv_def kick_example_def)
  with kick_keeps_running [OF this(1)] show ?thesis by auto
qed

definition depth_example :: noop_depth where
  "depth_example = \<lparr>
     rqs = (\<lambda>i. if i < 5 then Some ((plain_request (10 * i))\<lparr>priv0 := Some (100 + i)\<rparr>) else None),
     queue_head = [], last_merge = None, end_sector = 0, boundary_rq = None, nr_sorted = 4,
     in_flight = (\<lambda>_. 0), nr_pending = 0, rqhash = (\<lambda>_. []), nomerges = False, noxmerges = False,
     run_count = 0, dq_queue = [103, 101, 102, 104], out_req = None, depth = 0, nr_size = 4, timer_on = False,
     work_on = False, nrs = (\<lambda>a. if 100 \<le> a \<and> a < 105 then Some (Some (a - 100)) else None)\<rparr>"

text \<open>The depth limit of the congestion experiment holds even when the elevator drains it by force: the
  drain passes on the oldest requests in order, as many as bring the outstanding ones to two (one more than
  the limit named in the source), and leaves the others waiting.\<close>

theorem depth_drain_limited:
  assumes "depth_inv q" "k = min (length (dq_queue q)) (nat (2 - depth q))"
  shows "\<exists>c q'. elv_drain_elevator (\<lambda>q. Some (depth_dispatch q)) printed q = Some (Inr (c, q')) \<and>
     waiting q' = drop k (waiting q) \<and> depth q' = depth q + int k \<and>
     mset (queue_head q') = mset (take k (waiting q)) + mset (queue_head q)"
  using depth_drains [OF assms] by (auto simp: elv_drain_elevator_def)

theorem depth_drain_limited_witness:
  "\<exists>c q'. elv_drain_elevator (\<lambda>q. Some (depth_dispatch q)) 0 depth_example = Some (Inr (c, q')) \<and>
     waiting q' = [2, 4] \<and> mset (queue_head q') = {#3, 1#}"
proof -
  have "depth_inv depth_example" by (auto simp: depth_inv_def depth_example_def)
  from depth_drain_limited [OF this refl, of 0] show ?thesis
    by (auto simp: waiting_def depth_example_def)
qed

end
