(* ===== verification/Noop_Time.thy ===== *)
theory Noop_Time
  imports Noop
begin

text \<open>
  The arrival-time experiment (\<open>time_eval_experiment/arrive_time_calculator_2.c\<close>): a no-op
  scheduler that counts, second by second, the requests set up since the first one.
\<close>

section \<open>Model\<close>

record noop_time = noop_data +
  start_track_time :: int
  start_time :: int
  current_time :: int
  track_array :: "int list"

definition u32 :: "int \<Rightarrow> int" where "u32 t = t mod 2 ^ 32"

definition time_dispatch :: "'a noop_time_scheme \<Rightarrow> (int \<times> 'a noop_time_scheme) res" where
  "time_dispatch q =
     (case list_first (nd_queue q) of
        Some rq \<Rightarrow>
          bindE (elv_dispatch_sort rq (q\<lparr>nd_queue := removeAll rq (nd_queue q)\<rparr>)) (\<lambda>q'. Inr (1, q'))
      | None \<Rightarrow> Inr (0, q))"

definition time_add_request :: "nat \<Rightarrow> 'a noop_time_scheme \<Rightarrow> 'a noop_time_scheme" where
  "time_add_request rq q = q\<lparr>nd_queue := nd_queue q @ [rq]\<rparr>"

definition track :: "int \<Rightarrow> 'a noop_time_scheme \<Rightarrow> 'a noop_time_scheme res" where
  "track i q =
     (if 0 \<le> i \<and> i < int (length (track_array q))
      then Inr (q\<lparr>track_array := (track_array q)[nat i := s32 (track_array q ! nat i + 1)]\<rparr>)
      else Inl OutOfBounds)"

text \<open>\<open>now\<close> is the second \<open>do_gettimeofday\<close> reports.\<close>

definition time_set_request :: "int \<Rightarrow> 'a noop_time_scheme \<Rightarrow> (int \<times> 'a noop_time_scheme) res" where
  "time_set_request now q =
     bindE (if start_track_time q = 0
            then track 0 (q\<lparr>start_time := now, start_track_time := u32 now\<rparr>)
            else track (u32 now - start_track_time q) (q\<lparr>current_time := now\<rparr>)) (\<lambda>q. Inr (0, q))"

text \<open>The scheduler data is written to before the check that it was allocated.\<close>

definition time_init_queue ::
  "bool \<Rightarrow> bool \<Rightarrow> 'a noop_time_scheme \<Rightarrow> 'a noop_time_scheme init_result res" where
  "time_init_queue eq_ok nd_ok q =
     (if \<not> eq_ok then Inr \<lparr>ret = - ENOMEM, eq_released = False, result_queue = q\<rparr>
      else if \<not> nd_ok then Inl NullDeref
      else Inr \<lparr>ret = 0, eq_released = False, result_queue =
        q\<lparr>start_track_time := 0, track_array := replicate 61 0, nd_queue := []\<rparr>\<rparr>)"

text \<open>The lines it prints, then the check.\<close>

definition time_exit_queue :: "'a noop_time_scheme \<Rightarrow> (nat \<times> int) list res" where
  "time_exit_queue q =
     bindE (guardE (nd_queue q = []) BugOn) (\<lambda>_.
       Inr (map (\<lambda>i. (i + 1, track_array q ! i)) [0..<61]))"

lemma time_dispatch_eq: "time_dispatch q = noop_dispatch q"
  by (simp add: time_dispatch_def noop_dispatch_def)

interpretation time: work_conserving
  "noop_inv" "\<lambda>q. mset (nd_queue q)" "\<lambda>q. mset (queue_head q)" "\<lambda>q. Some (time_dispatch q)"
  unfolding time_dispatch_eq by (rule noop.work_conserving_axioms)

section \<open>The histogram\<close>

fun set_requests :: "int list \<Rightarrow> 'a noop_time_scheme \<Rightarrow> 'a noop_time_scheme res" where
  "set_requests [] q = Inr q"
| "set_requests (t # ts) q = bindE (time_set_request t q) (\<lambda>(_, q). set_requests ts q)"

definition histogram :: "int \<Rightarrow> int list \<Rightarrow> int list" where
  "histogram t0 ts = map (\<lambda>i. int (length (filter (\<lambda>t. t = t0 + int i) ts))) [0..<61]"

definition counted :: "int \<Rightarrow> int list \<Rightarrow> 'a noop_time_scheme \<Rightarrow> bool" where
  "counted t0 ts q \<longleftrightarrow> start_track_time q = t0 \<and> track_array q = histogram t0 ts"

lemma histogram_snoc:
  assumes "0 \<le> t - t0" "t - t0 < 61" "length ts < 2147483647"
  shows "(histogram t0 ts)[nat (t - t0) := s32 (histogram t0 ts ! nat (t - t0) + 1)] = histogram t0 (ts @ [t])"
proof (rule nth_equalityI)
  fix i assume "i < length ((histogram t0 ts)[nat (t - t0) := s32 (histogram t0 ts ! nat (t - t0) + 1)])"
  then have i: "i < 61" by (simp add: histogram_def)
  have s: "s32 (int (length (filter (\<lambda>t. t = t0 + int i) ts)) + 1) = int (length (filter (\<lambda>t. t = t0 + int i) ts)) + 1"
    using assms(3) by (intro s32_id) (auto intro: le_less_trans [OF length_filter_le])
  show "(histogram t0 ts)[nat (t - t0) := s32 (histogram t0 ts ! nat (t - t0) + 1)] ! i = histogram t0 (ts @ [t]) ! i"
    using i assms s by (cases "i = nat (t - t0)") (auto simp: histogram_def)
qed (simp add: histogram_def)

lemma counted_step:
  assumes c: "counted t0 ts q" and t: "0 < t0" "t0 \<le> t" "t \<le> t0 + 60" "t < 2 ^ 32" "length ts < 2147483647"
  shows "\<exists>q'. time_set_request t q = Inr (0, q') \<and> counted t0 (ts @ [t]) q'"
proof -
  have "u32 t = t" using t by (simp add: u32_def)
  moreover have "length (histogram t0 ts) = 61" by (simp add: histogram_def)
  ultimately show ?thesis
    using c t histogram_snoc [of t t0 ts] by (auto simp: counted_def time_set_request_def track_def)
qed

lemma counted_run:
  "counted t0 done q \<Longrightarrow> 0 < t0 \<Longrightarrow> \<forall>t \<in> set ts. t0 \<le> t \<and> t \<le> t0 + 60 \<and> t < 2 ^ 32 \<Longrightarrow>
   length done + length ts < 2147483648 \<Longrightarrow> \<exists>q'. set_requests ts q = Inr q' \<and> counted t0 (done @ ts) q'"
proof (induction ts arbitrary: q "done")
  case Nil
  then show ?case by simp
next
  case (Cons t ts)
  then have "t0 \<le> t" "t \<le> t0 + 60" "t < 2 ^ 32" "length done < 2147483647" by auto
  from counted_step [OF Cons.prems(1,2) this] obtain q1 where
    q1: "time_set_request t q = Inr (0, q1)" "counted t0 (done @ [t]) q1" by blast
  from Cons.IH [OF q1(2) Cons.prems(2)] Cons.prems(3,4) q1(1) show ?case by auto
qed

section \<open>Properties\<close>

text \<open>The experiment's counters: from the set-up on, if all requests come within 61 seconds of the first
  (counted in whole seconds, and fewer than 2147483648 of them), slot \<open>i\<close> of the array ends as the
  number of requests set up in the \<open>i\<close>-th second; a request after that is counted outside the array.\<close>

theorem time_histogram:
  assumes "time_init_queue True True q0 = Inr i" "0 < t0" "t0 < 2 ^ 32"
    and "\<forall>t \<in> set ts. t0 \<le> t \<and> t \<le> t0 + 60 \<and> t < 2 ^ 32" "length ts < 2147483647"
  shows "\<exists>q. set_requests (t0 # ts) (result_queue i) = Inr q \<and> track_array q = histogram t0 (t0 # ts) \<and>
     (\<forall>t. t0 + 60 < t \<longrightarrow> t < 2 ^ 32 \<longrightarrow> time_set_request t q = Inl OutOfBounds)"
proof -
  have u: "u32 t0 = t0" using assms(2,3) by (simp add: u32_def)
  have z: "histogram t0 [] = replicate 61 0" by (simp add: histogram_def map_replicate_const)
  have i: "track_array (result_queue i) = histogram t0 []" "start_track_time (result_queue i) = 0"
    using assms(1) by (auto simp: time_init_queue_def z)
  have "time_set_request t0 (result_queue i) =
      time_set_request t0 ((result_queue i)\<lparr>start_track_time := 0\<rparr>)" using i(2) by (cases "result_queue i") simp
  have "\<exists>q1. time_set_request t0 (result_queue i) = Inr (0, q1) \<and> counted t0 [t0] q1"
    using i u histogram_snoc [of t0 t0 "[]"] by (auto simp: time_set_request_def track_def counted_def histogram_def)
  then obtain q1 where q1: "time_set_request t0 (result_queue i) = Inr (0, q1)" "counted t0 [t0] q1" by blast
  from counted_run [OF q1(2) assms(2,4)] assms(5) obtain q where
    q: "set_requests ts q1 = Inr q" "counted t0 (t0 # ts) q" by auto
  have "time_set_request t q = Inl OutOfBounds" if "t0 + 60 < t" "t < 2 ^ 32" for t
    using q(2) that assms(2) by (auto simp: time_set_request_def track_def counted_def u32_def histogram_def)
  with q q1(1) show ?thesis by (auto simp: counted_def)
qed

definition time_example :: noop_time where
  "time_example = \<lparr>
     rqs = (\<lambda>_. None), queue_head = [], last_merge = None, end_sector = 0, boundary_rq = None, nr_sorted = 0,
     in_flight = (\<lambda>_. 0), nr_pending = 0, rqhash = (\<lambda>_. []), nomerges = False, noxmerges = False,
     run_count = 0, nd_queue = [], start_track_time = 9, start_time = 0, current_time = 0, track_array = []\<rparr>"

theorem time_histogram_witness:
  "\<exists>i q. time_init_queue True True time_example = Inr i \<and>
     set_requests [1500000000, 1500000001, 1500000001] (result_queue i) = Inr q \<and>
     track_array q ! 0 = 1 \<and> track_array q ! 1 = 2 \<and> time_set_request 1500000061 q = Inl OutOfBounds"
proof -
  obtain i where i: "time_init_queue True True time_example = Inr i" by (simp add: time_init_queue_def)
  have "\<forall>t \<in> set [1500000001, 1500000001]. (1500000000 :: int) \<le> t \<and> t \<le> 1500000000 + 60 \<and> t < 2 ^ 32" by simp
  from time_histogram [OF i _ _ this] obtain q where
    "set_requests [1500000000, 1500000001, 1500000001] (result_queue i) = Inr q"
    "track_array q = histogram 1500000000 [1500000000, 1500000001, 1500000001]"
    "time_set_request 1500000061 q = Inl OutOfBounds" by auto
  with i show ?thesis by (intro exI [of _ i] exI [of _ q]) (simp add: histogram_def)
qed

end
