(* ===== verification/ElvRegistry.thy ===== *)
theory ElvRegistry
  imports Noop
begin

text \<open>
  The other half of \<open>elevator.c\<close>: the registry of scheduler types with their module
  reference counts, attaching a scheduler to a queue, switching it at run time with the way
  back when the new one fails, and the \<open>/sys\<close> interface that selects and lists schedulers.
\<close>

section \<open>State\<close>

text \<open>
  \<open>'d\<close> is what the schedulers keep behind \<open>elevator_data\<close>.  \<open>init_data\<close> is what the \<open>init\<close>
  function of the type sets up there; the exit function may fault (that of the no-op scheduler has
  a \<open>BUG_ON\<close>), and the registered function sees whether the disk is rotational.
\<close>

record 'd elevator_type =
  elevator_name :: string
  icq_size :: nat
  icq_align :: nat
  icq_cache :: bool
  elevator_attrs :: "string list"
  init_data :: 'd
  elevator_exit_fn :: "('d \<Rightarrow> unit res) option"
  elevator_registered_fn :: "(bool \<Rightarrow> 'd \<Rightarrow> 'd) option"

text \<open>
  \<open>module_refs\<close> counts the references to a scheduler's module; \<open>module_live\<close> says whether
  \<open>try_module_get\<close> can still succeed.
\<close>

record 'd elv_registry =
  elv_list :: "'d elevator_type list"
  module_refs :: "string \<Rightarrow> int"
  module_live :: "string \<Rightarrow> bool"
  chosen_elevator :: string

record 'd elevator_queue =
  eq_type :: "'d elevator_type"
  registered :: bool
  elevator_data :: 'd

record 'd elv_queue = request_queue +
  elevator :: "'d elevator_queue option"
  bypass_depth :: nat
  sysfs_files :: "string list"
  stackable :: bool
  nonrot_disk :: bool
  icq_list :: "nat list"

text \<open>
  The functions of the block layer around a switch: \<open>blk_queue_bypass_start\<close> drains the queue and
  enters bypass mode, \<open>ioc_clear_queue\<close> destroys the io contexts' data of the queue.
\<close>

record 'q bypass_layer =
  blk_queue_bypass_start :: "'q \<Rightarrow> 'q res"
  ioc_clear_queue :: "'q \<Rightarrow> 'q res"
  blk_queue_bypass_end :: "'q \<Rightarrow> 'q"

definition ELV_NAME_MAX :: nat where "ELV_NAME_MAX = 16"

definition EINVAL :: int where "EINVAL = 22"
definition ENXIO :: int where "ENXIO = 6"
definition EBUSY :: int where "EBUSY = 16"
definition EIO :: int where "EIO = 5"
definition ENOENT :: int where "ENOENT = 2"

section \<open>The registry\<close>

definition elevator_find :: "string \<Rightarrow> 'd elv_registry \<Rightarrow> 'd elevator_type option" where
  "elevator_find name reg = find (\<lambda>e. elevator_name e = name) (elv_list reg)"

definition elevator_put :: "'d elevator_type \<Rightarrow> 'd elv_registry \<Rightarrow> 'd elv_registry" where
  "elevator_put e reg =
     reg\<lparr>module_refs := (module_refs reg)(elevator_name e := module_refs reg (elevator_name e) - 1)\<rparr>"

text \<open>\<open>load\<close> is \<open>request_module\<close>, which may register further types.\<close>

definition elevator_get ::
  "(string \<Rightarrow> 'd elv_registry \<Rightarrow> 'd elv_registry) \<Rightarrow> string \<Rightarrow> bool \<Rightarrow> 'd elv_registry \<Rightarrow>
   'd elevator_type option \<times> 'd elv_registry" where
  "elevator_get load name try_loading reg0 =
     (let (e, reg) =
        (case elevator_find name reg0 of
           Some e \<Rightarrow> (Some e, reg0)
         | None \<Rightarrow>
             if try_loading then (elevator_find name (load name reg0), load name reg0) else (None, reg0)) in
      case e of
        None \<Rightarrow> (None, reg)
      | Some t \<Rightarrow>
          if module_live reg (elevator_name t)
          then (Some t, reg\<lparr>module_refs :=
                  (module_refs reg)(elevator_name t := module_refs reg (elevator_name t) + 1)\<rparr>)
          else (None, reg))"

definition elevator_setup :: "string \<Rightarrow> 'd elv_registry \<Rightarrow> 'd elv_registry" where
  "elevator_setup str reg = reg\<lparr>chosen_elevator := take (ELV_NAME_MAX - 1) str\<rparr>"

definition load_default_elevator_module ::
  "(string \<Rightarrow> 'd elv_registry \<Rightarrow> 'd elv_registry) \<Rightarrow> 'd elv_registry \<Rightarrow> 'd elv_registry" where
  "load_default_elevator_module load reg =
     (if chosen_elevator reg = [] then reg
      else if elevator_find (chosen_elevator reg) reg = None then load (chosen_elevator reg) reg
      else reg)"

text \<open>The outcomes: \<open>cq_size\<close> and \<open>cq_align\<close> describe \<open>struct io_cq\<close>, \<open>cache_ok\<close> the slab cache.\<close>

definition elv_register ::
  "nat \<Rightarrow> nat \<Rightarrow> bool \<Rightarrow> 'd elevator_type \<Rightarrow> 'd elv_registry \<Rightarrow> int \<times> 'd elv_registry" where
  "elv_register cq_size cq_align cache_ok e reg =
     (if icq_size e \<noteq> 0 \<and> (icq_size e < cq_size \<or> icq_align e < cq_align) then (- EINVAL, reg)
      else if icq_size e \<noteq> 0 \<and> \<not> cache_ok then (- ENOMEM, reg)
      else
        (let e' = (if icq_size e \<noteq> 0 then e\<lparr>icq_cache := True\<rparr> else e) in
         if elevator_find (elevator_name e) reg \<noteq> None then (- EBUSY, reg)
         else (0, reg\<lparr>elv_list := elv_list reg @ [e']\<rparr>)))"

definition elv_unregister :: "'d elevator_type \<Rightarrow> 'd elv_registry \<Rightarrow> 'd elevator_type \<times> 'd elv_registry" where
  "elv_unregister e reg =
     (e\<lparr>icq_cache := False\<rparr>,
      reg\<lparr>elv_list := filter (\<lambda>t. elevator_name t \<noteq> elevator_name e) (elv_list reg)\<rparr>)"

section \<open>Attaching a scheduler\<close>

definition elevator_alloc :: "bool \<Rightarrow> 'd elevator_type \<Rightarrow> 'd elevator_queue option" where
  "elevator_alloc ok e = (if ok then Some \<lparr>eq_type = e, registered = False, elevator_data = init_data e\<rparr> else None)"

definition elevator_release :: "'d elevator_queue \<Rightarrow> 'd elv_registry \<Rightarrow> 'd elv_registry" where
  "elevator_release eq reg = elevator_put (eq_type eq) reg"

text \<open>
  What the \<open>init\<close> functions of the no-op and the SFQ schedulers do to the elevator object and the
  queue; \<open>eq_ok\<close> and \<open>data_ok\<close> are the outcomes of their two allocations.
\<close>

type_synonym ('d, 'q) init_fn =
  "'d elevator_type \<Rightarrow> 'd elv_registry \<Rightarrow> 'q \<Rightarrow> int \<times> 'd elv_registry \<times> 'q"

definition run_init :: "bool \<Rightarrow> bool \<Rightarrow> ('d, ('d, 'a) elv_queue_scheme) init_fn" where
  "run_init eq_ok data_ok e reg q =
     (case elevator_alloc eq_ok e of
        None \<Rightarrow> (- ENOMEM, reg, q)
      | Some eq \<Rightarrow>
          if \<not> data_ok then (- ENOMEM, elevator_release eq reg, q)
          else (0, reg, q\<lparr>elevator := Some eq\<rparr>))"

text \<open>
  CFQ makes the queue point to the elevator object before it activates its cgroup policy, which
  returns \<open>policy_err\<close>; when that fails it releases the object and leaves the pointer.
\<close>

definition cfq_run_init :: "bool \<Rightarrow> bool \<Rightarrow> int \<Rightarrow> ('d, ('d, 'a) elv_queue_scheme) init_fn" where
  "cfq_run_init eq_ok data_ok policy_err e reg q =
     (case elevator_alloc eq_ok e of
        None \<Rightarrow> (- ENOMEM, reg, q)
      | Some eq \<Rightarrow>
          if \<not> data_ok then (- ENOMEM, elevator_release eq reg, q)
          else
            let q = q\<lparr>elevator := Some eq\<rparr> in
            if policy_err \<noteq> 0 then (policy_err, elevator_release eq reg, q)
            else (0, reg, q))"

definition elevator_init ::
  "(string \<Rightarrow> 'd elv_registry \<Rightarrow> 'd elv_registry) \<Rightarrow> string \<Rightarrow> ('d, ('d, 'a) elv_queue_scheme) init_fn \<Rightarrow>
   string option \<Rightarrow> 'd elv_registry \<Rightarrow> ('d, 'a) elv_queue_scheme \<Rightarrow> (int \<times> 'd elv_registry \<times> ('d, 'a) elv_queue_scheme) res" where
  "elevator_init load config_default init name reg q0 =
     (if elevator q0 \<noteq> None then Inr (0, reg, q0)
      else
        (let q = q0\<lparr>queue_head := [], last_merge := None, end_sector := 0, boundary_rq := None\<rparr>;
             (e, reg) = (case name of
                           None \<Rightarrow> (None, reg)
                         | Some n \<Rightarrow> elevator_get load n True reg) in
         if name \<noteq> None \<and> e = None then Inr (- EINVAL, reg, q)
         else
           (let (e, reg) = (if e = None \<and> chosen_elevator reg \<noteq> []
                            then elevator_get load (chosen_elevator reg) False reg else (e, reg));
                (e, reg) = (if e = None then elevator_get load config_default False reg else (e, reg));
                (e, reg) = (if e = None then elevator_get load ''noop'' False reg else (e, reg)) in
            case e of
              None \<Rightarrow> Inl NullDeref
            | Some t \<Rightarrow>
                (let (err, reg, q) = init t reg q in
                 if err \<noteq> 0 then Inr (err, elevator_put t reg, q) else Inr (err, reg, q)))))"

definition elevator_exit :: "'d elevator_queue \<Rightarrow> 'd elv_registry \<Rightarrow> 'd elv_registry res" where
  "elevator_exit eq reg =
     bindE (case elevator_exit_fn (eq_type eq) of None \<Rightarrow> Inr () | Some f \<Rightarrow> f (elevator_data eq)) (\<lambda>_.
       Inr (elevator_release eq reg))"

text \<open>\<open>registered_data\<close> is what the registered function, if there is one, makes of the data.\<close>

definition registered_data :: "'d elevator_type \<Rightarrow> bool \<Rightarrow> 'd \<Rightarrow> 'd" where
  "registered_data t nonrot d =
     (case elevator_registered_fn t of None \<Rightarrow> d | Some f \<Rightarrow> f nonrot d)"

text \<open>\<open>kadd\<close> is what \<open>kobject_add\<close> returns, \<open>file_ok\<close> which attribute files can be created.\<close>

definition elv_register_queue ::
  "int \<Rightarrow> (string \<Rightarrow> bool) \<Rightarrow> ('d, 'a) elv_queue_scheme \<Rightarrow> (int \<times> ('d, 'a) elv_queue_scheme) res" where
  "elv_register_queue kadd file_ok q =
     (case elevator q of
        None \<Rightarrow> Inl NullDeref
      | Some eq \<Rightarrow>
          Inr (kadd,
            if kadd = 0
            then q\<lparr>sysfs_files := takeWhile file_ok (elevator_attrs (eq_type eq)),
                   elevator := Some (eq\<lparr>registered := True,
                     elevator_data := registered_data (eq_type eq) (nonrot_disk q) (elevator_data eq)\<rparr>)\<rparr>
            else q))"

definition elv_unregister_queue :: "('d, 'a) elv_queue_scheme \<Rightarrow> ('d, 'a) elv_queue_scheme res" where
  "elv_unregister_queue q =
     (case elevator q of
        None \<Rightarrow> Inl NullDeref
      | Some eq \<Rightarrow> Inr (q\<lparr>sysfs_files := [], elevator := Some (eq\<lparr>registered := False\<rparr>)\<rparr>))"

section \<open>Switching\<close>

text \<open>The common tail of the two failure labels; the return code of the registration is dropped.\<close>

definition fail_init ::
  "('d, 'a) elv_queue_scheme bypass_layer \<Rightarrow> int \<Rightarrow> int \<Rightarrow> (string \<Rightarrow> bool) \<Rightarrow> 'd elevator_queue \<Rightarrow>
   'd elv_registry \<Rightarrow> ('d, 'a) elv_queue_scheme \<Rightarrow>
   (int \<times> 'd elv_registry \<times> ('d, 'a) elv_queue_scheme) res" where
  "fail_init B err kadd file_ok old reg q =
     bindE (elv_register_queue kadd file_ok (q\<lparr>elevator := Some old\<rparr>)) (\<lambda>(_, q).
       Inr (err, reg, blk_queue_bypass_end B q))"

text \<open>
  \<open>kadd\<close> and \<open>kadd_back\<close> are the results of registering the new scheduler's and, after a
  failure, the old one's kernel object.  \<open>old\<close> is a pointer: the object it points to is read again
  from the queue after the draining and the clearing, which may change its data.
\<close>

definition elevator_switch ::
  "('d, 'a) elv_queue_scheme bypass_layer \<Rightarrow> ('d, ('d, 'a) elv_queue_scheme) init_fn \<Rightarrow> int \<Rightarrow> int \<Rightarrow>
   (string \<Rightarrow> bool) \<Rightarrow> 'd elevator_type \<Rightarrow> 'd elv_registry \<Rightarrow>
   ('d, 'a) elv_queue_scheme \<Rightarrow> (int \<times> 'd elv_registry \<times> ('d, 'a) elv_queue_scheme) res" where
  "elevator_switch B init kadd kadd_back file_ok new_e reg q =
     (case elevator q of
        None \<Rightarrow> Inl NullDeref
      | Some old0 \<Rightarrow>
          bindE (blk_queue_bypass_start B q) (\<lambda>q.
          bindE (if registered old0 then elv_unregister_queue q else Inr q) (\<lambda>q.
          bindE (ioc_clear_queue B q) (\<lambda>q.
          case elevator q of
            None \<Rightarrow> Inl NullDeref
          | Some old \<Rightarrow>
              let (err, reg, q) = init new_e reg q in
              if err \<noteq> 0 then fail_init B err kadd_back file_ok old reg q
              else
                bindE (if registered old0 then elv_register_queue kadd file_ok q else Inr (0, q)) (\<lambda>(err, q).
                  if err \<noteq> 0 then
                    (case elevator q of
                       None \<Rightarrow> Inl NullDeref
                     | Some new \<Rightarrow>
                         bindE (elevator_exit new reg) (\<lambda>reg. fail_init B err kadd_back file_ok old reg q))
                  else
                    bindE (elevator_exit old reg) (\<lambda>reg. Inr (0, reg, blk_queue_bypass_end B q)))))))"

definition isspace :: "char \<Rightarrow> bool" where
  "isspace c \<longleftrightarrow> of_char c \<in> {32 :: nat, 9, 10, 11, 12, 13, 160}"

definition rstrip :: "string \<Rightarrow> string" where
  "rstrip s = rev (dropWhile isspace (rev s))"

definition skip_spaces :: "string \<Rightarrow> string" where
  "skip_spaces s = dropWhile isspace s"

text \<open>\<open>strstrip\<close> cuts the trailing blanks off the buffer and returns a pointer behind the leading ones.\<close>

definition elevator_change' ::
  "(string \<Rightarrow> 'd elv_registry \<Rightarrow> 'd elv_registry) \<Rightarrow> ('d, 'a) elv_queue_scheme bypass_layer \<Rightarrow>
   ('d, ('d, 'a) elv_queue_scheme) init_fn \<Rightarrow> int \<Rightarrow> int \<Rightarrow> (string \<Rightarrow> bool) \<Rightarrow> string \<Rightarrow>
   'd elv_registry \<Rightarrow> ('d, 'a) elv_queue_scheme \<Rightarrow> (int \<times> 'd elv_registry \<times> ('d, 'a) elv_queue_scheme) res" where
  "elevator_change' load B init kadd kadd_back file_ok name reg q =
     (case elevator q of
        None \<Rightarrow> Inr (- ENXIO, reg, q)
      | Some cur \<Rightarrow>
          let buf = rstrip (take (ELV_NAME_MAX - 1) name);
              (e, reg) = elevator_get load (skip_spaces buf) True reg in
          (case e of
             None \<Rightarrow> Inr (- EINVAL, reg, q)
           | Some t \<Rightarrow>
               if buf = elevator_name (eq_type cur) then Inr (0, elevator_put t reg, q)
               else elevator_switch B init kadd kadd_back file_ok t reg q))"

definition elv_iosched_store ::
  "(string \<Rightarrow> 'd elv_registry \<Rightarrow> 'd elv_registry) \<Rightarrow> ('d, 'a) elv_queue_scheme bypass_layer \<Rightarrow>
   ('d, ('d, 'a) elv_queue_scheme) init_fn \<Rightarrow> int \<Rightarrow> int \<Rightarrow> (string \<Rightarrow> bool) \<Rightarrow> string \<Rightarrow>
   int \<Rightarrow> 'd elv_registry \<Rightarrow> ('d, 'a) elv_queue_scheme \<Rightarrow> (int \<times> 'd elv_registry \<times> ('d, 'a) elv_queue_scheme) res" where
  "elv_iosched_store load B init kadd kadd_back file_ok name cnt reg q =
     (if elevator q = None then Inr (cnt, reg, q)
      else
        bindE (elevator_change' load B init kadd kadd_back file_ok name reg q) (\<lambda>(ret, reg, q).
          Inr (if ret = 0 then cnt else ret, reg, q)))"

text \<open>The page written, whose length is the return value.\<close>

fun show_entries :: "string \<Rightarrow> 'd elevator_type list \<Rightarrow> string" where
  "show_entries cur [] = []"
| "show_entries cur (e # es) =
     (if cur = elevator_name e then ''['' @ cur @ ''] '' else elevator_name e @ '' '') @ show_entries cur es"

definition elv_iosched_show :: "'d elv_registry \<Rightarrow> ('d, 'a) elv_queue_scheme \<Rightarrow> string" where
  "elv_iosched_show reg q =
     (case elevator q of
        None \<Rightarrow> ''none'' @ [CHR 0x0A]
      | Some eq \<Rightarrow>
          if \<not> stackable q then ''none'' @ [CHR 0x0A]
          else show_entries (elevator_name (eq_type eq)) (elv_list reg) @ [CHR 0x0A])"

text \<open>The attribute files: \<open>show\<close> and \<open>store\<close> are the entry's functions, \<open>has_type\<close> is \<open>e->type\<close>.\<close>

definition elv_attr_show :: "(string \<Rightarrow> int) option \<Rightarrow> bool \<Rightarrow> string \<Rightarrow> int" where
  "elv_attr_show shw has_type page =
     (case shw of None \<Rightarrow> - EIO | Some f \<Rightarrow> if has_type then f page else - ENOENT)"

definition elv_attr_store :: "(string \<Rightarrow> nat \<Rightarrow> int) option \<Rightarrow> bool \<Rightarrow> string \<Rightarrow> nat \<Rightarrow> int" where
  "elv_attr_store store has_type page len =
     (case store of None \<Rightarrow> - EIO | Some f \<Rightarrow> if has_type then f page len else - ENOENT)"

end
