(* ===== verification/ElvRegistry_Correct.thy ===== *)
theory ElvRegistry_Correct
  imports ElvRegistry
begin

text \<open>
  Correctness of the registry and of switching: unique names, reference counts on every
  path, the return to the old scheduler, and the listing in \<open>/sys\<close> as a readable format.
\<close>

section \<open>The registry\<close>

definition reg_wf :: "'d elv_registry \<Rightarrow> bool" where
  "reg_wf reg \<longleftrightarrow> distinct (map elevator_name (elv_list reg))"

lemma elevator_find_None: "elevator_find n reg = None \<longleftrightarrow> n \<notin> elevator_name ` set (elv_list reg)"
  by (auto simp: elevator_find_def find_None_iff)

lemma find_append: "find P (xs @ ys) = (case find P xs of Some x \<Rightarrow> Some x | None \<Rightarrow> find P ys)"
  by (induction xs) auto

lemma elevator_find_append:
  "elevator_find n (reg\<lparr>elv_list := elv_list reg @ [e]\<rparr>) =
   (case elevator_find n reg of Some x \<Rightarrow> Some x | None \<Rightarrow> if elevator_name e = n then Some e else None)"
  by (simp add: elevator_find_def find_append split: option.split)

section \<open>Reading the listing\<close>

text \<open>Words ended by a blank; a word in brackets is the current scheduler.\<close>

fun words_of :: "string \<Rightarrow> string \<Rightarrow> string list" where
  "words_of acc [] = []"
| "words_of acc (c # s) =
     (if c = CHR '' '' then rev acc # words_of [] s else words_of (c # acc) s)"

definition read_word :: "string \<Rightarrow> string \<times> bool" where
  "read_word w = (if w \<noteq> [] \<and> hd w = CHR ''['' then (butlast (tl w), True) else (w, False))"

definition read_listing :: "string \<Rightarrow> (string \<times> bool) list" where
  "read_listing s = map read_word (words_of [] s)"

definition plain_name :: "string \<Rightarrow> bool" where
  "plain_name n \<longleftrightarrow> CHR '' '' \<notin> set n \<and> CHR ''['' \<notin> set n"

lemma words_of_word:
  "CHR '' '' \<notin> set w \<Longrightarrow> words_of acc (w @ CHR '' '' # s) = (rev acc @ w) # words_of [] s"
  by (induction w arbitrary: acc) auto

lemma words_of_tail: "CHR '' '' \<notin> set w \<Longrightarrow> words_of acc w = []"
  by (induction w arbitrary: acc) auto

lemma read_word_plain: "plain_name n \<Longrightarrow> read_word n = (n, False)"
  by (cases n) (auto simp: read_word_def plain_name_def)

lemma read_word_current: "read_word (CHR ''['' # n @ [CHR '']'']) = (n, True)"
  by (simp add: read_word_def)

lemma read_show_entries:
  "\<forall>e \<in> set es. plain_name (elevator_name e) \<Longrightarrow>
   read_listing (show_entries cur es @ [CHR 0x0A]) = map (\<lambda>e. (elevator_name e, cur = elevator_name e)) es"
proof (induction es)
  case Nil
  have "words_of [] [CHR 0x0A] = []" by (intro words_of_tail) simp
  then show ?case by (simp add: read_listing_def)
next
  case (Cons e es)
  then have n: "CHR '' '' \<notin> set (elevator_name e)" "plain_name (elevator_name e)" by (auto simp: plain_name_def)
  let ?rest = "show_entries cur es @ [CHR 0x0A]"
  show ?case
  proof (cases "cur = elevator_name e")
    case True
    have w: "CHR '' '' \<notin> set (CHR ''['' # cur @ [CHR '']''])" using n(1) True by auto
    have "words_of [] (show_entries cur (e # es) @ [CHR 0x0A]) = (CHR ''['' # cur @ [CHR '']'']) # words_of [] ?rest"
      using words_of_word [OF w, of "[]" ?rest] True by simp
    then show ?thesis using Cons True by (simp add: read_listing_def read_word_current)
  next
    case False
    have "words_of [] (show_entries cur (e # es) @ [CHR 0x0A]) = elevator_name e # words_of [] ?rest"
      using words_of_word [OF n(1), of "[]" ?rest] False by simp
    then show ?thesis using Cons False by (simp add: read_listing_def read_word_plain [OF n(2)])
  qed
qed

section \<open>Properties\<close>

text \<open>
  The examples use the no-op scheduler, whose data is its FIFO and whose exit function has a
  \<open>BUG_ON\<close> for a FIFO that is not empty.  For them draining moves the FIFO to the dispatch list.
\<close>

definition noop_exit :: "nat list \<Rightarrow> unit res" where
  "noop_exit fifo = noop_exit_queue (noop_example\<lparr>nd_queue := fifo\<rparr>)"

definition sched_type :: "string \<Rightarrow> nat list elevator_type" where
  "sched_type n = \<lparr>elevator_name = n, icq_size = 0, icq_align = 0, icq_cache = False, elevator_attrs = [],
     init_data = [], elevator_exit_fn = Some noop_exit, elevator_registered_fn = None\<rparr>"

definition registry_example :: "nat list elv_registry" where
  "registry_example = \<lparr>elv_list = [sched_type ''noop'', sched_type ''sfq''], module_refs = (\<lambda>_. 1),
     module_live = (\<lambda>_. True), chosen_elevator = []\<rparr>"

definition queue_example :: "nat list elevator_queue option \<Rightarrow> nat list elv_queue" where
  "queue_example eq = \<lparr>rqs = Map.empty, queue_head = [], last_merge = None, end_sector = 0,
     boundary_rq = None, nr_sorted = 0, in_flight = (\<lambda>_. 0), nr_pending = 0, rqhash = (\<lambda>_. []),
     nomerges = False, noxmerges = False, run_count = 0, elevator = eq, bypass_depth = 0, sysfs_files = [],
     stackable = True, nonrot_disk = False, icq_list = [3]\<rparr>"

definition noop_eq :: "nat list \<Rightarrow> nat list elevator_queue" where
  "noop_eq fifo = \<lparr>eq_type = sched_type ''noop'', registered = True, elevator_data = fifo\<rparr>"

definition bypass_example :: "(nat list, 'a) elv_queue_scheme bypass_layer" where
  "bypass_example = \<lparr>
     blk_queue_bypass_start = (\<lambda>q. case elevator q of
         None \<Rightarrow> Inr (q\<lparr>bypass_depth := bypass_depth q + 1\<rparr>)
       | Some e \<Rightarrow> Inr (q\<lparr>bypass_depth := bypass_depth q + 1,
                    queue_head := queue_head q @ elevator_data e,
                    elevator := Some (e\<lparr>elevator_data := []\<rparr>)\<rparr>)),
     ioc_clear_queue = (\<lambda>q. Inr (q\<lparr>icq_list := []\<rparr>)),
     blk_queue_bypass_end = (\<lambda>q. q\<lparr>bypass_depth := bypass_depth q - 1\<rparr>)\<rparr>"

text \<open>Registering a scheduler type keeps the names in the registry unique: it succeeds exactly when
  its icq description and cache are fine and the name is new, then a lookup of that name finds it
  and every other lookup is unchanged; on every error the registry is unchanged.\<close>

theorem elv_register_correct:
  assumes "reg_wf reg"
  shows "case elv_register cq_size cq_align cache_ok e reg of (err, reg') \<Rightarrow>
     reg_wf reg' \<and>
     (err = 0 \<longleftrightarrow> (icq_size e \<noteq> 0 \<longrightarrow> cq_size \<le> icq_size e \<and> cq_align \<le> icq_align e \<and> cache_ok) \<and>
        elevator_find (elevator_name e) reg = None) \<and>
     (err = 0 \<longrightarrow> map_option elevator_name (elevator_find (elevator_name e) reg') = Some (elevator_name e) \<and>
        (\<forall>n. n \<noteq> elevator_name e \<longrightarrow> elevator_find n reg' = elevator_find n reg)) \<and>
     (err \<noteq> 0 \<longrightarrow> reg' = reg)"
proof (cases "icq_size e \<noteq> 0 \<and> (icq_size e < cq_size \<or> icq_align e < cq_align \<or> \<not> cache_ok)")
  case True
  then have "\<exists>err. elv_register cq_size cq_align cache_ok e reg = (err, reg) \<and> err \<noteq> 0"
    by (auto simp: elv_register_def ENOMEM_def EINVAL_def)
  with True assms show ?thesis by (auto simp: not_le)
next
  case fine: False
  show ?thesis
  proof (cases "elevator_find (elevator_name e) reg")
    case (Some t)
    with fine have "elv_register cq_size cq_align cache_ok e reg = (- EBUSY, reg)"
      by (auto simp: elv_register_def Let_def)
    with Some assms show ?thesis by (simp add: EBUSY_def)
  next
    case None
    let ?e = "if icq_size e \<noteq> 0 then e\<lparr>icq_cache := True\<rparr> else e"
    have reg': "elv_register cq_size cq_align cache_ok e reg = (0, reg\<lparr>elv_list := elv_list reg @ [?e]\<rparr>)"
      using fine None by (auto simp: elv_register_def Let_def)
    have "reg_wf (reg\<lparr>elv_list := elv_list reg @ [?e]\<rparr>)"
      using assms None by (auto simp: reg_wf_def elevator_find_None)
    moreover have "map_option elevator_name (elevator_find (elevator_name e) (reg\<lparr>elv_list := elv_list reg @ [?e]\<rparr>)) =
        Some (elevator_name e)"
      using None by (simp add: elevator_find_append)
    moreover have "elevator_find n (reg\<lparr>elv_list := elv_list reg @ [?e]\<rparr>) = elevator_find n reg"
      if "n \<noteq> elevator_name e" for n
      using that by (simp add: elevator_find_append split: option.split)
    moreover have "icq_size e \<noteq> 0 \<longrightarrow> cq_size \<le> icq_size e \<and> cq_align \<le> icq_align e \<and> cache_ok"
      using fine by auto
    ultimately show ?thesis using reg' None by simp
  qed
qed

theorem elv_register_correct_witness:
  "fst (elv_register 0 0 True (sched_type ''cfq'') registry_example) = 0 \<and>
   fst (elv_register 0 0 True (sched_type ''sfq'') registry_example) \<noteq> 0"
proof -
  have "reg_wf registry_example" by (simp add: reg_wf_def registry_example_def sched_type_def)
  from elv_register_correct [OF this, where cq_size = 0 and cq_align = 0 and
      e = "sched_type ''cfq''" and cache_ok = True]
       elv_register_correct [OF this, where cq_size = 0 and cq_align = 0 and
      e = "sched_type ''sfq''" and cache_ok = True]
  show ?thesis
    by (auto simp: elevator_find_def split: prod.splits) (auto simp: registry_example_def sched_type_def)
qed

text \<open>
  What the block layer documents of the functions around a switch, for this queue: starting the
  bypass drains the scheduler, which changes its data but not the elevator object's type or
  registration; clearing the io contexts' data, which may change the scheduler's data again,
  leaves none.  \<open>d\<close> is the scheduler's data after both.
\<close>

definition quiesced ::
  "('d, 'a) elv_queue_scheme bypass_layer \<Rightarrow> ('d, 'a) elv_queue_scheme \<Rightarrow> 'd elevator_queue \<Rightarrow> 'd \<Rightarrow> bool" where
  "quiesced B q old d \<longleftrightarrow>
     (\<exists>q1 d1. blk_queue_bypass_start B q = Inr q1 \<and> elevator q1 = Some (old\<lparr>elevator_data := d1\<rparr>) \<and>
        bypass_depth q1 = bypass_depth q + 1 \<and> nonrot_disk q1 = nonrot_disk q \<and>
        (let q1 = (if registered old
                   then q1\<lparr>sysfs_files := [], elevator := Some (old\<lparr>elevator_data := d1, registered := False\<rparr>)\<rparr>
                   else q1) in
         \<exists>q2. ioc_clear_queue B q1 = Inr q2 \<and> icq_list q2 = [] \<and>
            elevator q2 = Some (old\<lparr>elevator_data := d, registered := False\<rparr>) \<and>
            bypass_depth q2 = bypass_depth q + 1 \<and> nonrot_disk q2 = nonrot_disk q))"

definition exits_cleanly :: "'d elevator_type \<Rightarrow> 'd \<Rightarrow> bool" where
  "exits_cleanly t d \<longleftrightarrow> (\<forall>f. elevator_exit_fn t = Some f \<longrightarrow> f d = Inr ())"

lemma elevator_exit_clean:
  "exits_cleanly (eq_type eq) (elevator_data eq) \<Longrightarrow> elevator_exit eq reg = Inr (elevator_put (eq_type eq) reg)"
  by (auto simp: elevator_exit_def exits_cleanly_def elevator_release_def split: option.split)

lemma cfq_run_init_0: "cfq_run_init eq_ok data_ok 0 = run_init eq_ok data_ok"
  by (intro ext) (simp add: cfq_run_init_def run_init_def Let_def split: option.split)

lemma elv_unregister_queue_eq:
  "elevator q = Some e \<Longrightarrow>
   elv_unregister_queue q = Inr (q\<lparr>sysfs_files := [], elevator := Some (e\<lparr>registered := False\<rparr>)\<rparr>)"
  by (simp add: elv_unregister_queue_def)

text \<open>What a switch does once the queue is quiet, and the state in which it does it.\<close>

definition set_up_new ::
  "('d, 'a) elv_queue_scheme bypass_layer \<Rightarrow> ('d, ('d, 'a) elv_queue_scheme) init_fn \<Rightarrow> int \<Rightarrow> int \<Rightarrow>
   (string \<Rightarrow> bool) \<Rightarrow> 'd elevator_type \<Rightarrow> bool \<Rightarrow> 'd elevator_queue \<Rightarrow> 'd elv_registry \<Rightarrow>
   ('d, 'a) elv_queue_scheme \<Rightarrow> (int \<times> 'd elv_registry \<times> ('d, 'a) elv_queue_scheme) res" where
  "set_up_new B init kadd kadd_back file_ok new_e was_registered old reg q =
     (let (err, reg, q) = init new_e reg q in
      if err \<noteq> 0 then fail_init B err kadd_back file_ok old reg q
      else
        bindE (if was_registered then elv_register_queue kadd file_ok q else Inr (0, q)) (\<lambda>(err, q).
          if err \<noteq> 0 then
            (case elevator q of
               None \<Rightarrow> Inl NullDeref
             | Some new \<Rightarrow>
                 bindE (elevator_exit new reg) (\<lambda>reg. fail_init B err kadd_back file_ok old reg q))
          else
            bindE (elevator_exit old reg) (\<lambda>reg. Inr (0, reg, blk_queue_bypass_end B q))))"

lemma quiesced_switch:
  assumes q: "quiesced B q old d" "elevator q = Some old"
  obtains q2 where "elevator q2 = Some (old\<lparr>elevator_data := d, registered := False\<rparr>)"
    "bypass_depth q2 = bypass_depth q + 1" "nonrot_disk q2 = nonrot_disk q" "icq_list q2 = []"
    "elevator_switch B init kadd kadd_back file_ok new_e reg q =
       set_up_new B init kadd kadd_back file_ok new_e (registered old)
         (old\<lparr>elevator_data := d, registered := False\<rparr>) reg q2"
proof -
  from q(1) obtain q1 d1 q2 where s: "blk_queue_bypass_start B q = Inr q1"
      "elevator q1 = Some (old\<lparr>elevator_data := d1\<rparr>)" "bypass_depth q1 = bypass_depth q + 1"
      "nonrot_disk q1 = nonrot_disk q"
    and c: "ioc_clear_queue B (if registered old
        then q1\<lparr>sysfs_files := [], elevator := Some (old\<lparr>elevator_data := d1, registered := False\<rparr>)\<rparr>
        else q1) = Inr q2"
    and q2: "icq_list q2 = []" "elevator q2 = Some (old\<lparr>elevator_data := d, registered := False\<rparr>)"
      "bypass_depth q2 = bypass_depth q + 1" "nonrot_disk q2 = nonrot_disk q"
    unfolding quiesced_def Let_def by (elim exE conjE) (rule that; assumption)
  show ?thesis
  proof (rule that [of q2])
    show "bypass_depth q2 = bypass_depth q + 1" "nonrot_disk q2 = nonrot_disk q" using s q2 by simp_all
  qed (use q(2) s c q2 in \<open>simp_all add: elevator_switch_def set_up_new_def elv_unregister_queue_eq Let_def
    split: if_splits\<close>)
qed

lemma elv_register_queue_eq:
  "elevator q = Some e \<Longrightarrow>
   \<exists>q'. elv_register_queue kadd file_ok q = Inr (kadd, q') \<and>
     bypass_depth q' = bypass_depth q \<and> icq_list q' = icq_list q \<and> nonrot_disk q' = nonrot_disk q \<and>
     elevator q' = Some (if kadd = 0
       then e\<lparr>registered := True, elevator_data := registered_data (eq_type e) (nonrot_disk q) (elevator_data e)\<rparr>
       else e)"
  by (auto simp: elv_register_queue_def)

text \<open>Going back re-registers the old elevator object, registered before or not.\<close>

lemma fail_init_eq:
  assumes "\<And>q. blk_queue_bypass_end B q = q\<lparr>bypass_depth := bypass_depth q - 1\<rparr>"
  shows "\<exists>q'. fail_init B err kadd file_ok (old\<lparr>elevator_data := d, registered := False\<rparr>) reg q = Inr (err, reg, q') \<and>
     bypass_depth q' = bypass_depth q - 1 \<and> icq_list q' = icq_list q \<and>
     elevator q' = Some \<lparr>eq_type = eq_type old, registered = (kadd = 0), elevator_data =
       (if kadd = 0 then registered_data (eq_type old) (nonrot_disk q) d else d)\<rparr>"
  using elv_register_queue_eq [of "q\<lparr>elevator := Some (old\<lparr>elevator_data := d, registered := False\<rparr>)\<rparr>"
      "old\<lparr>elevator_data := d, registered := False\<rparr>" kadd file_ok] assms
  by (cases old) (auto simp: fail_init_def)

text \<open>C10: Switching schedulers ends with exactly one of the two in place, whichever allocation, policy
  activation or registration fails.  On success this is the new one, with fresh data and registered
  like the old one was, and the old one's module reference is given back.  On failure it is again
  the old one, even where CFQ's set-up failed with the queue pointing to its released elevator
  object; the reference to the new module is given back unless the elevator object itself could not
  be allocated, and the old one is registered exactly when re-registering worked, even if it was
  not before.  Bypass mode is left as it was.  Not everything is undone: the requests were drained and the
  io contexts' data is gone either way.  The hypotheses are the block layer's: draining and clearing
  return, and leave the old scheduler in a state in which its exit function runs through, as that
  of a new one does on fresh data.\<close>

theorem elevator_switch_all_or_nothing:
  assumes "elevator q = Some old" "quiesced B q old d"
    and "\<And>q. blk_queue_bypass_end B q = q\<lparr>bypass_depth := bypass_depth q - 1\<rparr>"
    and "exits_cleanly (eq_type old) d" "exits_cleanly new_e (init_data new_e)"
  shows "\<exists>err reg' q'. elevator_switch B (cfq_run_init eq_ok data_ok policy_err) kadd kadd_back file_ok new_e reg q =
       Inr (err, reg', q') \<and>
     bypass_depth q' = bypass_depth q \<and> icq_list q' = [] \<and>
     (err = 0 \<longleftrightarrow> eq_ok \<and> data_ok \<and> policy_err = 0 \<and> (registered old \<longrightarrow> kadd = 0)) \<and>
     (if err = 0 then
        elevator q' = Some \<lparr>eq_type = new_e, registered = registered old, elevator_data =
          (if registered old then registered_data new_e (nonrot_disk q) (init_data new_e) else init_data new_e)\<rparr> \<and>
        reg' = elevator_put (eq_type old) reg
      else
        elevator q' = Some \<lparr>eq_type = eq_type old, registered = (kadd_back = 0), elevator_data =
          (if kadd_back = 0 then registered_data (eq_type old) (nonrot_disk q) d else d)\<rparr> \<and>
        reg' = (if eq_ok then elevator_put new_e reg else reg))"
proof -
  from quiesced_switch [OF assms(2,1), of "cfq_run_init eq_ok data_ok policy_err" kadd kadd_back file_ok new_e reg]
  obtain q2 where q2: "elevator q2 = Some (old\<lparr>elevator_data := d, registered := False\<rparr>)"
      "bypass_depth q2 = bypass_depth q + 1" "nonrot_disk q2 = nonrot_disk q" "icq_list q2 = []"
    and sw: "elevator_switch B (cfq_run_init eq_ok data_ok policy_err) kadd kadd_back file_ok new_e reg q =
       set_up_new B (cfq_run_init eq_ok data_ok policy_err) kadd kadd_back file_ok new_e (registered old)
         (old\<lparr>elevator_data := d, registered := False\<rparr>) reg q2"
    by blast
  let ?old = "old\<lparr>elevator_data := d, registered := False\<rparr>"
  let ?new = "\<lparr>eq_type = new_e, registered = False, elevator_data = init_data new_e\<rparr>"
  let ?q = "q2\<lparr>elevator := Some ?new\<rparr>"
  note put = elevator_exit_clean [of ?old reg] elevator_exit_clean [of ?new reg]
  note restored = fail_init_eq [OF assms(3), where kadd = kadd_back and file_ok = file_ok and old = old and d = d]
  show ?thesis
  proof (cases "eq_ok \<and> data_ok \<and> policy_err = 0")
    case False
    then obtain q3 where i: "cfq_run_init eq_ok data_ok policy_err new_e reg q2 =
        (if \<not> eq_ok \<or> \<not> data_ok then - ENOMEM else policy_err, if eq_ok then elevator_put new_e reg else reg, q3)"
      "bypass_depth q3 = bypass_depth q2" "nonrot_disk q3 = nonrot_disk q2" "icq_list q3 = icq_list q2"
      by (cases eq_ok; cases data_ok; cases "policy_err = 0")
         (auto simp: cfq_run_init_def elevator_alloc_def elevator_release_def)
    define err where "err = (if \<not> eq_ok \<or> \<not> data_ok then - ENOMEM else policy_err)"
    define r where "r = (if eq_ok then elevator_put new_e reg else reg)"
    from restored [of err r q3] obtain q4 where q4: "fail_init B err kadd_back file_ok ?old r q3 = Inr (err, r, q4)"
      "bypass_depth q4 = bypass_depth q3 - 1" "icq_list q4 = icq_list q3"
      "elevator q4 = Some \<lparr>eq_type = eq_type old, registered = (kadd_back = 0), elevator_data =
         (if kadd_back = 0 then registered_data (eq_type old) (nonrot_disk q3) d else d)\<rparr>" by blast
    have err: "err \<noteq> 0" using False by (simp add: err_def ENOMEM_def)
    have "elevator_switch B (cfq_run_init eq_ok data_ok policy_err) kadd kadd_back file_ok new_e reg q =
        Inr (err, r, q4)"
      unfolding sw set_up_new_def Let_def i(1) split_conv err_def [symmetric] r_def [symmetric] using err q4(1) by simp
    moreover have "\<not> (eq_ok \<and> data_ok \<and> policy_err = 0 \<and> (registered old \<longrightarrow> kadd = 0))"
      using False by blast
    ultimately show ?thesis
      using err q4(2-4) i(2-4) q2 by (intro exI) (rule conjI, assumption, simp add: r_def)
  next
    case True
    then have i: "cfq_run_init eq_ok data_ok policy_err new_e reg q2 = (0, reg, ?q)"
      by (simp add: cfq_run_init_def elevator_alloc_def Let_def)
    from elv_register_queue_eq [of ?q ?new kadd file_ok] obtain q3 where
      r: "elv_register_queue kadd file_ok ?q = Inr (kadd, q3)" "bypass_depth q3 = bypass_depth ?q"
        "icq_list q3 = icq_list ?q" "nonrot_disk q3 = nonrot_disk ?q"
        "elevator q3 = Some (if kadd = 0 then ?new\<lparr>registered := True, elevator_data :=
             registered_data new_e (nonrot_disk q2) (init_data new_e)\<rparr> else ?new)"
      by auto
    show ?thesis
    proof (cases "registered old \<and> kadd \<noteq> 0")
      case fail: True
      show ?thesis
        using restored [of kadd "elevator_put new_e reg" q3] put(2) assms(5) r q2 sw i True fail
        by (auto simp: set_up_new_def)
    next
      case ok: False
      show ?thesis
        using put(1) assms(3,4) r q2 sw i True ok by (auto simp: set_up_new_def)
    qed
  qed
qed

theorem elevator_switch_all_or_nothing_witness:
  "(\<exists>err reg' q'. elevator_switch bypass_example (cfq_run_init True True (- EINVAL)) 0 0 (\<lambda>_. True)
       (sched_type ''sfq'') registry_example (queue_example (Some (noop_eq [0, 1]))) = Inr (err, reg', q') \<and>
     err \<noteq> 0 \<and> elevator q' = Some (noop_eq [])) \<and>
   (\<exists>reg' q'. elevator_switch bypass_example (cfq_run_init True True 0) 0 0 (\<lambda>_. True)
       (sched_type ''sfq'') registry_example (queue_example (Some (noop_eq [0, 1]))) = Inr (0, reg', q') \<and>
     elevator q' = Some \<lparr>eq_type = sched_type ''sfq'', registered = True, elevator_data = []\<rparr>)"
proof -
  let ?q = "queue_example (Some (noop_eq [0, 1]))"
  have 1: "elevator ?q = Some (noop_eq [0, 1])" by (simp add: queue_example_def)
  have 2: "quiesced bypass_example ?q (noop_eq [0, 1]) []"
    by (simp add: quiesced_def bypass_example_def queue_example_def noop_eq_def Let_def)
  have 3: "\<And>q. blk_queue_bypass_end bypass_example q = q\<lparr>bypass_depth := bypass_depth q - 1\<rparr>"
    by (simp add: bypass_example_def)
  have 4: "exits_cleanly (eq_type (noop_eq [0, 1])) []" "exits_cleanly (sched_type ''sfq'') (init_data (sched_type ''sfq''))"
    by (simp_all add: exits_cleanly_def noop_eq_def sched_type_def noop_exit_def noop_exit_queue_def)
  note sw = elevator_switch_all_or_nothing [OF 1 2 3 4, where kadd = 0 and kadd_back = 0 and
      file_ok = "\<lambda>_. True" and reg = registry_example and eq_ok = True and data_ok = True]
  have "registered_data (sched_type n) b x = x" for n b x by (simp add: registered_data_def sched_type_def)
  moreover have "init_data (sched_type n) = []" for n by (simp add: sched_type_def)
  ultimately show ?thesis
    using sw [of "- EINVAL"] sw [of 0] by (auto simp: EINVAL_def noop_eq_def)
qed

text \<open>C24: Reference counts of \<open>elevator_init\<close>, asked for a registered scheduler by name: success keeps the
  one reference it took, a failed elevator object returns it, but when the scheduler's private data
  cannot be allocated, or CFQ's policy cannot be activated, the reference is returned twice, once
  when the elevator object is released and once more by \<open>elevator_init\<close>, leaving the count one too
  low; in CFQ's case the queue moreover keeps a pointer to the released object.\<close>

theorem elevator_init_references:
  assumes "elevator q = None" "elevator_find n reg = Some t" "module_live reg (elevator_name t)"
  shows "(\<exists>err reg' q'. elevator_init load config_default (run_init eq_ok data_ok) (Some n) reg q = Inr (err, reg', q') \<and>
     (err = 0 \<longleftrightarrow> eq_ok \<and> data_ok) \<and>
     (err = 0 \<longrightarrow> elevator q' = Some \<lparr>eq_type = t, registered = False, elevator_data = init_data t\<rparr>) \<and>
     module_refs reg' (elevator_name t) = module_refs reg (elevator_name t) +
       (if \<not> eq_ok then 0 else if data_ok then 1 else - 1)) \<and>
   (policy_err \<noteq> 0 \<longrightarrow>
     (\<exists>reg' q'. elevator_init load config_default (cfq_run_init True True policy_err) (Some n) reg q =
         Inr (policy_err, reg', q') \<and>
       elevator q' = Some \<lparr>eq_type = t, registered = False, elevator_data = init_data t\<rparr> \<and>
       module_refs reg' (elevator_name t) = module_refs reg (elevator_name t) - 1))"
  using assms
  by (cases eq_ok; cases data_ok)
     (auto simp: elevator_init_def elevator_get_def run_init_def cfq_run_init_def elevator_alloc_def elevator_put_def
        elevator_release_def ENOMEM_def Let_def)

theorem elevator_init_references_witness:
  "\<exists>err reg' q'. elevator_init (\<lambda>_ r. r) ''noop'' (run_init True False) (Some ''sfq'') registry_example
       (queue_example None) = Inr (err, reg', q') \<and> module_refs reg' ''sfq'' = 0"
  using elevator_init_references [of "queue_example None" "''sfq''" registry_example "sched_type ''sfq''"
      "\<lambda>_ r. r" "''noop''" True False "- EINVAL"]
  by (auto simp: queue_example_def registry_example_def elevator_find_def sched_type_def EINVAL_def)

text \<open>The scheduler list in \<open>/sys\<close> can be read back: for names without blanks and brackets it yields
  the registered names in order, each with whether it is the queue's current scheduler.\<close>

theorem iosched_show_readable:
  assumes "elevator q = Some eq" "stackable q" "\<forall>e \<in> set (elv_list reg). plain_name (elevator_name e)"
  shows "read_listing (elv_iosched_show reg q) =
     map (\<lambda>e. (elevator_name e, elevator_name (eq_type eq) = elevator_name e)) (elv_list reg)"
  using assms by (simp add: elv_iosched_show_def read_show_entries)

theorem iosched_show_readable_witness:
  "read_listing (elv_iosched_show registry_example
     (queue_example (Some \<lparr>eq_type = sched_type ''sfq'', registered = True, elevator_data = []\<rparr>))) =
   [(''noop'', False), (''sfq'', True)]"
  using iosched_show_readable [of "queue_example (Some \<lparr>eq_type = sched_type ''sfq'', registered = True, elevator_data = []\<rparr>)"
      "\<lparr>eq_type = sched_type ''sfq'', registered = True, elevator_data = []\<rparr>" registry_example]
  by (simp add: queue_example_def registry_example_def sched_type_def plain_name_def)

text \<open>Writing the current scheduler's own name to \<open>/sys\<close> changes nothing and keeps its reference count;
  with a leading blank the same name is looked up correctly but compared unstripped, so the queue is
  taken through a complete switch from the scheduler to itself.\<close>

theorem iosched_store_current:
  assumes "elevator q = Some cur" "elevator_find n reg = Some t" "module_live reg (elevator_name t)"
    and "elevator_name (eq_type cur) = n" "n \<noteq> []" "length n < 15" "\<not> isspace (hd n)" "\<not> isspace (last n)"
  shows "(\<exists>reg'. elv_iosched_store load B init kadd kadd_back file_ok n cnt reg q = Inr (cnt, reg', q) \<and>
      module_refs reg' = module_refs reg) \<and>
    elevator_change' load B init kadd kadd_back file_ok (CHR '' '' # n) reg q =
      elevator_switch B init kadd kadd_back file_ok t
        (reg\<lparr>module_refs := (module_refs reg)(n := module_refs reg n + 1)\<rparr>) q"
proof -
  have r: "rstrip n = n" "rstrip (CHR '' '' # n) = CHR '' '' # n"
    using assms(5,8) by (cases n rule: rev_cases; auto simp: rstrip_def)+
  have s: "skip_spaces n = n" "skip_spaces (CHR '' '' # n) = n"
    using assms(5,7) by (cases n; auto simp: skip_spaces_def isspace_def)+
  have t: "take 15 n = n" "take 14 n = n" using assms(6) by simp_all
  have nt: "elevator_name t = n" using assms(2) by (auto simp: elevator_find_def find_Some_iff)
  have "\<exists>reg'. elv_iosched_store load B init kadd kadd_back file_ok n cnt reg q = Inr (cnt, reg', q) \<and>
      module_refs reg' = module_refs reg"
    using assms r s t nt
    by (simp add: elv_iosched_store_def elevator_change'_def elevator_get_def elevator_put_def Let_def ELV_NAME_MAX_def)
  moreover have "elevator_change' load B init kadd kadd_back file_ok (CHR '' '' # n) reg q =
      elevator_switch B init kadd kadd_back file_ok t
        (reg\<lparr>module_refs := (module_refs reg)(n := module_refs reg n + 1)\<rparr>) q"
    using assms r s t nt
    by (simp add: elevator_change'_def elevator_get_def Let_def ELV_NAME_MAX_def)
  ultimately show ?thesis ..
qed

theorem iosched_store_current_witness:
  "\<exists>reg'. elv_iosched_store (\<lambda>_ r. r) bypass_example (run_init True True) 0 0 (\<lambda>_. True) ''noop'' 4 registry_example
     (queue_example (Some (noop_eq [0]))) =
     Inr (4, reg', queue_example (Some (noop_eq [0])))"
  using iosched_store_current [of "queue_example (Some (noop_eq [0]))"
      "noop_eq [0]" "''noop''" registry_example "sched_type ''noop''"
      "\<lambda>_ r. r" bypass_example "run_init True True" 0 0 "\<lambda>_. True" 4]
  by (auto simp: queue_example_def registry_example_def elevator_find_def sched_type_def noop_eq_def isspace_def)

end
