(* ===== verification/Deadline.thy ===== *)
theory Deadline
  imports ElvHash ElvSched
begin

text \<open>
  The deadline experiment (\<open>deadline_experiment/deadline_example.c\<close>): every request is on a
  FIFO and in a sector-sorted tree, one of each per direction; a dispatch continues the
  current batch or starts a new one, preferring reads until writes have been passed over
  too often.  The model, the consistency of the two structures, and the bound on how long a
  waiting write can be passed over.
\<close>

section \<open>Model\<close>

text \<open>
  \<open>color\<close> and \<open>erase\<close> are \<open>rb_insert_color\<close> and \<open>rb_erase\<close> as in the elevator core;
  \<open>HZ\<close> is the kernel's clock rate.
\<close>

definition read_expire :: "nat \<Rightarrow> int" where "read_expire HZ = int (HZ div 2)"

definition write_expire :: "nat \<Rightarrow> int" where "write_expire HZ = int (5 * HZ)"

definition writes_starved_default :: nat where "writes_starved_default = 2"

definition fifo_batch_default :: nat where "fifo_batch_default = 16"

record deadline_data = request_queue +
  sort_list :: "data_dir \<Rightarrow> nat tree"
  fifo_list :: "data_dir \<Rightarrow> nat list"
  next_rq :: "data_dir \<Rightarrow> nat option"
  batching :: nat
  starved :: nat
  fifo_expire :: "data_dir \<Rightarrow> int"
  fifo_batch :: nat
  writes_starved :: nat
  front_merges :: int

definition u32 :: "nat \<Rightarrow> nat" where "u32 n = n mod 2 ^ 32"

text \<open>\<open>time_after_eq(a, b)\<close> on 64-bit jiffies: the difference is not negative as a signed long.\<close>

definition time_after_eq :: "nat \<Rightarrow> nat \<Rightarrow> bool" where
  "time_after_eq a b \<longleftrightarrow> (int a - int b) mod 2 ^ 64 < 2 ^ 63"

definition pos_of :: "'a request_queue_scheme \<Rightarrow> nat \<Rightarrow> nat" where
  "pos_of q x = (case rqs q x of None \<Rightarrow> 0 | Some r \<Rightarrow> rq_pos r)"

text \<open>\<open>rb_next\<close> of a request that is in no tree is NULL.\<close>

definition deadline_latter_request :: "nat \<Rightarrow> data_dir \<Rightarrow> 'a deadline_data_scheme \<Rightarrow> nat option" where
  "deadline_latter_request rq d q = elv_rb_latter_request (sort_list q d) rq"

definition deadline_add_rq_rb ::
  "(nat tree \<Rightarrow> nat tree) \<Rightarrow> nat \<Rightarrow> data_dir \<Rightarrow> 'a deadline_data_scheme \<Rightarrow> 'a deadline_data_scheme" where
  "deadline_add_rq_rb color rq d q =
     q\<lparr>sort_list := (sort_list q)(d := elv_rb_add color (pos_of q) rq (sort_list q d))\<rparr>"

definition deadline_del_rq_rb ::
  "(nat \<Rightarrow> nat tree \<Rightarrow> nat tree) \<Rightarrow> nat \<Rightarrow> data_dir \<Rightarrow> 'a deadline_data_scheme \<Rightarrow>
   'a deadline_data_scheme res" where
  "deadline_del_rq_rb erase rq d q0 =
     (let q = (if next_rq q0 d = Some rq
               then q0\<lparr>next_rq := (next_rq q0)(d := deadline_latter_request rq d q0)\<rparr> else q0) in
      bindE (elv_rb_del erase rq (sort_list q d)) (\<lambda>t.
        Inr (q\<lparr>sort_list := (sort_list q)(d := t)\<rparr>)))"

text \<open>\<open>rq_fifo_clear\<close> takes the request off whichever FIFO it is on.\<close>

definition rq_fifo_clear :: "nat \<Rightarrow> 'a deadline_data_scheme \<Rightarrow> 'a deadline_data_scheme" where
  "rq_fifo_clear rq q = q\<lparr>fifo_list := (\<lambda>d. removeAll rq (fifo_list q d))\<rparr>"

definition deadline_move_to_dispatch ::
  "(nat \<Rightarrow> nat tree \<Rightarrow> nat tree) \<Rightarrow> nat \<Rightarrow> 'a deadline_data_scheme \<Rightarrow> 'a deadline_data_scheme res" where
  "deadline_move_to_dispatch erase rq q =
     bindE (deref (rqs q) rq) (\<lambda>r.
     bindE (deadline_del_rq_rb erase rq (rq_dir r) (rq_fifo_clear rq q)) (elv_dispatch_add_tail rq))"

definition deadline_move_request ::
  "(nat \<Rightarrow> nat tree \<Rightarrow> nat tree) \<Rightarrow> nat \<Rightarrow> 'a deadline_data_scheme \<Rightarrow> 'a deadline_data_scheme res" where
  "deadline_move_request erase rq q =
     bindE (deref (rqs q) rq) (\<lambda>r.
       deadline_move_to_dispatch erase rq
         (q\<lparr>next_rq := (\<lambda>_. None)(rq_dir r := deadline_latter_request rq (rq_dir r) q)\<rparr>))"

definition deadline_check_fifo :: "nat \<Rightarrow> data_dir \<Rightarrow> 'a deadline_data_scheme \<Rightarrow> bool res" where
  "deadline_check_fifo j d q =
     (case list_first (fifo_list q d) of
        None \<Rightarrow> Inl ListHeadDeref
      | Some h \<Rightarrow> bindE (deref (rqs q) h) (\<lambda>r. Inr (time_after_eq j (fifo_time r))))"

text \<open>From \<open>dispatch_request\<close> on; the function returns 0 in every case.\<close>

definition dispatch_request ::
  "(nat \<Rightarrow> nat tree \<Rightarrow> nat tree) \<Rightarrow> nat \<Rightarrow> 'a deadline_data_scheme \<Rightarrow>
   (int \<times> 'a deadline_data_scheme) res" where
  "dispatch_request erase rq q =
     bindE (deadline_move_request erase rq (q\<lparr>batching := u32 (batching q + 1)\<rparr>)) (\<lambda>q. Inr (0, q))"

definition dispatch_find_request ::
  "(nat \<Rightarrow> nat tree \<Rightarrow> nat tree) \<Rightarrow> nat \<Rightarrow> data_dir \<Rightarrow> 'a deadline_data_scheme \<Rightarrow>
   (int \<times> 'a deadline_data_scheme) res" where
  "dispatch_find_request erase j d q =
     bindE (deadline_check_fifo j d q) (\<lambda>expired.
     bindE (case next_rq q d of
              None \<Rightarrow> (case list_first (fifo_list q d) of None \<Rightarrow> Inl ListHeadDeref | Some h \<Rightarrow> Inr h)
            | Some n \<Rightarrow>
                if expired
                then (case list_first (fifo_list q d) of None \<Rightarrow> Inl ListHeadDeref | Some h \<Rightarrow> Inr h)
                else Inr n) (\<lambda>rq.
       dispatch_request erase rq (q\<lparr>batching := 0\<rparr>)))"

definition dispatch_writes ::
  "(nat \<Rightarrow> nat tree \<Rightarrow> nat tree) \<Rightarrow> nat \<Rightarrow> 'a deadline_data_scheme \<Rightarrow>
   (int \<times> 'a deadline_data_scheme) res" where
  "dispatch_writes erase j q =
     bindE (guardE (sort_list q WRITE \<noteq> Leaf) BugOn) (\<lambda>_.
       dispatch_find_request erase j WRITE (q\<lparr>starved := 0\<rparr>))"

text \<open>With neither reads nor writes \<open>data_dir\<close> is used without having been set.\<close>

definition deadline_dispatch_requests ::
  "(nat \<Rightarrow> nat tree \<Rightarrow> nat tree) \<Rightarrow> nat \<Rightarrow> 'a deadline_data_scheme \<Rightarrow>
   (int \<times> 'a deadline_data_scheme) res" where
  "deadline_dispatch_requests erase j q =
     (let reads = (fifo_list q READ \<noteq> []); writes = (fifo_list q WRITE \<noteq> []);
          rq = (case next_rq q WRITE of Some x \<Rightarrow> Some x | None \<Rightarrow> next_rq q READ) in
      if rq \<noteq> None \<and> batching q < fifo_batch q then dispatch_request erase (the rq) q
      else if reads then
        bindE (guardE (sort_list q READ \<noteq> Leaf) BugOn) (\<lambda>_.
          if writes then
            let passed = starved q; q = q\<lparr>starved := u32 (starved q + 1)\<rparr> in
            if passed \<ge> writes_starved q then dispatch_writes erase j q
            else dispatch_find_request erase j READ q
          else dispatch_find_request erase j READ q)
      else if writes then dispatch_writes erase j q
      else Inl Uninit)"

definition deadline_add_request ::
  "(nat tree \<Rightarrow> nat tree) \<Rightarrow> nat \<Rightarrow> nat \<Rightarrow> 'a deadline_data_scheme \<Rightarrow> 'a deadline_data_scheme res" where
  "deadline_add_request color j rq q =
     bindE (deref (rqs q) rq) (\<lambda>r.
     let d = rq_dir r; q = deadline_add_rq_rb color rq d q in
     bindE (upd_rq rq (\<lambda>r. r\<lparr>fifo_time := nat ((int j + fifo_expire q d) mod 2 ^ 64)\<rparr>) q) (\<lambda>q.
       Inr (q\<lparr>fifo_list := (fifo_list q)(d := fifo_list q d @ [rq])\<rparr>)))"

definition deadline_exit_queue :: "'a deadline_data_scheme \<Rightarrow> unit res" where
  "deadline_exit_queue q =
     bindE (guardE (fifo_list q READ = []) BugOn) (\<lambda>_. guardE (fifo_list q WRITE = []) BugOn)"

definition deadline_init_queue ::
  "nat \<Rightarrow> bool \<Rightarrow> bool \<Rightarrow> 'a deadline_data_scheme \<Rightarrow> 'a deadline_data_scheme init_result" where
  "deadline_init_queue HZ eq_ok dd_ok q =
     (if \<not> eq_ok then \<lparr>ret = - ENOMEM, eq_released = False, result_queue = q\<rparr>
      else if \<not> dd_ok then \<lparr>ret = - ENOMEM, eq_released = True, result_queue = q\<rparr>
      else \<lparr>ret = 0, eq_released = False, result_queue =
        q\<lparr>sort_list := (\<lambda>_. Leaf), fifo_list := (\<lambda>_. []), next_rq := (\<lambda>_. None), batching := 0,
          starved := 0,
          fifo_expire := (\<lambda>d. case d of READ \<Rightarrow> read_expire HZ | WRITE \<Rightarrow> write_expire HZ),
          fifo_batch := fifo_batch_default, writes_starved := writes_starved_default,
          front_merges := 0\<rparr>\<rparr>)"

section \<open>The two structures agree\<close>

definition dir_ok :: "'a deadline_data_scheme \<Rightarrow> data_dir \<Rightarrow> bool" where
  "dir_ok q d \<longleftrightarrow> distinct (fifo_list q d) \<and> distinct (inorder (sort_list q d)) \<and>
     set (inorder (sort_list q d)) = set (fifo_list q d) \<and>
     sorted (map (pos_of q) (inorder (sort_list q d))) \<and>
     (\<forall>x \<in> set (fifo_list q d). \<exists>r. rqs q x = Some r \<and> rq_dir r = d) \<and>
     (\<forall>x. next_rq q d = Some x \<longrightarrow> x \<in> set (fifo_list q d))"

definition deadline_inv :: "'a deadline_data_scheme \<Rightarrow> bool" where
  "deadline_inv q \<longleftrightarrow> dir_ok q READ \<and> dir_ok q WRITE \<and> fifo_batch q = 16 \<and> writes_starved q = 2 \<and>
     batching q \<le> 16 \<and> starved q \<le> 2"

lemma dir_ok_counters [simp]:
  "dir_ok (q\<lparr>batching := b\<rparr>) d = dir_ok q d" "dir_ok (q\<lparr>starved := s\<rparr>) d = dir_ok q d"
proof -
  have "pos_of (q\<lparr>batching := b\<rparr>) = pos_of q" "pos_of (q\<lparr>starved := s\<rparr>) = pos_of q"
    by (simp_all add: pos_of_def fun_eq_iff)
  then show "dir_ok (q\<lparr>batching := b\<rparr>) d = dir_ok q d" "dir_ok (q\<lparr>starved := s\<rparr>) d = dir_ok q d"
    by (simp_all add: dir_ok_def)
qed

lemma deadline_inv_dir: "deadline_inv q \<Longrightarrow> dir_ok q d"
  by (cases d) (simp_all add: deadline_inv_def)

lemma next_in_distinct: "distinct l \<Longrightarrow> next_in l x = Some y \<Longrightarrow> y \<in> set l - {x}"
proof (induction l)
  case (Cons a l)
  then show ?case by (cases l) (auto simp: next_in_def split: if_splits lnode.splits)
qed (simp add: next_in_def)

lemma same_requests_pos:
  assumes "same_requests (rqs q) (rqs q')"
  shows "pos_of q' = pos_of q"
proof
  fix x
  show "pos_of q' x = pos_of q x"
    using same_requestsD [OF assms, of x] same_requestsD [OF same_requests_sym [OF assms], of x]
    by (cases "rqs q x"; cases "rqs q' x") (auto simp: pos_of_def dest!: arg_cong [of _ _ rq_pos])
qed

lemma same_requests_dir:
  "same_requests m m' \<Longrightarrow> (\<exists>r. m x = Some r \<and> rq_dir r = d) \<Longrightarrow> \<exists>r. m' x = Some r \<and> rq_dir r = d"
  by (metis same_requestsD rq_core_simps(4))

lemma deadline_move_ok:
  assumes er: "\<And>x t. inorder (erase x t) = remove1 x (inorder t)"
    and inv: "dir_ok q READ" "dir_ok q WRITE" and rq: "rq \<in> set (fifo_list q d)"
  shows "\<exists>q'. deadline_move_request erase rq q = Inr q' \<and> dir_ok q' READ \<and> dir_ok q' WRITE \<and>
     fifo_list q' = (fifo_list q)(d := remove1 rq (fifo_list q d)) \<and>
     next_rq q' = (\<lambda>_. None)(d := next_in (inorder (sort_list q d)) rq) \<and>
     queue_head q' = queue_head q @ [rq] \<and> same_requests (rqs q) (rqs q') \<and>
     batching q' = batching q \<and> starved q' = starved q \<and> fifo_batch q' = fifo_batch q \<and>
     writes_starved q' = writes_starved q"
proof -
  have dok: "dir_ok q e" for e using inv by (cases e) simp_all
  from dok [of d] rq obtain r where r: "rqs q rq = Some r" "rq_dir r = d" by (auto simp: dir_ok_def)
  have other: "rq \<notin> set (fifo_list q e)" if "e \<noteq> d" for e
    using dok [of e] r that by (auto simp: dir_ok_def)
  let ?n = "next_in (inorder (sort_list q d)) rq"
  let ?q1 = "q\<lparr>next_rq := (\<lambda>_. None)(d := ?n)\<rparr>"
  let ?f = "(fifo_list q)(d := remove1 rq (fifo_list q d))"
  let ?q2 = "?q1\<lparr>fifo_list := ?f, sort_list := (sort_list q)(d := erase rq (sort_list q d))\<rparr>"
  have fifo: "(\<lambda>e. removeAll rq (fifo_list q e)) = ?f"
    using other dok [of d] by (auto simp: fun_eq_iff dir_ok_def distinct_remove1_removeAll)
  have mem: "rq \<in> set_tree (sort_list q d)"
    using dok [of d] rq by (simp add: dir_ok_def flip: set_inorder)
  have n: "?n \<noteq> Some rq" using next_in_distinct [of "inorder (sort_list q d)" rq rq] dok [of d] by (auto simp: dir_ok_def)
  have del: "deadline_del_rq_rb erase rq d (rq_fifo_clear rq ?q1) = Inr ?q2"
    using n mem by (simp add: deadline_del_rq_rb_def rq_fifo_clear_def fifo elv_rb_del_def)
  from r have "rqs ?q2 rq = Some r" by simp
  from elv_dispatch_add_tail_ok [OF this] obtain m lm h where
    t: "elv_dispatch_add_tail rq ?q2 = Inr (?q2\<lparr>rqs := m, last_merge := lm, nr_sorted := nr_sorted ?q2 - 1,
          rqhash := h, end_sector := rq_end_sector r, boundary_rq := Some rq, queue_head := queue_head ?q2 @ [rq]\<rparr>)"
      "same_requests (rqs ?q2) m" by blast
  let ?q' = "?q2\<lparr>rqs := m, last_merge := lm, nr_sorted := nr_sorted ?q2 - 1,
          rqhash := h, end_sector := rq_end_sector r, boundary_rq := Some rq, queue_head := queue_head ?q2 @ [rq]\<rparr>"
  have e: "deadline_move_request erase rq q = Inr ?q'"
    using r del t(1) by (simp add: deadline_move_request_def deadline_move_to_dispatch_def
        deadline_latter_request_def elv_rb_latter_request_def)
  have same: "same_requests (rqs q) (rqs ?q')" using t(2) by simp
  have p: "pos_of ?q' = pos_of q" by (rule same_requests_pos [OF same])
  have "dir_ok ?q' c" for c
  proof -
    have live: "\<forall>x \<in> set (fifo_list ?q' c). \<exists>r. rqs ?q' x = Some r \<and> rq_dir r = c"
    proof
      fix x assume "x \<in> set (fifo_list ?q' c)"
      then have "x \<in> set (fifo_list q c)" using set_remove1_subset [of rq "fifo_list q d"] by (auto split: if_splits)
      with dok [of c] have "\<exists>r. rqs q x = Some r \<and> rq_dir r = c" by (auto simp: dir_ok_def)
      then show "\<exists>r. rqs ?q' x = Some r \<and> rq_dir r = c" by (rule same_requests_dir [OF same])
    qed
    have nx: "\<forall>x. next_rq ?q' c = Some x \<longrightarrow> x \<in> set (fifo_list ?q' c)"
      using next_in_distinct [of "inorder (sort_list q d)" rq] dok [of d] by (auto simp: dir_ok_def)
    have "sorted (map (pos_of q) (remove1 rq (inorder (sort_list q d))))"
      using dok [of d] by (auto simp: dir_ok_def sorted_map_remove1)
    moreover have "sort_list ?q' = (sort_list q)(d := erase rq (sort_list q d))" "fifo_list ?q' = ?f" by simp_all
    ultimately show ?thesis
      using dok [of c] live nx er [of rq "sort_list q d"] unfolding dir_ok_def p by (cases "c = d") simp_all
  qed
  then show ?thesis using e same by (intro exI [of _ ?q']) simp
qed


section \<open>A dispatch\<close>

text \<open>
  How many more reads can go before a waiting write: the rest of the current batch and the
  whole batches that may still pass it over.
\<close>

definition write_rank :: "'a deadline_data_scheme \<Rightarrow> nat" where
  "write_rank q = 16 * (2 - starved q) + (16 - batching q)"

lemma dispatch_request_ok:
  assumes er: "\<And>x t. inorder (erase x t) = remove1 x (inorder t)"
    and inv: "dir_ok q READ" "dir_ok q WRITE" and rq: "rq \<in> set (fifo_list q d)" and b: "batching q < 16"
  shows "\<exists>q'. dispatch_request erase rq q = Inr (0, q') \<and> dir_ok q' READ \<and> dir_ok q' WRITE \<and>
     fifo_list q' = (fifo_list q)(d := remove1 rq (fifo_list q d)) \<and> queue_head q' = queue_head q @ [rq] \<and>
     same_requests (rqs q) (rqs q') \<and> batching q' = batching q + 1 \<and> starved q' = starved q \<and>
     fifo_batch q' = fifo_batch q \<and> writes_starved q' = writes_starved q"
proof -
  let ?q = "q\<lparr>batching := u32 (batching q + 1)\<rparr>"
  have u: "u32 (batching q + 1) = batching q + 1" using b by (simp add: u32_def)
  have d: "dir_ok ?q READ" "dir_ok ?q WRITE" using inv by simp_all
  have "rq \<in> set (fifo_list ?q d)" using rq by simp
  from deadline_move_ok [OF er d this] u show ?thesis by (fastforce simp: dispatch_request_def)
qed

lemma dispatch_find_ok:
  assumes er: "\<And>x t. inorder (erase x t) = remove1 x (inorder t)"
    and inv: "dir_ok q READ" "dir_ok q WRITE" and ne: "fifo_list q d \<noteq> []"
  shows "\<exists>rq q'. dispatch_find_request erase j d q = Inr (0, q') \<and> dir_ok q' READ \<and> dir_ok q' WRITE \<and>
     rq \<in> set (fifo_list q d) \<and>
     fifo_list q' = (fifo_list q)(d := remove1 rq (fifo_list q d)) \<and> queue_head q' = queue_head q @ [rq] \<and>
     same_requests (rqs q) (rqs q') \<and> batching q' = 1 \<and> starved q' = starved q \<and>
     fifo_batch q' = fifo_batch q \<and> writes_starved q' = writes_starved q"
proof -
  have dok: "dir_ok q e" for e using inv by (cases e) simp_all
  obtain h t where h: "fifo_list q d = h # t" using ne by (cases "fifo_list q d") auto
  with dok [of d] obtain r where r: "rqs q h = Some r" by (auto simp: dir_ok_def)
  let ?q = "q\<lparr>batching := 0\<rparr>"
  have "\<exists>rq \<in> set (fifo_list q d). dispatch_find_request erase j d q = dispatch_request erase rq ?q"
    using dok [of d] h r
    by (cases "next_rq q d") (auto simp: dispatch_find_request_def deadline_check_fifo_def dir_ok_def)
  then obtain rq where rq: "rq \<in> set (fifo_list q d)"
    "dispatch_find_request erase j d q = dispatch_request erase rq ?q" by blast
  have d: "dir_ok ?q READ" "dir_ok ?q WRITE" using inv by simp_all
  have "rq \<in> set (fifo_list ?q d)" "batching ?q < 16" using rq by simp_all
  from dispatch_request_ok [OF er d this] rq show ?thesis by (intro exI [of _ rq]) simp
qed

lemma sort_list_nonempty: "dir_ok q d \<Longrightarrow> fifo_list q d \<noteq> [] \<Longrightarrow> sort_list q d \<noteq> Leaf"
  by (auto simp: dir_ok_def)

definition takes :: "'a deadline_data_scheme \<Rightarrow> nat \<Rightarrow> data_dir \<Rightarrow> 'a deadline_data_scheme \<Rightarrow> bool" where
  "takes q rq d q' \<longleftrightarrow> deadline_inv q' \<and> rq \<in> set (fifo_list q d) \<and>
     fifo_list q' = (fifo_list q)(d := remove1 rq (fifo_list q d)) \<and>
     queue_head q' = queue_head q @ [rq] \<and> same_requests (rqs q) (rqs q') \<and>
     (d = READ \<longrightarrow> fifo_list q WRITE \<noteq> [] \<longrightarrow> write_rank q' < write_rank q)"

lemma dispatch_writes_ok:
  assumes er: "\<And>x t. inorder (erase x t) = remove1 x (inorder t)"
    and inv: "dir_ok q READ" "dir_ok q WRITE" and ne: "fifo_list q WRITE \<noteq> []"
    and set: "fifo_batch q = 16" "writes_starved q = 2"
  shows "\<exists>rq q'. dispatch_writes erase j q = Inr (0, q') \<and> deadline_inv q' \<and> rq \<in> set (fifo_list q WRITE) \<and>
     fifo_list q' = (fifo_list q)(WRITE := remove1 rq (fifo_list q WRITE)) \<and>
     queue_head q' = queue_head q @ [rq] \<and> same_requests (rqs q) (rqs q')"
proof -
  let ?q = "q\<lparr>starved := 0\<rparr>"
  have d: "dir_ok ?q READ" "dir_ok ?q WRITE" using inv by simp_all
  have "fifo_list ?q WRITE \<noteq> []" using ne by simp
  from dispatch_find_ok [OF er d this, of j] sort_list_nonempty [OF inv(2) ne] set show ?thesis
    by (auto simp: dispatch_writes_def deadline_inv_def)
qed

lemma deadline_dispatch_step:
  assumes er: "\<And>x t. inorder (erase x t) = remove1 x (inorder t)"
    and inv: "deadline_inv q" and ne: "fifo_list q READ \<noteq> [] \<or> fifo_list q WRITE \<noteq> []"
  shows "\<exists>q' rq d. deadline_dispatch_requests erase j q = Inr (0, q') \<and> takes q rq d q'"
proof -
  from inv have d: "dir_ok q READ" "dir_ok q WRITE" and set: "fifo_batch q = 16" "writes_starved q = 2"
    and c: "batching q \<le> 16" "starved q \<le> 2" by (simp_all add: deadline_inv_def)
  let ?c = "case next_rq q WRITE of Some x \<Rightarrow> Some x | None \<Rightarrow> next_rq q READ"
  consider x where "?c = Some x" "batching q < 16"
    | "?c = None \<or> batching q = 16" "fifo_list q READ = []" "fifo_list q WRITE \<noteq> []"
    | "?c = None \<or> batching q = 16" "fifo_list q READ \<noteq> []" "fifo_list q WRITE \<noteq> []" "starved q = 2"
    | "?c = None \<or> batching q = 16" "fifo_list q READ \<noteq> []" "fifo_list q WRITE \<noteq> [] \<longrightarrow> starved q < 2"
    using ne c by fastforce
  then show ?thesis
  proof cases
    case (1 x)
    then obtain e where x: "x \<in> set (fifo_list q e)"
      using d by (auto simp: dir_ok_def split: option.splits)
    from dispatch_request_ok [OF er d x] 1(2) obtain q' where
      q': "dispatch_request erase x q = Inr (0, q')" "dir_ok q' READ" "dir_ok q' WRITE"
        "fifo_list q' = (fifo_list q)(e := remove1 x (fifo_list q e))" "queue_head q' = queue_head q @ [x]"
        "same_requests (rqs q) (rqs q')" "batching q' = batching q + 1" "starved q' = starved q"
        "fifo_batch q' = fifo_batch q" "writes_starved q' = writes_starved q" by auto
    have "deadline_dispatch_requests erase j q = Inr (0, q')"
      using 1 set q'(1) by (simp add: deadline_dispatch_requests_def Let_def)
    moreover have "16 - batching q' < 16 - batching q" using q'(7) 1(2) by linarith
    then have "write_rank q' < write_rank q" using q'(8) by (simp only: write_rank_def add_less_cancel_left)
    ultimately show ?thesis using q' x set c 1(2)
      by (intro exI [of _ q'] exI [of _ x] exI [of _ e]) (simp add: takes_def deadline_inv_def)
  next
    case 2
    from dispatch_writes_ok [OF er d 2(3) set, of j] obtain rq q' where
      q': "dispatch_writes erase j q = Inr (0, q')" "deadline_inv q'" "rq \<in> set (fifo_list q WRITE)"
        "fifo_list q' = (fifo_list q)(WRITE := remove1 rq (fifo_list q WRITE))"
        "queue_head q' = queue_head q @ [rq]" "same_requests (rqs q) (rqs q')" by blast
    have "deadline_dispatch_requests erase j q = Inr (0, q')"
      using 2 set q'(1) by (auto simp: deadline_dispatch_requests_def Let_def)
    then show ?thesis using q' by (intro exI [of _ q'] exI [of _ rq] exI [of _ WRITE]) (simp add: takes_def)
  next
    case 3
    let ?q = "q\<lparr>starved := u32 (starved q + 1)\<rparr>"
    have d': "dir_ok ?q READ" "dir_ok ?q WRITE" using d by simp_all
    have "fifo_list ?q WRITE \<noteq> []" "fifo_batch ?q = 16" "writes_starved ?q = 2" using 3 set by simp_all
    from dispatch_writes_ok [OF er d' this, of j] obtain rq q' where
      q': "dispatch_writes erase j ?q = Inr (0, q')" "deadline_inv q'" "rq \<in> set (fifo_list q WRITE)"
        "fifo_list q' = (fifo_list q)(WRITE := remove1 rq (fifo_list q WRITE))"
        "queue_head q' = queue_head q @ [rq]" "same_requests (rqs q) (rqs q')" by auto
    have "deadline_dispatch_requests erase j q = Inr (0, q')"
      using 3 set q'(1) sort_list_nonempty [OF d(1) 3(2)]
      by (auto simp: deadline_dispatch_requests_def Let_def)
    then show ?thesis using q' by (intro exI [of _ q'] exI [of _ rq] exI [of _ WRITE]) (simp add: takes_def)
  next
    case 4
    let ?q = "if fifo_list q WRITE \<noteq> [] then q\<lparr>starved := u32 (starved q + 1)\<rparr> else q"
    have d': "dir_ok ?q READ" "dir_ok ?q WRITE" using d by simp_all
    have "fifo_list ?q READ \<noteq> []" using 4 by simp
    from dispatch_find_ok [OF er d' this, of j] obtain rq q' where
      q': "dispatch_find_request erase j READ ?q = Inr (0, q')" "dir_ok q' READ" "dir_ok q' WRITE"
        "rq \<in> set (fifo_list q READ)" "fifo_list q' = (fifo_list q)(READ := remove1 rq (fifo_list q READ))"
        "queue_head q' = queue_head q @ [rq]" "same_requests (rqs q) (rqs q')" "batching q' = 1"
        "starved q' = starved ?q" "fifo_batch q' = fifo_batch q" "writes_starved q' = writes_starved q"
      by (auto split: if_splits)
    have s: "starved q' = (if fifo_list q WRITE \<noteq> [] then starved q + 1 else starved q)"
      using q'(9) c by (simp add: u32_def)
    have "deadline_dispatch_requests erase j q = Inr (0, q')"
      using 4 set q'(1) sort_list_nonempty [OF d(1) 4(2)]
      by (auto simp: deadline_dispatch_requests_def Let_def split: if_splits)
    then show ?thesis using q' set c s 4
      by (intro exI [of _ q'] exI [of _ rq] exI [of _ READ]) (auto simp: takes_def deadline_inv_def write_rank_def)
  qed
qed


section \<open>Adding\<close>

lemma deadline_add_ok:
  assumes co: "\<And>t. inorder (color t) = inorder t"
    and inv: "deadline_inv q" and r: "rqs q rq = Some r" and new: "\<And>d. rq \<notin> set (fifo_list q d)"
  shows "\<exists>q'. deadline_add_request color j rq q = Inr q' \<and> deadline_inv q' \<and>
     fifo_list q' = (fifo_list q)(rq_dir r := fifo_list q (rq_dir r) @ [rq]) \<and> queue_head q' = queue_head q \<and>
     write_rank q' = write_rank q \<and> (\<forall>x. (\<exists>r. rqs q x = Some r \<and> rq_dir r = d) \<longrightarrow> (\<exists>r. rqs q' x = Some r \<and> rq_dir r = d))"
proof -
  let ?d = "rq_dir r"
  let ?t = "elv_rb_add color (pos_of q) rq (sort_list q ?d)"
  let ?q' = "q\<lparr>sort_list := (sort_list q)(?d := ?t),
    rqs := (rqs q)(rq \<mapsto> r\<lparr>fifo_time := nat ((int j + fifo_expire q ?d) mod 2 ^ 64)\<rparr>),
    fifo_list := (fifo_list q)(?d := fifo_list q ?d @ [rq])\<rparr>"
  have e: "deadline_add_request color j rq q = Inr ?q'"
    using r by (simp add: deadline_add_request_def deadline_add_rq_rb_def Let_def)
  have p: "pos_of ?q' = pos_of q" using r by (simp add: pos_of_def fun_eq_iff)
  have i: "inorder ?t = inorder (rb_link (pos_of q) rq (sort_list q ?d))" by (simp add: elv_rb_add_def co)
  have dd: "dir_ok q ?d" by (rule deadline_inv_dir [OF inv])
  then have nt: "rq \<notin> set (inorder (sort_list q ?d))" using new by (simp add: dir_ok_def del: set_inorder)
  have t: "distinct (inorder ?t)" "sorted (map (pos_of q) (inorder ?t))"
    "set (inorder ?t) = insert rq (set (inorder (sort_list q ?d)))"
    unfolding i using dd rb_link_distinct [OF _ nt] rb_link_sorted set_inorder_link
    by (auto simp: dir_ok_def simp del: set_inorder)
  have "dir_ok ?q' c" for c
  proof -
    have live: "\<forall>x \<in> set (fifo_list ?q' c). \<exists>r. rqs ?q' x = Some r \<and> rq_dir r = c"
      using deadline_inv_dir [OF inv, of c] r by (auto simp: dir_ok_def)
    have "\<forall>x. next_rq ?q' c = Some x \<longrightarrow> x \<in> set (fifo_list ?q' c)"
      using deadline_inv_dir [OF inv, of c] by (auto simp: dir_ok_def)
    moreover have "sort_list ?q' = (sort_list q)(?d := ?t)"
      "fifo_list ?q' = (fifo_list q)(?d := fifo_list q ?d @ [rq])" by simp_all
    ultimately show ?thesis
      using deadline_inv_dir [OF inv, of c] live t new unfolding dir_ok_def p
      by (cases "c = ?d") (simp_all del: set_inorder)
  qed
  with inv e r show ?thesis
    by (intro exI [of _ ?q']) (auto simp: deadline_inv_def write_rank_def)
qed

section \<open>Runs\<close>

text \<open>
  \<open>deadline_run erase color q n q'\<close>: from \<open>q\<close>, requests being added at any time, \<open>n\<close>
  dispatches of a scheduler that holds something lead to \<open>q'\<close>.
\<close>

inductive deadline_run ::
  "(nat \<Rightarrow> nat tree \<Rightarrow> nat tree) \<Rightarrow> (nat tree \<Rightarrow> nat tree) \<Rightarrow> 'a deadline_data_scheme \<Rightarrow> nat \<Rightarrow>
   'a deadline_data_scheme \<Rightarrow> bool" for erase color q where
  run_start: "deadline_run erase color q 0 q"
| run_add: "deadline_run erase color q n q1 \<Longrightarrow> rqs q1 rq = Some r \<Longrightarrow> (\<And>d. rq \<notin> set (fifo_list q1 d)) \<Longrightarrow>
    deadline_add_request color j rq q1 = Inr q' \<Longrightarrow> deadline_run erase color q n q'"
| run_dispatch: "deadline_run erase color q n q1 \<Longrightarrow> fifo_list q1 READ \<noteq> [] \<or> fifo_list q1 WRITE \<noteq> [] \<Longrightarrow>
    deadline_dispatch_requests erase j q1 = Inr (c, q') \<Longrightarrow> deadline_run erase color q (Suc n) q'"

text \<open>A write has gone to the dispatch list in between.\<close>

definition wrote :: "'a deadline_data_scheme \<Rightarrow> 'a deadline_data_scheme \<Rightarrow> bool" where
  "wrote q q' \<longleftrightarrow> (\<exists>rq. rq \<in> set (drop (length (queue_head q)) (queue_head q')) \<and>
     (\<exists>r. rqs q' rq = Some r \<and> rq_dir r = WRITE))"

lemma deadline_run_bound:
  assumes run: "deadline_run erase color q n q'"
    and er: "\<And>x t. inorder (erase x t) = remove1 x (inorder t)" and co: "\<And>t. inorder (color t) = inorder t"
    and inv: "deadline_inv q" and w: "fifo_list q WRITE \<noteq> []"
  shows "deadline_inv q' \<and> length (queue_head q) \<le> length (queue_head q') \<and>
     (wrote q q' \<or> fifo_list q' WRITE \<noteq> [] \<and> write_rank q' + n \<le> write_rank q)"
  using run
proof induction
  case run_start
  then show ?case using inv w by simp
next
  case (run_add n q1 rq r j q')
  then have i1: "deadline_inv q1" by blast
  from deadline_add_ok [OF co i1 run_add(2,3), of j WRITE] run_add(4) have
    a: "deadline_inv q'" "fifo_list q' = (fifo_list q1)(rq_dir r := fifo_list q1 (rq_dir r) @ [rq])"
      "queue_head q' = queue_head q1" "write_rank q' = write_rank q1"
      "\<forall>x. (\<exists>r. rqs q1 x = Some r \<and> rq_dir r = WRITE) \<longrightarrow> (\<exists>r. rqs q' x = Some r \<and> rq_dir r = WRITE)" by auto
  have "wrote q q'" if "wrote q q1" using that a(3,5) unfolding wrote_def by metis
  then show ?case using run_add a by auto
next
  case (run_dispatch n q1 j c q')
  then have i1: "deadline_inv q1" by blast
  from deadline_dispatch_step [OF er i1 run_dispatch(2), of j] run_dispatch(3) obtain rq d where
    t: "takes q1 rq d q'" by auto
  then have len: "queue_head q' = queue_head q1 @ [rq]" and same: "same_requests (rqs q1) (rqs q')"
    and mem: "rq \<in> set (fifo_list q1 d)" by (auto simp: takes_def)
  from run_dispatch have l1: "length (queue_head q) \<le> length (queue_head q1)" by blast
  have keep: "wrote q q'" if "wrote q q1"
    using that len same_requests_dir [OF same] l1 unfolding wrote_def by fastforce
  have "wrote q q'" if "d = WRITE"
  proof -
    have "\<exists>r. rqs q1 rq = Some r \<and> rq_dir r = WRITE"
      using deadline_inv_dir [OF i1, of d] mem that by (auto simp: dir_ok_def)
    from same_requests_dir [OF same this] len l1 show ?thesis by (auto simp: wrote_def)
  qed
  moreover have "fifo_list q' WRITE \<noteq> [] \<and> write_rank q' + Suc n \<le> write_rank q"
    if "d = READ" "fifo_list q1 WRITE \<noteq> []" "write_rank q1 + n \<le> write_rank q"
    using t that by (auto simp: takes_def)
  moreover have "deadline_inv q'" using t by (simp add: takes_def)
  ultimately show ?case using run_dispatch.IH keep l1 len by (cases d) auto
qed

section \<open>Properties\<close>

fun chain :: "nat list \<Rightarrow> nat tree" where
  "chain [] = Leaf"
| "chain (x # xs) = Node Leaf x (chain xs)"

definition chain_erase :: "nat \<Rightarrow> nat tree \<Rightarrow> nat tree" where
  "chain_erase x t = chain (remove1 x (inorder t))"

lemma inorder_chain [simp]: "inorder (chain xs) = xs"
  by (induction xs) auto

lemma chain_erase_inorder: "inorder (chain_erase x t) = remove1 x (inorder t)"
  by (simp add: chain_erase_def)

text \<open>Reads 1 and 2 and write 3, nothing dispatched yet.\<close>

definition deadline_example :: "deadline_data" where
  "deadline_example = \<lparr>
     rqs = (\<lambda>i. Some ((plain_request (10 * i))\<lparr>rq_dir := if i = 3 then WRITE else READ\<rparr>)),
     queue_head = [], last_merge = None, end_sector = 0, boundary_rq = None, nr_sorted = 3,
     in_flight = (\<lambda>_. 0), nr_pending = 0, rqhash = (\<lambda>_. []), nomerges = False, noxmerges = False,
     run_count = 0,
     sort_list = (\<lambda>d. case d of READ \<Rightarrow> chain [1, 2] | WRITE \<Rightarrow> chain [3]),
     fifo_list = (\<lambda>d. case d of READ \<Rightarrow> [2, 1] | WRITE \<Rightarrow> [3]), next_rq = (\<lambda>_. None), batching = 0,
     starved = 0, fifo_expire = (\<lambda>_. 50), fifo_batch = 16, writes_starved = 2, front_merges = 0\<rparr>"

lemma deadline_example_inv: "deadline_inv deadline_example"
  by (auto simp: deadline_inv_def dir_ok_def deadline_example_def plain_request_def pos_of_def)

lemma deadline_example_fields [simp]:
  "fifo_list deadline_example READ = [2, 1]" "fifo_list deadline_example WRITE = [3]"
  "queue_head deadline_example = []" "write_rank deadline_example = 48"
  by (simp_all add: deadline_example_def write_rank_def)

text \<open>C28: A dispatch of the deadline experiment with anything waiting takes exactly one request, off its FIFO
  and out of its tree, to the tail of the dispatch list and keeps the two structures in agreement; but
  it returns 0, so the caller, which loops while dispatches report work, takes it for idle.\<close>

theorem deadline_dispatch_takes_one:
  assumes "\<And>x t. inorder (erase x t) = remove1 x (inorder t)" "deadline_inv q"
    and "fifo_list q READ \<noteq> [] \<or> fifo_list q WRITE \<noteq> []"
  shows "\<exists>q' rq d. deadline_dispatch_requests erase j q = Inr (0, q') \<and> deadline_inv q' \<and>
     rq \<in> set (fifo_list q d) \<and> fifo_list q' = (fifo_list q)(d := remove1 rq (fifo_list q d)) \<and>
     queue_head q' = queue_head q @ [rq] \<and>
     drain_loop (\<lambda>q. Some (deadline_dispatch_requests erase j q)) q = Some (Inr q')"
proof -
  from deadline_dispatch_step [OF assms, of j] obtain q' rq d where
    d: "deadline_dispatch_requests erase j q = Inr (0, q')" "takes q rq d q'" by blast
  then have "drain_loop (\<lambda>q. Some (deadline_dispatch_requests erase j q)) q = Some (Inr q')"
    by (subst drain_loop.simps) simp
  with d show ?thesis by (auto simp: takes_def)
qed

theorem deadline_dispatch_takes_one_witness:
  "\<exists>q' rq. deadline_dispatch_requests chain_erase 7 deadline_example = Inr (0, q') \<and> queue_head q' = [rq]"
proof -
  have "fifo_list deadline_example READ \<noteq> [] \<or> fifo_list deadline_example WRITE \<noteq> []" by simp
  from deadline_dispatch_takes_one [OF chain_erase_inorder deadline_example_inv this, of 7]
  show ?thesis by auto
qed

text \<open>C27: Writes are not starved for ever: however many reads keep arriving, among any 49 dispatches in a row
  that start with a write waiting at least one takes a write.\<close>

theorem deadline_write_bound:
  assumes "\<And>x t. inorder (erase x t) = remove1 x (inorder t)" "\<And>t. inorder (color t) = inorder t"
    and "deadline_inv q" "fifo_list q WRITE \<noteq> []" "deadline_run erase color q n q'" "49 \<le> n"
  shows "wrote q q'"
proof -
  have "write_rank q \<le> 48" by (simp add: write_rank_def)
  with deadline_run_bound [OF assms(5,1-4)] assms(6) show ?thesis by auto
qed

text \<open>Runs of any length, for which a request is added before every dispatch.\<close>

lemma deadline_run_exists:
  assumes er: "\<And>x t. inorder (erase x t) = remove1 x (inorder t)" and co: "\<And>t. inorder (color t) = inorder t"
    and inv: "deadline_inv q" and all: "\<And>x. rqs q x \<noteq> None"
  shows "\<exists>q'. deadline_run erase color q n q' \<and> deadline_inv q' \<and> (\<forall>x. rqs q' x \<noteq> None)"
proof (induction n)
  case 0
  then show ?case using inv all by (blast intro: run_start)
next
  case (Suc n)
  then obtain q1 where q1: "deadline_run erase color q n q1" "deadline_inv q1" "\<forall>x. rqs q1 x \<noteq> None" by blast
  have "finite (set (fifo_list q1 READ) \<union> set (fifo_list q1 WRITE))" by simp
  then obtain rq where "rq \<notin> set (fifo_list q1 READ) \<union> set (fifo_list q1 WRITE)"
    using ex_new_if_finite infinite_UNIV_nat by blast
  then have new: "rq \<notin> set (fifo_list q1 d)" for d by (cases d) auto
  obtain r where r: "rqs q1 rq = Some r" using q1(3) by blast
  have "\<exists>q2. deadline_add_request color 0 rq q1 = Inr q2 \<and> deadline_inv q2 \<and>
      fifo_list q2 (rq_dir r) \<noteq> [] \<and> (\<forall>x. rqs q2 x \<noteq> None)"
    using deadline_add_ok [OF co q1(2) r new, of 0 READ] deadline_add_ok [OF co q1(2) r new, of 0 WRITE] q1(3)
    by auto (metis data_dir.exhaust option.exhaust_sel option.discI)
  then obtain q2 where q2: "deadline_add_request color 0 rq q1 = Inr q2" "deadline_inv q2"
    "fifo_list q2 (rq_dir r) \<noteq> []" "\<forall>x. rqs q2 x \<noteq> None" by blast
  then have ne: "fifo_list q2 READ \<noteq> [] \<or> fifo_list q2 WRITE \<noteq> []" by (cases "rq_dir r") auto
  from deadline_dispatch_step [OF er q2(2) this, of 0] obtain q3 x d where
    q3: "deadline_dispatch_requests erase 0 q2 = Inr (0, q3)" "takes q2 x d q3" by blast
  have "deadline_run erase color q (Suc n) q3"
    using run_dispatch [OF run_add [OF q1(1) r new q2(1)] ne q3(1)] .
  moreover have "\<forall>x. rqs q3 x \<noteq> None"
    using q2(4) q3(2) same_requests_dom [of "rqs q2" "rqs q3"] by (auto simp: takes_def)
  ultimately show ?case using q3(2) by (auto simp: takes_def)
qed

theorem deadline_write_bound_witness:
  "\<exists>q'. deadline_run chain_erase id deadline_example 49 q' \<and> wrote deadline_example q'"
proof -
  have w: "fifo_list deadline_example WRITE \<noteq> []" by simp
  have "\<exists>q'. deadline_run chain_erase id deadline_example 49 q' \<and> deadline_inv q' \<and> (\<forall>x. rqs q' x \<noteq> None)"
    by (rule deadline_run_exists [OF chain_erase_inorder _ deadline_example_inv])
      (simp_all add: deadline_example_def)
  then obtain q' where "deadline_run chain_erase id deadline_example 49 q'" by blast
  moreover from deadline_write_bound [OF chain_erase_inorder _ deadline_example_inv w this]
  have "wrote deadline_example q'" by simp
  ultimately show ?thesis by blast
qed

text \<open>With nothing waiting a dispatch falls through to code that indexes the FIFOs with a variable nobody
  has set.\<close>

theorem deadline_empty_uninit:
  assumes "deadline_inv q" "fifo_list q READ = []" "fifo_list q WRITE = []"
  shows "deadline_dispatch_requests erase j q = Inl Uninit"
proof -
  have "next_rq q d = None" for d
    using deadline_inv_dir [OF assms(1), of d] assms(2,3) by (cases d; cases "next_rq q d") (auto simp: dir_ok_def)
  then show ?thesis using assms(2,3) by (simp add: deadline_dispatch_requests_def Let_def)
qed

theorem deadline_empty_uninit_witness:
  "deadline_dispatch_requests chain_erase 0 (result_queue (deadline_init_queue 100 True True deadline_example)) = Inl Uninit"
  by (rule deadline_empty_uninit) (simp_all add: deadline_inv_def dir_ok_def deadline_init_queue_def
      fifo_batch_default_def writes_starved_default_def)

end
