(* ===== verification/Sfq_Base.thy ===== *)
theory Sfq_Base
  imports ElvSched HeapStore
begin

text \<open>
  What the start-time fair queueing schedulers of the beta and theta generations and the
  released \<open>launch_sfq.c\<close> share: the per-request and per-process structures, the scheduler
  data, tagging (\<open>sfq_add_request\<close>), set-up and release of a request, and the two deferred
  callbacks.  Each generation extends the record and has its own dispatch.
\<close>

section \<open>State\<close>

definition REQUEST_LENGTH :: int where "REQUEST_LENGTH = 100"

definition REQUEST_WEIGHT :: int where "REQUEST_WEIGHT = 1"

definition REQUEST_DEPTH :: int where "REQUEST_DEPTH = 64"

record sfq_request =
  start_tag :: int
  finish_tag :: int
  sr_rq :: "nat option"

record sfq_queue =
  pid :: int
  sq_list :: "nat list"

text \<open>
  \<open>queue\<close> is the list of per-process queues; \<open>os_sfqq\<close> is NULL or a position in that ring.
  \<open>sfqrs\<close> and \<open>sfqqs\<close> are the allocated structs, \<open>timer_on\<close> and \<open>unplug_pending\<close> the armed
  timer and the scheduled work.
\<close>

record sfq_base = request_queue +
  virtual_time :: int
  depth :: int
  requests :: "nat option list"
  prev_sfqr :: "nat option"
  os_sfqq :: "nat lnode option"
  queue :: "nat list"
  sfqq_size :: int
  sfqr_size :: int
  heap_size :: nat
  heap_limit_size :: nat
  timer_on :: bool
  unplug_pending :: bool
  sfqrs :: "nat \<rightharpoonup> sfq_request"
  sfqqs :: "nat \<rightharpoonup> sfq_queue"

section \<open>Callbacks\<close>

definition kblockd_schedule_work :: "'a sfq_base_scheme \<Rightarrow> 'a sfq_base_scheme" where
  "kblockd_schedule_work q = q\<lparr>unplug_pending := True\<rparr>"

text \<open>The work function runs after its pending mark is cleared.\<close>

definition sfq_kick_queue :: "'a sfq_base_scheme \<Rightarrow> 'a sfq_base_scheme" where
  "sfq_kick_queue q = blk_run_queue (q\<lparr>unplug_pending := False\<rparr>)"

definition sfq_idle_slice_timer :: "'a sfq_base_scheme \<Rightarrow> 'a sfq_base_scheme" where
  "sfq_idle_slice_timer q =
     (let q = q\<lparr>timer_on := False\<rparr> in
      if sfqr_size q \<noteq> 0 then kblockd_schedule_work q else q)"

section \<open>The request heap\<close>

definition sfq_heapify :: "nat \<Rightarrow> 'a sfq_base_scheme \<Rightarrow> 'a sfq_base_scheme res" where
  "sfq_heapify i q =
     bindE (heapify_at start_tag (requests q) (heap_size q) (sfqrs q) i) (\<lambda>m.
       Inr (q\<lparr>sfqrs := m\<rparr>))"

section \<open>Preparing a request\<close>

text \<open>The search for the queue of the current process.\<close>

fun find_sfqq :: "(nat \<rightharpoonup> sfq_queue) \<Rightarrow> int \<Rightarrow> nat list \<Rightarrow> nat option res" where
  "find_sfqq m cur [] = Inr None"
| "find_sfqq m cur (a # as) =
     bindE (deref m a) (\<lambda>sfqq. if pid sfqq = cur then Inr (Some a) else find_sfqq m cur as)"

text \<open>
  Growing the heap array: one slot for the first process, then \<open>krealloc\<close> to
  \<open>heap_limit_size + extra\<close>.  A failed allocation leaves an array without slots.
\<close>

definition grow_requests :: "nat \<Rightarrow> bool \<Rightarrow> 'a sfq_base_scheme \<Rightarrow> 'a sfq_base_scheme" where
  "grow_requests extra ok q =
     (if heap_limit_size q = 0
      then q\<lparr>requests := (if ok then [None] else []), heap_limit_size := heap_limit_size q + 1\<rparr>
      else q\<lparr>requests := (if ok then arealloc (requests q) (heap_limit_size q + extra) else []),
             heap_limit_size := heap_limit_size q + 1\<rparr>)"

text \<open>
  The outcomes of the allocations are arguments: \<open>grown\<close> for the array, \<open>qmem\<close> for the new
  queue and \<open>rmem\<close> for the new request struct (\<open>None\<close> is NULL).
\<close>

definition new_sfq_queue ::
  "nat \<Rightarrow> int \<Rightarrow> bool \<Rightarrow> nat option \<Rightarrow> nat \<Rightarrow> 'a sfq_base_scheme \<Rightarrow> 'a sfq_base_scheme res" where
  "new_sfq_queue extra cur grown qmem rq q0 =
     (let q = grow_requests extra grown q0 in
      case qmem of
        None \<Rightarrow> Inl NullDeref
      | Some a \<Rightarrow>
          bindE (upd_rq rq (\<lambda>r. r\<lparr>priv0 := Some a\<rparr>)
            (q\<lparr>sfqqs := (sfqqs q)(a \<mapsto> \<lparr>pid = cur, sq_list = []\<rparr>), sfqq_size := sfqq_size q + 1\<rparr>))
          (\<lambda>q. Inr (q\<lparr>queue := queue q @ [a]\<rparr>)))"

definition alloc_sfq_request ::
  "nat option \<Rightarrow> nat \<Rightarrow> 'a sfq_base_scheme \<Rightarrow> 'a sfq_base_scheme res" where
  "alloc_sfq_request rmem rq q =
     upd_rq rq (\<lambda>r. r\<lparr>priv1 := rmem\<rparr>)
       (case rmem of
          None \<Rightarrow> q
        | Some a \<Rightarrow> q\<lparr>sfqrs := (sfqrs q)(a \<mapsto> \<lparr>start_tag = 0, finish_tag = 0, sr_rq = None\<rparr>)\<rparr>)"

definition set_request_with ::
  "nat \<Rightarrow> int \<Rightarrow> bool \<Rightarrow> nat option \<Rightarrow> nat option \<Rightarrow> nat \<Rightarrow> 'a sfq_base_scheme \<Rightarrow>
   'a sfq_base_scheme res" where
  "set_request_with extra cur grown qmem rmem rq q =
     bindE (find_sfqq (sfqqs q) cur (queue q)) (\<lambda>found.
     bindE (case found of
              Some a \<Rightarrow> upd_rq rq (\<lambda>r. r\<lparr>priv0 := Some a\<rparr>) q
            | None \<Rightarrow> new_sfq_queue extra cur grown qmem rq q) (\<lambda>q.
       alloc_sfq_request rmem rq q))"

section \<open>Tagging and queueing a request\<close>

text \<open>
  \<open>start_tag = max(virtual_time, finish tag of the request added before)\<close>, whatever process
  either belongs to.
\<close>

definition next_start_tag :: "'a sfq_base_scheme \<Rightarrow> int res" where
  "next_start_tag q =
     (case prev_sfqr q of
        None \<Rightarrow> Inr (virtual_time q)
      | Some p \<Rightarrow> bindE (deref (sfqrs q) p) (\<lambda>prev.
          Inr (if virtual_time q < finish_tag prev then finish_tag prev else virtual_time q)))"

definition sfq_add_request :: "nat \<Rightarrow> 'a sfq_base_scheme \<Rightarrow> 'a sfq_base_scheme res" where
  "sfq_add_request rq q =
     bindE (deref (rqs q) rq) (\<lambda>r.
     bindE (next_start_tag q) (\<lambda>start.
     bindE (deref_ptr (sfqrs q) (priv1 r)) (\<lambda>sfqr.
     let a = the (priv1 r);
         sfqr = sfqr\<lparr>start_tag := start,
                     finish_tag := s32 (start + REQUEST_LENGTH div REQUEST_WEIGHT),
                     sr_rq := Some rq\<rparr>;
         q = q\<lparr>sfqrs := (sfqrs q)(a \<mapsto> sfqr), virtual_time := start, prev_sfqr := Some a\<rparr> in
     bindE (deref_ptr (sfqqs q) (priv0 r)) (\<lambda>sfqq.
       Inr (q\<lparr>sfqqs := (sfqqs q)(the (priv0 r) \<mapsto> sfqq\<lparr>sq_list := sq_list sfqq @ [a]\<rparr>),
              sfqr_size := sfqr_size q + 1\<rparr>)))))"

definition sfq_put_request :: "nat \<Rightarrow> 'a sfq_base_scheme \<Rightarrow> 'a sfq_base_scheme res" where
  "sfq_put_request rq q =
     bindE (deref (rqs q) rq) (\<lambda>r.
       case priv1 r of
         None \<Rightarrow> Inr q
       | Some a \<Rightarrow> bindE (deref (sfqrs q) a) (\<lambda>_. Inr (q\<lparr>sfqrs := (sfqrs q)(a := None)\<rparr>)))"

text \<open>Removing the first request of a process's queue (\<open>list_del_init\<close> of its node).\<close>

definition pop_sfqq :: "nat \<Rightarrow> 'a sfq_base_scheme \<Rightarrow> 'a sfq_base_scheme res" where
  "pop_sfqq a q =
     bindE (deref (sfqqs q) a) (\<lambda>sfqq.
       Inr (q\<lparr>sfqqs := (sfqqs q)(a \<mapsto> sfqq\<lparr>sq_list := tl (sq_list sfqq)\<rparr>)\<rparr>))"

text \<open>
  The cursor \<open>os_sfqq\<close> used as a queue.  \<open>list_empty(&os_sfqq->queue)\<close> compares a word with an
  address: at the list head that word is made of counters of the scheduler data and is not
  that address.  Following it, as taking the first request does, is a fault there.
\<close>

definition os_queue_empty :: "'a sfq_base_scheme \<Rightarrow> bool res" where
  "os_queue_empty q =
     (case os_sfqq q of
        None \<Rightarrow> Inl NullDeref
      | Some LHead \<Rightarrow> Inr False
      | Some (LEntry a) \<Rightarrow> bindE (deref (sfqqs q) a) (\<lambda>sfqq. Inr (sq_list sfqq = [])))"

definition os_queue :: "'a sfq_base_scheme \<Rightarrow> (nat \<times> sfq_queue) res" where
  "os_queue q =
     (case os_sfqq q of
        None \<Rightarrow> Inl NullDeref
      | Some LHead \<Rightarrow> Inl ListHeadDeref
      | Some (LEntry a) \<Rightarrow> bindE (deref (sfqqs q) a) (\<lambda>sfqq. Inr (a, sfqq)))"

end
