(* ===== verification/Sfq_Inv.thy ===== *)
theory Sfq_Inv
  imports Sfq_Base
begin

text \<open>
  The consistency of the SFQ state shared by every generation, what the backlog of waiting
  requests is, and that each shared operation keeps the former and changes the latter as
  it should.
\<close>

section \<open>Well-formed states\<close>

text \<open>The waiting structs, queue by queue, and the block requests they stand for.\<close>

definition backlog :: "'a sfq_base_scheme \<Rightarrow> nat list" where
  "backlog q = concat (map (\<lambda>a. sq_list (the (sfqqs q a))) (queue q))"

definition rq_of :: "'a sfq_base_scheme \<Rightarrow> nat \<Rightarrow> nat" where
  "rq_of q s = the (sr_rq (the (sfqrs q s)))"

definition sfq_pending :: "'a sfq_base_scheme \<Rightarrow> nat multiset" where
  "sfq_pending q = mset (map (rq_of q) (backlog q))"

definition live_sfqr :: "'a sfq_base_scheme \<Rightarrow> nat \<Rightarrow> bool" where
  "live_sfqr q s \<longleftrightarrow>
     (case sfqrs q s of
        None \<Rightarrow> False
      | Some sr \<Rightarrow> (case sr_rq sr of None \<Rightarrow> False | Some rq \<Rightarrow> rqs q rq \<noteq> None))"

definition pids :: "'a sfq_base_scheme \<Rightarrow> int list" where
  "pids q = map (\<lambda>a. pid (the (sfqqs q a))) (queue q)"

definition sfq_wf :: "'a sfq_base_scheme \<Rightarrow> bool" where
  "sfq_wf q \<longleftrightarrow> set (queue q) \<subseteq> dom (sfqqs q) \<and> distinct (pids q) \<and>
     sfqq_size q = int (length (queue q)) \<and>
     (\<forall>s \<in> set (backlog q). live_sfqr q s) \<and> set (queue_head q) \<subseteq> dom (rqs q)"

lemma sfq_wf_distinct: "sfq_wf q \<Longrightarrow> distinct (queue q)"
  unfolding sfq_wf_def pids_def by (simp add: distinct_map)

lemma sfq_wf_queue: "sfq_wf q \<Longrightarrow> a \<in> set (queue q) \<Longrightarrow> \<exists>sq. sfqqs q a = Some sq"
  by (auto simp: sfq_wf_def)

lemma in_backlog: "s \<in> set (backlog q) \<longleftrightarrow> (\<exists>a \<in> set (queue q). s \<in> set (sq_list (the (sfqqs q a))))"
  by (simp add: backlog_def)

lemma sfq_wf_live:
  "sfq_wf q \<Longrightarrow> s \<in> set (backlog q) \<Longrightarrow>
   \<exists>sr rq r. sfqrs q s = Some sr \<and> sr_rq sr = Some rq \<and> rqs q rq = Some r"
  by (fastforce simp: sfq_wf_def live_sfqr_def split: option.splits)

lemma live_sfqr_iff:
  "live_sfqr q s \<longleftrightarrow> (\<exists>sr rq. sfqrs q s = Some sr \<and> sr_rq sr = Some rq \<and> rqs q rq \<noteq> None)"
  by (simp add: live_sfqr_def split: option.splits)

lemma live_sfqr_cong:
  "sfqrs q' = sfqrs q \<Longrightarrow> dom (rqs q') = dom (rqs q) \<Longrightarrow> live_sfqr q' = live_sfqr q"
  by (auto simp: live_sfqr_def fun_eq_iff domIff set_eq_iff split: option.splits)

lemma sfq_wf_cong:
  assumes "sfq_wf q" "queue q' = queue q" "sfqqs q' = sfqqs q" "sfqrs q' = sfqrs q"
    "sfqq_size q' = sfqq_size q" "dom (rqs q') = dom (rqs q)" "queue_head q' = queue_head q"
  shows "sfq_wf q' \<and> sfq_pending q' = sfq_pending q"
proof -
  have "live_sfqr q' = live_sfqr q" by (rule live_sfqr_cong) (use assms in auto)
  moreover have "backlog q' = backlog q" "pids q' = pids q" "rq_of q' = rq_of q"
    using assms by (auto simp: backlog_def pids_def rq_of_def fun_eq_iff)
  ultimately show ?thesis using assms by (simp add: sfq_wf_def sfq_pending_def)
qed

lemmas sfq_wf_same = sfq_wf_cong [THEN conjunct1] and sfq_pending_same = sfq_wf_cong [THEN conjunct2]

section \<open>Taking a request out\<close>

lemma mset_concat_change:
  "distinct xs \<Longrightarrow> a \<in> set xs \<Longrightarrow> mset (f a) = add_mset s (mset (g a)) \<Longrightarrow>
   (\<And>b. b \<noteq> a \<Longrightarrow> f b = g b) \<Longrightarrow>
   mset (concat (map f xs)) = add_mset s (mset (concat (map g xs)))"
proof (induction xs)
  case Nil
  then show ?case by simp
next
  case (Cons x xs)
  show ?case
  proof (cases "x = a")
    case True
    have "f y = g y" if "y \<in> set xs" for y
      using that True Cons.prems(1,4) by (cases "y = a") auto
    then have "concat (map f xs) = concat (map g xs)" by (metis map_eq_conv)
    with True Cons.prems(3) show ?thesis by simp
  next
    case False
    with Cons show ?thesis by auto
  qed
qed

lemma pids_upd:
  "sfqqs q a = Some sq \<Longrightarrow> pid sq' = pid sq \<Longrightarrow>
   pids (q\<lparr>sfqqs := (sfqqs q)(a \<mapsto> sq')\<rparr>) = pids q"
  by (auto simp: pids_def)

lemma sfq_pop:
  assumes wf: "sfq_wf q" and a: "a \<in> set (queue q)" and sq: "sfqqs q a = Some sq"
    and l: "sq_list sq = s # rest"
  defines "q1 \<equiv> q\<lparr>sfqqs := (sfqqs q)(a \<mapsto> sq\<lparr>sq_list := rest\<rparr>)\<rparr>"
  shows "sfq_wf q1" "sfq_pending q = add_mset (rq_of q s) (sfq_pending q1)" "pop_sfqq a q = Inr q1"
proof -
  have "mset (concat (map (\<lambda>a. sq_list (the (sfqqs q a))) (queue q))) =
        add_mset s (mset (concat (map (\<lambda>a. sq_list (the (sfqqs q1 a))) (queue q))))"
    using sq l by (intro mset_concat_change [OF sfq_wf_distinct [OF wf] a]) (auto simp: q1_def)
  then have b: "mset (backlog q) = add_mset s (mset (backlog q1))"
    by (simp add: backlog_def q1_def)
  have r: "rq_of q1 = rq_of q" by (auto simp: rq_of_def q1_def fun_eq_iff)
  have "image_mset (rq_of q) (mset (backlog q)) =
        image_mset (rq_of q) (add_mset s (mset (backlog q1)))" using b by simp
  then show "sfq_pending q = add_mset (rq_of q s) (sfq_pending q1)"
    using r by (simp add: sfq_pending_def)
  have sub: "set (backlog q1) \<subseteq> set (backlog q)" using b by (metis set_mset_mset mset_subset_eq_insertD
      mset_subset_eq_add_right add_mset_add_single subsetI union_iff add_mset_remove_trivial_eq insert_iff set_mset_add_mset_insert)
  have "live_sfqr q1 = live_sfqr q" by (rule live_sfqr_cong) (simp_all add: q1_def)
  with wf sub sq show "sfq_wf q1"
    using pids_upd [OF sq, of "sq\<lparr>sq_list := rest\<rparr>"] by (auto simp: sfq_wf_def q1_def)
  show "pop_sfqq a q = Inr q1" using sq l by (simp add: pop_sfqq_def q1_def)
qed

lemma sfq_dispatch_sort:
  assumes wf: "sfq_wf q" and rq: "rqs q rq = Some r"
  shows "\<exists>m lm h. elv_dispatch_sort rq q =
       Inr (q\<lparr>rqs := m, last_merge := lm, nr_sorted := nr_sorted q - 1, rqhash := h,
              queue_head := sorted_slot q rq\<rparr>) \<and>
     same_requests (rqs q) m \<and>
     sfq_wf (q\<lparr>rqs := m, last_merge := lm, nr_sorted := nr_sorted q - 1, rqhash := h,
              queue_head := sorted_slot q rq\<rparr>) \<and>
     sfq_pending (q\<lparr>rqs := m, last_merge := lm, nr_sorted := nr_sorted q - 1, rqhash := h,
              queue_head := sorted_slot q rq\<rparr>) = sfq_pending q"
proof -
  from wf have "set (queue_head q) \<subseteq> dom (rqs q)" by (simp add: sfq_wf_def)
  from elv_dispatch_sort_ok [OF rq this] obtain m lm h where
    d: "elv_dispatch_sort rq q = Inr (q\<lparr>rqs := m, last_merge := lm, nr_sorted := nr_sorted q - 1,
          rqhash := h, queue_head := sorted_slot q rq\<rparr>)"
    and same: "same_requests (rqs q) m" by blast
  have dom: "dom m = dom (rqs q)" using same_requests_dom [OF same] .
  let ?q1 = "q\<lparr>rqs := m, last_merge := lm, nr_sorted := nr_sorted q - 1, rqhash := h,
               queue_head := sorted_slot q rq\<rparr>"
  have set: "set (sorted_slot q rq) = insert rq (set (queue_head q))"
    using mset_sorted_slot by (metis set_mset_add_mset_insert set_mset_mset)
  have "live_sfqr ?q1 = live_sfqr q" by (rule live_sfqr_cong) (use dom in auto)
  moreover have "backlog ?q1 = backlog q" "pids ?q1 = pids q" "rq_of ?q1 = rq_of q"
    by (auto simp: backlog_def pids_def rq_of_def fun_eq_iff)
  ultimately have "sfq_wf ?q1 \<and> sfq_pending ?q1 = sfq_pending q"
    using wf set rq dom by (auto simp: sfq_wf_def sfq_pending_def)
  with d same show ?thesis by blast
qed

text \<open>Popping the head of a process's queue and moving its request to the dispatch list.\<close>

lemma sfq_pop_dispatch:
  assumes wf: "sfq_wf q" and a: "a \<in> set (queue q)" and sq: "sfqqs q a = Some sq"
    and l: "sq_list sq = s # rest"
  shows "\<exists>sr m lm h q'. sfqrs q s = Some sr \<and> sr_rq sr = Some (rq_of q s) \<and>
     q' = q\<lparr>sfqqs := (sfqqs q)(a \<mapsto> sq\<lparr>sq_list := rest\<rparr>), rqs := m, last_merge := lm,
            nr_sorted := nr_sorted q - 1, rqhash := h, queue_head := sorted_slot q (rq_of q s)\<rparr> \<and>
     elv_dispatch_sort (rq_of q s) (q\<lparr>sfqqs := (sfqqs q)(a \<mapsto> sq\<lparr>sq_list := rest\<rparr>)\<rparr>) = Inr q' \<and>
     same_requests (rqs q) m \<and> sfq_wf q' \<and>
     sfq_pending q = add_mset (rq_of q s) (sfq_pending q') \<and>
     mset (queue_head q') = add_mset (rq_of q s) (mset (queue_head q))"
proof -
  let ?q1 = "q\<lparr>sfqqs := (sfqqs q)(a \<mapsto> sq\<lparr>sq_list := rest\<rparr>)\<rparr>"
  note pop = sfq_pop [OF wf a sq l]
  have "s \<in> set (backlog q)" using a sq l by (auto simp: in_backlog intro!: bexI [of _ a])
  from sfq_wf_live [OF wf this] obtain sr rq r where
    s: "sfqrs q s = Some sr" "sr_rq sr = Some rq" "rqs q rq = Some r" by blast
  then have rq: "rq_of q s = rq" by (simp add: rq_of_def)
  have slot: "sorted_slot ?q1 x = sorted_slot q x" for x by (simp add: sorted_slot_def)
  from s have "rqs ?q1 rq = Some r" by simp
  from sfq_dispatch_sort [OF pop(1) this] pop(2) s rq slot show ?thesis by fastforce
qed

section \<open>Adding a request\<close>

lemma mset_backlog_add:
  assumes "distinct (queue q)" "a \<in> set (queue q)" "sfqqs q a = Some sq"
  shows "mset (backlog (q\<lparr>sfqqs := (sfqqs q)(a \<mapsto> sq\<lparr>sq_list := sq_list sq @ [s]\<rparr>)\<rparr>)) =
    add_mset s (mset (backlog q))"
  proof -
  let ?q1 = "q\<lparr>sfqqs := (sfqqs q)(a \<mapsto> sq\<lparr>sq_list := sq_list sq @ [s]\<rparr>)\<rparr>"
  have "mset (concat (map (\<lambda>a. sq_list (the (sfqqs ?q1 a))) (queue q))) =
        add_mset s (mset (concat (map (\<lambda>a. sq_list (the (sfqqs q a))) (queue q))))"
    using assms by (intro mset_concat_change [of _ a]) auto
  then show ?thesis by (simp add: backlog_def)
qed

lemma sfq_add_request_eq:
  assumes "rqs q rq = Some r" "priv0 r = Some a" "priv1 r = Some s"
    and "sfqqs q a = Some sq" "sfqrs q s = Some sr" "next_start_tag q = Inr t"
  shows "sfq_add_request rq q =
    Inr (q\<lparr>sfqqs := (sfqqs q)(a \<mapsto> sq\<lparr>sq_list := sq_list sq @ [s]\<rparr>),
           sfqrs := (sfqrs q)(s \<mapsto> sr\<lparr>start_tag := t, finish_tag := s32 (t + 100), sr_rq := Some rq\<rparr>),
           virtual_time := t, prev_sfqr := Some s, sfqr_size := sfqr_size q + 1\<rparr>)"
  using assms by (simp add: sfq_add_request_def Let_def REQUEST_LENGTH_def REQUEST_WEIGHT_def)

lemma sfq_add_request_wf:
  assumes wf: "sfq_wf q" and r: "rqs q rq = Some r" "priv0 r = Some a" "priv1 r = Some s"
    and a: "a \<in> set (queue q)" and sr: "sfqrs q s = Some sr" and new: "s \<notin> set (backlog q)"
    and t: "next_start_tag q = Inr t"
  shows "\<exists>q'. sfq_add_request rq q = Inr q' \<and> sfq_wf q' \<and> sfq_pending q' = add_mset rq (sfq_pending q) \<and>
    queue_head q' = queue_head q \<and> rqs q' = rqs q"
proof -
  obtain sq where sq: "sfqqs q a = Some sq" using sfq_wf_queue [OF wf a] by blast
  let ?q1 = "q\<lparr>sfqqs := (sfqqs q)(a \<mapsto> sq\<lparr>sq_list := sq_list sq @ [s]\<rparr>)\<rparr>"
  let ?q' = "q\<lparr>sfqqs := (sfqqs q)(a \<mapsto> sq\<lparr>sq_list := sq_list sq @ [s]\<rparr>),
           sfqrs := (sfqrs q)(s \<mapsto> sr\<lparr>start_tag := t, finish_tag := s32 (t + 100), sr_rq := Some rq\<rparr>),
           virtual_time := t, prev_sfqr := Some s, sfqr_size := sfqr_size q + 1\<rparr>"
  have b: "mset (backlog ?q1) = add_mset s (mset (backlog q))"
    by (rule mset_backlog_add [OF sfq_wf_distinct [OF wf] a sq])
  have b': "backlog ?q' = backlog ?q1" by (simp add: backlog_def)
  have set: "set (backlog ?q1) = insert s (set (backlog q))"
    using b by (metis set_mset_add_mset_insert set_mset_mset)
  have rq: "rq_of ?q' x = (if x = s then rq else rq_of q x)" for x by (simp add: rq_of_def)
  have "sfq_pending ?q' = image_mset (rq_of ?q') (add_mset s (mset (backlog q)))"
    using b b' by (simp add: sfq_pending_def)
  also have "\<dots> = add_mset rq (image_mset (rq_of q) (mset (backlog q)))"
  proof -
    have "image_mset (rq_of ?q') (mset (backlog q)) = image_mset (rq_of q) (mset (backlog q))"
      using new rq by (intro image_mset_cong) (metis set_mset_mset)
    then show ?thesis using rq by simp
  qed
  finally have pend: "sfq_pending ?q' = add_mset rq (sfq_pending q)" by (simp add: sfq_pending_def)
  have live: "live_sfqr ?q' x" if "x \<in> insert s (set (backlog q))" for x
    using that wf r(1) by (auto simp: live_sfqr_iff sfq_wf_def)
  have "pids ?q' = pids q" using sq by (simp add: pids_def)
  with wf live set b' sq have "sfq_wf ?q'" by (auto simp: sfq_wf_def)
  with pend sfq_add_request_eq [OF r sq sr t] show ?thesis by simp
qed

section \<open>Preparing a request\<close>

lemma find_sfqq_Some:
  "set as \<subseteq> dom m \<Longrightarrow> find_sfqq m cur as = Inr (Some a) \<Longrightarrow> a \<in> set as \<and> pid (the (m a)) = cur"
  by (induction as) (auto split: if_splits)

lemma find_sfqq_None:
  "set as \<subseteq> dom m \<Longrightarrow> find_sfqq m cur as = Inr None \<Longrightarrow> cur \<notin> (\<lambda>a. pid (the (m a))) ` set as"
  by (induction as) (auto split: if_splits)

lemma find_sfqq_ok: "set as \<subseteq> dom m \<Longrightarrow> \<exists>r. find_sfqq m cur as = Inr r"
  by (induction as) auto

lemma grow_requests_fields [simp]:
  "queue (grow_requests n ok q) = queue q" "sfqqs (grow_requests n ok q) = sfqqs q"
  "sfqrs (grow_requests n ok q) = sfqrs q" "sfqq_size (grow_requests n ok q) = sfqq_size q"
  "rqs (grow_requests n ok q) = rqs q" "queue_head (grow_requests n ok q) = queue_head q"
  "os_sfqq (grow_requests n ok q) = os_sfqq q" "depth (grow_requests n ok q) = depth q"
  "heap_size (grow_requests n ok q) = heap_size q"
  "heap_limit_size (grow_requests n ok q) = heap_limit_size q + 1"
  "prev_sfqr (grow_requests n ok q) = prev_sfqr q" "virtual_time (grow_requests n ok q) = virtual_time q"
  "sfqr_size (grow_requests n ok q) = sfqr_size q"
  by (simp_all add: grow_requests_def)

lemma new_sfq_queue_eq:
  assumes "rqs q rq = Some r"
  shows "new_sfq_queue extra cur ok (Some a) rq q =
    Inr ((grow_requests extra ok q)\<lparr>sfqqs := (sfqqs q)(a \<mapsto> \<lparr>pid = cur, sq_list = []\<rparr>),
       sfqq_size := sfqq_size q + 1, rqs := (rqs q)(rq \<mapsto> r\<lparr>priv0 := Some a\<rparr>),
       queue := queue q @ [a]\<rparr>)"
  using assms by (simp add: new_sfq_queue_def Let_def)

lemma sfq_wf_new_queue:
  assumes wf: "sfq_wf q" and a: "a \<notin> dom (sfqqs q)" and cur: "cur \<notin> set (pids q)"
    and q': "queue q' = queue q @ [a]" "sfqqs q' = (sfqqs q)(a \<mapsto> \<lparr>pid = cur, sq_list = []\<rparr>)"
      "sfqrs q' = sfqrs q" "sfqq_size q' = sfqq_size q + 1" "dom (rqs q') = dom (rqs q)"
      "queue_head q' = queue_head q"
  shows "sfq_wf q' \<and> sfq_pending q' = sfq_pending q \<and> backlog q' = backlog q"
proof -
  have na: "a \<notin> set (queue q)" using wf a by (auto simp: sfq_wf_def)
  then have b: "backlog q' = backlog q" and p: "pids q' = pids q @ [cur]"
    using q' by (auto simp: backlog_def pids_def intro!: arg_cong [of _ _ concat])
  have "live_sfqr q' = live_sfqr q" by (rule live_sfqr_cong) (use q' in auto)
  moreover have "rq_of q' = rq_of q" using q'(3) by (simp add: rq_of_def fun_eq_iff)
  ultimately show ?thesis using wf q' b p cur by (auto simp: sfq_wf_def sfq_pending_def)
qed

lemma alloc_sfq_request_eq:
  "rqs q rq = Some r \<Longrightarrow> alloc_sfq_request (Some s) rq q =
   Inr (q\<lparr>rqs := (rqs q)(rq \<mapsto> r\<lparr>priv1 := Some s\<rparr>),
          sfqrs := (sfqrs q)(s \<mapsto> \<lparr>start_tag = 0, finish_tag = 0, sr_rq = None\<rparr>)\<rparr>)"
  by (simp add: alloc_sfq_request_def)

lemma sfq_wf_new_request:
  assumes wf: "sfq_wf q" and s: "s \<notin> dom (sfqrs q)" and rq: "rqs q rq \<noteq> None"
    and q': "queue q' = queue q" "sfqqs q' = sfqqs q" "sfqrs q' = (sfqrs q)(s \<mapsto> x)"
      "sfqq_size q' = sfqq_size q" "rqs q' = (rqs q)(rq \<mapsto> r)" "queue_head q' = queue_head q"
  shows "sfq_wf q' \<and> sfq_pending q' = sfq_pending q \<and> backlog q' = backlog q"
proof -
  have b: "backlog q' = backlog q" "pids q' = pids q" using q' by (auto simp: backlog_def pids_def)
  have ns: "s \<notin> set (backlog q)" using wf s by (auto simp: sfq_wf_def live_sfqr_iff)
  then have r: "map (rq_of q') (backlog q) = map (rq_of q) (backlog q)"
    using q' by (auto simp: rq_of_def)
  have "live_sfqr q' y" if "live_sfqr q y" "y \<noteq> s" for y
    using that q' unfolding live_sfqr_iff by (metis fun_upd_apply option.distinct(1))
  moreover have "set (queue_head q) \<subseteq> dom (rqs q')" using wf q'(5) by (auto simp: sfq_wf_def)
  moreover have "sfq_pending q' = sfq_pending q" using r b by (simp only: sfq_pending_def)
  ultimately show ?thesis using wf q' b ns by (auto simp: sfq_wf_def)
qed

text \<open>
  With memory available, \<open>set_request\<close> ends with the request assigned to the one queue of
  the current process and to a fresh struct.
\<close>

lemma set_request_with_wf:
  assumes wf: "sfq_wf q" and rq: "rqs q rq = Some r"
    and fresh: "a \<notin> dom (sfqqs q)" "s \<notin> dom (sfqrs q)"
  shows "\<exists>q' b r'. set_request_with extra cur ok (Some a) (Some s) rq q = Inr q' \<and> sfq_wf q' \<and>
     sfq_pending q' = sfq_pending q \<and> queue_head q' = queue_head q \<and> backlog q' = backlog q \<and>
     rqs q' rq = Some r' \<and> priv0 r' = Some b \<and> priv1 r' = Some s \<and>
     b \<in> set (queue q') \<and> pid (the (sfqqs q' b)) = cur \<and> s \<in> dom (sfqrs q') \<and>
     (if cur \<in> set (pids q) then queue q' = queue q else queue q' = queue q @ [a])"
proof -
  have sub: "set (queue q) \<subseteq> dom (sfqqs q)" using wf by (simp add: sfq_wf_def)
  obtain f where f: "find_sfqq (sfqqs q) cur (queue q) = Inr f" using find_sfqq_ok [OF sub] by blast
  have "\<exists>q1 b r1. (case f of Some a \<Rightarrow> upd_rq rq (\<lambda>r. r\<lparr>priv0 := Some a\<rparr>) q
            | None \<Rightarrow> new_sfq_queue extra cur ok (Some a) rq q) = Inr q1 \<and>
      sfq_wf q1 \<and> sfq_pending q1 = sfq_pending q \<and> backlog q1 = backlog q \<and> queue_head q1 = queue_head q \<and>
      rqs q1 rq = Some r1 \<and> priv0 r1 = Some b \<and> b \<in> set (queue q1) \<and> pid (the (sfqqs q1 b)) = cur \<and>
      sfqrs q1 = sfqrs q \<and> (if cur \<in> set (pids q) then queue q1 = queue q else queue q1 = queue q @ [a])"
  proof (cases f)
    case (Some b)
    let ?q1 = "q\<lparr>rqs := (rqs q)(rq \<mapsto> r\<lparr>priv0 := Some b\<rparr>)\<rparr>"
    have "sfq_wf ?q1 \<and> sfq_pending ?q1 = sfq_pending q" using wf rq by (intro sfq_wf_cong) auto
    moreover have "b \<in> set (queue q) \<and> pid (the (sfqqs q b)) = cur"
      using find_sfqq_Some [OF sub] f Some by simp
    moreover from this have "cur \<in> set (pids q)" by (auto simp: pids_def)
    ultimately show ?thesis using rq Some by (auto simp: backlog_def)
  next
    case None
    have "cur \<notin> set (pids q)" using find_sfqq_None [OF sub] f None by (auto simp: pids_def)
    with new_sfq_queue_eq [OF rq, of extra cur ok a] None show ?thesis
      using sfq_wf_new_queue [OF wf fresh(1), of cur "(grow_requests extra ok q)\<lparr>
        sfqqs := (sfqqs q)(a \<mapsto> \<lparr>pid = cur, sq_list = []\<rparr>), sfqq_size := sfqq_size q + 1,
        rqs := (rqs q)(rq \<mapsto> r\<lparr>priv0 := Some a\<rparr>), queue := queue q @ [a]\<rparr>"] rq
      by auto
  qed
  then obtain q1 b r1 where q1: "(case f of Some a \<Rightarrow> upd_rq rq (\<lambda>r. r\<lparr>priv0 := Some a\<rparr>) q
            | None \<Rightarrow> new_sfq_queue extra cur ok (Some a) rq q) = Inr q1"
      "sfq_wf q1" "sfq_pending q1 = sfq_pending q" "backlog q1 = backlog q" "queue_head q1 = queue_head q"
      "rqs q1 rq = Some r1" "priv0 r1 = Some b" "b \<in> set (queue q1)" "pid (the (sfqqs q1 b)) = cur"
      "sfqrs q1 = sfqrs q" "if cur \<in> set (pids q) then queue q1 = queue q else queue q1 = queue q @ [a]"
    by blast
  let ?q' = "q1\<lparr>rqs := (rqs q1)(rq \<mapsto> r1\<lparr>priv1 := Some s\<rparr>),
          sfqrs := (sfqrs q1)(s \<mapsto> \<lparr>start_tag = 0, finish_tag = 0, sr_rq = None\<rparr>)\<rparr>"
  have "set_request_with extra cur ok (Some a) (Some s) rq q = Inr ?q'"
    using f q1(1) alloc_sfq_request_eq [OF q1(6)] by (simp add: set_request_with_def)
  moreover have "sfq_wf ?q' \<and> sfq_pending ?q' = sfq_pending q1 \<and> backlog ?q' = backlog q1"
    using q1 fresh by (intro sfq_wf_new_request) auto
  ultimately show ?thesis using q1 by auto
qed

section \<open>Start tags\<close>

text \<open>Adding requests one after the other.\<close>

fun add_requests :: "nat list \<Rightarrow> 'a sfq_base_scheme \<Rightarrow> 'a sfq_base_scheme res" where
  "add_requests [] q = Inr q"
| "add_requests (rq # rest) q = bindE (sfq_add_request rq q) (add_requests rest)"

text \<open>The start tag of the request added \<open>n\<close>-th, counted from 0, and the tag after that one.\<close>

definition nth_tag :: "nat \<Rightarrow> int" where
  "nth_tag n = min (100 * int n) 2147483600"

lemma next_tag_step:
  "(if nth_tag n < s32 (nth_tag n + 100) then s32 (nth_tag n + 100) else nth_tag n) = nth_tag (Suc n)"
proof (cases "n < 21474836")
  case True
  then have "nth_tag n = 100 * int n" "nth_tag (Suc n) = 100 * int n + 100" "s32 (100 * int n + 100) = 100 * int n + 100"
    by (auto simp: nth_tag_def s32_id)
  then show ?thesis by simp
next
  case False
  then have "nth_tag n = 2147483600" "nth_tag (Suc n) = 2147483600" by (auto simp: nth_tag_def)
  then show ?thesis by (simp add: s32_def)
qed

text \<open>\<open>n\<close> requests have been added so far and the struct of the last one is still allocated.\<close>

definition tagged :: "nat \<Rightarrow> 'a sfq_base_scheme \<Rightarrow> bool" where
  "tagged n q \<longleftrightarrow>
     (case prev_sfqr q of
        None \<Rightarrow> n = 0 \<and> virtual_time q = 0
      | Some p \<Rightarrow> 0 < n \<and> virtual_time q = nth_tag (n - 1) \<and>
          map_option finish_tag (sfqrs q p) = Some (s32 (nth_tag (n - 1) + 100)))"

lemma tagged_next: "tagged n q \<Longrightarrow> next_start_tag q = Inr (nth_tag n)"
  using next_tag_step [of "n - 1"]
  by (auto simp: tagged_def next_start_tag_def nth_tag_def split: option.splits)

text \<open>A request that \<open>set_request\<close> has prepared.\<close>

definition prepared :: "'a sfq_base_scheme \<Rightarrow> nat \<Rightarrow> bool" where
  "prepared q rq \<longleftrightarrow>
     (case rqs q rq of
        None \<Rightarrow> False
      | Some r \<Rightarrow> (case (priv0 r, priv1 r) of
            (Some a, Some s) \<Rightarrow> sfqqs q a \<noteq> None \<and> sfqrs q s \<noteq> None
          | _ \<Rightarrow> False))"

lemma prepared_iff:
  "prepared q rq \<longleftrightarrow> (\<exists>r a s sq sr. rqs q rq = Some r \<and> priv0 r = Some a \<and> priv1 r = Some s \<and>
     sfqqs q a = Some sq \<and> sfqrs q s = Some sr)"
  by (auto simp: prepared_def split: option.splits)

lemma prepared_mono:
  assumes "prepared q rq" "rqs q' = rqs q" "dom (sfqqs q) \<subseteq> dom (sfqqs q')" "dom (sfqrs q) \<subseteq> dom (sfqrs q')"
  shows "prepared q' rq"
proof -
  from assms(1) obtain r a s where r: "rqs q rq = Some r" "priv0 r = Some a" "priv1 r = Some s"
    "a \<in> dom (sfqqs q)" "s \<in> dom (sfqrs q)" by (auto simp: prepared_iff)
  with assms(3,4) have "a \<in> dom (sfqqs q')" "s \<in> dom (sfqrs q')" by blast+
  with r assms(2) show ?thesis by (auto simp: prepared_iff)
qed

definition sfqr_of :: "'a sfq_base_scheme \<Rightarrow> nat \<Rightarrow> nat" where
  "sfqr_of q rq = the (priv1 (the (rqs q rq)))"

lemma preparedE:
  assumes "prepared q rq"
  obtains r a s sq sr where "rqs q rq = Some r" "priv0 r = Some a" "priv1 r = Some s"
    "sfqqs q a = Some sq" "sfqrs q s = Some sr" "sfqr_of q rq = s"
  using assms by (auto simp: prepared_iff sfqr_of_def)

lemma add_requests_tags:
  assumes "tagged n q" "\<forall>rq \<in> set l. prepared q rq" "distinct (map (sfqr_of q) l)"
  shows "\<exists>q'. add_requests l q = Inr q' \<and> tagged (n + length l) q' \<and> rqs q' = rqs q \<and>
    (\<forall>i < length l. map_option start_tag (sfqrs q' (sfqr_of q (l ! i))) = Some (nth_tag (n + i))) \<and>
    (\<forall>s. s \<notin> sfqr_of q ` set l \<longrightarrow> sfqrs q' s = sfqrs q s)"
  using assms
proof (induction l arbitrary: n q)
  case Nil
  then show ?case by simp
next
  case (Cons rq l)
  from Cons.prems(2) have "prepared q rq" by simp
  then obtain r a s sq sr where r: "rqs q rq = Some r" "priv0 r = Some a" "priv1 r = Some s"
    "sfqqs q a = Some sq" "sfqrs q s = Some sr" "sfqr_of q rq = s" by (rule preparedE)
  let ?t = "nth_tag n"
  let ?q1 = "q\<lparr>sfqqs := (sfqqs q)(a \<mapsto> sq\<lparr>sq_list := sq_list sq @ [s]\<rparr>),
           sfqrs := (sfqrs q)(s \<mapsto> sr\<lparr>start_tag := ?t, finish_tag := s32 (?t + 100), sr_rq := Some rq\<rparr>),
           virtual_time := ?t, prev_sfqr := Some s, sfqr_size := sfqr_size q + 1\<rparr>"
  have add: "sfq_add_request rq q = Inr ?q1"
    by (rule sfq_add_request_eq [OF r(1-5) tagged_next [OF Cons.prems(1)]])
  have of: "sfqr_of ?q1 = sfqr_of q" by (simp add: sfqr_of_def fun_eq_iff)
  have "tagged (Suc n) ?q1" by (simp add: tagged_def)
  moreover have "prepared ?q1 x" if "prepared q x" for x
    using that by (rule prepared_mono) auto
  then have "\<forall>rq \<in> set l. prepared ?q1 rq" using Cons.prems(2) by simp
  moreover have "distinct (map (sfqr_of ?q1) l)" using Cons.prems(3) of by simp
  ultimately obtain q' where q': "add_requests l ?q1 = Inr q'" "tagged (Suc n + length l) q'"
    "rqs q' = rqs ?q1"
    "\<forall>i < length l. map_option start_tag (sfqrs q' (sfqr_of ?q1 (l ! i))) = Some (nth_tag (Suc n + i))"
    "\<forall>s. s \<notin> sfqr_of ?q1 ` set l \<longrightarrow> sfqrs q' s = sfqrs ?q1 s"
    using Cons.IH by blast
  have ns: "s \<notin> sfqr_of q ` set l" using Cons.prems(3) r(6) by auto
  have "map_option start_tag (sfqrs q' (sfqr_of q ((rq # l) ! i))) = Some (nth_tag (n + i))"
    if "i < length (rq # l)" for i
    using that q' ns r(6) of by (cases i) auto
  moreover have "sfqrs q' x = sfqrs q x" if "x \<notin> sfqr_of q ` set (rq # l)" for x
    using that q'(5) r(6) of by auto
  ultimately show ?case using add q' by simp
qed

end
