(* ===== verification/Sfq_Launch.thy ===== *)
theory Sfq_Launch
  imports Sfq_Inv
begin

text \<open>
  The released scheduler \<open>launch_sfq.c\<close>: round-robin over the per-process queues, guarded by
  the remembered position \<open>wrong_sfqq\<close>.  The state, its operations, then what the
  round-robin does when the remembered position is the list head, and what it does when it
  is not.
\<close>

section \<open>Model\<close>

record launch_sfq = sfq_base +
  chara_locker :: int
  frisk_locker :: int
  wrong_sfqq :: "nat lnode option"

definition sfq_init_queue ::
  "bool \<Rightarrow> bool \<Rightarrow> 'a launch_sfq_scheme \<Rightarrow> 'a launch_sfq_scheme init_result" where
  "sfq_init_queue eq_ok sfqd_ok q =
     (if \<not> eq_ok then \<lparr>ret = - ENOMEM, eq_released = False, result_queue = q\<rparr>
      else if \<not> sfqd_ok then \<lparr>ret = - ENOMEM, eq_released = True, result_queue = q\<rparr>
      else \<lparr>ret = 0, eq_released = False, result_queue =
        q\<lparr>virtual_time := 0, depth := 0, prev_sfqr := None, os_sfqq := None, sfqq_size := 0,
          sfqr_size := 0, heap_size := 0, heap_limit_size := 0, queue := [], unplug_pending := False,
          timer_on := False, chara_locker := 0, frisk_locker := 1, wrong_sfqq := None\<rparr>\<rparr>)"

text \<open>
  The arguments: whether there is a bio, the current process, the outcomes of the three
  allocations.  \<open>sfqr->start_tag = 0\<close> comes before the check-free use of the struct.
\<close>

definition sfq_set_request ::
  "bool \<Rightarrow> int \<Rightarrow> bool \<Rightarrow> nat option \<Rightarrow> nat option \<Rightarrow> nat option \<Rightarrow> 'a launch_sfq_scheme \<Rightarrow>
   (int \<times> 'a launch_sfq_scheme) res" where
  "sfq_set_request bio cur grown qmem rmem rqp q =
     (case rqp of
        None \<Rightarrow> Inr (0, q)
      | Some rq \<Rightarrow>
          if \<not> bio then Inr (0, q)
          else
            bindE (set_request_with 2 cur grown qmem rmem rq q) (\<lambda>q.
              if rmem = None then Inl NullDeref else Inr (0, q)))"

text \<open>
  Reading \<open>pid\<close> through a position: at the list head the field lies in the middle of the
  scheduler data; \<open>hp\<close> is the word found there.
\<close>

definition node_pid :: "int \<Rightarrow> 'a launch_sfq_scheme \<Rightarrow> nat lnode \<Rightarrow> int res" where
  "node_pid hp q n =
     (case n of LHead \<Rightarrow> Inr hp | LEntry a \<Rightarrow> bindE (deref (sfqqs q) a) (\<lambda>sfqq. Inr (pid sfqq)))"

text \<open>The \<open>next_dispatch\<close> loop; \<open>None\<close> is "never leaves the loop".\<close>

partial_function (option) next_dispatch ::
  "int \<Rightarrow> 'a launch_sfq_scheme \<Rightarrow> 'a launch_sfq_scheme res option" where
  "next_dispatch hp q0 =
     (case os_sfqq q0 of
        None \<Rightarrow> Some (Inl NullDeref)
      | Some p \<Rightarrow>
          (case wrong_sfqq q0 of
             None \<Rightarrow>
               next_dispatch hp
                 (q0\<lparr>os_sfqq := Some (list_next (queue q0) p),
                     wrong_sfqq := Some (list_next (queue q0) (list_next (queue q0) p))\<rparr>)
           | Some w \<Rightarrow>
               (case node_pid hp q0 (list_next (queue q0) p) of
                  Inl e \<Rightarrow> Some (Inl e)
                | Inr x \<Rightarrow>
                    (case node_pid hp q0 w of
                       Inl e \<Rightarrow> Some (Inl e)
                     | Inr y \<Rightarrow>
                         if x = y then next_dispatch hp (q0\<lparr>os_sfqq := Some (list_next (queue q0) p)\<rparr>)
                         else Some (Inr (q0\<lparr>os_sfqq := Some (list_next (queue q0) p)\<rparr>))))))"

definition dispatch_section :: "'a launch_sfq_scheme \<Rightarrow> (int \<times> 'a launch_sfq_scheme) res" where
  "dispatch_section q =
     bindE (os_queue q) (\<lambda>(a, sfqq).
       case list_first (sq_list sfqq) of
         None \<Rightarrow> Inr (0, q)
       | Some s \<Rightarrow>
           bindE (pop_sfqq a q) (\<lambda>q.
           bindE (deref (sfqrs q) s) (\<lambda>sfqr.
             case sr_rq sfqr of
               None \<Rightarrow> Inl NullDeref
             | Some rq \<Rightarrow>
                 bindE (elv_dispatch_sort rq q) (\<lambda>q. Inr (1, q\<lparr>depth := depth q + 1\<rparr>)))))"

definition limit_outstanding :: "'a launch_sfq_scheme \<Rightarrow> (int \<times> 'a launch_sfq_scheme) res" where
  "limit_outstanding q =
     (if depth q > REQUEST_DEPTH
      then Inr (0, if sfqr_size q \<noteq> 0 then kblockd_schedule_work q else q)
      else dispatch_section q)"

definition left_requests :: "'a launch_sfq_scheme \<Rightarrow> (int \<times> 'a launch_sfq_scheme) res" where
  "left_requests q =
     bindE (os_queue_empty q) (\<lambda>empty.
       if empty then
         dispatch_section
           (if sfqr_size q \<noteq> 0 \<and> chara_locker q \<noteq> 0 then kblockd_schedule_work q else q)
       else limit_outstanding q)"

definition sfq_dispatch ::
  "int \<Rightarrow> 'a launch_sfq_scheme \<Rightarrow> (int \<times> 'a launch_sfq_scheme) res option" where
  "sfq_dispatch hp q0 =
     (let q = q0\<lparr>timer_on := True\<rparr> in
      case os_sfqq q of
        None \<Rightarrow>
          (case list_first (queue q) of
             None \<Rightarrow> Some (Inr (0, q\<lparr>os_sfqq := None\<rparr>))
           | Some a \<Rightarrow> Some (limit_outstanding (q\<lparr>os_sfqq := Some (LEntry a)\<rparr>)))
      | Some _ \<Rightarrow> Option.bind (next_dispatch hp q) (\<lambda>r. Some (bindE r left_requests)))"

definition sfq_completed :: "'a launch_sfq_scheme \<Rightarrow> 'a launch_sfq_scheme" where
  "sfq_completed q0 =
     (let q = q0\<lparr>depth := depth q0 - 1, timer_on := False, sfqr_size := sfqr_size q0 - 1\<rparr> in
      if sfqr_size q > 0 then (kblockd_schedule_work q)\<lparr>chara_locker := 1\<rparr> else q)"

definition sfq_exit_queue :: "'a launch_sfq_scheme \<Rightarrow> 'a launch_sfq_scheme" where
  "sfq_exit_queue q = q\<lparr>unplug_pending := False\<rparr>"

section \<open>One step of the round-robin\<close>

text \<open>
  The good states: the remembered position is the list head, whose stray word is no
  process's pid, and the cursor is a queue.
\<close>

definition launch_inv :: "int \<Rightarrow> 'a launch_sfq_scheme \<Rightarrow> bool" where
  "launch_inv hp q \<longleftrightarrow> sfq_wf q \<and> hp \<notin> set (pids q) \<and> wrong_sfqq q = Some LHead \<and>
     os_sfqq q \<in> (Some \<circ> LEntry) ` set (queue q)"

lemma launch_invE:
  assumes "launch_inv hp q"
  obtains i where "i < length (queue q)" "os_sfqq q = Some (LEntry (queue q ! i))" "sfq_wf q"
    "wrong_sfqq q = Some LHead" "hp \<notin> set (pids q)"
  using assms unfolding launch_inv_def by (auto simp: in_set_conv_nth)

definition advance :: "'a list \<Rightarrow> nat \<Rightarrow> nat" where
  "advance l i = (if Suc i < length l then Suc i else 0)"

lemma advance_less [simp]: "i < length l \<Longrightarrow> advance l i < length l"
  by (cases l) (simp_all add: advance_def)

lemma node_pid_entry:
  "sfq_wf q \<Longrightarrow> i < length (queue q) \<Longrightarrow> node_pid hp q (LEntry (queue q ! i)) = Inr (pids q ! i)"
  using sfq_wf_queue [of q "queue q ! i"] by (auto simp: node_pid_def pids_def)

lemma length_pids [simp]: "length (pids q) = length (queue q)"
  by (simp add: pids_def)

lemma pids_cong: "queue q' = queue q \<Longrightarrow> sfqqs q' = sfqqs q \<Longrightarrow> pids q' = pids q"
  by (simp add: pids_def)

text \<open>\<open>next_dispatch\<close> looks at the ring and the pids only.\<close>

lemma next_dispatch_frame:
  fixes q :: "'a launch_sfq_scheme" and q' :: "'a launch_sfq_scheme"
  assumes wf: "sfq_wf q" and hp: "hp \<notin> set (pids q)" and w: "wrong_sfqq q = Some LHead"
    and i: "i < length (queue q)" "os_sfqq q = Some (LEntry (queue q ! i))"
    and same: "queue q' = queue q" "sfqqs q' = sfqqs q" "wrong_sfqq q' = wrong_sfqq q"
      "os_sfqq q' = os_sfqq q"
  shows "next_dispatch hp q' = Some (Inr (q'\<lparr>os_sfqq := Some (LEntry (queue q ! advance (queue q) i))\<rparr>))"
proof -
  have d: "distinct (queue q)" using wf by (rule sfq_wf_distinct)
  have ne: "pids q ! j \<noteq> hp" if "j < length (queue q)" for j
    using hp that by (metis length_pids nth_mem)
  have entry: "node_pid hp p (LEntry (queue q ! j)) = Inr (pids q ! j)"
    if "j < length (queue q)" "sfqqs p = sfqqs q" for j and p :: "'a launch_sfq_scheme"
    using sfq_wf_queue [OF wf, of "queue q ! j"] that by (auto simp: node_pid_def pids_def)
  have head: "node_pid hp p LHead = Inr hp" for p :: "'a launch_sfq_scheme" by (simp add: node_pid_def)
  show ?thesis
  proof (cases "Suc i < length (queue q)")
    case True
    then show ?thesis
      using list_next_after_nth [OF d i(1)] ne [OF True] entry [OF True, of q'] same i(2) w
      by (subst next_dispatch.simps) (simp add: head advance_def)
  next
    case False
    have nonempty: "queue q \<noteq> []" "0 < length (queue q)" using i by auto
    have ln: "list_next (queue q) LHead = LEntry (queue q ! 0)" using nonempty list_next_head by metis
    let ?q = "q'\<lparr>os_sfqq := Some LHead\<rparr>"
    have "next_dispatch hp ?q = Some (Inr (q'\<lparr>os_sfqq := Some (LEntry (queue q ! 0))\<rparr>))"
      using entry [OF nonempty(2), of ?q] ne [OF nonempty(2)] ln same w
      by (subst next_dispatch.simps) (simp add: head del: list_next.simps(1))
    moreover have "next_dispatch hp q' = next_dispatch hp ?q"
      using list_next_after_nth [OF d i(1)] False same i(2) w by (subst next_dispatch.simps) (simp add: head)
    ultimately show ?thesis using False by (simp add: advance_def)
  qed
qed

lemma next_dispatch_good:
  assumes "sfq_wf q" "hp \<notin> set (pids q)" "wrong_sfqq q = Some LHead"
    and "os_sfqq q = Some (LEntry (queue q ! i))" "i < length (queue q)"
  shows "next_dispatch hp q = Some (Inr (q\<lparr>os_sfqq := Some (LEntry (queue q ! advance (queue q) i))\<rparr>))"
  using next_dispatch_frame [OF assms(1-3,5,4), of q] by simp

text \<open>What a call does once the cursor is on the queue \<open>a\<close>.\<close>

definition serves :: "'a launch_sfq_scheme \<Rightarrow> nat \<Rightarrow> int \<Rightarrow> 'a launch_sfq_scheme \<Rightarrow> bool" where
  "serves q a n q' \<longleftrightarrow>
     sfq_wf q' \<and> os_sfqq q' = Some (LEntry a) \<and> wrong_sfqq q' = wrong_sfqq q \<and> queue q' = queue q \<and>
     pids q' = pids q \<and>
     (case sq_list (the (sfqqs q a)) of
        [] \<Rightarrow> n = 0 \<and> sfqqs q' = sfqqs q \<and> sfq_pending q' = sfq_pending q \<and>
              queue_head q' = queue_head q \<and> depth q' = depth q
      | s # rest \<Rightarrow>
          (if depth q > REQUEST_DEPTH
           then n = 0 \<and> sfqqs q' = sfqqs q \<and> sfq_pending q' = sfq_pending q \<and>
                queue_head q' = queue_head q \<and> depth q' = depth q
           else n = 1 \<and> depth q' = depth q + 1 \<and> sq_list (the (sfqqs q' a)) = rest \<and>
                (\<forall>b. b \<noteq> a \<longrightarrow> sfqqs q' b = sfqqs q b) \<and>
                queue_head q' = sorted_slot q (rq_of q s) \<and>
                sfq_pending q = add_mset (rq_of q s) (sfq_pending q')))"

lemma dispatch_section_pop:
  assumes wf: "sfq_wf q" and a: "a \<in> set (queue q)" and sq: "sfqqs q a = Some sq"
    and l: "sq_list sq = s # rest" and os: "os_sfqq q = Some (LEntry a)" and d: "depth q \<le> REQUEST_DEPTH"
  shows "\<exists>q'. dispatch_section q = Inr (1, q') \<and> serves q a 1 q'"
proof -
  from sfq_pop_dispatch [OF wf a sq l] obtain sr m lm h q' where
    s: "sfqrs q s = Some sr" "sr_rq sr = Some (rq_of q s)"
    and q': "q' = q\<lparr>sfqqs := (sfqqs q)(a \<mapsto> sq\<lparr>sq_list := rest\<rparr>), rqs := m, last_merge := lm,
            nr_sorted := nr_sorted q - 1, rqhash := h, queue_head := sorted_slot q (rq_of q s)\<rparr>"
    and e: "elv_dispatch_sort (rq_of q s) (q\<lparr>sfqqs := (sfqqs q)(a \<mapsto> sq\<lparr>sq_list := rest\<rparr>)\<rparr>) = Inr q'"
    and w: "sfq_wf q'" and p: "sfq_pending q = add_mset (rq_of q s) (sfq_pending q')" by blast
  let ?q2 = "q'\<lparr>depth := depth q' + 1\<rparr>"
  have "dispatch_section q = Inr (1, ?q2)"
    using os sq l e s sfq_pop(3) [OF wf a sq l] by (simp add: dispatch_section_def os_queue_def)
  moreover have "sfq_wf ?q2 \<and> sfq_pending ?q2 = sfq_pending q'" using w by (intro sfq_wf_cong) auto
  moreover have "pids ?q2 = pids q" using sq by (simp add: q' pids_def)
  ultimately show ?thesis using sq l os d p by (simp add: serves_def q')
qed

lemma serves_idle:
  assumes "sfq_wf q" "os_sfqq q = Some (LEntry a)"
    "sq_list (the (sfqqs q a)) = [] \<or> depth q > REQUEST_DEPTH"
    "q' = q \<or> q' = kblockd_schedule_work q"
  shows "serves q a 0 q'"
  using assms sfq_wf_cong [OF assms(1), of "kblockd_schedule_work q"]
  by (auto simp: serves_def kblockd_schedule_work_def pids_def split: list.split)

lemma limit_outstanding_serves:
  assumes wf: "sfq_wf q" and a: "a \<in> set (queue q)" and os: "os_sfqq q = Some (LEntry a)"
  shows "\<exists>n q'. limit_outstanding q = Inr (n, q') \<and> serves q a n q'"
proof -
  obtain sq where sq: "sfqqs q a = Some sq" using sfq_wf_queue [OF wf a] by blast
  show ?thesis
  proof (cases "depth q > REQUEST_DEPTH")
    case True
    with serves_idle [OF wf os] show ?thesis by (auto simp: limit_outstanding_def)
  next
    case False
    show ?thesis
    proof (cases "sq_list sq")
      case Nil
      with False sq os serves_idle [OF wf os, of q] show ?thesis
        by (auto simp: limit_outstanding_def dispatch_section_def os_queue_def)
    next
      case (Cons s rest)
      with dispatch_section_pop [OF wf a sq Cons os] False show ?thesis
        by (auto simp: limit_outstanding_def)
    qed
  qed
qed

lemma left_requests_serves:
  assumes wf: "sfq_wf q" and a: "a \<in> set (queue q)" and os: "os_sfqq q = Some (LEntry a)"
  shows "\<exists>n q'. left_requests q = Inr (n, q') \<and> serves q a n q'"
proof -
  obtain sq where sq: "sfqqs q a = Some sq" using sfq_wf_queue [OF wf a] by blast
  show ?thesis
  proof (cases "sq_list sq = []")
    case True
    then have "left_requests q =
      Inr (0, if sfqr_size q \<noteq> 0 \<and> chara_locker q \<noteq> 0 then kblockd_schedule_work q else q)"
      using sq os by (simp add: left_requests_def os_queue_empty_def dispatch_section_def os_queue_def kblockd_schedule_work_def)
    moreover have "serves q a 0
        (if sfqr_size q \<noteq> 0 \<and> chara_locker q \<noteq> 0 then kblockd_schedule_work q else q)"
      using True sq by (intro serves_idle [OF wf os]) auto
    ultimately show ?thesis by blast
  next
    case False
    then have "left_requests q = limit_outstanding q"
      using sq os by (simp add: left_requests_def os_queue_empty_def)
    with limit_outstanding_serves [OF wf a os] show ?thesis by simp
  qed
qed

lemma serves_from:
  assumes "serves q1 a n q'" "q1 = q\<lparr>timer_on := t, os_sfqq := c, wrong_sfqq := w\<rparr>"
  shows "serves (q\<lparr>wrong_sfqq := w\<rparr>) a n q'"
proof -
  have 1: "rq_of q1 = rq_of q" "sorted_slot q1 = sorted_slot q" "backlog q1 = backlog q" "pids q1 = pids q"
    using assms(2) by (auto simp: rq_of_def sorted_slot_def backlog_def pids_def fun_eq_iff)
  have 2: "rq_of (q\<lparr>wrong_sfqq := w\<rparr>) = rq_of q" "sorted_slot (q\<lparr>wrong_sfqq := w\<rparr>) = sorted_slot q"
    "backlog (q\<lparr>wrong_sfqq := w\<rparr>) = backlog q" "pids (q\<lparr>wrong_sfqq := w\<rparr>) = pids q"
    by (auto simp: rq_of_def sorted_slot_def backlog_def pids_def fun_eq_iff)
  have "sfq_pending q1 = sfq_pending q" "sfq_pending (q\<lparr>wrong_sfqq := w\<rparr>) = sfq_pending q"
    using 1 2 by (simp_all only: sfq_pending_def)
  moreover have "sfqqs q1 = sfqqs q" "queue q1 = queue q" "queue_head q1 = queue_head q"
    "depth q1 = depth q" "wrong_sfqq q1 = w" using assms(2) by simp_all
  ultimately show ?thesis using assms(1) 1 2
    by (cases "sq_list (the (sfqqs q a))") (auto simp: serves_def split: if_splits)
qed

lemma dispatch_good_step:
  assumes wf: "sfq_wf q" and hp: "hp \<notin> set (pids q)" and w: "wrong_sfqq q = Some LHead"
    and os: "os_sfqq q = Some (LEntry (queue q ! i))" and i: "i < length (queue q)"
  shows "\<exists>n q'. sfq_dispatch hp q = Some (Inr (n, q')) \<and> serves q (queue q ! advance (queue q) i) n q'"
proof -
  let ?q1 = "q\<lparr>timer_on := True\<rparr>"
  let ?a = "queue q ! advance (queue q) i"
  let ?q2 = "?q1\<lparr>os_sfqq := Some (LEntry ?a)\<rparr>"
  have wf1: "sfq_wf ?q1" "sfq_wf ?q2" by (auto intro!: sfq_wf_same [OF wf])
  have "hp \<notin> set (pids ?q1)" using hp by (simp add: pids_def)
  then have nd: "next_dispatch hp ?q1 = Some (Inr ?q2)"
    using next_dispatch_good [OF wf1(1), of hp i] w os i by simp
  have "?a \<in> set (queue ?q2)" using i by simp
  from left_requests_serves [OF wf1(2) this] obtain n q' where
    q': "left_requests ?q2 = Inr (n, q')" "serves ?q2 ?a n q'" by auto
  from nd q'(1) os have "sfq_dispatch hp q = Some (Inr (n, q'))" by (simp add: sfq_dispatch_def)
  moreover have "serves (q\<lparr>wrong_sfqq := wrong_sfqq q\<rparr>) ?a n q'"
    by (rule serves_from [OF q'(2)]) simp
  ultimately show ?thesis by auto
qed

lemma serves_launch_inv:
  assumes inv: "launch_inv hp q" and s: "serves q a n q'" and a: "a \<in> set (queue q)"
  shows "launch_inv hp q' \<and>
    (n = 0 \<and> sfq_pending q' = sfq_pending q \<and> mset (queue_head q') = mset (queue_head q) \<or>
     n \<noteq> 0 \<and> (\<exists>rq. sfq_pending q = add_mset rq (sfq_pending q') \<and>
               mset (queue_head q') = add_mset rq (mset (queue_head q))))"
  using assms
  by (cases "sq_list (the (sfqqs q a))") (auto simp: launch_inv_def serves_def split: if_splits)

interpretation launch: elv_sched "launch_inv hp" "sfq_pending" "\<lambda>q. mset (queue_head q)" "sfq_dispatch hp"
  for hp
proof (unfold_locales, goal_cases)
  case (1 q)
  then obtain i where i: "i < length (queue q)" "os_sfqq q = Some (LEntry (queue q ! i))" "sfq_wf q"
    "wrong_sfqq q = Some LHead" "hp \<notin> set (pids q)" by (rule launch_invE)
  from dispatch_good_step [OF i(3,5,4,2,1)] obtain n q' where
    d: "sfq_dispatch hp q = Some (Inr (n, q'))" "serves q (queue q ! advance (queue q) i) n q'" by blast
  have "queue q ! advance (queue q) i \<in> set (queue q)" using i(1) by simp
  from serves_launch_inv [OF 1 d(2) this] d(1) show ?case by blast
qed

section \<open>The first two calls\<close>

lemma first_dispatch:
  assumes wf: "sfq_wf q" and os: "os_sfqq q = None"
  shows "case queue q of
      [] \<Rightarrow> sfq_dispatch hp q = Some (Inr (0, q\<lparr>timer_on := True\<rparr>))
    | a # _ \<Rightarrow> \<exists>n q'. sfq_dispatch hp q = Some (Inr (n, q')) \<and> serves q a n q'"
proof (cases "queue q")
  case Nil
  have "q\<lparr>timer_on := True, os_sfqq := None\<rparr> = q\<lparr>timer_on := True\<rparr>" using os by (cases q) simp
  with Nil os show ?thesis by (simp add: sfq_dispatch_def)
next
  case (Cons a as)
  let ?q1 = "q\<lparr>timer_on := True, os_sfqq := Some (LEntry a)\<rparr>"
  have wf1: "sfq_wf ?q1" by (auto intro!: sfq_wf_same [OF wf])
  have "a \<in> set (queue ?q1)" using Cons by simp
  from limit_outstanding_serves [OF wf1 this] obtain n q' where
    q': "limit_outstanding ?q1 = Inr (n, q')" "serves ?q1 a n q'" by auto
  have "serves (q\<lparr>wrong_sfqq := wrong_sfqq q\<rparr>) a n q'"
    by (rule serves_from [OF q'(2)]) simp
  with q'(1) Cons os show ?thesis by (simp add: sfq_dispatch_def)
qed

lemma second_dispatch_two:
  assumes wf: "sfq_wf q" and hp: "hp \<notin> set (pids q)" and two: "queue q = [a, b]"
    and os: "os_sfqq q = Some (LEntry a)" and w: "wrong_sfqq q = None"
  shows "\<exists>n q'. sfq_dispatch hp q = Some (Inr (n, q')) \<and>
    serves (q\<lparr>wrong_sfqq := Some LHead\<rparr>) a n q' \<and> launch_inv hp q'"
proof -
  have ab: "a \<noteq> b" using sfq_wf_distinct [OF wf] two by auto
  obtain sq where sq: "sfqqs q a = Some sq" using sfq_wf_queue [OF wf, of a] two by auto
  let ?q1 = "q\<lparr>timer_on := True\<rparr>"
  let ?q2 = "q\<lparr>timer_on := True, os_sfqq := Some (LEntry b), wrong_sfqq := Some LHead\<rparr>"
  let ?q3 = "q\<lparr>timer_on := True, os_sfqq := Some (LEntry a), wrong_sfqq := Some LHead\<rparr>"
  have wf2: "sfq_wf ?q2" "sfq_wf ?q3" by (auto intro!: sfq_wf_same [OF wf])
  have hp2: "hp \<notin> set (pids ?q2)" using hp pids_cong [of ?q2 q] by simp
  have "next_dispatch hp ?q2 = Some (Inr (?q2\<lparr>os_sfqq := Some (LEntry (queue ?q2 ! advance (queue ?q2) 1))\<rparr>))"
    by (rule next_dispatch_good [OF wf2(1) hp2]) (simp_all add: two)
  then have "next_dispatch hp ?q2 = Some (Inr ?q3)" by (simp add: advance_def two)
  moreover have "next_dispatch hp ?q1 = next_dispatch hp ?q2"
    using ab by (subst next_dispatch.simps) (simp add: os w two)
  ultimately have nd: "next_dispatch hp ?q1 = Some (Inr ?q3)" by simp
  have a: "a \<in> set (queue ?q3)" "a \<in> set (queue (q\<lparr>wrong_sfqq := Some LHead\<rparr>))" using two by simp_all
  from left_requests_serves [OF wf2(2) a(1)] obtain n q' where
    q': "left_requests ?q3 = Inr (n, q')" "serves ?q3 a n q'" by auto
  from nd q'(1) os have d: "sfq_dispatch hp q = Some (Inr (n, q'))" by (simp add: sfq_dispatch_def)
  have s: "serves (q\<lparr>wrong_sfqq := Some LHead\<rparr>) a n q'"
    by (rule serves_from [OF q'(2)]) simp
  moreover have "launch_inv hp q'"
    using s hp two pids_cong [of "q\<lparr>wrong_sfqq := Some LHead\<rparr>" q]
    by (auto simp: launch_inv_def serves_def)
  ultimately show ?thesis using d by blast
qed

lemma list_head_fault:
  assumes "os_sfqq q = Some LHead" "depth q \<le> REQUEST_DEPTH"
  shows "left_requests q = Inl ListHeadDeref"
  using assms by (simp add: left_requests_def os_queue_empty_def limit_outstanding_def dispatch_section_def os_queue_def)

text \<open>The cursor on the last queue, any position but the list head remembered.\<close>

lemma dispatch_at_end_faults:
  assumes wf: "sfq_wf q" and hp: "hp \<notin> set (pids q)" and ne: "queue q \<noteq> []"
    and os: "os_sfqq q = Some (LEntry (last (queue q)))" and w: "wrong_sfqq q = Some (LEntry c)"
    and c: "c \<in> set (queue q)" and d: "depth q \<le> REQUEST_DEPTH"
  shows "sfq_dispatch hp q = Some (Inl ListHeadDeref)"
proof -
  let ?q1 = "q\<lparr>timer_on := True\<rparr>" and ?i = "length (queue q) - 1"
  obtain sq where sq: "sfqqs q c = Some sq" using sfq_wf_queue [OF wf c] by blast
  have "pid sq \<noteq> hp" using hp c sq by (force simp: pids_def)
  moreover have "list_next_after (queue q) (last (queue q)) = LHead"
    using list_next_after_nth [OF sfq_wf_distinct [OF wf], of ?i] ne by (simp add: last_conv_nth)
  ultimately have "next_dispatch hp ?q1 = Some (Inr (?q1\<lparr>os_sfqq := Some LHead\<rparr>))"
    by (subst next_dispatch.simps) (simp add: os w node_pid_def sq)
  then show ?thesis using os d by (simp add: sfq_dispatch_def list_head_fault)
qed

lemma second_dispatch_single:
  assumes wf: "sfq_wf q" and hp: "hp \<notin> set (pids q)" and one: "queue q = [a]"
    and os: "os_sfqq q = Some (LEntry a)" and w: "wrong_sfqq q = None" and d: "depth q \<le> REQUEST_DEPTH"
  shows "sfq_dispatch hp q = Some (Inl ListHeadDeref)"
proof -
  obtain sq where sq: "sfqqs q a = Some sq" using sfq_wf_queue [OF wf, of a] one by auto
  have ne: "pid sq \<noteq> hp" using hp one sq by (simp add: pids_def)
  let ?q1 = "q\<lparr>timer_on := True\<rparr>"
  let ?q2 = "q\<lparr>timer_on := True, os_sfqq := Some LHead, wrong_sfqq := Some (LEntry a)\<rparr>"
  let ?q3 = "q\<lparr>timer_on := True, os_sfqq := Some (LEntry a), wrong_sfqq := Some (LEntry a)\<rparr>"
  have "next_dispatch hp ?q3 = Some (Inr ?q2)"
    using ne by (subst next_dispatch.simps) (simp add: node_pid_def sq one)
  moreover have "next_dispatch hp (?q2\<lparr>os_sfqq := Some (LEntry a)\<rparr>) = next_dispatch hp ?q3"
    by (rule arg_cong [of _ _ "next_dispatch hp"]) (cases q, simp)
  moreover have "next_dispatch hp ?q2 = next_dispatch hp (?q2\<lparr>os_sfqq := Some (LEntry a)\<rparr>)"
    by (subst next_dispatch.simps) (simp add: node_pid_def sq one)
  moreover have "next_dispatch hp ?q1 = next_dispatch hp ?q2"
    by (subst next_dispatch.simps) (simp add: os w one)
  ultimately have "next_dispatch hp ?q1 = Some (Inr ?q2)" by (simp only:)
  then show ?thesis using os d by (simp add: sfq_dispatch_def list_head_fault)
qed

section \<open>Properties\<close>

text \<open>Two processes (pids 7 and 8) with two and one waiting requests; \<open>ring\<close> gives the queues.\<close>

definition launch_example :: "nat list \<Rightarrow> nat lnode option \<Rightarrow> nat lnode option \<Rightarrow> launch_sfq" where
  "launch_example ring os wrong = \<lparr>
     rqs = (\<lambda>i. if i < 4 then Some ((plain_request (10 * i))\<lparr>priv0 := Some 50, priv1 := Some (100 + i)\<rparr>) else None),
     queue_head = [], last_merge = None, end_sector = 0, boundary_rq = None, nr_sorted = 3,
     in_flight = (\<lambda>_. 0), nr_pending = 0, rqhash = (\<lambda>_. []), nomerges = False, noxmerges = False,
     run_count = 0, virtual_time = 0, depth = 0, requests = [None, None], prev_sfqr = None,
     os_sfqq = os, queue = ring, sfqq_size = int (length ring), sfqr_size = 3, heap_size = 0,
     heap_limit_size = 2, timer_on = False, unplug_pending = False,
     sfqrs = (\<lambda>s. if 100 \<le> s \<and> s < 104 then
                 Some \<lparr>start_tag = 0, finish_tag = 100, sr_rq = Some (s - 100)\<rparr> else None),
     sfqqs = [50 \<mapsto> \<lparr>pid = 7, sq_list = [101, 102]\<rparr>, 51 \<mapsto> \<lparr>pid = 8, sq_list = [103]\<rparr>],
     chara_locker = 0, frisk_locker = 1, wrong_sfqq = wrong\<rparr>"

lemma launch_example_wf:
  "ring \<in> {[50], [50, 51]} \<Longrightarrow> sfq_wf (launch_example ring os wrong)"
  "pids (launch_example [50] os wrong) = [7]" "pids (launch_example [50, 51] os wrong) = [7, 8]"
  by (auto simp: launch_example_def sfq_wf_def pids_def backlog_def live_sfqr_iff)

lemma launch_example_fields [simp]:
  "queue (launch_example ring os wrong) = ring" "os_sfqq (launch_example ring os wrong) = os"
  "wrong_sfqq (launch_example ring os wrong) = wrong" "depth (launch_example ring os wrong) = 0"
  "sfqqs (launch_example ring os wrong) 52 = None" "sfqrs (launch_example ring os wrong) 110 = None"
  "rqs (launch_example ring os wrong) 3 = Some ((plain_request 30)\<lparr>priv0 := Some 50, priv1 := Some 103\<rparr>)"
  by (simp_all add: launch_example_def)

text \<open>C9: With the list head remembered in \<open>wrong_sfqq\<close> (and the word found at the head's pid not a
  process's), every dispatch returns without a fault, moves the cursor to the next queue of the
  ring, wrapping over the head, and serves it: an empty queue yields 0 and no change of the
  backlog, more than 64 outstanding requests yield 0, otherwise exactly the first request of that
  queue goes to its sorted place on the dispatch list and the depth grows by one.\<close>

theorem launch_round_robin:
  assumes "sfq_wf q" "hp \<notin> set (pids q)" "wrong_sfqq q = Some LHead"
    and "i < length (queue q)" "os_sfqq q = Some (LEntry (queue q ! i))"
  shows "\<exists>n q'. sfq_dispatch hp q = Some (Inr (n, q')) \<and> serves q (queue q ! ((i + 1) mod length (queue q))) n q'"
proof -
  have "advance (queue q) i = (i + 1) mod length (queue q)"
    using assms(4) by (auto simp: advance_def intro: Suc_lessI)
  with dispatch_good_step [OF assms(1-3,5,4)] show ?thesis by metis
qed

theorem launch_round_robin_witness:
  "\<exists>n q'. sfq_dispatch 0 (launch_example [50, 51] (Some (LEntry 51)) (Some LHead)) = Some (Inr (n, q')) \<and>
     serves (launch_example [50, 51] (Some (LEntry 51)) (Some LHead)) 50 n q'"
  using launch_round_robin [of "launch_example [50, 51] (Some (LEntry 51)) (Some LHead)" 0 1]
    launch_example_wf
  by simp

text \<open>C16: From such a state the elevator's drain loop ends: no dispatch faults, none of the waiting
  requests is lost or duplicated, and what is not on the dispatch list at the end is still in the
  backlog.\<close>

theorem launch_drain:
  assumes "launch_inv hp q"
  shows "\<exists>k q'. elv_drain_elevator (sfq_dispatch hp) printed q = Some (Inr (k, q')) \<and> launch_inv hp q' \<and>
     sfq_pending q' \<subseteq># sfq_pending q \<and>
     sfq_pending q' + mset (queue_head q') = sfq_pending q + mset (queue_head q)"
  using launch.drain_terminates [OF assms] by (auto simp: elv_drain_elevator_def)

theorem launch_drain_witness:
  "\<exists>k q'. elv_drain_elevator (sfq_dispatch 0) 0 (launch_example [50, 51] (Some (LEntry 51)) (Some LHead)) =
     Some (Inr (k, q'))"
  using launch_drain [of 0 "launch_example [50, 51] (Some (LEntry 51)) (Some LHead)" 0] launch_example_wf
  by (auto simp: launch_inv_def)

text \<open>How the good state is reached: when the second dispatch finds exactly two queues, the code
  remembers the list head, serves the first queue again and is in the good state from then on.\<close>

theorem launch_second_dispatch:
  assumes "sfq_wf q" "hp \<notin> set (pids q)" "queue q = [a, b]" "os_sfqq q = Some (LEntry a)"
    "wrong_sfqq q = None"
  shows "\<exists>n q'. sfq_dispatch hp q = Some (Inr (n, q')) \<and>
    serves (q\<lparr>wrong_sfqq := Some LHead\<rparr>) a n q' \<and> launch_inv hp q'"
  using assms by (rule second_dispatch_two)

theorem launch_second_dispatch_witness:
  "\<exists>n q'. sfq_dispatch 0 (launch_example [50, 51] (Some (LEntry 50)) None) = Some (Inr (n, q')) \<and> launch_inv 0 q'"
  using launch_second_dispatch [of "launch_example [50, 51] (Some (LEntry 50)) None" 0 50 51] launch_example_wf
  by auto

text \<open>C15: Any other remembered position is fatal: once the cursor is on the last queue, a dispatch
  below the depth limit walks onto the list head and takes a request from the scheduler data.
  With a single process this already happens in the second dispatch.\<close>

theorem launch_list_head_fault:
  assumes "sfq_wf q" "hp \<notin> set (pids q)" "queue q \<noteq> []" "depth q \<le> REQUEST_DEPTH"
    and "os_sfqq q = Some (LEntry (last (queue q)))"
    and "(\<exists>c \<in> set (queue q). wrong_sfqq q = Some (LEntry c)) \<or> wrong_sfqq q = None \<and> length (queue q) = 1"
  shows "sfq_dispatch hp q = Some (Inl ListHeadDeref)"
proof (cases "wrong_sfqq q")
  case None
  with assms(6) obtain a where "queue q = [a]" by (auto simp: length_Suc_conv)
  with None assms show ?thesis using second_dispatch_single by fastforce
next
  case (Some w)
  with assms(6) obtain c where "c \<in> set (queue q)" "wrong_sfqq q = Some (LEntry c)" by auto
  with assms(1-5) show ?thesis using dispatch_at_end_faults by blast
qed

theorem launch_list_head_fault_witness:
  "sfq_dispatch 0 (launch_example [50] (Some (LEntry 50)) None) = Some (Inl ListHeadDeref)"
  by (rule launch_list_head_fault)
     (simp_all add: launch_example_wf REQUEST_DEPTH_def)

text \<open>\<open>set_request\<close> returns 0 and leaves the request assigned to the queue of the current process
  and to a fresh struct; a queue is created exactly when the process had none, so there is never
  more than one per process, and the backlog is untouched.\<close>

theorem launch_set_request:
  assumes "sfq_wf q" "rqs q rq = Some r" "a \<notin> dom (sfqqs q)" "s \<notin> dom (sfqrs q)"
  shows "\<exists>q' b r'. sfq_set_request True cur grown (Some a) (Some s) (Some rq) q = Inr (0, q') \<and>
     sfq_wf q' \<and> sfq_pending q' = sfq_pending q \<and>
     rqs q' rq = Some r' \<and> priv0 r' = Some b \<and> priv1 r' = Some s \<and>
     b \<in> set (queue q') \<and> pid (the (sfqqs q' b)) = cur \<and>
     queue q' = (if cur \<in> set (pids q) then queue q else queue q @ [a])"
  using set_request_with_wf [OF assms, of 2 cur grown] unfolding sfq_set_request_def
  by (fastforce split: if_splits)

theorem launch_set_request_witness:
  "\<exists>q'. sfq_set_request True 9 True (Some 52) (Some 110) (Some 3) (launch_example [50, 51] None None) = Inr (0, q')
     \<and> queue q' = [50, 51, 52]"
  using launch_set_request [of "launch_example [50, 51] None None" 3
      "(plain_request 30)\<lparr>priv0 := Some 50, priv1 := Some 103\<rparr>" 52 110 9 True] launch_example_wf
  by (auto simp: domIff)

text \<open>C17: The start tags of a fresh scheduler: the \<open>n\<close>-th request added, counted from 0, gets the tag
  \<open>100 * n\<close> whatever process it belongs to, until the finish tag overflows 32 bits; from then on
  every request gets the same tag 2147483600.\<close>

theorem launch_start_tags:
  assumes "virtual_time q = 0" "prev_sfqr q = None"
    and "\<forall>rq \<in> set l. prepared q rq" "distinct (map (sfqr_of q) l)"
  shows "\<exists>q'. add_requests l q = Inr q' \<and>
    (\<forall>i < length l. map_option start_tag (sfqrs q' (sfqr_of q (l ! i))) =
       Some (min (100 * int i) 2147483600))"
proof -
  have "tagged 0 q" using assms(1,2) by (simp add: tagged_def)
  from add_requests_tags [OF this assms(3,4)] show ?thesis by (auto simp: nth_tag_def)
qed

theorem launch_start_tags_witness:
  "\<exists>q'. add_requests [1, 2, 3] (launch_example [50, 51] None None) = Inr q' \<and>
     map_option start_tag (sfqrs q' 103) = Some 200"
proof -
  let ?q = "launch_example [50, 51] None None"
  have p: "\<forall>rq \<in> set [1, 2, 3]. prepared ?q rq" by (simp add: prepared_def launch_example_def)
  have f: "sfqr_of ?q 1 = 101" "sfqr_of ?q 2 = 102" "sfqr_of ?q 3 = 103"
    by (simp_all add: sfqr_of_def launch_example_def)
  have i: "virtual_time ?q = 0" "prev_sfqr ?q = None" by (simp_all add: launch_example_def)
  from launch_start_tags [OF i p] f obtain q' where
    q': "add_requests [1, 2, 3] ?q = Inr q'"
      "\<forall>i < length [1 :: nat, 2, 3]. map_option start_tag (sfqrs q' (sfqr_of ?q ([1, 2, 3] ! i))) =
         Some (min (100 * int i) 2147483600)" by auto
  from q'(2) have "map_option start_tag (sfqrs q' 103) = Some 200"
    using f by (auto dest: spec [of _ 2])
  with q'(1) show ?thesis by blast
qed

text \<open>C18: The struct of the request added last stays referenced by \<open>prev_sfqr\<close>: once the block layer has
  put that request, adding any further request reads freed memory.\<close>

theorem launch_prev_sfqr_dangles:
  assumes "rqs q rq = Some r" "priv1 r = Some s" "prev_sfqr q = Some s" "sfqrs q s \<noteq> None"
    and "rqs q rq2 \<noteq> None"
  shows "bindE (sfq_put_request rq q) (sfq_add_request rq2) = Inl UseAfterFree"
  using assms by (auto simp: sfq_put_request_def sfq_add_request_def next_start_tag_def)

theorem launch_prev_sfqr_dangles_witness:
  "bindE (sfq_put_request 2 ((launch_example [50, 51] None None)\<lparr>prev_sfqr := Some 102\<rparr>)) (sfq_add_request 3) =
   Inl UseAfterFree"
  by (rule launch_prev_sfqr_dangles [where r = "(plain_request 20)\<lparr>priv0 := Some 50, priv1 := Some 102\<rparr>" and s = 102])
     (simp_all add: launch_example_def)

end
