(* ===== verification/Sfq_Merge.thy ===== *)
theory Sfq_Merge
  imports ElvCore_Correct Sfq_Launch
begin

text \<open>
  The released SFQ scheduler plugged into the elevator core.  Its table has no
  \<open>elevator_merge_req_fn\<close>, so the scheduler is not told when the core merges one waiting
  request into another; what the next dispatch then does.
\<close>

section \<open>The scheduler's operations table\<close>

text \<open>The arguments are those of the operations: the word at the list head, and for
  \<open>set_request\<close> the bio, the current process and the outcomes of the allocations.\<close>

definition launch_ops ::
  "int \<Rightarrow> bool \<Rightarrow> int \<Rightarrow> bool \<Rightarrow> nat option \<Rightarrow> nat option \<Rightarrow> launch_sfq elv_ops" where
  "launch_ops hp bio cur grown qmem rmem = \<lparr>allow_bio_merge_fn = None, merge_fn = None,
     merged_fn = None, merge_req_fn = None, bio_merged_fn = None,
     dispatch_fn = sfq_dispatch hp, add_req_fn = (\<lambda>q rq. sfq_add_request rq q),
     deactivate_req_fn = None, former_req_fn = None, latter_req_fn = None,
     set_req_fn = Some (\<lambda>q rq. sfq_set_request bio cur grown qmem rmem (Some rq) q),
     put_req_fn = Some (\<lambda>q rq. sfq_put_request rq q), may_queue_fn = None,
     completed_req_fn = Some (\<lambda>q _. Inr (sfq_completed q))\<rparr>"

lemma launch_ops_simps [simp]:
  "merge_req_fn (launch_ops hp bio cur grown qmem rmem) = None"
  "put_req_fn (launch_ops hp bio cur grown qmem rmem) = Some (\<lambda>q rq. sfq_put_request rq q)"
  by (simp_all add: launch_ops_def)

section \<open>What the core changes while merging\<close>

lemma elv_rqhash_reposition_ok:
  assumes "rqs q rq = Some r"
  shows "\<exists>m h. elv_rqhash_reposition hf rq q = Inr (q\<lparr>rqs := m, rqhash := h\<rparr>) \<and> same_requests (rqs q) m"
proof -
  let ?m = "(rqs q)(rq \<mapsto> r\<lparr>cmd_flags := insert REQ_HASHED (cmd_flags r - {REQ_HASHED})\<rparr>)"
  let ?b = "hf (rq_hash_key (r\<lparr>cmd_flags := cmd_flags r - {REQ_HASHED}\<rparr>))"
  let ?h = "hash_remove rq (rqhash q)"
  have "elv_rqhash_reposition hf rq q = Inr (q\<lparr>rqs := ?m, rqhash := ?h(?b := rq # ?h ?b)\<rparr>)"
    using assms by (cases q) (simp add: elv_rqhash_reposition_def elv_rqhash_del'_def elv_rqhash_add_def
        upd_rq_def ELV_ON_HASH_def Let_def)
  moreover have "same_requests (rqs q) ?m"
    using assms by (intro same_requests_upd) (auto simp: rq_core_def)
  ultimately show ?thesis by blast
qed

lemma merge_requests_untold:
  assumes "rqs q rq \<noteq> None" "rqs q next \<noteq> None" "merge_req_fn ops = None"
  shows "\<exists>m h n lm. elv_merge_requests ops blk rq next q =
       Inr (q\<lparr>rqs := m, rqhash := h, nr_sorted := n, last_merge := lm\<rparr>) \<and> same_requests (rqs q) m"
proof -
  from assms(2) obtain x where x: "rqs q next = Some x" by blast
  from assms(1) obtain w where w: "rqs q rq = Some w" by blast
  from elv_rqhash_reposition_ok [OF w] obtain m h where
    r: "elv_rqhash_reposition (bkt blk) rq q = Inr (q\<lparr>rqs := m, rqhash := h\<rparr>)" "same_requests (rqs q) m"
    by blast
  from same_requestsD [OF r(2) x] obtain y where y: "m next = Some y" by blast
  from elv_rqhash_del_ok [of "q\<lparr>rqs := m, rqhash := h\<rparr>" "next" y] y obtain m' h' where
    d: "elv_rqhash_del next (q\<lparr>rqs := m, rqhash := h\<rparr>) = Inr (q\<lparr>rqs := m', rqhash := h'\<rparr>)"
      "same_requests m m'" by auto
  show ?thesis
  proof (cases "REQ_SORTED \<in> cmd_flags x")
    case True
    have "elv_merge_requests ops blk rq next q =
        Inr (q\<lparr>rqs := m', rqhash := h', nr_sorted := nr_sorted q - 1, last_merge := Some rq\<rparr>)"
      using x r(1) d(1) True assms(3) by (simp add: elv_merge_requests_def)
    with same_requests_trans [OF r(2) d(2)] show ?thesis by blast
  next
    case False
    have "elv_merge_requests ops blk rq next q =
        Inr (q\<lparr>rqs := m, rqhash := h, nr_sorted := nr_sorted q, last_merge := Some rq\<rparr>)"
      using x r(1) False assms(3) by (simp add: elv_merge_requests_def)
    with r(2) show ?thesis by blast
  qed
qed

section \<open>The next dispatch\<close>

text \<open>The dispatch that finds a released struct at the head of the queue it serves.\<close>

lemma dispatch_section_released:
  assumes "os_sfqq q = Some (LEntry a)" "sfqqs q a = Some sq" "sq_list sq = s # rest" "sfqrs q s = None"
  shows "dispatch_section q = Inl UseAfterFree"
  using assms by (simp add: dispatch_section_def os_queue_def pop_sfqq_def)

lemma left_requests_released:
  assumes "os_sfqq q = Some (LEntry a)" "sfqqs q a = Some sq" "sq_list sq = s # rest" "sfqrs q s = None"
    and "depth q \<le> REQUEST_DEPTH"
  shows "left_requests q = Inl UseAfterFree"
  using assms dispatch_section_released [OF assms(1-4)]
  by (simp add: left_requests_def os_queue_empty_def limit_outstanding_def)

section \<open>Properties\<close>

text \<open>C25: The released scheduler is not told about merges: when the elevator core merges a waiting
  request into another and puts it, the scheduler frees its struct, but the struct stays on the
  queue of its process, so the next dispatch that serves this queue reads freed memory.\<close>

theorem merged_request_faults:
  assumes "sfq_wf q" "hp \<notin> set (pids q)" "wrong_sfqq q = Some LHead"
    and "i < length (queue q)" "os_sfqq q = Some (LEntry (queue q ! i))"
    and "a = queue q ! ((i + 1) mod length (queue q))"
    and "sq_list (the (sfqqs q a)) = s # rest" "rqs q next = Some r" "priv1 r = Some s"
    and "rqs q rq \<noteq> None" "depth q \<le> REQUEST_DEPTH"
  shows "\<exists>q1 q2. elv_merge_requests (launch_ops hp bio cur grown qmem rmem) blk rq next q = Inr q1 \<and>
     elv_put_request (launch_ops hp bio cur grown qmem rmem) next q1 = Inr q2 \<and>
     sq_list (the (sfqqs q2 a)) = s # rest \<and> sfqrs q2 s = None \<and>
     sfq_dispatch hp q2 = Some (Inl UseAfterFree)"
proof -
  have ai: "advance (queue q) i = (i + 1) mod length (queue q)"
    using assms(4) by (auto simp: advance_def intro: Suc_lessI)
  have a: "a \<in> set (queue q)" using assms(4,6) by (metis advance_less ai nth_mem)
  with assms(1) obtain sq where sq: "sfqqs q a = Some sq" by (blast dest: sfq_wf_queue)
  have "s \<in> set (backlog q)" using a assms(7) by (force simp: in_backlog)
  with sfq_wf_live [OF assms(1)] obtain sr where sr: "sfqrs q s = Some sr" by blast
  let ?ops = "launch_ops hp bio cur grown qmem rmem"
  from merge_requests_untold [of q rq "next" ?ops blk] assms(8,10) obtain m h n lm where
    m: "elv_merge_requests ?ops blk rq next q =
        Inr (q\<lparr>rqs := m, rqhash := h, nr_sorted := n, last_merge := lm\<rparr>)" "same_requests (rqs q) m" by auto
  let ?q1 = "q\<lparr>rqs := m, rqhash := h, nr_sorted := n, last_merge := lm\<rparr>"
  from same_requestsD [OF m(2) assms(8)] obtain r' where "m next = Some r'" "rq_core r' = rq_core r" by blast
  with assms(9) have r': "m next = Some r'" "priv1 r' = Some s" by (auto dest: arg_cong [of _ _ priv1])
  let ?q2 = "?q1\<lparr>sfqrs := (sfqrs q)(s := None)\<rparr>"
  have put: "elv_put_request ?ops next ?q1 = Inr ?q2"
    using r' sr by (simp add: elv_put_request_def sfq_put_request_def)
  let ?q3 = "?q2\<lparr>timer_on := True\<rparr>"
  have nd: "next_dispatch hp ?q3 = Some (Inr (?q3\<lparr>os_sfqq := Some (LEntry a)\<rparr>))"
    using next_dispatch_frame [OF assms(1-5), of ?q3] ai assms(6) by simp
  have "left_requests (?q3\<lparr>os_sfqq := Some (LEntry a)\<rparr>) = Inl UseAfterFree"
    using sq assms(7,11) by (intro left_requests_released [of _ a sq s rest]) simp_all
  with nd assms(5) have "sfq_dispatch hp ?q2 = Some (Inl UseAfterFree)" by (simp add: sfq_dispatch_def)
  with m(1) put sq assms(7) show ?thesis by simp
qed

theorem merged_request_faults_witness:
  "\<exists>q1 q2. elv_merge_requests (launch_ops 0 True 7 True None None) (blk_example) 2 1
       (launch_example [50, 51] (Some (LEntry 51)) (Some LHead)) = Inr q1 \<and>
     elv_put_request (launch_ops 0 True 7 True None None) 1 q1 = Inr q2 \<and>
     sfq_dispatch 0 q2 = Some (Inl UseAfterFree)"
proof -
  let ?q = "launch_example [50, 51] (Some (LEntry 51)) (Some LHead)"
  have 1: "sfq_wf ?q" "0 \<notin> set (pids ?q)" "1 < length (queue ?q)"
    by (simp_all add: launch_example_wf)
  have 2: "wrong_sfqq ?q = Some LHead" "os_sfqq ?q = Some (LEntry (queue ?q ! 1))"
    "50 = queue ?q ! ((1 + 1) mod length (queue ?q))" by simp_all
  have 3: "sq_list (the (sfqqs ?q 50)) = 101 # [102]"
    "rqs ?q 1 = Some ((plain_request 10)\<lparr>priv0 := Some 50, priv1 := Some 101\<rparr>)"
    "priv1 ((plain_request 10)\<lparr>priv0 := Some 50, priv1 := Some 101\<rparr>) = Some 101"
    "rqs ?q 2 \<noteq> None" by (simp_all add: launch_example_def)
  have 4: "depth ?q \<le> REQUEST_DEPTH" by (simp add: REQUEST_DEPTH_def)
  from merged_request_faults [OF 1(1,2) 2(1) 1(3) 2(2,3) 3 4] show ?thesis by blast
qed

end
