(* ===== verification/RoundRobin.thy ===== *)
theory RoundRobin
  imports Sfq_Inv
begin

text \<open>
  The abstract specification of the SFQ dispatchers: FIFO queues served in turn.  A step
  moves the cursor to the next queue and takes that queue's first request, if there is one;
  a full turn serves every queue exactly once.
\<close>

record round_robin =
  rr_queues :: "nat list list"
  rr_cursor :: nat

definition rr_next :: "round_robin \<Rightarrow> nat" where
  "rr_next s = (rr_cursor s + 1) mod length (rr_queues s)"

definition rr_step :: "round_robin \<Rightarrow> nat option \<times> round_robin" where
  "rr_step s =
     (let j = rr_next s; l = rr_queues s ! j in
      (list_first l, \<lparr>rr_queues = (rr_queues s)[j := tl l], rr_cursor = j\<rparr>))"

fun rr_run :: "nat \<Rightarrow> round_robin \<Rightarrow> nat option list \<times> round_robin" where
  "rr_run 0 s = ([], s)"
| "rr_run (Suc k) s =
     (let (rs, t) = rr_run k s; (r, u) = rr_step t in (rs @ [r], u))"

text \<open>The first requests of the queues in the order of one turn from the cursor.\<close>

definition rr_heads :: "nat \<Rightarrow> round_robin \<Rightarrow> nat option list" where
  "rr_heads k s =
     map (\<lambda>m. list_first (rr_queues s ! ((rr_cursor s + 1 + m) mod length (rr_queues s)))) [0..<k]"

lemma mod_shift_inj:
  fixes n :: nat
  assumes "(c + t) mod n = (c + k) mod n" "t < n" "k < n"
  shows "t = k"
proof (cases "t \<le> k")
  case True
  with assms have "n dvd k - t" using mod_eq_dvd_iff_nat [of "c + t" "c + k" n] by simp
  with assms True show ?thesis by (auto dest: dvd_imp_le)
next
  case False
  with assms have "n dvd t - k" using mod_eq_dvd_iff_nat [of "c + k" "c + t" n] by simp
  with assms False show ?thesis by (auto dest: dvd_imp_le)
qed

lemma rr_run_turn:
  assumes n: "n = length (rr_queues s)" and k: "k \<le> n" and c: "rr_cursor s < n"
  shows "\<exists>t. rr_run k s = (rr_heads k s, t) \<and> length (rr_queues t) = n \<and>
    rr_cursor t = (rr_cursor s + k) mod n \<and>
    (\<forall>m < n. rr_queues t ! m =
       (if \<exists>j < k. m = (rr_cursor s + 1 + j) mod n then tl (rr_queues s ! m) else rr_queues s ! m))"
  using k
proof (induction k)
  case 0
  then show ?case using n c by (simp add: rr_heads_def)
next
  case (Suc k)
  then obtain t where t: "rr_run k s = (rr_heads k s, t)" "length (rr_queues t) = n"
    "rr_cursor t = (rr_cursor s + k) mod n"
    "\<forall>m < n. rr_queues t ! m =
       (if \<exists>j < k. m = (rr_cursor s + 1 + j) mod n then tl (rr_queues s ! m) else rr_queues s ! m)"
    by auto
  let ?j = "(rr_cursor s + 1 + k) mod n"
  have j: "?j < n" using c by simp
  have nx: "rr_next t = ?j" using t(2,3) by (simp add: rr_next_def mod_Suc_eq ac_simps)
  have "\<not> (\<exists>i < k. ?j = (rr_cursor s + 1 + i) mod n)"
  proof clarify
    fix i assume "i < k" "?j = (rr_cursor s + 1 + i) mod n"
    with mod_shift_inj [of "rr_cursor s + 1" k n i] Suc.prems show False by simp
  qed
  then have same: "rr_queues t ! ?j = rr_queues s ! ?j" using t(4) j by metis
  let ?u = "\<lparr>rr_queues = (rr_queues t)[?j := tl (rr_queues s ! ?j)], rr_cursor = ?j\<rparr>"
  have "rr_run (Suc k) s = (rr_heads (Suc k) s, ?u)"
    using t(1) nx same n by (simp add: rr_step_def Let_def rr_heads_def)
  moreover have "rr_queues ?u ! m =
       (if \<exists>j < Suc k. m = (rr_cursor s + 1 + j) mod n then tl (rr_queues s ! m) else rr_queues s ! m)"
    if "m < n" for m
    using that t(2,4) by (auto simp: nth_list_update less_Suc_eq)
  moreover have "length (rr_queues ?u) = n" "rr_cursor ?u = (rr_cursor s + Suc k) mod n"
    using t(2) by simp_all
  ultimately show ?case by blast
qed

text \<open>A full turn: every queue has lost its first request and the cursor is back.\<close>

lemma rr_full_turn:
  assumes "n = length (rr_queues s)" "rr_cursor s < n"
  shows "rr_run n s = (rr_heads n s, \<lparr>rr_queues = map tl (rr_queues s), rr_cursor = rr_cursor s\<rparr>)"
proof -
  from rr_run_turn [OF assms(1) order_refl assms(2)] obtain t where
    t: "rr_run n s = (rr_heads n s, t)" "length (rr_queues t) = n" "rr_cursor t = (rr_cursor s + n) mod n"
    "\<forall>m < n. rr_queues t ! m =
       (if \<exists>j < n. m = (rr_cursor s + 1 + j) mod n then tl (rr_queues s ! m) else rr_queues s ! m)"
    by blast
  have "\<exists>j < n. m = (rr_cursor s + 1 + j) mod n" if "m < n" for m
  proof -
    let ?c = "rr_cursor s + 1"
    let ?j = "(m + n - ?c) mod n"
    have "(?c + ?j) mod n = (?c + (m + n - ?c)) mod n" by (rule mod_add_right_eq)
    also have "?c + (m + n - ?c) = m + n" using assms(2) by simp
    finally have "m = (?c + ?j) mod n" using that by simp
    moreover have "?j < n" using that by (intro mod_less_divisor) simp
    ultimately show ?thesis by blast
  qed
  then have "rr_queues t = map tl (rr_queues s)"
    using t(2,4) assms(1) by (intro nth_equalityI) auto
  moreover have "rr_cursor t = rr_cursor s" using t(3) assms(2) by simp
  ultimately show ?thesis using t(1) by simp
qed

section \<open>The abstraction of a scheduler state\<close>

definition rr_abs :: "nat \<Rightarrow> 'a sfq_base_scheme \<Rightarrow> round_robin" where
  "rr_abs i q = \<lparr>rr_queues = map (\<lambda>a. map (rq_of q) (sq_list (the (sfqqs q a)))) (queue q), rr_cursor = i\<rparr>"

lemma rr_next_abs [simp]: "rr_next (rr_abs i q) = (i + 1) mod length (queue q)"
  by (simp add: rr_next_def rr_abs_def)

lemma rr_abs_pop:
  assumes d: "distinct (queue q)" and j: "j < length (queue q)"
    and same: "queue q' = queue q" "sfqrs q' = sfqrs q" "\<forall>b. b \<noteq> queue q ! j \<longrightarrow> sfqqs q' b = sfqqs q b"
    and l: "sq_list (the (sfqqs q' (queue q ! j))) = tl (sq_list (the (sfqqs q (queue q ! j))))"
  shows "rr_abs j q' = \<lparr>rr_queues = (rr_queues (rr_abs i q))[j := tl (rr_queues (rr_abs i q) ! j)], rr_cursor = j\<rparr>"
proof -
  have rq: "rq_of q' = rq_of q" using same(2) by (simp add: rq_of_def fun_eq_iff)
  have "map (\<lambda>a. map (rq_of q') (sq_list (the (sfqqs q' a)))) (queue q') =
     (map (\<lambda>a. map (rq_of q) (sq_list (the (sfqqs q a)))) (queue q))
       [j := map (rq_of q) (tl (sq_list (the (sfqqs q (queue q ! j)))))]"
  proof (rule nth_equalityI)
    fix m assume "m < length (map (\<lambda>a. map (rq_of q') (sq_list (the (sfqqs q' a)))) (queue q'))"
    then have m: "m < length (queue q)" using same(1) by simp
    show "map (\<lambda>a. map (rq_of q') (sq_list (the (sfqqs q' a)))) (queue q') ! m =
      (map (\<lambda>a. map (rq_of q) (sq_list (the (sfqqs q a)))) (queue q))
        [j := map (rq_of q) (tl (sq_list (the (sfqqs q (queue q ! j)))))] ! m"
      using m j d same(1,3) l rq by (cases "m = j") (auto simp: nth_eq_iff_index_eq)
  qed (simp add: same(1))
  then show ?thesis using j by (simp add: rr_abs_def map_tl)
qed

end
