(* ===== verification/Sfq_Beta.thy ===== *)
theory Sfq_Beta
  imports RoundRobin
begin

text \<open>
  The last beta scheduler (\<open>ssd_scheduler_beta/sfq-iosched_12.c\<close>): the round-robin counts its
  moves (\<open>sfqq_total_seek\<close>) to skip the list head, and every dispatched request passes
  through a heap ordered by start tags.
\<close>

section \<open>Model\<close>

record sfq_beta = sfq_base +
  sfqq_total_seek :: int

definition sfq_init_queue ::
  "bool \<Rightarrow> bool \<Rightarrow> 'a sfq_beta_scheme \<Rightarrow> 'a sfq_beta_scheme init_result" where
  "sfq_init_queue eq_ok sfqd_ok q =
     (if \<not> eq_ok then \<lparr>ret = - ENOMEM, eq_released = False, result_queue = q\<rparr>
      else if \<not> sfqd_ok then \<lparr>ret = - ENOMEM, eq_released = True, result_queue = q\<rparr>
      else \<lparr>ret = 0, eq_released = False, result_queue =
        q\<lparr>virtual_time := 0, depth := 0, prev_sfqr := None, os_sfqq := None, sfqq_size := 0,
          sfqq_total_seek := 0, sfqr_size := 0, heap_size := 0, heap_limit_size := 0, queue := [],
          unplug_pending := False, timer_on := False\<rparr>\<rparr>)"

definition sfq_set_request ::
  "int \<Rightarrow> bool \<Rightarrow> nat option \<Rightarrow> nat option \<Rightarrow> nat \<Rightarrow> 'a sfq_beta_scheme \<Rightarrow> (int \<times> 'a sfq_beta_scheme) res" where
  "sfq_set_request cur grown qmem rmem rq q =
     bindE (set_request_with 1 cur grown qmem rmem rq q) (\<lambda>q. Inr (0, q))"

text \<open>The \<open>next_dispatch\<close> loop; \<open>None\<close> is "never leaves the loop".\<close>

partial_function (option) next_dispatch :: "'a sfq_beta_scheme \<Rightarrow> 'a sfq_beta_scheme res option" where
  "next_dispatch q =
     (case os_sfqq q of
        None \<Rightarrow> Some (Inl NullDeref)
      | Some p \<Rightarrow>
          if sfqq_total_seek q = sfqq_size q
          then next_dispatch (q\<lparr>os_sfqq := Some (list_next (queue q) p), sfqq_total_seek := 0\<rparr>)
          else Some (Inr (q\<lparr>os_sfqq := Some (list_next (queue q) p),
                            sfqq_total_seek := sfqq_total_seek q + 1\<rparr>)))"

text \<open>Moving the first request of the queue \<open>a\<close> into the heap, when there is room.\<close>

definition heap_transfer :: "nat \<Rightarrow> nat \<Rightarrow> 'a sfq_beta_scheme \<Rightarrow> 'a sfq_beta_scheme res" where
  "heap_transfer a sfqr q =
     (if int (heap_size q) < int (heap_limit_size q) - 1 then
        bindE (pop_sfqq a q) (\<lambda>q.
        let index = heap_size q; q = q\<lparr>heap_size := heap_size q + 1\<rparr> in
        bindE (sift_up_at start_tag (sfqrs q) (requests q) index sfqr) (\<lambda>arr.
          Inr (q\<lparr>requests := arr\<rparr>)))
      else Inr (kblockd_schedule_work q))"

definition dispatch_section :: "'a sfq_beta_scheme \<Rightarrow> (int \<times> 'a sfq_beta_scheme) res" where
  "dispatch_section q =
     (if heap_size q > 0 then
        bindE (aget (requests q) 0) (\<lambda>s.
        bindE (deref (sfqrs q) s) (\<lambda>sfqr.
        let rq = sr_rq sfqr; n = heap_size q - 1 in
        bindE (aget (requests q) n) (\<lambda>l.
        bindE (aset (requests q) 0 l) (\<lambda>arr.
        let q = q\<lparr>requests := arr, heap_size := n\<rparr> in
        bindE (if heap_size q > 1 then sfq_heapify 0 q else Inr q) (\<lambda>q.
          case rq of
            None \<Rightarrow> Inl NullDeref
          | Some rq \<Rightarrow>
              bindE (elv_dispatch_sort rq q) (\<lambda>q. Inr (1, q\<lparr>depth := depth q + 1\<rparr>)))))))
      else Inr (0, q))"

definition limit_outstanding :: "'a sfq_beta_scheme \<Rightarrow> (int \<times> 'a sfq_beta_scheme) res" where
  "limit_outstanding q =
     (if depth q > REQUEST_DEPTH
      then Inr (0, if sfqr_size q \<noteq> 0 then kblockd_schedule_work q else q)
      else
        bindE (os_queue q) (\<lambda>(a, sfqq).
        bindE (case list_first (sq_list sfqq) of
                 None \<Rightarrow> Inr q
               | Some sfqr \<Rightarrow> heap_transfer a sfqr q) dispatch_section))"

definition left_requests :: "'a sfq_beta_scheme \<Rightarrow> (int \<times> 'a sfq_beta_scheme) res" where
  "left_requests q =
     bindE (os_queue_empty q) (\<lambda>empty.
       if empty
       then dispatch_section (if sfqr_size q \<noteq> 0 then kblockd_schedule_work q else q)
       else limit_outstanding q)"

definition sfq_dispatch :: "'a sfq_beta_scheme \<Rightarrow> (int \<times> 'a sfq_beta_scheme) res option" where
  "sfq_dispatch q0 =
     (let q = q0\<lparr>timer_on := False\<rparr> in
      case os_sfqq q of
        None \<Rightarrow>
          (case list_first (queue q) of
             None \<Rightarrow> Some (Inr (0, q\<lparr>os_sfqq := None\<rparr>))
           | Some a \<Rightarrow> Some (limit_outstanding
               (q\<lparr>os_sfqq := Some (LEntry a), sfqq_total_seek := sfqq_total_seek q + 1\<rparr>)))
      | Some _ \<Rightarrow> Option.bind (next_dispatch q) (\<lambda>r. Some (bindE r left_requests)))"

definition sfq_completed :: "'a sfq_beta_scheme \<Rightarrow> 'a sfq_beta_scheme" where
  "sfq_completed q0 =
     (let q = q0\<lparr>depth := depth q0 - 1, sfqr_size := sfqr_size q0 - 1\<rparr> in
      if sfqr_size q > 0 then kblockd_schedule_work (q\<lparr>timer_on := True\<rparr>) else q)"

definition sfq_exit_queue :: "'a sfq_beta_scheme \<Rightarrow> 'a sfq_beta_scheme" where
  "sfq_exit_queue q = q\<lparr>timer_on := False, unplug_pending := False\<rparr>"

section \<open>The invariant\<close>

text \<open>
  Between calls the heap is empty, its array has one slot per queue (before the first
  request it is an uninitialised pointer), and the number of
  moves is the cursor's place in the ring, counted from 1.
\<close>

definition beta_inv :: "'a sfq_beta_scheme \<Rightarrow> bool" where
  "beta_inv q \<longleftrightarrow> sfq_wf q \<and> heap_size q = 0 \<and> heap_limit_size q = length (queue q) \<and>
     (queue q \<noteq> [] \<longrightarrow> length (requests q) = length (queue q)) \<and>
     (case os_sfqq q of
        None \<Rightarrow> sfqq_total_seek q = 0
      | Some LHead \<Rightarrow> False
      | Some (LEntry a) \<Rightarrow> \<exists>i < length (queue q). a = queue q ! i \<and> sfqq_total_seek q = int i + 1)"

definition cursor_at :: "nat \<Rightarrow> 'a sfq_beta_scheme \<Rightarrow> bool" where
  "cursor_at i q \<longleftrightarrow> i < length (queue q) \<and> os_sfqq q = Some (LEntry (queue q ! i)) \<and>
     sfqq_total_seek q = int i + 1"

lemma beta_invE:
  assumes "beta_inv q"
  obtains "sfq_wf q" "heap_size q = 0" "heap_limit_size q = length (queue q)"
    "queue q \<noteq> [] \<longrightarrow> length (requests q) = length (queue q)"
    "os_sfqq q = None \<and> sfqq_total_seek q = 0 \<or> (\<exists>i. cursor_at i q)"
  using assms unfolding beta_inv_def cursor_at_def
  by (auto split: option.splits lnode.splits)

lemma beta_invI:
  assumes "sfq_wf q" "heap_size q = 0" "heap_limit_size q = length (queue q)"
    "queue q \<noteq> [] \<longrightarrow> length (requests q) = length (queue q)" "cursor_at i q"
  shows "beta_inv q"
  using assms unfolding beta_inv_def cursor_at_def by auto

lemma beta_inv_same:
  assumes "beta_inv q" "sfq_wf q'" "heap_size q' = heap_size q" "heap_limit_size q' = heap_limit_size q"
    "requests q' = requests q" "queue q' = queue q" "os_sfqq q' = os_sfqq q"
    "sfqq_total_seek q' = sfqq_total_seek q"
  shows "beta_inv q'"
  using assms unfolding beta_inv_def by (simp cong: option.case_cong lnode.case_cong)

lemma beta_next_dispatch_ring:
  assumes d: "distinct (queue q)" and sz: "sfqq_size q = int (length (queue q))" and c: "cursor_at i q"
  shows "next_dispatch q = Some (Inr (q\<lparr>
    os_sfqq := Some (LEntry (queue q ! ((i + 1) mod length (queue q)))),
    sfqq_total_seek := int ((i + 1) mod length (queue q)) + 1\<rparr>))"
proof -
  have i: "i < length (queue q)" and os: "os_sfqq q = Some (LEntry (queue q ! i))"
    and seek: "sfqq_total_seek q = int i + 1" using c by (auto simp: cursor_at_def)
  note nx = list_next_after_nth [OF d i]
  show ?thesis
  proof (cases "Suc i < length (queue q)")
    case True
    then show ?thesis using nx by (subst next_dispatch.simps) (simp add: os seek sz)
  next
    case False
    then have len: "length (queue q) = Suc i" using i by simp
    then have ne: "queue q \<noteq> []" by auto
    have ln: "list_next (queue q) LHead = LEntry (queue q ! 0)" using ne list_next_head by metis
    let ?q = "q\<lparr>os_sfqq := Some LHead, sfqq_total_seek := 0\<rparr>"
    have "next_dispatch q = next_dispatch ?q"
      using nx len by (subst next_dispatch.simps) (simp add: os seek sz)
    also have "\<dots> = Some (Inr (q\<lparr>os_sfqq := Some (LEntry (queue q ! 0)), sfqq_total_seek := 1\<rparr>))"
      using len ln by (subst next_dispatch.simps) (simp add: sz del: list_next.simps(1))
    finally show ?thesis using len by simp
  qed
qed

lemma beta_next_dispatch_good:
  "sfq_wf q \<Longrightarrow> cursor_at i q \<Longrightarrow> next_dispatch q = Some (Inr (q\<lparr>
    os_sfqq := Some (LEntry (queue q ! ((i + 1) mod length (queue q)))),
    sfqq_total_seek := int ((i + 1) mod length (queue q)) + 1\<rparr>))"
  by (rule beta_next_dispatch_ring) (simp_all add: sfq_wf_distinct, simp add: sfq_wf_def)

text \<open>
  What a call does once the cursor is on \<open>a\<close>: with room in the heap and below the depth
  limit, the first request of \<open>a\<close> goes to the dispatch list; otherwise nothing moves.
\<close>

definition moves :: "'a sfq_beta_scheme \<Rightarrow> nat \<Rightarrow> bool" where
  "moves q a \<longleftrightarrow> sq_list (the (sfqqs q a)) \<noteq> [] \<and> depth q \<le> REQUEST_DEPTH \<and> 2 \<le> length (queue q)"

definition serves :: "'a sfq_beta_scheme \<Rightarrow> nat \<Rightarrow> int \<Rightarrow> 'a sfq_beta_scheme \<Rightarrow> bool" where
  "serves q i n q' \<longleftrightarrow>
     beta_inv q' \<and> cursor_at i q' \<and> queue q' = queue q \<and> sfqrs q' = sfqrs q \<and> pids q' = pids q \<and>
     sfqr_size q' = sfqr_size q \<and> same_requests (rqs q) (rqs q') \<and>
     (\<forall>b. b \<noteq> queue q ! i \<longrightarrow> sfqqs q' b = sfqqs q b) \<and>
     (let a = queue q ! i; l = sq_list (the (sfqqs q a)) in
      if moves q a then
        n = 1 \<and> depth q' = depth q + 1 \<and> sq_list (the (sfqqs q' a)) = tl l \<and>
        queue_head q' = sorted_slot q (rq_of q (hd l)) \<and>
        sfq_pending q = add_mset (rq_of q (hd l)) (sfq_pending q')
      else
        n = 0 \<and> depth q' = depth q \<and> sfqqs q' = sfqqs q \<and> queue_head q' = queue_head q \<and>
        sfq_pending q' = sfq_pending q)"

lemma beta_serves_idle:
  assumes inv: "beta_inv q" and c: "cursor_at i q" and m: "\<not> moves q (queue q ! i)"
    and q': "q' = q \<or> q' = kblockd_schedule_work q"
  shows "serves q i 0 q'"
proof -
  have fields: "queue q' = queue q" "sfqqs q' = sfqqs q" "sfqrs q' = sfqrs q" "sfqq_size q' = sfqq_size q"
    "rqs q' = rqs q" "queue_head q' = queue_head q" "heap_size q' = heap_size q"
    "heap_limit_size q' = heap_limit_size q" "requests q' = requests q" "os_sfqq q' = os_sfqq q"
    "sfqq_total_seek q' = sfqq_total_seek q" "depth q' = depth q" "sfqr_size q' = sfqr_size q"
    using q' by (auto simp: kblockd_schedule_work_def)
  from inv have "sfq_wf q" by (rule beta_invE)
  then have "sfq_wf q' \<and> sfq_pending q' = sfq_pending q" using fields by (intro sfq_wf_cong) simp_all
  moreover have "cursor_at i q'" using c fields by (simp add: cursor_at_def)
  moreover have "beta_inv q'"
    by (rule beta_invI [OF _ _ _ _ \<open>cursor_at i q'\<close>]) (use calculation(1) inv fields in \<open>auto elim!: beta_invE\<close>)
  moreover have "pids q' = pids q" using fields by (simp add: pids_def)
  ultimately show ?thesis using m fields by (simp add: serves_def Let_def)
qed

lemma transfer_and_dispatch:
  assumes inv: "beta_inv q" and c: "cursor_at i q" and m: "moves q (queue q ! i)"
    and l: "sq_list (the (sfqqs q (queue q ! i))) = s # rest"
  shows "\<exists>q'. bindE (heap_transfer (queue q ! i) s q) dispatch_section = Inr (1, q') \<and> serves q i 1 q'"
proof -
  let ?a = "queue q ! i"
  from inv have wf: "sfq_wf q" and h: "heap_size q = 0" "heap_limit_size q = length (queue q)"
    "queue q \<noteq> [] \<longrightarrow> length (requests q) = length (queue q)" by (auto elim: beta_invE)
  have a: "?a \<in> set (queue q)" and i: "i < length (queue q)" "queue q \<noteq> []"
    using c by (auto simp: cursor_at_def)
  obtain sq where sq: "sfqqs q ?a = Some sq" using sfq_wf_queue [OF wf a] by blast
  with l have l': "sq_list sq = s # rest" by simp
  have two: "2 \<le> length (queue q)" using m by (simp add: moves_def)
  let ?arr = "(requests q)[0 := Some s]"
  let ?q0 = "q\<lparr>requests := ?arr\<rparr>"
  let ?q1 = "q\<lparr>sfqqs := (sfqqs q)(?a \<mapsto> sq\<lparr>sq_list := rest\<rparr>)\<rparr>"
  have "sift_up_at start_tag (sfqrs q) (requests q) 0 s = Inr ?arr"
    using two h i by (subst sift_up_at.simps) (auto simp: aset_def)
  then have t: "heap_transfer ?a s q = Inr (?q1\<lparr>heap_size := 1, requests := ?arr\<rparr>)"
    using two h sfq_pop(3) [OF wf a sq l'] by (simp add: heap_transfer_def Let_def)
  have wf0: "sfq_wf ?q0" by (auto intro!: sfq_wf_same [OF wf])
  from sfq_pop_dispatch [OF wf0, of ?a sq s rest] a sq l' obtain sr m' lm hh q' where
    s: "sfqrs q s = Some sr" "sr_rq sr = Some (rq_of ?q0 s)"
    and q': "q' = ?q0\<lparr>sfqqs := (sfqqs ?q0)(?a \<mapsto> sq\<lparr>sq_list := rest\<rparr>), rqs := m', last_merge := lm,
        nr_sorted := nr_sorted ?q0 - 1, rqhash := hh, queue_head := sorted_slot ?q0 (rq_of ?q0 s)\<rparr>"
    and e: "elv_dispatch_sort (rq_of ?q0 s) (?q0\<lparr>sfqqs := (sfqqs ?q0)(?a \<mapsto> sq\<lparr>sq_list := rest\<rparr>)\<rparr>) = Inr q'"
    and same: "same_requests (rqs ?q0) m'"
    and w: "sfq_wf q'" and p: "sfq_pending ?q0 = add_mset (rq_of ?q0 s) (sfq_pending q')" by auto
  have rq: "rq_of ?q0 = rq_of q" "sorted_slot ?q0 = sorted_slot q" "sfq_pending ?q0 = sfq_pending q"
    using sfq_pending_same [OF wf, of ?q0] by (auto simp: rq_of_def sorted_slot_def fun_eq_iff)
  let ?q2 = "q'\<lparr>depth := depth q' + 1\<rparr>"
  have g: "aget ?arr 0 = Inr s" "aset ?arr 0 s = Inr ?arr" using h i by (auto simp: aget_def aset_def)
  have eq0: "?q1\<lparr>requests := ?arr, heap_size := 0\<rparr> = ?q0\<lparr>sfqqs := (sfqqs ?q0)(?a \<mapsto> sq\<lparr>sq_list := rest\<rparr>)\<rparr>"
    using h(1) by (cases q) simp
  have "dispatch_section (?q1\<lparr>heap_size := 1, requests := ?arr\<rparr>) = Inr (1, ?q2)"
    using g s e rq(1) eq0 by (simp add: dispatch_section_def Let_def)
  moreover have "sfq_wf ?q2 \<and> sfq_pending ?q2 = sfq_pending q'" using w by (intro sfq_wf_cong) auto
  moreover have "cursor_at i ?q2" using c by (simp add: q' cursor_at_def)
  moreover have "pids ?q2 = pids q" using sq by (simp add: q' pids_def)
  ultimately show ?thesis using t m sq l' h p rq same
    by (auto simp: serves_def Let_def q' intro!: beta_invI [of _ i])
qed

lemma dispatch_section_empty: "heap_size q = 0 \<Longrightarrow> dispatch_section q = Inr (0, q)"
  by (simp add: dispatch_section_def)

lemma kblockd_heap_size [simp]: "heap_size (kblockd_schedule_work q) = heap_size q"
  by (simp add: kblockd_schedule_work_def)

lemma os_queue_cursor:
  "sfq_wf q \<Longrightarrow> cursor_at i q \<Longrightarrow> os_queue q = Inr (queue q ! i, the (sfqqs q (queue q ! i)))"
  using sfq_wf_queue [of q "queue q ! i"] by (auto simp: os_queue_def cursor_at_def)

lemma os_queue_empty_cursor:
  "sfq_wf q \<Longrightarrow> cursor_at i q \<Longrightarrow> os_queue_empty q = Inr (sq_list (the (sfqqs q (queue q ! i))) = [])"
  using sfq_wf_queue [of q "queue q ! i"] by (auto simp: os_queue_empty_def cursor_at_def)

lemma beta_limit_outstanding_serves:
  assumes inv: "beta_inv q" and c: "cursor_at i q"
  shows "\<exists>n q'. limit_outstanding q = Inr (n, q') \<and> serves q i n q'"
proof -
  from inv have wf: "sfq_wf q" and h: "heap_size q = 0" "heap_limit_size q = length (queue q)"
    by (auto elim: beta_invE)
  note os = os_queue_cursor [OF wf c]
  note idle = beta_serves_idle [OF inv c]
  show ?thesis
  proof (cases "moves q (queue q ! i)")
    case True
    then obtain s rest where l: "sq_list (the (sfqqs q (queue q ! i))) = s # rest"
      by (auto simp: moves_def neq_Nil_conv)
    from transfer_and_dispatch [OF inv c True l] True l os show ?thesis
      by (auto simp: limit_outstanding_def moves_def)
  next
    case False
    let ?l = "sq_list (the (sfqqs q (queue q ! i)))"
    consider "depth q > REQUEST_DEPTH" | "depth q \<le> REQUEST_DEPTH" "?l = []"
      | "depth q \<le> REQUEST_DEPTH" "?l \<noteq> []" "length (queue q) < 2"
      using False by (force simp: moves_def)
    then show ?thesis
    proof cases
      case 1
      then show ?thesis using idle [OF False] by (auto simp: limit_outstanding_def)
    next
      case 2
      then have "limit_outstanding q = Inr (0, q)"
        using os h by (simp add: limit_outstanding_def dispatch_section_empty)
      then show ?thesis using idle [OF False] by blast
    next
      case 3
      then obtain s where s: "list_first ?l = Some s" by (cases ?l) auto
      have "heap_transfer (queue q ! i) s q = Inr (kblockd_schedule_work q)"
        using 3 h by (simp add: heap_transfer_def)
      then have "limit_outstanding q = Inr (0, kblockd_schedule_work q)"
        using 3 s os h by (simp add: limit_outstanding_def dispatch_section_empty)
      then show ?thesis using idle [OF False] by blast
    qed
  qed
qed

lemma beta_left_requests_serves:
  assumes inv: "beta_inv q" and c: "cursor_at i q"
  shows "\<exists>n q'. left_requests q = Inr (n, q') \<and> serves q i n q'"
proof -
  from inv have wf: "sfq_wf q" and h: "heap_size q = 0" by (auto elim: beta_invE)
  note os = os_queue_empty_cursor [OF wf c]
  show ?thesis
  proof (cases "sq_list (the (sfqqs q (queue q ! i))) = []")
    case True
    let ?q' = "if sfqr_size q \<noteq> 0 then kblockd_schedule_work q else q"
    have "left_requests q = Inr (0, ?q')"
      using True os h by (simp add: left_requests_def dispatch_section_empty)
    moreover have "serves q i 0 ?q'"
      by (rule beta_serves_idle [OF inv c]) (use True in \<open>auto simp: moves_def\<close>)
    ultimately show ?thesis by blast
  next
    case False
    with os beta_limit_outstanding_serves [OF inv c] show ?thesis by (auto simp: left_requests_def)
  qed
qed

lemma beta_serves_from:
  assumes "serves q1 i n q'" "q1 = q\<lparr>timer_on := t, os_sfqq := c, sfqq_total_seek := k\<rparr>"
  shows "serves q i n q'"
proof -
  have 1: "rq_of q1 = rq_of q" "sorted_slot q1 = sorted_slot q" "backlog q1 = backlog q" "pids q1 = pids q"
    "moves q1 = moves q" "sfqqs q1 = sfqqs q" "queue q1 = queue q" "queue_head q1 = queue_head q"
    "depth q1 = depth q" "sfqrs q1 = sfqrs q" "sfqr_size q1 = sfqr_size q" "rqs q1 = rqs q"
    using assms(2) by (auto simp: rq_of_def sorted_slot_def backlog_def pids_def moves_def fun_eq_iff)
  have "sfq_pending q1 = sfq_pending q" using 1 by (simp only: sfq_pending_def)
  with 1 assms(1) show ?thesis by (auto simp: serves_def Let_def split: if_splits)
qed

lemma dispatch_step:
  assumes inv: "beta_inv q" and c: "cursor_at i q"
  shows "\<exists>n q'. sfq_dispatch q = Some (Inr (n, q')) \<and> serves q ((i + 1) mod length (queue q)) n q'"
proof -
  let ?q1 = "q\<lparr>timer_on := False\<rparr>" and ?j = "(i + 1) mod length (queue q)"
  let ?q2 = "?q1\<lparr>os_sfqq := Some (LEntry (queue q ! ?j)), sfqq_total_seek := int ?j + 1\<rparr>"
  from inv have wf: "sfq_wf q" by (rule beta_invE)
  have wf1: "sfq_wf ?q1" "sfq_wf ?q2" by (auto intro!: sfq_wf_same [OF wf])
  have c1: "cursor_at i ?q1" using c by (simp add: cursor_at_def)
  have nd: "next_dispatch ?q1 = Some (Inr ?q2)" using beta_next_dispatch_good [OF wf1(1) c1] by simp
  have j: "?j < length (queue q)" using c by (intro mod_less_divisor) (auto simp: cursor_at_def)
  have c2: "cursor_at ?j ?q2" using j by (simp add: cursor_at_def)
  have "beta_inv ?q2" using inv wf1 c2 by (intro beta_invI) (auto elim: beta_invE)
  from beta_left_requests_serves [OF this c2] obtain n q' where
    q': "left_requests ?q2 = Inr (n, q')" "serves ?q2 ?j n q'" by blast
  have "serves q ?j n q'" by (rule beta_serves_from [OF q'(2)]) simp
  moreover have "sfq_dispatch q = Some (Inr (n, q'))"
    using nd q'(1) c by (simp add: sfq_dispatch_def cursor_at_def)
  ultimately show ?thesis by blast
qed

lemma dispatch_first:
  assumes inv: "beta_inv q" and os: "os_sfqq q = None"
  shows "queue q = [] \<and> sfq_dispatch q = Some (Inr (0, q\<lparr>timer_on := False\<rparr>)) \<or>
    (\<exists>n q'. queue q \<noteq> [] \<and> sfq_dispatch q = Some (Inr (n, q')) \<and> serves q 0 n q')"
proof (cases "queue q")
  case Nil
  have "q\<lparr>timer_on := False, os_sfqq := None\<rparr> = q\<lparr>timer_on := False\<rparr>" using os by (cases q) simp
  with Nil os show ?thesis by (simp add: sfq_dispatch_def)
next
  case (Cons a as)
  from inv os have k: "sfqq_total_seek q = 0" by (simp add: beta_inv_def)
  let ?q2 = "q\<lparr>timer_on := False, os_sfqq := Some (LEntry a), sfqq_total_seek := 1\<rparr>"
  from inv have wf: "sfq_wf q" by (rule beta_invE)
  have wf2: "sfq_wf ?q2" by (auto intro!: sfq_wf_same [OF wf])
  have c2: "cursor_at 0 ?q2" using Cons by (simp add: cursor_at_def)
  have "beta_inv ?q2" using inv wf2 c2 by (intro beta_invI) (auto elim: beta_invE)
  from beta_limit_outstanding_serves [OF this c2] obtain n q' where
    q': "limit_outstanding ?q2 = Inr (n, q')" "serves ?q2 0 n q'" by blast
  have "serves q 0 n q'" by (rule beta_serves_from [OF q'(2)]) simp
  with q'(1) os Cons k show ?thesis by (simp add: sfq_dispatch_def)
qed

lemma beta_dispatch_cases:
  assumes "beta_inv q"
  obtains "queue q = []" "sfq_dispatch q = Some (Inr (0, q\<lparr>timer_on := False\<rparr>))"
    | i n q' where "i < length (queue q)" "sfq_dispatch q = Some (Inr (n, q'))" "serves q i n q'"
proof (cases "\<exists>i. cursor_at i q")
  case True
  then obtain i where c: "cursor_at i q" by blast
  have "(i + 1) mod length (queue q) < length (queue q)"
    using c by (intro mod_less_divisor) (auto simp: cursor_at_def)
  with dispatch_step [OF assms c] that(2) show ?thesis by blast
next
  case False
  with assms have "os_sfqq q = None" by (auto elim: beta_invE)
  from dispatch_first [OF assms this] show ?thesis using that by (auto simp: serves_def cursor_at_def)
qed

lemma serves_inv: "serves q i n q' \<Longrightarrow> beta_inv q'"
  by (simp add: serves_def)

lemma serves_account:
  "serves q i n q' \<Longrightarrow>
    n = 0 \<and> sfq_pending q' = sfq_pending q \<and> queue_head q' = queue_head q \<and> depth q' = depth q \<or>
    n \<noteq> 0 \<and> depth q \<le> REQUEST_DEPTH \<and> depth q' = depth q + 1 \<and>
      (\<exists>rq. sfq_pending q = add_mset rq (sfq_pending q') \<and> queue_head q' = sorted_slot q rq)"
  by (auto simp: serves_def Let_def moves_def split: if_splits)

lemma beta_inv_timer [simp]: "beta_inv (q\<lparr>timer_on := t\<rparr>) = beta_inv q"
  and sfq_pending_timer [simp]: "sfq_pending (q\<lparr>timer_on := t\<rparr>) = sfq_pending q"
proof -
  have *: "beta_inv (q\<lparr>timer_on := t\<rparr>)" if "beta_inv q" for t and q :: "'a sfq_beta_scheme"
    by (rule beta_inv_same [OF that]) (use that in \<open>auto elim!: beta_invE intro: sfq_wf_same\<close>)
  from * [of "q\<lparr>timer_on := t\<rparr>" "timer_on q"] * [of q t] show "beta_inv (q\<lparr>timer_on := t\<rparr>) = beta_inv q"
    by auto
  have "rq_of (q\<lparr>timer_on := t\<rparr>) = rq_of q" by (simp add: rq_of_def fun_eq_iff)
  then show "sfq_pending (q\<lparr>timer_on := t\<rparr>) = sfq_pending q" by (simp add: sfq_pending_def backlog_def)
qed

interpretation beta: elv_sched beta_inv sfq_pending "\<lambda>q. mset (queue_head q)" sfq_dispatch
proof (unfold_locales, goal_cases)
  case (1 q)
  from 1 show ?case
  proof (cases rule: beta_dispatch_cases)
    case 1
    with \<open>beta_inv q\<close> show ?thesis by simp
  next
    case (2 i n q')
    from serves_account [OF 2(3)] have "n = 0 \<and> sfq_pending q' = sfq_pending q \<and>
        mset (queue_head q') = mset (queue_head q) \<or>
      n \<noteq> 0 \<and> (\<exists>rq. sfq_pending q = add_mset rq (sfq_pending q') \<and>
               mset (queue_head q') = add_mset rq (mset (queue_head q)))"
      by (metis mset_sorted_slot)
    with 2 serves_inv [OF 2(3)] show ?thesis by blast
  qed
qed

section \<open>Refinement of the round-robin\<close>

lemma beta_step_refines:
  assumes inv: "beta_inv q" and c: "cursor_at i q" and two: "2 \<le> length (queue q)"
    and d: "depth q \<le> REQUEST_DEPTH"
  shows "\<exists>r q'. rr_step (rr_abs i q) = (r, rr_abs ((i + 1) mod length (queue q)) q') \<and>
     sfq_dispatch q = Some (Inr (if r = None then 0 else 1, q')) \<and> beta_inv q' \<and>
     cursor_at ((i + 1) mod length (queue q)) q' \<and> queue q' = queue q \<and>
     depth q' = depth q + (if r = None then 0 else 1) \<and>
     queue_head q' = (case r of None \<Rightarrow> queue_head q | Some rq \<Rightarrow> sorted_slot q rq)"
proof -
  let ?j = "(i + 1) mod length (queue q)" and ?a = "queue q ! ((i + 1) mod length (queue q))"
  from dispatch_step [OF inv c] obtain n q' where
    q': "sfq_dispatch q = Some (Inr (n, q'))" "serves q ?j n q'" by blast
  from inv have wf: "sfq_wf q" by (rule beta_invE)
  have j: "?j < length (queue q)" using c by (intro mod_less_divisor) (auto simp: cursor_at_def)
  let ?l = "sq_list (the (sfqqs q ?a))"
  have s: "queue q' = queue q" "sfqrs q' = sfqrs q" "\<forall>b. b \<noteq> ?a \<longrightarrow> sfqqs q' b = sfqqs q b"
    and tl: "sq_list (the (sfqqs q' ?a)) = tl ?l"
    and n: "n = (if ?l = [] then 0 else 1)" "depth q' = depth q + (if ?l = [] then 0 else 1)"
      "queue_head q' = (if ?l = [] then queue_head q else sorted_slot q (rq_of q (hd ?l)))"
    using q'(2) two d by (auto simp: serves_def Let_def moves_def split: if_splits)
  have "rr_step (rr_abs i q) = (list_first (map (rq_of q) ?l), rr_abs ?j q')"
    using rr_abs_pop [OF sfq_wf_distinct [OF wf] j s tl, of i] j
    by (simp add: rr_step_def Let_def) (simp add: rr_abs_def)
  moreover have "list_first (map (rq_of q) ?l) = (if ?l = [] then None else Some (rq_of q (hd ?l)))"
    by (cases ?l) auto
  ultimately show ?thesis using q' n s(1) by (auto simp: serves_def)
qed

text \<open>\<open>k\<close> calls of the dispatch function in a row, with the codes they return.\<close>

fun dispatches :: "nat \<Rightarrow> 'a sfq_beta_scheme \<Rightarrow> (int list \<times> 'a sfq_beta_scheme) res option" where
  "dispatches 0 q = Some (Inr ([], q))"
| "dispatches (Suc k) q =
     Option.bind (dispatches k q) (\<lambda>r.
       case r of
         Inl e \<Rightarrow> Some (Inl e)
       | Inr p \<Rightarrow> Option.bind (sfq_dispatch (snd p)) (\<lambda>r'.
           Some (bindE r' (\<lambda>(n, q'). Inr (fst p @ [n], q')))))"

lemma dispatches_refine:
  assumes inv: "beta_inv q" and c: "cursor_at i q" and two: "2 \<le> length (queue q)"
    and d: "depth q + int k \<le> REQUEST_DEPTH + 1"
  shows "\<exists>ns rs j q'. dispatches k q = Some (Inr (ns, q')) \<and> rr_run k (rr_abs i q) = (rs, rr_abs j q') \<and>
     ns = map (\<lambda>r. if r = None then 0 else 1) rs \<and> beta_inv q' \<and> cursor_at j q' \<and> queue q' = queue q \<and>
     depth q' \<le> depth q + int k \<and>
     mset (queue_head q') = mset (queue_head q) + mset (map the (filter (\<lambda>r. r \<noteq> None) rs))"
  using d
proof (induction k)
  case 0
  then show ?case using inv c by auto
next
  case (Suc k)
  then obtain ns rs j q' where q': "dispatches k q = Some (Inr (ns, q'))"
    "rr_run k (rr_abs i q) = (rs, rr_abs j q')" "ns = map (\<lambda>r. if r = None then 0 else 1) rs"
    "beta_inv q'" "cursor_at j q'" "queue q' = queue q" "depth q' \<le> depth q + int k"
    "mset (queue_head q') = mset (queue_head q) + mset (map the (filter (\<lambda>r. r \<noteq> None) rs))"
    by auto
  have "2 \<le> length (queue q')" "depth q' \<le> REQUEST_DEPTH" using q' two Suc.prems by auto
  from beta_step_refines [OF q'(4,5) this] obtain r q2 where
    r: "rr_step (rr_abs j q') = (r, rr_abs ((j + 1) mod length (queue q')) q2)"
      "sfq_dispatch q' = Some (Inr (if r = None then 0 else 1, q2))" "beta_inv q2"
      "cursor_at ((j + 1) mod length (queue q')) q2" "queue q2 = queue q'"
      "depth q2 = depth q' + (if r = None then 0 else 1)"
      "queue_head q2 = (case r of None \<Rightarrow> queue_head q' | Some rq \<Rightarrow> sorted_slot q' rq)"
    by blast
  have m: "mset (queue_head q2) = mset (queue_head q) + mset (map the (filter (\<lambda>r. r \<noteq> None) (rs @ [r])))"
    using q'(8) r(7) by (cases r) auto
  have "dispatches (Suc k) q = Some (Inr (ns @ [if r = None then 0 else 1], q2))"
    using q'(1) r(2) by simp
  moreover have "rr_run (Suc k) (rr_abs i q) = (rs @ [r], rr_abs ((j + 1) mod length (queue q')) q2)"
    using q'(2) r(1) by simp
  moreover have "depth q2 \<le> depth q + int (Suc k)" using q'(7) r(6) by simp
  ultimately show ?case using q' r m
    by (intro exI [of _ "ns @ [if r = None then 0 else 1]"] exI [of _ "rs @ [r]"]
        exI [of _ "(j + 1) mod length (queue q')"] exI [of _ q2]) simp
qed

end
