(* ===== verification/Sfq_Beta_Reach.thy ===== *)
theory Sfq_Beta_Reach
  imports Sfq_Beta
begin

text \<open>
  The beta scheduler as a state machine: the block layer may call its operations in any
  order that the elevator's protocol allows, with memory available.  Every reachable state
  satisfies the scheduler's invariant, so dispatching never faults; the properties of the
  beta generation close the theory.
\<close>

section \<open>The operations keep the invariant\<close>

lemma grow_requests_more [simp]:
  "sfqq_total_seek (grow_requests n ok q) = sfqq_total_seek q"
  "length (requests (grow_requests (Suc 0) True q)) = heap_limit_size q + 1"
  by (simp_all add: grow_requests_def)

lemma set_request_with_fields:
  assumes "set_request_with 1 cur True (Some a) (Some s) rq q = Inr q'"
  shows "os_sfqq q' = os_sfqq q \<and> heap_size q' = heap_size q \<and> sfqq_total_seek q' = sfqq_total_seek q \<and>
    depth q' = depth q \<and> sfqr_size q' = sfqr_size q \<and>
    (queue q' = queue q \<and> heap_limit_size q' = heap_limit_size q \<and> requests q' = requests q \<or>
     queue q' = queue q @ [a] \<and> heap_limit_size q' = heap_limit_size q + 1 \<and>
     length (requests q') = heap_limit_size q + 1)"
  using assms
  by (auto simp: set_request_with_def new_sfq_queue_def alloc_sfq_request_def Let_def
      res_simps split: option.splits)

lemma set_request_inv:
  assumes inv: "beta_inv q" and rq: "rqs q rq = Some r"
    and fresh: "a \<notin> dom (sfqqs q)" "s \<notin> dom (sfqrs q)"
  shows "\<exists>q'. sfq_set_request cur True (Some a) (Some s) rq q = Inr (0, q') \<and> beta_inv q' \<and>
    sfq_pending q' = sfq_pending q \<and> depth q' = depth q \<and> sfqr_size q' = sfqr_size q"
proof -
  from inv have wf: "sfq_wf q" and h: "heap_size q = 0" "heap_limit_size q = length (queue q)"
    by (auto elim: beta_invE)
  from set_request_with_wf [OF wf rq fresh, of 1 cur True] obtain q' where
    q': "set_request_with 1 cur True (Some a) (Some s) rq q = Inr q'" "sfq_wf q'"
      "sfq_pending q' = sfq_pending q" by blast
  note f = set_request_with_fields [OF q'(1)]
  have "beta_inv q'"
  proof (cases "queue q' = queue q")
    case True
    with f q'(2) show ?thesis by (intro beta_inv_same [OF inv]) auto
  next
    case False
    with f have g: "queue q' = queue q @ [a]" "heap_limit_size q' = heap_limit_size q + 1"
      "length (requests q') = heap_limit_size q + 1" "os_sfqq q' = os_sfqq q"
      "sfqq_total_seek q' = sfqq_total_seek q" "heap_size q' = heap_size q" by auto
    show ?thesis
    proof (cases "\<exists>i. cursor_at i q")
      case True
      then obtain i where "cursor_at i q" by blast
      then have "cursor_at i q'" using g by (auto simp: cursor_at_def nth_append)
      with g h q'(2) show ?thesis by (intro beta_invI [of q' i]) auto
    next
      case False
      with inv have "os_sfqq q = None" "sfqq_total_seek q = 0" by (auto elim: beta_invE)
      with g h q'(2) show ?thesis by (simp add: beta_inv_def)
    qed
  qed
  with q' f show ?thesis by (auto simp: sfq_set_request_def)
qed

lemma add_request_inv:
  assumes inv: "beta_inv q" and r: "rqs q rq = Some r" "priv0 r = Some a" "priv1 r = Some s"
    and a: "a \<in> set (queue q)" and new: "s \<notin> set (backlog q)"
    and ok: "sfq_add_request rq q = Inr q'"
  shows "beta_inv q' \<and> sfq_pending q' = add_mset rq (sfq_pending q) \<and> depth q' = depth q \<and>
    sfqr_size q' = sfqr_size q + 1"
proof -
  from inv have wf: "sfq_wf q" by (rule beta_invE)
  obtain sq where sq: "sfqqs q a = Some sq" using sfq_wf_queue [OF wf a] by blast
  from ok r obtain t sr where t: "next_start_tag q = Inr t" "sfqrs q s = Some sr"
    by (auto simp: sfq_add_request_def res_simps Let_def)
  from sfq_add_request_wf [OF wf r a t(2) new t(1)] ok
  have w: "sfq_wf q'" "sfq_pending q' = add_mset rq (sfq_pending q)" by auto
  have q': "q' = q\<lparr>sfqqs := (sfqqs q)(a \<mapsto> sq\<lparr>sq_list := sq_list sq @ [s]\<rparr>),
           sfqrs := (sfqrs q)(s \<mapsto> sr\<lparr>start_tag := t, finish_tag := s32 (t + 100), sr_rq := Some rq\<rparr>),
           virtual_time := t, prev_sfqr := Some s, sfqr_size := sfqr_size q + 1\<rparr>"
    using sfq_add_request_eq [OF r sq t(2,1)] ok by simp
  have "beta_inv q'" by (rule beta_inv_same [OF inv w(1)]) (simp_all add: q')
  with w q' show ?thesis by simp
qed

lemma put_request_inv:
  assumes inv: "beta_inv q" and r: "rqs q rq = Some r" and new: "\<forall>s. priv1 r = Some s \<longrightarrow> s \<notin> set (backlog q)"
    and ok: "sfq_put_request rq q = Inr q'"
  shows "beta_inv q' \<and> sfq_pending q' = sfq_pending q \<and> depth q' = depth q \<and> sfqr_size q' = sfqr_size q"
proof (cases "priv1 r")
  case None
  with ok r inv show ?thesis by (simp add: sfq_put_request_def)
next
  case (Some s)
  with ok r have q': "q' = q\<lparr>sfqrs := (sfqrs q)(s := None)\<rparr>"
    by (auto simp: sfq_put_request_def res_simps)
  from inv have wf: "sfq_wf q" by (rule beta_invE)
  have b: "backlog q' = backlog q" "pids q' = pids q" by (simp_all add: q' backlog_def pids_def)
  have ns: "s \<notin> set (backlog q)" using new Some by simp
  then have "map (rq_of q') (backlog q) = map (rq_of q) (backlog q)" by (auto simp: q' rq_of_def)
  then have p: "sfq_pending q' = sfq_pending q" using b by (simp only: sfq_pending_def)
  have "live_sfqr q' x" if "live_sfqr q x" "x \<noteq> s" for x
    using that by (auto simp: live_sfqr_iff q')
  with wf b ns have "sfq_wf q'" by (auto simp: sfq_wf_def q')
  then have "beta_inv q'" by (rule beta_inv_same [OF inv]) (simp_all add: q')
  with p q' show ?thesis by simp
qed

lemma sfq_completed_fields [simp]:
  "queue (sfq_completed q) = queue q" "sfqqs (sfq_completed q) = sfqqs q"
  "sfqrs (sfq_completed q) = sfqrs q" "sfqq_size (sfq_completed q) = sfqq_size q"
  "rqs (sfq_completed q) = rqs q" "queue_head (sfq_completed q) = queue_head q"
  "heap_size (sfq_completed q) = heap_size q"
  "heap_limit_size (sfq_completed q) = heap_limit_size q"
  "requests (sfq_completed q) = requests q" "os_sfqq (sfq_completed q) = os_sfqq q"
  "sfqq_total_seek (sfq_completed q) = sfqq_total_seek q"
  "depth (sfq_completed q) = depth q - 1" "sfqr_size (sfq_completed q) = sfqr_size q - 1"
  by (simp_all add: sfq_completed_def kblockd_schedule_work_def Let_def)

lemma sfq_idle_slice_timer_fields [simp]:
  "queue (sfq_idle_slice_timer q) = queue q" "sfqqs (sfq_idle_slice_timer q) = sfqqs q"
  "sfqrs (sfq_idle_slice_timer q) = sfqrs q" "sfqq_size (sfq_idle_slice_timer q) = sfqq_size q"
  "rqs (sfq_idle_slice_timer q) = rqs q" "queue_head (sfq_idle_slice_timer q) = queue_head q"
  "heap_size (sfq_idle_slice_timer q) = heap_size q"
  "heap_limit_size (sfq_idle_slice_timer q) = heap_limit_size q"
  "requests (sfq_idle_slice_timer q) = requests q"
  "os_sfqq (sfq_idle_slice_timer q) = os_sfqq q"
  "sfqq_total_seek (sfq_idle_slice_timer q) = sfqq_total_seek q"
  "depth (sfq_idle_slice_timer q) = depth q" "sfqr_size (sfq_idle_slice_timer q) = sfqr_size q"
  by (simp_all add: sfq_idle_slice_timer_def kblockd_schedule_work_def Let_def)

lemma sfq_kick_queue_fields [simp]:
  "queue (sfq_kick_queue q) = queue q" "sfqqs (sfq_kick_queue q) = sfqqs q"
  "sfqrs (sfq_kick_queue q) = sfqrs q" "sfqq_size (sfq_kick_queue q) = sfqq_size q"
  "rqs (sfq_kick_queue q) = rqs q" "queue_head (sfq_kick_queue q) = queue_head q"
  "heap_size (sfq_kick_queue q) = heap_size q"
  "heap_limit_size (sfq_kick_queue q) = heap_limit_size q"
  "requests (sfq_kick_queue q) = requests q" "os_sfqq (sfq_kick_queue q) = os_sfqq q"
  "sfqq_total_seek (sfq_kick_queue q) = sfqq_total_seek q" "depth (sfq_kick_queue q) = depth q"
  "sfqr_size (sfq_kick_queue q) = sfqr_size q"
  by (simp_all add: sfq_kick_queue_def blk_run_queue_def)

section \<open>Freed structs\<close>

text \<open>
  The structs of the requests are freed by \<open>sfq_put_request\<close>, but the scheduler keeps two kinds of
  pointers to them: \<open>prev_sfqr\<close>, which the next \<open>sfq_add_request\<close> follows, and the entries of the
  processes' queues, which a dispatch follows.
\<close>

definition prev_alive :: "'a sfq_beta_scheme \<Rightarrow> bool" where
  "prev_alive q \<longleftrightarrow> (\<forall>p. prev_sfqr q = Some p \<longrightarrow> sfqrs q p \<noteq> None)"

text \<open>A request that \<open>sfq_set_request\<close> has given a queue and a struct.\<close>

definition set_up :: "'a sfq_beta_scheme \<Rightarrow> nat \<Rightarrow> nat \<Rightarrow> nat \<Rightarrow> bool" where
  "set_up q rq a s \<longleftrightarrow> (\<exists>r. rqs q rq = Some r \<and> priv0 r = Some a \<and> priv1 r = Some s) \<and>
     a \<in> set (queue q) \<and> sfqrs q s \<noteq> None"

text \<open>The struct that the next dispatch takes from its queue.\<close>

definition served_next :: "'a sfq_beta_scheme \<Rightarrow> nat \<Rightarrow> bool" where
  "served_next q s \<longleftrightarrow> queue q \<noteq> [] \<and>
     (let a = queue q ! (nat (sfqq_total_seek q) mod length (queue q)) in
      moves q a \<and> hd (sq_list (the (sfqqs q a))) = s)"

lemma add_request_result:
  assumes inv: "beta_inv q" and r: "set_up q rq a s"
  shows "if prev_alive q then \<exists>q'. sfq_add_request rq q = Inr q' else sfq_add_request rq q = Inl UseAfterFree"
proof -
  from r obtain rr where rr: "rqs q rq = Some rr" "priv0 rr = Some a" "priv1 rr = Some s" by (auto simp: set_up_def)
  from r obtain sr where sr: "sfqrs q s = Some sr" by (auto simp: set_up_def)
  have "sfq_wf q" "a \<in> set (queue q)" using inv r by (auto elim: beta_invE simp: set_up_def)
  then obtain sq where sq: "sfqqs q a = Some sq" using sfq_wf_queue by blast
  show ?thesis
  proof (cases "prev_alive q")
    case True
    then obtain t where "next_start_tag q = Inr t"
      by (cases "prev_sfqr q") (auto simp: prev_alive_def next_start_tag_def)
    with True sfq_add_request_eq [OF rr sq sr this] show ?thesis by simp
  next
    case False
    then show ?thesis using rr(1) by (auto simp: prev_alive_def sfq_add_request_def next_start_tag_def)
  qed
qed

lemma put_request_result:
  assumes "set_up q rq a s" shows "sfq_put_request rq q = Inr (q\<lparr>sfqrs := (sfqrs q)(s := None)\<rparr>)"
  using assms by (auto simp: set_up_def sfq_put_request_def)

text \<open>A dispatch that takes a freed struct into the heap reads it at once.\<close>

lemma freed_limit_outstanding:
  assumes h: "heap_size q = 0" "heap_limit_size q = length (queue q)" "requests q \<noteq> []"
    and os: "os_sfqq q = Some (LEntry a)" "sfqqs q a = Some sq" "list_first (sq_list sq) = Some s"
    and m: "depth q \<le> REQUEST_DEPTH" "2 \<le> length (queue q)" and s: "sfqrs q s = None"
  shows "limit_outstanding q = Inl UseAfterFree"
proof -
  let ?arr = "(requests q)[0 := Some s]"
  have "sift_up_at start_tag (sfqrs q) (requests q) 0 s = Inr ?arr"
    using h(3) by (subst sift_up_at.simps) (auto simp: aset_def)
  moreover have "aget ?arr 0 = Inr s" using h(3) by (auto simp: aget_def)
  ultimately show ?thesis
    using h m os s by (simp add: limit_outstanding_def os_queue_def heap_transfer_def pop_sfqq_def dispatch_section_def Let_def)
qed

lemma freed_dispatch_faults:
  assumes inv: "beta_inv q" and s: "served_next q s"
  shows "sfq_dispatch (q\<lparr>sfqrs := (sfqrs q)(s := None)\<rparr>) = Some (Inl UseAfterFree)"
proof -
  let ?q = "q\<lparr>sfqrs := (sfqrs q)(s := None)\<rparr>"
  let ?j = "nat (sfqq_total_seek q) mod length (queue q)" let ?a = "queue q ! ?j"
  from inv have wf: "sfq_wf q" and h: "heap_size q = 0" "heap_limit_size q = length (queue q)"
    "queue q \<noteq> [] \<longrightarrow> length (requests q) = length (queue q)" by (auto elim: beta_invE)
  have ne: "queue q \<noteq> []" and m: "moves q ?a" and hd: "hd (sq_list (the (sfqqs q ?a))) = s"
    using s by (auto simp: served_next_def Let_def)
  have "?a \<in> set (queue q)" using ne by (intro nth_mem mod_less_divisor) simp
  then obtain sq where sq: "sfqqs q ?a = Some sq" using sfq_wf_queue [OF wf] by blast
  have l: "list_first (sq_list sq) = Some s" "sq_list sq \<noteq> []" using m hd sq by (auto simp: moves_def list_first_eq_Some)
  have lim: "limit_outstanding (?q\<lparr>timer_on := False, os_sfqq := Some (LEntry ?a), sfqq_total_seek := k\<rparr>) =
      Inl UseAfterFree" for k
    by (rule freed_limit_outstanding [where a = ?a and sq = sq and s = s]) (use h ne sq l m in \<open>auto simp: moves_def\<close>)
  show ?thesis
  proof (cases "\<exists>i. cursor_at i q")
    case True
    then obtain i where c: "cursor_at i q" by blast
    then have j: "?j = (i + 1) mod length (queue q)" by (simp add: cursor_at_def nat_add_distrib)
    have "next_dispatch (?q\<lparr>timer_on := False\<rparr>) =
        Some (Inr (?q\<lparr>timer_on := False, os_sfqq := Some (LEntry ?a), sfqq_total_seek := int ?j + 1\<rparr>))"
      using beta_next_dispatch_ring [of "?q\<lparr>timer_on := False\<rparr>" i] c wf j sfq_wf_distinct [OF wf]
      by (simp add: cursor_at_def sfq_wf_def)
    moreover have "left_requests (?q\<lparr>timer_on := False, os_sfqq := Some (LEntry ?a), sfqq_total_seek := int ?j + 1\<rparr>) =
        Inl UseAfterFree"
      using lim [of "int ?j + 1"] sq l(2) by (simp add: left_requests_def os_queue_empty_def)
    ultimately show ?thesis using c by (simp add: sfq_dispatch_def cursor_at_def)
  next
    case False
    with inv have os: "os_sfqq q = None" "sfqq_total_seek q = 0" by (auto elim: beta_invE)
    with ne have "?a = hd (queue q)" "list_first (queue q) = Some (hd (queue q))" by (simp_all add: hd_conv_nth list_first_eq_Some)
    with lim [of 1] os show ?thesis by (simp add: sfq_dispatch_def)
  qed
qed

section \<open>The state machine\<close>

text \<open>
  A call keeps the discipline of the structs' lifetimes if it does not add a request while
  \<open>prev_sfqr\<close> dangles and does not release a request whose struct is queued.  The code does not
  enforce this: the block layer does release requests that were merged while they waited, and
  releases the request added last.

  The last two rules are the environment: the block layer allocates a request, the driver
  takes one off the dispatch list.
\<close>

inductive beta_step :: "sfq_beta \<Rightarrow> sfq_beta \<Rightarrow> bool" where
  step_set: "\<lbrakk>rqs q rq = Some r; a \<notin> dom (sfqqs q); s \<notin> dom (sfqrs q);
    sfq_set_request cur True (Some a) (Some s) rq q = Inr (n, q')\<rbrakk> \<Longrightarrow> beta_step q q'"
| step_add: "\<lbrakk>set_up q rq a s; s \<notin> set (backlog q); prev_alive q;
    sfq_add_request rq q = Inr q'\<rbrakk> \<Longrightarrow> beta_step q q'"
| step_dispatch: "sfq_dispatch q = Some (Inr (n, q')) \<Longrightarrow> beta_step q q'"
| step_completed: "0 < depth q \<Longrightarrow> beta_step q (sfq_completed q)"
| step_put: "\<lbrakk>rqs q rq = Some r; \<forall>s. priv1 r = Some s \<longrightarrow> s \<notin> set (backlog q) \<and> sfqrs q s \<noteq> None;
    sfq_put_request rq q = Inr q'\<rbrakk> \<Longrightarrow> beta_step q q'"
| step_timer: "timer_on q \<Longrightarrow> beta_step q (sfq_idle_slice_timer q)"
| step_kick: "unplug_pending q \<Longrightarrow> beta_step q (sfq_kick_queue q)"
| step_alloc: "rqs q rq = None \<Longrightarrow> beta_step q (q\<lparr>rqs := (rqs q)(rq \<mapsto> r)\<rparr>)"
| step_fetch: "beta_step q (q\<lparr>queue_head := removeAll rq (queue_head q)\<rparr>)"

inductive_cases beta_stepE: "beta_step q q'"

text \<open>A scheduler just set up on a queue whose dispatch list is sound.\<close>

definition beta_start :: "sfq_beta \<Rightarrow> bool" where
  "beta_start q \<longleftrightarrow> (\<exists>q0. q = result_queue (sfq_init_queue True True q0) \<and>
     set (queue_head q0) \<subseteq> dom (rqs q0))"

inductive beta_reachable :: "sfq_beta \<Rightarrow> bool" where
  reach_start: "beta_start q \<Longrightarrow> beta_reachable q"
| reach_step: "beta_reachable q \<Longrightarrow> beta_step q q' \<Longrightarrow> beta_reachable q'"

text \<open>
  The counters: at most 65 requests are outstanding, and \<open>sfqr_size\<close> counts the waiting and
  the outstanding ones.
\<close>

definition beta_ok :: "sfq_beta \<Rightarrow> bool" where
  "beta_ok q \<longleftrightarrow> beta_inv q \<and> 0 \<le> depth q \<and> depth q \<le> REQUEST_DEPTH + 1 \<and>
     sfqr_size q = int (size (sfq_pending q)) + depth q"

lemma beta_ok_same:
  assumes ok: "beta_ok q" and wf: "sfq_wf q' \<and> sfq_pending q' = sfq_pending q"
    and f: "heap_size q' = heap_size q" "heap_limit_size q' = heap_limit_size q"
    "requests q' = requests q" "queue q' = queue q" "os_sfqq q' = os_sfqq q"
    "sfqq_total_seek q' = sfqq_total_seek q" "depth q' = depth q" "sfqr_size q' = sfqr_size q"
  shows "beta_ok q'"
  using assms beta_inv_same [of q q'] by (simp add: beta_ok_def)

lemma beta_start_ok: "beta_start q \<Longrightarrow> beta_ok q"
proof -
  assume "beta_start q"
  then obtain q0 where q: "q = result_queue (sfq_init_queue True True q0)" "set (queue_head q0) \<subseteq> dom (rqs q0)"
    by (auto simp: beta_start_def)
  have b: "backlog q = []" "pids q = []" by (simp_all add: q sfq_init_queue_def backlog_def pids_def)
  have "sfq_wf q" using q(2) b by (simp add: sfq_wf_def) (simp add: q sfq_init_queue_def)
  moreover have "sfq_pending q = {#}" using b by (simp add: sfq_pending_def)
  ultimately show ?thesis by (simp add: beta_ok_def beta_inv_def) (simp add: q(1) sfq_init_queue_def REQUEST_DEPTH_def)
qed

lemma beta_ok_step:
  assumes "beta_step q q'" and ok: "beta_ok q"
  shows "beta_ok q'"
  using assms(1)
proof (cases rule: beta_stepE [consumes 1])
  case (1 rq r a s cur n)
  with ok set_request_inv [of q rq r a s cur] show ?thesis by (auto simp: beta_ok_def)
next
  case (2 rq a s)
  with ok add_request_inv [of q rq _ a s q'] show ?thesis by (auto simp: beta_ok_def set_up_def)
next
  case (3 n)
  from ok have "beta_inv q" by (simp add: beta_ok_def)
  then show ?thesis
  proof (cases rule: beta_dispatch_cases)
    case 1
    with 3 ok have "q' = q\<lparr>timer_on := False\<rparr>" by simp
    with ok show ?thesis by (simp add: beta_ok_def)
  next
    case (2 i n' q2)
    with 3 have "q2 = q'" by simp
    moreover have "sfqr_size q2 = sfqr_size q" using 2(3) by (simp add: serves_def)
    ultimately show ?thesis using serves_account [OF 2(3)] serves_inv [OF 2(3)] ok
      by (auto simp: beta_ok_def)
  qed
next
  case 4
  have i: "beta_inv q" using ok by (simp add: beta_ok_def)
  then have "sfq_wf q" by (rule beta_invE)
  then have w: "sfq_wf (sfq_completed q) \<and> sfq_pending (sfq_completed q) = sfq_pending q"
    by (rule sfq_wf_cong) simp_all
  then have "beta_inv (sfq_completed q)" by (intro beta_inv_same [OF i]) simp_all
  with w 4 ok show ?thesis by (simp add: beta_ok_def)
next
  case (5 rq r)
  with ok put_request_inv [of q rq r q'] show ?thesis by (auto simp: beta_ok_def)
next
  case 6
  have "sfq_wf q" using ok by (auto simp: beta_ok_def elim: beta_invE)
  then have "sfq_wf q' \<and> sfq_pending q' = sfq_pending q"
    by (rule sfq_wf_cong) (simp_all add: 6)
  with 6 show ?thesis by (intro beta_ok_same [OF ok]) simp_all
next
  case 7
  have "sfq_wf q" using ok by (auto simp: beta_ok_def elim: beta_invE)
  then have "sfq_wf q' \<and> sfq_pending q' = sfq_pending q"
    by (rule sfq_wf_cong) (simp_all add: 7)
  with 7 show ?thesis by (intro beta_ok_same [OF ok]) simp_all
next
  case (8 rq r)
  have q: "beta_inv q" "sfq_wf q" using ok by (auto simp: beta_ok_def elim: beta_invE)
  have b: "backlog q' = backlog q" "pids q' = pids q" "rq_of q' = rq_of q"
    using 8 by (auto simp: backlog_def pids_def rq_of_def fun_eq_iff)
  have "live_sfqr q' s" if "live_sfqr q s" for s using that 8 by (fastforce simp: live_sfqr_iff)
  with q(2) b 8 have "sfq_wf q' \<and> sfq_pending q' = sfq_pending q" by (auto simp: sfq_wf_def sfq_pending_def)
  with ok 8 show ?thesis by (intro beta_ok_same [OF ok]) auto
next
  case (9 rq)
  have q: "beta_inv q" "sfq_wf q" using ok by (auto simp: beta_ok_def elim: beta_invE)
  have b: "backlog q' = backlog q" "pids q' = pids q" "rq_of q' = rq_of q"
    using 9 by (auto simp: backlog_def pids_def rq_of_def fun_eq_iff)
  have "live_sfqr q' = live_sfqr q" by (rule live_sfqr_cong) (use 9 in auto)
  with q(2) b 9 have "sfq_wf q' \<and> sfq_pending q' = sfq_pending q" by (auto simp: sfq_wf_def sfq_pending_def)
  with ok 9 show ?thesis by (intro beta_ok_same [OF ok]) auto
qed

lemma reachable_ok: "beta_reachable q \<Longrightarrow> beta_ok q"
  by (induction rule: beta_reachable.induct) (auto intro: beta_start_ok beta_ok_step)

section \<open>Properties\<close>

text \<open>Processes 7 and 8 with two and one waiting requests; the cursor is on the first queue.\<close>

definition beta_example :: "nat list \<Rightarrow> sfq_beta" where
  "beta_example ring = \<lparr>
     rqs = (\<lambda>i. if i < 4 then Some ((plain_request (10 * i))\<lparr>priv0 := Some 50, priv1 := Some (100 + i)\<rparr>) else None),
     queue_head = [], last_merge = None, end_sector = 0, boundary_rq = None, nr_sorted = 3,
     in_flight = (\<lambda>_. 0), nr_pending = 0, rqhash = (\<lambda>_. []), nomerges = False, noxmerges = False,
     run_count = 0, virtual_time = 0, depth = 0, requests = replicate (length ring) None, prev_sfqr = None,
     os_sfqq = Some (LEntry 50), queue = ring, sfqq_size = int (length ring), sfqr_size = 3, heap_size = 0,
     heap_limit_size = length ring, timer_on = False, unplug_pending = False,
     sfqrs = (\<lambda>s. if 100 \<le> s \<and> s < 104 then
                 Some \<lparr>start_tag = 0, finish_tag = 100, sr_rq = Some (s - 100)\<rparr> else None),
     sfqqs = [50 \<mapsto> \<lparr>pid = 7, sq_list = [101, 102]\<rparr>, 51 \<mapsto> \<lparr>pid = 8, sq_list = [103]\<rparr>],
     sfqq_total_seek = 1\<rparr>"

lemma beta_example_fields [simp]:
  "queue (beta_example ring) = ring" "os_sfqq (beta_example ring) = Some (LEntry 50)"
  "depth (beta_example ring) = 0" "queue_head (beta_example ring) = []"
  by (simp_all add: beta_example_def)

lemma beta_example_cursor: "ring \<noteq> [] \<Longrightarrow> ring ! 0 = 50 \<Longrightarrow> cursor_at 0 (beta_example ring)"
  by (simp add: cursor_at_def) (simp add: beta_example_def)

lemma beta_example_inv: "ring \<in> {[50], [50, 51]} \<Longrightarrow> beta_inv (beta_example ring)"
proof (rule beta_invI [of _ 0])
  assume r: "ring \<in> {[50], [50, 51]}"
  then show "sfq_wf (beta_example ring)"
    by (auto simp: beta_example_def sfq_wf_def pids_def backlog_def live_sfqr_iff)
  show "cursor_at 0 (beta_example ring)" using r by (intro beta_example_cursor) auto
qed (simp_all add: beta_example_def)

text \<open>C2: The beta scheduler under the discipline of its structs' lifetimes (no add while \<open>prev_sfqr\<close>
  dangles, no release of a request whose struct is queued).  Every state reached from the set-up by
  any interleaving of such calls, the timer, the deferred work and the driver is consistent: one
  queue per process, live structs only, an empty heap between calls, at most 65 outstanding
  requests, and \<open>sfqr_size\<close> equal to waiting plus outstanding requests; a dispatch returns without a
  fault and with a state of the same kind.  The discipline is just what keeps it so: an add returns if and only if
  \<open>prev_sfqr\<close> is live, and otherwise reads freed memory; a release returns, but if it frees the struct the next
  dispatch serves, that dispatch reads freed memory.\<close>

theorem beta_reachable_safe:
  assumes "beta_reachable q"
  shows "beta_ok q \<and> (\<exists>n q'. sfq_dispatch q = Some (Inr (n, q')) \<and> beta_reachable q') \<and>
     (\<forall>rq a s. set_up q rq a s \<and> s \<notin> set (backlog q) \<longrightarrow>
        (if prev_alive q then \<exists>q'. sfq_add_request rq q = Inr q' \<and> beta_reachable q'
         else sfq_add_request rq q = Inl UseAfterFree)) \<and>
     (\<forall>rq a s. set_up q rq a s \<longrightarrow>
        (\<exists>q'. sfq_put_request rq q = Inr q' \<and> (s \<notin> set (backlog q) \<longrightarrow> beta_reachable q') \<and>
          (served_next q s \<longrightarrow> sfq_dispatch q' = Some (Inl UseAfterFree))))"
proof -
  have ok: "beta_ok q" by (rule reachable_ok [OF assms])
  then have inv: "beta_inv q" by (simp add: beta_ok_def)
  then obtain n q' where d: "sfq_dispatch q = Some (Inr (n, q'))" by (cases rule: beta_dispatch_cases) auto
  have add: "if prev_alive q then \<exists>q'. sfq_add_request rq q = Inr q' \<and> beta_reachable q'
      else sfq_add_request rq q = Inl UseAfterFree" if "set_up q rq a s" "s \<notin> set (backlog q)" for rq a s
    using add_request_result [OF inv that(1)] reach_step [OF assms step_add] that by (auto split: if_splits)
  have put: "\<exists>q'. sfq_put_request rq q = Inr q' \<and> (s \<notin> set (backlog q) \<longrightarrow> beta_reachable q') \<and>
      (served_next q s \<longrightarrow> sfq_dispatch q' = Some (Inl UseAfterFree))" if up: "set_up q rq a s" for rq a s
  proof -
    note p = put_request_result [OF up]
    have "beta_reachable (q\<lparr>sfqrs := (sfqrs q)(s := None)\<rparr>)" if "s \<notin> set (backlog q)"
    proof -
      from up obtain r where r: "rqs q rq = Some r" "priv1 r = Some s" "sfqrs q s \<noteq> None" by (auto simp: set_up_def)
      with that show ?thesis by (intro reach_step [OF assms step_put [OF r(1) _ p]]) simp
    qed
    with p freed_dispatch_faults [OF inv] show ?thesis by blast
  qed
  show ?thesis using ok reach_step [OF assms step_dispatch [OF d]] d add put by blast
qed

theorem beta_reachable_safe_witness:
  "\<exists>q q'. beta_reachable q \<and> set_up q 0 60 200 \<and> sfq_add_request 0 q = Inr q' \<and> beta_reachable q' \<and>
     (\<exists>n q2. sfq_dispatch q' = Some (Inr (n, q2)))"
proof -
  let ?q1 = "result_queue (sfq_init_queue True True (beta_example [50]))"
  have "beta_start ?q1" by (auto simp: beta_start_def intro!: exI [of _ "beta_example [50]"])
  then have 1: "beta_reachable ?q1" by (rule reach_start)
  note eval = sfq_init_queue_def beta_example_def sfq_set_request_def set_request_with_def new_sfq_queue_def
    grow_requests_def alloc_sfq_request_def set_up_def backlog_def Let_def
  obtain r where r: "rqs ?q1 0 = Some r" "60 \<notin> dom (sfqqs ?q1)" "200 \<notin> dom (sfqrs ?q1)" by (simp add: eval dom_def)
  have "\<exists>q. sfq_set_request 7 True (Some 60) (Some 200) 0 ?q1 = Inr (0, q)" by (simp add: eval)
  then obtain q where s: "sfq_set_request 7 True (Some 60) (Some 200) 0 ?q1 = Inr (0, q)" ..
  then have "set_up q 0 60 200" "backlog q = []" "prev_sfqr q = None" by (auto simp: eval)
  note q = r s this
  from reach_step [OF 1 step_set [OF q(1-4)]] have 2: "beta_reachable q" .
  have "prev_alive q" using q(7) by (simp add: prev_alive_def)
  with beta_reachable_safe [OF 2] q(5,6) obtain q' where 3: "sfq_add_request 0 q = Inr q'" "beta_reachable q'"
    by fastforce
  with beta_reachable_safe [OF 3(2)] 2 q(5) show ?thesis by blast
qed

text \<open>C3: With two or more processes and at most 64 outstanding requests, one dispatch is one step of
  the abstract round-robin over FIFO queues: the cursor moves to the next queue, and that queue's
  first request, if any, is the one that goes to its sorted place on the dispatch list (the heap
  between them never reorders anything).\<close>

theorem beta_refines_round_robin:
  assumes "beta_inv q" "cursor_at i q" "2 \<le> length (queue q)" "depth q \<le> 64"
  shows "\<exists>r q'. rr_step (rr_abs i q) = (r, rr_abs ((i + 1) mod length (queue q)) q') \<and>
     sfq_dispatch q = Some (Inr (if r = None then 0 else 1, q')) \<and> beta_inv q' \<and>
     cursor_at ((i + 1) mod length (queue q)) q' \<and>
     queue_head q' = (case r of None \<Rightarrow> queue_head q | Some rq \<Rightarrow> sorted_slot q rq)"
  using beta_step_refines [OF assms(1-3)] assms(4) unfolding REQUEST_DEPTH_def by blast

theorem beta_refines_round_robin_witness:
  "\<exists>r q'. rr_step (rr_abs 0 (beta_example [50, 51])) = (r, rr_abs 1 q') \<and>
     sfq_dispatch (beta_example [50, 51]) = Some (Inr (if r = None then 0 else 1, q'))"
  using beta_refines_round_robin [of "beta_example [50, 51]" 0] beta_example_inv beta_example_cursor
  by auto

text \<open>C14: Fairness: with \<open>n\<close> processes, two at least, and room for \<open>n\<close> outstanding requests, \<open>n\<close>
  dispatches in a row never fault and take exactly the first request of every non-empty queue to
  the dispatch list, in ring order from the cursor, which is then where it was.\<close>

theorem beta_full_turn:
  assumes "beta_inv q" "cursor_at i q" "2 \<le> length (queue q)"
    and "depth q + int (length (queue q)) \<le> 65"
  shows "\<exists>ns q'. dispatches (length (queue q)) q = Some (Inr (ns, q')) \<and>
     ns = map (\<lambda>r. if r = None then 0 else 1) (rr_heads (length (queue q)) (rr_abs i q)) \<and>
     rr_abs i q' = \<lparr>rr_queues = map tl (rr_queues (rr_abs i q)), rr_cursor = i\<rparr> \<and>
     mset (queue_head q') = mset (queue_head q) +
       mset (map the (filter (\<lambda>r. r \<noteq> None) (rr_heads (length (queue q)) (rr_abs i q))))"
proof -
  have "depth q + int (length (queue q)) \<le> REQUEST_DEPTH + 1" using assms(4) by (simp add: REQUEST_DEPTH_def)
  from dispatches_refine [OF assms(1-3) this] obtain ns rs j q' where
    q': "dispatches (length (queue q)) q = Some (Inr (ns, q'))"
      "rr_run (length (queue q)) (rr_abs i q) = (rs, rr_abs j q')"
      "ns = map (\<lambda>r. if r = None then 0 else 1) rs"
      "mset (queue_head q') = mset (queue_head q) + mset (map the (filter (\<lambda>r. r \<noteq> None) rs))" by blast
  have "rr_run (length (queue q)) (rr_abs i q) =
      (rr_heads (length (queue q)) (rr_abs i q), \<lparr>rr_queues = map tl (rr_queues (rr_abs i q)), rr_cursor = i\<rparr>)"
    using rr_full_turn [of "length (queue q)" "rr_abs i q"] assms(2) by (simp add: rr_abs_def cursor_at_def)
  with q'(2) have "rs = rr_heads (length (queue q)) (rr_abs i q)"
    "rr_abs j q' = \<lparr>rr_queues = map tl (rr_queues (rr_abs i q)), rr_cursor = i\<rparr>" by simp_all
  moreover from this(2) have "j = i" by (simp add: rr_abs_def)
  ultimately show ?thesis using q' by blast
qed

theorem beta_full_turn_witness:
  "\<exists>ns q'. dispatches 2 (beta_example [50, 51]) = Some (Inr (ns, q')) \<and> mset (queue_head q') = {#1, 3#}"
proof -
  have h: "rr_heads 2 (rr_abs 0 (beta_example [50, 51])) = [Some 3, Some 1]"
    by (simp add: rr_heads_def rr_abs_def numeral_2_eq_2) (simp add: rq_of_def beta_example_def)
  show ?thesis
    using beta_full_turn [of "beta_example [50, 51]" 0] beta_example_inv beta_example_cursor h
    by (auto simp: numeral_2_eq_2)
qed

text \<open>C19: A single process starves: the heap has room for one request less than there are queues, so
  with one queue every dispatch returns 0 and moves nothing, however many requests wait.\<close>

theorem beta_single_process_stalls:
  assumes "beta_inv q" "length (queue q) = 1"
  shows "\<exists>q'. sfq_dispatch q = Some (Inr (0, q')) \<and> beta_inv q' \<and> queue q' = queue q \<and>
     sfq_pending q' = sfq_pending q \<and> queue_head q' = queue_head q"
  using assms(1)
proof (cases rule: beta_dispatch_cases)
  case 1
  with assms(2) show ?thesis by simp
next
  case (2 i n q')
  with assms(2) show ?thesis by (auto simp: serves_def Let_def moves_def)
qed

theorem beta_single_process_stalls_witness:
  "\<exists>q'. sfq_dispatch (beta_example [50]) = Some (Inr (0, q')) \<and>
     sfq_pending q' = sfq_pending (beta_example [50])"
  using beta_single_process_stalls [of "beta_example [50]"] beta_example_inv by auto

text \<open>The elevator's drain loop over the beta scheduler ends without a fault and loses no request;
  it may leave requests in the backlog.\<close>

theorem beta_drain:
  assumes "beta_inv q"
  shows "\<exists>k q'. elv_drain_elevator sfq_dispatch printed q = Some (Inr (k, q')) \<and> beta_inv q' \<and>
     sfq_pending q' + mset (queue_head q') = sfq_pending q + mset (queue_head q)"
  using beta.drain_terminates [OF assms] by (auto simp: elv_drain_elevator_def)

theorem beta_drain_witness:
  "\<exists>k q'. elv_drain_elevator sfq_dispatch 0 (beta_example [50, 51]) = Some (Inr (k, q'))"
  using beta_drain [of "beta_example [50, 51]" 0] beta_example_inv by auto

end
