(* ===== verification/Sfq_Theta.thy ===== *)
theory Sfq_Theta
  imports Sfq_Beta
begin

text \<open>
  The fourth theta scheduler (\<open>ssd_scheduler_theta/sfq_4.c\<close>), an instrumented copy of the last
  beta one on the way to the released scheduler: it arms the timer in every dispatch, kicks
  less often, watches the list head through \<open>wrong_sfqq\<close> (only to print), and dispatches the
  root of the heap before removing it.  The model, and that none of this changes what is
  dispatched.
\<close>

section \<open>Model\<close>

record sfq_theta = sfq_beta +
  chara_locker :: int
  frisk_locker :: int
  wrong_sfqq :: "nat lnode option"

definition sfq_init_queue ::
  "bool \<Rightarrow> bool \<Rightarrow> 'a sfq_theta_scheme \<Rightarrow> 'a sfq_theta_scheme init_result" where
  "sfq_init_queue eq_ok sfqd_ok q =
     (if \<not> eq_ok then \<lparr>ret = - ENOMEM, eq_released = False, result_queue = q\<rparr>
      else if \<not> sfqd_ok then \<lparr>ret = - ENOMEM, eq_released = True, result_queue = q\<rparr>
      else \<lparr>ret = 0, eq_released = False, result_queue =
        q\<lparr>virtual_time := 0, depth := 0, prev_sfqr := None, os_sfqq := None, sfqq_size := 0,
          sfqq_total_seek := 0, sfqr_size := 0, heap_size := 0, heap_limit_size := 0, queue := [],
          unplug_pending := False, timer_on := False, chara_locker := 0, frisk_locker := 1,
          wrong_sfqq := None\<rparr>\<rparr>)"

definition sfq_set_request ::
  "bool \<Rightarrow> int \<Rightarrow> bool \<Rightarrow> nat option \<Rightarrow> nat option \<Rightarrow> nat option \<Rightarrow> 'a sfq_theta_scheme \<Rightarrow>
   (int \<times> 'a sfq_theta_scheme) res" where
  "sfq_set_request bio cur grown qmem rmem rqp q =
     (case rqp of
        None \<Rightarrow> Inr (0, q)
      | Some rq \<Rightarrow>
          if \<not> bio then Inr (0, q)
          else
            bindE (set_request_with 1 cur grown qmem rmem rq q) (\<lambda>q.
              if rmem = None then Inl NullDeref else Inr (0, q)))"

text \<open>
  The pid behind a position; the word found there at the list head is \<open>heap_limit_size\<close>.
\<close>

definition node_pid :: "'a sfq_theta_scheme \<Rightarrow> nat lnode \<Rightarrow> int res" where
  "node_pid q n =
     (case n of
        LHead \<Rightarrow> Inr (int (heap_limit_size q))
      | LEntry a \<Rightarrow> bindE (deref (sfqqs q) a) (\<lambda>sfqq. Inr (pid sfqq)))"

text \<open>The watching code: the two pids are read, and compared for a message only.\<close>

definition watch :: "nat lnode \<Rightarrow> 'a sfq_theta_scheme \<Rightarrow> 'a sfq_theta_scheme res" where
  "watch sfqq q =
     (case wrong_sfqq q of
        None \<Rightarrow> Inr (q\<lparr>wrong_sfqq := Some (list_next (queue q) sfqq)\<rparr>)
      | Some w \<Rightarrow> bindE (node_pid q sfqq) (\<lambda>_. bindE (node_pid q w) (\<lambda>_. Inr q)))"

text \<open>The \<open>next_dispatch\<close> loop; \<open>None\<close> is "never leaves the loop".\<close>

partial_function (option) next_dispatch :: "'a sfq_theta_scheme \<Rightarrow> 'a sfq_theta_scheme res option" where
  "next_dispatch q0 =
     (case os_sfqq q0 of
        None \<Rightarrow> Some (Inl NullDeref)
      | Some p \<Rightarrow>
          (case watch (list_next (queue q0) p) q0 of
             Inl e \<Rightarrow> Some (Inl e)
           | Inr q \<Rightarrow>
               if sfqq_total_seek q = sfqq_size q
               then next_dispatch (q\<lparr>os_sfqq := Some (list_next (queue q) p), sfqq_total_seek := 0,
                                     wrong_sfqq := Some (list_next (queue q) p)\<rparr>)
               else Some (Inr (q\<lparr>os_sfqq := Some (list_next (queue q) p),
                                 sfqq_total_seek := sfqq_total_seek q + 1\<rparr>))))"

definition heap_transfer :: "nat \<Rightarrow> nat \<Rightarrow> 'a sfq_theta_scheme \<Rightarrow> 'a sfq_theta_scheme res" where
  "heap_transfer a sfqr q =
     (if int (heap_size q) < int (heap_limit_size q) - 1 then
        bindE (pop_sfqq a q) (\<lambda>q.
        let index = heap_size q; q = q\<lparr>heap_size := heap_size q + 1\<rparr> in
        bindE (sift_up_at start_tag (sfqrs q) (requests q) index sfqr) (\<lambda>arr.
          Inr (q\<lparr>requests := arr\<rparr>)))
      else Inr q)"

definition dispatch_section :: "'a sfq_theta_scheme \<Rightarrow> (int \<times> 'a sfq_theta_scheme) res" where
  "dispatch_section q =
     (if heap_size q > 0 then
        bindE (aget (requests q) 0) (\<lambda>s.
        bindE (deref (sfqrs q) s) (\<lambda>sfqr.
        bindE (case sr_rq sfqr of None \<Rightarrow> Inr q | Some rq \<Rightarrow> elv_dispatch_sort rq q) (\<lambda>q.
        let n = heap_size q - 1 in
        bindE (aget (requests q) n) (\<lambda>l.
        bindE (aset (requests q) 0 l) (\<lambda>arr.
        let q = q\<lparr>requests := arr, heap_size := n\<rparr> in
        bindE (if heap_size q > 1 then sfq_heapify 0 q else Inr q) (\<lambda>q.
          Inr (1, q\<lparr>depth := depth q + 1\<rparr>)))))))
      else Inr (0, q))"

definition limit_outstanding :: "'a sfq_theta_scheme \<Rightarrow> (int \<times> 'a sfq_theta_scheme) res" where
  "limit_outstanding q =
     (if depth q > REQUEST_DEPTH
      then Inr (0, if sfqr_size q \<noteq> 0 then kblockd_schedule_work q else q)
      else
        bindE (os_queue q) (\<lambda>(a, sfqq).
        bindE (case list_first (sq_list sfqq) of
                 None \<Rightarrow> Inr q
               | Some sfqr \<Rightarrow> heap_transfer a sfqr q) dispatch_section))"

definition left_requests :: "'a sfq_theta_scheme \<Rightarrow> (int \<times> 'a sfq_theta_scheme) res" where
  "left_requests q =
     bindE (os_queue_empty q) (\<lambda>empty.
       if empty
       then dispatch_section
              (if sfqr_size q \<noteq> 0 \<and> chara_locker q \<noteq> 0 then kblockd_schedule_work q else q)
       else limit_outstanding q)"

definition sfq_dispatch :: "'a sfq_theta_scheme \<Rightarrow> (int \<times> 'a sfq_theta_scheme) res option" where
  "sfq_dispatch q0 =
     (let q = q0\<lparr>timer_on := True\<rparr> in
      case os_sfqq q of
        None \<Rightarrow>
          (case list_first (queue q) of
             None \<Rightarrow> Some (Inr (0, q\<lparr>os_sfqq := None\<rparr>))
           | Some a \<Rightarrow> Some (limit_outstanding
               (q\<lparr>os_sfqq := Some (LEntry a), sfqq_total_seek := sfqq_total_seek q + 1\<rparr>)))
      | Some _ \<Rightarrow> Option.bind (next_dispatch q) (\<lambda>r. Some (bindE r left_requests)))"

definition sfq_completed :: "'a sfq_theta_scheme \<Rightarrow> 'a sfq_theta_scheme" where
  "sfq_completed q0 =
     (let q = q0\<lparr>depth := depth q0 - 1, timer_on := False, sfqr_size := sfqr_size q0 - 1\<rparr> in
      if sfqr_size q > 0 then (kblockd_schedule_work q)\<lparr>chara_locker := 1\<rparr> else q)"

definition sfq_exit_queue :: "'a sfq_theta_scheme \<Rightarrow> 'a sfq_theta_scheme" where
  "sfq_exit_queue q = q\<lparr>unplug_pending := False\<rparr>"

section \<open>The same dispatches as the beta scheduler\<close>

text \<open>A state up to what the instrumentation writes.\<close>

definition shadow :: "bool \<Rightarrow> nat lnode option \<Rightarrow> 'a sfq_theta_scheme \<Rightarrow> 'a sfq_theta_scheme" where
  "shadow u w q = q\<lparr>timer_on := True, unplug_pending := u, wrong_sfqq := w\<rparr>"

lemma shadow_fields [simp]:
  "queue (shadow u w q) = queue q" "os_sfqq (shadow u w q) = os_sfqq q" "sfqqs (shadow u w q) = sfqqs q"
  "sfqrs (shadow u w q) = sfqrs q" "heap_size (shadow u w q) = heap_size q" "requests (shadow u w q) = requests q"
  "heap_limit_size (shadow u w q) = heap_limit_size q" "depth (shadow u w q) = depth q"
  "sfqr_size (shadow u w q) = sfqr_size q" "sfqq_total_seek (shadow u w q) = sfqq_total_seek q"
  "sfqq_size (shadow u w q) = sfqq_size q" "wrong_sfqq (shadow u w q) = w"
  "shadow u w (kblockd_schedule_work q) = shadow u w q" "kblockd_schedule_work (shadow u w q) = shadow True w q"
  by (simp_all add: shadow_def kblockd_schedule_work_def)

lemma shadow_move [simp]:
  "(shadow u w q)\<lparr>os_sfqq := x, sfqq_total_seek := k\<rparr> = shadow u w (q\<lparr>os_sfqq := x, sfqq_total_seek := k\<rparr>)"
  "(shadow u w q)\<lparr>wrong_sfqq := w'\<rparr> = shadow u w' q"
  by (cases q; simp add: shadow_def)+

lemma elv_dispatch_sort_shadow:
  "elv_dispatch_sort rq (shadow u w q) = bindE (elv_dispatch_sort rq q) (\<lambda>q. Inr (shadow u w q))"
  by (cases q) (simp add: elv_dispatch_sort_def elv_rqhash_del_def elv_rqhash_del'_def forget_last_merge_def upd_rq_def
      Let_def bindE_assoc bindE_if shadow_def cong: if_cong)

lemma elv_dispatch_sort_heap:
  "elv_dispatch_sort rq (q\<lparr>requests := arr, heap_size := n\<rparr>) =
     bindE (elv_dispatch_sort rq q) (\<lambda>q. Inr (q\<lparr>requests := arr, heap_size := n\<rparr>))"
  for q :: "'a sfq_base_scheme"
  by (cases q) (simp add: elv_dispatch_sort_def elv_rqhash_del_def elv_rqhash_del'_def forget_last_merge_def upd_rq_def
      Let_def bindE_assoc bindE_if cong: if_cong)


lemma watch_shadow:
  assumes "sfq_wf q" "s = LHead \<or> (\<exists>a \<in> set (queue q). s = LEntry a)"
    "w = None \<or> w = Some LHead \<or> (\<exists>a \<in> set (queue q). w = Some (LEntry a))"
  shows "watch s (shadow u w q) = Inr (shadow u (if w = None then Some (list_next (queue q) s) else w) q)"
proof -
  have pid: "\<exists>x. node_pid (shadow u w q) n = Inr x" if "n = LHead \<or> (\<exists>a \<in> set (queue q). n = LEntry a)" for n
    using that sfq_wf_queue [OF assms(1)] by (fastforce simp: node_pid_def)
  show ?thesis
  proof (cases w)
    case None
    then show ?thesis by (simp add: watch_def)
  next
    case (Some v)
    with assms(3) have "v = LHead \<or> (\<exists>a \<in> set (queue q). v = LEntry a)" by auto
    from pid [OF this] pid [OF assms(2)] Some show ?thesis by (auto simp: watch_def)
  qed
qed

definition watched :: "'a sfq_theta_scheme \<Rightarrow> nat lnode option \<Rightarrow> bool" where
  "watched q w \<longleftrightarrow> w = None \<or> w = Some LHead \<or> (\<exists>a \<in> set (queue q). w = Some (LEntry a))"

lemma theta_next_dispatch:
  assumes wf: "sfq_wf q" and c: "cursor_at i q" and w: "watched q w"
  shows "\<exists>w'. watched q w' \<and> next_dispatch (shadow u w q) = Some (Inr (shadow u w' (q\<lparr>
    os_sfqq := Some (LEntry (queue q ! ((i + 1) mod length (queue q)))),
    sfqq_total_seek := int ((i + 1) mod length (queue q)) + 1\<rparr>)))"
proof -
  have d: "distinct (queue q)" using wf by (rule sfq_wf_distinct)
  have i: "i < length (queue q)" and os: "os_sfqq q = Some (LEntry (queue q ! i))"
    and seek: "sfqq_total_seek q = int i + 1" using c by (auto simp: cursor_at_def)
  have sz: "sfqq_size q = int (length (queue q))" using wf by (simp add: sfq_wf_def)
  define s where "s = list_next (queue q) (LEntry (queue q ! i))"
  define w1 where "w1 = (if w = None then Some (list_next (queue q) s) else w)"
  have w1: "watched q w1" "w1 \<noteq> None"
    using w list_next_in [of "queue q" s] by (auto simp: w1_def watched_def)
  have wat: "watch s (shadow u w q) = Inr (shadow u w1 q)"
    unfolding w1_def using w list_next_in [of "queue q" "LEntry (queue q ! i)"]
    by (intro watch_shadow [OF wf]) (auto simp: s_def watched_def)
  have one: "next_dispatch (shadow u w q) =
    (if int i + 1 = int (length (queue q))
     then next_dispatch (shadow u (Some s) (q\<lparr>os_sfqq := Some s, sfqq_total_seek := 0\<rparr>))
     else Some (Inr (shadow u w1 (q\<lparr>os_sfqq := Some s, sfqq_total_seek := 2 + int i\<rparr>))))"
    using wat by (subst next_dispatch.simps) (simp add: os seek sz del: list_next.simps flip: s_def)
  have sn: "s = (if Suc i < length (queue q) then LEntry (queue q ! Suc i) else LHead)"
    unfolding s_def using list_next_after_nth [OF d i] by simp
  show ?thesis
  proof (cases "Suc i < length (queue q)")
    case True
    then show ?thesis using one w1 sn by (intro exI [of _ w1]) simp
  next
    case False
    then have len: "length (queue q) = Suc i" using i by simp
    then have ne: "queue q \<noteq> []" by auto
    have ln: "list_next (queue q) LHead = LEntry (queue q ! 0)" using ne list_next_head by metis
    let ?q = "q\<lparr>os_sfqq := Some LHead, sfqq_total_seek := 0\<rparr>"
    have wf1: "sfq_wf ?q" by (auto intro!: sfq_wf_same [OF wf])
    have wat1: "watch (LEntry (queue q ! 0)) (shadow u (Some LHead) ?q) = Inr (shadow u (Some LHead) ?q)"
      using watch_shadow [OF wf1, of "LEntry (queue q ! 0)" "Some LHead" u] ne by simp
    have "next_dispatch (shadow u w q) = next_dispatch (shadow u (Some LHead) ?q)"
      using one sn len by simp
    also have "\<dots> = Some (Inr (shadow u (Some LHead) (q\<lparr>os_sfqq := Some (LEntry (queue q ! 0)), sfqq_total_seek := 1\<rparr>)))"
      using len ln wat1 by (subst next_dispatch.simps) (simp add: sz del: list_next.simps)
    finally show ?thesis using len by (intro exI [of _ "Some LHead"]) (simp add: watched_def)
  qed
qed

lemma theta_section:
  assumes b: "Sfq_Beta.dispatch_section q = Inr (n, q')" and h: "heap_size q \<le> 1"
    and s: "heap_size q = 1 \<Longrightarrow> \<exists>s sr. aget (requests q) 0 = Inr s \<and> sfqrs q s = Some sr \<and> sr_rq sr \<noteq> None"
  shows "dispatch_section (shadow u w q) = Inr (n, shadow u w q')"
proof (cases "heap_size q = 0")
  case True
  with b show ?thesis by (simp add: dispatch_section_def Sfq_Beta.dispatch_section_def)
next
  case False
  with h have h1: "heap_size q = 1" by simp
  from s [OF this] obtain s sr rq where s: "aget (requests q) 0 = Inr s" "sfqrs q s = Some sr" "sr_rq sr = Some rq" by auto
  then have set: "aset (requests q) 0 s = Inr (requests q)"
    by (auto simp: aset_def aget_def split: if_splits option.splits) (metis list_update_id)
  have "Sfq_Beta.dispatch_section q = bindE (elv_dispatch_sort rq q) (\<lambda>x.
      Inr (1, x\<lparr>requests := requests q, heap_size := 0, depth := depth x + 1\<rparr>))"
    using s set h1 elv_dispatch_sort_heap [where rq = rq and q = q and arr = "requests q" and n = 0]
    by (simp add: Sfq_Beta.dispatch_section_def Let_def bindE_assoc)
  with b obtain q1 where q1: "elv_dispatch_sort rq q = Inr q1" "n = 1"
    "q' = q1\<lparr>requests := requests q, heap_size := 0, depth := depth q1 + 1\<rparr>"
    by (auto simp: res_simps)
  have keep: "requests q1 = requests q" "heap_size q1 = heap_size q" "sfqrs q1 = sfqrs q"
    using q1(1) by (auto simp: elv_dispatch_sort_def elv_rqhash_del_def elv_rqhash_del'_def forget_last_merge_def
        Let_def res_simps split: if_splits)
  show ?thesis using s set h1 q1 keep
    by (simp add: dispatch_section_def elv_dispatch_sort_shadow Let_def) (simp add: shadow_def)
qed


lemma theta_limit:
  assumes inv: "beta_inv q" and c: "cursor_at i q" and b: "Sfq_Beta.limit_outstanding q = Inr (n, q')"
  shows "\<exists>u'. limit_outstanding (shadow u w q) = Inr (n, shadow u' w q')"
proof -
  from inv have wf: "sfq_wf q" and h: "heap_size q = 0" "heap_limit_size q = length (queue q)"
    "queue q \<noteq> [] \<longrightarrow> length (requests q) = length (queue q)" by (auto elim: beta_invE)
  let ?a = "queue q ! i"
  have i: "i < length (queue q)" "queue q \<noteq> []" "?a \<in> set (queue q)" using c by (auto simp: cursor_at_def)
  then obtain sq where sq: "sfqqs q ?a = Some sq" using sfq_wf_queue [OF wf] by blast
  note os = os_queue_cursor [OF wf c]
  have os': "os_queue (shadow u w q) = os_queue q" by (simp add: os_queue_def split: option.split lnode.split)
  have idle: "dispatch_section (shadow u w q) = Inr (0, shadow u w q)"
    using h by (simp add: dispatch_section_def)
  show ?thesis
  proof (cases "depth q > REQUEST_DEPTH \<or> sq_list sq = [] \<or> length (queue q) < 2")
    case True
    consider "depth q > REQUEST_DEPTH" | "depth q \<le> REQUEST_DEPTH" "sq_list sq = []"
      | s where "depth q \<le> REQUEST_DEPTH" "list_first (sq_list sq) = Some s" "length (queue q) < 2"
      using True by (cases "sq_list sq") force+
    then show ?thesis
    proof cases
      case 1
      with b show ?thesis by (auto simp: limit_outstanding_def Sfq_Beta.limit_outstanding_def)
    next
      case 2
      with b os os' sq idle h show ?thesis
        by (auto simp: limit_outstanding_def Sfq_Beta.limit_outstanding_def dispatch_section_empty)
    next
      case 3
      with b os os' sq idle h show ?thesis
        by (auto simp: limit_outstanding_def Sfq_Beta.limit_outstanding_def dispatch_section_empty
            heap_transfer_def Sfq_Beta.heap_transfer_def)
    qed
  next
    case False
    then obtain s rest where l: "sq_list sq = s # rest" and d: "depth q \<le> REQUEST_DEPTH" and two: "2 \<le> length (queue q)"
      by (auto simp: neq_Nil_conv)
    let ?q1 = "q\<lparr>sfqqs := (sfqqs q)(?a \<mapsto> sq\<lparr>sq_list := rest\<rparr>), heap_size := 1,
                  requests := (requests q)[0 := Some s]\<rparr>"
    have sift: "sift_up_at start_tag (sfqrs q) (requests q) 0 s = Inr ((requests q)[0 := Some s])"
      using h i by (subst sift_up_at.simps) (auto simp: aset_def)
    have t: "Sfq_Beta.heap_transfer ?a s q = Inr ?q1" "heap_transfer ?a s (shadow u w q) = Inr (shadow u w ?q1)"
      using two h sfq_pop(3) [OF wf i(3) sq l] sift sq l
      by (simp_all add: Sfq_Beta.heap_transfer_def heap_transfer_def Let_def pop_sfqq_def) (simp add: shadow_def)
    with b os d l sq have b1: "Sfq_Beta.dispatch_section ?q1 = Inr (n, q')"
      by (simp add: Sfq_Beta.limit_outstanding_def)
    have "s \<in> set (backlog q)" using i(3) l sq by (auto simp: backlog_def intro!: bexI [of _ ?a])
    from sfq_wf_live [OF wf this] obtain sr where sr: "sfqrs q s = Some sr" "sr_rq sr \<noteq> None" by auto
    have "dispatch_section (shadow u w ?q1) = Inr (n, shadow u w q')"
      by (rule theta_section [OF b1]) (use sr h i in \<open>auto simp: aget_def\<close>)
    with t os os' d l sq show ?thesis by (auto simp: limit_outstanding_def)
  qed
qed

lemma theta_left:
  assumes inv: "beta_inv q" and c: "cursor_at i q" and b: "Sfq_Beta.left_requests q = Inr (n, q')"
  shows "\<exists>u'. left_requests (shadow u w q) = Inr (n, shadow u' w q')"
proof -
  from inv have wf: "sfq_wf q" and h: "heap_size q = 0" by (auto elim: beta_invE)
  note os = os_queue_empty_cursor [OF wf c]
  have os': "os_queue_empty (shadow u w q) = os_queue_empty q" by (simp add: os_queue_empty_def split: option.split lnode.split)
  show ?thesis
  proof (cases "sq_list (the (sfqqs q (queue q ! i))) = []")
    case True
    let ?k = "if sfqr_size q \<noteq> 0 \<and> chara_locker (shadow u w q) \<noteq> 0 then kblockd_schedule_work (shadow u w q) else shadow u w q"
    have "q' = (if sfqr_size q \<noteq> 0 then kblockd_schedule_work q else q)" "n = 0"
      using True b os h by (auto simp: Sfq_Beta.left_requests_def dispatch_section_empty)
    moreover have "left_requests (shadow u w q) = Inr (0, ?k)"
      using True os os' h by (simp add: left_requests_def dispatch_section_def)
    ultimately show ?thesis by auto
  next
    case False
    with b os os' theta_limit [OF inv c] show ?thesis
      by (simp add: left_requests_def Sfq_Beta.left_requests_def)
  qed
qed


text \<open>The whole dispatch.\<close>

lemma theta_dispatch_shadows:
  assumes inv: "beta_inv q" and w: "watched q (wrong_sfqq q)"
  shows "\<exists>n q' u w'. Sfq_Beta.sfq_dispatch q = Some (Inr (n, q')) \<and>
     sfq_dispatch q = Some (Inr (n, shadow u w' q')) \<and> watched q' w'"
proof -
  obtain u where sq: "q\<lparr>timer_on := True\<rparr> = shadow u (wrong_sfqq q) (q\<lparr>timer_on := False\<rparr>)"
    by (cases q) (simp add: shadow_def)
  from inv have wf: "sfq_wf q" by (rule beta_invE)
  show ?thesis
  proof (cases "\<exists>i. cursor_at i q")
    case True
    then obtain i where c: "cursor_at i q" by blast
    let ?q1 = "q\<lparr>timer_on := False\<rparr>" and ?j = "(i + 1) mod length (queue q)"
    let ?q2 = "?q1\<lparr>os_sfqq := Some (LEntry (queue q ! ?j)), sfqq_total_seek := int ?j + 1\<rparr>"
    have wf1: "sfq_wf ?q1" "sfq_wf ?q2" by (auto intro!: sfq_wf_same [OF wf])
    have c1: "cursor_at i ?q1" using c by (simp add: cursor_at_def)
    have j: "?j < length (queue q)" using c by (intro mod_less_divisor) (auto simp: cursor_at_def)
    have c2: "cursor_at ?j ?q2" using j by (simp add: cursor_at_def)
    have inv2: "beta_inv ?q2" using inv wf1 c2 by (intro beta_invI) (auto elim: beta_invE)
    from beta_left_requests_serves [OF inv2 c2] obtain n q' where
      q': "Sfq_Beta.left_requests ?q2 = Inr (n, q')" "serves ?q2 ?j n q'" by blast
    have nb: "Sfq_Beta.next_dispatch ?q1 = Some (Inr ?q2)"
      using beta_next_dispatch_good [OF wf1(1) c1] by simp
    have "watched ?q1 (wrong_sfqq q)" using w by (simp add: watched_def)
    from theta_next_dispatch [OF wf1(1) c1 this] obtain w' where
      w': "watched q w'" "next_dispatch (shadow u (wrong_sfqq q) ?q1) = Some (Inr (shadow u w' ?q2))"
      by (auto simp: watched_def)
    from theta_left [OF inv2 c2 q'(1)] obtain u' where
      "left_requests (shadow u w' ?q2) = Inr (n, shadow u' w' q')" by blast
    moreover have "queue q' = queue q" using q'(2) by (simp add: serves_def)
    ultimately show ?thesis using nb q'(1) w' c sq
      by (intro exI [of _ n] exI [of _ q'] exI [of _ u'] exI [of _ w'])
        (simp add: sfq_dispatch_def Sfq_Beta.sfq_dispatch_def cursor_at_def watched_def Let_def)
  next
    case False
    with inv have os: "os_sfqq q = None" and k: "sfqq_total_seek q = 0" by (auto elim: beta_invE)
    show ?thesis
    proof (cases "queue q")
      case Nil
      have "q\<lparr>timer_on := False, os_sfqq := None\<rparr> = q\<lparr>timer_on := False\<rparr>"
        "q\<lparr>timer_on := True, os_sfqq := None\<rparr> = shadow u (wrong_sfqq q) (q\<lparr>timer_on := False\<rparr>)"
        using os by (simp_all flip: sq)
      with Nil os w show ?thesis
        by (intro exI [of _ 0] exI [of _ "q\<lparr>timer_on := False\<rparr>"] exI [of _ u] exI [of _ "wrong_sfqq q"])
          (simp add: sfq_dispatch_def Sfq_Beta.sfq_dispatch_def watched_def)
    next
      case (Cons a as)
      let ?q2 = "q\<lparr>timer_on := False, os_sfqq := Some (LEntry a), sfqq_total_seek := 1\<rparr>"
      have wf2: "sfq_wf ?q2" by (auto intro!: sfq_wf_same [OF wf])
      have c2: "cursor_at 0 ?q2" using Cons by (simp add: cursor_at_def)
      have inv2: "beta_inv ?q2" using inv wf2 c2 by (intro beta_invI) (auto elim: beta_invE)
      from beta_limit_outstanding_serves [OF inv2 c2] obtain n q' where
        q': "Sfq_Beta.limit_outstanding ?q2 = Inr (n, q')" "serves ?q2 0 n q'" by blast
      from theta_limit [OF inv2 c2 q'(1)] obtain u' where
        "limit_outstanding (shadow u (wrong_sfqq q) ?q2) = Inr (n, shadow u' (wrong_sfqq q) q')" by blast
      moreover have "queue q' = queue q" using q'(2) by (simp add: serves_def)
      ultimately show ?thesis using q'(1) os Cons k sq w
        by (intro exI [of _ n] exI [of _ q'] exI [of _ u'] exI [of _ "wrong_sfqq q"])
          (simp add: sfq_dispatch_def Sfq_Beta.sfq_dispatch_def watched_def Let_def)
    qed
  qed
qed



lemma sfq_pending_shadow [simp]: "sfq_pending (shadow u w q) = sfq_pending q"
proof -
  have "rq_of (shadow u w q) = rq_of q" by (simp add: rq_of_def fun_eq_iff)
  then show ?thesis by (simp add: sfq_pending_def backlog_def)
qed

lemma beta_inv_shadow:
  assumes "beta_inv q"
  shows "beta_inv (shadow u w q)"
proof (rule beta_inv_same [OF assms])
  from assms have "sfq_wf q" by (rule beta_invE)
  then show "sfq_wf (shadow u w q)" by (rule sfq_wf_same) (simp_all add: shadow_def)
qed simp_all

definition theta_inv :: "'a sfq_theta_scheme \<Rightarrow> bool" where
  "theta_inv q \<longleftrightarrow> beta_inv q \<and> watched q (wrong_sfqq q)"

interpretation theta: elv_sched theta_inv sfq_pending "\<lambda>q. mset (queue_head q)" sfq_dispatch
proof (unfold_locales, goal_cases)
  case (1 q)
  then have inv: "beta_inv q" and w: "watched q (wrong_sfqq q)" by (simp_all add: theta_inv_def)
  from theta_dispatch_shadows [OF inv w] obtain n q' u w' where
    d: "Sfq_Beta.sfq_dispatch q = Some (Inr (n, q'))" "sfq_dispatch q = Some (Inr (n, shadow u w' q'))"
      "watched q' w'" by blast
  from beta.dispatch_law [OF inv] d(1) have
    b: "beta_inv q'" "n = 0 \<and> sfq_pending q' = sfq_pending q \<and> mset (queue_head q') = mset (queue_head q) \<or>
       n \<noteq> 0 \<and> (\<exists>rq. sfq_pending q = add_mset rq (sfq_pending q') \<and>
                   mset (queue_head q') = add_mset rq (mset (queue_head q)))" by auto
  have "theta_inv (shadow u w' q')"
    using beta_inv_shadow [OF b(1)] d(3) by (simp add: theta_inv_def watched_def)
  moreover have "queue_head (shadow u w' q') = queue_head q'" by (simp add: shadow_def)
  ultimately show ?case using d(2) b(2) by (intro exI [of _ n] exI [of _ "shadow u w' q'"]) simp
qed

section \<open>Properties\<close>

definition theta_example :: sfq_theta where
  "theta_example = \<lparr>
     rqs = (\<lambda>i. if i < 4 then Some ((plain_request (10 * i))\<lparr>priv0 := Some 50, priv1 := Some (100 + i)\<rparr>) else None),
     queue_head = [], last_merge = None, end_sector = 0, boundary_rq = None, nr_sorted = 3,
     in_flight = (\<lambda>_. 0), nr_pending = 0, rqhash = (\<lambda>_. []), nomerges = False, noxmerges = False,
     run_count = 0, virtual_time = 0, depth = 0, requests = [None, None], prev_sfqr = None,
     os_sfqq = Some (LEntry 50), queue = [50, 51], sfqq_size = 2, sfqr_size = 3, heap_size = 0,
     heap_limit_size = 2, timer_on = False, unplug_pending = False,
     sfqrs = (\<lambda>s. if 100 \<le> s \<and> s < 104 then
                 Some \<lparr>start_tag = 0, finish_tag = 100, sr_rq = Some (s - 100)\<rparr> else None),
     sfqqs = [50 \<mapsto> \<lparr>pid = 7, sq_list = [101, 102]\<rparr>, 51 \<mapsto> \<lparr>pid = 8, sq_list = [103]\<rparr>],
     sfqq_total_seek = 1, chara_locker = 0, frisk_locker = 1, wrong_sfqq = Some LHead\<rparr>"

lemma theta_example_inv: "beta_inv theta_example" "watched theta_example (wrong_sfqq theta_example)"
proof -
  show "beta_inv theta_example"
  proof (rule beta_invI [of _ 0])
    show "sfq_wf theta_example"
      by (auto simp: theta_example_def sfq_wf_def pids_def backlog_def live_sfqr_iff)
    show "cursor_at 0 theta_example" by (simp add: theta_example_def cursor_at_def)
  qed (simp_all add: theta_example_def)
qed (simp add: theta_example_def watched_def)

text \<open>C26: The instrumented theta scheduler dispatches exactly what the beta scheduler dispatches: from every
  consistent state both return the same code, and the states they leave differ in nothing but the
  timer, the scheduled work and the watched position.\<close>

theorem theta_equals_beta:
  assumes "beta_inv q" "watched q (wrong_sfqq q)"
  shows "\<exists>n qb qt. Sfq_Beta.sfq_dispatch q = Some (Inr (n, qb)) \<and> sfq_dispatch q = Some (Inr (n, qt)) \<and>
     theta_inv qt \<and>
     qt = qb\<lparr>timer_on := timer_on qt, unplug_pending := unplug_pending qt, wrong_sfqq := wrong_sfqq qt\<rparr>"
proof -
  from theta_dispatch_shadows [OF assms] obtain n q' u w' where
    d: "Sfq_Beta.sfq_dispatch q = Some (Inr (n, q'))" "sfq_dispatch q = Some (Inr (n, shadow u w' q'))"
      "watched q' w'" by blast
  from beta.dispatch_law [OF assms(1)] d(1) have "beta_inv q'" by auto
  then have "theta_inv (shadow u w' q')"
    using beta_inv_shadow d(3) by (simp add: theta_inv_def watched_def)
  with d show ?thesis by (intro exI [of _ n] exI [of _ q'] exI [of _ "shadow u w' q'"]) (simp add: shadow_def)
qed

theorem theta_equals_beta_witness:
  "\<exists>n qb qt. Sfq_Beta.sfq_dispatch theta_example = Some (Inr (n, qb)) \<and>
     sfq_dispatch theta_example = Some (Inr (n, qt)) \<and> queue_head qt = queue_head qb"
proof -
  from theta_equals_beta [OF theta_example_inv] obtain n qb qt where
    d: "Sfq_Beta.sfq_dispatch theta_example = Some (Inr (n, qb))" "sfq_dispatch theta_example = Some (Inr (n, qt))"
      "qt = qb\<lparr>timer_on := timer_on qt, unplug_pending := unplug_pending qt, wrong_sfqq := wrong_sfqq qt\<rparr>"
    by blast
  from arg_cong [OF d(3), of queue_head] have "queue_head qt = queue_head qb" by simp
  with d(1,2) show ?thesis by blast
qed

end
