(* ===== verification/Alpha_Base.thy ===== *)
theory Alpha_Base
  imports ElvSched HeapStore
begin

text \<open>
  What the alpha schedulers share: one global heap of request structs ordered by start tag,
  the tagging of a new request from the virtual time and the last slot of the heap, and the
  insertion.  The invariant and the two steps every alpha scheduler is made of.
\<close>

section \<open>State\<close>

text \<open>\<open>a_flag\<close> is \<open>valid\<close> in version 9 and \<open>complete_flag\<close> in version 16.\<close>

record alpha_request =
  start_tag :: int
  finish_tag :: int
  a_pid :: int
  a_rq :: "nat option"
  a_flag :: int

record alpha_base = request_queue +
  virtual_time :: int
  asize :: nat
  requests :: "nat option list"
  sfqrs :: "nat \<rightharpoonup> alpha_request"

definition REQUEST_TAGS :: int where "REQUEST_TAGS = 100 div 1"

section \<open>Operations\<close>

text \<open>
  The virtual time after \<open>set_request\<close>, which is also the new start tag: when the heap is
  not empty and its root has a non-negative tag, at least the finish tag in the last slot.
\<close>

definition new_start :: "'a alpha_base_scheme \<Rightarrow> int res" where
  "new_start q =
     (if asize q > 0 then
        bindE (node_at (requests q) (sfqrs q) 0) (\<lambda>root.
          if start_tag root \<ge> 0 then
            bindE (node_at (requests q) (sfqrs q) (asize q - 1)) (\<lambda>last.
              Inr (if virtual_time q < finish_tag last then finish_tag last else virtual_time q))
          else Inr (virtual_time q))
      else Inr (virtual_time q))"

definition set_request_flag ::
  "int \<Rightarrow> int \<Rightarrow> nat option \<Rightarrow> nat \<Rightarrow> 'a alpha_base_scheme \<Rightarrow> 'a alpha_base_scheme res" where
  "set_request_flag flag cur rmem rq q =
     (case rmem of
        None \<Rightarrow> Inl NullDeref
      | Some s \<Rightarrow>
          bindE (new_start q) (\<lambda>t.
            upd_rq rq (\<lambda>r. r\<lparr>priv0 := Some s\<rparr>)
              (q\<lparr>virtual_time := t,
                 sfqrs := (sfqrs q)(s \<mapsto> \<lparr>start_tag = t, finish_tag = s32 (t + REQUEST_TAGS), a_pid = cur,
                                    a_rq = None, a_flag = flag\<rparr>)\<rparr>)))"

text \<open>Storing the struct in the heap (its \<open>rq\<close> field is written just before its pointer).\<close>

definition heap_insert_request ::
  "nat \<Rightarrow> nat \<Rightarrow> 'a alpha_base_scheme \<Rightarrow> 'a alpha_base_scheme res" where
  "heap_insert_request s rq q =
     bindE (deref (sfqrs q) s) (\<lambda>sfqr.
     let m = (sfqrs q)(s \<mapsto> sfqr\<lparr>a_rq := Some rq\<rparr>) in
     bindE (sift_up_at start_tag m (requests q) (asize q) s) (\<lambda>arr.
       Inr (q\<lparr>requests := arr, asize := asize q + 1, sfqrs := m\<rparr>)))"

definition sfq_heapify :: "nat \<Rightarrow> 'a alpha_base_scheme \<Rightarrow> 'a alpha_base_scheme res" where
  "sfq_heapify i q =
     bindE (heapify_at start_tag (requests q) (asize q) (sfqrs q) i) (\<lambda>m. Inr (q\<lparr>sfqrs := m\<rparr>))"

section \<open>The invariant\<close>

definition avals :: "'a alpha_base_scheme \<Rightarrow> alpha_request list" where
  "avals q = vals (requests q) (asize q) (sfqrs q)"

definition aptrs :: "'a alpha_base_scheme \<Rightarrow> nat list" where
  "aptrs q = ptrs (requests q) (asize q)"

definition alpha_pending :: "'a alpha_base_scheme \<Rightarrow> nat multiset" where
  "alpha_pending q = mset (map (\<lambda>v. the (a_rq v)) (avals q))"

definition alpha_wf :: "'a alpha_base_scheme \<Rightarrow> bool" where
  "alpha_wf q \<longleftrightarrow> heap_ok (requests q) (asize q) (sfqrs q) \<and> is_heap start_tag (avals q) \<and>
     (\<forall>v \<in> set (avals q). \<exists>rq. a_rq v = Some rq \<and> rq \<in> dom (rqs q)) \<and>
     set (queue_head q) \<subseteq> dom (rqs q) \<and>
     (\<forall>s v. sfqrs q s = Some v \<longrightarrow> start_tag v \<le> virtual_time q) \<and> 0 < length (requests q)"

lemma alpha_wf_heap: "alpha_wf q \<Longrightarrow> heap_ok (requests q) (asize q) (sfqrs q)"
  by (simp add: alpha_wf_def)

lemma length_avals: "alpha_wf q \<Longrightarrow> length (avals q) = asize q"
  using heap_ok_len [OF alpha_wf_heap, of q] by (simp add: avals_def)

lemma alpha_wf_same:
  assumes "alpha_wf q" "requests q' = requests q" "asize q' = asize q" "sfqrs q' = sfqrs q"
    "dom (rqs q') = dom (rqs q)" "set (queue_head q') \<subseteq> dom (rqs q)" "virtual_time q' = virtual_time q"
  shows "alpha_wf q' \<and> alpha_pending q' = alpha_pending q \<and> avals q' = avals q"
proof -
  have "avals q' = avals q" using assms by (simp add: avals_def)
  then show ?thesis using assms by (simp add: alpha_wf_def alpha_pending_def)
qed

section \<open>Setting up a request\<close>

lemma new_start_ge:
  assumes "alpha_wf q"
  shows "\<exists>t. new_start q = Inr t \<and> virtual_time q \<le> t"
proof (cases "asize q = 0")
  case True
  then show ?thesis by (simp add: new_start_def)
next
  case False
  then show ?thesis using alpha_wf_heap [OF assms] by (auto simp: new_start_def)
qed

lemma set_request_flag_wf:
  assumes wf: "alpha_wf q" and rq: "rqs q rq = Some r" and s: "s \<notin> dom (sfqrs q)"
  shows "\<exists>q' t. set_request_flag flag cur (Some s) rq q = Inr q' \<and> alpha_wf q' \<and>
     alpha_pending q' = alpha_pending q \<and> rqs q' = (rqs q)(rq \<mapsto> r\<lparr>priv0 := Some s\<rparr>) \<and>
     sfqrs q' s = Some \<lparr>start_tag = t, finish_tag = s32 (t + 100), a_pid = cur, a_rq = None, a_flag = flag\<rparr> \<and>
     virtual_time q' = t \<and> (\<forall>v \<in> set (avals q). start_tag v \<le> t) \<and> asize q' = asize q \<and>
     queue_head q' = queue_head q \<and> aptrs q' = aptrs q \<and> avals q' = avals q"
proof -
  from new_start_ge [OF wf] obtain t where t: "new_start q = Inr t" "virtual_time q \<le> t" by blast
  let ?v = "\<lparr>start_tag = t, finish_tag = s32 (t + 100), a_pid = cur, a_rq = None, a_flag = flag\<rparr>"
  let ?q' = "q\<lparr>virtual_time := t, sfqrs := (sfqrs q)(s \<mapsto> ?v), rqs := (rqs q)(rq \<mapsto> r\<lparr>priv0 := Some s\<rparr>)\<rparr>"
  have e: "set_request_flag flag cur (Some s) rq q = Inr ?q'"
    using t rq by (simp add: set_request_flag_def REQUEST_TAGS_def)
  have ns: "s \<notin> set (ptrs (requests q) (asize q))"
    using alpha_wf_heap [OF wf] s by (auto simp: heap_ok_def)
  have av: "avals ?q' = avals q" using ns by (simp add: avals_def vals_extend)
  have ht: "heap_ok (requests ?q') (asize ?q') (sfqrs ?q')"
    using heap_ok_extend [OF alpha_wf_heap [OF wf] ns] by simp
  have tags: "start_tag v \<le> t" if "sfqrs q x = Some v" for x v
    using wf that t(2) by (fastforce simp: alpha_wf_def)
  have "\<exists>x. a_rq v = Some x \<and> x \<in> dom (rqs ?q')" if "v \<in> set (avals q)" for v
    using wf that by (fastforce simp: alpha_wf_def)
  moreover have "start_tag v \<le> virtual_time ?q'" if "sfqrs ?q' x = Some v" for x v
    using that tags by (auto split: if_splits)
  ultimately have "alpha_wf ?q'" using wf ht av unfolding alpha_wf_def by auto
  moreover have "start_tag v \<le> t" if "v \<in> set (avals q)" for v
  proof -
    from that obtain i where i: "i < asize q" "v = avals q ! i"
      using length_avals [OF wf] by (auto simp: in_set_conv_nth)
    with heap_ok_nth(2) [OF alpha_wf_heap [OF wf] i(1)] tags show ?thesis by (simp add: avals_def)
  qed
  moreover have "alpha_pending ?q' = alpha_pending q" by (simp add: alpha_pending_def av)
  ultimately show ?thesis using e av by (intro exI [of _ ?q'] exI [of _ t]) (simp add: aptrs_def)
qed

section \<open>Into the heap\<close>

lemma heap_insert_request_wf:
  assumes wf: "alpha_wf q" and cap: "asize q < length arr" and v: "sfqrs q s = Some v"
    and ns: "s \<notin> set (aptrs q)" and rq: "rq \<in> dom (rqs q)"
    and arr: "heap_ok arr (asize q) (sfqrs q)" "vals arr (asize q) (sfqrs q) = avals q"
      "ptrs arr (asize q) = aptrs q"
  shows "\<exists>q'. heap_insert_request s rq (q\<lparr>requests := arr\<rparr>) = Inr q' \<and> alpha_wf q' \<and>
     alpha_pending q' = add_mset rq (alpha_pending q) \<and> asize q' = asize q + 1 \<and>
     queue_head q' = queue_head q \<and> rqs q' = rqs q \<and> set (aptrs q') = insert s (set (aptrs q)) \<and>
     avals q' = heap_insert start_tag (v\<lparr>a_rq := Some rq\<rparr>) (avals q) \<and>
     q' = q\<lparr>requests := requests q', asize := asize q + 1, sfqrs := sfqrs q'\<rparr>"
proof -
  let ?m = "(sfqrs q)(s \<mapsto> v\<lparr>a_rq := Some rq\<rparr>)"
  have ns': "s \<notin> set (ptrs arr (asize q))" using ns arr(3) by simp
  have ok: "heap_ok arr (asize q) ?m" by (rule heap_ok_extend [OF arr(1) ns'])
  have vm: "vals arr (asize q) ?m = avals q" using arr(2) ns' by (simp add: vals_extend)
  from heap_insert_at_refines [OF ok cap _ ns', of start_tag] vm arr(3) obtain arr' where
    a: "sift_up_at start_tag ?m arr (asize q) s = Inr arr'" "length arr' = length arr"
      "heap_ok arr' (Suc (asize q)) ?m"
      "vals arr' (Suc (asize q)) ?m = heap_insert start_tag (v\<lparr>a_rq := Some rq\<rparr>) (avals q)"
      "set (ptrs arr' (Suc (asize q))) = insert s (set (aptrs q))" by auto
  let ?q' = "q\<lparr>requests := arr', asize := asize q + 1, sfqrs := ?m\<rparr>"
  have e: "heap_insert_request s rq (q\<lparr>requests := arr\<rparr>) = Inr ?q'"
    using a(1) v by (simp add: heap_insert_request_def)
  have av: "avals ?q' = heap_insert start_tag (v\<lparr>a_rq := Some rq\<rparr>) (avals q)" using a(4) by (simp add: avals_def)
  have ms: "mset (avals ?q') = add_mset (v\<lparr>a_rq := Some rq\<rparr>) (mset (avals q))"
    using av by (simp add: mset_heap_insert)
  then have set: "set (avals ?q') = insert (v\<lparr>a_rq := Some rq\<rparr>) (set (avals q))"
    by (metis set_mset_add_mset_insert set_mset_mset)
  have "is_heap start_tag (avals ?q')" using wf av by (simp add: alpha_wf_def is_heap_insert)
  moreover have "0 < length arr'" using cap a(2) by linarith
  moreover have "start_tag x \<le> virtual_time q" if "?m y = Some x" for x y
    using that wf v by (fastforce simp: alpha_wf_def split: if_splits)
  ultimately have "alpha_wf ?q'"
    using wf a(3) set rq unfolding alpha_wf_def by simp
  moreover have "alpha_pending ?q' = add_mset rq (alpha_pending q)" using ms by (simp add: alpha_pending_def)
  ultimately show ?thesis using e av a(5) by (intro exI [of _ ?q']) (simp add: aptrs_def)
qed

section \<open>Out of the heap\<close>

text \<open>\<open>requests[0] = requests[--size]\<close> and the walk down, guarded or not, then the dispatch.\<close>

lemma alpha_pop:
  assumes wf: "alpha_wf q" and n: "asize q = Suc n"
  shows "\<exists>p v rq r. aget (requests q) 0 = Inr p \<and> sfqrs q p = Some v \<and> v = avals q ! 0 \<and>
     a_rq v = Some rq \<and> rqs q rq = Some r \<and> aget (requests q) n = Inr (the (requests q ! n)) \<and>
     requests q ! n = Some (the (requests q ! n)) \<and>
     (\<forall>x \<in> set (avals q). start_tag v \<le> start_tag x) \<and> p \<in> set (aptrs q)"
proof -
  have ok: "heap_ok (requests q) (Suc n) (sfqrs q)" using alpha_wf_heap [OF wf] n by simp
  have len: "length (avals q) = Suc n" using length_avals [OF wf] n by simp
  have v0: "avals q ! 0 \<in> set (avals q)" using len by (intro nth_mem) simp
  with wf obtain rq where rq: "a_rq (avals q ! 0) = Some rq" "rq \<in> dom (rqs q)"
    unfolding alpha_wf_def by blast
  have min: "\<forall>x \<in> set (avals q). start_tag (avals q ! 0) \<le> start_tag x"
    using wf is_heap_root_min_set by (auto simp: alpha_wf_def)
  have p: "aget (requests q) 0 = Inr (ptrs (requests q) (Suc n) ! 0)" "requests q ! n = Some (ptrs (requests q) (Suc n) ! n)"
    "sfqrs q (ptrs (requests q) (Suc n) ! 0) = Some (avals q ! 0)" "aget (requests q) n = Inr (ptrs (requests q) (Suc n) ! n)"
    using heap_ok_nth [OF ok, of n] heap_ok_nth(2) [OF ok, of 0] ok by (simp_all add: avals_def n)
  have "ptrs (requests q) (Suc n) ! 0 \<in> set (aptrs q)"
    using heap_ok_len [OF ok] by (simp add: aptrs_def n)
  with p rq min show ?thesis by auto
qed

lemma alpha_pop_wf:
  assumes wf: "alpha_wf q" and n: "asize q = Suc n"
    and arr: "arr = (requests q)[0 := requests q ! n]"
    and heapify: "(if g then heapify_at start_tag arr n (sfqrs q) 0 else Inr (sfqrs q)) = Inr m"
    and g: "g \<longleftrightarrow> 1 < n \<or> 0 < n \<and> g"
    and q': "q' = q\<lparr>requests := arr', asize := n, sfqrs := m\<rparr>"
    and arr': "ptrs arr' n = ptrs arr n" "heap_ok arr' n m = heap_ok arr n m" "0 < length arr'"
  shows "alpha_wf q' \<and> alpha_pending q = add_mset (the (a_rq (avals q ! 0))) (alpha_pending q') \<and>
    m (ptrs (requests q) (Suc n) ! 0) = sfqrs q (ptrs (requests q) (Suc n) ! 0) \<and> dom m = dom (sfqrs q) \<and>
    set (aptrs q') \<subseteq> set (aptrs q) \<and> avals q' = heap_pop start_tag (avals q)"
proof -
  have ok: "heap_ok (requests q) (Suc n) (sfqrs q)" using alpha_wf_heap [OF wf] n by simp
  from heapify_after_pop [OF ok g, of start_tag] arr obtain m' where
    "(if g then heapify_at start_tag arr n (sfqrs q) 0 else Inr (sfqrs q)) = Inr m'" "heap_ok arr n m'"
    "vals arr n m' = heap_pop start_tag (vals (requests q) (Suc n) (sfqrs q))" "dom m' = dom (sfqrs q)"
    "\<forall>p. p \<notin> set (ptrs (requests q) (Suc n)) - {ptrs (requests q) (Suc n) ! 0} \<longrightarrow> m' p = sfqrs q p" by blast
  with heapify have
    h: "heap_ok arr n m" "vals arr n m = heap_pop start_tag (vals (requests q) (Suc n) (sfqrs q))"
      "dom m = dom (sfqrs q)"
      "\<forall>p. p \<notin> set (ptrs (requests q) (Suc n)) - {ptrs (requests q) (Suc n) ! 0} \<longrightarrow> m p = sfqrs q p" by simp_all
  have av: "avals q' = heap_pop start_tag (avals q)"
    using h(2) arr'(1) by (simp add: avals_def q' n vals_def)
  have ne: "avals q \<noteq> []" using length_avals [OF wf] n by auto
  then have ms: "mset (avals q) = add_mset (avals q ! 0) (mset (avals q'))"
    using av mset_heap_pop [OF ne, of start_tag] by (simp add: in_set_conv_nth) (metis insert_DiffM length_greater_0_conv nth_mem set_mset_mset)
  then have sub: "set (avals q') \<subseteq> set (avals q)" by (metis set_mset_mset set_mset_add_mset_insert subset_insertI)
  have heap: "is_heap start_tag (avals q')" using wf av by (simp add: alpha_wf_def is_heap_pop)
  have tags: "start_tag v \<le> virtual_time q" if "m s = Some v" for s v
  proof (cases "s \<in> set (ptrs arr n)")
    case True
    then have "v \<in> set (avals q')"
      using that arr'(1) by (auto simp: avals_def q' vals_def image_iff intro!: bexI [of _ s])
    with sub have "v \<in> set (avals q)" by blast
    then obtain i where i: "i < asize q" "v = avals q ! i"
      using length_avals [OF wf] by (auto simp: in_set_conv_nth)
    with heap_ok_nth(2) [OF alpha_wf_heap [OF wf] i(1)] wf show ?thesis
      by (auto simp: alpha_wf_def avals_def)
  next
    case False
    then have "s \<notin> set (ptrs (requests q) (Suc n)) - {ptrs (requests q) (Suc n) ! 0}"
      using heap_ok_pop(3) [OF ok] arr by simp
    with h(4) that wf show ?thesis by (auto simp: alpha_wf_def)
  qed
  have "alpha_wf q'"
    using wf h(1) arr' heap sub tags unfolding alpha_wf_def by (auto simp: q')
  moreover have "alpha_pending q = add_mset (the (a_rq (avals q ! 0))) (alpha_pending q')"
    using ms by (simp add: alpha_pending_def)
  moreover have "set (aptrs q') \<subseteq> set (aptrs q)"
    using heap_ok_pop(3) [OF ok] arr arr'(1) by (auto simp: aptrs_def q' n)
  ultimately show ?thesis using h(3,4) av by blast
qed

text \<open>The final \<open>elv_dispatch_sort\<close> of a dispatch.\<close>

lemma alpha_dispatch_sort:
  assumes wf: "alpha_wf q" and rq: "rqs q rq = Some r"
  shows "\<exists>q'. elv_dispatch_sort rq q = Inr q' \<and> alpha_wf q' \<and> alpha_pending q' = alpha_pending q \<and>
     avals q' = avals q \<and> asize q' = asize q \<and> queue_head q' = sorted_slot q rq \<and>
     mset (queue_head q') = add_mset rq (mset (queue_head q)) \<and> virtual_time q' = virtual_time q \<and>
     sfqrs q' = sfqrs q \<and> (\<exists>m lm h. q' = q\<lparr>rqs := m, last_merge := lm, nr_sorted := nr_sorted q - 1, rqhash := h,
              queue_head := sorted_slot q rq\<rparr>)"
proof -
  from wf have "set (queue_head q) \<subseteq> dom (rqs q)" by (simp add: alpha_wf_def)
  from elv_dispatch_sort_ok [OF rq this] obtain m lm h where
    d: "elv_dispatch_sort rq q = Inr (q\<lparr>rqs := m, last_merge := lm, nr_sorted := nr_sorted q - 1,
          rqhash := h, queue_head := sorted_slot q rq\<rparr>)" and same: "same_requests (rqs q) m" by blast
  have dom: "dom m = dom (rqs q)" by (rule same_requests_dom [OF same])
  have "set (sorted_slot q rq) = insert rq (set (queue_head q))"
    using mset_sorted_slot by (metis set_mset_add_mset_insert set_mset_mset)
  then have sub: "set (sorted_slot q rq) \<subseteq> dom (rqs q)" using wf rq by (auto simp: alpha_wf_def)
  let ?q' = "q\<lparr>rqs := m, last_merge := lm, nr_sorted := nr_sorted q - 1, rqhash := h,
               queue_head := sorted_slot q rq\<rparr>"
  have "alpha_wf ?q' \<and> alpha_pending ?q' = alpha_pending q \<and> avals ?q' = avals q"
    by (rule alpha_wf_same [OF wf]) (use dom sub in simp_all)
  with d show ?thesis by (intro exI [of _ ?q']) auto
qed

end
