(* ===== verification/Alpha9.thy ===== *)
theory Alpha9
  imports Alpha_Base
begin

text \<open>
  The ninth alpha scheduler (\<open>ssd_scheduler_alpha/sfq-sched_9_complete.c\<close>): every waiting
  request is in one heap, and a dispatch takes the request with the smallest start tag.
\<close>

section \<open>Model\<close>

record alpha9 = alpha_base +
  advance :: int
  aqueue :: "nat list"

definition sfq_init_queue :: "bool \<Rightarrow> bool \<Rightarrow> bool \<Rightarrow> 'a alpha9_scheme \<Rightarrow> 'a alpha9_scheme init_result" where
  "sfq_init_queue eq_ok sfqd_ok arr_ok q =
     (if \<not> eq_ok then \<lparr>ret = - ENOMEM, eq_released = False, result_queue = q\<rparr>
      else if \<not> sfqd_ok then \<lparr>ret = - ENOMEM, eq_released = True, result_queue = q\<rparr>
      else \<lparr>ret = 0, eq_released = False, result_queue =
        q\<lparr>virtual_time := 0, advance := 0, requests := (if arr_ok then [None] else []), asize := 0,
          aqueue := []\<rparr>\<rparr>)"

definition sfq_set_request ::
  "int \<Rightarrow> nat option \<Rightarrow> nat \<Rightarrow> 'a alpha9_scheme \<Rightarrow> (int \<times> 'a alpha9_scheme) res" where
  "sfq_set_request cur rmem rq q = bindE (set_request_flag 1 cur rmem rq q) (\<lambda>q. Inr (0, q))"

text \<open>Not called by the scheduler any more.\<close>

function get_highest_finish_tag :: "'a alpha9_scheme \<Rightarrow> nat \<Rightarrow> int res" where
  "get_highest_finish_tag hp i =
     (if LCHILD i \<ge> asize hp then
        bindE (node_at (requests hp) (sfqrs hp) i) (\<lambda>r. Inr (s32 (start_tag r + REQUEST_TAGS)))
      else
        bindE (get_highest_finish_tag hp (LCHILD i)) (\<lambda>l.
        bindE (get_highest_finish_tag hp (RCHILD i)) (\<lambda>r.
          if l \<ge> r then Inr (s32 (l + REQUEST_TAGS)) else Inr (s32 (r + REQUEST_TAGS)))))"
  by pat_completeness auto
termination
  by (relation "measure (\<lambda>(hp, i). asize hp - i)") (auto simp: LCHILD_def RCHILD_def)

declare get_highest_finish_tag.simps [simp del]

text \<open>\<open>grown\<close> is the outcome of the \<open>krealloc\<close>.\<close>

definition sfq_add_request :: "bool \<Rightarrow> nat \<Rightarrow> 'a alpha9_scheme \<Rightarrow> 'a alpha9_scheme res" where
  "sfq_add_request grown rq q =
     bindE (deref (rqs q) rq) (\<lambda>r.
     bindE (deref_ptr (sfqrs q) (priv0 r)) (\<lambda>sfqr.
       if start_tag sfqr \<ge> 0 then
         bindE (heap_insert_request (the (priv0 r)) rq
           (if asize q \<noteq> 0
            then q\<lparr>requests := (if grown then arealloc (requests q) (asize q + 1) else [])\<rparr> else q)) (\<lambda>q.
           Inr (if advance q = 0 then q\<lparr>advance := advance q + 1\<rparr> else q))
       else Inr q))"

definition sfq_dispatch :: "'a alpha9_scheme \<Rightarrow> (int \<times> 'a alpha9_scheme) res" where
  "sfq_dispatch q =
     (if asize q > 0 then
        bindE (aget (requests q) 0) (\<lambda>s.
        bindE (deref (sfqrs q) s) (\<lambda>sfqr.
        let rq = a_rq sfqr; n = asize q - 1 in
        bindE (aget (requests q) n) (\<lambda>l.
        bindE (aset (requests q) 0 l) (\<lambda>arr.
          if asize q > 1 then
            bindE (sfq_heapify 0 (q\<lparr>requests := arealloc arr n, asize := n\<rparr>)) (\<lambda>q.
              case rq of
                None \<Rightarrow> Inl NullDeref
              | Some rq \<Rightarrow> bindE (elv_dispatch_sort rq q) (\<lambda>q. Inr (1, q)))
          else
            bindE (node_at arr (sfqrs q) 0) (\<lambda>_.
            let q = q\<lparr>requests := arr, asize := n\<rparr> in
              case rq of
                None \<Rightarrow> Inr (0, q)
              | Some rq \<Rightarrow> bindE (elv_dispatch_sort rq q) (\<lambda>q. Inr (1, q)))))))
      else Inr (0, q))"

definition sfq_exit_queue :: "'a alpha9_scheme \<Rightarrow> unit res" where
  "sfq_exit_queue q = guardE (aqueue q = []) BugOn"

section \<open>Correctness\<close>

lemma sfq_dispatch_step:
  assumes wf: "alpha_wf q" and n: "asize q = Suc n"
  shows "\<exists>q' v. sfq_dispatch q = Inr (1, q') \<and> alpha_wf q' \<and> v = avals q ! 0 \<and>
     (\<forall>x \<in> set (avals q). start_tag v \<le> start_tag x) \<and> a_rq v \<noteq> None \<and>
     queue_head q' = sorted_slot q (the (a_rq v)) \<and>
     mset (queue_head q') = add_mset (the (a_rq v)) (mset (queue_head q)) \<and>
     alpha_pending q = add_mset (the (a_rq v)) (alpha_pending q') \<and>
     avals q' = heap_pop start_tag (avals q) \<and> virtual_time q' = virtual_time q"
proof -
  from alpha_pop [OF wf n] obtain p v rq r where
    p: "aget (requests q) 0 = Inr p" "sfqrs q p = Some v" "v = avals q ! 0" "a_rq v = Some rq"
      "rqs q rq = Some r" "aget (requests q) n = Inr (the (requests q ! n))"
      "requests q ! n = Some (the (requests q ! n))" "\<forall>x \<in> set (avals q). start_tag v \<le> start_tag x" by blast
  have ok: "heap_ok (requests q) (Suc n) (sfqrs q)" using alpha_wf_heap [OF wf] n by simp
  let ?arr = "(requests q)[0 := requests q ! n]"
  have len: "Suc n \<le> length (requests q)" by (rule heap_ok_len [OF ok])
  have set: "aset (requests q) 0 (the (requests q ! n)) = Inr ?arr"
    using len p(7) by (auto simp: aset_def)
  let ?arr' = "if 0 < n then arealloc ?arr n else ?arr"
  have arr': "ptrs ?arr' n = ptrs ?arr n" "0 < length ?arr'"
    using len by (simp_all del: length_greater_0_conv)
  have hok: "heap_ok ?arr' n m = heap_ok ?arr n m" for m
    using len by (auto simp: heap_ok_def arealloc_def ptrs_def)
  have vals': "heapify_at start_tag ?arr' n (sfqrs q) 0 = heapify_at start_tag ?arr n (sfqrs q) 0 \<or> n = 0"
    using heap_ok_pop(1) [OF ok] len heapify_at_arealloc [of ?arr n "sfqrs q" start_tag] by auto
  have g: "0 < n \<longleftrightarrow> 1 < n \<or> 0 < n \<and> 0 < n" by auto
  from heapify_after_pop [OF ok g, of start_tag] obtain m where
    h: "(if 0 < n then heapify_at start_tag ?arr n (sfqrs q) 0 else Inr (sfqrs q)) = Inr m" by blast
  let ?q1 = "q\<lparr>requests := ?arr', asize := n, sfqrs := m\<rparr>"
  from alpha_pop_wf [OF wf n refl h g refl arr'(1) hok arr'(2)]
  have w: "alpha_wf ?q1" "alpha_pending q = add_mset rq (alpha_pending ?q1)"
    "avals ?q1 = heap_pop start_tag (avals q)"
    using p(3,4) by auto
  have r1: "rqs ?q1 rq = Some r" using p(5) by simp
  from alpha_dispatch_sort [OF w(1) r1] obtain q' where
    q': "elv_dispatch_sort rq ?q1 = Inr q'" "alpha_wf q'" "alpha_pending q' = alpha_pending ?q1"
      "avals q' = avals ?q1" "queue_head q' = sorted_slot ?q1 rq"
      "mset (queue_head q') = add_mset rq (mset (queue_head ?q1))" "virtual_time q' = virtual_time ?q1" by blast
  have slot: "sorted_slot ?q1 rq = sorted_slot q rq" by (simp add: sorted_slot_def)
  have "sfq_dispatch q = Inr (1, q')"
  proof (cases "0 < n")
    case True
    with h vals' have "sfq_heapify 0 (q\<lparr>requests := arealloc ?arr n, asize := n\<rparr>) = Inr ?q1"
      by (simp add: sfq_heapify_def)
    with p set q'(1) n True show ?thesis by (simp add: sfq_dispatch_def Let_def)
  next
    case False
    then have "?q1 = q\<lparr>requests := ?arr, asize := n\<rparr>" using h by (cases q) simp
    moreover have "node_at ?arr (sfqrs q) 0 = Inr v"
      using False p(1,2) len p(7) by (auto simp: node_at_def aget_def split: option.splits)
    ultimately show ?thesis using p set q'(1) n False by (simp add: sfq_dispatch_def Let_def)
  qed
  with q' w slot p show ?thesis by (intro exI [of _ q'] exI [of _ v]) simp
qed

lemma sfq_dispatch_empty: "asize q = 0 \<Longrightarrow> sfq_dispatch q = Inr (0, q)"
  by (simp add: sfq_dispatch_def)

lemma alpha_pending_empty: "alpha_wf q \<Longrightarrow> alpha_pending q = {#} \<longleftrightarrow> asize q = 0"
  using length_avals [of q] by (auto simp: alpha_pending_def)

interpretation alpha9: work_conserving alpha_wf alpha_pending "\<lambda>q. mset (queue_head q)" "\<lambda>q. Some (sfq_dispatch q)"
proof (unfold_locales, goal_cases)
  case (1 q)
  then show ?case
    using sfq_dispatch_step [OF 1] sfq_dispatch_empty [of q] by (cases "asize q") fastforce+
next
  case (2 q n q')
  then show ?case
    using sfq_dispatch_step [OF 2(1)] alpha_pending_empty [OF 2(1)] by (cases "asize q") auto
qed

lemma sfq_add_request_ok:
  assumes wf: "alpha_wf q" and r: "rqs q rq = Some r" "priv0 r = Some s" and v: "sfqrs q s = Some v"
    and tag: "0 \<le> start_tag v" and ns: "s \<notin> set (aptrs q)"
  shows "\<exists>q'. sfq_add_request True rq q = Inr q' \<and> alpha_wf q' \<and>
     alpha_pending q' = add_mset rq (alpha_pending q) \<and> asize q' = asize q + 1 \<and> queue_head q' = queue_head q \<and>
     avals q' = heap_insert start_tag (v\<lparr>a_rq := Some rq\<rparr>) (avals q) \<and> virtual_time q' = virtual_time q"
proof -
  let ?arr = "if asize q \<noteq> 0 then arealloc (requests q) (asize q + 1) else requests q"
  note ok = alpha_wf_heap [OF wf]
  have l: "asize q \<le> length (requests q)" by (rule heap_ok_len [OF ok])
  have cap: "asize q < length ?arr" using wf by (simp add: alpha_wf_def)
  have arr: "heap_ok ?arr (asize q) (sfqrs q)" "vals ?arr (asize q) (sfqrs q) = avals q"
    "ptrs ?arr (asize q) = aptrs q"
    using heap_ok_arealloc [OF ok, of "asize q + 1"] ok l by (auto simp: avals_def aptrs_def)
  have rd: "rq \<in> dom (rqs q)" using r by auto
  from heap_insert_request_wf [OF wf cap v ns rd arr] obtain q1 where
    q1: "heap_insert_request s rq (q\<lparr>requests := ?arr\<rparr>) = Inr q1" "alpha_wf q1"
      "alpha_pending q1 = add_mset rq (alpha_pending q)" "asize q1 = asize q + 1"
      "queue_head q1 = queue_head q" "avals q1 = heap_insert start_tag (v\<lparr>a_rq := Some rq\<rparr>) (avals q)"
      "q1 = q\<lparr>requests := requests q1, asize := asize q + 1, sfqrs := sfqrs q1\<rparr>" by blast
  have time: "virtual_time q1 = virtual_time q" by (subst q1(7)) simp
  let ?q2 = "if advance q1 = 0 then q1\<lparr>advance := advance q1 + 1\<rparr> else q1"
  have eq: "(if asize q \<noteq> 0 then q\<lparr>requests := arealloc (requests q) (asize q + 1)\<rparr> else q) = q\<lparr>requests := ?arr\<rparr>"
    by (cases q) simp
  have ins: "heap_insert_request s rq
      (if asize q \<noteq> 0 then q\<lparr>requests := arealloc (requests q) (asize q + 1)\<rparr> else q) = Inr q1"
    unfolding eq by (rule q1(1))
  have "sfq_add_request True rq q = Inr ?q2"
    using r v tag ins by (cases "asize q = 0") (simp_all add: sfq_add_request_def)
  moreover have "alpha_wf ?q2 \<and> alpha_pending ?q2 = alpha_pending q1 \<and> avals ?q2 = avals q1"
    by (rule alpha_wf_same [OF q1(2)]) (use q1(2) in \<open>auto simp: alpha_wf_def\<close>)
  ultimately show ?thesis using q1(3-6) time by (intro exI [of _ ?q2]) simp
qed

section \<open>Properties\<close>

definition alpha9_example :: alpha9 where
  "alpha9_example = \<lparr>
     rqs = (\<lambda>i. if i < 3 then Some ((plain_request (10 * i))\<lparr>priv0 := Some (100 + i)\<rparr>) else None),
     queue_head = [], last_merge = None, end_sector = 0, boundary_rq = None, nr_sorted = 2,
     in_flight = (\<lambda>_. 0), nr_pending = 0, rqhash = (\<lambda>_. []), nomerges = False, noxmerges = False,
     run_count = 0, virtual_time = 300, asize = 2, requests = [Some 100, Some 101],
     sfqrs = [100 \<mapsto> \<lparr>start_tag = 0, finish_tag = 100, a_pid = 7, a_rq = Some 0, a_flag = 1\<rparr>,
              101 \<mapsto> \<lparr>start_tag = 200, finish_tag = 300, a_pid = 8, a_rq = Some 1, a_flag = 1\<rparr>,
              102 \<mapsto> \<lparr>start_tag = 100, finish_tag = 200, a_pid = 7, a_rq = None, a_flag = 1\<rparr>],
     advance = 1, aqueue = []\<rparr>"

lemma alpha9_example_wf: "alpha_wf alpha9_example"
  and alpha9_example_fields: "asize alpha9_example = 2" "aptrs alpha9_example = [100, 101]"
    "map start_tag (avals alpha9_example) = [0, 200]"
  by (auto simp: alpha9_example_def alpha_wf_def avals_def aptrs_def heap_ok_def ptrs_def vals_def heap_from_def
      numeral_2_eq_2 less_Suc_eq PARENT_def)

text \<open>A dispatch of the ninth alpha scheduler with anything waiting always returns 1: it takes a request
  with the smallest start tag out of the heap, to its sorted place on the dispatch list, and what is
  left is again a heap of exactly the other requests.\<close>

theorem alpha9_dispatch_smallest:
  assumes "alpha_wf q" "0 < asize q"
  shows "\<exists>q' v rq. sfq_dispatch q = Inr (1, q') \<and> alpha_wf q' \<and> v \<in> set (avals q) \<and> a_rq v = Some rq \<and>
     (\<forall>x \<in> set (avals q). start_tag v \<le> start_tag x) \<and> queue_head q' = sorted_slot q rq \<and>
     alpha_pending q = add_mset rq (alpha_pending q')"
proof -
  obtain n where n: "asize q = Suc n" using assms(2) by (cases "asize q") auto
  have "avals q ! 0 \<in> set (avals q)" using length_avals [OF assms(1)] n by (intro nth_mem) simp
  with sfq_dispatch_step [OF assms(1) n] show ?thesis by fastforce
qed

theorem alpha9_dispatch_smallest_witness:
  "\<exists>q' v rq. sfq_dispatch alpha9_example = Inr (1, q') \<and> alpha_wf q' \<and>
     v \<in> set (avals alpha9_example) \<and> a_rq v = Some rq \<and> start_tag v \<le> 0"
  using alpha9_dispatch_smallest [OF alpha9_example_wf] alpha9_example_fields by fastforce

text \<open>Draining it ends without a fault and puts every waiting request on the dispatch list.\<close>

theorem alpha9_drain:
  assumes "alpha_wf q"
  shows "\<exists>k q'. elv_drain_elevator (\<lambda>q. Some (sfq_dispatch q)) printed q = Some (Inr (k, q')) \<and>
     asize q' = 0 \<and> mset (queue_head q') = alpha_pending q + mset (queue_head q)"
proof -
  from alpha9.drain_empties [OF assms] obtain q' where
    "drain_loop (\<lambda>q. Some (sfq_dispatch q)) q = Some (Inr q')" "alpha_wf q'" "alpha_pending q' = {#}"
    "mset (queue_head q') = alpha_pending q + mset (queue_head q)" by blast
  then show ?thesis using alpha_pending_empty by (auto simp: elv_drain_elevator_def)
qed

theorem alpha9_drain_witness:
  "\<exists>k q'. elv_drain_elevator (\<lambda>q. Some (sfq_dispatch q)) 0 alpha9_example = Some (Inr (k, q')) \<and> asize q' = 0"
  using alpha9_drain [OF alpha9_example_wf, of 0] by blast

text \<open>Tags: a request set up while others wait gets a start tag at least as large as every waiting one
  and as the virtual time, which moves to that tag; adding it then, while the virtual time is still
  the same, inserts exactly this request, whatever its process.\<close>

theorem alpha9_set_and_add:
  assumes "alpha_wf q" "rqs q rq = Some r" "s \<notin> dom (sfqrs q)" "0 \<le> virtual_time q"
  shows "\<exists>q1 q2 v. sfq_set_request cur (Some s) rq q = Inr (0, q1) \<and>
     sfq_add_request True rq q1 = Inr q2 \<and> alpha_wf q2 \<and>
     alpha_pending q2 = add_mset rq (alpha_pending q) \<and>
     v \<in> set (avals q2) \<and> a_rq v = Some rq \<and> start_tag v = virtual_time q2 \<and>
     virtual_time q \<le> start_tag v \<and> (\<forall>x \<in> set (avals q). start_tag x \<le> start_tag v)"
proof -
  obtain t0 where "new_start q = Inr t0" "virtual_time q \<le> t0" using new_start_ge [OF assms(1)] by blast
  from set_request_flag_wf [OF assms(1-3), of 1 cur] obtain q1 t where
    q1: "set_request_flag 1 cur (Some s) rq q = Inr q1" "alpha_wf q1" "alpha_pending q1 = alpha_pending q"
      "rqs q1 = (rqs q)(rq \<mapsto> r\<lparr>priv0 := Some s\<rparr>)"
      "sfqrs q1 s = Some \<lparr>start_tag = t, finish_tag = s32 (t + 100), a_pid = cur, a_rq = None, a_flag = 1\<rparr>"
      "virtual_time q1 = t" "\<forall>v \<in> set (avals q). start_tag v \<le> t" "aptrs q1 = aptrs q" "avals q1 = avals q"
    by blast
  have t: "virtual_time q \<le> t"
    using \<open>new_start q = Inr t0\<close> \<open>virtual_time q \<le> t0\<close> q1(1,6) assms(2)
    by (auto simp: set_request_flag_def)
  have r1: "rqs q1 rq = Some (r\<lparr>priv0 := Some s\<rparr>)" "priv0 (r\<lparr>priv0 := Some s\<rparr>) = Some s" using q1(4) by simp_all
  have ns: "s \<notin> set (aptrs q1)"
    using alpha_wf_heap [OF assms(1)] assms(3) q1(8) by (auto simp: heap_ok_def aptrs_def)
  let ?v = "\<lparr>start_tag = t, finish_tag = s32 (t + 100), a_pid = cur, a_rq = Some rq, a_flag = 1\<rparr>"
  have "0 \<le> start_tag \<lparr>start_tag = t, finish_tag = s32 (t + 100), a_pid = cur, a_rq = None, a_flag = 1\<rparr>"
    using t assms(4) by simp
  from sfq_add_request_ok [OF q1(2) r1 q1(5) this ns] obtain q2 where
    q2: "sfq_add_request True rq q1 = Inr q2" "alpha_wf q2" "alpha_pending q2 = add_mset rq (alpha_pending q1)"
      "avals q2 = heap_insert start_tag ?v (avals q1)" "virtual_time q2 = virtual_time q1" by auto
  have "?v \<in># mset (avals q2)" using q2(4) by (simp only: mset_heap_insert) simp
  then have "?v \<in> set (avals q2)" by simp
  moreover have "virtual_time q2 = t" using q2(5) q1(6) by simp
  moreover have "sfq_set_request cur (Some s) rq q = Inr (0, q1)" using q1(1) by (simp add: sfq_set_request_def)
  ultimately show ?thesis using q2 q1(3,7) t by (intro exI [of _ q1] exI [of _ q2] exI [of _ ?v]) simp
qed

theorem alpha9_set_and_add_witness:
  "\<exists>q1 q2. sfq_set_request 9 (Some 110) 2 alpha9_example = Inr (0, q1) \<and> sfq_add_request True 2 q1 = Inr q2 \<and>
     alpha_wf q2"
proof -
  have "rqs alpha9_example 2 = Some ((plain_request 20)\<lparr>priv0 := Some 102\<rparr>)" "110 \<notin> dom (sfqrs alpha9_example)"
    "0 \<le> virtual_time alpha9_example" by (auto simp: alpha9_example_def)
  from alpha9_set_and_add [OF alpha9_example_wf this] show ?thesis by blast
qed

end
