(* ===== verification/Alpha16.thy ===== *)
theory Alpha16
  imports Alpha_Base
begin

text \<open>
  The last alpha scheduler (\<open>ssd_scheduler_alpha/sfq-shed_16_array_limit.c\<close>): the heap of the
  ninth one, a limit on the outstanding requests, and an array that is resized in stages.
\<close>

section \<open>Model\<close>

definition REQUEST_DEPTH :: int where "REQUEST_DEPTH = 1"

definition STAGE_ONE :: nat where "STAGE_ONE = 30000"

definition STAGE_TWO :: nat where "STAGE_TWO = 50000"

definition STAGE_THREE :: nat where "STAGE_THREE = 70000"

text \<open>\<open>curr_sfqr\<close> is not initialised: \<open>None\<close> until the first dispatch.\<close>

record alpha16 = alpha_base +
  depth :: int
  curr_sfqr :: "nat option"
  unplug_pending :: bool

definition kblockd_schedule_work :: "'a alpha16_scheme \<Rightarrow> 'a alpha16_scheme" where
  "kblockd_schedule_work q = q\<lparr>unplug_pending := True\<rparr>"

definition sfq_kick_queue :: "'a alpha16_scheme \<Rightarrow> 'a alpha16_scheme" where
  "sfq_kick_queue q = blk_run_queue (q\<lparr>unplug_pending := False\<rparr>)"

definition sfq_init_queue ::
  "bool \<Rightarrow> bool \<Rightarrow> bool \<Rightarrow> 'a alpha16_scheme \<Rightarrow> 'a alpha16_scheme init_result" where
  "sfq_init_queue eq_ok sfqd_ok arr_ok q =
     (if \<not> eq_ok then \<lparr>ret = - ENOMEM, eq_released = False, result_queue = q\<rparr>
      else if \<not> sfqd_ok then \<lparr>ret = - ENOMEM, eq_released = True, result_queue = q\<rparr>
      else \<lparr>ret = 0, eq_released = False, result_queue =
        q\<lparr>virtual_time := 0, requests := (if arr_ok then [None] else []), asize := 0, depth := 0,
          curr_sfqr := None, unplug_pending := False\<rparr>\<rparr>)"

text \<open>The block allocated is \<open>STAGE_ONE\<close> structs long; only its first one is ever used.\<close>

definition sfq_set_request ::
  "int \<Rightarrow> nat option \<Rightarrow> nat \<Rightarrow> 'a alpha16_scheme \<Rightarrow> (int \<times> 'a alpha16_scheme) res" where
  "sfq_set_request cur rmem rq q = bindE (set_request_flag 0 cur rmem rq q) (\<lambda>q. Inr (0, q))"

text \<open>The number of slots asked for, in the order of the source's conditions.\<close>

definition stage_slots :: "nat \<Rightarrow> nat" where
  "stage_slots n = (if n \<ge> 20000 then STAGE_TWO else if n > 40000 then STAGE_THREE else n + 1)"

text \<open>\<open>grown\<close> is the outcome of the \<open>krealloc\<close>.\<close>

definition sfq_add_request :: "bool \<Rightarrow> nat \<Rightarrow> 'a alpha16_scheme \<Rightarrow> 'a alpha16_scheme res" where
  "sfq_add_request grown rq q =
     bindE (deref (rqs q) rq) (\<lambda>r.
     bindE (deref_ptr (sfqrs q) (priv0 r)) (\<lambda>sfqr.
       if start_tag sfqr \<ge> 0 then
         heap_insert_request (the (priv0 r)) rq
           (q\<lparr>requests := (if grown then arealloc (requests q) (stage_slots (asize q)) else [])\<rparr>)
       else Inr q))"

definition sfq_dispatch :: "'a alpha16_scheme \<Rightarrow> (int \<times> 'a alpha16_scheme) res" where
  "sfq_dispatch q =
     (if asize q > 0 \<and> depth q \<le> REQUEST_DEPTH then
        bindE (aget (requests q) 0) (\<lambda>s.
        bindE (deref (sfqrs q) s) (\<lambda>sfqr.
        let rq = a_rq sfqr; n = asize q - 1 in
        bindE (aget (requests q) n) (\<lambda>l.
        bindE (aset (requests q) 0 l) (\<lambda>arr.
        let q = q\<lparr>requests := arr, asize := n\<rparr> in
        bindE (if asize q > 1 then sfq_heapify 0 q else Inr q) (\<lambda>q.
          case rq of
            None \<Rightarrow> Inr (0, q)
          | Some rq \<Rightarrow>
              bindE (elv_dispatch_sort rq q) (\<lambda>q.
                Inr (1, q\<lparr>curr_sfqr := Some s, depth := depth q + 1\<rparr>)))))))
      else Inr (0, q))"

definition sfq_completed :: "'a alpha16_scheme \<Rightarrow> 'a alpha16_scheme res" where
  "sfq_completed q0 =
     (let q = q0\<lparr>depth := depth q0 - 1\<rparr> in
      if depth q > 0 then
        let q = kblockd_schedule_work q in
        case curr_sfqr q of
          None \<Rightarrow> Inl Uninit
        | Some s \<Rightarrow> bindE (deref (sfqrs q) s) (\<lambda>sfqr. Inr (q\<lparr>sfqrs := (sfqrs q)(s \<mapsto> sfqr\<lparr>a_flag := 1\<rparr>)\<rparr>))
      else Inr q)"

definition sfq_put_request :: "nat \<Rightarrow> 'a alpha16_scheme \<Rightarrow> 'a alpha16_scheme res" where
  "sfq_put_request rq q =
     bindE (deref (rqs q) rq) (\<lambda>r.
     bindE (deref_ptr (sfqrs q) (priv0 r)) (\<lambda>_.
       Inr (if depth q > 0 then kblockd_schedule_work q else q)))"

text \<open>The scheduler data is freed; nothing cancels the scheduled work.\<close>

definition sfq_exit_queue :: "'a alpha16_scheme \<Rightarrow> 'a alpha16_scheme" where
  "sfq_exit_queue q = q"

section \<open>Dispatch\<close>

lemma sfq_dispatch_none: "asize q = 0 \<or> 1 < depth q \<Longrightarrow> sfq_dispatch q = Inr (0, q)"
  by (auto simp: sfq_dispatch_def REQUEST_DEPTH_def)

lemma alpha16_dispatch_step:
  assumes wf: "alpha_wf q" and n: "asize q = Suc n" and d: "depth q \<le> 1"
  shows "\<exists>q' v. sfq_dispatch q = Inr (1, q') \<and> alpha_wf q' \<and> v = avals q ! 0 \<and>
     (\<forall>x \<in> set (avals q). start_tag v \<le> start_tag x) \<and> a_rq v \<noteq> None \<and>
     queue_head q' = sorted_slot q (the (a_rq v)) \<and>
     mset (queue_head q') = add_mset (the (a_rq v)) (mset (queue_head q)) \<and>
     alpha_pending q = add_mset (the (a_rq v)) (alpha_pending q') \<and> asize q' = n \<and>
     depth q' = depth q + 1 \<and> (\<exists>s. curr_sfqr q' = Some s \<and> sfqrs q' s = Some v)"
proof -
  from alpha_pop [OF wf n] obtain p v rq r where
    p: "aget (requests q) 0 = Inr p" "sfqrs q p = Some v" "v = avals q ! 0" "a_rq v = Some rq"
      "rqs q rq = Some r" "aget (requests q) n = Inr (the (requests q ! n))"
      "requests q ! n = Some (the (requests q ! n))" "\<forall>x \<in> set (avals q). start_tag v \<le> start_tag x" by blast
  have ok: "heap_ok (requests q) (Suc n) (sfqrs q)" using alpha_wf_heap [OF wf] n by simp
  let ?arr = "(requests q)[0 := requests q ! n]"
  have len: "Suc n \<le> length (requests q)" by (rule heap_ok_len [OF ok])
  have set: "aset (requests q) 0 (the (requests q ! n)) = Inr ?arr"
    using len p(7) by (auto simp: aset_def)
  have g: "1 < n \<longleftrightarrow> 1 < n \<or> 0 < n \<and> 1 < n" by auto
  from heapify_after_pop [OF ok g, of start_tag] obtain m where
    h: "(if 1 < n then heapify_at start_tag ?arr n (sfqrs q) 0 else Inr (sfqrs q)) = Inr m" by blast
  have p0: "ptrs (requests q) (Suc n) ! 0 = p"
    using heap_ok_aget [OF ok, of 0] p(1) by simp
  let ?q1 = "q\<lparr>requests := ?arr, asize := n, sfqrs := m\<rparr>"
  have l0: "0 < length ?arr" using len by (simp del: length_greater_0_conv)
  from alpha_pop_wf [OF wf n refl h g refl refl refl l0]
  have w: "alpha_wf ?q1" "alpha_pending q = add_mset rq (alpha_pending ?q1)" "m p = Some v"
    using p(2-4) p0 by auto
  have r1: "rqs ?q1 rq = Some r" using p(5) by simp
  from alpha_dispatch_sort [OF w(1) r1] obtain q' where
    q': "elv_dispatch_sort rq ?q1 = Inr q'" "alpha_wf q'" "alpha_pending q' = alpha_pending ?q1"
      "asize q' = asize ?q1" "queue_head q' = sorted_slot ?q1 rq"
      "mset (queue_head q') = add_mset rq (mset (queue_head ?q1))" "sfqrs q' = sfqrs ?q1"
      "\<exists>mm lm h. q' = ?q1\<lparr>rqs := mm, last_merge := lm, nr_sorted := nr_sorted ?q1 - 1, rqhash := h,
              queue_head := sorted_slot ?q1 rq\<rparr>" by blast
  then have dq: "depth q' = depth q" by (elim exE conjE) (drule arg_cong [of _ _ depth], simp)
  have slot: "sorted_slot ?q1 rq = sorted_slot q rq" by (simp add: sorted_slot_def)
  have heap: "(if 1 < n then sfq_heapify 0 (q\<lparr>requests := ?arr, asize := n\<rparr>)
               else Inr (q\<lparr>requests := ?arr, asize := n\<rparr>)) = Inr ?q1"
    using h by (cases "1 < n"; cases q) (simp_all add: sfq_heapify_def)
  let ?q2 = "q'\<lparr>curr_sfqr := Some p, depth := depth q' + 1\<rparr>"
  have e: "sfq_dispatch q = Inr (1, ?q2)"
    using p set q'(1) n d heap by (simp add: sfq_dispatch_def Let_def REQUEST_DEPTH_def)
  have "alpha_wf ?q2 \<and> alpha_pending ?q2 = alpha_pending q' \<and> avals ?q2 = avals q'"
    by (rule alpha_wf_same [OF q'(2)]) (use q'(2) in \<open>auto simp: alpha_wf_def\<close>)
  with e q' w slot p dq show ?thesis by (intro exI [of _ ?q2] exI [of _ v]) simp
qed

interpretation alpha16: elv_sched alpha_wf alpha_pending "\<lambda>q. mset (queue_head q)" "\<lambda>q. Some (sfq_dispatch q)"
proof (unfold_locales, goal_cases)
  case (1 q)
  then show ?case
  proof (cases "asize q = 0 \<or> 1 < depth q")
    case True
    with 1 sfq_dispatch_none [OF this] show ?thesis by simp
  next
    case False
    then obtain n where "asize q = Suc n" "depth q \<le> 1" by (cases "asize q") auto
    from alpha16_dispatch_step [OF 1 this] show ?thesis by fastforce
  qed
qed

text \<open>How far a drain gets.\<close>

lemma alpha16_drains:
  assumes "alpha_wf q" "k = min (asize q) (nat (2 - depth q))"
  shows "\<exists>q'. drain_loop (\<lambda>q. Some (sfq_dispatch q)) q = Some (Inr q') \<and> alpha_wf q' \<and>
     asize q' = asize q - k \<and> depth q' = depth q + int k \<and>
     alpha_pending q' + mset (queue_head q') = alpha_pending q + mset (queue_head q)"
  using assms
proof (induction k arbitrary: q)
  case 0
  then have "sfq_dispatch q = Inr (0, q)" by (intro sfq_dispatch_none) (auto simp: min_def split: if_splits)
  with 0 show ?case by (subst drain_loop.simps) simp
next
  case (Suc k)
  then obtain n where n: "asize q = Suc n" "depth q \<le> 1" by (cases "asize q") (auto simp: min_def split: if_splits)
  from alpha16_dispatch_step [OF Suc.prems(1) n] obtain q1 rq where
    q1: "sfq_dispatch q = Inr (1, q1)" "alpha_wf q1"
      "mset (queue_head q1) = add_mset rq (mset (queue_head q))"
      "alpha_pending q = add_mset rq (alpha_pending q1)" "asize q1 = n" "depth q1 = depth q + 1"
    by blast
  have "k = min (asize q1) (nat (2 - depth q1))" using Suc.prems(2) n q1(5,6) by linarith
  from Suc.IH [OF q1(2) this] obtain q' where
    q': "drain_loop (\<lambda>q. Some (sfq_dispatch q)) q1 = Some (Inr q')" "alpha_wf q'" "asize q' = asize q1 - k"
      "depth q' = depth q1 + int k"
      "alpha_pending q' + mset (queue_head q') = alpha_pending q1 + mset (queue_head q1)" by blast
  have "drain_loop (\<lambda>q. Some (sfq_dispatch q)) q = Some (Inr q')"
    using q1(1) q'(1) by (subst drain_loop.simps) simp
  then show ?case using q' q1 n by auto
qed

section \<open>Adding\<close>

lemma stage_slots_room: "stage_slots n > n \<longleftrightarrow> n < 50000"
  by (auto simp: stage_slots_def STAGE_TWO_def)

lemma alpha16_add_ok:
  assumes wf: "alpha_wf q" and r: "rqs q rq = Some r" "priv0 r = Some s" and v: "sfqrs q s = Some v"
    and tag: "0 \<le> start_tag v" and ns: "s \<notin> set (aptrs q)" and room: "asize q < 50000"
  shows "\<exists>q'. sfq_add_request True rq q = Inr q' \<and> alpha_wf q' \<and>
     alpha_pending q' = add_mset rq (alpha_pending q) \<and> asize q' = asize q + 1"
proof -
  let ?arr = "arealloc (requests q) (stage_slots (asize q))"
  note ok = alpha_wf_heap [OF wf]
  have l: "asize q \<le> length (requests q)" by (rule heap_ok_len [OF ok])
  have cap: "asize q < length ?arr" using room stage_slots_room by simp
  have arr: "heap_ok ?arr (asize q) (sfqrs q)" "vals ?arr (asize q) (sfqrs q) = avals q"
    "ptrs ?arr (asize q) = aptrs q"
    using heap_ok_arealloc [OF ok, of "stage_slots (asize q)"] cap l by (auto simp: avals_def aptrs_def)
  have rd: "rq \<in> dom (rqs q)" using r by auto
  from heap_insert_request_wf [OF wf cap v ns rd arr] r v tag show ?thesis
    by (auto simp: sfq_add_request_def)
qed

text \<open>The insertion of a request with no free slot: nothing is copied past the end.\<close>

lemma sift_up_at_end:
  assumes ok: "heap_ok arr n m" and n: "n = length arr" "0 < n" and x: "m x = Some v"
  shows "sift_up_at key m arr n x = Inl OutOfBounds"
proof -
  have "PARENT n < n" using n by (simp add: heap_index)
  with ok have "aget arr (PARENT n) = Inr (ptrs arr n ! PARENT n)"
    "node_at arr m (PARENT n) = Inr (vals arr n m ! PARENT n)" by simp_all
  with n x show ?thesis by (subst sift_up_at.simps) (simp add: aset_def)
qed

section \<open>Properties\<close>

definition alpha16_example :: "nat \<Rightarrow> alpha16" where
  "alpha16_example n = \<lparr>
     rqs = (\<lambda>i. Some ((plain_request (10 * i))\<lparr>priv0 := Some i\<rparr>)),
     queue_head = [], last_merge = None, end_sector = 0, boundary_rq = None, nr_sorted = int n,
     in_flight = (\<lambda>_. 0), nr_pending = 0, rqhash = (\<lambda>_. []), nomerges = False, noxmerges = False,
     run_count = 0, virtual_time = 100, asize = n, requests = map Some [0..<n] @ (if n = 0 then [None] else []),
     sfqrs = (\<lambda>i. Some \<lparr>start_tag = 100, finish_tag = 200, a_pid = 7, a_rq = Some i, a_flag = 0\<rparr>),
     depth = 0, curr_sfqr = None, unplug_pending = False\<rparr>"

lemma alpha16_example_fields [simp]:
  "asize (alpha16_example n) = n" "depth (alpha16_example n) = 0"
  "length (requests (alpha16_example n)) = max n 1" "rqs (alpha16_example n) i = Some ((plain_request (10 * i))\<lparr>priv0 := Some i\<rparr>)"
  "sfqrs (alpha16_example n) i = Some \<lparr>start_tag = 100, finish_tag = 200, a_pid = 7, a_rq = Some i, a_flag = 0\<rparr>"
  "ptrs (requests (alpha16_example n)) n = [0..<n]"
  by (simp_all add: alpha16_example_def ptrs_def)

lemma alpha16_example_wf: "alpha_wf (alpha16_example n)"
proof -
  have v: "avals (alpha16_example n) =
     map (\<lambda>i. \<lparr>start_tag = 100, finish_tag = 200, a_pid = 7, a_rq = Some i, a_flag = 0\<rparr>) [0..<n]"
    by (simp add: avals_def vals_def)
  have "heap_ok (requests (alpha16_example n)) n (sfqrs (alpha16_example n))"
    by (auto simp: heap_ok_def) (auto simp: alpha16_example_def nth_append)
  moreover have "is_heap start_tag (avals (alpha16_example n))"
    unfolding v by (auto simp: heap_from_def PARENT_def)
  moreover have "queue_head (alpha16_example n) = []" "virtual_time (alpha16_example n) = 100"
    by (simp_all add: alpha16_example_def)
  ultimately show ?thesis by (auto simp: alpha_wf_def v)
qed

text \<open>With at most one request outstanding and anything waiting, a dispatch of the last alpha scheduler
  moves a request with the smallest start tag to its sorted place on the dispatch list, counts it and
  remembers its struct; otherwise it returns 0 and changes nothing.\<close>

theorem alpha16_dispatch_limited:
  assumes "alpha_wf q"
  shows "if asize q = 0 \<or> 1 < depth q then sfq_dispatch q = Inr (0, q)
     else \<exists>q' s v rq. sfq_dispatch q = Inr (1, q') \<and> alpha_wf q' \<and> v \<in> set (avals q) \<and> a_rq v = Some rq \<and>
        (\<forall>x \<in> set (avals q). start_tag v \<le> start_tag x) \<and> queue_head q' = sorted_slot q rq \<and>
        alpha_pending q = add_mset rq (alpha_pending q') \<and> depth q' = depth q + 1 \<and>
        curr_sfqr q' = Some s \<and> sfqrs q' s = Some v"
proof (cases "asize q = 0 \<or> 1 < depth q")
  case False
  then obtain n where n: "asize q = Suc n" "depth q \<le> 1" by (cases "asize q") auto
  have "avals q ! 0 \<in> set (avals q)" using length_avals [OF assms] n by (intro nth_mem) simp
  with alpha16_dispatch_step [OF assms n] show ?thesis unfolding if_not_P [OF False] by (metis option.exhaust_sel)
qed (use sfq_dispatch_none in auto)

theorem alpha16_dispatch_limited_witness:
  "\<exists>q' s. sfq_dispatch (alpha16_example 3) = Inr (1, q') \<and> alpha_wf q' \<and> depth q' = 1 \<and> curr_sfqr q' = Some s"
  using alpha16_dispatch_limited [OF alpha16_example_wf, of 3] by auto

text \<open>C29: The elevator's drain does not drain this scheduler: whatever waits, the loop stops, without a
  fault, after exactly as many requests as the limit of two outstanding ones leaves room for.  All
  the others stay in the scheduler.\<close>

theorem alpha16_drain_limited:
  assumes "alpha_wf q" "k = min (asize q) (nat (2 - depth q))"
  shows "\<exists>c q'. elv_drain_elevator (\<lambda>q. Some (sfq_dispatch q)) printed q = Some (Inr (c, q')) \<and>
     asize q' = asize q - k \<and> depth q' = depth q + int k \<and>
     alpha_pending q' + mset (queue_head q') = alpha_pending q + mset (queue_head q)"
  using alpha16_drains [OF assms] by (auto simp: elv_drain_elevator_def)

theorem alpha16_drain_limited_witness:
  "\<exists>c q'. elv_drain_elevator (\<lambda>q. Some (sfq_dispatch q)) 0 (alpha16_example 5) = Some (Inr (c, q')) \<and>
     asize q' = 3 \<and> depth q' = 2"
  using alpha16_drain_limited [OF alpha16_example_wf refl, of 0 5] by auto

text \<open>C30: The stages of the array: adding a prepared request works, keeping the heap, as long as fewer than
  50000 wait; with the array at 50000 slots and all in use the next one is written past its end,
  because the test for 20000 comes before the one for 40000 and hides the third stage.\<close>

theorem alpha16_add_stages:
  assumes "alpha_wf q" "rqs q rq = Some r" "priv0 r = Some s" "sfqrs q s = Some v" "0 \<le> start_tag v"
    "s \<notin> set (aptrs q)"
  shows "(asize q < 50000 \<longrightarrow> (\<exists>q'. sfq_add_request True rq q = Inr q' \<and> alpha_wf q' \<and>
            alpha_pending q' = add_mset rq (alpha_pending q))) \<and>
     (asize q = 50000 \<longrightarrow> sfq_add_request True rq q = Inl OutOfBounds) \<and>
     (\<forall>n. stage_slots n \<noteq> STAGE_THREE)"
proof (intro conjI impI)
  assume n: "asize q = 50000"
  let ?arr = "arealloc (requests q) (stage_slots (asize q))"
  have l: "length ?arr = asize q" using n by (simp add: stage_slots_def STAGE_TWO_def)
  have "heap_ok ?arr (asize q) ((sfqrs q)(s \<mapsto> v\<lparr>a_rq := Some rq\<rparr>))"
    using heap_ok_arealloc [OF alpha_wf_heap [OF assms(1)], of "stage_slots (asize q)"] l assms(6)
      heap_ok_len [OF alpha_wf_heap [OF assms(1)]]
    by (intro heap_ok_extend) (auto simp: aptrs_def)
  from sift_up_at_end [OF this, of s "v\<lparr>a_rq := Some rq\<rparr>" start_tag] l n
  have "sift_up_at start_tag ((sfqrs q)(s \<mapsto> v\<lparr>a_rq := Some rq\<rparr>)) ?arr (asize q) s = Inl OutOfBounds" by simp
  with assms(2-5) show "sfq_add_request True rq q = Inl OutOfBounds"
    by (simp add: sfq_add_request_def heap_insert_request_def)
next
  show "\<forall>n. stage_slots n \<noteq> STAGE_THREE"
    by (auto simp: stage_slots_def STAGE_TWO_def STAGE_THREE_def)
qed (use alpha16_add_ok [OF assms] in blast)

theorem alpha16_add_stages_witness:
  "sfq_add_request True 50000 (alpha16_example 50000) = Inl OutOfBounds"
proof -
  have "50000 \<notin> set (aptrs (alpha16_example 50000))" by (simp add: aptrs_def)
  from alpha16_add_stages [OF alpha16_example_wf _ _ _ _ this, of 50000] show ?thesis by simp
qed

end
