(* ===== verification/Cfq_Base.thy ===== *)
theory Cfq_Base
  imports ElvHash "HOL-Library.Word"
begin

text \<open>
  The data of the CFQ scheduler (\<open>cfq_experiment/cfq-iosched.c\<close>): queues, groups, I/O
  contexts and the per-device data, with the small functions that classify and count them.

  Times and tree keys are 64-bit words, whose wrap-around the scheduler relies on; sectors are
  natural numbers.  One operation reads the clock once: \<open>now\<close> is an argument.  The
  rebalancing of \<open>lib/rbtree.c\<close> and the clock conversions of the kernel are the parameters of
  a record.  The statistics (\<open>cfqg_stats\<close>) are left out: no decision reads them.
\<close>

section \<open>Machine words\<close>

type_synonym u64 = "64 word"
type_synonym u32 = "32 word"

lemma uint_of_int_small: "0 \<le> v \<Longrightarrow> v < 2 ^ 64 \<Longrightarrow> uint (of_int v :: u64) = v"
  by (simp add: unsigned_of_int take_bit_int_eq_self_iff)

lemma sint_of_int_small: "- (2 ^ 63) \<le> v \<Longrightarrow> v < 2 ^ 63 \<Longrightarrow> sint (of_int v :: u64) = v"
  by (simp add: signed_of_int signed_take_bit_int_eq_self_iff)

lemma unat_ucast64 [simp]: "unat (ucast (w :: u32) :: u64) = unat w"
  by transfer simp

lemma unat_min: "unat (min a b) = min (unat a) (unat (b :: 'a :: len word))"
  by (simp add: min_def word_le_nat_alt)

lemma unat_max: "unat (max a b) = max (unat a) (unat (b :: 'a :: len word))"
  by (simp add: max_def word_le_nat_alt)

lemma unat_mult64: "unat a * unat b < 2 ^ 64 \<Longrightarrow> unat (a * b :: u64) = unat a * unat b"
  using unat_mult_lem [of a b] by simp

section \<open>Parameters\<close>

text \<open>
  \<open>rb_insert_color\<close> and \<open>rb_erase\<close> of \<open>lib/rbtree.c\<close>; \<open>HZ\<close>, the length of a jiffy in
  nanoseconds, and \<open>nsecs_to_jiffies\<close>.
\<close>

record kernel_lib =
  rb_insert_color :: "nat tree \<Rightarrow> nat tree"
  rb_erase :: "nat \<Rightarrow> nat tree \<Rightarrow> nat tree"
  HZ :: u64
  jiffy_ns :: u64
  nsecs_to_jiffies :: "u64 \<Rightarrow> nat"

text \<open>What is documented of the two tree functions: the in-order sequence is kept.\<close>

definition lib_ok :: "kernel_lib \<Rightarrow> bool" where
  "lib_ok L \<longleftrightarrow> (\<forall>t. inorder (rb_insert_color L t) = inorder t) \<and>
     (\<forall>x t. inorder (rb_erase L x t) = remove1 x (inorder t))"

lemma lib_okD:
  "lib_ok L \<Longrightarrow> inorder (rb_insert_color L t) = inorder t"
  "lib_ok L \<Longrightarrow> inorder (rb_erase L x t) = remove1 x (inorder t)"
  by (auto simp: lib_ok_def)

section \<open>Constants\<close>

definition NSEC_PER_SEC :: u64 where "NSEC_PER_SEC = 1000000000"

definition CFQ_IDLE_DELAY :: u64 where "CFQ_IDLE_DELAY = 200000000"

definition CFQ_SLICE_SCALE :: u64 where "CFQ_SLICE_SCALE = 5"

definition CFQ_HW_QUEUE_MIN :: int where "CFQ_HW_QUEUE_MIN = 5"

definition CFQ_SERVICE_SHIFT :: nat where "CFQ_SERVICE_SHIFT = 12"

definition cfq_hist_divisor :: u32 where "cfq_hist_divisor = 4"

definition CFQQ_SEEK_THR :: nat where "CFQQ_SEEK_THR = 800"

definition CFQQ_CLOSE_THR :: nat where "CFQQ_CLOSE_THR = 8192"

definition CFQQ_SECT_THR_NONROT :: nat where "CFQQ_SECT_THR_NONROT = 64"

definition CFQ_WEIGHT_LEGACY_DFL :: u32 where "CFQ_WEIGHT_LEGACY_DFL = 500"

definition CFQ_MIN_TT :: "kernel_lib \<Rightarrow> u64" where "CFQ_MIN_TT L = 2 * NSEC_PER_SEC div HZ L"

text \<open>The I/O priority classes of \<open>ioprio.h\<close> and its number of best-effort levels.\<close>

definition IOPRIO_CLASS_NONE :: nat where "IOPRIO_CLASS_NONE = 0"
definition IOPRIO_CLASS_RT :: nat where "IOPRIO_CLASS_RT = 1"
definition IOPRIO_CLASS_BE :: nat where "IOPRIO_CLASS_BE = 2"
definition IOPRIO_CLASS_IDLE :: nat where "IOPRIO_CLASS_IDLE = 3"
definition IOPRIO_BE_NR :: nat where "IOPRIO_BE_NR = 8"
definition IOPRIO_NORM :: nat where "IOPRIO_NORM = 4"

lemmas ioprio_defs = IOPRIO_CLASS_NONE_def IOPRIO_CLASS_RT_def IOPRIO_CLASS_BE_def
  IOPRIO_CLASS_IDLE_def IOPRIO_BE_NR_def IOPRIO_NORM_def

section \<open>Data\<close>

datatype wl_class_t = BE_WORKLOAD | RT_WORKLOAD | IDLE_WORKLOAD

datatype wl_type_t = ASYNC_WORKLOAD | SYNC_NOIDLE_WORKLOAD | SYNC_WORKLOAD

datatype cfqq_flag = On_rr | Wait_request | Must_dispatch | Must_alloc_slice | Fifo_expire
  | Idle_window | Prio_changed | Slice_new | Sync | Coop | Split_coop | Deep | Wait_busy

record cfq_ttime =
  last_end_request :: u64
  ttime_total :: u64
  ttime_mean :: u64
  ttime_samples :: u64

text \<open>Think times are averages over at most 256 (times 1/256) samples.\<close>

definition samples_ok :: "cfq_ttime \<Rightarrow> bool" where
  "samples_ok t \<longleftrightarrow> ttime_samples t \<le> 256"

record cfq_rb_root =
  rb :: "nat tree"
  leftmost :: "nat option"
  st_count :: u32
  min_vdisktime :: u64
  st_ttime :: cfq_ttime

text \<open>
  A service tree is named by its group, class and type; the idle class has one tree, of the
  first type.  \<open>rb_linked\<close> is \<open>!RB_EMPTY_NODE(&rb_node)\<close>; \<open>p_root\<close> is NULL or the
  index of a priority tree; \<open>slice_resid\<close> is the word of a signed value.
\<close>

type_synonym st_name = "nat \<times> wl_class_t \<times> wl_type_t"

record cfq_queue =
  qref :: int
  qflags :: "cfqq_flag set"
  rb_linked :: bool
  rb_key :: u64
  p_root :: "nat option"
  sort_list :: "nat tree"
  next_rq :: "nat option"
  queued :: "bool \<Rightarrow> int"
  allocated :: "data_dir \<Rightarrow> int"
  qfifo :: "nat list"
  dispatch_start :: u64
  allocated_slice :: u64
  slice_dispatch :: u64
  slice_start :: u64
  slice_end :: u64
  slice_resid :: u64
  prio_pending :: int
  dispatched :: int
  ioprio :: nat
  org_ioprio :: nat
  ioprio_class :: nat
  org_ioprio_class :: nat
  qpid :: int
  seek_history :: u32
  last_request_pos :: nat
  service_tree :: "st_name option"
  new_cfqq :: "nat option"
  cfqg :: "nat option"
  nr_sectors :: nat

text \<open>\<open>gparent\<close> is \<open>cfqg_parent\<close>; \<open>blkg_refs\<close> the references taken with \<open>cfqg_get\<close>.\<close>

record cfq_group =
  g_linked :: bool
  vdisktime :: u64
  nr_active :: int
  children_weight :: u32
  vfraction :: u32
  weight :: u32
  new_weight :: u32
  dev_weight :: u32
  leaf_weight :: u32
  new_leaf_weight :: u32
  dev_leaf_weight :: u32
  nr_cfqq :: int
  busy_queues_avg :: "wl_class_t \<Rightarrow> u32"
  service_trees :: "wl_class_t \<Rightarrow> wl_type_t \<Rightarrow> cfq_rb_root"
  service_tree_idle :: cfq_rb_root
  saved_wl_slice :: u64
  saved_wl_type :: wl_type_t
  saved_wl_class :: wl_class_t
  g_dispatched :: int
  g_ttime :: cfq_ttime
  async_cfqq :: "bool \<Rightarrow> nat \<Rightarrow> nat option"
  async_idle_cfqq :: "nat option"
  gparent :: "nat option"
  blkg_refs :: int

text \<open>
  An I/O context of a process and this device, with the fields of its \<open>io_context\<close> that the
  scheduler uses.
\<close>

record cfq_io_cq =
  cic_cfqq :: "bool \<Rightarrow> nat option"
  c_ttime :: cfq_ttime
  c_ioprio :: nat
  blkcg_serial_nr :: nat
  ioc_ioprio :: nat
  ioc_active_ref :: int
  ioc_refcount :: int

text \<open>
  The device data.  \<open>idle_timer\<close> is the time the armed timer was set for; \<open>nonrot\<close> is
  \<open>blk_queue_nonrot(q)\<close>; \<open>oom_cfqq\<close> is the address of the embedded fallback queue.
  Pairs indexed by \<open>sync\<close> are functions of it.  \<open>q_elevator\<close> is the queue's pointer
  to its elevator object, and \<open>cfqd_freed\<close> holds once the device data has been given back.
\<close>

record cfq_data = request_queue +
  cfqqs :: "nat \<rightharpoonup> cfq_queue"
  cfqgs :: "nat \<rightharpoonup> cfq_group"
  cics :: "nat \<rightharpoonup> cfq_io_cq"
  nonrot :: bool
  grp_service_tree :: cfq_rb_root
  root_group :: nat
  serving_wl_class :: wl_class_t
  serving_wl_type :: wl_type_t
  workload_expires :: u64
  serving_group :: "nat option"
  prio_trees :: "nat \<Rightarrow> nat tree"
  busy_queues :: nat
  busy_sync_queues :: u32
  rq_in_driver :: int
  rq_in_flight :: "bool \<Rightarrow> int"
  rq_queued :: int
  hw_tag :: int
  hw_tag_est_depth :: int
  hw_tag_samples :: u32
  idle_timer :: "u64 option"
  unplug_pending :: bool
  active_queue :: "nat option"
  active_cic :: "nat option"
  last_position :: nat
  cfq_quantum :: nat
  cfq_back_penalty :: nat
  cfq_back_max :: nat
  cfq_slice_async_rq :: nat
  cfq_latency :: bool
  cfq_fifo_expire :: "bool \<Rightarrow> u64"
  cfq_slice :: "bool \<Rightarrow> u64"
  cfq_slice_idle :: u64
  cfq_group_idle :: u64
  cfq_target_latency :: u64
  oom_cfqq :: nat
  last_delayed_sync :: u64
  q_elevator :: "nat option"
  cfqd_freed :: bool

section \<open>Reading and changing queues, groups and contexts\<close>

definition upd_cfqq :: "nat \<Rightarrow> (cfq_queue \<Rightarrow> cfq_queue) \<Rightarrow> 'a cfq_data_scheme \<Rightarrow> 'a cfq_data_scheme res" where
  "upd_cfqq a f q = bindE (deref (cfqqs q) a) (\<lambda>c. Inr (q\<lparr>cfqqs := (cfqqs q)(a \<mapsto> f c)\<rparr>))"

definition upd_cfqg :: "nat \<Rightarrow> (cfq_group \<Rightarrow> cfq_group) \<Rightarrow> 'a cfq_data_scheme \<Rightarrow> 'a cfq_data_scheme res" where
  "upd_cfqg g f q = bindE (deref (cfqgs q) g) (\<lambda>c. Inr (q\<lparr>cfqgs := (cfqgs q)(g \<mapsto> f c)\<rparr>))"

definition upd_cic :: "nat \<Rightarrow> (cfq_io_cq \<Rightarrow> cfq_io_cq) \<Rightarrow> 'a cfq_data_scheme \<Rightarrow> 'a cfq_data_scheme res" where
  "upd_cic i f q = bindE (deref (cics q) i) (\<lambda>c. Inr (q\<lparr>cics := (cics q)(i \<mapsto> f c)\<rparr>))"

lemma upd_cfqq_Some [simp]:
  "cfqqs q a = Some c \<Longrightarrow> upd_cfqq a f q = Inr (q\<lparr>cfqqs := (cfqqs q)(a \<mapsto> f c)\<rparr>)"
  by (simp add: upd_cfqq_def)

lemma upd_cfqg_Some [simp]:
  "cfqgs q g = Some c \<Longrightarrow> upd_cfqg g f q = Inr (q\<lparr>cfqgs := (cfqgs q)(g \<mapsto> f c)\<rparr>)"
  by (simp add: upd_cfqg_def)

lemma upd_cic_Some [simp]:
  "cics q i = Some c \<Longrightarrow> upd_cic i f q = Inr (q\<lparr>cics := (cics q)(i \<mapsto> f c)\<rparr>)"
  by (simp add: upd_cic_def)

lemma upd_store_eq_Inr [res_simps]:
  "upd_cfqq a f q = Inr q' \<longleftrightarrow> (\<exists>c. cfqqs q a = Some c \<and> q' = q\<lparr>cfqqs := (cfqqs q)(a \<mapsto> f c)\<rparr>)"
  "upd_cfqg a g q = Inr q' \<longleftrightarrow> (\<exists>c. cfqgs q a = Some c \<and> q' = q\<lparr>cfqgs := (cfqgs q)(a \<mapsto> g c)\<rparr>)"
  "upd_cic a h q = Inr q' \<longleftrightarrow> (\<exists>c. cics q a = Some c \<and> q' = q\<lparr>cics := (cics q)(a \<mapsto> h c)\<rparr>)"
  by (auto simp: upd_cfqq_def upd_cfqg_def upd_cic_def res_simps)

text \<open>The macros \<open>CFQ_CFQQ_FNS\<close>.\<close>

definition mark :: "cfqq_flag \<Rightarrow> cfq_queue \<Rightarrow> cfq_queue" where
  "mark f c = c\<lparr>qflags := insert f (qflags c)\<rparr>"

definition clear :: "cfqq_flag \<Rightarrow> cfq_queue \<Rightarrow> cfq_queue" where
  "clear f c = c\<lparr>qflags := qflags c - {f}\<rparr>"

definition has :: "cfqq_flag \<Rightarrow> cfq_queue \<Rightarrow> bool" where
  "has f c \<longleftrightarrow> f \<in> qflags c"

lemma has_mark [simp]: "has f (mark g c) \<longleftrightarrow> f = g \<or> has f c"
  and has_clear [simp]: "has f (clear g c) \<longleftrightarrow> f \<noteq> g \<and> has f c"
  by (auto simp: has_def mark_def clear_def)

section \<open>Classes, types and counts\<close>

definition cfq_class_idle :: "cfq_queue \<Rightarrow> bool" where
  "cfq_class_idle c \<longleftrightarrow> ioprio_class c = IOPRIO_CLASS_IDLE"

definition cfq_class_rt :: "cfq_queue \<Rightarrow> bool" where
  "cfq_class_rt c \<longleftrightarrow> ioprio_class c = IOPRIO_CLASS_RT"

text \<open>\<open>hweight32\<close> of \<open>bitops.h\<close> counts the bits that are set.\<close>

definition hweight32 :: "u32 \<Rightarrow> nat" where
  "hweight32 w = length (filter (bit w) [0..<32])"

definition CFQQ_SEEKY :: "cfq_queue \<Rightarrow> bool" where
  "CFQQ_SEEKY c \<longleftrightarrow> hweight32 (seek_history c) > 4"

definition sample_valid :: "u64 \<Rightarrow> bool" where
  "sample_valid n \<longleftrightarrow> n > 80"

definition cfqq_class :: "cfq_queue \<Rightarrow> wl_class_t" where
  "cfqq_class c =
     (if cfq_class_idle c then IDLE_WORKLOAD
      else if cfq_class_rt c then RT_WORKLOAD else BE_WORKLOAD)"

definition cfqq_type :: "cfq_queue \<Rightarrow> wl_type_t" where
  "cfqq_type c =
     (if \<not> has Sync c then ASYNC_WORKLOAD
      else if \<not> has Idle_window c then SYNC_NOIDLE_WORKLOAD else SYNC_WORKLOAD)"

definition st_for :: "nat \<Rightarrow> wl_class_t \<Rightarrow> wl_type_t \<Rightarrow> st_name" where
  "st_for g cls typ = (if cls = IDLE_WORKLOAD then (g, IDLE_WORKLOAD, ASYNC_WORKLOAD) else (g, cls, typ))"

definition tree_of :: "cfq_group \<Rightarrow> wl_class_t \<Rightarrow> wl_type_t \<Rightarrow> cfq_rb_root" where
  "tree_of g cls typ = (if cls = IDLE_WORKLOAD then service_tree_idle g else service_trees g cls typ)"

definition get_st :: "st_name \<Rightarrow> 'a cfq_data_scheme \<Rightarrow> cfq_rb_root res" where
  "get_st n q = (case n of (g, cls, typ) \<Rightarrow> bindE (deref (cfqgs q) g) (\<lambda>c. Inr (tree_of c cls typ)))"

definition put_tree :: "wl_class_t \<Rightarrow> wl_type_t \<Rightarrow> cfq_rb_root \<Rightarrow> cfq_group \<Rightarrow> cfq_group" where
  "put_tree cls typ st g =
     (if cls = IDLE_WORKLOAD then g\<lparr>service_tree_idle := st\<rparr>
      else g\<lparr>service_trees := (service_trees g)(cls := (service_trees g cls)(typ := st))\<rparr>)"

definition set_st :: "st_name \<Rightarrow> cfq_rb_root \<Rightarrow> 'a cfq_data_scheme \<Rightarrow> 'a cfq_data_scheme res" where
  "set_st n st q = (case n of (g, cls, typ) \<Rightarrow> upd_cfqg g (put_tree cls typ st) q)"

definition cfq_group_busy_queues_wl :: "wl_class_t \<Rightarrow> cfq_group \<Rightarrow> u32" where
  "cfq_group_busy_queues_wl cls g =
     (if cls = IDLE_WORKLOAD then st_count (service_tree_idle g)
      else st_count (service_trees g cls ASYNC_WORKLOAD) + st_count (service_trees g cls SYNC_NOIDLE_WORKLOAD)
         + st_count (service_trees g cls SYNC_WORKLOAD))"

definition cfqg_busy_async_queues :: "cfq_group \<Rightarrow> u32" where
  "cfqg_busy_async_queues g =
     st_count (service_trees g RT_WORKLOAD ASYNC_WORKLOAD) + st_count (service_trees g BE_WORKLOAD ASYNC_WORKLOAD)"

definition cfq_io_thinktime_big :: "'a cfq_data_scheme \<Rightarrow> cfq_ttime \<Rightarrow> bool \<Rightarrow> bool" where
  "cfq_io_thinktime_big q t group_idle =
     (if \<not> sample_valid (ttime_samples t) then False
      else ttime_mean t > (if group_idle then cfq_group_idle q else cfq_slice_idle q))"

definition iops_mode :: "'a cfq_data_scheme \<Rightarrow> bool" where
  "iops_mode q \<longleftrightarrow> cfq_slice_idle q = 0 \<and> hw_tag q \<noteq> 0"

definition cfq_schedule_dispatch :: "'a cfq_data_scheme \<Rightarrow> 'a cfq_data_scheme" where
  "cfq_schedule_dispatch q = (if busy_queues q \<noteq> 0 then q\<lparr>unplug_pending := True\<rparr> else q)"

definition cfqg_get :: "nat \<Rightarrow> 'a cfq_data_scheme \<Rightarrow> 'a cfq_data_scheme res" where
  "cfqg_get g = upd_cfqg g (\<lambda>c. c\<lparr>blkg_refs := blkg_refs c + 1\<rparr>)"

definition cfqg_put :: "nat \<Rightarrow> 'a cfq_data_scheme \<Rightarrow> 'a cfq_data_scheme res" where
  "cfqg_put g = upd_cfqg g (\<lambda>c. c\<lparr>blkg_refs := blkg_refs c - 1\<rparr>)"

lemma tree_of_put_tree [simp]:
  "tree_of (put_tree cls typ st g) cls' typ' =
     (if st_for n cls' typ' = st_for n cls typ then st else tree_of g cls' typ')"
  by (auto simp: tree_of_def put_tree_def st_for_def)

end
