(* ===== verification/Cfq_Slice.thy ===== *)
theory Cfq_Slice
  imports Cfq_Base "HOL-Library.Product_Lexorder"
begin

text \<open>
  The arithmetic of CFQ: time slices by priority and by latency target, the charge of a
  group, the clock of the group tree, and the choice of the request that costs the disk
  arm least.
\<close>

section \<open>Model\<close>

definition cfq_prio_slice :: "'a cfq_data_scheme \<Rightarrow> bool \<Rightarrow> nat \<Rightarrow> u64" where
  "cfq_prio_slice q sync prio =
     (let base_slice = cfq_slice q sync; sl = base_slice div CFQ_SLICE_SCALE in
      base_slice + sl * (4 - of_nat prio))"

definition cfq_prio_to_slice :: "'a cfq_data_scheme \<Rightarrow> cfq_queue \<Rightarrow> u64" where
  "cfq_prio_to_slice q c = cfq_prio_slice q (has Sync c) (ioprio c)"

definition cfqg_scale_charge :: "u64 \<Rightarrow> u32 \<Rightarrow> u64 res" where
  "cfqg_scale_charge charge vfr =
     (let c = push_bit CFQ_SERVICE_SHIFT charge; c = push_bit CFQ_SERVICE_SHIFT c in
      if vfr = 0 then Inl DivByZero else Inr (c div ucast vfr))"

definition max_vdisktime :: "u64 \<Rightarrow> u64 \<Rightarrow> u64" where
  "max_vdisktime m v = (if sint (v - m) > 0 then v else m)"

definition min_vdisktime' :: "u64 \<Rightarrow> u64 \<Rightarrow> u64" where
  "min_vdisktime' m v = (if sint (v - m) < 0 then v else m)"

definition update_min_vdisktime :: "(nat \<rightharpoonup> cfq_group) \<Rightarrow> cfq_rb_root \<Rightarrow> cfq_rb_root res" where
  "update_min_vdisktime gs st =
     (case leftmost st of
        None \<Rightarrow> Inr st
      | Some g \<Rightarrow> bindE (deref gs g) (\<lambda>c.
          Inr (st\<lparr>min_vdisktime := max_vdisktime (min_vdisktime st) (vdisktime c)\<rparr>)))"

text \<open>The classes are numbered: the truth value \<open>rt\<close> is \<open>RT_WORKLOAD\<close> or \<open>BE_WORKLOAD\<close>.\<close>

definition class_of :: "bool \<Rightarrow> wl_class_t" where
  "class_of rt = (if rt then RT_WORKLOAD else BE_WORKLOAD)"

definition cfq_group_get_avg_queues :: "bool \<Rightarrow> cfq_group \<Rightarrow> u32 \<times> cfq_group" where
  "cfq_group_get_avg_queues rt g =
     (let mult = cfq_hist_divisor - 1; round = cfq_hist_divisor div 2;
          busy = cfq_group_busy_queues_wl (class_of rt) g;
          min_q = min (busy_queues_avg g (class_of rt)) busy;
          max_q = max (busy_queues_avg g (class_of rt)) busy;
          avg = (mult * max_q + min_q + round) div cfq_hist_divisor in
      (avg, g\<lparr>busy_queues_avg := (busy_queues_avg g)(class_of rt := avg)\<rparr>))"

definition cfq_group_slice :: "'a cfq_data_scheme \<Rightarrow> cfq_group \<Rightarrow> u64" where
  "cfq_group_slice q g = drop_bit CFQ_SERVICE_SHIFT (cfq_target_latency q * ucast (vfraction g))"

text \<open>
  The slice of one queue when \<open>iq\<close> queues share the latency target.  The divisors are not 0
  in the branch that divides: \<open>expect_latency\<close> exceeds \<open>group_slice\<close>.
\<close>

definition latency_slice :: "u64 \<Rightarrow> u64 \<Rightarrow> u64 \<Rightarrow> u32 \<Rightarrow> u64 \<Rightarrow> u64" where
  "latency_slice sl sync_slice slice_idle iq group_slice =
     (let expect_latency = sync_slice * ucast iq in
      if expect_latency > group_slice then
        let base_low_slice = 2 * slice_idle;
            low_slice = (base_low_slice * sl) div sync_slice;
            low_slice = min sl low_slice;
            sl = (sl * group_slice) div expect_latency in
        max sl low_slice
      else sl)"

definition cfq_scaled_cfqq_slice :: "nat \<Rightarrow> 'a cfq_data_scheme \<Rightarrow> (u64 \<times> 'a cfq_data_scheme) res" where
  "cfq_scaled_cfqq_slice a q =
     bindE (deref (cfqqs q) a) (\<lambda>c.
     let sl = cfq_prio_to_slice q c in
     if cfq_latency q then
       bindE (deref_ptr (cfqgs q) (cfqg c)) (\<lambda>g.
       let (iq, g') = cfq_group_get_avg_queues (cfq_class_rt c) g in
       Inr (latency_slice sl (cfq_slice q True) (cfq_slice_idle q) iq (cfq_group_slice q g),
            q\<lparr>cfqgs := (cfqgs q)(the (cfqg c) \<mapsto> g')\<rparr>))
     else Inr (sl, q))"

definition cfq_set_prio_slice :: "u64 \<Rightarrow> nat \<Rightarrow> 'a cfq_data_scheme \<Rightarrow> 'a cfq_data_scheme res" where
  "cfq_set_prio_slice now a q =
     bindE (cfq_scaled_cfqq_slice a q) (\<lambda>(sl, q).
       upd_cfqq a (\<lambda>c. c\<lparr>slice_start := now, slice_end := now + sl, allocated_slice := sl\<rparr>) q)"

definition cfq_slice_used :: "u64 \<Rightarrow> cfq_queue \<Rightarrow> bool" where
  "cfq_slice_used now c =
     (if has Slice_new c then False else if now < slice_end c then False else True)"

definition cfq_slice_offset :: "'a cfq_data_scheme \<Rightarrow> cfq_queue \<Rightarrow> cfq_group \<Rightarrow> u64" where
  "cfq_slice_offset q c g =
     of_int (nr_cfqq g - 1) * (cfq_prio_slice q True 0 - cfq_prio_slice q (has Sync c) (ioprio c))"

definition cfq_slice_used_soon :: "u64 \<Rightarrow> 'a cfq_data_scheme \<Rightarrow> cfq_queue \<Rightarrow> bool" where
  "cfq_slice_used_soon now q c =
     (if has Slice_new c then True
      else if now + cfq_slice_idle q * of_int (dispatched c) > slice_end c then True else False)"

text \<open>
  The two halves of \<open>cfq_choose_req\<close>: where a request lies, and the choice by the mask.  The
  product for \<open>back_max\<close> is one of \<open>unsigned int\<close>, sectors and distances have 64 bits.
\<close>

definition back_reach :: "'a cfq_data_scheme \<Rightarrow> nat" where
  "back_reach q = cfq_back_max q * 2 mod 2 ^ 32"

definition head_distance :: "'a cfq_data_scheme \<Rightarrow> nat \<Rightarrow> nat \<Rightarrow> nat option" where
  "head_distance q lastp s =
     (let back_max = back_reach q in
      if s \<ge> lastp then Some (s - lastp)
      else if (s + back_max) mod 2 ^ 64 \<ge> lastp then Some ((lastp - s) * cfq_back_penalty q mod 2 ^ 64)
      else None)"

definition cfq_choose_req ::
  "'a cfq_data_scheme \<Rightarrow> nat option \<Rightarrow> nat option \<Rightarrow> nat \<Rightarrow> nat option res" where
  "cfq_choose_req q rq1 rq2 lastp =
     (case rq1 of
        None \<Rightarrow> Inr rq2
      | Some a \<Rightarrow>
          if rq1 = rq2 then Inr rq2
          else (case rq2 of
            None \<Rightarrow> Inr rq1
          | Some b \<Rightarrow>
              bindE (deref (rqs q) a) (\<lambda>r1.
              bindE (deref (rqs q) b) (\<lambda>r2.
              Inr (if rq_sync r1 \<noteq> rq_sync r2 then (if rq_sync r1 then rq1 else rq2)
                   else if (REQ_PRIO \<in> cmd_flags r1) \<noteq> (REQ_PRIO \<in> cmd_flags r2)
                   then (if REQ_PRIO \<in> cmd_flags r1 then rq1 else rq2)
                   else
                     let s1 = rq_pos r1; s2 = rq_pos r2 in
                     (case (head_distance q lastp s1, head_distance q lastp s2) of
                        (Some d1, Some d2) \<Rightarrow>
                          if d1 < d2 then rq1 else if d2 < d1 then rq2
                          else if s1 \<ge> s2 then rq1 else rq2
                      | (Some _, None) \<Rightarrow> rq1
                      | (None, Some _) \<Rightarrow> rq2
                      | (None, None) \<Rightarrow> if s1 \<le> s2 then rq1 else rq2))))))"

definition rb_first :: "nat tree \<Rightarrow> nat option" where
  "rb_first t = list_first (inorder t)"

definition rb_last :: "nat tree \<Rightarrow> nat option" where
  "rb_last t = list_first (rev (inorder t))"

definition cfq_find_next_rq :: "cfq_queue \<Rightarrow> nat \<Rightarrow> 'a cfq_data_scheme \<Rightarrow> nat option res" where
  "cfq_find_next_rq c lastp q =
     (if lastp \<notin> set_tree (sort_list c) then Inl BugOn
      else
        let rbnext = elv_rb_latter_request (sort_list c) lastp;
            rbprev = elv_rb_former_request (sort_list c) lastp;
            next = (case rbnext of
                      Some n \<Rightarrow> Some n
                    | None \<Rightarrow> (if rb_first (sort_list c) \<noteq> Some lastp then rb_first (sort_list c) else None)) in
        bindE (deref (rqs q) lastp) (\<lambda>r. cfq_choose_req q next rbprev (rq_pos r)))"

section \<open>The cheapest request\<close>

text \<open>
  The order the choice follows: synchronous requests first, then metadata requests, then
  requests within reach of the head by their distance, behind it with the penalty, then the
  requests too far behind, by sector.
\<close>

definition seek_cost :: "'a cfq_data_scheme \<Rightarrow> nat \<Rightarrow> nat \<Rightarrow> nat \<times> nat" where
  "seek_cost q lastp s = (case head_distance q lastp s of Some d \<Rightarrow> (0, d) | None \<Rightarrow> (1, s))"

definition req_rank :: "'a cfq_data_scheme \<Rightarrow> nat \<Rightarrow> request \<Rightarrow> nat \<times> nat \<times> nat \<times> nat" where
  "req_rank q lastp r =
     (of_bool (\<not> rq_sync r), of_bool (REQ_PRIO \<notin> cmd_flags r), seek_cost q lastp (rq_pos r))"

definition rank_of :: "'a cfq_data_scheme \<Rightarrow> nat \<Rightarrow> nat \<Rightarrow> nat \<times> nat \<times> nat \<times> nat" where
  "rank_of q lastp x = req_rank q lastp (the (rqs q x))"

lemma choose_req_rank:
  assumes "rqs q a = Some r1" "rqs q b = Some r2"
  shows "cfq_choose_req q (Some a) (Some b) lastp =
     Inr (Some (if req_rank q lastp r1 < req_rank q lastp r2 \<or>
                   req_rank q lastp r1 = req_rank q lastp r2 \<and> rq_pos r2 \<le> rq_pos r1 then a else b))"
  using assms
  by (cases "rq_sync r1"; cases "rq_sync r2"; cases "REQ_PRIO \<in> cmd_flags r1"; cases "REQ_PRIO \<in> cmd_flags r2")
     (auto simp: cfq_choose_req_def req_rank_def seek_cost_def Let_def split: option.splits)

lemma choose_req_one [simp]:
  "cfq_choose_req q None x lastp = Inr x" "cfq_choose_req q x None lastp = Inr x"
  "cfq_choose_req q (Some a) (Some a) lastp = Inr (Some a)"
  by (simp_all add: cfq_choose_req_def split: option.split)

lemma choose_req_min:
  assumes "rqs q a \<noteq> None" "rqs q b \<noteq> None"
  shows "\<exists>x \<in> {a, b}. cfq_choose_req q (Some a) (Some b) lastp = Inr (Some x) \<and>
     rank_of q lastp x \<le> rank_of q lastp a \<and> rank_of q lastp x \<le> rank_of q lastp b"
proof -
  from assms obtain r1 r2 where r: "rqs q a = Some r1" "rqs q b = Some r2" by blast
  show ?thesis
    unfolding choose_req_rank [OF r] rank_of_def r
    by (cases "req_rank q lastp r1 < req_rank q lastp r2") (auto simp: not_less r)
qed

lemma seek_cost_forward: "lastp \<le> s \<Longrightarrow> s \<le> s' \<Longrightarrow> seek_cost q lastp s \<le> seek_cost q lastp s'"
  by (auto simp: seek_cost_def head_distance_def Let_def)

text \<open>
  Behind the head nothing overflows: a reachable distance is below \<open>2 ^ 32\<close>, like the penalty.
\<close>

definition seeks_fit :: "'a cfq_data_scheme \<Rightarrow> nat \<Rightarrow> bool" where
  "seeks_fit q lastp \<longleftrightarrow> lastp + 2 ^ 32 \<le> 2 ^ 64 \<and> cfq_back_penalty q < 2 ^ 32"

lemma head_distance_behind:
  assumes "seeks_fit q lastp" "s < lastp"
  shows "head_distance q lastp s =
     (if lastp - s \<le> back_reach q then Some ((lastp - s) * cfq_back_penalty q) else None)"
proof -
  have r: "back_reach q < 2 ^ 32" by (simp add: back_reach_def)
  have m: "(s + back_reach q) mod 2 ^ 64 = s + back_reach q"
    by (rule mod_less) (use assms r in \<open>simp add: seeks_fit_def\<close>)
  have p: "(lastp - s) * cfq_back_penalty q mod 2 ^ 64 = (lastp - s) * cfq_back_penalty q" if "lastp - s \<le> back_reach q"
  proof (rule mod_less)
    have "(lastp - s) * cfq_back_penalty q < 2 ^ 32 * 2 ^ 32"
      by (rule mult_strict_mono) (use that r assms in \<open>auto simp: seeks_fit_def\<close>)
    then show "(lastp - s) * cfq_back_penalty q < 2 ^ 64" by simp
  qed
  have "lastp \<le> s + back_reach q \<longleftrightarrow> lastp - s \<le> back_reach q" by arith
  then show ?thesis using assms(2) m p by (simp only: head_distance_def Let_def not_le [symmetric] if_False m split: if_splits) simp
qed

lemma seek_cost_backward:
  assumes fit: "seeks_fit q lastp" and s: "s \<le> s'" "s' \<le> lastp"
  shows "seek_cost q lastp s' \<le> seek_cost q lastp s \<or>
    seek_cost q lastp s' = (1, s') \<and> seek_cost q lastp s = (1, s)"
proof (cases "s' = lastp")
  case True
  then show ?thesis by (auto simp: seek_cost_def head_distance_def less_eq_prod_def split: option.split)
next
  case False
  then have "s' < lastp" "s < lastp" using s by simp_all
  from head_distance_behind [OF fit this(1)] head_distance_behind [OF fit this(2)] s(1)
  show ?thesis by (auto simp: seek_cost_def less_eq_prod_def intro: mult_le_mono)
qed

lemma seek_cost_ahead: "lastp \<le> s \<Longrightarrow> seek_cost q lastp s < (1, s')"
  by (auto simp: seek_cost_def head_distance_def Let_def)

text \<open>The neighbours of an element of a sequence.\<close>

lemma next_in_split:
  assumes "distinct (xs @ x # ys)"
  shows "next_in (xs @ x # ys) x = (case ys of [] \<Rightarrow> None | y # _ \<Rightarrow> Some y)"
  using assms by (induction xs) (auto simp: next_in_def split: list.splits)

text \<open>
  The requests a queue may serve after \<open>l\<close>: all are live and of the kind of one another, so
  that only the sectors decide.
\<close>

definition one_kind :: "'a cfq_data_scheme \<Rightarrow> nat set \<Rightarrow> bool" where
  "one_kind q A \<longleftrightarrow> A \<subseteq> dom (rqs q) \<and>
     (\<forall>x \<in> A. \<forall>y \<in> A. rq_sync (the (rqs q x)) = rq_sync (the (rqs q y)) \<and>
        (REQ_PRIO \<in> cmd_flags (the (rqs q x)) \<longleftrightarrow> REQ_PRIO \<in> cmd_flags (the (rqs q y))))"

definition pos_of :: "'a request_queue_scheme \<Rightarrow> nat \<Rightarrow> nat" where
  "pos_of q x = (case rqs q x of None \<Rightarrow> 0 | Some r \<Rightarrow> rq_pos r)"

lemma rank_of_kind:
  assumes "one_kind q A" "x \<in> A" "y \<in> A"
  shows "rank_of q lastp x \<le> rank_of q lastp y \<longleftrightarrow>
     seek_cost q lastp (pos_of q x) \<le> seek_cost q lastp (pos_of q y)"
proof -
  from assms obtain r1 r2 where "rqs q x = Some r1" "rqs q y = Some r2" unfolding one_kind_def by blast
  moreover have "rq_sync r1 = rq_sync r2 \<and> (REQ_PRIO \<in> cmd_flags r1 \<longleftrightarrow> REQ_PRIO \<in> cmd_flags r2)"
    using assms calculation unfolding one_kind_def by fastforce
  ultimately show ?thesis by (simp add: rank_of_def req_rank_def pos_of_def less_eq_prod_def)
qed

text \<open>The sorted sequence of a queue around the request \<open>l\<close>, and the cost of the others seen from \<open>l\<close>.\<close>

definition seek_line :: "'a cfq_data_scheme \<Rightarrow> nat list \<Rightarrow> nat \<Rightarrow> nat list \<Rightarrow> bool" where
  "seek_line q xs l ys \<longleftrightarrow> sorted (map (pos_of q) (xs @ l # ys)) \<and> distinct (xs @ l # ys) \<and>
     one_kind q (set (xs @ ys)) \<and> rqs q l \<noteq> None \<and> seeks_fit q (pos_of q l)"

definition cost_from :: "'a cfq_data_scheme \<Rightarrow> nat \<Rightarrow> nat \<Rightarrow> nat \<times> nat" where
  "cost_from q l x = seek_cost q (pos_of q l) (pos_of q x)"

lemma cost_ahead:
  assumes "seek_line q xs l (y # zs)" "z \<in> set (y # zs)"
  shows "cost_from q l y \<le> cost_from q l z"
  using assms unfolding cost_from_def
  by (intro seek_cost_forward) (auto simp: seek_line_def sorted_append)

lemma cost_behind:
  assumes "seek_line q (us @ [p]) l ys" "z \<in> set (us @ [p])"
  shows "cost_from q l p \<le> cost_from q l z \<or>
     cost_from q l p = (1, pos_of q p) \<and> cost_from q l z = (1, pos_of q z)"
  using assms unfolding cost_from_def
  by (intro seek_cost_backward) (auto simp: seek_line_def sorted_append)

lemma cost_ahead_reachable:
  assumes "seek_line q xs l (y # zs)" shows "cost_from q l y < (1, n)"
  using assms unfolding cost_from_def by (intro seek_cost_ahead) (auto simp: seek_line_def sorted_append)

lemma rank_cost:
  "seek_line q xs l ys \<Longrightarrow> x \<in> set (xs @ ys) \<Longrightarrow> z \<in> set (xs @ ys) \<Longrightarrow>
   rank_of q (pos_of q l) x \<le> rank_of q (pos_of q l) z \<longleftrightarrow> cost_from q l x \<le> cost_from q l z"
  unfolding seek_line_def cost_from_def using rank_of_kind by blast

lemma seek_line_live: "seek_line q xs l ys \<Longrightarrow> x \<in> set (xs @ ys) \<Longrightarrow> rqs q x \<noteq> None"
  by (auto simp: seek_line_def one_kind_def)

lemma choose_cost_min:
  assumes line: "seek_line q xs l ys" and ab: "a \<in> set (xs @ ys)" "b \<in> set (xs @ ys)"
  shows "\<exists>x \<in> {a, b}. cfq_choose_req q (Some a) (Some b) (pos_of q l) = Inr (Some x) \<and>
     cost_from q l x \<le> cost_from q l a \<and> cost_from q l x \<le> cost_from q l b"
proof -
  from choose_req_min [OF seek_line_live [OF line ab(1)] seek_line_live [OF line ab(2)]] obtain x where
    x: "x \<in> {a, b}" "cfq_choose_req q (Some a) (Some b) (pos_of q l) = Inr (Some x)"
      "rank_of q (pos_of q l) x \<le> rank_of q (pos_of q l) a" "rank_of q (pos_of q l) x \<le> rank_of q (pos_of q l) b"
    by blast
  then have "x \<in> set (xs @ ys)" using ab by blast
  with x rank_cost [OF line] ab show ?thesis by blast
qed

lemma best_forward:
  assumes line: "seek_line q (us @ [p]) l (y # zs)"
  shows "\<exists>x \<in> {y, p}. cfq_choose_req q (Some y) (Some p) (pos_of q l) = Inr (Some x) \<and>
     (\<forall>z \<in> set ((us @ [p]) @ y # zs). cost_from q l x \<le> cost_from q l z)"
proof -
  from choose_cost_min [OF line, of y p] obtain x where
    x: "x \<in> {y, p}" "cfq_choose_req q (Some y) (Some p) (pos_of q l) = Inr (Some x)"
      "cost_from q l x \<le> cost_from q l y" "cost_from q l x \<le> cost_from q l p" by auto
  have "cost_from q l x \<le> cost_from q l z" if z: "z \<in> set ((us @ [p]) @ y # zs)" for z
  proof (cases "z \<in> set (y # zs)")
    case True
    with cost_ahead [OF line] x(3) show ?thesis by force
  next
    case False
    with z have "z \<in> set (us @ [p])" by simp
    from cost_behind [OF line this] cost_ahead_reachable [OF line, of "pos_of q z"] x(3,4)
    show ?thesis by force
  qed
  with x(1,2) show ?thesis by blast
qed

lemma best_wrapped:
  assumes line: "seek_line q (us @ [p]) l []"
  defines "f \<equiv> hd (us @ [p])"
  shows "\<exists>x \<in> {f, p}. cfq_choose_req q (Some f) (Some p) (pos_of q l) = Inr (Some x) \<and>
     (\<forall>z \<in> set (us @ [p]). cost_from q l x \<le> cost_from q l z)"
proof -
  have f: "f \<in> set (us @ [p])" unfolding f_def by (rule hd_in_set) simp
  with choose_cost_min [OF line, of f p] obtain x where
    x: "x \<in> {f, p}" "cfq_choose_req q (Some f) (Some p) (pos_of q l) = Inr (Some x)"
      "cost_from q l x \<le> cost_from q l f" "cost_from q l x \<le> cost_from q l p" by auto
  have "cost_from q l x \<le> cost_from q l z" if z: "z \<in> set (us @ [p])" for z
    using cost_behind [OF line z]
  proof
    assume w: "cost_from q l p = (1, pos_of q p) \<and> cost_from q l z = (1, pos_of q z)"
    have "pos_of q f \<le> pos_of q z"
      using line z unfolding f_def by (cases us) (auto simp: seek_line_def sorted_append)
    moreover have "cost_from q l f \<le> (1, pos_of q f)"
      by (auto simp: cost_from_def seek_cost_def less_eq_prod_def split: option.split)
    ultimately show ?thesis using w x(3) by (auto simp: less_eq_prod_def)
  qed (use x(4) in simp)
  with x(1,2) show ?thesis by blast
qed

lemma find_next_rq_split:
  assumes "inorder (sort_list c) = xs @ l # ys" "distinct (xs @ l # ys)" "rqs q l = Some r"
  shows "cfq_find_next_rq c l q =
     cfq_choose_req q (case ys of y # _ \<Rightarrow> Some y | [] \<Rightarrow> list_first xs) (list_first (rev xs)) (pos_of q l)"
proof -
  have "l \<in> set_tree (sort_list c)" using assms(1) set_inorder by fastforce
  moreover have "elv_rb_latter_request (sort_list c) l = list_first ys"
    using next_in_split [OF assms(2)] by (simp add: elv_rb_latter_request_def assms(1) list_first_def)
  moreover have "elv_rb_former_request (sort_list c) l = list_first (rev xs)"
  proof -
    have "distinct (rev ys @ l # rev xs)" using assms(2) by auto
    from next_in_split [OF this] show ?thesis
      by (simp add: elv_rb_former_request_def assms(1) list_first_def)
  qed
  moreover have "rb_first (sort_list c) = (case xs of [] \<Rightarrow> Some l | x # _ \<Rightarrow> Some x)"
    by (cases xs) (simp_all add: rb_first_def assms(1))
  ultimately show ?thesis
    using assms by (cases ys; cases xs) (auto simp: cfq_find_next_rq_def pos_of_def)
qed

lemma find_next_rq_best:
  assumes "inorder (sort_list c) = xs @ l # ys" "seek_line q xs l ys"
  shows "if xs @ ys = [] then cfq_find_next_rq c l q = Inr None
     else \<exists>x \<in> set (xs @ ys). cfq_find_next_rq c l q = Inr (Some x) \<and>
       (\<forall>z \<in> set (xs @ ys). cost_from q l x \<le> cost_from q l z)"
proof -
  from assms(2) obtain r where "distinct (xs @ l # ys)" "rqs q l = Some r" by (auto simp: seek_line_def)
  note split = find_next_rq_split [OF assms(1) this]
  show ?thesis
  proof (cases xs rule: rev_cases)
    case Nil
    with split cost_ahead [of q "[]" l] assms(2) show ?thesis by (cases ys) auto
  next
    case (snoc us p)
    show ?thesis
    proof (cases ys)
      case Nil
      have "list_first (us @ [p]) = Some (hd (us @ [p]))" by (simp add: list_first_eq_Some)
      moreover from best_wrapped [of q us p l] assms(2) snoc Nil obtain x where
        "x \<in> {hd (us @ [p]), p}" "\<forall>z \<in> set (us @ [p]). cost_from q l x \<le> cost_from q l z"
        "cfq_choose_req q (Some (hd (us @ [p]))) (Some p) (pos_of q l) = Inr (Some x)" by blast
      moreover have "hd (us @ [p]) \<in> set (us @ [p])" by (rule hd_in_set) simp
      ultimately show ?thesis using split snoc Nil by auto
    next
      case (Cons y zs)
      with best_forward [of q us p l y zs] assms(2) snoc obtain x where
        "x \<in> {y, p}" "\<forall>z \<in> set ((us @ [p]) @ y # zs). cost_from q l x \<le> cost_from q l z"
        "cfq_choose_req q (Some y) (Some p) (pos_of q l) = Inr (Some x)" by blast
      with split snoc Cons show ?thesis by auto
    qed
  qed
qed

section \<open>Slices\<close>

lemma int_of_prio_slice:
  assumes "prio \<le> 7" "uint (cfq_slice q sync) < 2 ^ 60"
  shows "uint (cfq_prio_slice q sync prio) =
     uint (cfq_slice q sync) + (uint (cfq_slice q sync) div 5) * (4 - int prio)"
proof -
  let ?b = "uint (cfq_slice q sync)"
  let ?v = "?b + (?b div 5) * (4 - int prio)"
  have b: "0 \<le> ?b" "?b < 1152921504606846976" using assms(2) by auto
  have "of_int ?v = cfq_prio_slice q sync prio"
  proof -
    have "of_int (?b div 5) = cfq_slice q sync div (5 :: u64)"
    proof (rule word_uint_eqI)
      have "uint (of_int (?b div 5) :: u64) = ?b div 5"
        using b by (intro uint_of_int_small) (simp_all add: pos_imp_zdiv_nonneg_iff)
      then show "uint (of_int (?b div 5) :: u64) = uint (cfq_slice q sync div 5)"
        by (simp only: uint_div_distrib) simp
    qed
    then show ?thesis by (simp add: cfq_prio_slice_def CFQ_SLICE_SCALE_def Let_def)
  qed
  moreover have "0 \<le> ?v" "?v < 2 ^ 64"
  proof -
    have d: "0 \<le> ?b div 5" "5 * (?b div 5) \<le> ?b" using b(1) by presburger+
    have "- 3 * (?b div 5) \<le> (?b div 5) * (4 - int prio)" "(?b div 5) * (4 - int prio) \<le> 4 * (?b div 5)"
      using mult_left_mono [of "- 3" "4 - int prio" "?b div 5"] mult_left_mono [of "4 - int prio" 4 "?b div 5"]
        assms(1) d(1) by simp_all
    with d b show "0 \<le> ?v" "?v < 2 ^ 64" by simp_all
  qed
  ultimately show ?thesis by (metis uint_of_int_small)
qed


section \<open>Properties\<close>

text \<open>An idle device with two groups and no queues, and three requests, for examples.\<close>

definition no_ttime :: cfq_ttime where
  "no_ttime = \<lparr>last_end_request = 0, ttime_total = 0, ttime_mean = 0, ttime_samples = 0\<rparr>"

definition CFQ_RB_ROOT :: "u64 \<Rightarrow> cfq_rb_root" where
  "CFQ_RB_ROOT now = \<lparr>rb = Leaf, leftmost = None, st_count = 0, min_vdisktime = 0,
     st_ttime = no_ttime\<lparr>last_end_request := now\<rparr>\<rparr>"

definition cfq_example :: cfq_data where
  "cfq_example = \<lparr>
     rqs = [1 \<mapsto> plain_request 100, 2 \<mapsto> plain_request 40, 3 \<mapsto> plain_request 300, 4 \<mapsto> plain_request 200],
     queue_head = [], last_merge = None, end_sector = 0, boundary_rq = None, nr_sorted = 0,
     in_flight = (\<lambda>_. 0), nr_pending = 0, rqhash = (\<lambda>_. []), nomerges = False, noxmerges = False,
     run_count = 0, cfqqs = Map.empty, cfqgs = Map.empty, cics = Map.empty, nonrot = False,
     grp_service_tree = CFQ_RB_ROOT 0, root_group = 0, serving_wl_class = BE_WORKLOAD,
     serving_wl_type = ASYNC_WORKLOAD, workload_expires = 0, serving_group = None,
     prio_trees = (\<lambda>_. Leaf), busy_queues = 0, busy_sync_queues = 0, rq_in_driver = 0,
     rq_in_flight = (\<lambda>_. 0), rq_queued = 0, hw_tag = -1, hw_tag_est_depth = 0, hw_tag_samples = 0,
     idle_timer = None, unplug_pending = False, active_queue = None, active_cic = None,
     last_position = 0, cfq_quantum = 8, cfq_back_penalty = 2, cfq_back_max = 16384,
     cfq_slice_async_rq = 2, cfq_latency = True, cfq_fifo_expire = (\<lambda>s. if s then 125000000 else 250000000),
     cfq_slice = (\<lambda>s. if s then 100000000 else 40000000), cfq_slice_idle = 8000000,
     cfq_group_idle = 8000000, cfq_target_latency = 300000000, oom_cfqq = 0, last_delayed_sync = 0,
     q_elevator = None, cfqd_freed = False\<rparr>"

definition cfqq_example :: cfq_queue where
  "cfqq_example = \<lparr>qref = 1, qflags = {Sync}, rb_linked = False, rb_key = 0, p_root = None,
     sort_list = Node (Node Leaf 2 Leaf) 1 (Node (Node Leaf 4 Leaf) 3 Leaf), next_rq = Some 1,
     queued = (\<lambda>s. if s then 4 else 0), allocated = (\<lambda>_. 0), qfifo = [1, 2, 3, 4], dispatch_start = 0,
     allocated_slice = 0, slice_dispatch = 0, slice_start = 0, slice_end = 0, slice_resid = 0,
     prio_pending = 0, dispatched = 0, ioprio = 4, org_ioprio = 4, ioprio_class = 2, org_ioprio_class = 2,
     qpid = 7, seek_history = 0, last_request_pos = 0, service_tree = None, new_cfqq = None, cfqg = None,
     nr_sectors = 0\<rparr>"

text \<open>C36: The next request is the best one: in a sorted queue of live requests of one kind (all
  synchronous or none, all metadata or none), \<open>cfq_find_next_rq\<close>, which looks at the two neighbours
  of the request served and at the first one, finds a request whose seek cost is minimal among all
  the others, wherever they lie; it finds none only if there is no other.  The cost is the distance
  ahead, and behind the head the distance times the penalty up to a reach of twice
  \<open>cfq_back_max\<close> modulo \<open>2 ^ 32\<close>; it does not overflow when the penalty has its 32 bits and the
  sector served is not within \<open>2 ^ 32\<close> of the end of the 64-bit range.\<close>

theorem find_next_rq_optimal:
  assumes "sorted (map (pos_of q) (inorder (sort_list c)))" "distinct (inorder (sort_list c))"
    and "one_kind q (set_tree (sort_list c))" "l \<in> set_tree (sort_list c)"
    and "pos_of q l + 2 ^ 32 \<le> 2 ^ 64" "cfq_back_penalty q < 2 ^ 32"
  shows "(if set_tree (sort_list c) = {l} then cfq_find_next_rq c l q = Inr None
     else \<exists>x \<in> set_tree (sort_list c) - {l}. cfq_find_next_rq c l q = Inr (Some x) \<and>
       (\<forall>z \<in> set_tree (sort_list c) - {l}. rank_of q (pos_of q l) x \<le> rank_of q (pos_of q l) z)) \<and>
     (\<forall>s. head_distance q (pos_of q l) s =
        (if pos_of q l \<le> s then Some (s - pos_of q l)
         else if pos_of q l - s \<le> back_reach q then Some ((pos_of q l - s) * cfq_back_penalty q)
         else None))"
proof -
  from assms(4) obtain xs ys where t: "inorder (sort_list c) = xs @ l # ys"
    by (metis set_inorder split_list)
  then have s: "set_tree (sort_list c) = insert l (set (xs @ ys))" by (metis set_inorder set_append list.simps(15) Un_insert_right)
  have others: "set_tree (sort_list c) - {l} = set (xs @ ys)" using s t assms(2) by auto
  have "one_kind q (set (xs @ ys))" using assms(3) unfolding s one_kind_def by blast
  moreover have "rqs q l \<noteq> None" using assms(3,4) unfolding one_kind_def by blast
  moreover have fit: "seeks_fit q (pos_of q l)" using assms(5,6) by (simp add: seeks_fit_def)
  ultimately have line: "seek_line q xs l ys"
    using assms(1,2) unfolding t seek_line_def by blast
  have dist: "head_distance q (pos_of q l) s =
      (if pos_of q l \<le> s then Some (s - pos_of q l)
       else if pos_of q l - s \<le> back_reach q then Some ((pos_of q l - s) * cfq_back_penalty q) else None)" for s
    using head_distance_behind [OF fit, of s] by (cases "pos_of q l \<le> s") (simp_all add: head_distance_def)
  have one: "set_tree (sort_list c) = {l} \<longleftrightarrow> xs @ ys = []"
  proof -
    have "l \<notin> set (xs @ ys)" using assms(2) unfolding t by simp
    then show ?thesis unfolding s by (cases "xs @ ys") auto
  qed
  show ?thesis
  proof (cases "xs @ ys = []")
    case True
    with find_next_rq_best [OF t line] dist show ?thesis unfolding one by simp
  next
    case False
    with find_next_rq_best [OF t line] obtain x where
      "x \<in> set (xs @ ys)" "cfq_find_next_rq c l q = Inr (Some x)"
      "\<forall>z \<in> set (xs @ ys). cost_from q l x \<le> cost_from q l z" by (auto split: if_splits)
    with rank_cost [OF line] False dist show ?thesis unfolding one others by auto
  qed
qed

theorem find_next_rq_optimal_witness:
  "\<exists>x. cfq_find_next_rq cfqq_example 1 cfq_example = Inr (Some x) \<and> x \<noteq> 1 \<and>
     rank_of cfq_example 100 x \<le> rank_of cfq_example 100 4"
proof -
  have "pos_of cfq_example 1 = 100" by (simp add: pos_of_def cfq_example_def plain_request_def)
  moreover have "set_tree (sort_list cfqq_example) = {1, 2, 3, 4}" by (auto simp: cfqq_example_def)
  moreover have "one_kind cfq_example {1, 2, 3, 4}"
    by (auto simp: one_kind_def cfq_example_def plain_request_def)
  moreover have "sorted (map (pos_of cfq_example) (inorder (sort_list cfqq_example)))"
    "distinct (inorder (sort_list cfqq_example))"
    by (simp_all add: pos_of_def cfqq_example_def cfq_example_def plain_request_def)
  moreover have "cfq_back_penalty cfq_example < 2 ^ 32" by (simp add: cfq_example_def)
  ultimately show ?thesis using find_next_rq_optimal [of cfq_example cfqq_example 1] by force
qed

text \<open>Slices by priority: for base slices below \<open>2 ^ 60\<close> nanoseconds the computation does not wrap;
  the slice is the base plus a fifth of it per level above the fourth, so it is positive, at most nine
  fifths of the base, and strictly longer for a better priority.\<close>

theorem prio_slice_ladder:
  assumes "uint (cfq_slice q sync) < 2 ^ 60" "5 \<le> uint (cfq_slice q sync)" "p < p'" "p' \<le> 7"
  shows "uint (cfq_prio_slice q sync p) =
       uint (cfq_slice q sync) + (uint (cfq_slice q sync) div 5) * (4 - int p) \<and>
     0 < cfq_prio_slice q sync p' \<and> cfq_prio_slice q sync p' < cfq_prio_slice q sync p"
proof -
  let ?b = "uint (cfq_slice q sync)"
  have e: "uint (cfq_prio_slice q sync p) = ?b + (?b div 5) * (4 - int p)"
    "uint (cfq_prio_slice q sync p') = ?b + (?b div 5) * (4 - int p')"
    using int_of_prio_slice [of _ q sync] assms by simp_all
  have d: "0 < ?b div 5" "5 * (?b div 5) \<le> ?b" using assms(2) by presburger+
  have "(?b div 5) * (4 - int p') < (?b div 5) * (4 - int p)" using d(1) assms(3) by simp
  moreover have "(?b div 5) * (- 3) \<le> (?b div 5) * (4 - int p')" using mult_left_mono [of "- 3" "4 - int p'" "?b div 5"] d(1) assms(4) by simp
  ultimately have "uint (cfq_prio_slice q sync p') < uint (cfq_prio_slice q sync p)"
    "0 < uint (cfq_prio_slice q sync p')" using e d by linarith+
  with e(1) show ?thesis by (simp add: word_less_alt)
qed

theorem prio_slice_ladder_witness:
  "uint (cfq_prio_slice cfq_example True 2) = 140000000 \<and>
   cfq_prio_slice cfq_example True 5 < cfq_prio_slice cfq_example True 2"
  using prio_slice_ladder [of cfq_example True 2 5] by (simp add: cfq_example_def)

text \<open>The lower bound of a scaled slice, and a slice against its share of the group's.\<close>

definition low_slice :: "u64 \<Rightarrow> u64 \<Rightarrow> u64 \<Rightarrow> nat" where
  "low_slice sl sync idle = min (unat sl) (2 * unat idle * unat sl div unat sync)"




text \<open>C39: The clock of the group tree survives its overflow: as long as two times are less than \<open>2 ^ 63\<close>
  apart, \<open>max_vdisktime\<close> and \<open>min_vdisktime\<close> choose, of the wrapped words, the later and the
  earlier one.\<close>

theorem vdisktime_wraps:
  assumes "\<bar>j - i\<bar> < 2 ^ 63"
  shows "max_vdisktime (of_int i) (of_int j) = of_int (max i j) \<and>
     min_vdisktime' (of_int i) (of_int j) = of_int (min i j)"
  using assms sint_of_int_small [of "j - i"]
  by (auto simp: max_vdisktime_def min_vdisktime'_def max_def min_def)

theorem vdisktime_wraps_witness:
  "max_vdisktime (of_int (2 ^ 64 - 1)) (of_int (2 ^ 64 + 5)) = of_int (2 ^ 64 + 5)"
  using vdisktime_wraps [of "2 ^ 64 + 5" "2 ^ 64 - 1"] by simp

end
