(* ===== verification/Cfq_Tree.thy ===== *)
theory Cfq_Tree
  imports Cfq_Slice MinQueue
begin

text \<open>
  The service trees of CFQ: red-black trees with a cached leftmost node.  The shared
  operations, their invariant, and the trees as priority queues.
\<close>

section \<open>Model\<close>

text \<open>
  The descent of the two insertions: left while the new key is smaller, with the flag that
  says whether the new node became the leftmost one.
\<close>

fun rb_walk :: "(nat \<Rightarrow> 'k::linorder) \<Rightarrow> 'k \<Rightarrow> nat \<Rightarrow> nat tree \<Rightarrow> nat tree \<times> bool" where
  "rb_walk key k x Leaf = (Node Leaf x Leaf, True)"
| "rb_walk key k x (Node l y r) =
     (if k < key y then (let p = rb_walk key k x l in (Node (fst p) y r, snd p))
      else (Node l y (fst (rb_walk key k x r)), False))"

definition cfq_rb_insert ::
  "kernel_lib \<Rightarrow> (nat \<Rightarrow> 'k::linorder) \<Rightarrow> 'k \<Rightarrow> nat \<Rightarrow> cfq_rb_root \<Rightarrow> cfq_rb_root" where
  "cfq_rb_insert L key k x st =
     (let p = rb_walk key k x (rb st) in
      st\<lparr>rb := rb_insert_color L (fst p), leftmost := (if snd p then Some x else leftmost st)\<rparr>)"

text \<open>Looking up the first node fills the cache; a queue tree is empty when its counter is 0.\<close>

definition cfq_rb_first_group :: "cfq_rb_root \<Rightarrow> nat option \<times> cfq_rb_root" where
  "cfq_rb_first_group st =
     (let st = (if leftmost st = None then st\<lparr>leftmost := rb_first (rb st)\<rparr> else st) in
      (leftmost st, st))"

definition cfq_rb_first :: "cfq_rb_root \<Rightarrow> nat option \<times> cfq_rb_root" where
  "cfq_rb_first st = (if st_count st = 0 then (None, st) else cfq_rb_first_group st)"

definition cfq_rb_erase :: "kernel_lib \<Rightarrow> nat \<Rightarrow> cfq_rb_root \<Rightarrow> cfq_rb_root" where
  "cfq_rb_erase L n st =
     (let st = (if leftmost st = Some n then st\<lparr>leftmost := None\<rparr> else st) in
      st\<lparr>rb := rb_erase L n (rb st), st_count := st_count st - 1\<rparr>)"

section \<open>The invariant\<close>

text \<open>Sorted by key, and the cache, when filled, holds the first node.\<close>

definition st_sorted :: "(nat \<Rightarrow> 'k::linorder) \<Rightarrow> cfq_rb_root \<Rightarrow> bool" where
  "st_sorted key st \<longleftrightarrow> sorted (map key (inorder (rb st))) \<and>
     (leftmost st = None \<or> leftmost st = rb_first (rb st))"

definition st_items :: "cfq_rb_root \<Rightarrow> nat multiset" where
  "st_items st = mset (inorder (rb st))"

text \<open>Where the descent puts a key in the sequence: behind everything that is not larger.\<close>

fun key_place :: "(nat \<Rightarrow> 'k::linorder) \<Rightarrow> 'k \<Rightarrow> nat \<Rightarrow> nat list \<Rightarrow> nat list" where
  "key_place key k x [] = [x]"
| "key_place key k x (y # l) = (if k < key y then x # y # l else y # key_place key k x l)"

lemma key_place_append1: "k < key y \<Longrightarrow> key_place key k x (l @ y # r) = key_place key k x l @ y # r"
  by (induction l) auto

lemma key_place_append2:
  "\<forall>z \<in> set l. \<not> k < key z \<Longrightarrow> \<not> k < key y \<Longrightarrow>
   key_place key k x (l @ y # r) = l @ y # key_place key k x r"
  by (induction l) auto

lemma mset_key_place [simp]: "mset (key_place key k x l) = add_mset x (mset l)"
  by (induction l) auto

lemma set_key_place [simp]: "set (key_place key k x l) = insert x (set l)"
  by (induction l) auto

lemma length_key_place [simp]: "length (key_place key k x l) = Suc (length l)"
  by (induction l) auto

lemma sorted_key_place:
  "sorted (map key l) \<Longrightarrow> key x = k \<Longrightarrow> sorted (map key (key_place key k x l))"
  by (induction l) (auto simp: not_less)

lemma key_place_cong:
  "(\<And>y. y \<in> set l \<Longrightarrow> key y = key' y) \<Longrightarrow> key_place key k x l = key_place key' k x l"
  by (induction l) auto

lemma list_first_key_place:
  "sorted (map key l) \<Longrightarrow>
   list_first (key_place key k x l) = (if \<forall>y \<in> set l. k < key y then Some x else list_first l)"
  by (cases l) auto

lemma rb_walk_inorder:
  "sorted (map key (inorder t)) \<Longrightarrow> inorder (fst (rb_walk key k x t)) = key_place key k x (inorder t)"
proof (induction t)
  case (Node l y r)
  then have s: "sorted (map key (inorder l))" "sorted (map key (inorder r))"
    "\<forall>z \<in> set (inorder l). key z \<le> key y" by (auto simp: sorted_append)
  show ?case
  proof (cases "k < key y")
    case True
    with Node.IH(1) [OF s(1)] show ?thesis by (simp add: key_place_append1 Let_def)
  next
    case False
    then have "\<forall>z \<in> set (inorder l). \<not> k < key z" using s(3) by fastforce
    with False Node.IH(2) [OF s(2)] show ?thesis by (simp add: key_place_append2)
  qed
qed simp

lemma rb_walk_flag:
  "sorted (map key (inorder t)) \<Longrightarrow> snd (rb_walk key k x t) \<longleftrightarrow> (\<forall>y \<in> set (inorder t). k < key y)"
proof (induction t)
  case (Node l y r)
  then have s: "sorted (map key (inorder l))" "\<forall>z \<in> set (inorder r). key y \<le> key z"
    by (auto simp: sorted_append)
  show ?case
  proof (cases "k < key y")
    case True
    with s(2) have "\<forall>z \<in> set (inorder r). k < key z" by fastforce
    with True Node.IH(1) [OF s(1)] show ?thesis by (auto simp: Let_def)
  qed auto
qed simp

section \<open>The operations keep it\<close>

lemma cfq_rb_insert_inorder:
  assumes "lib_ok L" "sorted (map key (inorder (rb st)))"
  shows "inorder (rb (cfq_rb_insert L key k x st)) = key_place key k x (inorder (rb st))"
  using rb_walk_inorder [OF assms(2), of k x] lib_okD(1) [OF assms(1)]
  by (simp add: cfq_rb_insert_def Let_def)

lemma cfq_rb_insert_sorted:
  assumes "lib_ok L" "st_sorted key st" "key x = k"
  shows "st_sorted key (cfq_rb_insert L key k x st)"
proof -
  have s: "sorted (map key (inorder (rb st)))" "leftmost st = None \<or> leftmost st = rb_first (rb st)"
    using assms(2) by (auto simp: st_sorted_def)
  note io = cfq_rb_insert_inorder [OF assms(1) s(1), of k x]
  have "leftmost (cfq_rb_insert L key k x st) = (if \<forall>y \<in> set (inorder (rb st)). k < key y then Some x else leftmost st)"
    using rb_walk_flag [OF s(1), of k x] by (simp add: cfq_rb_insert_def Let_def)
  with s io list_first_key_place [OF s(1), of k x] show ?thesis
    by (auto simp: st_sorted_def rb_first_def sorted_key_place assms(3))
qed

lemma cfq_rb_insert_items:
  "lib_ok L \<Longrightarrow> st_sorted key st \<Longrightarrow> st_items (cfq_rb_insert L key k x st) = add_mset x (st_items st)"
  by (simp add: cfq_rb_insert_inorder st_items_def st_sorted_def)

lemma cfq_rb_insert_fields [simp]:
  "st_count (cfq_rb_insert L key k x st) = st_count st"
  "min_vdisktime (cfq_rb_insert L key k x st) = min_vdisktime st"
  "st_ttime (cfq_rb_insert L key k x st) = st_ttime st"
  by (simp_all add: cfq_rb_insert_def Let_def)

lemma sorted_remove1: "sorted (map f l) \<Longrightarrow> sorted (map f (remove1 x l))"
  by (induction l) (auto dest: notin_set_remove1)

lemma cfq_rb_erase_inorder:
  "lib_ok L \<Longrightarrow> inorder (rb (cfq_rb_erase L n st)) = remove1 n (inorder (rb st))"
  by (simp add: cfq_rb_erase_def lib_okD(2))

lemma cfq_rb_erase_sorted:
  assumes "lib_ok L" "st_sorted key st"
  shows "st_sorted key (cfq_rb_erase L n st)"
proof -
  note io = cfq_rb_erase_inorder [OF assms(1), of n st]
  show ?thesis
  proof (cases "leftmost st = Some n \<or> leftmost st = None")
    case True
    with assms(2) io show ?thesis by (auto simp: st_sorted_def cfq_rb_erase_def sorted_remove1)
  next
    case False
    with assms(2) obtain f where "leftmost st = Some f" "list_first (inorder (rb st)) = Some f" "f \<noteq> n"
      by (auto simp: st_sorted_def rb_first_def)
    then have "list_first (remove1 n (inorder (rb st))) = Some f" "leftmost (cfq_rb_erase L n st) = Some f"
      by (cases "inorder (rb st)"; simp add: cfq_rb_erase_def)+
    with assms(2) io show ?thesis by (auto simp: st_sorted_def rb_first_def sorted_remove1)
  qed
qed

lemma cfq_rb_erase_items:
  "lib_ok L \<Longrightarrow> st_items (cfq_rb_erase L n st) = st_items st - {#n#}"
  by (simp add: st_items_def cfq_rb_erase_inorder)

lemma cfq_rb_erase_fields [simp]:
  "st_count (cfq_rb_erase L n st) = st_count st - 1"
  "min_vdisktime (cfq_rb_erase L n st) = min_vdisktime st"
  "st_ttime (cfq_rb_erase L n st) = st_ttime st"
  by (simp_all add: cfq_rb_erase_def)

lemma cfq_rb_first_group_ok:
  assumes "st_sorted key st"
  shows "fst (cfq_rb_first_group st) = rb_first (rb st)" "rb (snd (cfq_rb_first_group st)) = rb st"
    "st_sorted key (snd (cfq_rb_first_group st))"
    "st_count (snd (cfq_rb_first_group st)) = st_count st"
    "min_vdisktime (snd (cfq_rb_first_group st)) = min_vdisktime st"
  using assms by (auto simp: cfq_rb_first_group_def st_sorted_def rb_first_def)

lemma cfq_rb_first_group_ttime [simp]: "st_ttime (snd (cfq_rb_first_group st)) = st_ttime st"
  by (simp add: cfq_rb_first_group_def split: option.split)

lemma rb_first_min:
  "sorted (map key (inorder t)) \<Longrightarrow> rb_first t = Some x \<Longrightarrow>
   x \<in> set (inorder t) \<and> (\<forall>y \<in> set (inorder t). key x \<le> key y)"
  by (cases "inorder t") (auto simp: rb_first_def)

section \<open>A service tree is a priority queue\<close>

text \<open>Taking out the first group, as its removal from the tree does.\<close>

definition take_first :: "kernel_lib \<Rightarrow> cfq_rb_root \<Rightarrow> (nat \<times> cfq_rb_root) res" where
  "take_first L st =
     (case cfq_rb_first_group st of
        (None, _) \<Rightarrow> Inl NullDeref
      | (Some x, st) \<Rightarrow> Inr (x, cfq_rb_erase L x st))"

interpretation service_tree: min_queue "\<lambda>st. lib_ok L \<and> st_sorted key st" st_items key
  "\<lambda>x st. Inr (cfq_rb_insert L key (key x) x st)" "take_first L" "\<lambda>st. rb st \<noteq> Leaf"
  for L and key :: "nat \<Rightarrow> 'k::linorder"
proof (unfold_locales, goal_cases)
  case (1 st x)
  then show ?case by (simp add: cfq_rb_insert_sorted cfq_rb_insert_items)
next
  case (2 st)
  then have ok: "lib_ok L" "st_sorted key st" by auto
  note f = cfq_rb_first_group_ok [OF ok(2)]
  from 2(2) obtain x where x: "rb_first (rb st) = Some x" by (cases "inorder (rb st)") (auto simp: st_items_def rb_first_def)
  let ?st = "snd (cfq_rb_first_group st)"
  have t: "take_first L st = Inr (x, cfq_rb_erase L x ?st)"
    using f(1) x by (cases "cfq_rb_first_group st") (simp add: take_first_def)
  have m: "x \<in> set (inorder (rb st))" "\<forall>y \<in> set (inorder (rb st)). key x \<le> key y"
    using rb_first_min [of key "rb st" x] ok(2) x by (auto simp: st_sorted_def)
  have "st_items st = add_mset x (st_items (cfq_rb_erase L x ?st))"
    using m(1) f(2) unfolding cfq_rb_erase_items [OF ok(1)] by (simp add: st_items_def)
  moreover have "st_sorted key (cfq_rb_erase L x ?st)" by (rule cfq_rb_erase_sorted [OF ok(1) f(3)])
  moreover have "\<forall>y \<in># st_items st. key x \<le> key y" using m(2) by (simp add: st_items_def)
  ultimately show ?case using t ok(1) by blast
next
  case (3 st)
  then show ?case by (cases "rb st") (auto simp: st_items_def)
qed

end
