(* ===== verification/Cfq_Group.thy ===== *)
theory Cfq_Group
  imports Cfq_Tree
begin

text \<open>
  The groups of CFQ: the tree of the active groups, sorted by virtual disk time, and the
  weights that activation and deactivation carry up the hierarchy of groups.
\<close>

section \<open>Model\<close>

definition cfqg_key :: "cfq_rb_root \<Rightarrow> cfq_group \<Rightarrow> int" where
  "cfqg_key st g = sint (vdisktime g - min_vdisktime st)"

text \<open>The key of a group that is on the tree.\<close>

definition group_key :: "(nat \<rightharpoonup> cfq_group) \<Rightarrow> cfq_rb_root \<Rightarrow> nat \<Rightarrow> int" where
  "group_key gs st x = (case gs x of None \<Rightarrow> 0 | Some g \<Rightarrow> cfqg_key st g)"

definition cfq_group_service_tree_add' ::
  "kernel_lib \<Rightarrow> nat \<Rightarrow> 'a cfq_data_scheme \<Rightarrow> 'a cfq_data_scheme res" where
  "cfq_group_service_tree_add' L a q =
     bindE (deref (cfqgs q) a) (\<lambda>g.
     let st = grp_service_tree q in
     Inr (q\<lparr>grp_service_tree := cfq_rb_insert L (group_key (cfqgs q) st) (cfqg_key st g) a st,
            cfqgs := (cfqgs q)(a \<mapsto> g\<lparr>g_linked := True\<rparr>)\<rparr>))"

definition cfq_update_group_weight :: "cfq_group \<Rightarrow> cfq_group" where
  "cfq_update_group_weight g =
     (if new_weight g \<noteq> 0 then g\<lparr>weight := new_weight g, new_weight := 0\<rparr> else g)"

definition cfq_update_group_leaf_weight :: "cfq_group \<Rightarrow> cfq_group res" where
  "cfq_update_group_leaf_weight g =
     (if g_linked g then Inl BugOn
      else Inr (if new_leaf_weight g \<noteq> 0
                then g\<lparr>leaf_weight := new_leaf_weight g, new_leaf_weight := 0\<rparr> else g))"

text \<open>
  The loop of \<open>cfq_group_service_tree_add\<close> up the parents, \<open>None\<close> being a chain of parents
  that does not end.  While \<open>propagate\<close> holds a group is counted in its parent; the fraction
  is multiplied up to the root.
\<close>

definition count_child :: "cfq_group \<Rightarrow> cfq_group \<Rightarrow> cfq_group" where
  "count_child child parent =
     parent\<lparr>nr_active := nr_active parent + 1, children_weight := children_weight parent + weight child\<rparr>"

partial_function (option) activate_up ::
  "bool \<Rightarrow> u32 \<Rightarrow> nat \<Rightarrow> (nat \<rightharpoonup> cfq_group) \<Rightarrow> (u32 \<times> (nat \<rightharpoonup> cfq_group)) res option" where
  "activate_up propagate vfr pos gs =
     (case gs pos of
        None \<Rightarrow> Some (Inl UseAfterFree)
      | Some p \<Rightarrow>
          (case gparent p of
             None \<Rightarrow> Some (Inr (vfr, gs))
           | Some up \<Rightarrow>
               (case gs up of
                  None \<Rightarrow> Some (Inl UseAfterFree)
                | Some _ \<Rightarrow>
                    let gs1 = (if propagate then gs(pos \<mapsto> cfq_update_group_weight p) else gs);
                        p1 = the (gs1 pos); u = the (gs1 up);
                        gs2 = (if propagate then gs1(up \<mapsto> count_child p1 u) else gs1);
                        w = weight (the (gs2 pos)); cw = children_weight (the (gs2 up)) in
                    if cw = 0 then Some (Inl DivByZero)
                    else activate_up (propagate \<and> nr_active u = 0) (vfr * w div cw) up gs2)))"

definition cfq_group_service_tree_add ::
  "kernel_lib \<Rightarrow> nat \<Rightarrow> 'a cfq_data_scheme \<Rightarrow> 'a cfq_data_scheme res option" where
  "cfq_group_service_tree_add L a q =
     (case bindE (deref (cfqgs q) a) (\<lambda>g.
           bindE (cfq_update_group_leaf_weight g) (\<lambda>g.
             cfq_group_service_tree_add' L a (q\<lparr>cfqgs := (cfqgs q)(a \<mapsto> g)\<rparr>))) of
        Inl e \<Rightarrow> Some (Inl e)
      | Inr q \<Rightarrow>
          let g = the (cfqgs q a);
              g1 = g\<lparr>nr_active := nr_active g + 1, children_weight := children_weight g + leaf_weight g\<rparr> in
          if children_weight g1 = 0 then Some (Inl DivByZero)
          else Option.bind
            (activate_up (nr_active g = 0)
               (push_bit CFQ_SERVICE_SHIFT 1 * leaf_weight g1 div children_weight g1) a
               ((cfqgs q)(a \<mapsto> g1)))
            (\<lambda>r. Some (bindE r (\<lambda>(vfr, gs).
               Inr (q\<lparr>cfqgs := gs(a \<mapsto> (the (gs a))\<lparr>vfraction := max vfr 1\<rparr>)\<rparr>)))))"

definition cfq_group_notify_queue_add ::
  "kernel_lib \<Rightarrow> nat \<Rightarrow> 'a cfq_data_scheme \<Rightarrow> 'a cfq_data_scheme res option" where
  "cfq_group_notify_queue_add L a q =
     (case deref (cfqgs q) a of
        Inl e \<Rightarrow> Some (Inl e)
      | Inr g \<Rightarrow>
          if g_linked g then Some (Inr (q\<lparr>cfqgs := (cfqgs q)(a \<mapsto> g\<lparr>nr_cfqq := nr_cfqq g + 1\<rparr>)\<rparr>))
          else
            (case rb_last (rb (grp_service_tree q)) of
               None \<Rightarrow> cfq_group_service_tree_add L a
                 (q\<lparr>cfqgs := (cfqgs q)(a \<mapsto> g\<lparr>nr_cfqq := nr_cfqq g + 1,
                      vdisktime := min_vdisktime (grp_service_tree q)\<rparr>)\<rparr>)
             | Some n \<Rightarrow>
                 (case deref (cfqgs q) n of
                    Inl e \<Rightarrow> Some (Inl e)
                  | Inr l \<Rightarrow> cfq_group_service_tree_add L a
                      (q\<lparr>cfqgs := (cfqgs q)(a \<mapsto> g\<lparr>nr_cfqq := nr_cfqq g + 1,
                           vdisktime := vdisktime l + CFQ_IDLE_DELAY\<rparr>)\<rparr>))))"

text \<open>The loop of \<open>cfq_group_service_tree_del\<close>, entered while \<open>pos\<close> has no active member left.\<close>

definition uncount_child :: "cfq_group \<Rightarrow> cfq_group \<Rightarrow> cfq_group" where
  "uncount_child child parent =
     parent\<lparr>nr_active := nr_active parent - 1, children_weight := children_weight parent - weight child\<rparr>"

partial_function (option) deactivate_up ::
  "nat \<Rightarrow> (nat \<rightharpoonup> cfq_group) \<Rightarrow> (nat \<rightharpoonup> cfq_group) res option" where
  "deactivate_up pos gs =
     (case gs pos of
        None \<Rightarrow> Some (Inl UseAfterFree)
      | Some p \<Rightarrow>
          let gs1 = gs(pos \<mapsto> p\<lparr>vfraction := 0\<rparr>) in
          (case gparent p of
             None \<Rightarrow> Some (Inr gs1)
           | Some up \<Rightarrow>
               (case gs1 up of
                  None \<Rightarrow> Some (Inl UseAfterFree)
                | Some u \<Rightarrow>
                    let gs2 = gs1(up \<mapsto> uncount_child (the (gs1 pos)) u) in
                    if nr_active u - 1 = 0 then deactivate_up up gs2 else Some (Inr gs2))))"

definition cfq_group_service_tree_del ::
  "kernel_lib \<Rightarrow> nat \<Rightarrow> 'a cfq_data_scheme \<Rightarrow> 'a cfq_data_scheme res option" where
  "cfq_group_service_tree_del L a q =
     (case deref (cfqgs q) a of
        Inl e \<Rightarrow> Some (Inl e)
      | Inr g \<Rightarrow>
          let g1 = g\<lparr>nr_active := nr_active g - 1, children_weight := children_weight g - leaf_weight g\<rparr>;
              gs = (cfqgs q)(a \<mapsto> g1) in
          Option.bind (if nr_active g1 = 0 then deactivate_up a gs else Some (Inr gs))
            (\<lambda>r. Some (bindE r (\<lambda>gs.
               let g = the (gs a) in
               if g_linked g
               then Inr (q\<lparr>grp_service_tree := cfq_rb_erase L a (grp_service_tree q),
                           cfqgs := gs(a \<mapsto> g\<lparr>g_linked := False\<rparr>)\<rparr>)
               else Inr (q\<lparr>cfqgs := gs\<rparr>)))))"

definition cfq_group_notify_queue_del ::
  "kernel_lib \<Rightarrow> nat \<Rightarrow> 'a cfq_data_scheme \<Rightarrow> 'a cfq_data_scheme res option" where
  "cfq_group_notify_queue_del L a q =
     (case deref (cfqgs q) a of
        Inl e \<Rightarrow> Some (Inl e)
      | Inr g \<Rightarrow>
          if nr_cfqq g < 1 then Some (Inl BugOn)
          else
            let q = q\<lparr>cfqgs := (cfqgs q)(a \<mapsto> g\<lparr>nr_cfqq := nr_cfqq g - 1\<rparr>)\<rparr> in
            if nr_cfqq g - 1 \<noteq> 0 then Some (Inr q)
            else Option.bind (cfq_group_service_tree_del L a q)
              (\<lambda>r. Some (bindE r (upd_cfqg a (\<lambda>g. g\<lparr>saved_wl_slice := 0\<rparr>)))))"

text \<open>The charged time and, apart from it, the time not accounted to anybody.\<close>

definition cfq_cfqq_slice_usage :: "kernel_lib \<Rightarrow> u64 \<Rightarrow> cfq_queue \<Rightarrow> u64 \<times> u64" where
  "cfq_cfqq_slice_usage L now c =
     (if slice_start c = 0 \<or> slice_start c = now
      then (max (now - dispatch_start c) (jiffy_ns L), 0)
      else
        let slice_used = now - slice_start c;
            (slice_used, unaccounted) =
              (if slice_used > allocated_slice c
               then (allocated_slice c, slice_used - allocated_slice c) else (slice_used, 0)) in
        (slice_used,
         if slice_start c > dispatch_start c then unaccounted + (slice_start c - dispatch_start c)
         else unaccounted))"

text \<open>The number of synchronous queues of the group, as the code computes it in an \<open>int\<close>.\<close>

definition nr_sync_queues :: "cfq_group \<Rightarrow> int" where
  "nr_sync_queues g =
     sint (of_int (nr_cfqq g) - cfqg_busy_async_queues g - st_count (service_tree_idle g) :: u32)"

definition served_charge :: "kernel_lib \<Rightarrow> u64 \<Rightarrow> 'a cfq_data_scheme \<Rightarrow> cfq_queue \<Rightarrow> cfq_group \<Rightarrow> u64" where
  "served_charge L now q c g =
     (if iops_mode q then slice_dispatch c
      else if \<not> has Sync c \<and> nr_sync_queues g = 0 then allocated_slice c
      else fst (cfq_cfqq_slice_usage L now c))"

definition save_workload :: "u64 \<Rightarrow> 'a cfq_data_scheme \<Rightarrow> cfq_group \<Rightarrow> cfq_group" where
  "save_workload now q g =
     (if workload_expires q > now
      then g\<lparr>saved_wl_slice := workload_expires q - now, saved_wl_type := serving_wl_type q,
             saved_wl_class := serving_wl_class q\<rparr>
      else g\<lparr>saved_wl_slice := 0\<rparr>)"

definition cfq_group_served ::
  "kernel_lib \<Rightarrow> u64 \<Rightarrow> nat \<Rightarrow> cfq_queue \<Rightarrow> 'a cfq_data_scheme \<Rightarrow> 'a cfq_data_scheme res option" where
  "cfq_group_served L now a c q =
     (case deref (cfqgs q) a of
        Inl e \<Rightarrow> Some (Inl e)
      | Inr g \<Rightarrow>
          if nr_sync_queues g < 0 then Some (Inl BugOn)
          else
            let charge = served_charge L now q c g; vfr = vfraction g in
            Option.bind (cfq_group_service_tree_del L a q) (\<lambda>r.
              case bindE r (\<lambda>q. bindE (cfqg_scale_charge charge vfr) (\<lambda>v.
                     upd_cfqg a (\<lambda>g. g\<lparr>vdisktime := vdisktime g + v\<rparr>) q)) of
                Inl e \<Rightarrow> Some (Inl e)
              | Inr q \<Rightarrow>
                  Option.bind (cfq_group_service_tree_add L a q) (\<lambda>r.
                    Some (bindE r (\<lambda>q. upd_cfqg a (save_workload now q) q)))))"

text \<open>The next group to be served; finding it moves the clock of the tree up.\<close>

definition cfq_get_next_cfqg :: "'a cfq_data_scheme \<Rightarrow> (nat option \<times> 'a cfq_data_scheme) res" where
  "cfq_get_next_cfqg q =
     (let st = grp_service_tree q in
      if rb st = Leaf then Inr (None, q)
      else
        let (first, st) = cfq_rb_first_group st in
        bindE (update_min_vdisktime (cfqgs q) st) (\<lambda>st. Inr (first, q\<lparr>grp_service_tree := st\<rparr>)))"

end
