(* ===== verification/Cfq_Weights.thy ===== *)
theory Cfq_Weights
  imports Cfq_Group
begin

text \<open>
  The books of the group hierarchy: what \<open>nr_active\<close> and \<open>children_weight\<close> count, and that
  the two loops up the parents end and keep them.
\<close>

section \<open>The forest of groups\<close>

text \<open>The parents of a group, up to the root of its tree.\<close>

inductive climbs :: "(nat \<rightharpoonup> cfq_group) \<Rightarrow> nat \<Rightarrow> nat list \<Rightarrow> bool" for gs where
  root: "gs x = Some g \<Longrightarrow> gparent g = None \<Longrightarrow> climbs gs x []"
| up: "gs x = Some g \<Longrightarrow> gparent g = Some u \<Longrightarrow> climbs gs u us \<Longrightarrow> climbs gs x (u # us)"

inductive_simps climbs_Nil [simp]: "climbs gs x []"
inductive_simps climbs_Cons [simp]: "climbs gs x (u # us)"

lemma climbs_unique: "climbs gs x us \<Longrightarrow> climbs gs x vs \<Longrightarrow> us = vs"
proof (induction us arbitrary: x vs)
  case Nil
  then show ?case by (cases vs) auto
next
  case (Cons u us)
  then show ?case by (cases vs) auto
qed

lemma climbs_suffix: "climbs gs x (ys @ u # us) \<Longrightarrow> climbs gs u us"
  by (induction ys arbitrary: x) auto

lemma climbs_not_self: "climbs gs x us \<Longrightarrow> x \<notin> set us"
proof
  assume c: "climbs gs x us" "x \<in> set us"
  then obtain ys zs where s: "us = ys @ x # zs" by (meson split_list)
  with c(1) have "climbs gs x zs" using climbs_suffix by blast
  with c(1) have "us = zs" by (rule climbs_unique)
  with s show False by simp
qed

text \<open>The fields neither loop writes.\<close>

definition group_core :: "cfq_group \<Rightarrow> cfq_group" where
  "group_core g = g\<lparr>nr_active := 0, children_weight := 0, vfraction := 0, weight := 0, new_weight := 0\<rparr>"

definition same_groups :: "(nat \<rightharpoonup> cfq_group) \<Rightarrow> (nat \<rightharpoonup> cfq_group) \<Rightarrow> bool" where
  "same_groups gs gs' \<longleftrightarrow> (\<forall>x. map_option group_core (gs x) = map_option group_core (gs' x))"

lemma group_core_simps [simp]:
  "gparent (group_core g) = gparent g" "g_linked (group_core g) = g_linked g"
  "vdisktime (group_core g) = vdisktime g" "leaf_weight (group_core g) = leaf_weight g"
  "new_leaf_weight (group_core g) = new_leaf_weight g" "nr_cfqq (group_core g) = nr_cfqq g"
  "service_trees (group_core g) = service_trees g" "service_tree_idle (group_core g) = service_tree_idle g"
  "g_ttime (group_core g) = g_ttime g"
  by (simp_all add: group_core_def)

lemma group_core_upd [simp]:
  "group_core (g\<lparr>nr_active := n\<rparr>) = group_core g" "group_core (g\<lparr>children_weight := w\<rparr>) = group_core g"
  "group_core (g\<lparr>vfraction := w\<rparr>) = group_core g" "group_core (g\<lparr>weight := w\<rparr>) = group_core g"
  "group_core (g\<lparr>new_weight := w\<rparr>) = group_core g"
  "group_core (cfq_update_group_weight g) = group_core g"
  "group_core (count_child c g) = group_core g" "group_core (uncount_child c g) = group_core g"
  by (simp_all add: group_core_def cfq_update_group_weight_def count_child_def uncount_child_def)

lemma same_groups_refl [simp]: "same_groups gs gs"
  by (simp add: same_groups_def)

lemma same_groups_trans: "same_groups a b \<Longrightarrow> same_groups b c \<Longrightarrow> same_groups a c"
  by (simp add: same_groups_def)

lemma same_groups_sym: "same_groups a b \<Longrightarrow> same_groups b a"
  by (simp add: same_groups_def)

lemma same_groups_upd:
  "gs x = Some g \<Longrightarrow> group_core g' = group_core g \<Longrightarrow> same_groups gs (gs(x \<mapsto> g'))"
  by (simp add: same_groups_def)

lemma same_groupsD:
  "same_groups gs gs' \<Longrightarrow> gs x = Some g \<Longrightarrow> \<exists>g'. gs' x = Some g' \<and> group_core g' = group_core g"
  unfolding same_groups_def by (metis map_option_eq_Some)

lemma same_groups_dom: "same_groups gs gs' \<Longrightarrow> dom gs' = dom gs"
  using same_groupsD same_groups_sym by (fastforce simp: dom_def)

lemma same_groups_field:
  assumes "same_groups gs gs'" "\<And>g. f (group_core g) = f g"
  shows "map_option f (gs x) = map_option f (gs' x)"
proof -
  have "map_option f (gs x) = map_option f (map_option group_core (gs x))"
    by (cases "gs x") (simp_all add: assms(2))
  also have "\<dots> = map_option f (map_option group_core (gs' x))" using assms(1) by (simp add: same_groups_def)
  also have "\<dots> = map_option f (gs' x)" by (cases "gs' x") (simp_all add: assms(2))
  finally show ?thesis .
qed

lemma climbs_same: "climbs gs x us \<Longrightarrow> same_groups gs gs' \<Longrightarrow> climbs gs' x us"
proof (induction rule: climbs.induct)
  case (root x g)
  with same_groupsD [OF root(3) root(1)] show ?case by (metis climbs.root group_core_simps(1))
next
  case (up x g u us)
  with same_groupsD [OF up(5) up(1)] show ?case by (metis climbs.up group_core_simps(1))
qed

definition forest :: "(nat \<rightharpoonup> cfq_group) \<Rightarrow> bool" where
  "forest gs \<longleftrightarrow> finite (dom gs) \<and> (\<forall>x \<in> dom gs. \<exists>us. climbs gs x us)"

lemma climbs_upd:
  "climbs gs x us \<Longrightarrow> gs a = Some g \<Longrightarrow> gparent g' = gparent g \<Longrightarrow> climbs (gs(a \<mapsto> g')) x us"
  by (induction rule: climbs.induct) auto

lemma forest_upd:
  assumes "forest gs" "gs a = Some g" "gparent g' = gparent g"
  shows "forest (gs(a \<mapsto> g'))"
proof -
  have "\<exists>us. climbs (gs(a \<mapsto> g')) x us" if "x \<in> insert a (dom gs)" for x
  proof -
    have "x \<in> dom gs" using that assms(2) by auto
    with assms(1) obtain us where "climbs gs x us" by (auto simp: forest_def)
    from climbs_upd [where gs = gs, OF this assms(2,3)] show ?thesis by blast
  qed
  then show ?thesis using assms(1) unfolding forest_def by simp
qed

lemma forest_same: "forest gs \<Longrightarrow> same_groups gs gs' \<Longrightarrow> forest gs'"
  unfolding forest_def using climbs_same same_groups_dom by metis

section \<open>The books\<close>

text \<open>
  \<open>A\<close> is the set of groups counted in their parents, \<open>B\<close> that of the groups counted in
  themselves: between two operations those that are active, and those on the tree.
\<close>

definition kids :: "(nat \<rightharpoonup> cfq_group) \<Rightarrow> nat set \<Rightarrow> nat \<Rightarrow> nat set" where
  "kids gs A x = {c \<in> A. \<exists>g. gs c = Some g \<and> gparent g = Some x}"

definition weight_at :: "(nat \<rightharpoonup> cfq_group) \<Rightarrow> nat \<Rightarrow> u32" where
  "weight_at gs c = weight (the (gs c))"

definition books :: "nat set \<Rightarrow> nat set \<Rightarrow> (nat \<rightharpoonup> cfq_group) \<Rightarrow> bool" where
  "books B A gs \<longleftrightarrow> finite A \<and> A \<subseteq> dom gs \<and>
     (\<forall>x g. gs x = Some g \<longrightarrow>
        nr_active g = of_bool (x \<in> B) + int (card (kids gs A x)) \<and>
        children_weight g = (if x \<in> B then leaf_weight g else 0) + (\<Sum>c \<in> kids gs A x. weight_at gs c))"

definition actives :: "(nat \<rightharpoonup> cfq_group) \<Rightarrow> nat set" where
  "actives gs = {x. \<exists>g. gs x = Some g \<and> nr_active g \<noteq> 0}"

text \<open>The books of a state between operations: exactly the active groups are counted.\<close>

definition linked :: "(nat \<rightharpoonup> cfq_group) \<Rightarrow> nat set" where
  "linked gs = {x. \<exists>g. gs x = Some g \<and> g_linked g}"

definition balanced :: "(nat \<rightharpoonup> cfq_group) \<Rightarrow> bool" where
  "balanced gs \<longleftrightarrow> books (linked gs) (actives gs) gs"

lemma linked_same:
  assumes "same_groups gs gs'"
  shows "linked gs = linked gs'"
proof -
  have "map_option g_linked (gs x) = map_option g_linked (gs' x)" for x
    using assms by (rule same_groups_field) simp
  then have "(\<exists>g. gs x = Some g \<and> g_linked g) = (\<exists>g. gs' x = Some g \<and> g_linked g)" for x
    by (metis map_option_eq_Some)
  then show ?thesis by (simp add: linked_def)
qed

lemma finite_kids: "finite A \<Longrightarrow> finite (kids gs A x)"
  by (simp add: kids_def)

lemma kids_insert:
  "gs c = Some g \<Longrightarrow> kids gs (insert c A) x = (if gparent g = Some x then insert c (kids gs A x) else kids gs A x)"
  by (auto simp: kids_def)

lemma kids_minus:
  "kids gs (A - {c}) x = kids gs A x - {c}"
  by (auto simp: kids_def)

lemma kids_upd:
  "gs y = Some g \<Longrightarrow> gparent g' = gparent g \<Longrightarrow> kids (gs(y \<mapsto> g')) A x = kids gs A x"
  by (auto simp: kids_def)

lemma sum_weight_upd:
  "gs y = Some g \<Longrightarrow> (y \<in> A \<Longrightarrow> weight g' = weight g) \<Longrightarrow>
   (\<Sum>c \<in> kids gs A x. weight_at (gs(y \<mapsto> g')) c) = (\<Sum>c \<in> kids gs A x. weight_at gs c)"
  by (rule sum.cong) (auto simp: kids_def weight_at_def)

text \<open>A change of one group that the books do not see.\<close>

lemma books_upd:
  assumes "books B A gs" "gs y = Some g" "gparent g' = gparent g" "y \<in> A \<Longrightarrow> weight g' = weight g"
    and "nr_active g' - of_bool (y \<in> B') = nr_active g - of_bool (y \<in> B)"
    and "children_weight g' - (if y \<in> B' then leaf_weight g' else 0) =
         children_weight g - (if y \<in> B then leaf_weight g else 0)"
    and "\<And>x. x \<noteq> y \<Longrightarrow> x \<in> B' \<longleftrightarrow> x \<in> B"
  shows "books B' A (gs(y \<mapsto> g'))"
  using assms sum_weight_upd [of gs y g A g', OF assms(2)]
  by (auto simp: books_def kids_upd [of gs y g g', OF assms(2,3)] algebra_simps)

lemma books_count:
  assumes b: "books B A gs" and p: "gs pos = Some p" "gparent p = Some up" and pos: "pos \<notin> A" "up \<noteq> pos"
    and u: "gs up = Some u"
  shows "books B (insert pos A) (gs(up \<mapsto> count_child p u))"
proof -
  let ?u = "count_child p u"
  have f: "finite A" "A \<subseteq> dom gs" using b by (auto simp: books_def)
  have k: "kids (gs(up \<mapsto> ?u)) (insert pos A) x = (if up = x then insert pos (kids gs A x) else kids gs A x)" for x
    using kids_upd [of gs up u ?u, OF u] kids_insert [of gs pos p A x, OF p(1)] p(2) by (simp add: count_child_def)
  have w: "weight_at (gs(up \<mapsto> ?u)) = weight_at gs"
    using u by (auto simp: weight_at_def count_child_def fun_eq_iff)
  have "pos \<notin> kids gs A up" using pos(1) by (simp add: kids_def)
  then have sums: "card (insert pos (kids gs A up)) = Suc (card (kids gs A up))"
    "(\<Sum>c \<in> insert pos (kids gs A up). weight_at gs c) = weight p + (\<Sum>c \<in> kids gs A up. weight_at gs c)"
    using finite_kids [OF f(1), of gs up] p(1) by (simp_all add: weight_at_def)
  have rows: "nr_active g = of_bool (x \<in> B) + int (card (kids gs A x)) \<and>
      children_weight g = (if x \<in> B then leaf_weight g else 0) + (\<Sum>c \<in> kids gs A x. weight_at gs c)"
    if "gs x = Some g" for x g
    using b that by (simp add: books_def)
  have "A \<subseteq> insert up (dom gs)" "pos \<in> dom gs" using f(2) p(1) by auto
  then show ?thesis
    using rows rows [OF u] sums f(1) unfolding books_def k w
    by (auto simp: count_child_def)
qed

lemma books_uncount:
  assumes b: "books B A gs" and p: "gs pos = Some p" "gparent p = Some up" and pos: "pos \<in> A" "up \<noteq> pos"
    and u: "gs up = Some u"
  shows "books B (A - {pos}) (gs(up \<mapsto> uncount_child p u))"
proof -
  let ?u = "uncount_child p u"
  have f: "finite A" "A \<subseteq> dom gs" using b by (auto simp: books_def)
  have k: "kids (gs(up \<mapsto> ?u)) (A - {pos}) x = kids gs A x - {pos}" for x
    using kids_upd [of gs up u ?u, OF u] kids_minus by (simp add: uncount_child_def)
  have w: "weight_at (gs(up \<mapsto> ?u)) = weight_at gs"
    using u by (auto simp: weight_at_def uncount_child_def fun_eq_iff)
  have "pos \<in> kids gs A up" using pos(1) p by (simp add: kids_def)
  then have sums: "int (card (kids gs A up - {pos})) = int (card (kids gs A up)) - 1"
    "(\<Sum>c \<in> kids gs A up - {pos}. weight_at gs c) = (\<Sum>c \<in> kids gs A up. weight_at gs c) - weight p"
    using finite_kids [OF f(1), of gs up] p(1) card_Suc_Diff1 [of "kids gs A up" pos]
    by (auto simp: weight_at_def sum_diff1)
  have other: "kids gs A x - {pos} = kids gs A x" if "x \<noteq> up" for x
    using that p by (auto simp: kids_def)
  have rows: "nr_active g = of_bool (x \<in> B) + int (card (kids gs A x)) \<and>
      children_weight g = (if x \<in> B then leaf_weight g else 0) + (\<Sum>c \<in> kids gs A x. weight_at gs c)"
    if "gs x = Some g" for x g
    using b that by (simp add: books_def)
  have "A - {pos} \<subseteq> insert up (dom gs)" using f(2) by auto
  then show ?thesis
    using rows rows [OF u] sums f(1) other unfolding books_def k w
    by (auto simp: uncount_child_def)
qed

lemma books_root:
  assumes "gs pos = Some p" "gparent p = None"
  shows "books B (insert pos A) gs \<longleftrightarrow> books B (A - {pos}) gs"
proof -
  have "kids gs (insert pos A) x = kids gs (A - {pos}) x" for x using assms by (auto simp: kids_def)
  then show ?thesis using assms(1) by (auto simp: books_def)
qed

lemma actives_upd: "actives (gs(y \<mapsto> g)) = (if nr_active g = 0 then actives gs - {y} else insert y (actives gs))"
  by (auto simp: actives_def)

lemma actives_same: "gs y = Some g \<Longrightarrow> nr_active g' = nr_active g \<Longrightarrow> actives (gs(y \<mapsto> g')) = actives gs"
  by (auto simp: actives_def)

lemma books_nr_active: "books B A gs \<Longrightarrow> gs x = Some g \<Longrightarrow> 0 \<le> nr_active g"
  by (simp add: books_def)

lemma books_parent_active:
  assumes "books B A gs" "c \<in> A" "gs c = Some g" "gparent g = Some x" "gs x = Some h"
  shows "1 \<le> nr_active h"
proof -
  have "c \<in> kids gs A x" "finite (kids gs A x)" using assms by (auto simp: kids_def books_def finite_kids)
  then have "1 \<le> card (kids gs A x)" by (metis One_nat_def Suc_leI card_gt_0_iff empty_iff)
  with assms show ?thesis by (simp add: books_def)
qed

section \<open>Weights that do not overflow\<close>

text \<open>
  The weights are at most 1000; that all of them together, the pending ones included, stay
  below \<open>2 ^ 20\<close> keeps every sum and product of the loops within 32 bits.
\<close>

definition weight_room :: "cfq_group \<Rightarrow> nat" where
  "weight_room g = unat (max (weight g) (new_weight g)) + unat (max (leaf_weight g) (new_leaf_weight g))"

definition weights_ok :: "(nat \<rightharpoonup> cfq_group) \<Rightarrow> bool" where
  "weights_ok gs \<longleftrightarrow> finite (dom gs) \<and> (\<forall>g \<in> ran gs. weight g \<noteq> 0 \<and> leaf_weight g \<noteq> 0) \<and>
     (\<Sum>x \<in> dom gs. weight_room (the (gs x))) < 2 ^ 20"

lemma weights_ok_upd:
  assumes "weights_ok gs" "gs y = Some g" "weight g' \<noteq> 0" "leaf_weight g' \<noteq> 0" "weight_room g' \<le> weight_room g"
  shows "weights_ok (gs(y \<mapsto> g'))"
proof -
  have "(\<Sum>x \<in> dom gs. weight_room (the ((gs(y \<mapsto> g')) x))) \<le> (\<Sum>x \<in> dom gs. weight_room (the (gs x)))"
    using assms(2,5) by (intro sum_mono) auto
  moreover have "insert y (dom gs) = dom gs" using assms(2) by auto
  moreover have "ran (gs(y \<mapsto> g')) \<subseteq> insert g' (ran gs)" by (auto simp: ran_def)
  ultimately show ?thesis using assms(1,3,4) by (auto simp: weights_ok_def)
qed

lemma unat_sum32:
  "finite K \<Longrightarrow> (\<Sum>c \<in> K. unat (f c :: u32)) < 2 ^ 32 \<Longrightarrow> unat (\<Sum>c \<in> K. f c) = (\<Sum>c \<in> K. unat (f c))"
proof (induction K rule: finite_induct)
  case (insert x K)
  then have "unat (f x) + unat (sum f K) < 2 ^ LENGTH(32)" by simp
  then have "unat (f x + sum f K) = unat (f x) + unat (sum f K)" by (simp only: unat_add_lem [THEN iffD1])
  with insert show ?case by simp
qed simp

lemma kids_weight_bound:
  assumes "weights_ok gs" "books B A gs"
  shows "(\<Sum>c \<in> kids gs A x. unat (weight_at gs c)) + (\<Sum>c \<in> dom gs. unat (leaf_weight (the (gs c)))) < 2 ^ 20"
proof -
  have f: "finite (dom gs)" using assms(1) by (simp add: weights_ok_def)
  have "kids gs A x \<subseteq> dom gs" by (auto simp: kids_def)
  then have "(\<Sum>c \<in> kids gs A x. unat (weight_at gs c)) \<le> (\<Sum>c \<in> dom gs. unat (weight_at gs c))"
    by (rule sum_mono2 [OF f]) simp
  moreover have "(\<Sum>c \<in> dom gs. unat (weight_at gs c)) + (\<Sum>c \<in> dom gs. unat (leaf_weight (the (gs c))))
      \<le> (\<Sum>c \<in> dom gs. weight_room (the (gs c)))"
    unfolding sum.distrib [symmetric] by (rule sum_mono) (simp add: weight_room_def weight_at_def unat_max)
  ultimately show ?thesis using assms(1) by (simp add: weights_ok_def)
qed

lemma unat_children_weight:
  assumes "weights_ok gs" "books B A gs" "gs x = Some h"
  shows "unat (children_weight h) =
     (if x \<in> B then unat (leaf_weight h) else 0) + (\<Sum>c \<in> kids gs A x. unat (weight_at gs c))"
    and "unat (children_weight h) < 2 ^ 20"
proof -
  note bound = kids_weight_bound [OF assms(1,2), of x]
  have leaf: "unat (leaf_weight h) \<le> (\<Sum>c \<in> dom gs. unat (leaf_weight (the (gs c))))"
    using assms(1,3) member_le_sum [of x "dom gs" "\<lambda>c. unat (leaf_weight (the (gs c)))"]
    by (auto simp: weights_ok_def)
  have fin: "finite (kids gs A x)" using assms(2) by (simp add: books_def finite_kids)
  let ?s = "\<Sum>c \<in> kids gs A x. weight_at gs c"
  have s: "unat ?s = (\<Sum>c \<in> kids gs A x. unat (weight_at gs c))" using bound by (intro unat_sum32 [OF fin]) simp
  have cw: "children_weight h = (if x \<in> B then leaf_weight h else 0) + ?s"
    using assms(2,3) by (simp add: books_def)
  have "unat (leaf_weight h) + unat ?s < 2 ^ LENGTH(32)" using s bound leaf by simp
  then have "unat (leaf_weight h + ?s) = unat (leaf_weight h) + unat ?s" by (simp only: unat_add_lem [THEN iffD1])
  with cw s show "unat (children_weight h) =
     (if x \<in> B then unat (leaf_weight h) else 0) + (\<Sum>c \<in> kids gs A x. unat (weight_at gs c))" by simp
  with bound leaf show "unat (children_weight h) < 2 ^ 20" by simp
qed

lemma kid_weight_le:
  assumes "weights_ok gs" "books B A gs" "c \<in> A" "gs c = Some g" "gparent g = Some x" "gs x = Some h"
  shows "weight g \<le> children_weight h" "children_weight h \<noteq> 0" "unat (weight g) < 2 ^ 20"
proof -
  have c: "c \<in> kids gs A x" "finite (kids gs A x)" using assms by (auto simp: kids_def books_def finite_kids)
  from member_le_sum [OF c(1), of "\<lambda>c. unat (weight_at gs c)"] c(2) assms(4)
  have "unat (weight g) \<le> (\<Sum>c \<in> kids gs A x. unat (weight_at gs c))" by (simp add: weight_at_def)
  with unat_children_weight [OF assms(1,2,6)] have le: "unat (weight g) \<le> unat (children_weight h)"
    "unat (weight g) < 2 ^ 20" by simp_all
  then show "weight g \<le> children_weight h" "unat (weight g) < 2 ^ 20" by (simp_all add: word_le_nat_alt)
  have "weight g \<noteq> 0" using assms(1,4) by (auto simp: weights_ok_def ran_def)
  with le(1) show "children_weight h \<noteq> 0" by (metis le_zero_eq unat_0 unat_eq_zero)
qed

text \<open>One factor of the fraction.\<close>

lemma vfr_step:
  assumes "vfr \<le> (4096 :: u32)" "w \<le> cw" "unat w < 2 ^ 20" "cw \<noteq> 0"
  shows "vfr * w div cw \<le> 4096"
proof -
  have v: "unat vfr \<le> 4096" using assms(1) by (simp add: word_le_nat_alt)
  have "unat vfr * unat w \<le> 4096 * (2 ^ 20 - 1)" using v assms(3) by (intro mult_le_mono) simp_all
  then have p: "unat (vfr * w) = unat vfr * unat w" using unat_mult_lem [of vfr w] by simp
  have "unat vfr * unat w div unat cw \<le> unat vfr * unat cw div unat cw"
    using assms(2) by (intro div_le_mono mult_le_mono) (auto simp: word_le_nat_alt)
  also have "\<dots> = unat vfr" using assms(4) by (simp add: unat_eq_zero)
  finally show ?thesis using v by (simp add: word_le_nat_alt unat_div_distrib p)
qed

section \<open>The loops\<close>

lemma actives_dom: "actives gs \<subseteq> dom gs"
  by (auto simp: actives_def)

lemma activate_up_counted:
  "climbs gs pos us \<Longrightarrow> books B (actives gs) gs \<Longrightarrow> weights_ok gs \<Longrightarrow> pos \<in> actives gs \<Longrightarrow> vfr \<le> 4096 \<Longrightarrow>
   \<exists>v. activate_up False vfr pos gs = Some (Inr (v, gs)) \<and> v \<le> 4096"
proof (induction us arbitrary: pos vfr)
  case Nil
  then show ?case by (auto simp: activate_up.simps [of False])
next
  case (Cons up us)
  then obtain p where p: "gs pos = Some p" "gparent p = Some up" and c: "climbs gs up us" by auto
  from c obtain u where u: "gs up = Some u" by (cases us) auto
  have b: "books B (actives gs) gs" using Cons.prems(2) by simp
  have "1 \<le> nr_active u" by (rule books_parent_active [OF b Cons.prems(4) p u])
  then have "up \<in> actives gs" using u by (auto simp: actives_def)
  note w = kid_weight_le [OF Cons.prems(3) b Cons.prems(4) p u]
  have "vfr * weight p div children_weight u \<le> 4096" by (rule vfr_step [OF Cons.prems(5) w(1,3,2)])
  from Cons.IH [OF c Cons.prems(2,3) \<open>up \<in> actives gs\<close> this] p u w(2) show ?case
    by (simp add: activate_up.simps [of False _ pos])
qed

lemma cfq_update_group_weight_fields [simp]:
  "gparent (cfq_update_group_weight g) = gparent g" "nr_active (cfq_update_group_weight g) = nr_active g"
  "g_linked (cfq_update_group_weight g) = g_linked g" "leaf_weight (cfq_update_group_weight g) = leaf_weight g"
  "children_weight (cfq_update_group_weight g) = children_weight g"
  "new_leaf_weight (cfq_update_group_weight g) = new_leaf_weight g"
  by (simp_all add: cfq_update_group_weight_def)

lemma update_group_weight_room:
  "weight g \<noteq> 0 \<Longrightarrow> weight (cfq_update_group_weight g) \<noteq> 0"
  "weight_room (cfq_update_group_weight g) \<le> weight_room g"
  by (auto simp: cfq_update_group_weight_def weight_room_def unat_max)

lemma count_child_fields [simp]:
  "gparent (count_child c g) = gparent g" "nr_active (count_child c g) = nr_active g + 1"
  "gparent (uncount_child c g) = gparent g" "nr_active (uncount_child c g) = nr_active g - 1"
  "weight (count_child c g) = weight g" "leaf_weight (count_child c g) = leaf_weight g"
  "weight (uncount_child c g) = weight g" "leaf_weight (uncount_child c g) = leaf_weight g"
  "weight_room (count_child c g) = weight_room g" "weight_room (uncount_child c g) = weight_room g"
  by (simp_all add: count_child_def uncount_child_def weight_room_def)

lemma weights_okD: "weights_ok gs \<Longrightarrow> gs x = Some g \<Longrightarrow> weight g \<noteq> 0 \<and> leaf_weight g \<noteq> 0"
  by (auto simp: weights_ok_def ran_def)

text \<open>One round of the activation: the group is counted in its parent.\<close>

lemma activate_step:
  assumes b: "books B (actives gs - {pos}) gs" and w: "weights_ok gs" and act: "pos \<in> actives gs"
    and p: "gs pos = Some p" "gparent p = Some up" and up: "up \<noteq> pos" "gs up = Some u"
  defines "p1 \<equiv> cfq_update_group_weight p"
  defines "gs2 \<equiv> gs(pos \<mapsto> p1, up \<mapsto> count_child p1 u)"
  shows "books B (actives gs) gs2" "weights_ok gs2" "same_groups gs gs2"
    "actives gs2 = insert up (actives gs)" "up \<notin> actives gs \<longleftrightarrow> nr_active u = 0"
proof -
  let ?gs1 = "gs(pos \<mapsto> p1)"
  have b1: "books B (actives gs - {pos}) ?gs1"
    by (rule books_upd [where gs = gs and g = p, OF b p(1)]) (simp_all add: p1_def)
  have p1: "?gs1 pos = Some p1" "gparent p1 = Some up" "?gs1 up = Some u" using p up by (simp_all add: p1_def)
  have "books B (insert pos (actives gs - {pos})) (?gs1(up \<mapsto> count_child p1 u))"
    by (rule books_count [OF b1 p1(1,2) _ up(1) p1(3)]) simp
  moreover have "insert pos (actives gs - {pos}) = actives gs" using act by auto
  ultimately show "books B (actives gs) gs2" by (simp add: gs2_def)
  have "weights_ok ?gs1"
    using weights_ok_upd [where gs = gs and y = pos and g' = p1, OF w p(1)] weights_okD [OF w p(1)] update_group_weight_room
    by (simp add: p1_def)
  from weights_ok_upd [where gs = ?gs1 and y = up and g' = "count_child p1 u", OF this p1(3)] weights_okD [OF w up(2)]
  show "weights_ok gs2" by (simp add: gs2_def)
  have "same_groups gs ?gs1" by (rule same_groups_upd [where gs = gs and x = pos, OF p(1)]) (simp add: p1_def)
  moreover have "same_groups ?gs1 (?gs1(up \<mapsto> count_child p1 u))"
    by (rule same_groups_upd [where gs = ?gs1 and x = up, OF p1(3)]) simp
  ultimately show "same_groups gs gs2" unfolding gs2_def by (rule same_groups_trans)
  have "0 \<le> nr_active u" by (rule books_nr_active [OF b up(2)])
  moreover have "actives ?gs1 = actives gs" by (rule actives_same [where gs = gs, OF p(1)]) (simp add: p1_def)
  ultimately show "actives gs2 = insert up (actives gs)" unfolding gs2_def by (simp add: actives_upd)
  show "up \<notin> actives gs \<longleftrightarrow> nr_active u = 0" using up(2) by (auto simp: actives_def)
qed

lemma activate_up_uncounted:
  "climbs gs pos us \<Longrightarrow> books B (actives gs - {pos}) gs \<Longrightarrow> weights_ok gs \<Longrightarrow> pos \<in> actives gs \<Longrightarrow>
   vfr \<le> 4096 \<Longrightarrow>
   \<exists>v gs'. activate_up True vfr pos gs = Some (Inr (v, gs')) \<and> v \<le> 4096 \<and> books B (actives gs') gs' \<and>
     same_groups gs gs' \<and> weights_ok gs'"
proof (induction us arbitrary: pos vfr gs)
  case Nil
  then obtain p where p: "gs pos = Some p" "gparent p = None" by auto
  have "insert pos (actives gs) = actives gs" using Nil.prems(4) by auto
  with books_root [where gs = gs, OF p, of B "actives gs"] Nil.prems(2) have "books B (actives gs) gs" by simp
  with p Nil.prems show ?case by (subst activate_up.simps) auto
next
  case (Cons up us)
  then obtain p where p: "gs pos = Some p" "gparent p = Some up" and c: "climbs gs up us" by auto
  from c obtain u where u: "gs up = Some u" by (cases us) auto
  have ne: "up \<noteq> pos" using climbs_not_self [OF Cons.prems(1)] by auto
  let ?p1 = "cfq_update_group_weight p"
  let ?gs2 = "gs(pos \<mapsto> ?p1, up \<mapsto> count_child ?p1 u)"
  let ?cw = "children_weight (count_child ?p1 u)"
  note s = activate_step [OF Cons.prems(2,3,4) p ne u]
  have pos2: "?gs2 pos = Some ?p1" "gparent ?p1 = Some up" "?gs2 up = Some (count_child ?p1 u)" using p ne by simp_all
  note w = kid_weight_le [OF s(2,1) Cons.prems(4) pos2]
  have v: "vfr * weight ?p1 div ?cw \<le> 4096" by (rule vfr_step [OF Cons.prems(5) w(1,3,2)])
  have c2: "climbs ?gs2 up us" by (rule climbs_same [OF c s(3)])
  have step: "activate_up True vfr pos gs = activate_up (nr_active u = 0) (vfr * weight ?p1 div ?cw) up ?gs2"
    using p u ne w(2) by (subst activate_up.simps) (simp add: Let_def)
  have act: "up \<in> actives ?gs2" using s(4) by simp
  show ?case
  proof (cases "nr_active u = 0")
    case True
    then have "actives ?gs2 - {up} = actives gs" using s(4,5) by auto
    with s(1) have "books B (actives ?gs2 - {up}) ?gs2" by simp
    from Cons.IH [where gs = ?gs2, OF c2 this s(2) act v] obtain v' gs' where
      "activate_up True (vfr * weight ?p1 div ?cw) up ?gs2 = Some (Inr (v', gs'))" "v' \<le> 4096"
      "books B (actives gs') gs'" "same_groups ?gs2 gs'" "weights_ok gs'" by blast
    moreover have "same_groups gs gs'" by (rule same_groups_trans [OF s(3)]) fact
    ultimately show ?thesis unfolding step using True by (simp only: simp_thms) blast
  next
    case False
    then have "actives ?gs2 = actives gs" using s(4,5) by auto
    with s(1) have bal: "books B (actives ?gs2) ?gs2" by simp
    from activate_up_counted [where gs = ?gs2, OF c2 bal s(2) act v] obtain v' where
      "activate_up False (vfr * weight ?p1 div ?cw) up ?gs2 = Some (Inr (v', ?gs2))" "v' \<le> 4096" by blast
    then show ?thesis unfolding step using False s(2,3) bal by (simp only: simp_thms) blast
  qed
qed

lemma deactivate_up_ok:
  "climbs gs pos us \<Longrightarrow> books B (insert pos (actives gs)) gs \<Longrightarrow> weights_ok gs \<Longrightarrow> pos \<notin> actives gs \<Longrightarrow>
   \<exists>gs'. deactivate_up pos gs = Some (Inr gs') \<and> books B (actives gs') gs' \<and> same_groups gs gs' \<and> weights_ok gs'"
proof (induction us arbitrary: pos gs)
  case Nil
  then obtain p where p: "gs pos = Some p" "gparent p = None" by auto
  let ?gs1 = "gs(pos \<mapsto> p\<lparr>vfraction := 0\<rparr>)"
  have "actives gs - {pos} = actives gs" using Nil.prems(4) by auto
  with books_root [where gs = gs, OF p, of B "actives gs"] Nil.prems(2) have "books B (actives gs) gs" by simp
  then have "books B (actives gs) ?gs1" by (rule books_upd [where gs = gs, OF _ p(1)]) simp_all
  moreover have "actives ?gs1 = actives gs" by (rule actives_same [where gs = gs, OF p(1)]) simp
  moreover have "weights_ok ?gs1"
    using weights_ok_upd [where gs = gs and y = pos, OF Nil.prems(3) p(1)] weights_okD [OF Nil.prems(3) p(1)]
    by (simp add: weight_room_def)
  moreover have "same_groups gs ?gs1" by (rule same_groups_upd [where gs = gs, OF p(1)]) simp
  ultimately show ?case using p by (subst deactivate_up.simps) simp
next
  case (Cons up us)
  then obtain p where p: "gs pos = Some p" "gparent p = Some up" and c: "climbs gs up us" by auto
  from c obtain u where u: "gs up = Some u" by (cases us) auto
  have ne: "up \<noteq> pos" using climbs_not_self [OF Cons.prems(1)] by auto
  let ?p1 = "p\<lparr>vfraction := 0\<rparr>"
  let ?gs1 = "gs(pos \<mapsto> ?p1)"
  let ?gs2 = "?gs1(up \<mapsto> uncount_child ?p1 u)"
  have b1: "books B (insert pos (actives gs)) ?gs1" by (rule books_upd [where gs = gs, OF Cons.prems(2) p(1)]) simp_all
  have p1: "?gs1 pos = Some ?p1" "gparent ?p1 = Some up" "?gs1 up = Some u" using p ne u by simp_all
  have "books B (insert pos (actives gs) - {pos}) ?gs2"
    by (rule books_uncount [OF b1 p1(1,2) _ ne p1(3)]) simp
  moreover have "insert pos (actives gs) - {pos} = actives gs" using Cons.prems(4) by auto
  ultimately have b2: "books B (actives gs) ?gs2" by simp
  have "1 \<le> nr_active u" by (rule books_parent_active [OF Cons.prems(2) _ p u]) simp
  then have up: "up \<in> actives gs" using u by (auto simp: actives_def)
  have a1: "actives ?gs1 = actives gs" by (rule actives_same [where gs = gs, OF p(1)]) simp
  have w1: "weights_ok ?gs1"
    using weights_ok_upd [where gs = gs and y = pos, OF Cons.prems(3) p(1)] weights_okD [OF Cons.prems(3) p(1)]
    by (simp add: weight_room_def)
  from weights_ok_upd [where gs = ?gs1 and y = up and g' = "uncount_child ?p1 u", OF w1 p1(3)] weights_okD [OF w1 p1(3)]
  have w2: "weights_ok ?gs2" by simp
  have "same_groups gs ?gs1" by (rule same_groups_upd [where gs = gs, OF p(1)]) simp
  moreover have "same_groups ?gs1 ?gs2" by (rule same_groups_upd [where gs = ?gs1, OF p1(3)]) simp
  ultimately have s: "same_groups gs ?gs2" by (rule same_groups_trans)
  have step: "deactivate_up pos gs = (if nr_active u - 1 = 0 then deactivate_up up ?gs2 else Some (Inr ?gs2))"
    using p u ne by (subst deactivate_up.simps) (simp add: Let_def)
  show ?case
  proof (cases "nr_active u = 1")
    case True
    then have a2: "actives ?gs2 = actives gs - {up}" by (simp only: actives_upd [of ?gs1] a1 count_child_fields diff_self simp_thms if_True)
    then have "insert up (actives ?gs2) = actives gs" using up by auto
    with b2 have "books B (insert up (actives ?gs2)) ?gs2" by simp
    moreover have "up \<notin> actives ?gs2" using a2 by simp
    ultimately obtain gs' where "deactivate_up up ?gs2 = Some (Inr gs')" "books B (actives gs') gs'" "same_groups ?gs2 gs'"
      "weights_ok gs'"
      using Cons.IH [where gs = ?gs2, OF climbs_same [OF c s] _ w2] by blast
    moreover have "same_groups gs gs'" by (rule same_groups_trans [OF s]) fact
    ultimately show ?thesis unfolding step using True by (simp only: diff_self if_True simp_thms) blast
  next
    case False
    then have "actives ?gs2 = actives gs" using up unfolding actives_upd [of ?gs1] a1 by auto
    with b2 have "books B (actives ?gs2) ?gs2" by simp
    with False s w2 show ?thesis unfolding step by auto
  qed
qed

section \<open>Fractions\<close>

text \<open>The first loop writes no fraction, the second only those of groups that are no longer active.\<close>

definition same_fractions :: "(nat \<rightharpoonup> cfq_group) \<Rightarrow> (nat \<rightharpoonup> cfq_group) \<Rightarrow> bool" where
  "same_fractions gs gs' \<longleftrightarrow> (\<forall>x. map_option vfraction (gs x) = map_option vfraction (gs' x))"

lemma same_fractions_upd: "gs x = Some g \<Longrightarrow> vfraction g' = vfraction g \<Longrightarrow> same_fractions gs (gs(x \<mapsto> g'))"
  by (simp add: same_fractions_def)

lemma same_fractions_trans: "same_fractions a b \<Longrightarrow> same_fractions b c \<Longrightarrow> same_fractions a c"
  by (simp add: same_fractions_def)

lemma vfraction_fields [simp]:
  "vfraction (cfq_update_group_weight g) = vfraction g" "vfraction (count_child c g) = vfraction g"
  "vfraction (uncount_child c g) = vfraction g"
  by (simp_all add: cfq_update_group_weight_def count_child_def uncount_child_def)

lemma activate_up_fractions:
  "climbs gs pos us \<Longrightarrow> activate_up p vfr pos gs = Some (Inr (v, gs')) \<Longrightarrow> same_fractions gs gs'"
proof (induction us arbitrary: p vfr pos gs)
  case Nil
  then show ?case by (subst (asm) activate_up.simps) (auto simp: same_fractions_def)
next
  case (Cons up us)
  then obtain g where g: "gs pos = Some g" "gparent g = Some up" and c: "climbs gs up us" by auto
  from c obtain u where u: "gs up = Some u" by (cases us) auto
  have ne: "up \<noteq> pos" using climbs_not_self [OF Cons.prems(1)] by auto
  let ?g = "cfq_update_group_weight g"
  let ?gs2 = "if p then gs(pos \<mapsto> ?g, up \<mapsto> count_child ?g u) else gs"
  have f2: "same_fractions gs ?gs2" using g u ne by (simp add: same_fractions_def)
  have s2: "same_groups gs ?gs2" using g u ne by (simp add: same_groups_def)
  obtain w where "activate_up (p \<and> nr_active u = 0) w up ?gs2 = Some (Inr (v, gs'))"
    using Cons.prems(2) g u ne by (subst (asm) activate_up.simps) (auto simp: Let_def split: if_splits)
  from Cons.IH [OF climbs_same [OF c s2] this] f2 same_fractions_trans show ?case by blast
qed

lemma deactivate_up_fractions:
  "climbs gs pos us \<Longrightarrow> deactivate_up pos gs = Some (Inr gs') \<Longrightarrow>
   (\<forall>x. x \<notin> set us \<longrightarrow> map_option nr_active (gs' x) = map_option nr_active (gs x)) \<and>
   (\<forall>x G. x \<noteq> pos \<longrightarrow> gs' x = Some G \<longrightarrow> nr_active G \<noteq> 0 \<longrightarrow> map_option vfraction (gs x) = Some (vfraction G))"
proof (induction us arbitrary: pos gs)
  case Nil
  then show ?case by (subst (asm) deactivate_up.simps) auto
next
  case (Cons up us)
  then obtain g where g: "gs pos = Some g" "gparent g = Some up" and c: "climbs gs up us" by auto
  from c obtain u where u: "gs up = Some u" by (cases us) auto
  have ne: "up \<noteq> pos" using climbs_not_self [OF Cons.prems(1)] by auto
  let ?g = "g\<lparr>vfraction := 0\<rparr>"
  let ?gs2 = "gs(pos \<mapsto> ?g, up \<mapsto> uncount_child ?g u)"
  have s2: "same_groups gs ?gs2" using g u ne by (simp add: same_groups_def)
  have n2: "map_option nr_active (?gs2 x) = map_option nr_active (gs x)" if "x \<noteq> up" for x
    using g that by simp
  have f2: "map_option vfraction (?gs2 x) = map_option vfraction (gs x)" if "x \<noteq> pos" for x
    using g u that by simp
  have step: "(if nr_active u - 1 = 0 then deactivate_up up ?gs2 else Some (Inr ?gs2)) = Some (Inr gs')"
    using Cons.prems(2) g u ne by (subst (asm) deactivate_up.simps) (simp add: Let_def)
  show ?case
  proof (cases "nr_active u - 1 = 0")
    case True
    with step have r: "deactivate_up up ?gs2 = Some (Inr gs')" by simp
    note IH = Cons.IH [OF climbs_same [OF c s2] r]
    have "up \<notin> set us" using climbs_not_self [OF c] .
    then have "map_option nr_active (gs' up) = map_option nr_active (?gs2 up)" using IH by blast
    then have "map_option nr_active (gs' up) = Some 0" using True by simp
    then have "\<And>G. gs' up = Some G \<Longrightarrow> nr_active G = 0" by simp
    then have "map_option vfraction (gs x) = Some (vfraction G)"
      if "x \<noteq> pos" "gs' x = Some G" "nr_active G \<noteq> 0" for x G
      using that IH f2 [of x] by (cases "x = up") auto
    moreover have "map_option nr_active (gs' x) = map_option nr_active (gs x)" if "x \<notin> set (up # us)" for x
      using that IH n2 [of x] by simp
    ultimately show ?thesis by blast
  next
    case False
    with step have "gs' = ?gs2" by simp
    have "map_option vfraction (gs x) = Some (vfraction G)" if "x \<noteq> pos" "?gs2 x = Some G" for x G
      using f2 [OF that(1)] that(2) by (simp only: option.map)
    with n2 \<open>gs' = ?gs2\<close> show ?thesis by (metis list.set_intros(1))
  qed
qed

end
