(* ===== verification/Cfq_Group_Correct.thy ===== *)
theory Cfq_Group_Correct
  imports Cfq_Weights
begin

text \<open>
  The groups of CFQ: activation, deactivation, charging and choosing keep the tree of the
  active groups sorted, the weights in balance and the fractions between 1 and 4096.
\<close>

section \<open>The state of the groups between two operations\<close>

definition grp_tree :: "(nat \<rightharpoonup> cfq_group) \<Rightarrow> cfq_rb_root \<Rightarrow> bool" where
  "grp_tree gs st \<longleftrightarrow> st_sorted (group_key gs st) st \<and> distinct (inorder (rb st)) \<and>
     set (inorder (rb st)) = linked gs"

definition fractions_ok :: "(nat \<rightharpoonup> cfq_group) \<Rightarrow> bool" where
  "fractions_ok gs \<longleftrightarrow> (\<forall>x G. gs x = Some G \<longrightarrow> g_linked G \<longrightarrow> vfraction G \<noteq> 0)"

definition grp_ok :: "'a cfq_data_scheme \<Rightarrow> bool" where
  "grp_ok q \<longleftrightarrow> forest (cfqgs q) \<and> balanced (cfqgs q) \<and> weights_ok (cfqgs q) \<and>
     fractions_ok (cfqgs q) \<and> grp_tree (cfqgs q) (grp_service_tree q)"

lemma fractions_ok_upd: "fractions_ok gs \<Longrightarrow> g_linked g' \<longrightarrow> vfraction g' \<noteq> 0 \<Longrightarrow> fractions_ok (gs(x \<mapsto> g'))"
  by (simp add: fractions_ok_def)

lemma st_sorted_cong:
  assumes "\<And>x. x \<in> set (inorder (rb st)) \<Longrightarrow> key x = key' x"
  shows "st_sorted key st = st_sorted key' st"
proof -
  have "map key (inorder (rb st)) = map key' (inorder (rb st))" using assms by (rule map_cong [OF refl])
  then show ?thesis by (simp only: st_sorted_def)
qed

lemma group_key_same: "same_groups gs gs' \<Longrightarrow> group_key gs st x = group_key gs' st x"
proof -
  assume "same_groups gs gs'"
  then have "map_option vdisktime (gs x) = map_option vdisktime (gs' x)" by (rule same_groups_field) simp
  then show ?thesis by (auto simp: group_key_def cfqg_key_def split: option.splits)
qed

lemma grp_tree_same: "same_groups gs gs' \<Longrightarrow> grp_tree gs st = grp_tree gs' st"
  unfolding grp_tree_def using linked_same [of gs gs'] group_key_same [of gs gs' st]
    st_sorted_cong [of st "group_key gs st" "group_key gs' st"] by simp

text \<open>A group that is not on the tree may change anything but its being off the tree.\<close>

lemma grp_tree_unlinked:
  assumes "grp_tree gs st" "gs a = Some g" "\<not> g_linked g" "\<not> g_linked g'"
  shows "grp_tree (gs(a \<mapsto> g')) st"
proof -
  have a: "a \<notin> set (inorder (rb st))" using assms by (auto simp: grp_tree_def linked_def)
  then have "st_sorted (group_key gs st) st = st_sorted (group_key (gs(a \<mapsto> g')) st) st"
    by (intro st_sorted_cong) (auto simp: group_key_def)
  moreover have "linked (gs(a \<mapsto> g')) = linked gs"
    using assms(2-4) by (auto simp: linked_def)
  ultimately show ?thesis using assms(1) by (simp add: grp_tree_def)
qed

lemma grp_tree_insert:
  assumes "lib_ok L" "grp_tree gs st" "gs a = Some g" "\<not> g_linked g"
  shows "grp_tree (gs(a \<mapsto> g\<lparr>g_linked := True\<rparr>)) (cfq_rb_insert L (group_key gs st) (cfqg_key st g) a st)"
    (is "grp_tree ?gs ?st")
proof -
  have t: "st_sorted (group_key gs st) st" "distinct (inorder (rb st))"
    "set (inorder (rb st)) = linked gs" using assms(2) by (auto simp: grp_tree_def)
  have key: "group_key ?gs ?st = group_key gs st"
    using assms(3) by (auto simp: group_key_def cfqg_key_def fun_eq_iff split: option.split)
  have "st_sorted (group_key gs st) ?st"
    by (rule cfq_rb_insert_sorted [OF assms(1) t(1)]) (simp add: group_key_def assms(3))
  moreover have io: "inorder (rb ?st) = key_place (group_key gs st) (cfqg_key st g) a (inorder (rb st))"
    by (rule cfq_rb_insert_inorder [OF assms(1)]) (use t(1) in \<open>simp add: st_sorted_def\<close>)
  moreover have "a \<notin> set (inorder (rb st))" using t(3) assms(3,4) by (auto simp: linked_def)
  then have "distinct (key_place (group_key gs st) (cfqg_key st g) a (inorder (rb st)))"
    using t(2) mset_key_place [of "group_key gs st" "cfqg_key st g" a "inorder (rb st)"]
    by (metis distinct.simps(2) mset.simps(2) mset_eq_imp_distinct_iff)
  moreover have "insert a (linked gs) = linked ?gs" by (auto simp: linked_def)
  ultimately show ?thesis unfolding grp_tree_def key io using t(3) by simp
qed

lemma grp_tree_erase:
  assumes "lib_ok L" "grp_tree gs st" "gs a = Some g"
  shows "grp_tree (gs(a \<mapsto> g\<lparr>g_linked := False\<rparr>)) (cfq_rb_erase L a st)"
    (is "grp_tree ?gs ?st")
proof -
  have t: "st_sorted (group_key gs st) st" "distinct (inorder (rb st))"
    "set (inorder (rb st)) = linked gs" using assms(2) by (auto simp: grp_tree_def)
  have key: "group_key ?gs ?st = group_key gs st"
    using assms(3) by (auto simp: group_key_def cfqg_key_def fun_eq_iff split: option.split)
  have io: "inorder (rb ?st) = remove1 a (inorder (rb st))" by (rule cfq_rb_erase_inorder [OF assms(1)])
  have "linked gs - {a} = linked ?gs" by (auto simp: linked_def)
  with t io cfq_rb_erase_sorted [OF assms(1) t(1), of a] show ?thesis unfolding grp_tree_def key
    by simp
qed

text \<open>What the queues see of the groups: none of the operations on groups writes it.\<close>

definition queue_side :: "cfq_group \<Rightarrow> (wl_class_t \<Rightarrow> wl_type_t \<Rightarrow> cfq_rb_root) \<times> cfq_rb_root \<times> int \<times> cfq_ttime" where
  "queue_side g = (service_trees g, service_tree_idle g, nr_cfqq g, g_ttime g)"

definition same_side :: "(nat \<rightharpoonup> cfq_group) \<Rightarrow> (nat \<rightharpoonup> cfq_group) \<Rightarrow> bool" where
  "same_side gs gs' \<longleftrightarrow> (\<forall>x. map_option queue_side (gs x) = map_option queue_side (gs' x))"

lemma same_side_trans: "same_side a b \<Longrightarrow> same_side b c \<Longrightarrow> same_side a c"
  by (simp add: same_side_def)

lemma same_side_groups: "same_groups gs gs' \<Longrightarrow> same_side gs gs'"
  unfolding same_side_def queue_side_def by (intro allI same_groups_field) simp_all

lemma same_side_upd: "gs x = Some g \<Longrightarrow> queue_side g' = queue_side g \<Longrightarrow> same_side gs (gs(x \<mapsto> g'))"
  by (simp add: same_side_def)

lemma same_sideD: "same_side gs gs' \<Longrightarrow> gs x = Some g \<Longrightarrow> \<exists>g'. gs' x = Some g' \<and> queue_side g' = queue_side g"
  unfolding same_side_def by (metis map_option_eq_Some)

section \<open>Activation\<close>

lemma cfq_update_group_leaf_weight_ok:
  assumes "\<not> g_linked g"
  obtains g' where "cfq_update_group_leaf_weight g = Inr g'" "\<not> g_linked g'"
    "nr_active g' = nr_active g" "children_weight g' = children_weight g" "gparent g' = gparent g"
    "weight g' = weight g" "vdisktime g' = vdisktime g" "nr_cfqq g' = nr_cfqq g"
    "leaf_weight g \<noteq> 0 \<longrightarrow> leaf_weight g' \<noteq> 0" "weight_room g' \<le> weight_room g"
    "service_trees g' = service_trees g" "service_tree_idle g' = service_tree_idle g" "g_ttime g' = g_ttime g"
  using assms that by (auto simp: cfq_update_group_leaf_weight_def weight_room_def unat_max)

lemma max1_word: "v \<le> (4096 :: u32) \<Longrightarrow> 1 \<le> max v 1 \<and> max v 1 \<le> 4096"
  unfolding max_def by (cases "v \<le> 1") (simp_all add: not_le order_less_imp_le)

lemma actives_weight_fraction:
  assumes "weights_ok gs" "books B A gs" "gs a = Some g" "a \<in> B"
  shows "push_bit CFQ_SERVICE_SHIFT 1 * leaf_weight g div children_weight g \<le> 4096" "children_weight g \<noteq> 0"
proof -
  from unat_children_weight [OF assms(1-3)] assms(4)
  have le: "unat (leaf_weight g) \<le> unat (children_weight g)" "unat (leaf_weight g) < 2 ^ 20" by auto
  have "leaf_weight g \<noteq> 0" using weights_okD [OF assms(1,3)] by simp
  with le(1) show c: "children_weight g \<noteq> 0" by (metis le_zero_eq unat_0 unat_eq_zero)
  have "(4096 :: u32) * leaf_weight g div children_weight g \<le> 4096"
    by (rule vfr_step) (use le c in \<open>auto simp: word_le_nat_alt\<close>)
  then show "push_bit CFQ_SERVICE_SHIFT 1 * leaf_weight g div children_weight g \<le> 4096"
    by (simp add: CFQ_SERVICE_SHIFT_def)
qed

text \<open>The loop from the activated group up, in whichever of its two modes.\<close>

lemma activate_up_ok:
  assumes f: "forest gs" and a: "gs a = Some g" "1 \<le> nr_active g" and w: "weights_ok gs" and v: "vfr \<le> 4096"
    and b: "books B (if nr_active g = 1 then actives gs - {a} else actives gs) gs"
  shows "\<exists>v gs'. activate_up (nr_active g = 1) vfr a gs = Some (Inr (v, gs')) \<and> v \<le> 4096 \<and> books B (actives gs') gs' \<and>
     same_groups gs gs' \<and> weights_ok gs' \<and> same_fractions gs gs'"
proof -
  from f a(1) obtain us where us: "climbs gs a us" by (auto simp: forest_def)
  have act: "a \<in> actives gs" using a by (auto simp: actives_def)
  note fr = activate_up_fractions [OF us]
  show ?thesis
  proof (cases "nr_active g = 1")
    case True
    with activate_up_uncounted [OF us _ w act v] b fr show ?thesis by (simp del: activate_up.simps) blast
  next
    case False
    then have bal: "books B (actives gs) gs" using b by simp
    from activate_up_counted [OF us bal w act v] False bal w fr show ?thesis by auto
  qed
qed

lemma fractions_ok_same:
  assumes "fractions_ok gs" "same_fractions gs gs'" "same_groups gs gs'"
  shows "fractions_ok gs'"
  unfolding fractions_ok_def
proof (intro allI impI)
  fix x G
  assume G: "gs' x = Some G" "g_linked G"
  from same_groups_field [OF assms(3), of g_linked x] assms(2) G(1)
  obtain H where "gs x = Some H" "g_linked H = g_linked G" "vfraction H = vfraction G"
    by (auto simp: same_fractions_def dest: spec [of _ x])
  with assms(1) G(2) show "vfraction G \<noteq> 0" unfolding fractions_ok_def by metis
qed

lemma service_tree_add_ok:
  assumes L: "lib_ok L" and ok: "grp_ok q" and a: "cfqgs q a = Some g" "\<not> g_linked g"
  shows "\<exists>q' g'. cfq_group_service_tree_add L a q = Some (Inr q') \<and> grp_ok q' \<and>
     cfqgs q' a = Some g' \<and> g_linked g' \<and> 1 \<le> vfraction g' \<and> vfraction g' \<le> 4096 \<and>
     vdisktime g' = vdisktime g \<and> nr_cfqq g' = nr_cfqq g \<and>
     min_vdisktime (grp_service_tree q') = min_vdisktime (grp_service_tree q) \<and>
     q' = q\<lparr>grp_service_tree := grp_service_tree q', cfqgs := cfqgs q'\<rparr> \<and> same_side (cfqgs q) (cfqgs q') \<and>
     linked (cfqgs q') = insert a (linked (cfqgs q))"
proof -
  let ?gs = "cfqgs q"
  from ok have f: "forest ?gs" and b: "books (linked ?gs) (actives ?gs) ?gs" and w: "weights_ok ?gs"
    and fo: "fractions_ok ?gs" and t: "grp_tree ?gs (grp_service_tree q)" by (auto simp: grp_ok_def balanced_def)
  from cfq_update_group_leaf_weight_ok [OF a(2)] obtain h where h:
    "cfq_update_group_leaf_weight g = Inr h" "\<not> g_linked h" "nr_active h = nr_active g"
    "children_weight h = children_weight g" "gparent h = gparent g" "weight h = weight g"
    "vdisktime h = vdisktime g" "nr_cfqq h = nr_cfqq g" "leaf_weight g \<noteq> 0 \<longrightarrow> leaf_weight h \<noteq> 0"
    "weight_room h \<le> weight_room g" and side: "service_trees h = service_trees g"
    "service_tree_idle h = service_tree_idle g" "g_ttime h = g_ttime g" .
  define h1 where "h1 = h\<lparr>g_linked := True, nr_active := nr_active h + 1,
    children_weight := children_weight h + leaf_weight h\<rparr>"
  define gs1 where "gs1 = ?gs(a \<mapsto> h1)"
  define st where "st = grp_service_tree q"
  define st1 where "st1 = cfq_rb_insert L (group_key (?gs(a \<mapsto> h)) st) (cfqg_key st h) a st"
  have gs1: "gs1 a = Some h1" by (simp add: gs1_def)
  have n: "0 \<le> nr_active g" by (rule books_nr_active [OF b a(1)])
  have B1: "linked gs1 = insert a (linked ?gs)" by (auto simp: linked_def gs1_def h1_def)
  have B: "a \<notin> linked ?gs" using a by (simp add: linked_def)
  have b1: "books (linked gs1) (actives ?gs) gs1"
    unfolding B1 unfolding gs1_def
    by (rule books_upd [where gs = ?gs, OF b a(1)]) (use B in \<open>auto simp: h h1_def\<close>)
  have act1: "actives gs1 = insert a (actives ?gs)"
    unfolding gs1_def using n by (simp add: actives_upd h1_def h(3))
  have w1: "weights_ok gs1"
    unfolding gs1_def by (rule weights_ok_upd [where gs = ?gs, OF w a(1)])
      (use weights_okD [OF w a(1)] h in \<open>auto simp: h1_def weight_room_def\<close>)
  have fr: "push_bit CFQ_SERVICE_SHIFT 1 * leaf_weight h1 div children_weight h1 \<le> 4096" "children_weight h1 \<noteq> 0"
    using actives_weight_fraction [OF w1 b1 gs1] B1 by auto
  have f1: "forest gs1" unfolding gs1_def by (rule forest_upd [where gs = ?gs, OF f a(1)]) (simp add: h1_def h(5))
  have mode: "nr_active h1 = 1 \<longleftrightarrow> nr_active h = 0" "1 \<le> nr_active h1" using n h(3) by (auto simp: h1_def)
  have "(if nr_active h1 = 1 then actives gs1 - {a} else actives gs1) = actives ?gs"
    using a(1) act1 mode h(3) by (auto simp: actives_def)
  with b1 have b2: "books (linked gs1) (if nr_active h1 = 1 then actives gs1 - {a} else actives gs1) gs1" by simp
  from activate_up_ok [OF f1 gs1 mode(2) w1 fr(1) b2] obtain v gs2 where up:
    "activate_up (nr_active h = 0) (push_bit CFQ_SERVICE_SHIFT 1 * leaf_weight h1 div children_weight h1) a gs1 = Some (Inr (v, gs2))"
    "v \<le> 4096" "books (linked gs1) (actives gs2) gs2" "same_groups gs1 gs2" "weights_ok gs2" "same_fractions gs1 gs2"
    unfolding mode(1) by blast
  from same_groupsD [OF up(4) gs1] obtain k where k: "gs2 a = Some k" "group_core k = group_core h1" by blast
  define gs3 where "gs3 = gs2(a \<mapsto> k\<lparr>vfraction := max v 1\<rparr>)"
  have s3: "same_groups gs1 gs3"
    unfolding gs3_def by (rule same_groups_trans [OF up(4) same_groups_upd [where gs = gs2, OF k(1)]]) simp
  have res: "cfq_group_service_tree_add L a q = Some (Inr (q\<lparr>grp_service_tree := st1, cfqgs := gs3\<rparr>))"
    using a(1) h(1,2) up(1) fr(2) k(1)
    by (simp add: cfq_group_service_tree_add_def cfq_group_service_tree_add'_def Let_def st1_def st_def
        h1_def gs1_def gs3_def)
  have t1: "grp_tree (?gs(a \<mapsto> h)) st" unfolding st_def by (rule grp_tree_unlinked [OF t a h(2)])
  have "grp_tree ((?gs(a \<mapsto> h))(a \<mapsto> h\<lparr>g_linked := True\<rparr>)) st1"
    unfolding st1_def by (rule grp_tree_insert [OF L t1 _ h(2)]) simp
  moreover have "same_groups (?gs(a \<mapsto> h\<lparr>g_linked := True\<rparr>)) gs1"
    by (auto simp: same_groups_def gs1_def h1_def group_core_def)
  ultimately have t3: "grp_tree gs3 st1" using s3 grp_tree_same same_groups_trans by (metis fun_upd_upd)
  have "balanced gs3"
  proof -
    have "books (linked gs1) (actives gs2) gs3"
      unfolding gs3_def by (rule books_upd [where gs = gs2, OF up(3) k(1)]) simp_all
    moreover have "actives gs3 = actives gs2" unfolding gs3_def by (rule actives_same [where gs = gs2, OF k(1)]) simp
    ultimately show ?thesis using linked_same [OF s3] by (simp add: balanced_def)
  qed
  moreover have "weights_ok gs3"
    unfolding gs3_def by (rule weights_ok_upd [where gs = gs2, OF up(5) k(1)])
      (use weights_okD [OF up(5) k(1)] in \<open>simp_all add: weight_room_def\<close>)
  moreover have "forest gs3" by (rule forest_same [OF f1 s3])
  moreover have "fractions_ok gs3"
  proof -
    let ?c = "\<lambda>gs. gs(a := None) :: nat \<rightharpoonup> cfq_group"
    have "fractions_ok (?c gs1)" using fo by (simp add: fractions_ok_def gs1_def)
    moreover have "same_fractions (?c gs1) (?c gs2)" "same_groups (?c gs1) (?c gs2)"
      using up(4,6) by (simp_all add: same_fractions_def same_groups_def)
    ultimately have "fractions_ok (?c gs2)" by (rule fractions_ok_same)
    then have "fractions_ok ((?c gs2)(a \<mapsto> k\<lparr>vfraction := max v 1\<rparr>))"
      by (rule fractions_ok_upd) (use max1_word [OF up(2)] in \<open>cases "max v 1 = 0"; simp\<close>)
    then show ?thesis by (simp add: gs3_def)
  qed
  moreover have "g_linked k \<and> vdisktime k = vdisktime g \<and> nr_cfqq k = nr_cfqq g"
    using arg_cong [OF k(2), of g_linked] arg_cong [OF k(2), of vdisktime] arg_cong [OF k(2), of nr_cfqq] h(7,8)
    by (simp add: h1_def)
  moreover have "same_side ?gs gs1"
    unfolding gs1_def by (rule same_side_upd [where gs = ?gs, OF a(1)]) (simp add: queue_side_def h1_def h side)
  then have "same_side ?gs gs3" using same_side_groups [OF s3] by (rule same_side_trans)
  moreover have "linked gs3 = insert a (linked ?gs)" using linked_same [OF s3] B1 by simp
  ultimately show ?thesis using res t3 max1_word [OF up(2)]
    by (intro exI [of _ "q\<lparr>grp_service_tree := st1, cfqgs := gs3\<rparr>"] exI [of _ "k\<lparr>vfraction := max v 1\<rparr>"])
      (simp add: grp_ok_def gs3_def st1_def st_def)
qed

section \<open>Deactivation, charging and choosing\<close>

lemma grp_okD:
  "grp_ok q \<Longrightarrow> forest (cfqgs q)" "grp_ok q \<Longrightarrow> books (linked (cfqgs q)) (actives (cfqgs q)) (cfqgs q)"
  "grp_ok q \<Longrightarrow> weights_ok (cfqgs q)" "grp_ok q \<Longrightarrow> grp_tree (cfqgs q) (grp_service_tree q)"
  "grp_ok q \<Longrightarrow> fractions_ok (cfqgs q)"
  by (simp_all add: grp_ok_def balanced_def)

text \<open>A change of a group in fields that the books do not read.\<close>

lemma grp_ok_upd:
  assumes ok: "grp_ok q" and a: "cfqgs q a = Some g" "g_linked g' = g_linked g"
    and same: "gparent g' = gparent g" "weight g' = weight g" "leaf_weight g' = leaf_weight g"
      "nr_active g' = nr_active g" "children_weight g' = children_weight g" "weight_room g' = weight_room g"
    and t: "grp_tree ((cfqgs q)(a \<mapsto> g')) (grp_service_tree q)" and fr: "vfraction g' = vfraction g"
  shows "grp_ok (q\<lparr>cfqgs := (cfqgs q)(a \<mapsto> g')\<rparr>)"
proof -
  let ?gs = "(cfqgs q)(a \<mapsto> g')"
  have "linked ?gs = linked (cfqgs q)" using a by (auto simp: linked_def)
  then have "books (linked ?gs) (actives (cfqgs q)) ?gs"
    using books_upd [where gs = "cfqgs q" and B' = "linked (cfqgs q)", OF grp_okD(2) [OF ok] a(1) same(1)] same
    by simp
  moreover have "actives ?gs = actives (cfqgs q)" by (rule actives_same [where gs = "cfqgs q", OF a(1) same(4)])
  moreover have "weights_ok ?gs"
    by (rule weights_ok_upd [where gs = "cfqgs q", OF grp_okD(3) [OF ok] a(1)])
      (use weights_okD [OF grp_okD(3) [OF ok] a(1)] same in auto)
  moreover have "forest ?gs" by (rule forest_upd [where gs = "cfqgs q", OF grp_okD(1) [OF ok] a(1) same(1)])
  moreover have "fractions_ok ?gs"
    using grp_okD(5) [OF ok] a fr by (auto simp: fractions_ok_def)
  ultimately show ?thesis using t by (simp add: grp_ok_def balanced_def)
qed

lemma grp_tree_fields:
  assumes "grp_tree gs st" "gs a = Some g" "g_linked g' = g_linked g" "vdisktime g' = vdisktime g"
  shows "grp_tree (gs(a \<mapsto> g')) st"
proof -
  have "linked (gs(a \<mapsto> g')) = linked gs" using assms(2,3) by (auto simp: linked_def)
  moreover have "group_key (gs(a \<mapsto> g')) st = group_key gs st"
    using assms(2,4) by (auto simp: group_key_def cfqg_key_def fun_eq_iff)
  ultimately show ?thesis using assms(1) by (simp add: grp_tree_def)
qed

lemma deactivate_ok:
  assumes f: "forest gs" and a: "gs a = Some g" and w: "weights_ok gs"
    and b: "books B (if nr_active g = 0 then insert a (actives gs) else actives gs) gs"
  shows "\<exists>gs'. (if nr_active g = 0 then deactivate_up a gs else Some (Inr gs)) = Some (Inr gs') \<and> books B (actives gs') gs' \<and>
     same_groups gs gs' \<and> weights_ok gs' \<and>
     (\<forall>x G. x \<noteq> a \<longrightarrow> gs' x = Some G \<longrightarrow> nr_active G \<noteq> 0 \<longrightarrow> map_option vfraction (gs x) = Some (vfraction G))"
proof (cases "nr_active g = 0")
  case True
  from f a obtain us where us: "climbs gs a us" by (auto simp: forest_def)
  have "a \<notin> actives gs" using a True by (simp add: actives_def)
  with deactivate_up_ok [OF us _ w] b True obtain gs' where
    "deactivate_up a gs = Some (Inr gs')" "books B (actives gs') gs'" "same_groups gs gs'" "weights_ok gs'" by auto
  with deactivate_up_fractions [OF us] True show ?thesis by auto
next
  case False
  then show ?thesis using b w by simp
qed

lemma service_tree_del_ok:
  assumes L: "lib_ok L" and ok: "grp_ok q" and a: "cfqgs q a = Some g" "g_linked g"
  shows "\<exists>q' g'. cfq_group_service_tree_del L a q = Some (Inr q') \<and> grp_ok q' \<and>
     cfqgs q' a = Some g' \<and> \<not> g_linked g' \<and> vdisktime g' = vdisktime g \<and> nr_cfqq g' = nr_cfqq g \<and>
     min_vdisktime (grp_service_tree q') = min_vdisktime (grp_service_tree q) \<and>
     inorder (rb (grp_service_tree q')) = remove1 a (inorder (rb (grp_service_tree q))) \<and>
     (\<forall>x. x \<noteq> a \<longrightarrow> map_option vdisktime (cfqgs q' x) = map_option vdisktime (cfqgs q x)) \<and>
     q' = q\<lparr>grp_service_tree := grp_service_tree q', cfqgs := cfqgs q'\<rparr> \<and> same_side (cfqgs q) (cfqgs q') \<and>
     linked (cfqgs q') = linked (cfqgs q) - {a}"
proof -
  let ?gs = "cfqgs q"
  define g1 where "g1 = g\<lparr>nr_active := nr_active g - 1, children_weight := children_weight g - leaf_weight g\<rparr>"
  define gs1 where "gs1 = ?gs(a \<mapsto> g1)"
  define A where "A = linked ?gs - {a}"
  have gs1: "gs1 a = Some g1" by (simp add: gs1_def)
  have n: "1 \<le> nr_active g" using grp_okD(2) [OF ok] a by (auto simp: books_def linked_def)
  have "a \<in> linked ?gs" using a by (simp add: linked_def)
  then have b1: "books A (actives ?gs) gs1"
    unfolding gs1_def by (intro books_upd [where gs = ?gs, OF grp_okD(2) [OF ok] a(1)]) (auto simp: g1_def A_def)
  have w1: "weights_ok gs1"
    unfolding gs1_def by (rule weights_ok_upd [where gs = ?gs, OF grp_okD(3) [OF ok] a(1)])
      (use weights_okD [OF grp_okD(3) [OF ok] a(1)] in \<open>auto simp: g1_def weight_room_def\<close>)
  have s1: "same_groups ?gs gs1"
    unfolding gs1_def by (rule same_groups_upd [where gs = ?gs, OF a(1)]) (simp add: g1_def)
  have "(if nr_active g1 = 0 then insert a (actives gs1) else actives gs1) = actives ?gs"
    unfolding gs1_def using n a(1) by (auto simp: actives_def g1_def)
  with b1 have "books A (if nr_active g1 = 0 then insert a (actives gs1) else actives gs1) gs1" by simp
  from deactivate_ok [OF forest_same [OF grp_okD(1) [OF ok] s1] gs1 w1 this] obtain gs2 where d:
    "(if nr_active g1 = 0 then deactivate_up a gs1 else Some (Inr gs1)) = Some (Inr gs2)"
    "books A (actives gs2) gs2" "same_groups gs1 gs2" "weights_ok gs2"
    "\<forall>x G. x \<noteq> a \<longrightarrow> gs2 x = Some G \<longrightarrow> nr_active G \<noteq> 0 \<longrightarrow> map_option vfraction (gs1 x) = Some (vfraction G)"
    by blast
  have s2: "same_groups ?gs gs2" by (rule same_groups_trans [OF s1 d(3)])
  from same_groupsD [OF s2 a(1)] obtain k where k: "gs2 a = Some k" "group_core k = group_core g" by blast
  have kf: "g_linked k" "vdisktime k = vdisktime g" "nr_cfqq k = nr_cfqq g"
    using arg_cong [OF k(2), of g_linked] arg_cong [OF k(2), of vdisktime] arg_cong [OF k(2), of nr_cfqq] a(2) by simp_all
  define k' where "k' = k\<lparr>g_linked := False\<rparr>"
  define gs3 where "gs3 = gs2(a \<mapsto> k')"
  define st where "st = cfq_rb_erase L a (grp_service_tree q)"
  have res: "cfq_group_service_tree_del L a q = Some (Inr (q\<lparr>grp_service_tree := st, cfqgs := gs3\<rparr>))"
    unfolding cfq_group_service_tree_del_def deref_Some [where m = "cfqgs q", OF a(1)] Let_def sum.case
      g1_def [symmetric] gs1_def [symmetric] d(1)
    using k(1) kf(1) by (simp add: gs3_def k'_def st_def)
  have B3: "linked gs3 = A" using linked_same [OF s2] by (auto simp: A_def linked_def gs3_def k'_def)
  have "books (linked gs3) (actives gs2) gs3"
    unfolding B3 unfolding gs3_def by (rule books_upd [where gs = gs2, OF d(2) k(1)]) (simp_all add: k'_def)
  moreover have "actives gs3 = actives gs2"
    unfolding gs3_def by (rule actives_same [where gs = gs2, OF k(1)]) (simp add: k'_def)
  ultimately have "balanced gs3" by (simp add: balanced_def)
  moreover have "weights_ok gs3"
    unfolding gs3_def by (rule weights_ok_upd [where gs = gs2, OF d(4) k(1)])
      (use weights_okD [OF d(4) k(1)] in \<open>simp_all add: k'_def weight_room_def\<close>)
  moreover have "forest gs3"
    unfolding gs3_def by (rule forest_upd [where gs = gs2, OF forest_same [OF grp_okD(1) [OF ok] s2] k(1)]) (simp add: k'_def)
  moreover have "fractions_ok gs3"
    unfolding fractions_ok_def
  proof (intro allI impI)
    fix x G
    assume G: "gs3 x = Some G" "g_linked G"
    have x: "x \<noteq> a" using G by (auto simp: gs3_def k'_def)
    with G(1) have G2: "gs2 x = Some G" by (simp add: gs3_def)
    with G(2) have "x \<in> linked gs2" by (simp add: linked_def)
    then have "x \<in> linked ?gs" using linked_same [OF s2] by simp
    then obtain H where H: "?gs x = Some H" "g_linked H" by (auto simp: linked_def)
    have "x \<in> A" using \<open>x \<in> linked ?gs\<close> x by (simp add: A_def)
    then have "nr_active G \<noteq> 0" using d(2) G2 by (force simp: books_def)
    with d(5) x G2 have "map_option vfraction (gs1 x) = Some (vfraction G)" by blast
    then have "vfraction H = vfraction G" using H(1) x by (simp add: gs1_def)
    with H grp_okD(5) [OF ok] show "vfraction G \<noteq> 0" unfolding fractions_ok_def by metis
  qed
  moreover have "grp_tree gs3 st"
    unfolding gs3_def k'_def st_def
    by (rule grp_tree_erase [where gs = gs2, OF L _ k(1)]) (use grp_okD(4) [OF ok] grp_tree_same [OF s2] in simp)
  moreover have "map_option vdisktime (gs3 x) = map_option vdisktime (?gs x)" if "x \<noteq> a" for x
    using same_groups_field [OF s2, of vdisktime x] that by (simp add: gs3_def)
  moreover have "same_side gs2 gs3"
    unfolding gs3_def by (rule same_side_upd [where gs = gs2, OF k(1)]) (simp add: queue_side_def k'_def)
  with same_side_groups [OF s2] have "same_side ?gs gs3" by (rule same_side_trans)
  ultimately show ?thesis using res kf B3
    by (intro exI [of _ "q\<lparr>grp_service_tree := st, cfqgs := gs3\<rparr>"] exI [of _ k'])
      (simp add: grp_ok_def gs3_def k'_def st_def A_def cfq_rb_erase_inorder [OF L])
qed

text \<open>Choosing the next group moves the origin of the keys; their order survives.\<close>

lemma key_shift:
  assumes "0 < sint d" "sint d \<le> sint (w :: u64)"
  shows "sint (w - d) = sint w - sint d"
proof -
  have b: "sint w < 2 ^ 63" using sint_lt [of w] by simp
  have e: "w - d = of_int (sint w - sint d)" by simp
  show ?thesis unfolding e by (rule sint_of_int_small) (use assms b in linarith)+
qed

lemma get_next_cfqg_ok:
  assumes ok: "grp_ok q" and x: "rb_first (rb (grp_service_tree q)) = Some x"
  defines "k \<equiv> group_key (cfqgs q) (grp_service_tree q)"
  shows "\<exists>st. cfq_get_next_cfqg q = Inr (Some x, q\<lparr>grp_service_tree := st\<rparr>) \<and> rb st = rb (grp_service_tree q) \<and>
     min_vdisktime st = min_vdisktime (grp_service_tree q) + of_int (max 0 (k x)) \<and>
     grp_ok (q\<lparr>grp_service_tree := st\<rparr>)"
proof -
  let ?st = "grp_service_tree q"
  define st1 where "st1 = snd (cfq_rb_first_group ?st)"
  have t: "st_sorted k ?st" "distinct (inorder (rb ?st))" "set (inorder (rb ?st)) = linked (cfqgs q)"
    using grp_okD(4) [OF ok] by (auto simp: grp_tree_def k_def)
  note f = cfq_rb_first_group_ok [OF t(1)]
  have least: "x \<in> set (inorder (rb ?st))" "\<forall>y \<in> set (inorder (rb ?st)). k x \<le> k y"
    using rb_first_min [of k "rb ?st" x] t(1) x by (auto simp: st_sorted_def)
  then obtain g where g: "cfqgs q x = Some g" using t(3) by (auto simp: linked_def)
  have kx: "k x = sint (vdisktime g - min_vdisktime ?st)" by (simp add: k_def group_key_def cfqg_key_def g)
  define st2 where "st2 = st1\<lparr>min_vdisktime := max_vdisktime (min_vdisktime ?st) (vdisktime g)\<rparr>"
  have st1: "leftmost st1 = Some x" "rb st1 = rb ?st" "min_vdisktime st1 = min_vdisktime ?st"
    using f x by (auto simp: st1_def cfq_rb_first_group_def)
  have "rb ?st \<noteq> Leaf" using least(1) by auto
  then have res: "cfq_get_next_cfqg q = Inr (Some x, q\<lparr>grp_service_tree := st2\<rparr>)"
    using f(1) x st1 g by (cases "cfq_rb_first_group ?st") (simp add: cfq_get_next_cfqg_def Let_def update_min_vdisktime_def st2_def st1_def)
  have mv: "min_vdisktime st2 = min_vdisktime ?st + of_int (max 0 (k x))"
    by (simp add: st2_def max_vdisktime_def kx max_def)
  have shift: "group_key (cfqgs q) st2 y = k y - max 0 (k x)" if y: "y \<in> set (inorder (rb ?st))" for y
  proof (cases "0 < k x")
    case True
    from y t(3) obtain h where h: "cfqgs q y = Some h" by (auto simp: linked_def)
    have "vdisktime h - vdisktime g = vdisktime h - min_vdisktime ?st - (vdisktime g - min_vdisktime ?st)" by simp
    moreover have "k x \<le> k y" using least(2) y by blast
    ultimately have "sint (vdisktime h - vdisktime g) = k y - k x"
      using key_shift [of "vdisktime g - min_vdisktime ?st" "vdisktime h - min_vdisktime ?st"] True
      by (simp add: kx k_def group_key_def cfqg_key_def h g)
    with True show ?thesis by (simp add: group_key_def cfqg_key_def h st2_def max_vdisktime_def kx [symmetric])
  next
    case False
    then have "min_vdisktime st2 = min_vdisktime ?st" by (simp add: mv)
    with False show ?thesis by (simp add: k_def group_key_def cfqg_key_def cong: option.case_cong)
  qed
  have keys: "map (group_key (cfqgs q) st2) (inorder (rb ?st)) = map (\<lambda>n. n - max 0 (k x)) (map k (inorder (rb ?st)))"
    using shift by simp
  have "sorted (map (\<lambda>n. n - max 0 (k x)) (map k (inorder (rb ?st))))"
    using t(1) by (simp add: st_sorted_def sorted_iff_nth_mono)
  then have "sorted (map (group_key (cfqgs q) st2) (inorder (rb ?st)))" by (simp only: keys)
  moreover have "rb st2 = rb ?st" "leftmost st2 = rb_first (rb ?st)" using st1(1,2) x by (simp_all add: st2_def)
  ultimately have "st_sorted (group_key (cfqgs q) st2) st2" unfolding st_sorted_def by simp
  then have "grp_tree (cfqgs q) st2" using t(2,3) st1(2) by (simp add: grp_tree_def st2_def)
  then have "grp_ok (q\<lparr>grp_service_tree := st2\<rparr>)" using ok by (simp add: grp_ok_def)
  with res mv st1(2) show ?thesis by (auto simp: st2_def)
qed

lemma group_served_ok:
  fixes c :: cfq_queue
  assumes L: "lib_ok L" and ok: "grp_ok q" and a: "cfqgs q a = Some g" "g_linked g" "0 \<le> nr_sync_queues g"
    and charge: "charge = push_bit 24 (served_charge L now q c g) div ucast (vfraction g)"
  shows "\<exists>q' g'. cfq_group_served L now a c q = Some (Inr q') \<and> grp_ok q' \<and> cfqgs q' a = Some g' \<and>
     g_linked g' \<and> vdisktime g' = vdisktime g + charge \<and> 1 \<le> vfraction g' \<and> vfraction g' \<le> 4096 \<and>
     nr_cfqq g' = nr_cfqq g \<and> q' = q\<lparr>grp_service_tree := grp_service_tree q', cfqgs := cfqgs q'\<rparr> \<and>
     same_side (cfqgs q) (cfqgs q') \<and> linked (cfqgs q') = linked (cfqgs q)"
proof -
  have v: "vfraction g \<noteq> 0" using grp_okD(5) [OF ok] a(1,2) by (auto simp: fractions_ok_def)
  from service_tree_del_ok [OF L ok a(1,2)] obtain q1 g1 where d:
    "cfq_group_service_tree_del L a q = Some (Inr q1)" "grp_ok q1" "cfqgs q1 a = Some g1" "\<not> g_linked g1"
    "vdisktime g1 = vdisktime g" "nr_cfqq g1 = nr_cfqq g" "q1 = q\<lparr>grp_service_tree := grp_service_tree q1, cfqgs := cfqgs q1\<rparr>"
    "same_side (cfqgs q) (cfqgs q1)" "linked (cfqgs q1) = linked (cfqgs q) - {a}" by blast
  define q2 where "q2 = q1\<lparr>cfqgs := (cfqgs q1)(a \<mapsto> g1\<lparr>vdisktime := vdisktime g1 + charge\<rparr>)\<rparr>"
  have ok2: "grp_ok q2"
    unfolding q2_def by (rule grp_ok_upd [OF d(2,3)])
      (simp_all add: weight_room_def grp_tree_unlinked [OF grp_okD(4) [OF d(2)] d(3,4)] d(4))
  have "cfqgs q2 a = Some (g1\<lparr>vdisktime := vdisktime g1 + charge\<rparr>)" "\<not> g_linked (g1\<lparr>vdisktime := vdisktime g1 + charge\<rparr>)"
    by (simp_all add: q2_def d(4))
  from service_tree_add_ok [OF L ok2 this] obtain q3 g3 where e:
    "cfq_group_service_tree_add L a q2 = Some (Inr q3)" "grp_ok q3" "cfqgs q3 a = Some g3" "g_linked g3"
    "1 \<le> vfraction g3" "vfraction g3 \<le> 4096" "vdisktime g3 = vdisktime g1 + charge" "nr_cfqq g3 = nr_cfqq g1"
    "q3 = q2\<lparr>grp_service_tree := grp_service_tree q3, cfqgs := cfqgs q3\<rparr>" "same_side (cfqgs q2) (cfqgs q3)"
    "linked (cfqgs q3) = insert a (linked (cfqgs q2))" by auto
  define g4 where "g4 = save_workload now q3 g3"
  define q4 where "q4 = q3\<lparr>cfqgs := (cfqgs q3)(a \<mapsto> g4)\<rparr>"
  have g4: "g_linked g4 = g_linked g3" "vfraction g4 = vfraction g3" "vdisktime g4 = vdisktime g3"
    "nr_cfqq g4 = nr_cfqq g3" "gparent g4 = gparent g3" "weight g4 = weight g3" "leaf_weight g4 = leaf_weight g3"
    "nr_active g4 = nr_active g3" "children_weight g4 = children_weight g3" "weight_room g4 = weight_room g3"
    by (simp_all add: g4_def save_workload_def weight_room_def)
  have scale: "cfqg_scale_charge (served_charge L now q c g) (vfraction g) = Inr charge"
    using v by (simp add: cfqg_scale_charge_def CFQ_SERVICE_SHIFT_def charge Let_def)
  have "cfq_group_served L now a c q = Some (Inr q4)"
    using a d(1,3) e(1,3) scale
    by (simp add: cfq_group_served_def Let_def q2_def q4_def g4_def not_less)
  moreover have "grp_ok q4"
    unfolding q4_def by (rule grp_ok_upd [OF e(2,3)])
      (simp_all add: g4 grp_tree_fields [OF grp_okD(4) [OF e(2)] e(3)])
  moreover have "same_side (cfqgs q) (cfqgs q4)"
  proof -
    have "same_side (cfqgs q1) (cfqgs q2)" "same_side (cfqgs q3) (cfqgs q4)"
      using d(3) e(3) by (simp_all add: same_side_def q2_def q4_def g4_def queue_side_def save_workload_def)
    with d(8) e(10) same_side_trans show ?thesis by blast
  qed
  moreover have "linked (cfqgs q4) = linked (cfqgs q)"
  proof -
    have "linked (cfqgs q4) = linked (cfqgs q3)" "linked (cfqgs q2) = linked (cfqgs q1)"
      using e(3,4) g4(1) d(3,4) by (auto simp: linked_def q4_def q2_def)
    moreover have "a \<in> linked (cfqgs q)" using a(1,2) by (simp add: linked_def)
    ultimately show ?thesis using d(9) e(11) by auto
  qed
  moreover have "q4 = q\<lparr>grp_service_tree := grp_service_tree q4, cfqgs := cfqgs q4\<rparr>"
    by (subst q4_def, subst e(9), subst q2_def, subst d(7)) (simp add: q4_def)
  ultimately show ?thesis using d(5,6) e(3-8) g4 by (intro exI [of _ q4] exI [of _ g4]) (auto simp: q4_def)
qed

section \<open>Properties\<close>

text \<open>A library that keeps its trees as lists, and a hierarchy of three groups, one of them on the tree.\<close>

definition lib_example :: kernel_lib where
  "lib_example = \<lparr>rb_insert_color = (\<lambda>t. t),
     rb_erase = (\<lambda>x t. foldr (\<lambda>y t. Node Leaf y t) (remove1 x (inorder t)) Leaf),
     HZ = 250, jiffy_ns = 4000000, nsecs_to_jiffies = (\<lambda>t. unat (t div 4000000))\<rparr>"

lemma lib_example_ok: "lib_ok lib_example"
proof -
  have "inorder (foldr (\<lambda>y t. Node Leaf y t) l Leaf) = (l :: nat list)" for l by (induction l) auto
  then show ?thesis by (simp add: lib_ok_def lib_example_def)
qed

definition blank_group :: cfq_group where
  "blank_group = \<lparr>g_linked = False, vdisktime = 0, nr_active = 0, children_weight = 0, vfraction = 0,
     weight = CFQ_WEIGHT_LEGACY_DFL, new_weight = 0, dev_weight = 0, leaf_weight = CFQ_WEIGHT_LEGACY_DFL,
     new_leaf_weight = 0, dev_leaf_weight = 0,
     nr_cfqq = 0, busy_queues_avg = (\<lambda>_. 0), service_trees = (\<lambda>_ _. CFQ_RB_ROOT 0),
     service_tree_idle = CFQ_RB_ROOT 0, saved_wl_slice = 0, saved_wl_type = ASYNC_WORKLOAD,
     saved_wl_class = BE_WORKLOAD, g_dispatched = 0, g_ttime = no_ttime, async_cfqq = (\<lambda>_ _. None),
     async_idle_cfqq = None, gparent = None, blkg_refs = 1\<rparr>"

definition group_example :: cfq_data where
  "group_example = cfq_example\<lparr>
     cfqgs := [0 \<mapsto> blank_group\<lparr>nr_active := 1, children_weight := 500, vfraction := 0\<rparr>,
               1 \<mapsto> blank_group\<lparr>g_linked := True, nr_active := 1, children_weight := 500, vfraction := 4096,
                      vdisktime := 70, nr_cfqq := 1, gparent := Some 0\<rparr>,
               2 \<mapsto> blank_group\<lparr>gparent := Some 0\<rparr>],
     grp_service_tree := (CFQ_RB_ROOT 0)\<lparr>rb := Node Leaf 1 Leaf, leftmost := Some 1, min_vdisktime := 50\<rparr>\<rparr>"

lemma group_example_groups:
  "cfqgs group_example = [0 \<mapsto> blank_group\<lparr>nr_active := 1, children_weight := 500, vfraction := 0\<rparr>,
     1 \<mapsto> blank_group\<lparr>g_linked := True, nr_active := 1, children_weight := 500, vfraction := 4096,
        vdisktime := 70, nr_cfqq := 1, gparent := Some 0\<rparr>, 2 \<mapsto> blank_group\<lparr>gparent := Some 0\<rparr>]"
  by (simp add: group_example_def)

lemma group_example_ok: "grp_ok group_example"
proof -
  let ?gs = "cfqgs group_example"
  note e = group_example_groups
  have d: "dom ?gs = {0, 1, 2}" by (auto simp: e)
  have c0: "climbs ?gs 0 []" by (simp add: e blank_group_def)
  have "climbs ?gs 1 [0]" "climbs ?gs 2 [0]" using c0 by (simp_all add: e blank_group_def)
  with c0 have f: "forest ?gs" unfolding forest_def d by blast
  have a: "actives ?gs = {0, 1}" by (auto simp: actives_def e blank_group_def)
  have l: "linked ?gs = {1}" by (auto simp: linked_def e blank_group_def)
  have "kids ?gs {0, 1} 0 = {1}" "x \<noteq> 0 \<Longrightarrow> kids ?gs {0, 1} x = {}" for x
    by (auto simp: kids_def e blank_group_def split: if_splits)
  then have "balanced ?gs"
    unfolding balanced_def a l books_def d
    by (auto simp: e blank_group_def weight_at_def CFQ_WEIGHT_LEGACY_DFL_def)
  moreover have "weights_ok ?gs"
    unfolding weights_ok_def d by (auto simp: e blank_group_def weight_room_def CFQ_WEIGHT_LEGACY_DFL_def ran_def)
  moreover have "fractions_ok ?gs" by (auto simp: fractions_ok_def e blank_group_def)
  moreover have "grp_tree ?gs (grp_service_tree group_example)"
    unfolding grp_tree_def l by (simp add: group_example_def st_sorted_def rb_first_def CFQ_RB_ROOT_def)
  ultimately show ?thesis using f by (simp add: grp_ok_def)
qed

text \<open>C32: Activating a group: the loop up the parents ends without a fault, divides by no 0, counts
  the group in every parent that was idle and in none that was active, and leaves it on the tree
  with a fraction between 1 and 4096 (= 100 per cent), the tree sorted and all books balanced.\<close>

theorem group_activation:
  assumes "lib_ok L" "grp_ok q" "cfqgs q a = Some g" "\<not> g_linked g"
  shows "\<exists>q' g'. cfq_group_service_tree_add L a q = Some (Inr q') \<and> grp_ok q' \<and> cfqgs q' a = Some g' \<and>
     g_linked g' \<and> vdisktime g' = vdisktime g \<and> 1 \<le> vfraction g' \<and> vfraction g' \<le> 4096"
  using service_tree_add_ok [OF assms] by blast

theorem group_activation_witness:
  "\<exists>q' g'. cfq_group_service_tree_add lib_example 2 group_example = Some (Inr q') \<and> grp_ok q' \<and>
     cfqgs q' 2 = Some g' \<and> g_linked g' \<and> vdisktime g' = 0 \<and> 1 \<le> vfraction g' \<and> vfraction g' \<le> 4096"
  using group_activation [OF lib_example_ok group_example_ok, of 2 "blank_group\<lparr>gparent := Some 0\<rparr>"]
  by (simp add: group_example_groups blank_group_def)

text \<open>C33: Deactivating a group: the loop up the parents ends, uncounts the group in exactly the
  parents that become idle with it, and takes it off the tree, the other groups keeping their order.\<close>

theorem group_deactivation:
  assumes "lib_ok L" "grp_ok q" "cfqgs q a = Some g" "g_linked g"
  shows "\<exists>q' g'. cfq_group_service_tree_del L a q = Some (Inr q') \<and> grp_ok q' \<and> cfqgs q' a = Some g' \<and>
     \<not> g_linked g' \<and> inorder (rb (grp_service_tree q')) = remove1 a (inorder (rb (grp_service_tree q)))"
  using service_tree_del_ok [OF assms] by blast

theorem group_deactivation_witness:
  "\<exists>q' g'. cfq_group_service_tree_del lib_example 1 group_example = Some (Inr q') \<and> grp_ok q' \<and>
     cfqgs q' 1 = Some g' \<and> \<not> g_linked g' \<and> inorder (rb (grp_service_tree q')) = []"
proof -
  obtain g where "cfqgs group_example 1 = Some g" "g_linked g" by (simp add: group_example_groups)
  from group_deactivation [OF lib_example_ok group_example_ok this] show ?thesis
    by (simp add: group_example_def)
qed

text \<open>C34: Charging a group: a group that was served is put back on the tree, with its virtual disk
  time advanced by the charge (slice time, requests or the allocated slice, by mode) divided by its
  fraction, its fraction recomputed, all books balanced.\<close>

theorem group_charged:
  fixes c :: cfq_queue
  assumes "lib_ok L" "grp_ok q" "cfqgs q a = Some g" "g_linked g" "0 \<le> nr_sync_queues g"
    and "charge = push_bit 24 (served_charge L now q c g) div ucast (vfraction g)"
  shows "\<exists>q' g'. cfq_group_served L now a c q = Some (Inr q') \<and> grp_ok q' \<and> cfqgs q' a = Some g' \<and>
     g_linked g' \<and> vdisktime g' = vdisktime g + charge \<and> 1 \<le> vfraction g' \<and> vfraction g' \<le> 4096"
  using group_served_ok [OF assms] by blast

theorem group_charged_witness:
  "\<exists>q' g'. cfq_group_served lib_example 9000000 1 (cfqq_example\<lparr>slice_start := 1000000, allocated_slice := 20000000\<rparr>)
       group_example = Some (Inr q') \<and> grp_ok q' \<and> cfqgs q' 1 = Some g' \<and> vdisktime g' = 70 + 4096 * 8000000"
proof -
  let ?c = "cfqq_example\<lparr>slice_start := 1000000, allocated_slice := 20000000\<rparr>"
  obtain g where g: "cfqgs group_example 1 = Some g" "g_linked g" "nr_cfqq g = 1" "vfraction g = 4096" "vdisktime g = 70"
      "service_trees g = (\<lambda>_ _. CFQ_RB_ROOT 0)" "service_tree_idle g = CFQ_RB_ROOT 0"
    by (simp add: group_example_groups blank_group_def)
  have n: "0 \<le> nr_sync_queues g"
    by (simp add: nr_sync_queues_def g cfqg_busy_async_queues_def CFQ_RB_ROOT_def)
  have "served_charge lib_example 9000000 group_example ?c g = 8000000"
    by (simp add: served_charge_def iops_mode_def group_example_def cfq_example_def cfqq_example_def has_def
        cfq_cfqq_slice_usage_def Let_def)
  then have "4096 * 8000000 = push_bit 24 (served_charge lib_example 9000000 group_example ?c g) div ucast (vfraction g)"
    by (simp add: g)
  from group_charged [OF lib_example_ok group_example_ok g(1,2) n this] g(5) show ?thesis by auto
qed

text \<open>C35: Choosing the next group: it is one whose key is the smallest, the clock of the tree moves up
  to its virtual disk time and never back, and although every key is measured from that clock and
  computed modulo \<open>2 ^ 64\<close>, the tree stays sorted.\<close>

theorem next_group_least:
  assumes "grp_ok q" "rb_first (rb (grp_service_tree q)) = Some x"
  defines "k \<equiv> group_key (cfqgs q) (grp_service_tree q)"
  shows "\<exists>st. cfq_get_next_cfqg q = Inr (Some x, q\<lparr>grp_service_tree := st\<rparr>) \<and>
     (\<forall>y \<in> linked (cfqgs q). k x \<le> k y) \<and>
     min_vdisktime st = min_vdisktime (grp_service_tree q) + of_int (max 0 (k x)) \<and>
     grp_ok (q\<lparr>grp_service_tree := st\<rparr>)"
proof -
  have "\<forall>y \<in> linked (cfqgs q). k x \<le> k y"
    using rb_first_min [of k _ x, OF _ assms(2)] grp_okD(4) [OF assms(1)]
    by (auto simp: grp_tree_def st_sorted_def k_def)
  with get_next_cfqg_ok [OF assms(1,2)] show ?thesis unfolding k_def by blast
qed

theorem next_group_least_witness:
  "\<exists>st. cfq_get_next_cfqg group_example = Inr (Some 1, group_example\<lparr>grp_service_tree := st\<rparr>) \<and>
     min_vdisktime st = 70"
proof -
  have "rb_first (rb (grp_service_tree group_example)) = Some 1" by (simp add: group_example_def rb_first_def)
  from next_group_least [OF group_example_ok this] show ?thesis
    by (auto simp: group_key_def cfqg_key_def group_example_def CFQ_RB_ROOT_def blank_group_def)
qed

end
