(* ===== verification/Cfq_Queue.thy ===== *)
theory Cfq_Queue
  imports Cfq_Group_Correct ElvCore
begin

text \<open>
  The queues of CFQ: their place on the service trees and on the priority trees, the list of
  busy queues, and the requests of a queue.
\<close>

section \<open>The service trees\<close>

text \<open>The key of a queue that is on a tree.\<close>

definition queue_key :: "(nat \<rightharpoonup> cfq_queue) \<Rightarrow> nat \<Rightarrow> u64" where
  "queue_key cs x = (case cs x of None \<Rightarrow> 0 | Some c \<Rightarrow> rb_key c)"

text \<open>
  The three parts of \<open>cfq_service_tree_add\<close>: the new key, leaving the old tree, and the
  descent in the new one.  The first also resets the residual slice or fills the cache.
\<close>

definition service_tree_key ::
  "u64 \<Rightarrow> nat \<Rightarrow> bool \<Rightarrow> st_name \<Rightarrow> 'a cfq_data_scheme \<Rightarrow> (u64 \<times> 'a cfq_data_scheme) res" where
  "service_tree_key now a add_front n q =
     bindE (deref (cfqqs q) a) (\<lambda>c.
     bindE (get_st n q) (\<lambda>st.
     if cfq_class_idle c then
       (case rb_last (rb st) of
          None \<Rightarrow> Inr (CFQ_IDLE_DELAY + now, q)
        | Some p \<Rightarrow>
            if p = a then Inr (CFQ_IDLE_DELAY + now, q)
            else bindE (deref (cfqqs q) p) (\<lambda>o1. Inr (CFQ_IDLE_DELAY + rb_key o1, q)))
     else if \<not> add_front then
       bindE (deref_ptr (cfqgs q) (cfqg c)) (\<lambda>g.
       bindE (upd_cfqq a (\<lambda>c. c\<lparr>slice_resid := 0\<rparr>) q) (\<lambda>q'.
         Inr (cfq_slice_offset q c g + now - slice_resid c, q')))
     else
       let (first, st) = cfq_rb_first st in
       bindE (set_st n st q) (\<lambda>q.
         case first of
           None \<Rightarrow> Inr (- NSEC_PER_SEC + now, q)
         | Some f \<Rightarrow> bindE (deref (cfqqs q) f) (\<lambda>o1. Inr (- NSEC_PER_SEC + rb_key o1, q)))))"

definition leave_service_tree ::
  "kernel_lib \<Rightarrow> nat \<Rightarrow> 'a cfq_data_scheme \<Rightarrow> 'a cfq_data_scheme res" where
  "leave_service_tree L a q =
     bindE (deref (cfqqs q) a) (\<lambda>c.
     if rb_linked c then
       (case service_tree c of
          None \<Rightarrow> Inl NullDeref
        | Some n \<Rightarrow>
            bindE (get_st n q) (\<lambda>st.
            bindE (set_st n (cfq_rb_erase L a st) q)
              (upd_cfqq a (\<lambda>c. c\<lparr>rb_linked := False, service_tree := None\<rparr>))))
     else Inr q)"

definition enter_service_tree ::
  "kernel_lib \<Rightarrow> u64 \<Rightarrow> st_name \<Rightarrow> nat \<Rightarrow> 'a cfq_data_scheme \<Rightarrow> 'a cfq_data_scheme res" where
  "enter_service_tree L key n a q =
     bindE (get_st n q) (\<lambda>st.
     bindE (set_st n ((cfq_rb_insert L (queue_key (cfqqs q)) key a st)\<lparr>st_count := st_count st + 1\<rparr>) q)
       (upd_cfqq a (\<lambda>c. c\<lparr>rb_key := key, rb_linked := True, service_tree := Some n\<rparr>)))"

definition cfq_service_tree_add ::
  "kernel_lib \<Rightarrow> u64 \<Rightarrow> nat \<Rightarrow> bool \<Rightarrow> 'a cfq_data_scheme \<Rightarrow> 'a cfq_data_scheme res option" where
  "cfq_service_tree_add L now a add_front q =
     bindO (Some (bindE (deref (cfqqs q) a) (\<lambda>c.
       case cfqg c of
         None \<Rightarrow> Inl NullDeref
       | Some g \<Rightarrow>
           let n = st_for g (cfqq_class c) (cfqq_type c) in
           bindE (service_tree_key now a add_front n q) (\<lambda>(key, q).
           if rb_linked c \<and> key = rb_key c \<and> service_tree c = Some n then Inr (None, q)
           else
             bindE (leave_service_tree L a q) (\<lambda>q.
             bindE (enter_service_tree L key n a q) (\<lambda>q.
               Inr (if add_front \<or> rb_linked c then None else Some g, q)))))))
     (\<lambda>(notify, q).
        case notify of None \<Rightarrow> Some (Inr q) | Some g \<Rightarrow> cfq_group_notify_queue_add L g q)"

section \<open>The priority trees\<close>

definition CFQ_PRIO_LISTS :: nat where "CFQ_PRIO_LISTS = IOPRIO_BE_NR"

text \<open>The sector of the next request of a queue, by which the priority trees are sorted.\<close>

definition next_pos :: "'a cfq_data_scheme \<Rightarrow> nat \<Rightarrow> nat res" where
  "next_pos q x =
     bindE (deref (cfqqs q) x) (\<lambda>c. bindE (deref_ptr (rqs q) (next_rq c)) (\<lambda>r. Inr (rq_pos r)))"

text \<open>The queue found, if any, and the last node visited.\<close>

fun cfq_prio_tree_lookup ::
  "(nat \<Rightarrow> nat res) \<Rightarrow> nat \<Rightarrow> nat option \<Rightarrow> nat tree \<Rightarrow> (nat option \<times> nat option) res" where
  "cfq_prio_tree_lookup pos sector parent Leaf = Inr (None, parent)"
| "cfq_prio_tree_lookup pos sector parent (Node l x r) =
     bindE (pos x) (\<lambda>p.
       if sector > p then cfq_prio_tree_lookup pos sector (Some x) r
       else if sector < p then cfq_prio_tree_lookup pos sector (Some x) l
       else Inr (Some x, Some x))"

text \<open>Linking a node at the leaf where an unsuccessful search ended.\<close>

fun prio_link :: "(nat \<Rightarrow> nat res) \<Rightarrow> nat \<Rightarrow> nat \<Rightarrow> nat tree \<Rightarrow> nat tree" where
  "prio_link pos sector a Leaf = Node Leaf a Leaf"
| "prio_link pos sector a (Node l x r) =
     (case pos x of
        Inl _ \<Rightarrow> Node l x r
      | Inr p \<Rightarrow>
          if sector > p then Node l x (prio_link pos sector a r)
          else Node (prio_link pos sector a l) x r)"

definition leave_prio_tree ::
  "kernel_lib \<Rightarrow> nat \<Rightarrow> 'a cfq_data_scheme \<Rightarrow> 'a cfq_data_scheme res" where
  "leave_prio_tree L a q =
     bindE (deref (cfqqs q) a) (\<lambda>c.
     case p_root c of
       None \<Rightarrow> Inr q
     | Some i \<Rightarrow> upd_cfqq a (\<lambda>c. c\<lparr>p_root := None\<rparr>)
         (q\<lparr>prio_trees := (prio_trees q)(i := rb_erase L a (prio_trees q i))\<rparr>))"

definition cfq_prio_tree_add ::
  "kernel_lib \<Rightarrow> nat \<Rightarrow> 'a cfq_data_scheme \<Rightarrow> 'a cfq_data_scheme res" where
  "cfq_prio_tree_add L a q =
     bindE (leave_prio_tree L a q) (\<lambda>q.
     bindE (deref (cfqqs q) a) (\<lambda>c.
     if cfq_class_idle c then Inr q
     else
       (case next_rq c of
          None \<Rightarrow> Inr q
        | Some rq \<Rightarrow>
            let i = org_ioprio c in
            if i \<ge> CFQ_PRIO_LISTS then Inl OutOfBounds
            else
              bindE (deref (rqs q) rq) (\<lambda>r.
              bindE (cfq_prio_tree_lookup (next_pos q) (rq_pos r) None (prio_trees q i)) (\<lambda>(found, parent).
              if found = None
              then upd_cfqq a (\<lambda>c. c\<lparr>p_root := Some i\<rparr>)
                (q\<lparr>prio_trees := (prio_trees q)
                     (i := rb_insert_color L (prio_link (next_pos q) (rq_pos r) a (prio_trees q i)))\<rparr>)
              else Inr q)))))"

section \<open>The list of busy queues\<close>

definition cfq_resort_rr_list ::
  "kernel_lib \<Rightarrow> u64 \<Rightarrow> nat \<Rightarrow> 'a cfq_data_scheme \<Rightarrow> 'a cfq_data_scheme res option" where
  "cfq_resort_rr_list L now a q =
     bindO (Some (deref (cfqqs q) a)) (\<lambda>c.
     if has On_rr c
     then bindO (cfq_service_tree_add L now a False q) (\<lambda>q. Some (cfq_prio_tree_add L a q))
     else Some (Inr q))"

definition cfq_add_cfqq_rr ::
  "kernel_lib \<Rightarrow> u64 \<Rightarrow> nat \<Rightarrow> 'a cfq_data_scheme \<Rightarrow> 'a cfq_data_scheme res option" where
  "cfq_add_cfqq_rr L now a q =
     bindO (Some (deref (cfqqs q) a)) (\<lambda>c.
     if has On_rr c then Some (Inl BugOn)
     else cfq_resort_rr_list L now a
       (q\<lparr>cfqqs := (cfqqs q)(a \<mapsto> mark On_rr c), busy_queues := busy_queues q + 1,
          busy_sync_queues := (if has Sync c then busy_sync_queues q + 1 else busy_sync_queues q)\<rparr>))"

definition cfq_del_cfqq_rr ::
  "kernel_lib \<Rightarrow> nat \<Rightarrow> 'a cfq_data_scheme \<Rightarrow> 'a cfq_data_scheme res option" where
  "cfq_del_cfqq_rr L a q =
     bindO (Some (deref (cfqqs q) a)) (\<lambda>c.
     if \<not> has On_rr c then Some (Inl BugOn)
     else
       bindO (Some (upd_cfqq a (clear On_rr) q)) (\<lambda>q.
       bindO (Some (leave_service_tree L a q)) (\<lambda>q.
       bindO (Some (leave_prio_tree L a q)) (\<lambda>q.
       bindO (case cfqg c of None \<Rightarrow> Some (Inl NullDeref) | Some g \<Rightarrow> cfq_group_notify_queue_del L g q) (\<lambda>q.
       if busy_queues q = 0 then Some (Inl BugOn)
       else Some (Inr (q\<lparr>busy_queues := busy_queues q - 1,
         busy_sync_queues := (if has Sync c then busy_sync_queues q - 1 else busy_sync_queues q)\<rparr>)))))))"

section \<open>The requests of a queue\<close>

text \<open>\<open>RQ_CFQQ\<close>, \<open>RQ_CFQG\<close> and \<open>RQ_CIC\<close> of a request.\<close>

definition RQ_CFQQ :: "nat \<Rightarrow> 'a cfq_data_scheme \<Rightarrow> nat res" where
  "RQ_CFQQ rq q = bindE (deref (rqs q) rq) (\<lambda>r. case priv0 r of None \<Rightarrow> Inl NullDeref | Some a \<Rightarrow> Inr a)"

definition RQ_CFQG :: "nat \<Rightarrow> 'a cfq_data_scheme \<Rightarrow> nat res" where
  "RQ_CFQG rq q = bindE (deref (rqs q) rq) (\<lambda>r. case priv1 r of None \<Rightarrow> Inl NullDeref | Some g \<Rightarrow> Inr g)"

definition RQ_CIC :: "nat \<Rightarrow> 'a cfq_data_scheme \<Rightarrow> nat res" where
  "RQ_CIC rq q = bindE (deref (rqs q) rq) (\<lambda>r. case rq_icq r of None \<Rightarrow> Inl NullDeref | Some i \<Rightarrow> Inr i)"

definition queued_add :: "bool \<Rightarrow> int \<Rightarrow> cfq_queue \<Rightarrow> cfq_queue" where
  "queued_add s n c = c\<lparr>queued := (queued c)(s := queued c s + n)\<rparr>"

definition cfq_del_rq_rb ::
  "kernel_lib \<Rightarrow> nat \<Rightarrow> 'a cfq_data_scheme \<Rightarrow> 'a cfq_data_scheme res" where
  "cfq_del_rq_rb L rq q =
     bindE (RQ_CFQQ rq q) (\<lambda>a.
     bindE (deref (rqs q) rq) (\<lambda>r.
     bindE (deref (cfqqs q) a) (\<lambda>c.
     if queued c (rq_sync r) = 0 then Inl BugOn
     else
       bindE (elv_rb_del (rb_erase L) rq (sort_list c)) (\<lambda>t.
       let c1 = (queued_add (rq_sync r) (- 1) c)\<lparr>sort_list := t\<rparr>;
           q1 = q\<lparr>cfqqs := (cfqqs q)(a \<mapsto> c1)\<rparr> in
       if has On_rr c1 \<and> t = Leaf then leave_prio_tree L a q1 else Inr q1))))"

definition cfq_add_rq_rb ::
  "kernel_lib \<Rightarrow> u64 \<Rightarrow> nat \<Rightarrow> 'a cfq_data_scheme \<Rightarrow> 'a cfq_data_scheme res option" where
  "cfq_add_rq_rb L now rq q =
     bindO (Some (RQ_CFQQ rq q)) (\<lambda>a.
     bindO (Some (deref (rqs q) rq)) (\<lambda>r.
     bindO (Some (upd_cfqq a (\<lambda>c. (queued_add (rq_sync r) 1 c)
       \<lparr>sort_list := elv_rb_add (rb_insert_color L) (pos_of q) rq (sort_list c)\<rparr>) q)) (\<lambda>q.
     bindO (Some (deref (cfqqs q) a)) (\<lambda>c.
     bindO (if \<not> has On_rr c then cfq_add_cfqq_rr L now a q else Some (Inr q)) (\<lambda>q.
     Some (bindE (deref (cfqqs q) a) (\<lambda>c.
       bindE (cfq_choose_req q (next_rq c) (Some rq) (last_position q)) (\<lambda>next.
       bindE (upd_cfqq a (\<lambda>c. c\<lparr>next_rq := next\<rparr>) q) (\<lambda>q.
       bindE (if next_rq c \<noteq> next then cfq_prio_tree_add L a q else Inr q) (\<lambda>q.
         if next = None then Inl BugOn else Inr q))))))))))"

definition cfq_reposition_rq_rb ::
  "kernel_lib \<Rightarrow> u64 \<Rightarrow> nat \<Rightarrow> nat \<Rightarrow> 'a cfq_data_scheme \<Rightarrow> 'a cfq_data_scheme res option" where
  "cfq_reposition_rq_rb L now a rq q =
     bindO (Some (deref (rqs q) rq)) (\<lambda>r.
     bindO (Some (deref (cfqqs q) a)) (\<lambda>c.
     bindO (Some (elv_rb_del (rb_erase L) rq (sort_list c))) (\<lambda>t.
     bindO (Some (upd_cfqq a (\<lambda>c. (queued_add (rq_sync r) (- 1) c)\<lparr>sort_list := t\<rparr>) q))
       (cfq_add_rq_rb L now rq))))"

definition cfq_activate_request :: "nat \<Rightarrow> 'a cfq_data_scheme \<Rightarrow> 'a cfq_data_scheme res" where
  "cfq_activate_request rq q =
     bindE (deref (rqs q) rq) (\<lambda>r.
       Inr (q\<lparr>rq_in_driver := rq_in_driver q + 1, last_position := rq_pos r + rq_sectors r\<rparr>))"

definition cfq_deactivate_request :: "nat \<Rightarrow> 'a cfq_data_scheme \<Rightarrow> 'a cfq_data_scheme" where
  "cfq_deactivate_request rq q = q\<lparr>rq_in_driver := rq_in_driver q - 1\<rparr>"

definition cfq_remove_request ::
  "kernel_lib \<Rightarrow> nat \<Rightarrow> 'a cfq_data_scheme \<Rightarrow> 'a cfq_data_scheme res" where
  "cfq_remove_request L rq q =
     bindE (RQ_CFQQ rq q) (\<lambda>a.
     bindE (deref (rqs q) rq) (\<lambda>r.
     bindE (deref (cfqqs q) a) (\<lambda>c.
     bindE (if next_rq c = Some rq then cfq_find_next_rq c rq q else Inr (next_rq c)) (\<lambda>next.
     bindE (upd_cfqq a (\<lambda>c. c\<lparr>next_rq := next, qfifo := remove1 rq (qfifo c)\<rparr>) q) (\<lambda>q.
     bindE (cfq_del_rq_rb L rq q) (\<lambda>q.
     let q = q\<lparr>rq_queued := rq_queued q - 1\<rparr> in
     if REQ_PRIO \<in> cmd_flags r then upd_cfqq a (\<lambda>c. c\<lparr>prio_pending := prio_pending c - 1\<rparr>) q
     else Inr q))))))"

section \<open>Merging\<close>

text \<open>
  \<open>cic\<close> is what \<open>cfq_cic_lookup\<close> finds for the current process; a bio is given by whether
  it is synchronous and by its end sector.
\<close>

definition cfq_find_rq_fmerge ::
  "nat option \<Rightarrow> bool \<Rightarrow> nat \<Rightarrow> 'a cfq_data_scheme \<Rightarrow> nat option res" where
  "cfq_find_rq_fmerge cic bio_sync bio_end q =
     (case cic of
        None \<Rightarrow> Inr None
      | Some i \<Rightarrow>
          bindE (deref (cics q) i) (\<lambda>ic.
          case cic_cfqq ic bio_sync of
            None \<Rightarrow> Inr None
          | Some a \<Rightarrow> bindE (deref (cfqqs q) a) (\<lambda>c. Inr (elv_rb_find (pos_of q) bio_end (sort_list c)))))"

definition cfq_merge ::
  "'a cfq_data_scheme elv_ops \<Rightarrow> 'a cfq_data_scheme blk_layer \<Rightarrow> nat option \<Rightarrow> bool \<Rightarrow> nat \<Rightarrow> bio \<Rightarrow>
   'a cfq_data_scheme \<Rightarrow> (elv_merge_ret \<times> nat option) res" where
  "cfq_merge ops B cic bio_sync bio_end b q =
     bindE (cfq_find_rq_fmerge cic bio_sync bio_end q) (\<lambda>found.
     case found of
       None \<Rightarrow> Inr (ELEVATOR_NO_MERGE, None)
     | Some rq \<Rightarrow>
         bindE (elv_bio_merge_ok ops B rq b q) (\<lambda>ok.
         Inr (if ok then (ELEVATOR_FRONT_MERGE, Some rq) else (ELEVATOR_NO_MERGE, None))))"

definition cfq_merged_request ::
  "kernel_lib \<Rightarrow> u64 \<Rightarrow> nat \<Rightarrow> elv_merge_ret \<Rightarrow> 'a cfq_data_scheme \<Rightarrow> 'a cfq_data_scheme res option" where
  "cfq_merged_request L now rq type q =
     (if type = ELEVATOR_FRONT_MERGE
      then bindO (Some (RQ_CFQQ rq q)) (\<lambda>a. cfq_reposition_rq_rb L now a rq q)
      else Some (Inr q))"

text \<open>
  \<open>list_move(&rq->queuelist, &next->queuelist)\<close> puts \<open>rq\<close> right behind \<open>next\<close>; a request
  is on a list (\<open>!list_empty(&rq->queuelist)\<close>) when the FIFO of its queue has it.
\<close>

fun list_after :: "nat \<Rightarrow> nat \<Rightarrow> nat list \<Rightarrow> nat list" where
  "list_after x y [] = []"
| "list_after x y (z # l) = (if z = x then z # y # l else z # list_after x y l)"

definition cfq_merged_requests ::
  "kernel_lib \<Rightarrow> nat \<Rightarrow> nat \<Rightarrow> 'a cfq_data_scheme \<Rightarrow> 'a cfq_data_scheme res option" where
  "cfq_merged_requests L rq next q =
     bindO (Some (RQ_CFQQ rq q)) (\<lambda>a.
     bindO (Some (RQ_CFQQ next q)) (\<lambda>b.
     bindO (Some (deref (rqs q) rq)) (\<lambda>r.
     bindO (Some (deref (rqs q) next)) (\<lambda>n.
     bindO (Some (deref (cfqqs q) a)) (\<lambda>c.
     let q = (if rq \<in> set (qfifo c) \<and> next \<in> set (qfifo c) \<and> fifo_time n < fifo_time r \<and> a = b
              then q\<lparr>cfqqs := (cfqqs q)(a \<mapsto> c\<lparr>qfifo := list_after next rq (remove1 rq (qfifo c))\<rparr>),
                     rqs := (rqs q)(rq \<mapsto> r\<lparr>fifo_time := fifo_time n\<rparr>)\<rparr>
              else q) in
     bindO (Some (upd_cfqq a (\<lambda>c. if next_rq c = Some next then c\<lparr>next_rq := Some rq\<rparr> else c) q)) (\<lambda>q.
     bindO (Some (cfq_remove_request L next q)) (\<lambda>q.
     bindO (Some (deref (cfqqs q) b)) (\<lambda>d.
     if has On_rr d \<and> sort_list d = Leaf \<and> Some b \<noteq> active_queue q then cfq_del_cfqq_rr L b q
     else Some (Inr q)))))))))"

definition cfq_allow_bio_merge ::
  "nat option \<Rightarrow> bool \<Rightarrow> nat \<Rightarrow> 'a cfq_data_scheme \<Rightarrow> bool res" where
  "cfq_allow_bio_merge cic bio_sync rq q =
     bindE (deref (rqs q) rq) (\<lambda>r.
     if bio_sync \<and> \<not> rq_sync r then Inr False
     else
       (case cic of
          None \<Rightarrow> Inr False
        | Some i \<Rightarrow> bindE (deref (cics q) i) (\<lambda>ic. Inr (cic_cfqq ic bio_sync = priv0 r))))"

definition cfq_allow_rq_merge :: "nat \<Rightarrow> nat \<Rightarrow> 'a cfq_data_scheme \<Rightarrow> bool res" where
  "cfq_allow_rq_merge rq next q =
     bindE (deref (rqs q) rq) (\<lambda>r. bindE (deref (rqs q) next) (\<lambda>n. Inr (priv0 r = priv0 n)))"

end
