(* ===== verification/Cfq_Select.thy ===== *)
theory Cfq_Select
  imports Cfq_Queue
begin

text \<open>
  Choosing the queue to serve: the active queue and the end of its slice, cooperating
  queues, idling, the class and type of the workload, and \<open>cfq_select_queue\<close>.
\<close>

section \<open>The active queue\<close>

definition cfq_del_timer :: "'a cfq_data_scheme \<Rightarrow> 'a cfq_data_scheme" where
  "cfq_del_timer q = q\<lparr>idle_timer := None\<rparr>"

definition slice_reset :: "u64 \<Rightarrow> cfq_queue \<Rightarrow> cfq_queue" where
  "slice_reset now c =
     c\<lparr>slice_start := 0, dispatch_start := now, allocated_slice := 0, slice_end := 0, slice_dispatch := 0,
       nr_sectors := 0,
       qflags := insert Slice_new (qflags c - {Wait_request, Must_dispatch, Must_alloc_slice, Fifo_expire})\<rparr>"

definition cfq_set_active_queue' ::
  "u64 \<Rightarrow> nat option \<Rightarrow> 'a cfq_data_scheme \<Rightarrow> 'a cfq_data_scheme res" where
  "cfq_set_active_queue' now cfqq q =
     (case cfqq of
        None \<Rightarrow> Inr (q\<lparr>active_queue := None\<rparr>)
      | Some a \<Rightarrow>
          bindE (upd_cfqq a (slice_reset now) q) (\<lambda>q.
            Inr ((cfq_del_timer q)\<lparr>active_queue := Some a\<rparr>)))"

text \<open>Dropping the reference on the I/O context of the last dispatched request.\<close>

definition put_active_cic :: "'a cfq_data_scheme \<Rightarrow> 'a cfq_data_scheme res" where
  "put_active_cic q =
     (case active_cic q of
        None \<Rightarrow> Inr q
      | Some i \<Rightarrow>
          bindE (upd_cic i (\<lambda>ic. ic\<lparr>ioc_refcount := ioc_refcount ic - 1\<rparr>) q) (\<lambda>q.
            Inr (q\<lparr>active_cic := None\<rparr>)))"

text \<open>What is left of the slice of a queue that timed out.\<close>

definition save_resid :: "u64 \<Rightarrow> nat \<Rightarrow> 'a cfq_data_scheme \<Rightarrow> 'a cfq_data_scheme res" where
  "save_resid now a q =
     bindE (deref (cfqqs q) a) (\<lambda>c.
     if has Slice_new c
     then bindE (cfq_scaled_cfqq_slice a q) (\<lambda>(sl, q). upd_cfqq a (\<lambda>c. c\<lparr>slice_resid := sl\<rparr>) q)
     else upd_cfqq a (\<lambda>c. c\<lparr>slice_resid := slice_end c - now\<rparr>) q)"

definition cfq_slice_expired' ::
  "kernel_lib \<Rightarrow> u64 \<Rightarrow> nat \<Rightarrow> bool \<Rightarrow> 'a cfq_data_scheme \<Rightarrow> 'a cfq_data_scheme res option" where
  "cfq_slice_expired' L now a timed_out q =
     bindO (Some (deref (cfqqs q) a)) (\<lambda>c.
     let q = (if has Wait_request c then cfq_del_timer q else q);
         c = clear Wait_busy (clear Wait_request c);
         c = (if has Coop c \<and> CFQQ_SEEKY c then mark Split_coop c else c) in
     bindO (Some (upd_cfqq a (\<lambda>_. c) q)) (\<lambda>q.
     bindO (Some (if timed_out then save_resid now a q else Inr q)) (\<lambda>q.
     bindO (Some (deref (cfqqs q) a)) (\<lambda>c.
     bindO (case cfqg c of None \<Rightarrow> Some (Inl NullDeref) | Some g \<Rightarrow> cfq_group_served L now g c q) (\<lambda>q.
     bindO (if has On_rr c \<and> sort_list c = Leaf then cfq_del_cfqq_rr L a q else Some (Inr q)) (\<lambda>q.
     bindO (cfq_resort_rr_list L now a q) (\<lambda>q.
       Some (put_active_cic (if active_queue q = Some a then q\<lparr>active_queue := None\<rparr> else q)))))))))"

definition cfq_slice_expired ::
  "kernel_lib \<Rightarrow> u64 \<Rightarrow> bool \<Rightarrow> 'a cfq_data_scheme \<Rightarrow> 'a cfq_data_scheme res option" where
  "cfq_slice_expired L now timed_out q =
     (case active_queue q of None \<Rightarrow> Some (Inr q) | Some a \<Rightarrow> cfq_slice_expired' L now a timed_out q)"

definition cfq_get_next_queue :: "'a cfq_data_scheme \<Rightarrow> (nat option \<times> 'a cfq_data_scheme) res" where
  "cfq_get_next_queue q =
     (if rq_queued q = 0 then Inr (None, q)
      else
        (case serving_group q of
           None \<Rightarrow> Inr (None, q)
         | Some g \<Rightarrow>
             let n = st_for g (serving_wl_class q) (serving_wl_type q) in
             bindE (get_st n q) (\<lambda>st.
             if rb st = Leaf then Inr (None, q)
             else
               let (first, st) = cfq_rb_first st in
               bindE (set_st n st q) (\<lambda>q. Inr (first, q)))))"

text \<open>\<open>for_each_cfqg_st\<close> and its loop body.\<close>

definition cfqg_trees :: "nat \<Rightarrow> st_name list" where
  "cfqg_trees g =
     [(g, BE_WORKLOAD, ASYNC_WORKLOAD), (g, BE_WORKLOAD, SYNC_NOIDLE_WORKLOAD), (g, BE_WORKLOAD, SYNC_WORKLOAD),
      (g, RT_WORKLOAD, ASYNC_WORKLOAD), (g, RT_WORKLOAD, SYNC_NOIDLE_WORKLOAD), (g, RT_WORKLOAD, SYNC_WORKLOAD),
      (g, IDLE_WORKLOAD, ASYNC_WORKLOAD)]"

fun first_of_trees ::
  "st_name list \<Rightarrow> 'a cfq_data_scheme \<Rightarrow> (nat option \<times> 'a cfq_data_scheme) res" where
  "first_of_trees [] q = Inr (None, q)"
| "first_of_trees (n # ns) q =
     bindE (get_st n q) (\<lambda>st.
     let (first, st) = cfq_rb_first st in
     bindE (set_st n st q) (\<lambda>q.
       case first of Some a \<Rightarrow> Inr (Some a, q) | None \<Rightarrow> first_of_trees ns q))"

definition cfq_get_next_queue_forced ::
  "'a cfq_data_scheme \<Rightarrow> (nat option \<times> 'a cfq_data_scheme) res" where
  "cfq_get_next_queue_forced q =
     (if rq_queued q = 0 then Inr (None, q)
      else
        bindE (cfq_get_next_cfqg q) (\<lambda>(g, q).
        case g of None \<Rightarrow> Inr (None, q) | Some g \<Rightarrow> first_of_trees (cfqg_trees g) q))"

definition cfq_set_active_queue ::
  "u64 \<Rightarrow> nat option \<Rightarrow> 'a cfq_data_scheme \<Rightarrow> (nat option \<times> 'a cfq_data_scheme) res" where
  "cfq_set_active_queue now cfqq q =
     bindE (case cfqq of None \<Rightarrow> cfq_get_next_queue q | Some _ \<Rightarrow> Inr (cfqq, q)) (\<lambda>(cfqq, q).
     bindE (cfq_set_active_queue' now cfqq q) (\<lambda>q. Inr (cfqq, q)))"

section \<open>Cooperating queues\<close>

definition cfq_dist_from_last :: "'a cfq_data_scheme \<Rightarrow> request \<Rightarrow> nat" where
  "cfq_dist_from_last q r =
     (if rq_pos r \<ge> last_position q then rq_pos r - last_position q else last_position q - rq_pos r)"

definition cfq_rq_close :: "'a cfq_data_scheme \<Rightarrow> request \<Rightarrow> bool" where
  "cfq_rq_close q r \<longleftrightarrow> cfq_dist_from_last q r \<le> CFQQ_CLOSE_THR"

text \<open>The next request of the queue at a node of a priority tree.\<close>

definition node_rq :: "'a cfq_data_scheme \<Rightarrow> nat \<Rightarrow> request res" where
  "node_rq q x = bindE (deref (cfqqs q) x) (\<lambda>c. deref_ptr (rqs q) (next_rq c))"

definition cfqq_close :: "cfq_queue \<Rightarrow> 'a cfq_data_scheme \<Rightarrow> nat option res" where
  "cfqq_close cur q =
     (if org_ioprio cur \<ge> CFQ_PRIO_LISTS then Inl OutOfBounds
      else
        let root = prio_trees q (org_ioprio cur); sector = last_position q in
        if root = Leaf then Inr None
        else
          bindE (cfq_prio_tree_lookup (next_pos q) sector None root) (\<lambda>(found, parent).
          case found of
            Some x \<Rightarrow> Inr (Some x)
          | None \<Rightarrow>
              (case parent of
                 None \<Rightarrow> Inl NullDeref
               | Some p \<Rightarrow>
                   bindE (node_rq q p) (\<lambda>r.
                   if cfq_rq_close q r then Inr (Some p)
                   else
                     (case (if rq_pos r < sector then next_in (inorder root) p
                            else next_in (rev (inorder root)) p) of
                        None \<Rightarrow> Inr None
                      | Some n \<Rightarrow>
                          bindE (node_rq q n) (\<lambda>r.
                            Inr (if cfq_rq_close q r then Some n else None)))))))"

definition cfq_close_cooperator :: "nat \<Rightarrow> 'a cfq_data_scheme \<Rightarrow> nat option res" where
  "cfq_close_cooperator cur q =
     bindE (deref (cfqqs q) cur) (\<lambda>c.
     if cfq_class_idle c then Inr None
     else if \<not> has Sync c then Inr None
     else if CFQQ_SEEKY c then Inr None
     else
       bindE (deref_ptr (cfqgs q) (cfqg c)) (\<lambda>g.
       if nr_cfqq g = 1 then Inr None
       else
         bindE (cfqq_close c q) (\<lambda>found.
         case found of
           None \<Rightarrow> Inr None
         | Some b \<Rightarrow>
             bindE (deref (cfqqs q) b) (\<lambda>d.
             if cfqg c \<noteq> cfqg d then Inr None
             else if \<not> has Sync d then Inr None
             else if CFQQ_SEEKY d then Inr None
             else if cfq_class_rt d \<noteq> cfq_class_rt c then Inr None
             else Inr (Some b)))))"

definition cfqq_process_refs :: "cfq_queue \<Rightarrow> int res" where
  "cfqq_process_refs c =
     (let n = qref c - (allocated c READ + allocated c WRITE) in if n < 0 then Inl BugOn else Inr n)"

text \<open>The walk down the chain of planned merges; \<open>Inr None\<close> is the return on meeting \<open>a\<close> itself.\<close>

partial_function (option) merge_chain ::
  "(nat \<rightharpoonup> cfq_queue) \<Rightarrow> nat \<Rightarrow> nat \<Rightarrow> nat option res option" where
  "merge_chain cs a b =
     (case cs b of
        None \<Rightarrow> Some (Inl UseAfterFree)
      | Some c \<Rightarrow>
          (case new_cfqq c of
             None \<Rightarrow> Some (Inr (Some b))
           | Some n \<Rightarrow> if n = a then Some (Inr None) else merge_chain cs a n))"

definition cfq_setup_merge ::
  "nat \<Rightarrow> nat \<Rightarrow> 'a cfq_data_scheme \<Rightarrow> 'a cfq_data_scheme res option" where
  "cfq_setup_merge a b q =
     bindO (Some (bindE (deref (cfqqs q) b) cfqq_process_refs)) (\<lambda>n.
     if n = 0 then Some (Inr q)
     else
       bindO (merge_chain (cfqqs q) a b) (\<lambda>last.
       case last of
         None \<Rightarrow> Some (Inr q)
       | Some b \<Rightarrow>
           Some (bindE (bindE (deref (cfqqs q) a) cfqq_process_refs) (\<lambda>process_refs.
             bindE (bindE (deref (cfqqs q) b) cfqq_process_refs) (\<lambda>new_process_refs.
             if process_refs = 0 \<or> new_process_refs = 0 then Inr q
             else if new_process_refs \<ge> process_refs
             then bindE (upd_cfqq a (\<lambda>c. c\<lparr>new_cfqq := Some b\<rparr>) q)
               (upd_cfqq b (\<lambda>c. c\<lparr>qref := qref c + process_refs\<rparr>))
             else bindE (upd_cfqq b (\<lambda>c. c\<lparr>new_cfqq := Some a\<rparr>) q)
               (upd_cfqq a (\<lambda>c. c\<lparr>qref := qref c + new_process_refs\<rparr>)))))))"

section \<open>Idling\<close>

definition cfq_should_idle :: "nat \<Rightarrow> 'a cfq_data_scheme \<Rightarrow> bool res" where
  "cfq_should_idle a q =
     bindE (deref (cfqqs q) a) (\<lambda>c.
     case service_tree c of
       None \<Rightarrow> Inl BugOn
     | Some n \<Rightarrow>
         bindE (get_st n q) (\<lambda>st.
         if st_count st = 0 then Inl BugOn
         else if cfq_slice_idle q = 0 then Inr False
         else if cfqq_class c = IDLE_WORKLOAD then Inr False
         else if has Idle_window c \<and> \<not> (nonrot q \<and> hw_tag q \<noteq> 0) then Inr True
         else if st_count st = 1 \<and> has Sync c \<and> \<not> cfq_io_thinktime_big q (st_ttime st) False then Inr True
         else Inr False))"

definition cfq_arm_slice_timer :: "u64 \<Rightarrow> 'a cfq_data_scheme \<Rightarrow> 'a cfq_data_scheme res" where
  "cfq_arm_slice_timer now q =
     (case active_queue q of
        None \<Rightarrow> Inl NullDeref
      | Some a \<Rightarrow>
          if nonrot q \<and> hw_tag q \<noteq> 0 then Inr q
          else
            bindE (deref (cfqqs q) a) (\<lambda>c.
            bindE (cfq_should_idle a q) (\<lambda>idle.
            if \<not> idle \<and> cfq_group_idle q = 0 then Inr q
            else if dispatched c \<noteq> 0 then Inr q
            else
              (case active_cic q of
                 None \<Rightarrow> Inr q
               | Some i \<Rightarrow>
                   bindE (deref (cics q) i) (\<lambda>ic.
                   if ioc_active_ref ic = 0 then Inr q
                   else if sample_valid (ttime_samples (c_ttime ic)) \<and>
                           slice_end c - now < ttime_mean (c_ttime ic) then Inr q
                   else
                     bindE (case service_tree c of None \<Rightarrow> Inl NullDeref | Some n \<Rightarrow> get_st n q) (\<lambda>st.
                     bindE (deref_ptr (cfqgs q) (cfqg c)) (\<lambda>g.
                     if \<not> idle \<and> (nr_cfqq g > 1 \<or> cfq_io_thinktime_big q (st_ttime st) True) then Inr q
                     else
                       bindE (upd_cfqq a (mark Wait_request) q) (\<lambda>q.
                       let sl = (if idle then cfq_slice_idle q else cfq_group_idle q) in
                       Inr (q\<lparr>idle_timer := Some (now + sl)\<rparr>)))))))))"

section \<open>The workload\<close>

text \<open>The loop over the three types, with the best so far and its key.\<close>

fun lowest_key_type ::
  "nat \<Rightarrow> wl_class_t \<Rightarrow> wl_type_t list \<Rightarrow> (wl_type_t \<times> u64 option) \<Rightarrow> 'a cfq_data_scheme \<Rightarrow>
   (wl_type_t \<times> 'a cfq_data_scheme) res" where
  "lowest_key_type g cls [] best q = Inr (fst best, q)"
| "lowest_key_type g cls (i # is) best q =
     bindE (get_st (st_for g cls i) q) (\<lambda>st.
     let (first, st) = cfq_rb_first st in
     bindE (set_st (st_for g cls i) st q) (\<lambda>q.
     case first of
       None \<Rightarrow> lowest_key_type g cls is best q
     | Some a \<Rightarrow>
         bindE (deref (cfqqs q) a) (\<lambda>c.
         lowest_key_type g cls is
           (if (case snd best of None \<Rightarrow> True | Some k \<Rightarrow> rb_key c < k) then (i, Some (rb_key c)) else best) q)))"

definition cfq_choose_wl_type ::
  "nat \<Rightarrow> wl_class_t \<Rightarrow> 'a cfq_data_scheme \<Rightarrow> (wl_type_t \<times> 'a cfq_data_scheme) res" where
  "cfq_choose_wl_type g cls q =
     lowest_key_type g cls [ASYNC_WORKLOAD, SYNC_NOIDLE_WORKLOAD, SYNC_WORKLOAD] (SYNC_NOIDLE_WORKLOAD, None) q"

definition divE :: "u64 \<Rightarrow> u64 \<Rightarrow> u64 res" where
  "divE a b = (if b = 0 then Inl DivByZero else Inr (a div b))"

text \<open>The slice of the workload that was chosen, and its end.\<close>

definition workload_slice ::
  "kernel_lib \<Rightarrow> cfq_group \<Rightarrow> wl_class_t \<Rightarrow> wl_type_t \<Rightarrow> 'a cfq_data_scheme \<Rightarrow> u64 res" where
  "workload_slice L c cls typ q =
     bindE (divE (cfq_group_slice q c * ucast (st_count (tree_of c cls typ)))
       (ucast (max (busy_queues_avg c cls) (cfq_group_busy_queues_wl cls c)))) (\<lambda>slice.
     bindE (if typ = ASYNC_WORKLOAD then
              bindE (divE (cfq_target_latency q * ucast (cfqg_busy_async_queues c)) (of_nat (busy_queues q))) (\<lambda>tmp.
                divE (min slice tmp * cfq_slice q False) (cfq_slice q True))
            else Inr (max slice (2 * cfq_slice_idle q))) (\<lambda>slice.
     Inr (max slice (CFQ_MIN_TT L))))"

definition new_workload ::
  "kernel_lib \<Rightarrow> u64 \<Rightarrow> nat \<Rightarrow> 'a cfq_data_scheme \<Rightarrow> 'a cfq_data_scheme res" where
  "new_workload L now g q =
     bindE (cfq_choose_wl_type g (serving_wl_class q) q) (\<lambda>(typ, q).
     let q = q\<lparr>serving_wl_type := typ\<rparr> in
     bindE (deref (cfqgs q) g) (\<lambda>c.
     bindE (workload_slice L c (serving_wl_class q) typ q) (\<lambda>slice.
       Inr (q\<lparr>workload_expires := now + slice\<rparr>))))"

definition choose_wl_class_and_type ::
  "kernel_lib \<Rightarrow> u64 \<Rightarrow> nat \<Rightarrow> 'a cfq_data_scheme \<Rightarrow> 'a cfq_data_scheme res" where
  "choose_wl_class_and_type L now g q =
     bindE (deref (cfqgs q) g) (\<lambda>c.
     let original_class = serving_wl_class q;
         cls = (if cfq_group_busy_queues_wl RT_WORKLOAD c \<noteq> 0 then RT_WORKLOAD
                else if cfq_group_busy_queues_wl BE_WORKLOAD c \<noteq> 0 then BE_WORKLOAD
                else IDLE_WORKLOAD);
         q = q\<lparr>serving_wl_class := cls\<rparr> in
     if cls = IDLE_WORKLOAD then Inr (q\<lparr>workload_expires := now + jiffy_ns L\<rparr>)
     else if original_class \<noteq> cls then new_workload L now g q
     else if st_count (tree_of c cls (serving_wl_type q)) \<noteq> 0 \<and> \<not> now > workload_expires q then Inr q
     else new_workload L now g q)"

definition cfq_choose_cfqg :: "kernel_lib \<Rightarrow> u64 \<Rightarrow> 'a cfq_data_scheme \<Rightarrow> 'a cfq_data_scheme res" where
  "cfq_choose_cfqg L now q =
     bindE (cfq_get_next_cfqg q) (\<lambda>(next, q).
     let q = q\<lparr>serving_group := next\<rparr> in
     case next of
       None \<Rightarrow> Inl NullDeref
     | Some g \<Rightarrow>
         bindE (deref (cfqgs q) g) (\<lambda>c.
         choose_wl_class_and_type L now g
           (if saved_wl_slice c \<noteq> 0
            then q\<lparr>workload_expires := now + saved_wl_slice c, serving_wl_type := saved_wl_type c,
                   serving_wl_class := saved_wl_class c\<rparr>
            else q\<lparr>workload_expires := now - 1\<rparr>)))"

section \<open>The choice\<close>

text \<open>The labels \<open>new_queue\<close>, \<open>expire\<close> and \<open>check_group_idle\<close>.\<close>

definition select_new_queue ::
  "kernel_lib \<Rightarrow> u64 \<Rightarrow> nat option \<Rightarrow> 'a cfq_data_scheme \<Rightarrow> (nat option \<times> 'a cfq_data_scheme) res" where
  "select_new_queue L now new q =
     bindE (if new = None then cfq_choose_cfqg L now q else Inr q) (cfq_set_active_queue now new)"

definition select_expire ::
  "kernel_lib \<Rightarrow> u64 \<Rightarrow> nat option \<Rightarrow> 'a cfq_data_scheme \<Rightarrow>
   (nat option \<times> 'a cfq_data_scheme) res option" where
  "select_expire L now new q =
     bindO (cfq_slice_expired L now False q) (\<lambda>q. Some (select_new_queue L now new q))"

definition select_group_idle ::
  "kernel_lib \<Rightarrow> u64 \<Rightarrow> nat \<Rightarrow> 'a cfq_data_scheme \<Rightarrow> (nat option \<times> 'a cfq_data_scheme) res option" where
  "select_group_idle L now a q =
     bindO (Some (bindE (deref (cfqqs q) a) (\<lambda>c.
       if cfq_group_idle q = 0 then Inr False
       else bindE (deref_ptr (cfqgs q) (cfqg c)) (\<lambda>g.
         Inr (nr_cfqq g = 1 \<and> g_dispatched g \<noteq> 0 \<and> \<not> cfq_io_thinktime_big q (g_ttime g) True))))) (\<lambda>idle.
     if idle then Some (Inr (None, q)) else select_expire L now None q)"

definition cfq_select_queue ::
  "kernel_lib \<Rightarrow> u64 \<Rightarrow> 'a cfq_data_scheme \<Rightarrow> (nat option \<times> 'a cfq_data_scheme) res option" where
  "cfq_select_queue L now q =
     (case active_queue q of
        None \<Rightarrow> Some (select_new_queue L now None q)
      | Some a \<Rightarrow>
          if rq_queued q = 0 then Some (Inr (None, q))
          else
            bindO (Some (deref (cfqqs q) a)) (\<lambda>c.
            if has Wait_busy c \<and> sort_list c \<noteq> Leaf then select_expire L now None q
            else if cfq_slice_used now c \<and> \<not> has Must_dispatch c then
              bindO (Some (bindE (deref_ptr (cfqgs q) (cfqg c)) (\<lambda>g.
                if nr_cfqq g = 1 \<and> sort_list c = Leaf \<and> dispatched c \<noteq> 0 then cfq_should_idle a q
                else Inr False))) (\<lambda>idle.
              if idle then Some (Inr (None, q)) else select_group_idle L now a q)
            else if sort_list c \<noteq> Leaf then Some (Inr (Some a, q))
            else
              bindO (Some (cfq_close_cooperator a q)) (\<lambda>new.
              case new of
                Some b \<Rightarrow>
                  bindO (if new_cfqq c = None then cfq_setup_merge a b q else Some (Inr q))
                    (select_expire L now new)
              | None \<Rightarrow>
                  if idle_timer q \<noteq> None then Some (Inr (None, q))
                  else
                    bindO (Some (if CFQQ_SEEKY c \<and> has Idle_window c \<and>
                                   (has Slice_new c \<or> slice_end c - now > now - slice_start c)
                                 then upd_cfqq a (\<lambda>c. clear Idle_window (clear Deep c)) q else Inr q)) (\<lambda>q.
                    bindO (Some (if dispatched c \<noteq> 0 then cfq_should_idle a q else Inr False)) (\<lambda>idle.
                    if idle then Some (Inr (None, q)) else select_group_idle L now a q)))))"

end
