(* ===== verification/Cfq_Dispatch.thy ===== *)
theory Cfq_Dispatch
  imports Cfq_Select
begin

text \<open>
  Dispatching: moving a request to the dispatch list, the FIFO, the depth limits, forced
  dispatch and \<open>cfq_dispatch_requests\<close>.
\<close>

section \<open>One request\<close>

definition cfq_dispatch_insert ::
  "kernel_lib \<Rightarrow> nat \<Rightarrow> 'a cfq_data_scheme \<Rightarrow> 'a cfq_data_scheme res" where
  "cfq_dispatch_insert L rq q =
     bindE (RQ_CFQQ rq q) (\<lambda>a.
     bindE (deref (cfqqs q) a) (\<lambda>c.
     bindE (cfq_find_next_rq c rq q) (\<lambda>next.
     bindE (upd_cfqq a (\<lambda>c. c\<lparr>next_rq := next\<rparr>) q) (\<lambda>q.
     bindE (cfq_remove_request L rq q) (\<lambda>q.
     bindE (upd_cfqq a (\<lambda>c. c\<lparr>dispatched := dispatched c + 1\<rparr>) q) (\<lambda>q.
     bindE (RQ_CFQG rq q) (\<lambda>g.
     bindE (upd_cfqg g (\<lambda>c. c\<lparr>g_dispatched := g_dispatched c + 1\<rparr>) q) (\<lambda>q.
     bindE (elv_dispatch_sort rq q) (\<lambda>q.
     bindE (deref (rqs q) rq) (\<lambda>r.
     bindE (upd_cfqq a (\<lambda>c. c\<lparr>nr_sectors := nr_sectors c + rq_sectors r\<rparr>) q) (\<lambda>q.
       Inr (q\<lparr>rq_in_flight := (rq_in_flight q)(has Sync c := rq_in_flight q (has Sync c) + 1)\<rparr>))))))))))))"

text \<open>The expired request at the head of the FIFO, looked for once in a slice.\<close>

definition cfq_check_fifo ::
  "u64 \<Rightarrow> nat \<Rightarrow> 'a cfq_data_scheme \<Rightarrow> (nat option \<times> 'a cfq_data_scheme) res" where
  "cfq_check_fifo now a q =
     bindE (deref (cfqqs q) a) (\<lambda>c.
     if has Fifo_expire c then Inr (None, q)
     else
       bindE (upd_cfqq a (mark Fifo_expire) q) (\<lambda>q.
       case qfifo c of
         [] \<Rightarrow> Inr (None, q)
       | rq # _ \<Rightarrow>
           bindE (deref (rqs q) rq) (\<lambda>r.
             Inr (if unat now < fifo_time r then None else Some rq, q))))"

text \<open>The product is one of C's 32-bit \<open>int\<close>.\<close>

definition cfq_prio_to_maxrq :: "'a cfq_data_scheme \<Rightarrow> cfq_queue \<Rightarrow> int" where
  "cfq_prio_to_maxrq q c =
     sint (2 * of_nat (cfq_slice_async_rq q) * (of_nat IOPRIO_BE_NR - of_nat (ioprio c)) :: u32)"

section \<open>How deep a queue may dispatch\<close>

text \<open>
  The limit is an \<open>unsigned int\<close>; \<open>- 1\<close> is the largest one.  \<open>None\<close> refuses the dispatch,
  \<open>Some n\<close> allows it below the depth \<open>n\<close>.
\<close>

definition full_depth :: "u64 \<Rightarrow> cfq_queue \<Rightarrow> 'a cfq_data_scheme \<Rightarrow> u32 option" where
  "full_depth now c q =
     (let max_dispatch = (if cfq_class_idle c then 1 else max (of_nat (cfq_quantum q) div 2) 1) in
      if of_int (dispatched c) \<ge> max_dispatch then
        if cfq_class_idle c then None
        else
          let promote_sync = (has Sync c \<and> busy_sync_queues q = 1) in
          if busy_queues q > 1 \<and> cfq_slice_used_soon now q c \<and> \<not> promote_sync then None
          else if busy_queues q = 1 \<or> promote_sync then Some (- 1)
          else Some (of_nat (cfq_quantum q))
      else Some max_dispatch)"

definition async_depth :: "u64 \<Rightarrow> cfq_queue \<Rightarrow> u32 \<Rightarrow> 'a cfq_data_scheme \<Rightarrow> u32 res" where
  "async_depth now c max_dispatch q =
     (if \<not> has Sync c \<and> cfq_latency q then
        bindE (divE (now - last_delayed_sync q) (cfq_slice q True)) (\<lambda>d.
        let depth = ucast d;
            depth = (if depth = 0 \<and> dispatched c = 0 then 1 else depth) in
        Inr (if depth < max_dispatch then depth else max_dispatch))
      else Inr max_dispatch)"

definition cfq_may_dispatch :: "u64 \<Rightarrow> nat \<Rightarrow> 'a cfq_data_scheme \<Rightarrow> bool res" where
  "cfq_may_dispatch now a q =
     bindE (deref (cfqqs q) a) (\<lambda>c.
     if has Must_dispatch c then Inr True
     else
       bindE (cfq_should_idle a q) (\<lambda>idle.
       if idle \<and> rq_in_flight q False \<noteq> 0 then Inr False
       else if rq_in_flight q True \<noteq> 0 \<and> \<not> has Sync c then Inr False
       else
         (case full_depth now c q of
            None \<Rightarrow> Inr False
          | Some n \<Rightarrow> bindE (async_depth now c n q) (\<lambda>n. Inr (of_int (dispatched c) < n)))))"

definition cfq_dispatch_request ::
  "kernel_lib \<Rightarrow> u64 \<Rightarrow> nat \<Rightarrow> 'a cfq_data_scheme \<Rightarrow> (bool \<times> 'a cfq_data_scheme) res" where
  "cfq_dispatch_request L now a q =
     bindE (deref (cfqqs q) a) (\<lambda>c.
     if sort_list c = Leaf then Inl BugOn
     else
       bindE (cfq_check_fifo now a q) (\<lambda>(rq, q).
       bindE (if rq \<noteq> None then upd_cfqq a (mark Must_dispatch) q else Inr q) (\<lambda>q.
       bindE (cfq_may_dispatch now a q) (\<lambda>may.
       if \<not> may then Inr (False, q)
       else
         (case (if rq = None then next_rq c else rq) of
            None \<Rightarrow> Inl NullDeref
          | Some x \<Rightarrow>
              bindE (cfq_dispatch_insert L x q) (\<lambda>q.
              if active_cic q = None then
                bindE (RQ_CIC x q) (\<lambda>i.
                bindE (upd_cic i (\<lambda>ic. ic\<lparr>ioc_refcount := ioc_refcount ic + 1\<rparr>) q) (\<lambda>q.
                  Inr (True, q\<lparr>active_cic := Some i\<rparr>)))
              else Inr (True, q)))))))"

section \<open>Forced dispatch\<close>

lemma bindO_mono [partial_function_mono]:
  assumes "mono_option B" "\<And>y. mono_option (\<lambda>f. C y f)"
  shows "mono_option (\<lambda>f. bindO (B f) (\<lambda>y. C y f))"
  unfolding bindO_def
proof (rule bind_mono [OF assms(1)])
  fix r :: "fault + 'c"
  show "mono_option (\<lambda>f. case r of Inl e \<Rightarrow> Some (Inl e) | Inr x \<Rightarrow> C x f)"
    by (cases r) (simp_all add: assms(2) monotoneI option.leq_refl)
qed

text \<open>\<open>while (cfqq->next_rq)\<close>, counting; \<open>None\<close> is a loop that does not end.\<close>

partial_function (option) dispatch_all ::
  "kernel_lib \<Rightarrow> nat \<Rightarrow> int \<Rightarrow> 'a cfq_data_scheme \<Rightarrow> (int \<times> 'a cfq_data_scheme) res option" where
  "dispatch_all L a n q =
     bindO (Some (deref (cfqqs q) a)) (\<lambda>c.
     case next_rq c of
       None \<Rightarrow> Some (Inr (n, q))
     | Some rq \<Rightarrow> bindO (Some (cfq_dispatch_insert L rq q)) (\<lambda>q. dispatch_all L a (n + 1) q))"

definition cfq_forced_dispatch_cfqq ::
  "kernel_lib \<Rightarrow> u64 \<Rightarrow> nat \<Rightarrow> 'a cfq_data_scheme \<Rightarrow> (int \<times> 'a cfq_data_scheme) res option" where
  "cfq_forced_dispatch_cfqq L now a q =
     bindO (dispatch_all L a 0 q) (\<lambda>(n, q).
     bindO (Some (deref (cfqqs q) a)) (\<lambda>c.
     if qfifo c \<noteq> [] then Some (Inl BugOn)
     else bindO (cfq_slice_expired' L now a False q) (\<lambda>q. Some (Inr (n, q)))))"

partial_function (option) forced_loop ::
  "kernel_lib \<Rightarrow> u64 \<Rightarrow> int \<Rightarrow> 'a cfq_data_scheme \<Rightarrow> (int \<times> 'a cfq_data_scheme) res option" where
  "forced_loop L now n q =
     bindO (Some (cfq_get_next_queue_forced q)) (\<lambda>p.
     case fst p of
       None \<Rightarrow> Some (Inr (n, snd p))
     | Some a \<Rightarrow>
         bindO (Some (cfq_set_active_queue' now (Some a) (snd p))) (\<lambda>q.
         bindO (cfq_forced_dispatch_cfqq L now a q) (\<lambda>p. forced_loop L now (n + fst p) (snd p))))"

definition cfq_forced_dispatch ::
  "kernel_lib \<Rightarrow> u64 \<Rightarrow> 'a cfq_data_scheme \<Rightarrow> (int \<times> 'a cfq_data_scheme) res option" where
  "cfq_forced_dispatch L now q =
     bindO (cfq_slice_expired L now False q) (\<lambda>q.
     bindO (forced_loop L now 0 q) (\<lambda>(n, q).
       if busy_queues q \<noteq> 0 then Some (Inl BugOn) else Some (Inr (n, q))))"

section \<open>The scheduler's dispatch function\<close>

definition cfq_dispatch_requests ::
  "kernel_lib \<Rightarrow> u64 \<Rightarrow> bool \<Rightarrow> 'a cfq_data_scheme \<Rightarrow> (int \<times> 'a cfq_data_scheme) res option" where
  "cfq_dispatch_requests L now force q =
     (if busy_queues q = 0 then Some (Inr (0, q))
      else if force then cfq_forced_dispatch L now q
      else
        bindO (cfq_select_queue L now q) (\<lambda>(cfqq, q).
        case cfqq of
          None \<Rightarrow> Some (Inr (0, q))
        | Some a \<Rightarrow>
            bindO (Some (cfq_dispatch_request L now a q)) (\<lambda>(ok, q).
            if \<not> ok then Some (Inr (0, q))
            else
              bindO (Some (upd_cfqq a (\<lambda>c. clear Must_dispatch (c\<lparr>slice_dispatch := slice_dispatch c + 1\<rparr>)) q)) (\<lambda>q.
              bindO (Some (deref (cfqqs q) a)) (\<lambda>c.
              bindO (if busy_queues q > 1 \<and>
                        (\<not> has Sync c \<and> slice_dispatch c \<ge> of_int (cfq_prio_to_maxrq q c) \<or> cfq_class_idle c)
                     then bindO (Some (upd_cfqq a (\<lambda>c. c\<lparr>slice_end := now + 1\<rparr>) q)) (cfq_slice_expired L now False)
                     else Some (Inr q)) (\<lambda>q.
                Some (Inr (1, q))))))))"

end
