(* ===== verification/Cfq_Life.thy ===== *)
theory Cfq_Life
  imports Cfq_Dispatch
begin

text \<open>
  The life of a CFQ queue: references, priorities, finding or making the queue of a process,
  queues that merge and split, and the requests' hold on their queue.
\<close>

section \<open>The process and its control group\<close>

text \<open>
  What the code asks of the current task, of the control groups and of the allocator: the
  priority that follows from the nice value, the group of the bio's cgroup on this device
  (\<open>blkg_lookup\<close>) with its serial number, and \<open>kmem_cache_alloc_node\<close>, which finds a free
  address in the store or fails.
\<close>

record cfq_env =
  env_pid :: int
  task_nice_ioprio :: nat
  task_nice_ioclass :: nat
  blkg_lookup :: "nat option"
  css_serial_nr :: nat
  cgroup_is_descendant :: "nat \<Rightarrow> nat \<Rightarrow> bool"
  alloc_cfqq :: "(nat \<rightharpoonup> cfq_queue) \<Rightarrow> nat option"
  page_size :: nat

text \<open>The allocator gives out no address in use.\<close>

definition env_ok :: "cfq_env \<Rightarrow> bool" where
  "env_ok E \<longleftrightarrow> (\<forall>m a. alloc_cfqq E m = Some a \<longrightarrow> m a = None)"

text \<open>The macros of \<open>ioprio.h\<close>.\<close>

definition IOPRIO_PRIO_CLASS :: "nat \<Rightarrow> nat" where "IOPRIO_PRIO_CLASS p = p div 2 ^ 13"
definition IOPRIO_PRIO_DATA :: "nat \<Rightarrow> nat" where "IOPRIO_PRIO_DATA p = p mod 2 ^ 13"
definition ioprio_valid :: "nat \<Rightarrow> bool" where "ioprio_valid p \<longleftrightarrow> IOPRIO_PRIO_CLASS p \<noteq> IOPRIO_CLASS_NONE"

definition cic_set_cfqq :: "nat \<Rightarrow> nat option \<Rightarrow> bool \<Rightarrow> 'a cfq_data_scheme \<Rightarrow> 'a cfq_data_scheme res" where
  "cic_set_cfqq i cfqq is_sync = upd_cic i (\<lambda>ic. ic\<lparr>cic_cfqq := (cic_cfqq ic)(is_sync := cfqq)\<rparr>)"

definition cic_to_cfqq :: "nat \<Rightarrow> bool \<Rightarrow> 'a cfq_data_scheme \<Rightarrow> nat option res" where
  "cic_to_cfqq i is_sync q = bindE (deref (cics q) i) (\<lambda>ic. Inr (cic_cfqq ic is_sync))"

section \<open>References\<close>

definition cfq_put_queue ::
  "kernel_lib \<Rightarrow> u64 \<Rightarrow> nat \<Rightarrow> 'a cfq_data_scheme \<Rightarrow> 'a cfq_data_scheme res option" where
  "cfq_put_queue L now a q =
     bindO (Some (deref (cfqqs q) a)) (\<lambda>c.
     if qref c \<le> 0 then Some (Inl BugOn)
     else
       bindO (Some (upd_cfqq a (\<lambda>c. c\<lparr>qref := qref c - 1\<rparr>) q)) (\<lambda>q.
       if qref c - 1 \<noteq> 0 then Some (Inr q)
       else if rb_first (sort_list c) \<noteq> None then Some (Inl BugOn)
       else if allocated c READ + allocated c WRITE \<noteq> 0 then Some (Inl BugOn)
       else
         bindO (if active_queue q = Some a
                then bindO (cfq_slice_expired' L now a False q) (\<lambda>q. Some (Inr (cfq_schedule_dispatch q)))
                else Some (Inr q)) (\<lambda>q.
         bindO (Some (deref (cfqqs q) a)) (\<lambda>d.
         if has On_rr d then Some (Inl BugOn)
         else
           (case cfqg c of
              None \<Rightarrow> Some (Inl NullDeref)
            | Some g \<Rightarrow> Some (cfqg_put g (q\<lparr>cfqqs := (cfqqs q)(a := None)\<rparr>)))))))"

partial_function (option) put_chain ::
  "kernel_lib \<Rightarrow> u64 \<Rightarrow> nat \<Rightarrow> nat option \<Rightarrow> 'a cfq_data_scheme \<Rightarrow> 'a cfq_data_scheme res option" where
  "put_chain L now a x q =
     (case x of
        None \<Rightarrow> Some (Inr q)
      | Some b \<Rightarrow>
          if b = a then Some (Inr q)
          else
            bindO (Some (deref (cfqqs q) b)) (\<lambda>c.
            bindO (cfq_put_queue L now b q) (\<lambda>q. put_chain L now a (new_cfqq c) q)))"

definition cfq_put_cooperator ::
  "kernel_lib \<Rightarrow> u64 \<Rightarrow> nat \<Rightarrow> 'a cfq_data_scheme \<Rightarrow> 'a cfq_data_scheme res option" where
  "cfq_put_cooperator L now a q =
     bindO (Some (deref (cfqqs q) a)) (\<lambda>c. put_chain L now a (new_cfqq c) q)"

definition cfq_exit_cfqq ::
  "kernel_lib \<Rightarrow> u64 \<Rightarrow> nat \<Rightarrow> 'a cfq_data_scheme \<Rightarrow> 'a cfq_data_scheme res option" where
  "cfq_exit_cfqq L now a q =
     bindO (if active_queue q = Some a
            then bindO (cfq_slice_expired' L now a False q) (\<lambda>q. Some (Inr (cfq_schedule_dispatch q)))
            else Some (Inr q)) (\<lambda>q.
     bindO (cfq_put_cooperator L now a q) (cfq_put_queue L now a))"

definition cfq_init_icq :: "u64 \<Rightarrow> nat \<Rightarrow> 'a cfq_data_scheme \<Rightarrow> 'a cfq_data_scheme res" where
  "cfq_init_icq now i = upd_cic i (\<lambda>ic. ic\<lparr>c_ttime := (c_ttime ic)\<lparr>last_end_request := now\<rparr>\<rparr>)"

text \<open>The step of \<open>cfq_exit_icq\<close> for one of the two queues of the context.\<close>

definition exit_icq_queue ::
  "kernel_lib \<Rightarrow> u64 \<Rightarrow> nat \<Rightarrow> bool \<Rightarrow> 'a cfq_data_scheme \<Rightarrow> 'a cfq_data_scheme res option" where
  "exit_icq_queue L now i is_sync q =
     bindO (Some (cic_to_cfqq i is_sync q)) (\<lambda>x.
     case x of
       None \<Rightarrow> Some (Inr q)
     | Some a \<Rightarrow> bindO (cfq_exit_cfqq L now a q) (\<lambda>q. Some (cic_set_cfqq i None is_sync q)))"

definition cfq_exit_icq ::
  "kernel_lib \<Rightarrow> u64 \<Rightarrow> nat \<Rightarrow> 'a cfq_data_scheme \<Rightarrow> 'a cfq_data_scheme res option" where
  "cfq_exit_icq L now i q = bindO (exit_icq_queue L now i False q) (exit_icq_queue L now i True)"

section \<open>Priorities\<close>

text \<open>The \<open>switch\<close> on the class; an unknown class falls through to the class \<open>NONE\<close>.\<close>

definition prio_data :: "cfq_env \<Rightarrow> nat \<Rightarrow> cfq_queue \<Rightarrow> cfq_queue" where
  "prio_data E prio c =
     (if IOPRIO_PRIO_CLASS prio = IOPRIO_CLASS_RT
      then c\<lparr>ioprio := IOPRIO_PRIO_DATA prio, ioprio_class := IOPRIO_CLASS_RT\<rparr>
      else if IOPRIO_PRIO_CLASS prio = IOPRIO_CLASS_BE
      then c\<lparr>ioprio := IOPRIO_PRIO_DATA prio, ioprio_class := IOPRIO_CLASS_BE\<rparr>
      else if IOPRIO_PRIO_CLASS prio = IOPRIO_CLASS_IDLE
      then clear Idle_window (c\<lparr>ioprio_class := IOPRIO_CLASS_IDLE, ioprio := 7\<rparr>)
      else c\<lparr>ioprio := task_nice_ioprio E, ioprio_class := task_nice_ioclass E\<rparr>)"

definition cfq_init_prio_data ::
  "cfq_env \<Rightarrow> nat \<Rightarrow> nat \<Rightarrow> 'a cfq_data_scheme \<Rightarrow> 'a cfq_data_scheme res" where
  "cfq_init_prio_data E a i q =
     bindE (deref (cfqqs q) a) (\<lambda>c.
     if \<not> has Prio_changed c then Inr q
     else
       bindE (deref (cics q) i) (\<lambda>ic.
       let c = prio_data E (c_ioprio ic) c in
       upd_cfqq a (\<lambda>_. clear Prio_changed (c\<lparr>org_ioprio := ioprio c, org_ioprio_class := ioprio_class c\<rparr>)) q))"

definition cfqq_boost_on_prio :: "bool \<Rightarrow> cfq_queue \<Rightarrow> cfq_queue" where
  "cfqq_boost_on_prio prio c =
     (if \<not> prio then c\<lparr>ioprio_class := org_ioprio_class c, ioprio := org_ioprio c\<rparr>
      else
        let c = (if cfq_class_idle c then c\<lparr>ioprio_class := IOPRIO_CLASS_BE\<rparr> else c) in
        if ioprio c > IOPRIO_NORM then c\<lparr>ioprio := IOPRIO_NORM\<rparr> else c)"

definition ELV_MQUEUE_MUST :: int where "ELV_MQUEUE_MUST = 2"

definition cfq_may_queue' :: "nat \<Rightarrow> 'a cfq_data_scheme \<Rightarrow> (int \<times> 'a cfq_data_scheme) res" where
  "cfq_may_queue' a q =
     bindE (deref (cfqqs q) a) (\<lambda>c.
     if has Wait_request c \<and> \<not> has Must_alloc_slice c
     then bindE (upd_cfqq a (mark Must_alloc_slice) q) (\<lambda>q. Inr (ELV_MQUEUE_MUST, q))
     else Inr (ELV_MQUEUE_MAY, q))"

text \<open>\<open>cic\<close> is the context found for the current task; \<open>sync\<close> is \<open>rw_is_sync\<close>.\<close>

definition cfq_may_queue ::
  "cfq_env \<Rightarrow> nat option \<Rightarrow> bool \<Rightarrow> bool \<Rightarrow> 'a cfq_data_scheme \<Rightarrow> (int \<times> 'a cfq_data_scheme) res" where
  "cfq_may_queue E cic sync prio q =
     (case cic of
        None \<Rightarrow> Inr (ELV_MQUEUE_MAY, q)
      | Some i \<Rightarrow>
          bindE (cic_to_cfqq i sync q) (\<lambda>x.
          case x of
            None \<Rightarrow> Inr (ELV_MQUEUE_MAY, q)
          | Some a \<Rightarrow>
              bindE (cfq_init_prio_data E a i q) (\<lambda>q.
              bindE (upd_cfqq a (cfqq_boost_on_prio prio) q) (cfq_may_queue' a))))"

section \<open>Making a queue\<close>

text \<open>The zeroed memory of a new queue.\<close>

definition zero_cfqq :: cfq_queue where
  "zero_cfqq = \<lparr>qref = 0, qflags = {}, rb_linked = False, rb_key = 0, p_root = None, sort_list = Leaf,
     next_rq = None, queued = (\<lambda>_. 0), allocated = (\<lambda>_. 0), qfifo = [], dispatch_start = 0,
     allocated_slice = 0, slice_dispatch = 0, slice_start = 0, slice_end = 0, slice_resid = 0,
     prio_pending = 0, dispatched = 0, ioprio = 0, org_ioprio = 0, ioprio_class = 0,
     org_ioprio_class = 0, qpid = 0, seek_history = 0, last_request_pos = 0, service_tree = None,
     new_cfqq = None, cfqg = None, nr_sectors = 0\<rparr>"

definition cfq_init_cfqq :: "int \<Rightarrow> bool \<Rightarrow> cfq_queue \<Rightarrow> cfq_queue" where
  "cfq_init_cfqq pid is_sync c =
     (let c = mark Prio_changed (c\<lparr>rb_linked := False, qfifo := [], qref := 0\<rparr>);
          c = (if is_sync then mark Sync (if \<not> cfq_class_idle c then mark Idle_window c else c) else c) in
      c\<lparr>qpid := pid\<rparr>)"

definition cfq_link_cfqq_cfqg :: "nat \<Rightarrow> nat \<Rightarrow> 'a cfq_data_scheme \<Rightarrow> 'a cfq_data_scheme res" where
  "cfq_link_cfqq_cfqg a g q = bindE (upd_cfqq a (\<lambda>c. c\<lparr>cfqg := Some g\<rparr>) q) (cfqg_get g)"

text \<open>The places of a group's asynchronous queues; \<open>Async_prio False\<close> is the row of the class RT.\<close>

datatype async_slot = Async_prio bool nat | Async_idle

definition cfq_async_queue_prio :: "nat \<Rightarrow> nat \<Rightarrow> async_slot res" where
  "cfq_async_queue_prio cls level =
     (if cls = IOPRIO_CLASS_RT
      then (if level < IOPRIO_BE_NR then Inr (Async_prio False level) else Inl OutOfBounds)
      else if cls = IOPRIO_CLASS_NONE then Inr (Async_prio True IOPRIO_NORM)
      else if cls = IOPRIO_CLASS_BE
      then (if level < IOPRIO_BE_NR then Inr (Async_prio True level) else Inl OutOfBounds)
      else if cls = IOPRIO_CLASS_IDLE then Inr Async_idle
      else Inl BugOn)"

definition read_slot :: "async_slot \<Rightarrow> cfq_group \<Rightarrow> nat option" where
  "read_slot s g = (case s of Async_prio be n \<Rightarrow> async_cfqq g be n | Async_idle \<Rightarrow> async_idle_cfqq g)"

definition write_slot :: "async_slot \<Rightarrow> nat \<Rightarrow> cfq_group \<Rightarrow> cfq_group" where
  "write_slot s a g =
     (case s of
        Async_prio be n \<Rightarrow> g\<lparr>async_cfqq := (async_cfqq g)(be := (async_cfqq g be)(n := Some a))\<rparr>
      | Async_idle \<Rightarrow> g\<lparr>async_idle_cfqq := Some a\<rparr>)"

definition get_ref :: "nat \<Rightarrow> 'a cfq_data_scheme \<Rightarrow> (nat \<times> 'a cfq_data_scheme) res" where
  "get_ref a q = bindE (upd_cfqq a (\<lambda>c. c\<lparr>qref := qref c + 1\<rparr>) q) (\<lambda>q. Inr (a, q))"

definition async_slot_of :: "cfq_env \<Rightarrow> bool \<Rightarrow> nat \<Rightarrow> async_slot option res" where
  "async_slot_of E is_sync prio =
     (if is_sync then Inr None
      else
        bindE (if \<not> ioprio_valid prio then cfq_async_queue_prio (task_nice_ioclass E) (task_nice_ioprio E)
               else cfq_async_queue_prio (IOPRIO_PRIO_CLASS prio) (IOPRIO_PRIO_DATA prio)) (\<lambda>s. Inr (Some s)))"

definition new_queue :: "cfq_env \<Rightarrow> bool \<Rightarrow> nat \<Rightarrow> nat \<Rightarrow> async_slot option \<Rightarrow> nat \<Rightarrow> 'a cfq_data_scheme \<Rightarrow>
    'a cfq_data_scheme res" where
  "new_queue E is_sync i g slot a q =
     bindE (cfq_init_prio_data E a i
       (q\<lparr>cfqqs := (cfqqs q)(a \<mapsto> cfq_init_cfqq (env_pid E) is_sync zero_cfqq)\<rparr>)) (\<lambda>q.
     bindE (cfq_link_cfqq_cfqg a g q) (\<lambda>q.
     case slot of
       None \<Rightarrow> Inr q
     | Some s \<Rightarrow> bindE (upd_cfqq a (\<lambda>c. c\<lparr>qref := qref c + 1\<rparr>) q) (upd_cfqg g (write_slot s a))))"

definition cfq_get_queue ::
  "cfq_env \<Rightarrow> bool \<Rightarrow> nat \<Rightarrow> 'a cfq_data_scheme \<Rightarrow> (nat \<times> 'a cfq_data_scheme) res" where
  "cfq_get_queue E is_sync i q =
     bindE (deref (cics q) i) (\<lambda>ic.
     case blkg_lookup E of
       None \<Rightarrow> get_ref (oom_cfqq q) q
     | Some g \<Rightarrow>
         bindE (async_slot_of E is_sync (c_ioprio ic)) (\<lambda>slot.
         bindE (deref (cfqgs q) g) (\<lambda>c.
         case (case slot of None \<Rightarrow> None | Some s \<Rightarrow> read_slot s c) of
           Some a \<Rightarrow> get_ref a q
         | None \<Rightarrow>
             (case alloc_cfqq E (cfqqs q) of
                None \<Rightarrow> get_ref (oom_cfqq q) q
              | Some a \<Rightarrow> bindE (new_queue E is_sync i g slot a q) (get_ref a)))))"

section \<open>Changes of priority and of control group\<close>

definition check_ioprio_changed ::
  "kernel_lib \<Rightarrow> u64 \<Rightarrow> cfq_env \<Rightarrow> nat \<Rightarrow> 'a cfq_data_scheme \<Rightarrow> 'a cfq_data_scheme res option" where
  "check_ioprio_changed L now E i q =
     bindO (Some (deref (cics q) i)) (\<lambda>ic.
     if c_ioprio ic = ioc_ioprio ic then Some (Inr q)
     else
       bindO (case cic_cfqq ic False of
                None \<Rightarrow> Some (Inr q)
              | Some a \<Rightarrow>
                  bindO (cfq_put_queue L now a q) (\<lambda>q.
                  bindO (Some (cfq_get_queue E False i q)) (\<lambda>(b, q). Some (cic_set_cfqq i (Some b) False q)))) (\<lambda>q.
       bindO (Some (cic_to_cfqq i True q)) (\<lambda>x.
       bindO (Some (case x of None \<Rightarrow> Inr q | Some a \<Rightarrow> upd_cfqq a (mark Prio_changed) q)) (\<lambda>q.
         Some (upd_cic i (\<lambda>c. c\<lparr>c_ioprio := ioc_ioprio ic\<rparr>) q)))))"

text \<open>The step of \<open>check_blkcg_changed\<close> for one of the two queues.\<close>

definition drop_cic_queue ::
  "kernel_lib \<Rightarrow> u64 \<Rightarrow> nat \<Rightarrow> bool \<Rightarrow> 'a cfq_data_scheme \<Rightarrow> 'a cfq_data_scheme res option" where
  "drop_cic_queue L now i is_sync q =
     bindO (Some (cic_to_cfqq i is_sync q)) (\<lambda>x.
     case x of
       None \<Rightarrow> Some (Inr q)
     | Some a \<Rightarrow> bindO (Some (cic_set_cfqq i None is_sync q)) (cfq_put_queue L now a))"

definition check_blkcg_changed ::
  "kernel_lib \<Rightarrow> u64 \<Rightarrow> cfq_env \<Rightarrow> nat \<Rightarrow> 'a cfq_data_scheme \<Rightarrow> 'a cfq_data_scheme res option" where
  "check_blkcg_changed L now E i q =
     bindO (Some (deref (cics q) i)) (\<lambda>ic.
     if blkcg_serial_nr ic = css_serial_nr E then Some (Inr q)
     else
       bindO (drop_cic_queue L now i False q) (\<lambda>q.
       bindO (drop_cic_queue L now i True q) (\<lambda>q.
         Some (upd_cic i (\<lambda>c. c\<lparr>blkcg_serial_nr := css_serial_nr E\<rparr>) q))))"

section \<open>Merging and splitting queues\<close>

definition cfq_merge_cfqqs ::
  "kernel_lib \<Rightarrow> u64 \<Rightarrow> nat \<Rightarrow> nat \<Rightarrow> 'a cfq_data_scheme \<Rightarrow> (nat option \<times> 'a cfq_data_scheme) res option" where
  "cfq_merge_cfqqs L now i a q =
     bindO (Some (deref (cfqqs q) a)) (\<lambda>c.
     bindO (Some (cic_set_cfqq i (new_cfqq c) True q)) (\<lambda>q.
     bindO (case new_cfqq c of None \<Rightarrow> Some (Inl NullDeref) | Some b \<Rightarrow> Some (upd_cfqq b (mark Coop) q)) (\<lambda>q.
     bindO (cfq_put_queue L now a q) (\<lambda>q.
     bindO (Some (cic_to_cfqq i True q)) (\<lambda>x. Some (Inr (x, q)))))))"

definition split_cfqq ::
  "kernel_lib \<Rightarrow> u64 \<Rightarrow> cfq_env \<Rightarrow> nat \<Rightarrow> nat \<Rightarrow> 'a cfq_data_scheme \<Rightarrow>
   (nat option \<times> 'a cfq_data_scheme) res option" where
  "split_cfqq L now E i a q =
     bindO (Some (deref (cfqqs q) a)) (\<lambda>c.
     bindO (Some (cfqq_process_refs c)) (\<lambda>n.
     if n = 1 then
       bindO (Some (upd_cfqq a (\<lambda>c. clear Split_coop (clear Coop (c\<lparr>qpid := env_pid E\<rparr>))) q)) (\<lambda>q.
         Some (Inr (Some a, q)))
     else
       bindO (Some (cic_set_cfqq i None True q)) (\<lambda>q.
       bindO (cfq_put_cooperator L now a q) (\<lambda>q.
       bindO (cfq_put_queue L now a q) (\<lambda>q. Some (Inr (None, q)))))))"

text \<open>\<open>new_queue:\<close> up to the choice of the queue, with its \<open>goto\<close>.\<close>

partial_function (option) request_queue_of ::
  "kernel_lib \<Rightarrow> u64 \<Rightarrow> cfq_env \<Rightarrow> nat \<Rightarrow> bool \<Rightarrow> 'a cfq_data_scheme \<Rightarrow> (nat \<times> 'a cfq_data_scheme) res option"
  where
  "request_queue_of L now E i is_sync q =
     bindO (Some (cic_to_cfqq i is_sync q)) (\<lambda>x.
     if x = None \<or> x = Some (oom_cfqq q) then
       bindO (case x of None \<Rightarrow> Some (Inr q) | Some a \<Rightarrow> cfq_put_queue L now a q) (\<lambda>q.
       bindO (Some (cfq_get_queue E is_sync i q)) (\<lambda>p.
       bindO (Some (cic_set_cfqq i (Some (fst p)) is_sync (snd p))) (\<lambda>q. Some (Inr (fst p, q)))))
     else
       bindO (Some (deref (cfqqs q) (the x))) (\<lambda>c.
       bindO (if has Coop c \<and> has Split_coop c then split_cfqq L now E i (the x) q else Some (Inr (x, q))) (\<lambda>p.
       case fst p of
         None \<Rightarrow> request_queue_of L now E i is_sync (snd p)
       | Some a \<Rightarrow>
           bindO (Some (deref (cfqqs (snd p)) a)) (\<lambda>c.
           if new_cfqq c \<noteq> None then
             bindO (cfq_merge_cfqqs L now i a (snd p)) (\<lambda>p.
             case fst p of None \<Rightarrow> Some (Inl NullDeref) | Some b \<Rightarrow> Some (Inr (b, snd p)))
           else Some (Inr (a, snd p))))))"

definition allocated_add :: "data_dir \<Rightarrow> int \<Rightarrow> cfq_queue \<Rightarrow> cfq_queue" where
  "allocated_add rw n c = c\<lparr>allocated := (allocated c)(rw := allocated c rw + n)\<rparr>"

definition cfq_set_request ::
  "kernel_lib \<Rightarrow> u64 \<Rightarrow> cfq_env \<Rightarrow> nat \<Rightarrow> 'a cfq_data_scheme \<Rightarrow> (int \<times> 'a cfq_data_scheme) res option" where
  "cfq_set_request L now E rq q =
     bindO (Some (deref (rqs q) rq)) (\<lambda>r.
     bindO (Some (RQ_CIC rq q)) (\<lambda>i.
     bindO (check_ioprio_changed L now E i q) (\<lambda>q.
     bindO (check_blkcg_changed L now E i q) (\<lambda>q.
     bindO (request_queue_of L now E i (rq_sync r) q) (\<lambda>(a, q).
     Some (bindE (upd_cfqq a (\<lambda>c. (allocated_add (rq_dir r) 1 c)\<lparr>qref := qref c + 1\<rparr>) q) (\<lambda>q.
       bindE (deref (cfqqs q) a) (\<lambda>c.
       case cfqg c of
         None \<Rightarrow> Inl NullDeref
       | Some g \<Rightarrow>
           bindE (cfqg_get g q) (\<lambda>q.
           bindE (upd_rq rq (\<lambda>r. r\<lparr>priv0 := Some a, priv1 := Some g\<rparr>) q) (\<lambda>q. Inr (0, q)))))))))))"

definition cfq_put_request ::
  "kernel_lib \<Rightarrow> u64 \<Rightarrow> nat \<Rightarrow> 'a cfq_data_scheme \<Rightarrow> 'a cfq_data_scheme res option" where
  "cfq_put_request L now rq q =
     bindO (Some (deref (rqs q) rq)) (\<lambda>r.
     case priv0 r of
       None \<Rightarrow> Some (Inr q)
     | Some a \<Rightarrow>
         bindO (Some (deref (cfqqs q) a)) (\<lambda>c.
         if allocated c (rq_dir r) = 0 then Some (Inl BugOn)
         else
           bindO (Some (upd_cfqq a (allocated_add (rq_dir r) (- 1)) q)) (\<lambda>q.
           bindO (Some (bindE (RQ_CFQG rq q) (\<lambda>g. cfqg_put g q))) (\<lambda>q.
           bindO (Some (upd_rq rq (\<lambda>r. r\<lparr>priv0 := None, priv1 := None\<rparr>) q)) (cfq_put_queue L now a)))))"

end
