(* ===== verification/Cfq_Enqueue.thy ===== *)
theory Cfq_Enqueue
  imports Cfq_Life
begin

unbundle bit_operations_syntax

text \<open>
  Requests that arrive and complete: think times, seek history, the idle window, preemption,
  the detection of command queueing, completion, the idle timer, and the scheduler's life.
\<close>

section \<open>Think time, seeks and the idle window\<close>

definition cfq_update_io_thinktime' :: "u64 \<Rightarrow> u64 \<Rightarrow> cfq_ttime \<Rightarrow> cfq_ttime res" where
  "cfq_update_io_thinktime' now slice_idle t =
     (let elapsed = min (now - last_end_request t) (2 * slice_idle);
          samples = (7 * ttime_samples t + 256) div 8;
          total = (7 * ttime_total t + 256 * elapsed) div 8 in
      bindE (divE (total + 128) samples) (\<lambda>mean.
        Inr (t\<lparr>ttime_samples := samples, ttime_total := total, ttime_mean := mean\<rparr>)))"

definition cfq_update_io_thinktime ::
  "u64 \<Rightarrow> nat \<Rightarrow> nat \<Rightarrow> 'a cfq_data_scheme \<Rightarrow> 'a cfq_data_scheme res" where
  "cfq_update_io_thinktime now a i q =
     bindE (deref (cfqqs q) a) (\<lambda>c.
     bindE (if has Sync c then
              bindE (deref (cics q) i) (\<lambda>ic.
              bindE (cfq_update_io_thinktime' now (cfq_slice_idle q) (c_ttime ic)) (\<lambda>t.
              bindE (upd_cic i (\<lambda>ic. ic\<lparr>c_ttime := t\<rparr>) q) (\<lambda>q.
              case service_tree c of
                None \<Rightarrow> Inl NullDeref
              | Some n \<Rightarrow>
                  bindE (get_st n q) (\<lambda>st.
                  bindE (cfq_update_io_thinktime' now (cfq_slice_idle q) (st_ttime st)) (\<lambda>t.
                    set_st n (st\<lparr>st_ttime := t\<rparr>) q)))))
            else Inr q) (\<lambda>q.
     bindE (deref_ptr (cfqgs q) (cfqg c)) (\<lambda>g.
     bindE (cfq_update_io_thinktime' now (cfq_group_idle q) (g_ttime g)) (\<lambda>t.
       upd_cfqg (the (cfqg c)) (\<lambda>g. g\<lparr>g_ttime := t\<rparr>) q))))"

definition seek_bit :: "bool \<Rightarrow> request \<Rightarrow> cfq_queue \<Rightarrow> bool" where
  "seek_bit ssd r c =
     (let sdist = (if last_request_pos c \<noteq> 0
                   then (if last_request_pos c < rq_pos r then rq_pos r - last_request_pos c
                         else last_request_pos c - rq_pos r)
                   else 0) in
      if ssd then rq_sectors r < CFQQ_SECT_THR_NONROT else sdist > CFQQ_SEEK_THR)"

definition cfq_update_io_seektime :: "bool \<Rightarrow> request \<Rightarrow> cfq_queue \<Rightarrow> cfq_queue" where
  "cfq_update_io_seektime ssd r c =
     c\<lparr>seek_history := push_bit 1 (seek_history c) OR of_bool (seek_bit ssd r c)\<rparr>"

definition cfq_update_idle_window :: "nat \<Rightarrow> nat \<Rightarrow> 'a cfq_data_scheme \<Rightarrow> 'a cfq_data_scheme res" where
  "cfq_update_idle_window a i q =
     bindE (deref (cfqqs q) a) (\<lambda>c.
     if \<not> has Sync c \<or> cfq_class_idle c then Inr q
     else
       let old_idle = has Idle_window c;
           c = (if queued c False + queued c True \<ge> 4 then mark Deep c else c) in
       bindE (case next_rq c of
                None \<Rightarrow> Inr False
              | Some n \<Rightarrow> bindE (deref (rqs q) n) (\<lambda>r. Inr (REQ_NOIDLE \<in> cmd_flags r))) (\<lambda>noidle.
       bindE (deref (cics q) i) (\<lambda>ic.
       let enable_idle =
             (if noidle then False
              else if ioc_active_ref ic = 0 \<or> cfq_slice_idle q = 0 \<or> \<not> has Deep c \<and> CFQQ_SEEKY c then False
              else if sample_valid (ttime_samples (c_ttime ic))
              then \<not> ttime_mean (c_ttime ic) > cfq_slice_idle q
              else old_idle) in
       upd_cfqq a (\<lambda>_. if old_idle \<noteq> enable_idle
                       then (if enable_idle then mark Idle_window c else clear Idle_window c) else c) q)))"

section \<open>Preemption\<close>

definition cfq_should_preempt ::
  "u64 \<Rightarrow> cfq_env \<Rightarrow> nat \<Rightarrow> request \<Rightarrow> 'a cfq_data_scheme \<Rightarrow> bool res" where
  "cfq_should_preempt now E b r q =
     (case active_queue q of
        None \<Rightarrow> Inr False
      | Some a \<Rightarrow>
          bindE (deref (cfqqs q) a) (\<lambda>c.
          bindE (deref (cfqqs q) b) (\<lambda>new.
          if cfq_class_idle new then Inr False
          else if cfq_class_idle c then Inr True
          else if cfq_class_rt c \<and> \<not> cfq_class_rt new then Inr False
          else if rq_sync r \<and> \<not> has Sync c \<and> \<not> has Must_dispatch c then Inr True
          else
            (case (cfqg c, cfqg new) of
               (Some g, Some h) \<Rightarrow>
                 if \<not> cgroup_is_descendant E g h then Inr False
                 else if cfq_slice_used now c then Inr True
                 else if cfq_class_rt new \<and> \<not> cfq_class_rt c then Inr True
                 else if serving_wl_type q = SYNC_NOIDLE_WORKLOAD \<and>
                         cfqq_type new = SYNC_NOIDLE_WORKLOAD \<and> sort_list c = Leaf then Inr True
                 else if REQ_PRIO \<in> cmd_flags r \<and> prio_pending c = 0 then Inr True
                 else
                   bindE (if sort_list c = Leaf then cfq_should_idle a q else Inr True) (\<lambda>idle.
                   if \<not> idle then Inr True
                   else if active_cic q = None \<or> \<not> has Wait_request c then Inr False
                   else Inr (cfq_rq_close q r))
             | _ \<Rightarrow> Inl NullDeref))))"

definition cfq_preempt_queue ::
  "kernel_lib \<Rightarrow> u64 \<Rightarrow> nat \<Rightarrow> 'a cfq_data_scheme \<Rightarrow> 'a cfq_data_scheme res option" where
  "cfq_preempt_queue L now b q =
     bindO (Some (deref_ptr (cfqqs q) (active_queue q))) (\<lambda>c.
     let old_type = cfqq_type c in
     bindO (cfq_slice_expired L now True q) (\<lambda>q.
     bindO (Some (deref (cfqqs q) b)) (\<lambda>new.
     bindO (Some (if old_type \<noteq> cfqq_type new then
                    (case cfqg new of
                       None \<Rightarrow> Inl NullDeref
                     | Some g \<Rightarrow> upd_cfqg g (\<lambda>g. g\<lparr>saved_wl_slice := 0\<rparr>) q)
                  else Inr q)) (\<lambda>q.
     if \<not> has On_rr new then Some (Inl BugOn)
     else
       bindO (cfq_service_tree_add L now b True q) (\<lambda>q.
         Some (upd_cfqq b (\<lambda>c. mark Slice_new (c\<lparr>slice_end := 0\<rparr>)) q))))))"

section \<open>Arrival\<close>

definition blk_rq_bytes :: "request \<Rightarrow> nat" where
  "blk_rq_bytes r = rq_sectors r * 512"

definition cfq_rq_enqueued ::
  "kernel_lib \<Rightarrow> u64 \<Rightarrow> cfq_env \<Rightarrow> nat \<Rightarrow> nat \<Rightarrow> 'a cfq_data_scheme \<Rightarrow> 'a cfq_data_scheme res option" where
  "cfq_rq_enqueued L now E a rq q =
     bindO (Some (RQ_CIC rq q)) (\<lambda>i.
     bindO (Some (deref (rqs q) rq)) (\<lambda>r.
     bindO (Some (bindE
       (upd_cfqq a (\<lambda>c. if REQ_PRIO \<in> cmd_flags r then c\<lparr>prio_pending := prio_pending c + 1\<rparr> else c)
         (q\<lparr>rq_queued := rq_queued q + 1\<rparr>)) (\<lambda>q.
       bindE (cfq_update_io_thinktime now a i q) (\<lambda>q.
       bindE (upd_cfqq a (cfq_update_io_seektime (nonrot q) r) q) (\<lambda>q.
       bindE (cfq_update_idle_window a i q)
         (upd_cfqq a (\<lambda>c. c\<lparr>last_request_pos := rq_pos r + rq_sectors r\<rparr>))))))) (\<lambda>q.
     bindO (Some (deref (cfqqs q) a)) (\<lambda>c.
     if active_queue q = Some a then
       (if has Wait_request c then
          (if blk_rq_bytes r > page_size E \<or> busy_queues q > 1
           then bindO (Some (upd_cfqq a (clear Wait_request) (cfq_del_timer q))) (\<lambda>q. Some (Inr (blk_run_queue q)))
           else Some (upd_cfqq a (mark Must_dispatch) q))
        else Some (Inr q))
     else
       bindO (Some (cfq_should_preempt now E a r q)) (\<lambda>preempt.
       if preempt then bindO (cfq_preempt_queue L now a q) (\<lambda>q. Some (Inr (blk_run_queue q)))
       else Some (Inr q))))))"

definition cfq_insert_request ::
  "kernel_lib \<Rightarrow> u64 \<Rightarrow> cfq_env \<Rightarrow> nat \<Rightarrow> 'a cfq_data_scheme \<Rightarrow> 'a cfq_data_scheme res option" where
  "cfq_insert_request L now E rq q =
     bindO (Some (RQ_CFQQ rq q)) (\<lambda>a.
     bindO (Some (RQ_CIC rq q)) (\<lambda>i.
     bindO (Some (cfq_init_prio_data E a i q)) (\<lambda>q.
     bindO (Some (deref (rqs q) rq)) (\<lambda>r.
     bindO (Some (upd_rq rq (\<lambda>r. r\<lparr>fifo_time := unat (now + cfq_fifo_expire q (rq_sync r))\<rparr>) q)) (\<lambda>q.
     bindO (Some (upd_cfqq a (\<lambda>c. c\<lparr>qfifo := qfifo c @ [rq]\<rparr>) q)) (\<lambda>q.
     bindO (cfq_add_rq_rb L now rq q) (cfq_rq_enqueued L now E a rq)))))))"

section \<open>Completion\<close>

definition cfq_update_hw_tag :: "'a cfq_data_scheme \<Rightarrow> 'a cfq_data_scheme res" where
  "cfq_update_hw_tag q =
     (let q = (if rq_in_driver q > hw_tag_est_depth q then q\<lparr>hw_tag_est_depth := rq_in_driver q\<rparr> else q) in
      if hw_tag q = 1 then Inr q
      else if rq_queued q \<le> CFQ_HW_QUEUE_MIN \<and> rq_in_driver q \<le> CFQ_HW_QUEUE_MIN then Inr q
      else
        bindE (case active_queue q of
                 None \<Rightarrow> Inr False
               | Some a \<Rightarrow>
                   bindE (deref (cfqqs q) a) (\<lambda>c.
                   Inr (has Idle_window c \<and> dispatched c + queued c False + queued c True < CFQ_HW_QUEUE_MIN \<and>
                        rq_in_driver q < CFQ_HW_QUEUE_MIN))) (\<lambda>idling.
        if idling then Inr q
        else
          let n = hw_tag_samples q; q = q\<lparr>hw_tag_samples := n + 1\<rparr> in
          if n < 50 then Inr q
          else Inr (q\<lparr>hw_tag := (if hw_tag_est_depth q \<ge> CFQ_HW_QUEUE_MIN then 1 else 0)\<rparr>)))"

definition cfq_should_wait_busy :: "kernel_lib \<Rightarrow> u64 \<Rightarrow> nat \<Rightarrow> 'a cfq_data_scheme \<Rightarrow> bool res" where
  "cfq_should_wait_busy L now a q =
     bindE (deref (cfqqs q) a) (\<lambda>c.
     if sort_list c \<noteq> Leaf then Inr False
     else
       bindE (deref_ptr (cfqgs q) (cfqg c)) (\<lambda>g.
       if nr_cfqq g > 1 then Inr False
       else if cfq_io_thinktime_big q (g_ttime g) True then Inr False
       else if cfq_slice_used now c then Inr True
       else
         bindE (case active_cic q of
                  None \<Rightarrow> Inr False
                | Some i \<Rightarrow>
                    bindE (deref (cics q) i) (\<lambda>ic.
                      Inr (sample_valid (ttime_samples (c_ttime ic)) \<and>
                           slice_end c - now < ttime_mean (c_ttime ic)))) (\<lambda>short.
         Inr (short \<or> slice_end c - now \<le> jiffy_ns L))))"

text \<open>\<open>time_after\<close> of \<open>jiffies.h\<close>: the clock wraps, so the sign of the difference decides.\<close>

definition time_after :: "u64 \<Rightarrow> u64 \<Rightarrow> bool" where
  "time_after a b \<longleftrightarrow> sint (b - a) < 0"

text \<open>
  The part of \<open>cfq_completed_request\<close> for a synchronous request: the end times, and whether
  it took longer than the synchronous expiry time.
\<close>

definition sync_completed ::
  "kernel_lib \<Rightarrow> u64 \<Rightarrow> nat \<Rightarrow> nat \<Rightarrow> nat \<Rightarrow> 'a cfq_data_scheme \<Rightarrow> 'a cfq_data_scheme res" where
  "sync_completed L now jiffies a rq q =
     bindE (RQ_CIC rq q) (\<lambda>i.
     bindE (upd_cic i (\<lambda>ic. ic\<lparr>c_ttime := (c_ttime ic)\<lparr>last_end_request := now\<rparr>\<rparr>) q) (\<lambda>q.
     bindE (deref (cfqqs q) a) (\<lambda>c.
     case (if has On_rr c then service_tree c
           else map_option (\<lambda>g. st_for g (cfqq_class c) (cfqq_type c)) (cfqg c)) of
       None \<Rightarrow> Inl NullDeref
     | Some n \<Rightarrow>
         bindE (get_st n q) (\<lambda>st.
         bindE (set_st n (st\<lparr>st_ttime := (st_ttime st)\<lparr>last_end_request := now\<rparr>\<rparr>) q) (\<lambda>q.
         bindE (deref (rqs q) rq) (\<lambda>r.
         Inr (if \<not> time_after (of_nat (start_time r + nsecs_to_jiffies L (cfq_fifo_expire q True))) (of_nat jiffies)
              then q\<lparr>last_delayed_sync := now\<rparr> else q)))))))"

text \<open>The part for the active queue: its slice begins, is extended, ends or idles.\<close>

definition active_completed ::
  "kernel_lib \<Rightarrow> u64 \<Rightarrow> bool \<Rightarrow> nat \<Rightarrow> 'a cfq_data_scheme \<Rightarrow> 'a cfq_data_scheme res option" where
  "active_completed L now sync a q =
     bindO (Some (deref (cfqqs q) a)) (\<lambda>c.
     let cfqq_empty = (sort_list c = Leaf) in
     bindO (Some (if has Slice_new c
                  then bindE (cfq_set_prio_slice now a q) (upd_cfqq a (clear Slice_new)) else Inr q)) (\<lambda>q.
     bindO (Some (cfq_should_wait_busy L now a q)) (\<lambda>wait.
     bindO (Some (if wait then
                    let extend_sl = (if cfq_slice_idle q = 0 then cfq_group_idle q else cfq_slice_idle q) in
                    upd_cfqq a (\<lambda>c. mark Wait_busy (c\<lparr>slice_end := now + extend_sl\<rparr>)) q
                  else Inr q)) (\<lambda>q.
     bindO (Some (deref (cfqqs q) a)) (\<lambda>c.
     if cfq_slice_used now c \<or> cfq_class_idle c then cfq_slice_expired L now True q
     else if sync \<and> cfqq_empty then
       bindO (Some (cfq_close_cooperator a q)) (\<lambda>co.
         Some (if co = None then cfq_arm_slice_timer now q else Inr q))
     else Some (Inr q))))))"

definition cfq_completed_request ::
  "kernel_lib \<Rightarrow> u64 \<Rightarrow> nat \<Rightarrow> nat \<Rightarrow> 'a cfq_data_scheme \<Rightarrow> 'a cfq_data_scheme res option" where
  "cfq_completed_request L now jiffies rq q =
     bindO (Some (RQ_CFQQ rq q)) (\<lambda>a.
     bindO (Some (deref (rqs q) rq)) (\<lambda>r.
     bindO (Some (cfq_update_hw_tag q)) (\<lambda>q.
     bindO (Some (upd_cfqq a (\<lambda>c. c\<lparr>dispatched := dispatched c - 1\<rparr>)
       (q\<lparr>rq_in_driver := rq_in_driver q - 1\<rparr>))) (\<lambda>q.
     bindO (Some (bindE (RQ_CFQG rq q) (\<lambda>g. upd_cfqg g (\<lambda>c. c\<lparr>g_dispatched := g_dispatched c - 1\<rparr>) q))) (\<lambda>q.
     bindO (Some (deref (cfqqs q) a)) (\<lambda>c.
     let q = q\<lparr>rq_in_flight := (rq_in_flight q)(has Sync c := rq_in_flight q (has Sync c) - 1)\<rparr> in
     bindO (Some (if rq_sync r then sync_completed L now jiffies a rq q else Inr q)) (\<lambda>q.
     bindO (case cfqg c of
              None \<Rightarrow> Some (Inl NullDeref)
            | Some g \<Rightarrow> Some (upd_cfqg g (\<lambda>c. c\<lparr>g_ttime := (g_ttime c)\<lparr>last_end_request := now\<rparr>\<rparr>) q)) (\<lambda>q.
     bindO (if active_queue q = Some a then active_completed L now (rq_sync r) a q else Some (Inr q)) (\<lambda>q.
       Some (Inr (if rq_in_driver q = 0 then cfq_schedule_dispatch q else q)))))))))))"

section \<open>The timer and the work item\<close>

text \<open>\<open>cfq_kick_queue\<close>: the work item runs once for the calls that scheduled it.\<close>

definition cfq_kick_queue :: "'a cfq_data_scheme \<Rightarrow> 'a cfq_data_scheme" where
  "cfq_kick_queue q = blk_run_queue (q\<lparr>unplug_pending := False\<rparr>)"

datatype timer_action = Kick | Continue | ExpireSlice bool

definition timer_action_of :: "u64 \<Rightarrow> 'a cfq_data_scheme \<Rightarrow> (timer_action \<times> 'a cfq_data_scheme) res" where
  "timer_action_of now q =
     (case active_queue q of
        None \<Rightarrow> Inr (ExpireSlice True, q)
      | Some a \<Rightarrow>
          bindE (deref (cfqqs q) a) (\<lambda>c.
          if has Must_dispatch c then Inr (Kick, q)
          else if cfq_slice_used now c then Inr (ExpireSlice False, q)
          else if busy_queues q = 0 then Inr (Continue, q)
          else if sort_list c \<noteq> Leaf then Inr (Kick, q)
          else bindE (upd_cfqq a (clear Deep) q) (\<lambda>q. Inr (ExpireSlice False, q))))"

definition cfq_idle_slice_timer ::
  "kernel_lib \<Rightarrow> u64 \<Rightarrow> 'a cfq_data_scheme \<Rightarrow> 'a cfq_data_scheme res option" where
  "cfq_idle_slice_timer L now q =
     bindO (Some (timer_action_of now (q\<lparr>idle_timer := None\<rparr>))) (\<lambda>(act, q).
     case act of
       Kick \<Rightarrow> Some (Inr (cfq_schedule_dispatch q))
     | Continue \<Rightarrow> Some (Inr q)
     | ExpireSlice timed_out \<Rightarrow>
         bindO (cfq_slice_expired L now timed_out q) (\<lambda>q. Some (Inr (cfq_schedule_dispatch q))))"

definition cfq_shutdown_timer_wq :: "'a cfq_data_scheme \<Rightarrow> 'a cfq_data_scheme" where
  "cfq_shutdown_timer_wq q = q\<lparr>idle_timer := None, unplug_pending := False\<rparr>"

text \<open>
  \<open>deactivate\<close> is \<open>blkcg_deactivate_policy\<close>.  The final \<open>kfree\<close> gives back the device data
  with the embedded fallback queue.
\<close>

definition cfq_exit_queue ::
  "kernel_lib \<Rightarrow> u64 \<Rightarrow> ('a cfq_data_scheme \<Rightarrow> 'a cfq_data_scheme res option) \<Rightarrow> 'a cfq_data_scheme \<Rightarrow>
   'a cfq_data_scheme res option" where
  "cfq_exit_queue L now deactivate q =
     (let q = cfq_shutdown_timer_wq q in
      bindO (case active_queue q of None \<Rightarrow> Some (Inr q) | Some a \<Rightarrow> cfq_slice_expired' L now a False q) (\<lambda>q.
      bindO (deactivate (cfq_shutdown_timer_wq q)) (\<lambda>q.
        Some (Inr (q\<lparr>cfqqs := (cfqqs q)(oom_cfqq q := None), cfqd_freed := True\<rparr>)))))"

section \<open>Setting up\<close>

definition cfq_init_cfqg_base :: "u64 \<Rightarrow> cfq_group \<Rightarrow> cfq_group" where
  "cfq_init_cfqg_base now g =
     g\<lparr>service_trees := (\<lambda>_ _. CFQ_RB_ROOT now), service_tree_idle := CFQ_RB_ROOT now, g_linked := False,
       g_ttime := (g_ttime g)\<lparr>last_end_request := now\<rparr>\<rparr>"

text \<open>The zeroed memory of \<open>kzalloc_node\<close>.\<close>

definition zero_cfqd :: "'a cfq_data_scheme \<Rightarrow> 'a cfq_data_scheme" where
  "zero_cfqd q = q\<lparr>serving_wl_class := BE_WORKLOAD, serving_wl_type := ASYNC_WORKLOAD, workload_expires := 0,
     serving_group := None, busy_queues := 0, busy_sync_queues := 0, rq_in_driver := 0,
     rq_in_flight := (\<lambda>_. 0), rq_queued := 0, hw_tag_est_depth := 0, hw_tag_samples := 0,
     active_queue := None, active_cic := None, last_position := 0\<rparr>"

text \<open>
  \<open>eq\<close> is the elevator object \<open>elevator_alloc\<close> returns, if any, \<open>have_cfqd\<close> says whether the
  allocation of the device data succeeds, \<open>pol\<close> what \<open>blkcg_activate_policy\<close> returns; it has
  made the group \<open>root\<close>, and \<open>oom\<close> is the address of the embedded queue.  The tunables are the
  module parameters with their defaults.
\<close>

definition cfq_init_queue ::
  "u64 \<Rightarrow> nat option \<Rightarrow> bool \<Rightarrow> int \<Rightarrow> nat \<Rightarrow> nat \<Rightarrow> 'a cfq_data_scheme \<Rightarrow> 'a cfq_data_scheme init_result res" where
  "cfq_init_queue now eq have_cfqd pol root oom q =
     (if eq = None then Inr \<lparr>ret = - ENOMEM, eq_released = False, result_queue = q\<rparr>
      else if \<not> have_cfqd then Inr \<lparr>ret = - ENOMEM, eq_released = True, result_queue = q\<rparr>
      else
        let q = q\<lparr>q_elevator := eq\<rparr> in
        if pol \<noteq> 0 then Inr \<lparr>ret = pol, eq_released = True, result_queue = q\<rparr>
        else
        let q = (zero_cfqd q)\<lparr>grp_service_tree := CFQ_RB_ROOT now, root_group := root, prio_trees := (\<lambda>_. Leaf),
                  oom_cfqq := oom, cfqd_freed := False,
                  cfqqs := (cfqqs q)(oom \<mapsto> (cfq_init_cfqq 1 False zero_cfqq)\<lparr>qref := 1\<rparr>)\<rparr> in
        bindE (cfq_link_cfqq_cfqg oom root q) (\<lambda>q.
        bindE (cfqg_put root q) (\<lambda>q.
        Inr \<lparr>ret = 0, eq_released = False, result_queue = q\<lparr>
          idle_timer := None, unplug_pending := False, cfq_quantum := 8,
          cfq_fifo_expire := (\<lambda>s. if s then NSEC_PER_SEC div 8 else NSEC_PER_SEC div 4),
          cfq_back_max := 16 * 1024, cfq_back_penalty := 2,
          cfq_slice := (\<lambda>s. if s then NSEC_PER_SEC div 10 else NSEC_PER_SEC div 25),
          cfq_target_latency := NSEC_PER_SEC * 3 div 10, cfq_slice_async_rq := 2,
          cfq_slice_idle := NSEC_PER_SEC div 125, cfq_group_idle := NSEC_PER_SEC div 125, cfq_latency := True,
          hw_tag := -1, last_delayed_sync := now - NSEC_PER_SEC\<rparr>\<rparr>)))"

definition cfq_registered_queue :: "'a cfq_data_scheme \<Rightarrow> 'a cfq_data_scheme" where
  "cfq_registered_queue q = (if nonrot q then q\<lparr>cfq_slice_idle := 0\<rparr> else q)"

end
