(* ===== verification/Cfq_Control.thy ===== *)
theory Cfq_Control
  imports Cfq_Enqueue
begin

text \<open>
  The settings of CFQ: the tunables in sysfs, as decimal text, and the weights of the control
  groups.
\<close>

section \<open>Decimal text\<close>

text \<open>\<open>sprintf("%u")\<close> and \<open>simple_strtoul(p, &p, 10)\<close>, whose value is cut to an \<open>unsigned int\<close>.\<close>

definition digit_char :: "nat \<Rightarrow> char" where
  "digit_char n = char_of (48 + n)"

fun show_nat :: "nat \<Rightarrow> string" where
  "show_nat n = (if n < 10 then [digit_char n] else show_nat (n div 10) @ [digit_char (n mod 10)])"

declare show_nat.simps [simp del]

definition is_digit :: "char \<Rightarrow> bool" where
  "is_digit c \<longleftrightarrow> 48 \<le> (of_char c :: nat) \<and> (of_char c :: nat) \<le> 57"

fun strtoul :: "nat \<Rightarrow> string \<Rightarrow> nat" where
  "strtoul acc [] = acc"
| "strtoul acc (c # cs) = (if is_digit c then strtoul (acc * 10 + (of_char c - 48)) cs else acc)"

definition cfq_var_show :: "u32 \<Rightarrow> string" where
  "cfq_var_show v = show_nat (unat v) @ [CHR 0x0A]"

definition cfq_var_store :: "string \<Rightarrow> u32" where
  "cfq_var_store page = of_nat (strtoul 0 page)"

lemma of_char_digit [simp]: "n < 10 \<Longrightarrow> (of_char (digit_char n) :: nat) = 48 + n"
  by (simp add: digit_char_def)

lemma is_digit_char [simp]: "n < 10 \<Longrightarrow> is_digit (digit_char n)"
  by (simp add: is_digit_def)

lemma strtoul_show: "strtoul acc (show_nat n @ rest) = strtoul (acc * 10 ^ length (show_nat n) + n) rest"
proof (induction n arbitrary: acc rest rule: show_nat.induct)
  case (1 n)
  show ?case
  proof (cases "n < 10")
    case True
    then show ?thesis by (simp add: show_nat.simps [of n])
  next
    case False
    then show ?thesis using 1 [OF False, of acc "digit_char (n mod 10) # rest"]
      by (simp add: show_nat.simps [of n] algebra_simps)
  qed
qed

section \<open>The tunables\<close>

datatype cfq_attr = Quantum | Fifo_expire_sync | Fifo_expire_async | Back_seek_max | Back_seek_penalty
  | Slice_sync | Slice_sync_us | Slice_async | Slice_async_us | Slice_async_rq | Slice_idle_attr
  | Slice_idle_us | Group_idle | Group_idle_us | Low_latency | Target_latency | Target_latency_us

definition NSEC_PER_MSEC :: u64 where "NSEC_PER_MSEC = 1000000"
definition NSEC_PER_USEC :: u64 where "NSEC_PER_USEC = 1000"

text \<open>\<open>SHOW_FUNCTION\<close> and \<open>USEC_SHOW_FUNCTION\<close>: the variable divided by its unit, cut to 32 bits.\<close>

definition attr_value :: "cfq_attr \<Rightarrow> 'a cfq_data_scheme \<Rightarrow> u64" where
  "attr_value a q =
     (case a of
        Quantum \<Rightarrow> of_nat (cfq_quantum q)
      | Fifo_expire_sync \<Rightarrow> cfq_fifo_expire q True div NSEC_PER_MSEC
      | Fifo_expire_async \<Rightarrow> cfq_fifo_expire q False div NSEC_PER_MSEC
      | Back_seek_max \<Rightarrow> of_nat (cfq_back_max q)
      | Back_seek_penalty \<Rightarrow> of_nat (cfq_back_penalty q)
      | Slice_sync \<Rightarrow> cfq_slice q True div NSEC_PER_MSEC
      | Slice_sync_us \<Rightarrow> cfq_slice q True div NSEC_PER_USEC
      | Slice_async \<Rightarrow> cfq_slice q False div NSEC_PER_MSEC
      | Slice_async_us \<Rightarrow> cfq_slice q False div NSEC_PER_USEC
      | Slice_async_rq \<Rightarrow> of_nat (cfq_slice_async_rq q)
      | Slice_idle_attr \<Rightarrow> cfq_slice_idle q div NSEC_PER_MSEC
      | Slice_idle_us \<Rightarrow> cfq_slice_idle q div NSEC_PER_USEC
      | Group_idle \<Rightarrow> cfq_group_idle q div NSEC_PER_MSEC
      | Group_idle_us \<Rightarrow> cfq_group_idle q div NSEC_PER_USEC
      | Low_latency \<Rightarrow> of_bool (cfq_latency q)
      | Target_latency \<Rightarrow> cfq_target_latency q div NSEC_PER_MSEC
      | Target_latency_us \<Rightarrow> cfq_target_latency q div NSEC_PER_USEC)"

definition cfq_attr_show :: "cfq_attr \<Rightarrow> 'a cfq_data_scheme \<Rightarrow> string" where
  "cfq_attr_show a q = cfq_var_show (ucast (attr_value a q))"

text \<open>\<open>STORE_FUNCTION\<close> and \<open>USEC_STORE_FUNCTION\<close>: the bounds; \<open>UINT_MAX\<close> is \<open>- 1\<close>.\<close>

definition attr_min :: "cfq_attr \<Rightarrow> u32" where
  "attr_min a =
     (if a \<in> {Back_seek_max, Slice_idle_attr, Slice_idle_us, Group_idle, Group_idle_us, Low_latency} then 0 else 1)"

definition attr_max :: "cfq_attr \<Rightarrow> u32" where
  "attr_max a = (if a = Low_latency then 1 else - 1)"

definition clamp_attr :: "cfq_attr \<Rightarrow> u32 \<Rightarrow> u32" where
  "clamp_attr a d = (if d < attr_min a then attr_min a else if d > attr_max a then attr_max a else d)"

definition set_attr :: "cfq_attr \<Rightarrow> u32 \<Rightarrow> 'a cfq_data_scheme \<Rightarrow> 'a cfq_data_scheme" where
  "set_attr a d q =
     (case a of
        Quantum \<Rightarrow> q\<lparr>cfq_quantum := unat d\<rparr>
      | Fifo_expire_sync \<Rightarrow> q\<lparr>cfq_fifo_expire := (cfq_fifo_expire q)(True := ucast d * NSEC_PER_MSEC)\<rparr>
      | Fifo_expire_async \<Rightarrow> q\<lparr>cfq_fifo_expire := (cfq_fifo_expire q)(False := ucast d * NSEC_PER_MSEC)\<rparr>
      | Back_seek_max \<Rightarrow> q\<lparr>cfq_back_max := unat d\<rparr>
      | Back_seek_penalty \<Rightarrow> q\<lparr>cfq_back_penalty := unat d\<rparr>
      | Slice_sync \<Rightarrow> q\<lparr>cfq_slice := (cfq_slice q)(True := ucast d * NSEC_PER_MSEC)\<rparr>
      | Slice_sync_us \<Rightarrow> q\<lparr>cfq_slice := (cfq_slice q)(True := ucast d * NSEC_PER_USEC)\<rparr>
      | Slice_async \<Rightarrow> q\<lparr>cfq_slice := (cfq_slice q)(False := ucast d * NSEC_PER_MSEC)\<rparr>
      | Slice_async_us \<Rightarrow> q\<lparr>cfq_slice := (cfq_slice q)(False := ucast d * NSEC_PER_USEC)\<rparr>
      | Slice_async_rq \<Rightarrow> q\<lparr>cfq_slice_async_rq := unat d\<rparr>
      | Slice_idle_attr \<Rightarrow> q\<lparr>cfq_slice_idle := ucast d * NSEC_PER_MSEC\<rparr>
      | Slice_idle_us \<Rightarrow> q\<lparr>cfq_slice_idle := ucast d * NSEC_PER_USEC\<rparr>
      | Group_idle \<Rightarrow> q\<lparr>cfq_group_idle := ucast d * NSEC_PER_MSEC\<rparr>
      | Group_idle_us \<Rightarrow> q\<lparr>cfq_group_idle := ucast d * NSEC_PER_USEC\<rparr>
      | Low_latency \<Rightarrow> q\<lparr>cfq_latency := (d \<noteq> 0)\<rparr>
      | Target_latency \<Rightarrow> q\<lparr>cfq_target_latency := ucast d * NSEC_PER_MSEC\<rparr>
      | Target_latency_us \<Rightarrow> q\<lparr>cfq_target_latency := ucast d * NSEC_PER_USEC\<rparr>)"

definition cfq_attr_store :: "cfq_attr \<Rightarrow> string \<Rightarrow> 'a cfq_data_scheme \<Rightarrow> nat \<times> 'a cfq_data_scheme" where
  "cfq_attr_store a page q = (length page, set_attr a (clamp_attr a (cfq_var_store page)) q)"

section \<open>Weights\<close>

definition CFQ_WEIGHT_LEGACY_MIN :: nat where "CFQ_WEIGHT_LEGACY_MIN = 10"
definition CFQ_WEIGHT_LEGACY_MAX :: nat where "CFQ_WEIGHT_LEGACY_MAX = 1000"
definition CGROUP_WEIGHT_MIN :: nat where "CGROUP_WEIGHT_MIN = 1"
definition CGROUP_WEIGHT_MAX :: nat where "CGROUP_WEIGHT_MAX = 10000"
definition CGROUP_WEIGHT_DFL :: u32 where "CGROUP_WEIGHT_DFL = 100"
definition ERANGE :: int where "ERANGE = 34"
definition EINVAL' :: int where "EINVAL' = 22"

lemmas weight_limits = CFQ_WEIGHT_LEGACY_MIN_def CFQ_WEIGHT_LEGACY_MAX_def CGROUP_WEIGHT_MIN_def CGROUP_WEIGHT_MAX_def

record cfq_group_data =
  cgd_weight :: u32
  cgd_leaf_weight :: u32

definition cfq_cpd_init :: "bool \<Rightarrow> bool \<Rightarrow> cfq_group_data" where
  "cfq_cpd_init on_dfl is_root =
     (let w = (if on_dfl then CGROUP_WEIGHT_DFL else CFQ_WEIGHT_LEGACY_DFL);
          w = (if is_root then w * 2 else w) in
      \<lparr>cgd_weight = w, cgd_leaf_weight = w\<rparr>)"

definition cfq_pd_init :: "cfq_group_data \<Rightarrow> cfq_group \<Rightarrow> cfq_group" where
  "cfq_pd_init cgd g = g\<lparr>weight := cgd_weight cgd, leaf_weight := cgd_leaf_weight cgd\<rparr>"

definition weight_in_range :: "bool \<Rightarrow> nat \<Rightarrow> bool" where
  "weight_in_range on_dfl v \<longleftrightarrow>
     (if on_dfl then CGROUP_WEIGHT_MIN else CFQ_WEIGHT_LEGACY_MIN) \<le> v \<and>
     v \<le> (if on_dfl then CGROUP_WEIGHT_MAX else CFQ_WEIGHT_LEGACY_MAX)"

text \<open>One group of the loop of \<open>__cfq_set_weight\<close>.\<close>

definition set_pending_weight :: "bool \<Rightarrow> bool \<Rightarrow> cfq_group_data \<Rightarrow> cfq_group \<Rightarrow> cfq_group" where
  "set_pending_weight reset_dev is_leaf cgd g =
     (if \<not> is_leaf then
        let g = (if reset_dev then g\<lparr>dev_weight := 0\<rparr> else g) in
        if dev_weight g = 0 then g\<lparr>new_weight := cgd_weight cgd\<rparr> else g
      else
        let g = (if reset_dev then g\<lparr>dev_leaf_weight := 0\<rparr> else g) in
        if dev_leaf_weight g = 0 then g\<lparr>new_leaf_weight := cgd_leaf_weight cgd\<rparr> else g)"

text \<open>The list of a cgroup's groups, one per device; an entry without this policy is \<open>None\<close>.\<close>

fun set_pending_weights ::
  "bool \<Rightarrow> bool \<Rightarrow> cfq_group_data \<Rightarrow> nat option list \<Rightarrow> 'a cfq_data_scheme \<Rightarrow> 'a cfq_data_scheme res" where
  "set_pending_weights reset_dev is_leaf cgd [] q = Inr q"
| "set_pending_weights reset_dev is_leaf cgd (None # gs) q = set_pending_weights reset_dev is_leaf cgd gs q"
| "set_pending_weights reset_dev is_leaf cgd (Some g # gs) q =
     bindE (upd_cfqg g (set_pending_weight reset_dev is_leaf cgd) q) (set_pending_weights reset_dev is_leaf cgd gs)"

definition cfq_set_weight' ::
  "nat \<Rightarrow> bool \<Rightarrow> bool \<Rightarrow> bool \<Rightarrow> nat option list \<Rightarrow> cfq_group_data option \<Rightarrow> 'a cfq_data_scheme \<Rightarrow>
   (int \<times> cfq_group_data option \<times> 'a cfq_data_scheme) res" where
  "cfq_set_weight' val on_dfl reset_dev is_leaf blkgs cgd q =
     (if \<not> weight_in_range on_dfl val then Inr (- ERANGE, cgd, q)
      else
        (case cgd of
           None \<Rightarrow> Inr (- EINVAL', cgd, q)
         | Some d \<Rightarrow>
             let d = (if \<not> is_leaf then d\<lparr>cgd_weight := of_nat val\<rparr> else d\<lparr>cgd_leaf_weight := of_nat val\<rparr>) in
             bindE (set_pending_weights reset_dev is_leaf d blkgs q) (\<lambda>q. Inr (0, Some d, q))))"

definition cfq_cpd_bind ::
  "bool \<Rightarrow> bool \<Rightarrow> nat option list \<Rightarrow> cfq_group_data option \<Rightarrow> 'a cfq_data_scheme \<Rightarrow>
   (cfq_group_data option \<times> 'a cfq_data_scheme) res" where
  "cfq_cpd_bind on_dfl is_root blkgs cgd q =
     (let w = (if on_dfl then unat CGROUP_WEIGHT_DFL else unat CFQ_WEIGHT_LEGACY_DFL);
          w = (if is_root then w * 2 else w) in
      bindE (cfq_set_weight' w on_dfl True False blkgs cgd q) (\<lambda>(_, cgd, q).
      bindE (cfq_set_weight' w on_dfl True True blkgs cgd q) (\<lambda>(_, cgd, q). Inr (cgd, q))))"

text \<open>
  The text of a per-device weight: a number, \<open>default\<close>, or neither; \<open>prep\<close> is what
  \<open>blkg_conf_prep\<close> returns, with the group \<open>g\<close> it found.
\<close>

datatype weight_text = Weight nat | Default | Garbage

definition cfqg_set_weight_device' ::
  "int \<Rightarrow> nat \<Rightarrow> weight_text \<Rightarrow> nat \<Rightarrow> bool \<Rightarrow> bool \<Rightarrow> cfq_group_data \<Rightarrow> 'a cfq_data_scheme \<Rightarrow>
   (int \<times> 'a cfq_data_scheme) res" where
  "cfqg_set_weight_device' prep g body nbytes on_dfl is_leaf cgd q =
     (if prep \<noteq> 0 then Inr (prep, q)
      else
        (case (case body of Weight v \<Rightarrow> if v = 0 \<and> on_dfl then Inl ERANGE else Inr v
                          | Default \<Rightarrow> Inr 0 | Garbage \<Rightarrow> Inl EINVAL') of
           Inl e \<Rightarrow> Inr (- e, q)
         | Inr v \<Rightarrow>
             if v = 0 \<or> weight_in_range on_dfl v then
               bindE (upd_cfqg g (\<lambda>c.
                 if \<not> is_leaf
                 then c\<lparr>dev_weight := of_nat v, new_weight := (if v \<noteq> 0 then of_nat v else cgd_weight cgd)\<rparr>
                 else c\<lparr>dev_leaf_weight := of_nat v,
                        new_leaf_weight := (if v \<noteq> 0 then of_nat v else cgd_leaf_weight cgd)\<rparr>) q) (\<lambda>q.
               Inr (int nbytes, q))
             else Inr (- ERANGE, q)))"

text \<open>Taking a group off line drops the references on its asynchronous queues.\<close>

fun put_slots ::
  "kernel_lib \<Rightarrow> u64 \<Rightarrow> nat \<Rightarrow> async_slot list \<Rightarrow> 'a cfq_data_scheme \<Rightarrow> 'a cfq_data_scheme res option" where
  "put_slots L now g [] q = Some (Inr q)"
| "put_slots L now g (s # ss) q =
     bindO (Some (deref (cfqgs q) g)) (\<lambda>c.
     bindO (case read_slot s c of None \<Rightarrow> Some (Inr q) | Some a \<Rightarrow> cfq_put_queue L now a q)
       (put_slots L now g ss))"

definition cfq_pd_offline ::
  "kernel_lib \<Rightarrow> u64 \<Rightarrow> nat \<Rightarrow> 'a cfq_data_scheme \<Rightarrow> 'a cfq_data_scheme res option" where
  "cfq_pd_offline L now g q =
     put_slots L now g (concat (map (\<lambda>i. [Async_prio False i, Async_prio True i]) [0..<IOPRIO_BE_NR]) @ [Async_idle]) q"

section \<open>Properties\<close>

text \<open>
  The tunables as a table: the smallest and the largest number that can be set and the unit in
  nanoseconds (1 for a plain number); and the variable behind each, of which the milliseconds and
  the microseconds of one time are two views.
\<close>

definition tunable_table :: "cfq_attr \<Rightarrow> nat \<times> nat \<times> nat" where
  "tunable_table a =
     (case a of
        Quantum \<Rightarrow> (1, 2 ^ 32 - 1, 1)
      | Fifo_expire_sync \<Rightarrow> (1, 2 ^ 32 - 1, 1000000)
      | Fifo_expire_async \<Rightarrow> (1, 2 ^ 32 - 1, 1000000)
      | Back_seek_max \<Rightarrow> (0, 2 ^ 32 - 1, 1)
      | Back_seek_penalty \<Rightarrow> (1, 2 ^ 32 - 1, 1)
      | Slice_sync \<Rightarrow> (1, 2 ^ 32 - 1, 1000000)
      | Slice_sync_us \<Rightarrow> (1, 2 ^ 32 - 1, 1000)
      | Slice_async \<Rightarrow> (1, 2 ^ 32 - 1, 1000000)
      | Slice_async_us \<Rightarrow> (1, 2 ^ 32 - 1, 1000)
      | Slice_async_rq \<Rightarrow> (1, 2 ^ 32 - 1, 1)
      | Slice_idle_attr \<Rightarrow> (0, 2 ^ 32 - 1, 1000000)
      | Slice_idle_us \<Rightarrow> (0, 2 ^ 32 - 1, 1000)
      | Group_idle \<Rightarrow> (0, 2 ^ 32 - 1, 1000000)
      | Group_idle_us \<Rightarrow> (0, 2 ^ 32 - 1, 1000)
      | Low_latency \<Rightarrow> (0, 1, 1)
      | Target_latency \<Rightarrow> (1, 2 ^ 32 - 1, 1000000)
      | Target_latency_us \<Rightarrow> (1, 2 ^ 32 - 1, 1000))"

definition variable_of :: "cfq_attr \<Rightarrow> cfq_attr" where
  "variable_of a =
     (case a of Slice_sync_us \<Rightarrow> Slice_sync | Slice_async_us \<Rightarrow> Slice_async | Slice_idle_us \<Rightarrow> Slice_idle_attr
      | Group_idle_us \<Rightarrow> Group_idle | Target_latency_us \<Rightarrow> Target_latency | _ \<Rightarrow> a)"

definition variable_value :: "cfq_attr \<Rightarrow> 'a cfq_data_scheme \<Rightarrow> nat" where
  "variable_value a q =
     (case variable_of a of
        Quantum \<Rightarrow> cfq_quantum q
      | Fifo_expire_sync \<Rightarrow> unat (cfq_fifo_expire q True)
      | Fifo_expire_async \<Rightarrow> unat (cfq_fifo_expire q False)
      | Back_seek_max \<Rightarrow> cfq_back_max q
      | Back_seek_penalty \<Rightarrow> cfq_back_penalty q
      | Slice_sync \<Rightarrow> unat (cfq_slice q True)
      | Slice_async \<Rightarrow> unat (cfq_slice q False)
      | Slice_async_rq \<Rightarrow> cfq_slice_async_rq q
      | Slice_idle_attr \<Rightarrow> unat (cfq_slice_idle q)
      | Group_idle \<Rightarrow> unat (cfq_group_idle q)
      | Low_latency \<Rightarrow> of_bool (cfq_latency q)
      | _ \<Rightarrow> unat (cfq_target_latency q))"

lemma var_store_number: "unat (cfq_var_store (show_nat n @ [CHR 0x0A])) = n mod 2 ^ 32"
  using strtoul_show [of 0 n "[CHR 0x0A]"] by (simp add: cfq_var_store_def is_digit_def unat_of_nat)

lemma unat_units: "unat (ucast (d :: u32) * NSEC_PER_MSEC) = unat d * 1000000"
  "unat (ucast (d :: u32) * NSEC_PER_USEC) = unat d * 1000"
proof -
  have "unat d < 2 ^ LENGTH(32)" by (rule unsigned_less)
  then have d: "unat d < 4294967296" by simp
  then have "unat (ucast d :: u64) = unat d" by (simp add: unsigned_ucast_eq take_bit_nat_eq_self_iff)
  with d show "unat (ucast d * NSEC_PER_MSEC) = unat d * 1000000" "unat (ucast d * NSEC_PER_USEC) = unat d * 1000"
    by (simp_all add: NSEC_PER_MSEC_def NSEC_PER_USEC_def unat_mult64)
qed

lemma unat_clamp: "unat (clamp_attr a d) = (case tunable_table a of (lo, hi, u) \<Rightarrow> min hi (max lo (unat d)))"
proof -
  have "unat d < 2 ^ LENGTH(32)" by (rule unsigned_less)
  then have d: "unat d \<le> 4294967295" by simp
  have m: "unat (- 1 :: u32) = 4294967295" by (simp add: unsigned_minus_1_eq_mask mask_eq_exp_minus_1)
  show ?thesis
    using d by (cases a) (auto simp: clamp_attr_def attr_min_def attr_max_def tunable_table_def word_less_nat_alt m min_def max_def)
qed

lemma variable_set:
  "variable_value b (set_attr a d q) =
     (if variable_of b = variable_of a
      then (if a = Low_latency then of_bool (d \<noteq> 0) else unat d * snd (snd (tunable_table a)))
      else variable_value b q)"
  by (cases a; cases b) (simp_all add: variable_value_def variable_of_def set_attr_def tunable_table_def unat_units)

lemma attr_show_variable:
  assumes "variable_value a q < 2 ^ 64"
  shows "cfq_attr_show a q = show_nat (variable_value a q div snd (snd (tunable_table a)) mod 2 ^ 32) @ [CHR 0x0A]"
  using assms
  by (cases a) (simp_all add: cfq_attr_show_def cfq_var_show_def attr_value_def variable_value_def variable_of_def
      tunable_table_def unsigned_ucast_eq take_bit_eq_mod unat_div_distrib NSEC_PER_MSEC_def NSEC_PER_USEC_def unat_of_nat)

text \<open>C40: Setting a tunable: writing a decimal number to any of the 17 attributes takes it modulo \<open>2 ^ 32\<close>
  into the bounds of the table and sets the variable to that many units; the attribute then shows
  that number, the other view of the same time shows it in its own unit (modulo \<open>2 ^ 32\<close>), and
  every other variable is unchanged.  So no sequence of writes makes a slice, a quantum, an expiry time or the penalty
  zero, and no time overflows 64 bits.\<close>

theorem tunable_store:
  "case tunable_table a of (lo, hi, u) \<Rightarrow>
     let v = min hi (max lo (n mod 2 ^ 32));
         (ret, q') = cfq_attr_store a (show_nat n @ [CHR 0x0A]) q in
     ret = length (show_nat n) + 1 \<and>
     variable_value a q' = v * u \<and> cfq_attr_show a q' = show_nat v @ [CHR 0x0A] \<and>
     (\<forall>b. if variable_of b = variable_of a
          then cfq_attr_show b q' = show_nat (v * u div snd (snd (tunable_table b)) mod 2 ^ 32) @ [CHR 0x0A]
          else variable_value b q' = variable_value b q)"
proof -
  obtain lo hi u where t: "tunable_table a = (lo, hi, u)" by (cases "tunable_table a")
  define v where "v = min hi (max lo (n mod 2 ^ 32))"
  define q' where "q' = set_attr a (clamp_attr a (cfq_var_store (show_nat n @ [CHR 0x0A]))) q"
  have store: "cfq_attr_store a (show_nat n @ [CHR 0x0A]) q = (length (show_nat n) + 1, q')"
    by (simp add: cfq_attr_store_def q'_def)
  have d: "unat (clamp_attr a (cfq_var_store (show_nat n @ [CHR 0x0A]))) = v"
    by (simp only: unat_clamp t prod.case var_store_number v_def)
  have bound: "v < 2 ^ 32" "u \<le> 1000000" "0 < u" "a = Low_latency \<Longrightarrow> v \<le> 1 \<and> u = 1"
    using t by (cases a; auto simp: v_def tunable_table_def)+
  have nonzero: "clamp_attr a (cfq_var_store (show_nat n @ [CHR 0x0A])) \<noteq> 0 \<longleftrightarrow> v \<noteq> 0"
    unfolding d [symmetric] by (simp add: unat_eq_zero)
  have var: "variable_value b q' = (if variable_of b = variable_of a then v * u else variable_value b q)" for b
    using variable_set [of b a "clamp_attr a (cfq_var_store (show_nat n @ [CHR 0x0A]))" q] d bound(4) t
    unfolding q'_def [symmetric] by (cases "a = Low_latency") (use nonzero in \<open>auto simp: of_bool_def\<close>)
  have small: "v * u < 2 ^ 64"
  proof -
    have "v * u \<le> 2 ^ 32 * 1000000" using bound(1,2) by (intro mult_le_mono) simp_all
    also have "\<dots> < (2 :: nat) ^ 64" by simp
    finally show ?thesis .
  qed
  have shows_b: "cfq_attr_show b q' = show_nat (v * u div snd (snd (tunable_table b)) mod 2 ^ 32) @ [CHR 0x0A]"
    if "variable_of b = variable_of a" for b
    using attr_show_variable [of b q'] var [of b] that small by simp
  moreover have "v * u div snd (snd (tunable_table a)) mod 2 ^ 32 = v" using bound(1,3) t by simp
  ultimately have "cfq_attr_show a q' = show_nat v @ [CHR 0x0A]" by simp
  with var shows_b show ?thesis by (simp only: t store prod.case Let_def v_def [symmetric]) simp
qed

end
