(* ===== verification/Cfq_Busy.thy ===== *)
theory Cfq_Busy
  imports Cfq_Queue
begin

text \<open>
  The service trees hold exactly the queues that say so, sorted by key and correctly
  counted: what moving a queue between them keeps.
\<close>

section \<open>The invariant\<close>

definition members :: "(nat \<rightharpoonup> cfq_queue) \<Rightarrow> st_name \<Rightarrow> nat set" where
  "members cs n = {a. \<exists>c. cs a = Some c \<and> service_tree c = Some n}"

definition st_ok :: "(nat \<rightharpoonup> cfq_queue) \<Rightarrow> st_name \<Rightarrow> cfq_rb_root \<Rightarrow> bool" where
  "st_ok cs n st \<longleftrightarrow> st_sorted (queue_key cs) st \<and> distinct (inorder (rb st)) \<and>
     set (inorder (rb st)) = members cs n \<and> st_count st = of_nat (length (inorder (rb st))) \<and>
     samples_ok (st_ttime st)"

text \<open>A queue belongs to a live group and is only on trees of that group.\<close>

definition placed :: "(nat \<rightharpoonup> cfq_group) \<Rightarrow> cfq_queue \<Rightarrow> bool" where
  "placed gs c \<longleftrightarrow> (\<exists>g. cfqg c = Some g \<and> g \<in> dom gs \<and>
     (rb_linked c \<longleftrightarrow> service_tree c \<noteq> None) \<and>
     (\<forall>n. service_tree c = Some n \<longrightarrow> (\<exists>cls typ. n = st_for g cls typ)))"

definition trees_ok :: "'a cfq_data_scheme \<Rightarrow> bool" where
  "trees_ok q \<longleftrightarrow> (\<forall>c \<in> ran (cfqqs q). placed (cfqgs q) c) \<and>
     (\<forall>g G cls typ. cfqgs q g = Some G \<longrightarrow> st_ok (cfqqs q) (st_for g cls typ) (tree_of G cls typ))"

lemma trees_okD:
  "trees_ok q \<Longrightarrow> cfqqs q a = Some c \<Longrightarrow> placed (cfqgs q) c"
  "trees_ok q \<Longrightarrow> cfqgs q g = Some G \<Longrightarrow> st_ok (cfqqs q) (st_for g cls typ) (tree_of G cls typ)"
  by (auto simp: trees_ok_def ran_def)

text \<open>A group without its service trees.\<close>

definition tree_free :: "cfq_group \<Rightarrow> cfq_group" where
  "tree_free G = G\<lparr>service_trees := (\<lambda>_ _. CFQ_RB_ROOT 0), service_tree_idle := CFQ_RB_ROOT 0\<rparr>"

definition same_but_trees :: "(nat \<rightharpoonup> cfq_group) \<Rightarrow> (nat \<rightharpoonup> cfq_group) \<Rightarrow> bool" where
  "same_but_trees gs gs' \<longleftrightarrow> (\<forall>x. map_option tree_free (gs x) = map_option tree_free (gs' x))"

lemma tree_free_fields [simp]:
  "g_linked (tree_free G) = g_linked G" "vdisktime (tree_free G) = vdisktime G"
  "nr_active (tree_free G) = nr_active G" "nr_cfqq (tree_free G) = nr_cfqq G" "gparent (tree_free G) = gparent G" "g_ttime (tree_free G) = g_ttime G"
  by (simp_all add: tree_free_def)

lemma tree_free_put [simp]: "tree_free (put_tree cls typ st G) = tree_free G"
  by (simp add: tree_free_def put_tree_def)

lemma put_tree_fields [simp]:
  "g_linked (put_tree cls typ st G) = g_linked G" "vdisktime (put_tree cls typ st G) = vdisktime G"
  "nr_active (put_tree cls typ st G) = nr_active G" "nr_cfqq (put_tree cls typ st G) = nr_cfqq G"
  "gparent (put_tree cls typ st G) = gparent G" "weight (put_tree cls typ st G) = weight G"
  "leaf_weight (put_tree cls typ st G) = leaf_weight G"
  "children_weight (put_tree cls typ st G) = children_weight G"
  "weight_room (put_tree cls typ st G) = weight_room G" "vfraction (put_tree cls typ st G) = vfraction G"
  "g_ttime (put_tree cls typ st G) = g_ttime G"
  by (simp_all add: put_tree_def weight_room_def)

lemma same_but_trees_refl [simp]: "same_but_trees gs gs"
  by (simp add: same_but_trees_def)

lemma same_but_trees_trans: "same_but_trees a b \<Longrightarrow> same_but_trees b c \<Longrightarrow> same_but_trees a c"
  by (simp add: same_but_trees_def)

lemma same_but_trees_put: "gs g = Some G \<Longrightarrow> same_but_trees gs (gs(g \<mapsto> put_tree cls typ st G))"
  by (simp add: same_but_trees_def)

lemma same_but_treesD:
  "same_but_trees gs gs' \<Longrightarrow> gs x = Some G \<Longrightarrow> \<exists>G'. gs' x = Some G' \<and> tree_free G' = tree_free G"
  unfolding same_but_trees_def by (metis map_option_eq_Some)

lemma same_but_trees_dom: "same_but_trees gs gs' \<Longrightarrow> dom gs' = dom gs"
  unfolding same_but_trees_def dom_def by (metis map_option_is_None)

lemma placed_linked:
  "placed gs c \<Longrightarrow> rb_linked c \<Longrightarrow>
   \<exists>g cls ty. cfqg c = Some g \<and> g \<in> dom gs \<and> service_tree c = Some (st_for g cls ty)"
  unfolding placed_def by (metis not_None_eq)

lemma placed_same: "dom gs' = dom gs \<Longrightarrow> placed gs' c = placed gs c"
  by (simp add: placed_def)

lemma placed_upd: "gs a = Some G \<Longrightarrow> placed (gs(a \<mapsto> G')) c = placed gs c"
  by (rule placed_same) auto

section \<open>One tree\<close>

lemma st_for_eq [simp]:
  "st_for g cls typ = st_for g' cls' typ' \<longleftrightarrow>
   g = g' \<and> cls = cls' \<and> (cls = IDLE_WORKLOAD \<or> typ = typ')"
  by (auto simp: st_for_def)

lemma fst_st_for [simp]: "fst (st_for g cls typ) = g"
  by (simp add: st_for_def)

lemma get_st_for: "cfqgs q g = Some G \<Longrightarrow> get_st (st_for g cls typ) q = Inr (tree_of G cls typ)"
  by (simp add: get_st_def st_for_def tree_of_def)

lemma put_tree_idle: "put_tree IDLE_WORKLOAD typ st G = put_tree IDLE_WORKLOAD typ' st G"
  by (simp add: put_tree_def)

lemma set_st_for:
  "cfqgs q g = Some G \<Longrightarrow>
   set_st (st_for g cls typ) st q = Inr (q\<lparr>cfqgs := (cfqgs q)(g \<mapsto> put_tree cls typ st G)\<rparr>)"
  by (auto simp: set_st_def st_for_def put_tree_def)

lemma tree_of_put:
  "tree_of (put_tree cls typ st G) cls' typ' =
   (if cls' = cls \<and> (cls = IDLE_WORKLOAD \<or> typ' = typ) then st else tree_of G cls' typ')"
  by (auto simp: tree_of_def put_tree_def)

lemma st_ok_cong:
  assumes "\<And>x. x \<in> members cs n \<Longrightarrow> queue_key cs x = queue_key cs' x" "members cs n = members cs' n"
  shows "st_ok cs n st = st_ok cs' n st"
proof (cases "set (inorder (rb st)) = members cs n")
  case True
  then have "st_sorted (queue_key cs) st = st_sorted (queue_key cs') st" using assms(1) by (intro st_sorted_cong) blast
  then show ?thesis using assms(2) by (simp add: st_ok_def)
next
  case False
  then show ?thesis using assms(2) by (auto simp: st_ok_def)
qed

lemma rb_walk_cong:
  "(\<And>y. y \<in> set_tree t \<Longrightarrow> key y = key' y) \<Longrightarrow> rb_walk key k x t = rb_walk key' k x t"
  by (induction t) (auto simp: Let_def)

lemma cfq_rb_insert_cong:
  "(\<And>y. y \<in> set_tree (rb st) \<Longrightarrow> key y = key' y) \<Longrightarrow> cfq_rb_insert L key k x st = cfq_rb_insert L key' k x st"
  using rb_walk_cong [of "rb st" key key' k x] by (simp add: cfq_rb_insert_def)

text \<open>Looking up the first queue of a tree fills the cache and nothing else.\<close>

lemma st_ok_first:
  assumes "st_ok cs n st" "card (members cs n) < 2 ^ 32"
  shows "fst (cfq_rb_first st) = rb_first (rb st)" "st_ok cs n (snd (cfq_rb_first st))"
    "rb (snd (cfq_rb_first st)) = rb st" "st_count (snd (cfq_rb_first st)) = st_count st"
proof -
  have s: "st_sorted (queue_key cs) st" using assms(1) by (simp add: st_ok_def)
  have len: "length (inorder (rb st)) = card (members cs n)"
    using assms(1) distinct_card [of "inorder (rb st)"] unfolding st_ok_def by metis
  note f = cfq_rb_first_group_ok [OF s]
  have "st_count st = 0 \<longleftrightarrow> inorder (rb st) = []"
  proof
    assume "st_count st = 0"
    then have "unat (of_nat (length (inorder (rb st))) :: u32) = 0" using assms(1) by (simp add: st_ok_def)
    then show "inorder (rb st) = []" using len assms(2) by (simp add: unat_of_nat)
  qed (use assms(1) in \<open>simp add: st_ok_def\<close>)
  then show "fst (cfq_rb_first st) = rb_first (rb st)" using f(1) by (auto simp: cfq_rb_first_def rb_first_def)
  show "rb (snd (cfq_rb_first st)) = rb st" "st_count (snd (cfq_rb_first st)) = st_count st"
    using f(2,4) by (auto simp: cfq_rb_first_def)
  then show "st_ok cs n (snd (cfq_rb_first st))" using f(2-4) assms(1) by (auto simp: st_ok_def cfq_rb_first_def)
qed

lemma trees_ok_put:
  assumes T: "trees_ok q" and g: "cfqgs q g = Some G" and st: "st_ok (cfqqs q) (st_for g cls typ) st"
  shows "trees_ok (q\<lparr>cfqgs := (cfqgs q)(g \<mapsto> put_tree cls typ st G)\<rparr>)"
proof -
  have "st_ok (cfqqs q) (st_for h cls' typ') (tree_of H cls' typ')"
    if "((cfqgs q)(g \<mapsto> put_tree cls typ st G)) h = Some H" for h H cls' typ'
  proof (cases "st_for h cls' typ' = st_for g cls typ")
    case True
    then have e: "tree_of H cls' typ' = st" using that by (auto simp: tree_of_put)
    show ?thesis unfolding e True by (rule st)
  next
    case False
    then have "tree_of H cls' typ' = tree_of (if h = g then G else H) cls' typ'" using that by (auto simp: tree_of_put)
    moreover have "cfqgs q h = Some (if h = g then G else H)" using that g by (auto split: if_splits)
    ultimately show ?thesis using trees_okD(2) [OF T, of h _ cls' typ'] by metis
  qed
  then show ?thesis using T g by (simp add: trees_ok_def placed_upd [where gs = "cfqgs q", OF g])
qed

text \<open>A queue may change in everything that concerns neither its place nor its key.\<close>

lemma trees_ok_queue:
  assumes T: "trees_ok q" and a: "cfqqs q a = Some c"
    and same: "service_tree c' = service_tree c" "rb_linked c' = rb_linked c" "rb_key c' = rb_key c" "cfqg c' = cfqg c"
  shows "trees_ok (q\<lparr>cfqqs := (cfqqs q)(a \<mapsto> c')\<rparr>)"
proof -
  let ?cs = "(cfqqs q)(a \<mapsto> c')"
  have "queue_key (cfqqs q) = queue_key ?cs" "\<And>n. members (cfqqs q) n = members ?cs n"
    using a same by (auto simp: queue_key_def members_def fun_eq_iff)
  then have "st_ok (cfqqs q) n st = st_ok ?cs n st" for n st by (intro st_ok_cong) simp_all
  moreover have "placed (cfqgs q) c'" using trees_okD(1) [OF T a] same by (simp add: placed_def)
  ultimately show ?thesis using T by (auto simp: trees_ok_def ran_def)
qed

section \<open>Leaving and entering\<close>

lemma grp_ok_put:
  "grp_ok q \<Longrightarrow> cfqgs q g = Some G \<Longrightarrow> grp_ok (q\<lparr>cfqgs := (cfqgs q)(g \<mapsto> put_tree cls typ st G)\<rparr>)"
  by (rule grp_ok_upd) (simp_all add: grp_okD grp_tree_fields)

lemma grp_ok_queues [simp]: "grp_ok (q\<lparr>cfqqs := cs\<rparr>) = grp_ok q"
  by (simp add: grp_ok_def)

lemma leave_service_tree_ok:
  assumes L: "lib_ok L" and T: "trees_ok q" and a: "cfqqs q a = Some c"
  shows "\<exists>q'. leave_service_tree L a q = Inr q' \<and> trees_ok q' \<and> same_but_trees (cfqgs q) (cfqgs q') \<and>
     q' = q\<lparr>cfqqs := (cfqqs q)(a \<mapsto> c\<lparr>rb_linked := False, service_tree := None\<rparr>), cfqgs := cfqgs q'\<rparr> \<and>
     (grp_ok q \<longrightarrow> grp_ok q')"
proof (cases "rb_linked c")
  case False
  then have "service_tree c = None" using trees_okD(1) [OF T a] by (cases "service_tree c") (auto simp: placed_def)
  with False have "c\<lparr>rb_linked := False, service_tree := None\<rparr> = c" by simp
  then have "q = q\<lparr>cfqqs := (cfqqs q)(a \<mapsto> c\<lparr>rb_linked := False, service_tree := None\<rparr>), cfqgs := cfqgs q\<rparr>"
    using a by (simp add: fun_upd_idem)
  then show ?thesis using T a False by (intro exI [of _ q]) (simp add: leave_service_tree_def)
next
  case True
  then obtain g cls ty where p: "cfqg c = Some g" "g \<in> dom (cfqgs q)" "service_tree c = Some (st_for g cls ty)"
    using placed_linked [OF trees_okD(1) [OF T a]] by blast
  then obtain G where G: "cfqgs q g = Some G" by auto
  let ?n = "st_for g cls ty"
  let ?st = "tree_of G cls ty"
  let ?c = "c\<lparr>rb_linked := False, service_tree := None\<rparr>"
  let ?cs = "(cfqqs q)(a \<mapsto> ?c)"
  have st: "st_ok (cfqqs q) ?n ?st" by (rule trees_okD(2) [OF T G])
  have mem: "a \<in> members (cfqqs q) ?n" using a p(3) by (auto simp: members_def)
  have key: "queue_key ?cs = queue_key (cfqqs q)" using a by (auto simp: queue_key_def fun_eq_iff)
  have mem': "members ?cs m = members (cfqqs q) m - {a}" for m using a by (auto simp: members_def)
  have io: "inorder (rb (cfq_rb_erase L a ?st)) = remove1 a (inorder (rb ?st))" by (rule cfq_rb_erase_inorder [OF L])
  have st': "st_ok ?cs ?n (cfq_rb_erase L a ?st)"
  proof -
    have "a \<in> set (inorder (rb ?st))" using st mem by (simp add: st_ok_def)
    then obtain m where "length (inorder (rb ?st)) = Suc m" "length (remove1 a (inorder (rb ?st))) = m"
      by (metis One_nat_def Suc_pred diff_Suc_1 length_pos_if_in_set length_remove1)
    then show ?thesis
      using st cfq_rb_erase_sorted [OF L, of "queue_key (cfqqs q)" ?st a]
      unfolding st_ok_def key mem' io by simp
  qed
  let ?q = "q\<lparr>cfqqs := ?cs, cfqgs := (cfqgs q)(g \<mapsto> put_tree cls ty (cfq_rb_erase L a ?st) G)\<rparr>"
  have others: "st_ok ?cs (st_for h cls' typ') (tree_of H cls' typ')"
    if "cfqgs q h = Some H" "st_for h cls' typ' \<noteq> ?n" for h H cls' typ'
  proof -
    have "a \<notin> members (cfqqs q) (st_for h cls' typ')" using a p(3) that(2) by (auto simp: members_def)
    with trees_okD(2) [OF T that(1), of cls' typ'] show ?thesis by (simp add: st_ok_def key mem')
  qed
  have "trees_ok ?q"
  proof -
    have "st_ok ?cs (st_for h cls' typ') (tree_of H cls' typ')" if "cfqgs ?q h = Some H" for h H cls' typ'
    proof (cases "st_for h cls' typ' = ?n")
      case True
      then have e: "tree_of H cls' typ' = cfq_rb_erase L a ?st" using that by (auto simp: tree_of_put)
      show ?thesis unfolding e True by (rule st')
    next
      case False
      have "tree_of H cls' typ' = tree_of (if h = g then G else H) cls' typ'" "cfqgs q h = Some (if h = g then G else H)"
        using that False G by (auto simp: tree_of_put split: if_splits)
      with others [OF _ False] show ?thesis by metis
    qed
    moreover have "placed (cfqgs ?q) d" if "d \<in> ran ?cs" for d
    proof -
      have "placed (cfqgs q) ?c" using p by (auto simp: placed_def)
      then have "placed (cfqgs q) d" using that T by (auto simp: trees_ok_def ran_def split: if_splits)
      then show ?thesis using placed_upd [where gs = "cfqgs q", OF G] by simp
    qed
    ultimately show ?thesis by (simp add: trees_ok_def)
  qed
  moreover have "leave_service_tree L a q = Inr ?q"
    using a True p(3) G by (simp add: leave_service_tree_def get_st_for [OF G] set_st_for [OF G])
  moreover have "grp_ok q \<longrightarrow> grp_ok ?q" using grp_ok_put [OF _ G] by (simp add: grp_ok_def)
  ultimately show ?thesis using same_but_trees_put [where gs = "cfqgs q", OF G] by (intro exI [of _ ?q]) simp
qed

lemma enter_service_tree_ok:
  assumes L: "lib_ok L" and T: "trees_ok q" and a: "cfqqs q a = Some c" "service_tree c = None" "cfqg c = Some g"
  shows "\<exists>q'. enter_service_tree L key (st_for g cls ty) a q = Inr q' \<and> trees_ok q' \<and>
     same_but_trees (cfqgs q) (cfqgs q') \<and>
     q' = q\<lparr>cfqqs := (cfqqs q)(a \<mapsto> c\<lparr>rb_key := key, rb_linked := True, service_tree := Some (st_for g cls ty)\<rparr>),
            cfqgs := cfqgs q'\<rparr> \<and> (grp_ok q \<longrightarrow> grp_ok q')"
proof -
  from trees_okD(1) [OF T a(1)] a(3) obtain G where G: "cfqgs q g = Some G" by (auto simp: placed_def)
  let ?n = "st_for g cls ty"
  let ?st = "tree_of G cls ty"
  let ?c = "c\<lparr>rb_key := key, rb_linked := True, service_tree := Some ?n\<rparr>"
  let ?cs = "(cfqqs q)(a \<mapsto> ?c)"
  let ?st1 = "(cfq_rb_insert L (queue_key (cfqqs q)) key a ?st)\<lparr>st_count := st_count ?st + 1\<rparr>"
  have st: "st_ok (cfqqs q) ?n ?st" by (rule trees_okD(2) [OF T G])
  have out: "a \<notin> members (cfqqs q) m" for m using a by (auto simp: members_def)
  have key: "queue_key ?cs x = queue_key (cfqqs q) x" if "x \<noteq> a" for x using that by (auto simp: queue_key_def)
  have key_a: "queue_key ?cs a = key" by (simp add: queue_key_def)
  have mem: "members ?cs m = (if m = ?n then insert a (members (cfqqs q) m) else members (cfqqs q) m)" for m
    using a by (auto simp: members_def)
  have others: "st_ok ?cs m t" if m: "st_ok (cfqqs q) m t" "m \<noteq> ?n" for m t
  proof -
    have "queue_key (cfqqs q) x = queue_key ?cs x" if "x \<in> members (cfqqs q) m" for x
    proof -
      have "x \<noteq> a" using that out [of m] by auto
      then show ?thesis by (simp add: queue_key_def)
    qed
    moreover have "members (cfqqs q) m = members ?cs m" using mem [of m] m(2) by simp
    ultimately show ?thesis using st_ok_cong [of "cfqqs q" m ?cs t] m(1) by blast
  qed
  have set: "set (inorder (rb ?st)) = members (cfqqs q) ?n" "st_sorted (queue_key (cfqqs q)) ?st"
    using st by (auto simp: st_ok_def)
  have nodes: "y \<noteq> a" if "y \<in> set (inorder (rb ?st))" for y
    using that out [of ?n] unfolding set(1) by auto
  have "st_sorted (queue_key (cfqqs q)) ?st = st_sorted (queue_key ?cs) ?st"
    by (rule st_sorted_cong) (use nodes in \<open>auto simp: queue_key_def\<close>)
  with set(2) have srt: "st_sorted (queue_key ?cs) ?st" by simp
  have ins: "cfq_rb_insert L (queue_key (cfqqs q)) key a ?st = cfq_rb_insert L (queue_key ?cs) key a ?st"
    using key nodes by (intro cfq_rb_insert_cong) auto
  have st': "st_ok ?cs ?n ?st1"
  proof -
    let ?ins = "cfq_rb_insert L (queue_key ?cs) key a ?st"
    have "st_sorted (queue_key ?cs) ?ins" by (rule cfq_rb_insert_sorted [OF L srt key_a])
    moreover have io: "inorder (rb ?ins) = key_place (queue_key ?cs) key a (inorder (rb ?st))"
      by (rule cfq_rb_insert_inorder [OF L]) (use srt in \<open>simp add: st_sorted_def\<close>)
    moreover have "distinct (key_place (queue_key ?cs) key a (inorder (rb ?st)))"
      using st nodes mset_key_place [of "queue_key ?cs" key a "inorder (rb ?st)"]
      unfolding st_ok_def by (metis distinct.simps(2) mset.simps(2) mset_eq_imp_distinct_iff)
    ultimately have i: "st_sorted (queue_key ?cs) ?ins" "distinct (inorder (rb ?ins))"
      "set (inorder (rb ?ins)) = insert a (members (cfqqs q) ?n)"
      "length (inorder (rb ?ins)) = Suc (length (inorder (rb ?st)))"
      using set(1) by (simp_all del: set_inorder length_inorder)
    moreover have "st_count ?st = of_nat (length (inorder (rb ?st)))" "samples_ok (st_ttime ?st)" using st by (simp_all add: st_ok_def)
    ultimately have "st_ok ?cs ?n (?ins\<lparr>st_count := st_count ?st + 1\<rparr>)"
      unfolding st_ok_def mem [of ?n] by (simp add: st_sorted_def del: set_inorder length_inorder)
    then show ?thesis unfolding ins .
  qed
  let ?q = "q\<lparr>cfqqs := ?cs, cfqgs := (cfqgs q)(g \<mapsto> put_tree cls ty ?st1 G)\<rparr>"
  have "trees_ok ?q"
  proof -
    have "st_ok ?cs (st_for h cls' typ') (tree_of H cls' typ')" if "cfqgs ?q h = Some H" for h H cls' typ'
    proof (cases "st_for h cls' typ' = ?n")
      case True
      then have e: "tree_of H cls' typ' = ?st1" using that by (auto simp: tree_of_put)
      show ?thesis unfolding e True by (rule st')
    next
      case False
      have "tree_of H cls' typ' = tree_of (if h = g then G else H) cls' typ'" "cfqgs q h = Some (if h = g then G else H)"
        using that False G by (auto simp: tree_of_put split: if_splits)
      then have "st_ok (cfqqs q) (st_for h cls' typ') (tree_of H cls' typ')" using trees_okD(2) [OF T] by metis
      then show ?thesis using False by (rule others)
    qed
    moreover have "placed (cfqgs ?q) d" if "d \<in> ran ?cs" for d
    proof -
      have "placed (cfqgs q) ?c" using G a(3) by (auto simp: placed_def)
      then have "placed (cfqgs q) d" using that T by (auto simp: trees_ok_def ran_def split: if_splits)
      then show ?thesis using placed_upd [where gs = "cfqgs q", OF G] by simp
    qed
    ultimately show ?thesis by (simp add: trees_ok_def)
  qed
  moreover have "enter_service_tree L key ?n a q = Inr ?q"
    using a(1) by (simp add: enter_service_tree_def get_st_for [OF G] set_st_for [OF G])
  moreover have "grp_ok q \<longrightarrow> grp_ok ?q" using grp_ok_put [OF _ G] by (simp add: grp_ok_def)
  ultimately show ?thesis using same_but_trees_put [where gs = "cfqgs q", OF G] by (intro exI [of _ ?q]) simp
qed

end
