(* ===== verification/Cfq_Rr.thy ===== *)
theory Cfq_Rr
  imports Cfq_Busy
begin

text \<open>
  Moving a queue to its place on the service trees, and the effect on its group.
\<close>

section \<open>Room for the counters\<close>

definition room :: "'a cfq_data_scheme \<Rightarrow> bool" where
  "room q \<longleftrightarrow> finite (dom (cfqqs q)) \<and> card (dom (cfqqs q)) < 2 ^ 31"

lemma members_room: "room q \<Longrightarrow> card (members (cfqqs q) n) < 2 ^ 32"
proof -
  assume r: "room q"
  have "members (cfqqs q) n \<subseteq> dom (cfqqs q)" by (auto simp: members_def)
  then have "card (members (cfqqs q) n) \<le> card (dom (cfqqs q))" using r by (intro card_mono) (auto simp: room_def)
  with r show ?thesis by (simp add: room_def)
qed

lemma members_live: "x \<in> members cs n \<Longrightarrow> \<exists>c. cs x = Some c"
  by (auto simp: members_def)

lemma rb_first_in: "rb_first t = Some x \<Longrightarrow> x \<in> set (inorder t)"
  by (auto simp: rb_first_def list_first_eq_Some simp del: set_inorder intro: hd_in_set)

lemma rb_last_in: "rb_last t = Some x \<Longrightarrow> x \<in> set (inorder t)"
  by (metis hd_in_set list_first_eq_Some rb_last_def rev_is_Nil_conv set_rev)

section \<open>The key\<close>

lemma trees_ok_resid:
  "trees_ok q \<Longrightarrow> cfqqs q a = Some c \<Longrightarrow> trees_ok (q\<lparr>cfqqs := (cfqqs q)(a \<mapsto> c\<lparr>slice_resid := r\<rparr>)\<rparr>)"
  by (rule trees_ok_queue) simp_all

lemma service_tree_key_ok:
  assumes T: "trees_ok q" and R: "room q" and a: "cfqqs q a = Some c" "cfqg c = Some g"
  shows "\<exists>key r q'. service_tree_key now a f (st_for g cls ty) q = Inr (key, q') \<and> trees_ok q' \<and>
     same_but_trees (cfqgs q) (cfqgs q') \<and>
     q' = q\<lparr>cfqqs := (cfqqs q)(a \<mapsto> c\<lparr>slice_resid := r\<rparr>), cfqgs := cfqgs q'\<rparr> \<and> (grp_ok q \<longrightarrow> grp_ok q')"
proof -
  from trees_okD(1) [OF T a(1)] a(2) obtain G where G: "cfqgs q g = Some G" by (auto simp: placed_def)
  let ?st = "tree_of G cls ty"
  have st: "st_ok (cfqqs q) (st_for g cls ty) ?st" by (rule trees_okD(2) [OF T G])
  have live: "\<exists>d. cfqqs q x = Some d" if "x \<in> set (inorder (rb ?st))" for x
    using that st members_live unfolding st_ok_def by metis
  consider (idle) "cfq_class_idle c" | (tail) "\<not> cfq_class_idle c" "\<not> f" | (front) "\<not> cfq_class_idle c" f by blast
  then show ?thesis
  proof cases
    case idle
    have "\<exists>key. service_tree_key now a f (st_for g cls ty) q = Inr (key, q)"
    proof (cases "rb_last (rb ?st)")
      case (Some p)
      from live [OF rb_last_in [OF Some]] obtain d where "cfqqs q p = Some d" by blast
      with Some idle a(1) show ?thesis by (simp add: service_tree_key_def get_st_for [OF G])
    qed (use idle a(1) in \<open>simp add: service_tree_key_def get_st_for [OF G]\<close>)
    then obtain key where "service_tree_key now a f (st_for g cls ty) q = Inr (key, q)" by blast
    then show ?thesis using T a(1)
      by (intro exI [of _ key] exI [of _ "slice_resid c"] exI [of _ q]) (simp add: fun_upd_idem)
  next
    case tail
    let ?q = "q\<lparr>cfqqs := (cfqqs q)(a \<mapsto> c\<lparr>slice_resid := 0\<rparr>)\<rparr>"
    have "service_tree_key now a f (st_for g cls ty) q = Inr (cfq_slice_offset q c G + now - slice_resid c, ?q)"
      using tail a G by (simp add: service_tree_key_def get_st_for [OF G])
    moreover have "trees_ok ?q" by (rule trees_ok_resid [OF T a(1)])
    ultimately show ?thesis by (intro exI [of _ "cfq_slice_offset q c G + now - slice_resid c"] exI [of _ 0] exI [of _ ?q]) simp
  next
    case front
    let ?first = "fst (cfq_rb_first ?st)"
    let ?st1 = "snd (cfq_rb_first ?st)"
    note s = st_ok_first [OF st members_room [OF R]]
    let ?q = "q\<lparr>cfqgs := (cfqgs q)(g \<mapsto> put_tree cls ty ?st1 G)\<rparr>"
    have "\<exists>key. service_tree_key now a f (st_for g cls ty) q = Inr (key, ?q)"
    proof (cases ?first)
      case None
      with front a(1) show ?thesis
        by (cases "cfq_rb_first ?st") (simp add: service_tree_key_def get_st_for [OF G] set_st_for [OF G])
    next
      case (Some x)
      with s(1) have "x \<in> set (inorder (rb ?st))" by (simp add: rb_first_in del: set_inorder)
      from live [OF this] obtain d where "cfqqs q x = Some d" by blast
      with Some front a(1) show ?thesis
        by (cases "cfq_rb_first ?st") (simp add: service_tree_key_def get_st_for [OF G] set_st_for [OF G])
    qed
    moreover have "trees_ok ?q" by (rule trees_ok_put [OF T G s(2)])
    ultimately obtain key where "service_tree_key now a f (st_for g cls ty) q = Inr (key, ?q)" "trees_ok ?q" by blast
    then show ?thesis using a(1) same_but_trees_put [where gs = "cfqgs q", OF G] grp_ok_put [OF _ G]
      by (intro exI [of _ key] exI [of _ "slice_resid c"] exI [of _ ?q]) (simp add: fun_upd_idem)
  qed
qed

section \<open>Its place\<close>

text \<open>The queue after it was placed: on the tree of its class and type, with some key.\<close>

definition placed_queue :: "nat \<Rightarrow> cfq_queue \<Rightarrow> cfq_queue \<Rightarrow> bool" where
  "placed_queue g c c' \<longleftrightarrow> (\<exists>k r. c' = c\<lparr>rb_key := k, slice_resid := r, rb_linked := True,
     service_tree := Some (st_for g (cfqq_class c) (cfqq_type c))\<rparr>)"

lemma room_upd: "room q \<Longrightarrow> cfqqs q a = Some c \<Longrightarrow> room (q\<lparr>cfqqs := (cfqqs q)(a \<mapsto> c'), cfqgs := gs\<rparr>)"
  by (simp add: room_def insert_absorb domI)

lemma service_tree_place:
  assumes L: "lib_ok L" and T: "trees_ok q" and R: "room q" and a: "cfqqs q a = Some c" "cfqg c = Some g"
  shows "\<exists>q' c'. cfq_service_tree_add L now a f q =
       (if f \<or> rb_linked c then Some (Inr q') else cfq_group_notify_queue_add L g q') \<and>
     trees_ok q' \<and> same_but_trees (cfqgs q) (cfqgs q') \<and> placed_queue g c c' \<and>
     q' = q\<lparr>cfqqs := (cfqqs q)(a \<mapsto> c'), cfqgs := cfqgs q'\<rparr> \<and> (grp_ok q \<longrightarrow> grp_ok q')"
proof -
  let ?cls = "cfqq_class c" and ?ty = "cfqq_type c"
  let ?n = "st_for g ?cls ?ty"
  from service_tree_key_ok [OF T R a, of now f ?cls ?ty] obtain key r q1 where k:
    "service_tree_key now a f ?n q = Inr (key, q1)" "trees_ok q1" "same_but_trees (cfqgs q) (cfqgs q1)"
    "q1 = q\<lparr>cfqqs := (cfqqs q)(a \<mapsto> c\<lparr>slice_resid := r\<rparr>), cfqgs := cfqgs q1\<rparr>" "grp_ok q \<longrightarrow> grp_ok q1"
    by (elim exE conjE) (rule that; assumption)
  let ?c1 = "c\<lparr>slice_resid := r\<rparr>"
  have cs1: "cfqqs q1 = (cfqqs q)(a \<mapsto> ?c1)" by (subst k(4)) simp
  then have a1: "cfqqs q1 a = Some ?c1" by simp
  have q1: "q1\<lparr>cfqqs := X, cfqgs := Y\<rparr> = q\<lparr>cfqqs := X, cfqgs := Y\<rparr>" for X Y by (subst k(4)) simp
  show ?thesis
  proof (cases "rb_linked c \<and> key = rb_key c \<and> service_tree c = Some ?n")
    case True
    then have "?c1 = c\<lparr>rb_key := key, slice_resid := r, rb_linked := True, service_tree := Some ?n\<rparr>" by simp
    then have p: "placed_queue g c ?c1" unfolding placed_queue_def by blast
    have "cfq_service_tree_add L now a f q = Some (Inr q1)"
      using True a k(1) by (simp add: cfq_service_tree_add_def Let_def)
    with True p k(2-5) show ?thesis by (intro exI [of _ q1] exI [of _ ?c1]) simp
  next
    case False
    from leave_service_tree_ok [OF L k(2) a1] obtain q2 where l:
      "leave_service_tree L a q1 = Inr q2" "trees_ok q2" "same_but_trees (cfqgs q1) (cfqgs q2)"
      "q2 = q1\<lparr>cfqqs := (cfqqs q1)(a \<mapsto> ?c1\<lparr>rb_linked := False, service_tree := None\<rparr>), cfqgs := cfqgs q2\<rparr>"
      "grp_ok q1 \<longrightarrow> grp_ok q2" by (elim exE conjE) (rule that; assumption)
    let ?c2 = "?c1\<lparr>rb_linked := False, service_tree := None\<rparr>"
    have cs2: "cfqqs q2 = (cfqqs q)(a \<mapsto> ?c2)" by (subst l(4)) (simp add: cs1)
    then have a2: "cfqqs q2 a = Some ?c2" by simp
    have q2: "q2\<lparr>cfqqs := X, cfqgs := Y\<rparr> = q\<lparr>cfqqs := X, cfqgs := Y\<rparr>" for X Y
      by (subst l(4)) (simp add: q1 [symmetric])
    from enter_service_tree_ok [OF L l(2) a2, of g key ?cls ?ty] a(2) obtain q3 where e:
      "enter_service_tree L key ?n a q2 = Inr q3" "trees_ok q3" "same_but_trees (cfqgs q2) (cfqgs q3)"
      "q3 = q2\<lparr>cfqqs := (cfqqs q2)(a \<mapsto> ?c2\<lparr>rb_key := key, rb_linked := True, service_tree := Some ?n\<rparr>),
             cfqgs := cfqgs q3\<rparr>" "grp_ok q2 \<longrightarrow> grp_ok q3" by auto
    let ?c3 = "?c2\<lparr>rb_key := key, rb_linked := True, service_tree := Some ?n\<rparr>"
    have "?c3 = c\<lparr>rb_key := key, slice_resid := r, rb_linked := True, service_tree := Some ?n\<rparr>" by simp
    then have p: "placed_queue g c ?c3" unfolding placed_queue_def by blast
    have q3: "q3 = q\<lparr>cfqqs := (cfqqs q)(a \<mapsto> ?c3), cfqgs := cfqgs q3\<rparr>"
      by (subst e(4)) (simp add: cs2 q2)
    have "cfq_service_tree_add L now a f q =
        (if f \<or> rb_linked c then Some (Inr q3) else cfq_group_notify_queue_add L g q3)"
    proof (cases "f \<or> rb_linked c")
      case True
      with False a k(1) l(1) e(1) show ?thesis by (simp add: cfq_service_tree_add_def Let_def if_not_P)
    next
      case False
      with a k(1) l(1) e(1) show ?thesis by (simp add: cfq_service_tree_add_def Let_def)
    qed
    moreover have "same_but_trees (cfqgs q) (cfqgs q3)"
      by (rule same_but_trees_trans [OF k(3) same_but_trees_trans [OF l(3) e(3)]])
    moreover have "grp_ok q \<longrightarrow> grp_ok q3" using k(5) l(5) e(5) by blast
    ultimately show ?thesis using p e(2) q3 by (intro exI [of _ q3] exI [of _ ?c3] conjI)
  qed
qed

section \<open>The group's count\<close>

lemma notify_add_ok:
  assumes L: "lib_ok L" and ok: "grp_ok q" and g: "cfqgs q g = Some G"
  shows "\<exists>q' G'. cfq_group_notify_queue_add L g q = Some (Inr q') \<and> grp_ok q' \<and> cfqgs q' g = Some G' \<and>
     g_linked G' \<and> nr_cfqq G' = nr_cfqq G + 1 \<and>
     q' = q\<lparr>grp_service_tree := grp_service_tree q', cfqgs := cfqgs q'\<rparr> \<and>
     same_side ((cfqgs q)(g \<mapsto> G\<lparr>nr_cfqq := nr_cfqq G + 1\<rparr>)) (cfqgs q') \<and>
     linked (cfqgs q') = insert g (linked (cfqgs q))"
proof (cases "g_linked G")
  case True
  let ?G = "G\<lparr>nr_cfqq := nr_cfqq G + 1\<rparr>"
  let ?q = "q\<lparr>cfqgs := (cfqgs q)(g \<mapsto> ?G)\<rparr>"
  have "grp_ok ?q"
    by (rule grp_ok_upd [OF ok g]) (simp_all add: weight_room_def grp_tree_fields [OF grp_okD(4) [OF ok] g])
  moreover have "linked (cfqgs ?q) = insert g (linked (cfqgs q))" using g True by (auto simp: linked_def)
  ultimately show ?thesis
    using g True by (intro exI [of _ ?q] exI [of _ ?G]) (simp add: cfq_group_notify_queue_add_def same_side_def)
next
  case False
  define v where "v = (case rb_last (rb (grp_service_tree q)) of
    None \<Rightarrow> min_vdisktime (grp_service_tree q) | Some n \<Rightarrow> vdisktime (the (cfqgs q n)) + CFQ_IDLE_DELAY)"
  let ?G = "G\<lparr>nr_cfqq := nr_cfqq G + 1, vdisktime := v\<rparr>"
  let ?q = "q\<lparr>cfqgs := (cfqgs q)(g \<mapsto> ?G)\<rparr>"
  have add: "cfq_group_notify_queue_add L g q = cfq_group_service_tree_add L g ?q"
  proof (cases "rb_last (rb (grp_service_tree q))")
    case (Some n)
    then have "n \<in> linked (cfqgs q)" using rb_last_in grp_okD(4) [OF ok] by (auto simp: grp_tree_def)
    then obtain H where "cfqgs q n = Some H" by (auto simp: linked_def)
    with Some False g show ?thesis by (simp add: cfq_group_notify_queue_add_def v_def)
  qed (use False g in \<open>simp add: cfq_group_notify_queue_add_def v_def\<close>)
  have ok1: "grp_ok ?q"
    by (rule grp_ok_upd [OF ok g])
      (use False in \<open>simp_all add: weight_room_def grp_tree_unlinked [OF grp_okD(4) [OF ok] g]\<close>)
  have "cfqgs ?q g = Some ?G" "\<not> g_linked ?G" using False by simp_all
  from service_tree_add_ok [OF L ok1 this] obtain q' G' where r:
    "cfq_group_service_tree_add L g ?q = Some (Inr q')" "grp_ok q'" "cfqgs q' g = Some G'" "g_linked G'"
    "nr_cfqq G' = nr_cfqq ?G" "q' = ?q\<lparr>grp_service_tree := grp_service_tree q', cfqgs := cfqgs q'\<rparr>"
    "same_side (cfqgs ?q) (cfqgs q')" "linked (cfqgs q') = insert g (linked (cfqgs ?q))" by blast
  have "same_side ((cfqgs q)(g \<mapsto> G\<lparr>nr_cfqq := nr_cfqq G + 1\<rparr>)) (cfqgs ?q)"
    by (simp add: same_side_def queue_side_def)
  then have "same_side ((cfqgs q)(g \<mapsto> G\<lparr>nr_cfqq := nr_cfqq G + 1\<rparr>)) (cfqgs q')"
    using r(7) by (rule same_side_trans)
  moreover have "insert g (linked (cfqgs ?q)) = insert g (linked (cfqgs q))" by (auto simp: linked_def)
  moreover have "q' = q\<lparr>grp_service_tree := grp_service_tree q', cfqgs := cfqgs q'\<rparr>" by (subst r(6)) simp
  ultimately show ?thesis using r(1-5,8) add by (intro exI [of _ q'] exI [of _ G']) simp
qed

lemma notify_del_ok:
  assumes L: "lib_ok L" and ok: "grp_ok q" and g: "cfqgs q g = Some G" "1 \<le> nr_cfqq G" "g_linked G"
  shows "\<exists>q' G'. cfq_group_notify_queue_del L g q = Some (Inr q') \<and> grp_ok q' \<and> cfqgs q' g = Some G' \<and>
     nr_cfqq G' = nr_cfqq G - 1 \<and> q' = q\<lparr>grp_service_tree := grp_service_tree q', cfqgs := cfqgs q'\<rparr> \<and>
     same_side ((cfqgs q)(g \<mapsto> G\<lparr>nr_cfqq := nr_cfqq G - 1\<rparr>)) (cfqgs q') \<and>
     linked (cfqgs q') = (if nr_cfqq G = 1 then linked (cfqgs q) - {g} else linked (cfqgs q))"
proof -
  let ?G = "G\<lparr>nr_cfqq := nr_cfqq G - 1\<rparr>"
  let ?q = "q\<lparr>cfqgs := (cfqgs q)(g \<mapsto> ?G)\<rparr>"
  have ok1: "grp_ok ?q"
    by (rule grp_ok_upd [OF ok g(1)]) (simp_all add: weight_room_def grp_tree_fields [OF grp_okD(4) [OF ok] g(1)])
  have lk: "linked (cfqgs ?q) = linked (cfqgs q)" using g by (auto simp: linked_def)
  show ?thesis
  proof (cases "nr_cfqq G = 1")
    case False
    with g ok1 lk show ?thesis
      by (intro exI [of _ ?q] exI [of _ ?G]) (simp add: cfq_group_notify_queue_del_def Let_def same_side_def)
  next
    case True
    have "cfqgs ?q g = Some ?G" "g_linked ?G" using g by simp_all
    from service_tree_del_ok [OF L ok1 this] obtain q1 G1 where r:
      "cfq_group_service_tree_del L g ?q = Some (Inr q1)" "grp_ok q1" "cfqgs q1 g = Some G1" "\<not> g_linked G1"
      "nr_cfqq G1 = nr_cfqq ?G" "q1 = ?q\<lparr>grp_service_tree := grp_service_tree q1, cfqgs := cfqgs q1\<rparr>"
      "same_side (cfqgs ?q) (cfqgs q1)" "linked (cfqgs q1) = linked (cfqgs ?q) - {g}" by blast
    let ?G2 = "G1\<lparr>saved_wl_slice := 0\<rparr>"
    let ?q2 = "q1\<lparr>cfqgs := (cfqgs q1)(g \<mapsto> ?G2)\<rparr>"
    have "grp_ok ?q2"
      by (rule grp_ok_upd [OF r(2,3)]) (simp_all add: weight_room_def grp_tree_fields [OF grp_okD(4) [OF r(2)] r(3)])
    moreover have "same_side (cfqgs q1) (cfqgs ?q2)"
      using same_side_upd [where gs = "cfqgs q1", OF r(3), of ?G2] by (simp add: queue_side_def)
    then have "same_side (cfqgs ?q) (cfqgs ?q2)" using r(7) same_side_trans by blast
    moreover have "linked (cfqgs ?q2) = linked (cfqgs q1)" using r(3) by (auto simp: linked_def)
    moreover have "?q2 = q\<lparr>grp_service_tree := grp_service_tree ?q2, cfqgs := cfqgs ?q2\<rparr>" by (subst r(6)) simp
    moreover have "cfq_group_notify_queue_del L g q = Some (Inr ?q2)"
      using g(1,2) True r(1,3) by (simp add: cfq_group_notify_queue_del_def Let_def)
    ultimately show ?thesis using r(5,8) lk True
      by (intro exI [of _ ?q2] exI [of _ ?G2]) simp
  qed
qed

end
