(* ===== verification/Cfq_Prio.thy ===== *)
theory Cfq_Prio
  imports Cfq_Select
begin

text \<open>
  The priority trees, sorted by the sector of each queue's next request: the search, keeping
  them sorted, and finding a queue close to the disk head.
\<close>

section \<open>The search\<close>

text \<open>The node \<open>w\<close> is the nearest one below \<open>s\<close> or the nearest one above it.\<close>

definition beside :: "(nat \<Rightarrow> nat) \<Rightarrow> nat \<Rightarrow> nat set \<Rightarrow> nat \<Rightarrow> bool" where
  "beside p s A w \<longleftrightarrow> w \<in> A \<and>
     (p w < s \<and> (\<forall>x \<in> A. p x < s \<longrightarrow> p x \<le> p w) \<or> s < p w \<and> (\<forall>x \<in> A. s < p x \<longrightarrow> p w \<le> p x))"

definition search_result :: "(nat \<Rightarrow> nat) \<Rightarrow> nat \<Rightarrow> nat option \<Rightarrow> nat tree \<Rightarrow> (nat option \<times> nat option) res \<Rightarrow> bool" where
  "search_result p s par t r \<longleftrightarrow>
     (\<exists>x \<in> set_tree t. p x = s \<and> r = Inr (Some x, Some x)) \<or>
     (\<forall>x \<in> set_tree t. p x \<noteq> s) \<and>
     (if t = Leaf then r = Inr (None, par) else \<exists>w. r = Inr (None, Some w) \<and> beside p s (set_tree t) w)"

lemma beside_right:
  "beside p s A w \<Longrightarrow> \<forall>y \<in> B. p y < s \<and> (\<forall>z \<in> A. p y < p z) \<Longrightarrow> beside p s (B \<union> A) w"
  by (auto simp: beside_def intro: less_imp_le)

lemma beside_left:
  "beside p s A w \<Longrightarrow> \<forall>y \<in> B. s < p y \<and> (\<forall>z \<in> A. p z < p y) \<Longrightarrow> beside p s (A \<union> B) w"
  by (auto simp: beside_def intro: less_imp_le)

lemma prio_lookup:
  assumes "sorted_wrt (<) (map p (inorder t))" "\<And>x. x \<in> set_tree t \<Longrightarrow> pos x = Inr (p x)"
  shows "search_result p s par t (cfq_prio_tree_lookup pos s par t)"
  using assms
proof (induction t arbitrary: par)
  case Leaf
  then show ?case by (simp add: search_result_def)
next
  case (Node l x r)
  have below: "\<And>y. y \<in> set_tree l \<Longrightarrow> p y < p x" and above: "\<And>y. y \<in> set_tree r \<Longrightarrow> p x < p y"
    and across: "\<And>y z. y \<in> set_tree l \<Longrightarrow> z \<in> set_tree r \<Longrightarrow> p y < p z"
    and sub: "sorted_wrt (<) (map p (inorder l))" "sorted_wrt (<) (map p (inorder r))"
    using Node.prems(1) by (auto simp: sorted_wrt_append)
  have x: "pos x = Inr (p x)" using Node.prems(2) by simp
  consider "s = p x" | "p x < s" | "s < p x" by linarith
  then show ?case
  proof cases
    case 1
    with x show ?thesis by (simp add: search_result_def)
  next
    case 2
    have "search_result p s (Some x) r (cfq_prio_tree_lookup pos s (Some x) r)"
      using Node.IH(2) [OF sub(2)] Node.prems(2) by simp
    moreover have "set_tree (Node l x r) = insert x (set_tree l) \<union> set_tree r" by auto
    moreover have "\<forall>y \<in> insert x (set_tree l). p y < s \<and> (\<forall>z \<in> set_tree r. p y < p z)"
      using 2 below above across by (auto intro: less_trans)
    moreover have "beside p s (insert x (set_tree l)) x" using 2 below by (auto simp: beside_def less_imp_le)
    ultimately show ?thesis
      using 2 x beside_right [of p s "set_tree r" _ "insert x (set_tree l)"]
      by (cases "r = Leaf") (force simp: search_result_def)+
  next
    case 3
    have "search_result p s (Some x) l (cfq_prio_tree_lookup pos s (Some x) l)"
      using Node.IH(1) [OF sub(1)] Node.prems(2) by simp
    moreover have "set_tree (Node l x r) = set_tree l \<union> insert x (set_tree r)" by auto
    moreover have "\<forall>y \<in> insert x (set_tree r). s < p y \<and> (\<forall>z \<in> set_tree l. p z < p y)"
      using 3 below above across by (auto intro: less_trans)
    moreover have "beside p s (insert x (set_tree r)) x" using 3 above by (auto simp: beside_def less_imp_le)
    ultimately show ?thesis
      using 3 x beside_left [of p s "set_tree l" _ "insert x (set_tree r)"]
      by (cases "l = Leaf") (force simp: search_result_def)+
  qed
qed

text \<open>Linking a new sector where the search ended keeps the tree sorted.\<close>

lemma prio_link_inorder:
  assumes "sorted_wrt (<) (map p (inorder t))" "\<And>x. x \<in> set_tree t \<Longrightarrow> pos x = Inr (p x)"
    and "\<And>x. x \<in> set_tree t \<Longrightarrow> p x \<noteq> p a"
  shows "sorted_wrt (<) (map p (inorder (prio_link pos (p a) a t))) \<and>
     set_tree (prio_link pos (p a) a t) = insert a (set_tree t)"
  using assms
proof (induction t)
  case (Node l x r)
  then have x: "pos x = Inr (p x)" "p x \<noteq> p a" by simp_all
  have sub: "sorted_wrt (<) (map p (inorder l))" "sorted_wrt (<) (map p (inorder r))"
    using Node.prems(1) by (auto simp: sorted_wrt_append)
  have "sorted_wrt (<) (map p (inorder (prio_link pos (p a) a l))) \<and>
      set_tree (prio_link pos (p a) a l) = insert a (set_tree l)"
    "sorted_wrt (<) (map p (inorder (prio_link pos (p a) a r))) \<and>
      set_tree (prio_link pos (p a) a r) = insert a (set_tree r)"
    using Node.IH sub Node.prems(2,3) by simp_all
  with Node.prems(1) x show ?case by (auto simp: sorted_wrt_append)
qed simp

section \<open>Close queues\<close>

text \<open>The sector of a queue's next request, and the trees whose nodes all have one.\<close>

definition next_at :: "'a cfq_data_scheme \<Rightarrow> nat \<Rightarrow> nat" where
  "next_at q x = (case next_pos q x of Inl _ \<Rightarrow> 0 | Inr p \<Rightarrow> p)"

definition prio_wf :: "'a cfq_data_scheme \<Rightarrow> nat tree \<Rightarrow> bool" where
  "prio_wf q t \<longleftrightarrow> sorted_wrt (<) (map (next_at q) (inorder t)) \<and>
     (\<forall>x \<in> set_tree t. \<exists>c rq r. cfqqs q x = Some c \<and> next_rq c = Some rq \<and> rqs q rq = Some r)"

lemma prio_wf_node:
  assumes "prio_wf q t" "x \<in> set_tree t"
  obtains r where "node_rq q x = Inr r" "next_pos q x = Inr (next_at q x)" "rq_pos r = next_at q x"
proof -
  from assms obtain c rq r where c: "cfqqs q x = Some c" "next_rq c = Some rq" "rqs q rq = Some r"
    unfolding prio_wf_def by blast
  then have "next_pos q x = Inr (rq_pos r)" by (simp add: next_pos_def)
  with c show ?thesis by (intro that [of r]) (simp_all add: node_rq_def next_at_def)
qed

definition head_gap :: "'a cfq_data_scheme \<Rightarrow> nat \<Rightarrow> nat" where
  "head_gap q x = (if next_at q x \<ge> last_position q then next_at q x - last_position q
     else last_position q - next_at q x)"

lemma rq_close_gap: "rq_pos r = next_at q x \<Longrightarrow> cfq_rq_close q r \<longleftrightarrow> head_gap q x \<le> CFQQ_CLOSE_THR"
  by (simp add: cfq_rq_close_def cfq_dist_from_last_def head_gap_def)

lemma sorted_neighbour:
  assumes "inorder t = xs @ w # ys" "sorted_wrt (<) (map p (inorder t))" "p w < s" "beside p s (set_tree t) w"
  shows "\<forall>y \<in> set ys. s \<le> p y" "\<forall>x \<in> set xs. p x \<le> p w" "ys \<noteq> [] \<longrightarrow> (\<forall>y \<in> set ys. p (hd ys) \<le> p y)"
proof -
  have t: "set_tree t = set xs \<union> insert w (set ys)" by (metis assms(1) set_inorder set_append list.simps(15))
  show "\<forall>y \<in> set ys. s \<le> p y"
  proof
    fix y assume "y \<in> set ys"
    then have "y \<in> set_tree t" "p w < p y" using t assms(1,2) by (auto simp: sorted_wrt_append)
    with assms(3,4) show "s \<le> p y" unfolding beside_def by (meson leD le_less_linear order.asym)
  qed
  show "\<forall>x \<in> set xs. p x \<le> p w" using assms(1,2) by (auto simp: sorted_wrt_append less_imp_le)
  show "ys \<noteq> [] \<longrightarrow> (\<forall>y \<in> set ys. p (hd ys) \<le> p y)"
    using assms(1,2) by (cases ys) (auto simp: sorted_wrt_append less_imp_le)
qed

lemma sorted_neighbour':
  assumes "inorder t = xs @ w # ys" "sorted_wrt (<) (map p (inorder t))" "s < p w" "beside p s (set_tree t) w"
  shows "\<forall>x \<in> set xs. p x \<le> s" "\<forall>y \<in> set ys. p w \<le> p y" "xs \<noteq> [] \<longrightarrow> (\<forall>x \<in> set xs. p x \<le> p (last xs))"
proof -
  have t: "set_tree t = set xs \<union> insert w (set ys)" by (metis assms(1) set_inorder set_append list.simps(15))
  show "\<forall>x \<in> set xs. p x \<le> s"
  proof
    fix x assume "x \<in> set xs"
    then have "x \<in> set_tree t" "p x < p w" using t assms(1,2) by (auto simp: sorted_wrt_append)
    with assms(3,4) show "p x \<le> s" unfolding beside_def by (meson leD le_less_linear order.asym)
  qed
  show "\<forall>y \<in> set ys. p w \<le> p y" using assms(1,2) by (auto simp: sorted_wrt_append less_imp_le)
  show "xs \<noteq> [] \<longrightarrow> (\<forall>x \<in> set xs. p x \<le> p (last xs))"
    using assms(1,2) by (cases xs rule: rev_cases) (auto simp: sorted_wrt_append less_imp_le)
qed

lemma sorted_distinct: "sorted_wrt (<) (map (p :: nat \<Rightarrow> nat) l) \<Longrightarrow> distinct l"
  by (induction l) auto

lemma next_in_hd:
  assumes "distinct (xs @ w # ys)"
  shows "next_in (xs @ w # ys) w = list_first ys"
  using next_in_split [OF assms] by (simp add: list_first_def)

text \<open>If neither the node where the search ended nor its neighbour is close, none is.\<close>

lemma no_other_close:
  assumes io: "inorder t = xs @ w # ys" and srt: "sorted_wrt (<) (map (next_at q) (inorder t))"
    and w: "beside (next_at q) (last_position q) (set_tree t) w" and far: "\<not> head_gap q w \<le> CFQQ_CLOSE_THR"
    and n: "\<forall>n. (if next_at q w < last_position q then list_first ys else list_first (rev xs)) = Some n \<longrightarrow>
      CFQQ_CLOSE_THR < head_gap q n"
  shows "\<forall>b \<in> set_tree t. CFQQ_CLOSE_THR < head_gap q b"
proof -
  let ?p = "next_at q" and ?s = "last_position q"
  have sets: "set_tree t = set xs \<union> insert w (set ys)" by (metis io set_inorder set_append list.simps(15))
  show ?thesis
  proof (cases "?p w < ?s")
    case True
    note nb = sorted_neighbour [OF io srt True w]
    have "CFQQ_CLOSE_THR < head_gap q b" if "b \<in> set xs" for b
      using far nb(2) True that by (fastforce simp: head_gap_def)
    moreover have "CFQQ_CLOSE_THR < head_gap q b" if "b \<in> set ys" for b
    proof -
      from that have "ys \<noteq> []" by auto
      then have "CFQQ_CLOSE_THR < head_gap q (hd ys)" "?s \<le> ?p (hd ys)" "?p (hd ys) \<le> ?p b"
        using True nb that n by (auto simp: list_first_eq_Some)
      then show ?thesis by (simp add: head_gap_def)
    qed
    ultimately show ?thesis using far by (auto simp: sets)
  next
    case False
    then have "?s < ?p w" using w by (auto simp: beside_def)
    note nb = sorted_neighbour' [OF io srt this w]
    have "CFQQ_CLOSE_THR < head_gap q b" if "b \<in> set ys" for b
      using far nb(2) \<open>?s < ?p w\<close> that by (fastforce simp: head_gap_def)
    moreover have "CFQQ_CLOSE_THR < head_gap q b" if "b \<in> set xs" for b
    proof -
      from that have "xs \<noteq> []" by auto
      then have "CFQQ_CLOSE_THR < head_gap q (last xs)" "?p (last xs) \<le> ?s" "?p b \<le> ?p (last xs)"
        using False nb that n by (auto simp: list_first_eq_Some hd_rev)
      then show ?thesis by (auto simp: head_gap_def split: if_splits)
    qed
    ultimately show ?thesis using far by (auto simp: sets)
  qed
qed

lemma cfqq_close_complete:
  assumes wf: "prio_wf q (prio_trees q (org_ioprio c))" and i: "org_ioprio c < CFQ_PRIO_LISTS"
  defines "A \<equiv> set_tree (prio_trees q (org_ioprio c))"
  shows "(\<exists>b \<in> A. cfqq_close c q = Inr (Some b) \<and> head_gap q b \<le> CFQQ_CLOSE_THR) \<or>
     cfqq_close c q = Inr None \<and> (\<forall>b \<in> A. CFQQ_CLOSE_THR < head_gap q b)"
proof -
  let ?t = "prio_trees q (org_ioprio c)" and ?s = "last_position q" and ?p = "next_at q"
  have srt: "sorted_wrt (<) (map ?p (inorder ?t))" using wf by (simp add: prio_wf_def)
  have pos: "next_pos q x = Inr (?p x)" if "x \<in> set_tree ?t" for x using prio_wf_node [OF wf that] by metis
  note look = prio_lookup [OF srt, of "next_pos q" ?s None, OF pos]
  show ?thesis
  proof (cases "?t = Leaf")
    case True
    then show ?thesis using i by (simp add: cfqq_close_def A_def)
  next
    case ne: False
    show ?thesis
    proof (cases "\<exists>x \<in> set_tree ?t. ?p x = ?s")
      case True
      with look obtain x where x: "x \<in> set_tree ?t" "?p x = ?s"
        "cfq_prio_tree_lookup (next_pos q) ?s None ?t = Inr (Some x, Some x)" by (auto simp: search_result_def)
      then have "cfqq_close c q = Inr (Some x)" using i ne by (simp add: cfqq_close_def Let_def)
      moreover have "head_gap q x \<le> CFQQ_CLOSE_THR" using x(2) by (simp add: head_gap_def)
      ultimately show ?thesis using x(1) by (auto simp: A_def)
    next
      case False
      with look ne obtain w where w: "cfq_prio_tree_lookup (next_pos q) ?s None ?t = Inr (None, Some w)"
        "beside ?p ?s (set_tree ?t) w" by (auto simp: search_result_def)
      then have win: "w \<in> set_tree ?t" by (simp add: beside_def)
      from prio_wf_node [OF wf win] obtain r where r: "node_rq q w = Inr r" "rq_pos r = ?p w" by metis
      from win obtain xs ys where io: "inorder ?t = xs @ w # ys" by (metis set_inorder split_list)
      have sets: "A = set xs \<union> insert w (set ys)" unfolding A_def by (metis io set_inorder set_append list.simps(15))
      have d: "distinct (xs @ w # ys)" using sorted_distinct [OF srt] io by simp
      have d': "distinct (rev ys @ w # rev xs)" using d by auto
      show ?thesis
      proof (cases "head_gap q w \<le> CFQQ_CLOSE_THR")
        case True
        then have "cfqq_close c q = Inr (Some w)"
          using i ne w(1) r rq_close_gap [OF r(2)] by (simp add: cfqq_close_def Let_def)
        with True win show ?thesis by (auto simp: A_def)
      next
        case far: False
        let ?n = "if ?p w < ?s then list_first ys else list_first (rev xs)"
        have res: "cfqq_close c q = (case ?n of None \<Rightarrow> Inr None
            | Some n \<Rightarrow> bindE (node_rq q n) (\<lambda>r. Inr (if cfq_rq_close q r then Some n else None)))"
          using i ne w(1) r rq_close_gap [OF r(2)] far next_in_hd [OF d] next_in_hd [OF d']
          by (simp add: cfqq_close_def Let_def io)
        note others = no_other_close [OF io srt w(2) far]
        show ?thesis
        proof (cases ?n)
          case None
          with others res show ?thesis by (simp add: A_def)
        next
          case (Some n)
          then have "n \<in> set ys \<or> n \<in> set (rev xs)" by (auto simp: list_first_eq_Some simp del: set_rev split: if_splits)
          then have "n \<in> set_tree ?t" using sets by (auto simp: A_def)
          from prio_wf_node [OF wf this] obtain rn where rn: "node_rq q n = Inr rn" "rq_pos rn = ?p n" by metis
          with res Some have "cfqq_close c q = Inr (if head_gap q n \<le> CFQQ_CLOSE_THR then Some n else None)"
            using rq_close_gap [OF rn(2)] by simp
          with others Some \<open>n \<in> set_tree ?t\<close> show ?thesis
            by (cases "head_gap q n \<le> CFQQ_CLOSE_THR") (auto simp: A_def)
        qed
      qed
    qed
  qed
qed

section \<open>Keeping the trees\<close>

text \<open>
  A tree holds the queues that point to it, sorted; while the next request of \<open>x\<close> changes,
  all but \<open>x\<close> are in order.
\<close>

definition prio_members :: "(nat \<rightharpoonup> cfq_queue) \<Rightarrow> nat \<Rightarrow> nat set" where
  "prio_members cs i = {a. \<exists>c. cs a = Some c \<and> p_root c = Some i}"

definition prio_but :: "nat set \<Rightarrow> 'a cfq_data_scheme \<Rightarrow> bool" where
  "prio_but X q \<longleftrightarrow>
     (\<forall>i. distinct (inorder (prio_trees q i)) \<and> set_tree (prio_trees q i) = prio_members (cfqqs q) i \<and>
        sorted_wrt (<) (map (next_at q) (filter (\<lambda>x. x \<notin> X) (inorder (prio_trees q i))))) \<and>
     (\<forall>a c i. a \<notin> X \<longrightarrow> cfqqs q a = Some c \<longrightarrow> p_root c = Some i \<longrightarrow>
        i < CFQ_PRIO_LISTS \<and> (\<exists>rq r. next_rq c = Some rq \<and> rqs q rq = Some r))"

lemma prio_but_wf: "prio_but {} q \<Longrightarrow> prio_wf q (prio_trees q i)"
  unfolding prio_but_def prio_wf_def prio_members_def by auto

lemma prio_but_mono:
  assumes "prio_but X q" "X \<subseteq> Y" shows "prio_but Y q"
proof -
  have f: "filter (\<lambda>x. x \<notin> Y) l = filter (\<lambda>x. x \<notin> Y) (filter (\<lambda>x. x \<notin> X) l)" for l :: "nat list"
    using assms(2) by (auto intro!: filter_cong)
  have "sorted_wrt (<) (map (next_at q) (filter (\<lambda>x. x \<notin> Y) l))"
    if "sorted_wrt (<) (map (next_at q) (filter (\<lambda>x. x \<notin> X) l))" for l
    using that unfolding f [of l] sorted_wrt_map by (rule sorted_wrt_filter)
  with assms show ?thesis unfolding prio_but_def by blast
qed

text \<open>The trees hold the queues that point to them, in whatever order.\<close>

definition prio_nodes :: "'a cfq_data_scheme \<Rightarrow> bool" where
  "prio_nodes q \<longleftrightarrow> (\<forall>i. distinct (inorder (prio_trees q i)) \<and> set_tree (prio_trees q i) = prio_members (cfqqs q) i)"

lemma prio_but_nodes: "prio_but X q \<Longrightarrow> prio_nodes q"
  by (simp add: prio_but_def prio_nodes_def)

text \<open>Taking a queue off its tree.\<close>

lemma leave_prio_tree_shape:
  assumes L: "lib_ok L" and P: "prio_nodes q" and a: "cfqqs q a = Some c"
  shows "\<exists>ts. leave_prio_tree L a q = Inr (q\<lparr>cfqqs := (cfqqs q)(a \<mapsto> c\<lparr>p_root := None\<rparr>), prio_trees := ts\<rparr>) \<and>
     (\<forall>i. inorder (ts i) = filter (\<lambda>x. x \<noteq> a) (inorder (prio_trees q i))) \<and>
     prio_nodes (q\<lparr>cfqqs := (cfqqs q)(a \<mapsto> c\<lparr>p_root := None\<rparr>), prio_trees := ts\<rparr>)"
proof -
  let ?cs = "(cfqqs q)(a \<mapsto> c\<lparr>p_root := None\<rparr>)"
  define ts where "ts = (case p_root c of None \<Rightarrow> prio_trees q
    | Some i \<Rightarrow> (prio_trees q)(i := rb_erase L a (prio_trees q i)))"
  let ?q = "q\<lparr>cfqqs := ?cs, prio_trees := ts\<rparr>"
  have res: "leave_prio_tree L a q = Inr ?q"
  proof (cases "p_root c")
    case None
    then have "c\<lparr>p_root := None\<rparr> = c" by simp
    then show ?thesis using None a by (simp add: leave_prio_tree_def ts_def fun_upd_idem)
  next
    case (Some i)
    then show ?thesis using a by (simp add: leave_prio_tree_def ts_def)
  qed
  have old: "distinct (inorder (prio_trees q i))" "set_tree (prio_trees q i) = prio_members (cfqqs q) i" for i
    using P by (auto simp: prio_nodes_def)
  have mem: "prio_members ?cs i = prio_members (cfqqs q) i - {a}" for i by (auto simp: prio_members_def)
  have io: "inorder (ts i) = filter (\<lambda>x. x \<noteq> a) (inorder (prio_trees q i))" for i
  proof (cases "p_root c = Some i")
    case True
    then show ?thesis using lib_okD(2) [OF L] old(1) [of i] by (simp add: ts_def distinct_remove1_removeAll removeAll_filter_not_eq)
      (metis (mono_tags, lifting))
  next
    case False
    then have "a \<notin> set (inorder (prio_trees q i))" using old(2) [of i] a by (auto simp: prio_members_def)
    moreover have "ts i = prio_trees q i" using False by (auto simp: ts_def split: option.split)
    ultimately show ?thesis by (metis (mono_tags, lifting) filter_True)
  qed
  have "set_tree (ts i) = prio_members ?cs i" for i
  proof -
    have "set (inorder (ts i)) = set (inorder (prio_trees q i)) - {a}" unfolding io by auto
    then show ?thesis unfolding mem using old(2) [of i] by (simp only: set_inorder)
  qed
  with old(1) io have "prio_nodes ?q" by (simp add: prio_nodes_def)
  with res io show ?thesis by blast
qed

lemma leave_prio_tree_ok:
  assumes L: "lib_ok L" and P: "prio_but {a} q" and a: "cfqqs q a = Some c"
  shows "\<exists>q'. leave_prio_tree L a q = Inr q' \<and> prio_but {} q' \<and>
     q' = q\<lparr>cfqqs := (cfqqs q)(a \<mapsto> c\<lparr>p_root := None\<rparr>), prio_trees := prio_trees q'\<rparr>"
proof -
  let ?cs = "(cfqqs q)(a \<mapsto> c\<lparr>p_root := None\<rparr>)"
  from leave_prio_tree_shape [OF L prio_but_nodes [OF P] a] obtain ts where
    res: "leave_prio_tree L a q = Inr (q\<lparr>cfqqs := ?cs, prio_trees := ts\<rparr>)"
    and io: "\<And>i. inorder (ts i) = filter (\<lambda>x. x \<noteq> a) (inorder (prio_trees q i))"
    and n: "prio_nodes (q\<lparr>cfqqs := ?cs, prio_trees := ts\<rparr>)" by blast
  let ?q = "q\<lparr>cfqqs := ?cs, prio_trees := ts\<rparr>"
  have nx: "next_at ?q = next_at q" using a by (auto simp: next_at_def next_pos_def deref_def fun_eq_iff split: option.split)
  have "prio_but {} ?q"
    using P n io unfolding prio_but_def prio_nodes_def nx by (auto split: if_splits)
  with res show ?thesis by (intro exI [of _ ?q]) simp
qed

text \<open>Putting a queue that is on no tree on the tree \<open>i\<close>, at the sector of its next request.\<close>

lemma prio_but_link:
  assumes L: "lib_ok L" and P: "prio_but {} q" and a: "cfqqs q a = Some c" "p_root c = None"
    and i: "i < CFQ_PRIO_LISTS" and rq: "next_rq c = Some rq" "rqs q rq = Some r"
    and new: "\<forall>x \<in> set_tree (prio_trees q i). next_at q x \<noteq> rq_pos r"
  shows "prio_but {} (q\<lparr>cfqqs := (cfqqs q)(a \<mapsto> c\<lparr>p_root := Some i\<rparr>),
     prio_trees := (prio_trees q)(i := rb_insert_color L (prio_link (next_pos q) (rq_pos r) a (prio_trees q i)))\<rparr>)"
proof -
  let ?cs = "(cfqqs q)(a \<mapsto> c\<lparr>p_root := Some i\<rparr>)" and ?t = "prio_trees q i"
  let ?ts = "(prio_trees q)(i := rb_insert_color L (prio_link (next_pos q) (rq_pos r) a ?t))"
  let ?q = "q\<lparr>cfqqs := ?cs, prio_trees := ?ts\<rparr>"
  have old: "distinct (inorder (prio_trees q j))" "set_tree (prio_trees q j) = prio_members (cfqqs q) j"
    "sorted_wrt (<) (map (next_at q) (inorder (prio_trees q j)))" for j
    using P by (auto simp: prio_but_def)
  have at: "next_at q a = rq_pos r" using a rq by (simp add: next_at_def next_pos_def)
  have pos: "next_pos q x = Inr (next_at q x)" if "x \<in> set_tree ?t" for x
    using prio_wf_node [OF prio_but_wf [OF P] that] by metis
  have ne: "next_at q x \<noteq> next_at q a" if "x \<in> set_tree ?t" for x using new that at by metis
  have k: "sorted_wrt (<) (map (next_at q) (inorder (?ts i)))" "set_tree (?ts i) = insert a (set_tree ?t)"
    using prio_link_inorder [OF old(3) pos ne] lib_okD(1) [OF L] unfolding at
    by (simp_all, metis set_inorder)
  have nx: "next_at ?q = next_at q" using a by (auto simp: next_at_def next_pos_def deref_def fun_eq_iff split: option.split)
  have mem: "prio_members ?cs j = (if j = i then insert a (prio_members (cfqqs q) j) else prio_members (cfqqs q) j)" for j
    using a by (auto simp: prio_members_def)
  have "distinct (inorder (?ts j)) \<and> set_tree (?ts j) = prio_members ?cs j \<and>
      sorted_wrt (<) (map (next_at q) (inorder (?ts j)))" for j
  proof (cases "j = i")
    case True
    show ?thesis unfolding True using k sorted_distinct [OF k(1)] mem [of i] old(2) [of i] by metis
  next
    case False
    then show ?thesis using old [of j] mem [of j] by simp
  qed
  moreover have "\<forall>b d j. cfqqs ?q b = Some d \<longrightarrow> p_root d = Some j \<longrightarrow>
      j < CFQ_PRIO_LISTS \<and> (\<exists>rq r. next_rq d = Some rq \<and> rqs ?q rq = Some r)"
    using P i rq by (auto simp: prio_but_def)
  ultimately show ?thesis unfolding prio_but_def nx by auto
qed

lemma cfq_prio_tree_add_ok:
  assumes L: "lib_ok L" and P: "prio_but {a} q" and a: "cfqqs q a = Some c"
    and i: "org_ioprio c < CFQ_PRIO_LISTS" and live: "\<And>rq. next_rq c = Some rq \<Longrightarrow> rqs q rq \<noteq> None"
  shows "\<exists>q' p. cfq_prio_tree_add L a q = Inr q' \<and> prio_but {} q' \<and>
     q' = q\<lparr>cfqqs := (cfqqs q)(a \<mapsto> c\<lparr>p_root := p\<rparr>), prio_trees := prio_trees q'\<rparr>"
proof -
  from leave_prio_tree_ok [OF L P a] obtain q1 where l: "leave_prio_tree L a q = Inr q1" "prio_but {} q1"
    "q1 = q\<lparr>cfqqs := (cfqqs q)(a \<mapsto> c\<lparr>p_root := None\<rparr>), prio_trees := prio_trees q1\<rparr>" by blast
  let ?c = "c\<lparr>p_root := None\<rparr>"
  have a1: "cfqqs q1 a = Some ?c" and cs1: "cfqqs q1 = (cfqqs q)(a \<mapsto> ?c)" and r1: "rqs q1 = rqs q"
    by (subst l(3), simp)+
  have idle: "cfq_class_idle ?c = cfq_class_idle c" by (simp add: cfq_class_idle_def)
  show ?thesis
  proof (cases "cfq_class_idle c \<or> next_rq c = None")
    case True
    then have "cfq_prio_tree_add L a q = Inr q1"
      using l(1) a1 idle by (auto simp: cfq_prio_tree_add_def split: option.split)
    with l(2,3) show ?thesis by (intro exI [of _ q1] exI [of _ None]) simp
  next
    case False
    then obtain rq where rq: "next_rq c = Some rq" by blast
    from live [OF rq] obtain r where r: "rqs q rq = Some r" by blast
    let ?i = "org_ioprio c"
    let ?t = "prio_trees q1 ?i"
    have pos: "next_pos q1 x = Inr (next_at q1 x)" if "x \<in> set_tree ?t" for x
      using prio_wf_node [OF prio_but_wf [OF l(2)] that] by metis
    have "sorted_wrt (<) (map (next_at q1) (inorder ?t))" using l(2) by (simp add: prio_but_def)
    from prio_lookup [OF this, of "next_pos q1" "rq_pos r" None, OF pos]
    have look: "search_result (next_at q1) (rq_pos r) None ?t
        (cfq_prio_tree_lookup (next_pos q1) (rq_pos r) None ?t)" .
    show ?thesis
    proof (cases "\<exists>x \<in> set_tree ?t. next_at q1 x = rq_pos r")
      case True
      with look obtain x where "cfq_prio_tree_lookup (next_pos q1) (rq_pos r) None ?t = Inr (Some x, Some x)"
        by (auto simp: search_result_def)
      then have "cfq_prio_tree_add L a q = Inr q1"
        using l(1) a1 idle False rq r r1 i by (simp add: cfq_prio_tree_add_def Let_def)
      with l(2,3) show ?thesis by (intro exI [of _ q1] exI [of _ None]) simp
    next
      case no: False
      with look obtain y where y: "cfq_prio_tree_lookup (next_pos q1) (rq_pos r) None ?t = Inr (None, y)"
        by (auto simp: search_result_def split: if_splits)
      let ?q = "q1\<lparr>cfqqs := (cfqqs q1)(a \<mapsto> ?c\<lparr>p_root := Some ?i\<rparr>),
        prio_trees := (prio_trees q1)(?i := rb_insert_color L (prio_link (next_pos q1) (rq_pos r) a ?t))\<rparr>"
      have "cfq_prio_tree_add L a q = Inr ?q"
        using l(1) a1 idle False rq r r1 i y by (simp add: cfq_prio_tree_add_def Let_def)
      moreover have "prio_but {} ?q"
        using prio_but_link [OF L l(2) a1 _ i] rq r r1 no by auto
      moreover have "?q = q\<lparr>cfqqs := (cfqqs q)(a \<mapsto> c\<lparr>p_root := Some ?i\<rparr>), prio_trees := prio_trees ?q\<rparr>"
        by (subst l(3)) (simp add: cs1)
      ultimately show ?thesis by blast
    qed
  qed
qed

section \<open>Trees that are out of order\<close>

text \<open>
  While the active queue dispatches, its next request changes and its node stays where it is.
  What the searches then still need: every node has a next request.
\<close>

definition prio_live :: "nat set \<Rightarrow> 'a cfq_data_scheme \<Rightarrow> bool" where
  "prio_live X q \<longleftrightarrow> prio_nodes q \<and>
     (\<forall>a c i. a \<notin> X \<longrightarrow> cfqqs q a = Some c \<longrightarrow> p_root c = Some i \<longrightarrow>
        i < CFQ_PRIO_LISTS \<and> (\<exists>rq r. next_rq c = Some rq \<and> rqs q rq = Some r))"

lemma prio_but_live: "prio_but X q \<Longrightarrow> prio_live X q"
  unfolding prio_live_def using prio_but_nodes [of X q] by (auto simp: prio_but_def)

lemma prio_live_mono: "prio_live X q \<Longrightarrow> X \<subseteq> Y \<Longrightarrow> prio_live Y q"
  unfolding prio_live_def by blast

lemma prio_live_pos:
  assumes "prio_live {} q" "x \<in> set_tree (prio_trees q i)"
  shows "next_pos q x = Inr (next_at q x)"
proof -
  from assms obtain c where c: "cfqqs q x = Some c" "p_root c = Some i"
    by (auto simp: prio_live_def prio_nodes_def prio_members_def)
  with assms(1) obtain rq r where "next_rq c = Some rq" "rqs q rq = Some r" unfolding prio_live_def by blast
  with c(1) show ?thesis by (simp add: next_at_def next_pos_def)
qed

lemma prio_lookup_live:
  assumes "\<And>x. x \<in> set_tree t \<Longrightarrow> pos x = Inr (p x)"
  shows "\<exists>f y. cfq_prio_tree_lookup pos s par t = Inr (f, y) \<and> (\<forall>x. f = Some x \<longrightarrow> x \<in> set_tree t) \<and>
     mset (inorder (prio_link pos s a t)) = add_mset a (mset (inorder t))"
  using assms
proof (induction t arbitrary: par)
  case (Node l x r)
  then have x: "pos x = Inr (p x)" by simp
  from Node.IH(1) [of "Some x"] Node.prems obtain f y where l: "cfq_prio_tree_lookup pos s (Some x) l = Inr (f, y)"
    "\<forall>x. f = Some x \<longrightarrow> x \<in> set_tree l" "mset (inorder (prio_link pos s a l)) = add_mset a (mset (inorder l))" by auto
  from Node.IH(2) [of "Some x"] Node.prems obtain g z where r: "cfq_prio_tree_lookup pos s (Some x) r = Inr (g, z)"
    "\<forall>x. g = Some x \<longrightarrow> x \<in> set_tree r" "mset (inorder (prio_link pos s a r)) = add_mset a (mset (inorder r))" by auto
  show ?case using x l r by auto
qed simp

lemma leave_prio_tree_live:
  assumes L: "lib_ok L" and P: "prio_live {a} q" and a: "cfqqs q a = Some c"
  shows "\<exists>q'. leave_prio_tree L a q = Inr q' \<and> prio_live {} q' \<and>
     q' = q\<lparr>cfqqs := (cfqqs q)(a \<mapsto> c\<lparr>p_root := None\<rparr>), prio_trees := prio_trees q'\<rparr>"
proof -
  have "prio_nodes q" using P by (simp add: prio_live_def)
  from leave_prio_tree_shape [OF L this a] obtain ts where
    res: "leave_prio_tree L a q = Inr (q\<lparr>cfqqs := (cfqqs q)(a \<mapsto> c\<lparr>p_root := None\<rparr>), prio_trees := ts\<rparr>)"
    and n: "prio_nodes (q\<lparr>cfqqs := (cfqqs q)(a \<mapsto> c\<lparr>p_root := None\<rparr>), prio_trees := ts\<rparr>)" by blast
  have "prio_live {} (q\<lparr>cfqqs := (cfqqs q)(a \<mapsto> c\<lparr>p_root := None\<rparr>), prio_trees := ts\<rparr>)"
    using P n by (auto simp: prio_live_def split: if_splits)
  with res show ?thesis by (intro exI [of _ "q\<lparr>cfqqs := (cfqqs q)(a \<mapsto> c\<lparr>p_root := None\<rparr>), prio_trees := ts\<rparr>"]) simp
qed

lemma cfq_prio_tree_add_live:
  assumes L: "lib_ok L" and P: "prio_live {a} q" and a: "cfqqs q a = Some c"
    and i: "org_ioprio c < CFQ_PRIO_LISTS" and live: "\<And>rq. next_rq c = Some rq \<Longrightarrow> rqs q rq \<noteq> None"
  shows "\<exists>q' p. cfq_prio_tree_add L a q = Inr q' \<and> prio_live {} q' \<and> (next_rq c = None \<longrightarrow> p = None) \<and>
     q' = q\<lparr>cfqqs := (cfqqs q)(a \<mapsto> c\<lparr>p_root := p\<rparr>), prio_trees := prio_trees q'\<rparr>"
proof -
  from leave_prio_tree_live [OF L P a] obtain q1 where l: "leave_prio_tree L a q = Inr q1" "prio_live {} q1"
    "q1 = q\<lparr>cfqqs := (cfqqs q)(a \<mapsto> c\<lparr>p_root := None\<rparr>), prio_trees := prio_trees q1\<rparr>" by blast
  let ?c = "c\<lparr>p_root := None\<rparr>" and ?i = "org_ioprio c"
  have a1: "cfqqs q1 a = Some ?c" and cs1: "cfqqs q1 = (cfqqs q)(a \<mapsto> ?c)" and r1: "rqs q1 = rqs q"
    by (subst l(3), simp)+
  have idle: "cfq_class_idle ?c = cfq_class_idle c" by (simp add: cfq_class_idle_def)
  show ?thesis
  proof (cases "cfq_class_idle c \<or> next_rq c = None")
    case True
    then have "cfq_prio_tree_add L a q = Inr q1"
      using l(1) a1 idle by (auto simp: cfq_prio_tree_add_def split: option.split)
    with l(2,3) show ?thesis by (intro exI [of _ q1] exI [of _ None]) simp
  next
    case False
    then obtain rq where rq: "next_rq c = Some rq" by blast
    from live [OF rq] obtain r where r: "rqs q rq = Some r" by blast
    let ?t = "prio_trees q1 ?i"
    have "next_pos q1 x = Inr (next_at q1 x)" if "x \<in> set_tree ?t" for x using prio_live_pos [OF l(2) that] .
    then obtain f y where look: "cfq_prio_tree_lookup (next_pos q1) (rq_pos r) None ?t = Inr (f, y)"
      "mset (inorder (prio_link (next_pos q1) (rq_pos r) a ?t)) = add_mset a (mset (inorder ?t))"
      using prio_lookup_live [where t = ?t and pos = "next_pos q1" and p = "next_at q1" and s = "rq_pos r" and par = None and a = a]
      by blast
    show ?thesis
    proof (cases f)
      case (Some x)
      then have "cfq_prio_tree_add L a q = Inr q1"
        using l(1) a1 idle False rq r r1 i look by (simp add: cfq_prio_tree_add_def Let_def)
      with l(2,3) show ?thesis by (intro exI [of _ q1] exI [of _ None]) simp
    next
      case None
      let ?ts = "(prio_trees q1)(?i := rb_insert_color L (prio_link (next_pos q1) (rq_pos r) a ?t))"
      let ?q = "q1\<lparr>cfqqs := (cfqqs q1)(a \<mapsto> ?c\<lparr>p_root := Some ?i\<rparr>), prio_trees := ?ts\<rparr>"
      have res: "cfq_prio_tree_add L a q = Inr ?q"
        using l(1) a1 idle False rq r r1 i look None by (simp add: cfq_prio_tree_add_def Let_def)
      have old: "distinct (inorder (prio_trees q1 j))" "set_tree (prio_trees q1 j) = prio_members (cfqqs q1) j" for j
        using l(2) by (auto simp: prio_live_def prio_nodes_def)
      have ms: "mset (inorder (?ts ?i)) = add_mset a (mset (inorder ?t))" using look(2) lib_okD(1) [OF L] by simp
      have "a \<notin> prio_members (cfqqs q1) ?i" by (simp add: prio_members_def a1)
      with old have "a \<notin> set (inorder ?t)" by simp
      with ms old(1) [of ?i] have "distinct (inorder (?ts ?i))"
        by (metis distinct.simps(2) mset.simps(2) mset_eq_imp_distinct_iff)
      moreover have "set (inorder (?ts ?i)) = insert a (set (inorder ?t))" using ms by (metis set_mset_add_mset_insert set_mset_mset)
      moreover have "prio_members (cfqqs ?q) j = (if j = ?i then insert a (prio_members (cfqqs q1) j) else prio_members (cfqqs q1) j)" for j
        using a1 by (auto simp: prio_members_def)
      ultimately have "prio_nodes ?q" using old by (simp add: prio_nodes_def)
      then have ok: "prio_live {} ?q" using l(2) i rq r r1 by (auto simp: prio_live_def split: if_splits)
      have e: "?q = q\<lparr>cfqqs := (cfqqs q)(a \<mapsto> c\<lparr>p_root := Some ?i\<rparr>), prio_trees := prio_trees ?q\<rparr>"
        by (subst l(3)) (simp add: cs1)
      show ?thesis
        by (rule exI [of _ ?q], rule exI [of _ "Some ?i"], intro conjI, rule res, rule ok, simp add: rq, rule e)
    qed
  qed
qed

end
