(* ===== verification/Cfq_Rr_Correct.thy ===== *)
theory Cfq_Rr_Correct
  imports Cfq_Rr Cfq_Prio
begin

text \<open>
  The list of busy queues: \<open>cfq_add_cfqq_rr\<close>, \<open>cfq_del_cfqq_rr\<close> and \<open>cfq_resort_rr_list\<close>
  never fault and keep groups, trees and counters in agreement.
\<close>

section \<open>The invariant\<close>

definition on_rr :: "(nat \<rightharpoonup> cfq_queue) \<Rightarrow> nat set" where
  "on_rr cs = {a. \<exists>c. cs a = Some c \<and> has On_rr c}"

definition sync_rr :: "(nat \<rightharpoonup> cfq_queue) \<Rightarrow> nat set" where
  "sync_rr cs = {a. \<exists>c. cs a = Some c \<and> has On_rr c \<and> has Sync c}"

definition busy_in :: "(nat \<rightharpoonup> cfq_queue) \<Rightarrow> nat \<Rightarrow> nat set" where
  "busy_in cs g = {a. \<exists>c. cs a = Some c \<and> has On_rr c \<and> cfqg c = Some g}"

definition nr_ok :: "(nat \<rightharpoonup> cfq_queue) \<Rightarrow> (nat \<rightharpoonup> cfq_group) \<Rightarrow> bool" where
  "nr_ok cs gs \<longleftrightarrow> (\<forall>g G. gs g = Some G \<longrightarrow>
     nr_cfqq G = int (card (busy_in cs g)) \<and> (g_linked G \<longleftrightarrow> 0 < nr_cfqq G) \<and> samples_ok (g_ttime G))"

definition counts_ok :: "'a cfq_data_scheme \<Rightarrow> bool" where
  "counts_ok q \<longleftrightarrow> busy_queues q = card (on_rr (cfqqs q)) \<and>
     busy_sync_queues q = of_nat (card (sync_rr (cfqqs q)))"

definition flags_ok :: "(nat \<rightharpoonup> cfq_queue) \<Rightarrow> bool" where
  "flags_ok cs \<longleftrightarrow> (\<forall>c \<in> ran cs. has On_rr c \<longleftrightarrow> rb_linked c)"

definition nexts_ok :: "'a cfq_data_scheme \<Rightarrow> bool" where
  "nexts_ok q \<longleftrightarrow> (\<forall>c \<in> ran (cfqqs q). org_ioprio c < CFQ_PRIO_LISTS \<and>
     (\<forall>rq. next_rq c = Some rq \<longrightarrow> rqs q rq \<noteq> None))"

definition rr_ok :: "'a cfq_data_scheme \<Rightarrow> bool" where
  "rr_ok q \<longleftrightarrow> grp_ok q \<and> trees_ok q \<and> room q \<and> flags_ok (cfqqs q) \<and> nr_ok (cfqqs q) (cfqgs q) \<and>
     counts_ok q \<and> prio_live {} q \<and> nexts_ok q"

lemma rr_okD:
  "rr_ok q \<Longrightarrow> grp_ok q" "rr_ok q \<Longrightarrow> trees_ok q" "rr_ok q \<Longrightarrow> room q" "rr_ok q \<Longrightarrow> flags_ok (cfqqs q)"
  "rr_ok q \<Longrightarrow> nr_ok (cfqqs q) (cfqgs q)" "rr_ok q \<Longrightarrow> counts_ok q" "rr_ok q \<Longrightarrow> prio_live {} q" "rr_ok q \<Longrightarrow> nexts_ok q"
  by (simp_all add: rr_ok_def)

lemma on_rr_upd: "on_rr (cs(a \<mapsto> c)) = (if has On_rr c then insert a (on_rr cs) else on_rr cs - {a})"
  by (auto simp: on_rr_def)

lemma sync_rr_upd:
  "sync_rr (cs(a \<mapsto> c)) = (if has On_rr c \<and> has Sync c then insert a (sync_rr cs) else sync_rr cs - {a})"
  by (auto simp: sync_rr_def)

lemma busy_in_upd:
  "busy_in (cs(a \<mapsto> c)) g = (if has On_rr c \<and> cfqg c = Some g then insert a (busy_in cs g) else busy_in cs g - {a})"
  by (auto simp: busy_in_def)

lemma rr_sets_same:
  assumes "cs a = Some c" "has On_rr c' = has On_rr c" "has Sync c' = has Sync c" "cfqg c' = cfqg c"
  shows "on_rr (cs(a \<mapsto> c')) = on_rr cs" "sync_rr (cs(a \<mapsto> c')) = sync_rr cs" "busy_in (cs(a \<mapsto> c')) = busy_in cs"
  using assms by (auto simp: on_rr_def sync_rr_def busy_in_def fun_eq_iff)

lemma finite_rr: "room q \<Longrightarrow> finite (on_rr (cfqqs q))" "room q \<Longrightarrow> finite (sync_rr (cfqqs q))"
    "room q \<Longrightarrow> finite (busy_in (cfqqs q) g)"
  unfolding room_def by (rule finite_subset [of _ "dom (cfqqs q)"]; auto simp: on_rr_def sync_rr_def busy_in_def)+

lemma flags_ok_upd: "flags_ok cs \<Longrightarrow> has On_rr c' = rb_linked c' \<Longrightarrow> flags_ok (cs(a \<mapsto> c'))"
  by (auto simp: flags_ok_def ran_def)

lemma flags_okD: "flags_ok cs \<Longrightarrow> cs a = Some c \<Longrightarrow> has On_rr c = rb_linked c"
  by (auto simp: flags_ok_def ran_def)

lemma nexts_okD:
  "nexts_ok q \<Longrightarrow> cfqqs q a = Some c \<Longrightarrow> org_ioprio c < CFQ_PRIO_LISTS"
  "nexts_ok q \<Longrightarrow> cfqqs q a = Some c \<Longrightarrow> next_rq c = Some rq \<Longrightarrow> rqs q rq \<noteq> None"
  by (auto simp: nexts_ok_def ran_def)

lemma nr_ok_trees:
  assumes "nr_ok cs gs" "same_but_trees gs gs'" "busy_in cs' = busy_in cs"
  shows "nr_ok cs' gs'"
  unfolding nr_ok_def
proof (intro allI impI)
  fix g G' assume "gs' g = Some G'"
  moreover have "map_option tree_free (gs g) = map_option tree_free (gs' g)" using assms(2) by (simp add: same_but_trees_def)
  ultimately obtain G where G: "gs g = Some G" "tree_free G = tree_free G'" by (cases "gs g") auto
  from arg_cong [OF G(2), of nr_cfqq] arg_cong [OF G(2), of g_linked] arg_cong [OF G(2), of g_ttime]
  have "nr_cfqq G' = nr_cfqq G" "g_linked G' = g_linked G" "g_ttime G' = g_ttime G" by simp_all
  with G(1) show "nr_cfqq G' = int (card (busy_in cs' g)) \<and> (g_linked G' \<longleftrightarrow> 0 < nr_cfqq G') \<and> samples_ok (g_ttime G')"
    using assms(1,3) by (simp add: nr_ok_def)
qed

text \<open>The group of one queue gains or loses it.\<close>

lemma nr_ok_count:
  assumes nr: "nr_ok cs gs" and g: "gs g = Some G"
    and side: "same_side (gs(g \<mapsto> G\<lparr>nr_cfqq := n\<rparr>)) gs'"
    and n: "n = int (card (busy_in cs' g))" and others: "\<And>h. h \<noteq> g \<Longrightarrow> busy_in cs' h = busy_in cs h"
    and lk: "linked gs' = (if 0 < n then insert g (linked gs) else linked gs - {g})"
  shows "nr_ok cs' gs'"
  unfolding nr_ok_def
proof (intro allI impI)
  fix h H' assume H': "gs' h = Some H'"
  have "map_option queue_side ((gs(g \<mapsto> G\<lparr>nr_cfqq := n\<rparr>)) h) = map_option queue_side (gs' h)"
    using side by (simp add: same_side_def)
  with H' obtain H where H: "(gs(g \<mapsto> G\<lparr>nr_cfqq := n\<rparr>)) h = Some H" "queue_side H = queue_side H'"
    by (cases "(gs(g \<mapsto> G\<lparr>nr_cfqq := n\<rparr>)) h") (simp_all del: fun_upd_apply)
  have l: "g_linked H' \<longleftrightarrow> h \<in> linked gs'" using H' by (simp add: linked_def)
  show "nr_cfqq H' = int (card (busy_in cs' h)) \<and> (g_linked H' \<longleftrightarrow> 0 < nr_cfqq H') \<and> samples_ok (g_ttime H')"
  proof (cases "h = g")
    case True
    with H have "nr_cfqq H' = n" "g_ttime H' = g_ttime G" by (auto simp: queue_side_def)
    moreover have "samples_ok (g_ttime G)" using nr g by (simp add: nr_ok_def)
    ultimately show ?thesis using True l lk n by auto
  next
    case False
    with H have "gs h = Some H" "nr_cfqq H' = nr_cfqq H" "g_ttime H' = g_ttime H" by (auto simp: queue_side_def)
    moreover from this(1) have "h \<in> linked gs \<longleftrightarrow> g_linked H" by (simp add: linked_def)
    ultimately show ?thesis using nr False l lk others [OF False] by (auto simp: nr_ok_def)
  qed
qed

section \<open>Changes that the trees of priorities do not see\<close>

lemma next_at_cong:
  assumes "\<And>x. map_option next_rq (cfqqs q x) = map_option next_rq (cfqqs q' x)" "rqs q' = rqs q"
  shows "next_at q = next_at q'"
proof
  fix x
  have "map_option next_rq (cfqqs q x) = map_option next_rq (cfqqs q' x)" by (rule assms(1))
  then show "next_at q x = next_at q' x" using assms(2)
    by (cases "cfqqs q x"; cases "cfqqs q' x") (simp_all add: next_at_def next_pos_def)
qed

lemma prio_live_queue:
  assumes P: "prio_live X q" and a: "cfqqs q a = Some c" "next_rq c' = next_rq c" "p_root c' = p_root c"
    and q': "cfqqs q' = (cfqqs q)(a \<mapsto> c')" "rqs q' = rqs q" "prio_trees q' = prio_trees q"
  shows "prio_live X q'"
proof -
  have "next_at q = next_at q'" by (rule next_at_cong) (use a q' in auto)
  moreover have "prio_members (cfqqs q') i = prio_members (cfqqs q) i" for i using a q' by (auto simp: prio_members_def)
  ultimately show ?thesis using P a(1) unfolding prio_live_def prio_nodes_def q' by (auto simp: a(2,3))
qed

lemma nexts_ok_queue:
  assumes "nexts_ok q" "cfqqs q a = Some c" "next_rq c' = next_rq c" "org_ioprio c' = org_ioprio c"
    and "cfqqs q' = (cfqqs q)(a \<mapsto> c')" "rqs q' = rqs q"
  shows "nexts_ok q'"
  using assms by (auto simp: nexts_ok_def ran_def)

section \<open>Resorting\<close>

lemma placed_queue_fields:
  assumes "placed_queue g c c'"
  shows "qflags c' = qflags c" "cfqg c' = cfqg c" "next_rq c' = next_rq c" "p_root c' = p_root c" "rb_linked c'"
    "org_ioprio c' = org_ioprio c" "sort_list c' = sort_list c" "qfifo c' = qfifo c" "queued c' = queued c"
    "has f c' = has f c"
  using assms by (auto simp: placed_queue_def has_def)

lemma trees_ok_prio:
  assumes T: "trees_ok q" and a: "cfqqs q a = Some c"
  shows "trees_ok (q\<lparr>cfqqs := (cfqqs q)(a \<mapsto> c\<lparr>p_root := p\<rparr>), prio_trees := ts\<rparr>)"
proof -
  have "trees_ok (q\<lparr>cfqqs := (cfqqs q)(a \<mapsto> c\<lparr>p_root := p\<rparr>)\<rparr>)" by (rule trees_ok_queue [OF T a]) simp_all
  then show ?thesis by (simp add: trees_ok_def)
qed

text \<open>The queue that changes place may change its key, its tree and its priority tree.\<close>

definition replaced :: "cfq_queue \<Rightarrow> cfq_queue \<Rightarrow> bool" where
  "replaced c c' \<longleftrightarrow> (\<exists>k r l t p. c' = c\<lparr>rb_key := k, slice_resid := r, rb_linked := l, service_tree := t, p_root := p\<rparr>)"

lemma replaced_refl: "replaced c c"
  unfolding replaced_def
  by (intro exI [of _ "rb_key c"] exI [of _ "slice_resid c"] exI [of _ "rb_linked c"] exI [of _ "service_tree c"]
      exI [of _ "p_root c"]) simp

lemma prio_step:
  assumes L: "lib_ok L" and q: "grp_ok q" "trees_ok q" "room q" "flags_ok (cfqqs q)" "nr_ok (cfqqs q) (cfqgs q)"
    "counts_ok q" "prio_live {a} q" "nexts_ok q" and a: "cfqqs q a = Some c"
  shows "\<exists>q' p. cfq_prio_tree_add L a q = Inr q' \<and> rr_ok q' \<and>
     q' = q\<lparr>cfqqs := (cfqqs q)(a \<mapsto> c\<lparr>p_root := p\<rparr>), prio_trees := prio_trees q'\<rparr>"
proof -
  from cfq_prio_tree_add_live [OF L q(7) a nexts_okD(1) [OF q(8) a] nexts_okD(2) [OF q(8) a]] obtain q' p where p:
    "cfq_prio_tree_add L a q = Inr q'" "prio_live {} q'"
    "q' = q\<lparr>cfqqs := (cfqqs q)(a \<mapsto> c\<lparr>p_root := p\<rparr>), prio_trees := prio_trees q'\<rparr>" by blast
  let ?c = "c\<lparr>p_root := p\<rparr>"
  have e: "cfqqs q' = (cfqqs q)(a \<mapsto> ?c)" "cfqgs q' = cfqgs q" "rqs q' = rqs q" "busy_queues q' = busy_queues q"
    "busy_sync_queues q' = busy_sync_queues q" "grp_service_tree q' = grp_service_tree q"
    by (subst p(3), simp)+
  have h: "has f ?c = has f c" for f by (simp add: has_def)
  note same = rr_sets_same [where cs = "cfqqs q", OF a h [of On_rr] h [of Sync], simplified]
  have "trees_ok q'" by (subst p(3)) (rule trees_ok_prio [OF q(2) a])
  moreover have "room q'" using q(3) a by (simp add: room_def e insert_absorb domI)
  moreover have "flags_ok (cfqqs q')"
    unfolding e(1) by (rule flags_ok_upd [OF q(4)]) (simp add: h flags_okD [OF q(4) a])
  moreover have "nr_ok (cfqqs q') (cfqgs q')"
    unfolding e by (rule nr_ok_trees [OF q(5) same_but_trees_refl same(3)])
  moreover have "counts_ok q'" using q(6) same(1,2) by (simp add: counts_ok_def e)
  moreover have "nexts_ok q'" by (rule nexts_ok_queue [OF q(8) a _ _ e(1,3)]) simp_all
  moreover have "grp_ok q'" using q(1) by (simp add: grp_ok_def e)
  ultimately have "rr_ok q'" using p(2) by (simp add: rr_ok_def)
  with p(1,3) show ?thesis by blast
qed

lemma replaced_prio: "replaced c d \<Longrightarrow> replaced c (d\<lparr>p_root := p\<rparr>)"
  unfolding replaced_def by (elim exE) (simp, blast)

lemma replaced_placed:
  assumes "placed_queue g c d"
  shows "replaced c d"
proof -
  from assms obtain k r where "d = c\<lparr>rb_key := k, slice_resid := r, rb_linked := True,
      service_tree := Some (st_for g (cfqq_class c) (cfqq_type c))\<rparr>" unfolding placed_queue_def by blast
  then have "d = c\<lparr>rb_key := k, slice_resid := r, rb_linked := True,
      service_tree := Some (st_for g (cfqq_class c) (cfqq_type c)), p_root := p_root c\<rparr>" by simp
  then show ?thesis unfolding replaced_def by blast
qed

text \<open>A busy queue may be placed anew, in front of the tree or at its key.\<close>

lemma place_ok:
  assumes L: "lib_ok L" and ok: "rr_ok q" and a: "cfqqs q a = Some c" "has On_rr c"
  shows "\<exists>q' c'. cfq_service_tree_add L now a f q = Some (Inr q') \<and> rr_ok q' \<and> replaced c c' \<and>
     q' = q\<lparr>cfqqs := (cfqqs q)(a \<mapsto> c'), cfqgs := cfqgs q'\<rparr> \<and> same_but_trees (cfqgs q) (cfqgs q')"
proof -
  obtain g where g: "cfqg c = Some g" using trees_okD(1) [OF rr_okD(2) [OF ok] a(1)] by (auto simp: placed_def)
  have lk: "rb_linked c" using flags_okD [OF rr_okD(4) [OF ok] a(1)] a(2) by simp
  from service_tree_place [OF L rr_okD(2,3) [OF ok] a(1) g, of now f] obtain q1 c1 where s:
    "cfq_service_tree_add L now a f q = Some (Inr q1)" "trees_ok q1" "same_but_trees (cfqgs q) (cfqgs q1)"
    "placed_queue g c c1" "q1 = q\<lparr>cfqqs := (cfqqs q)(a \<mapsto> c1), cfqgs := cfqgs q1\<rparr>" "grp_ok q1"
    using lk rr_okD(1) [OF ok] by auto
  have e: "cfqqs q1 = (cfqqs q)(a \<mapsto> c1)" "rqs q1 = rqs q" "busy_queues q1 = busy_queues q"
    "busy_sync_queues q1 = busy_sync_queues q" "prio_trees q1 = prio_trees q"
    by (subst s(5), simp)+
  note fs = placed_queue_fields [OF s(4)]
  note same = rr_sets_same [where cs = "cfqqs q", OF a(1) fs(10) fs(10) fs(2)]
  have "room q1" using rr_okD(3) [OF ok] a(1) by (simp add: room_def e insert_absorb domI)
  moreover have "flags_ok (cfqqs q1)"
    unfolding e(1) by (rule flags_ok_upd [OF rr_okD(4) [OF ok]]) (simp add: fs a(2))
  moreover have "nr_ok (cfqqs q1) (cfqgs q1)"
    unfolding e(1) by (rule nr_ok_trees [OF rr_okD(5) [OF ok] s(3) same(3)])
  moreover have "counts_ok q1" using rr_okD(6) [OF ok] same(1,2) by (simp add: counts_ok_def e)
  moreover have "nexts_ok q1" by (rule nexts_ok_queue [OF rr_okD(8) [OF ok] a(1) fs(3,6) e(1,2)])
  moreover have "prio_live {} q1" by (rule prio_live_queue [OF rr_okD(7) [OF ok] a(1) fs(3,4) e(1,2,5)])
  ultimately have "rr_ok q1" using s(2,6) by (simp add: rr_ok_def)
  moreover have "replaced c c1" by (rule replaced_placed [OF s(4)])
  ultimately show ?thesis using s(1,3,5) by (intro exI [of _ q1] exI [of _ c1] conjI)
qed

lemma prio_again:
  assumes L: "lib_ok L" and ok: "rr_ok q" and a: "cfqqs q a = Some c"
  obtains q' p where "cfq_prio_tree_add L a q = Inr q'" "rr_ok q'"
    "q' = q\<lparr>cfqqs := (cfqqs q)(a \<mapsto> c\<lparr>p_root := p\<rparr>), prio_trees := prio_trees q'\<rparr>"
proof -
  have "prio_live {a} q" by (rule prio_live_mono [OF rr_okD(7) [OF ok]]) simp
  with prio_step [OF L rr_okD(1-6) [OF ok] _ rr_okD(8) [OF ok] a] that show thesis by blast
qed

lemma resort_ok:
  assumes L: "lib_ok L" and ok: "rr_ok q" and a: "cfqqs q a = Some c"
  shows "\<exists>q' c'. cfq_resort_rr_list L now a q = Some (Inr q') \<and> rr_ok q' \<and> replaced c c' \<and>
     q' = q\<lparr>cfqqs := (cfqqs q)(a \<mapsto> c'), cfqgs := cfqgs q', prio_trees := prio_trees q'\<rparr> \<and>
     same_but_trees (cfqgs q) (cfqgs q')"
proof (cases "has On_rr c")
  case False
  with ok a replaced_refl show ?thesis
    by (intro exI [of _ q] exI [of _ c]) (simp add: cfq_resort_rr_list_def fun_upd_idem)
next
  case True
  from place_ok [OF L ok a True, of now False] obtain q1 c1 where s:
    "cfq_service_tree_add L now a False q = Some (Inr q1)" "rr_ok q1" "replaced c c1"
    "q1 = q\<lparr>cfqqs := (cfqqs q)(a \<mapsto> c1), cfqgs := cfqgs q1\<rparr>" "same_but_trees (cfqgs q) (cfqgs q1)"
    by (elim exE conjE) (rule that; assumption)
  have e: "cfqqs q1 = (cfqqs q)(a \<mapsto> c1)" by (subst s(4), simp)
  then have "cfqqs q1 a = Some c1" by simp
  from prio_again [OF L s(2) this] obtain q2 p where p: "cfq_prio_tree_add L a q1 = Inr q2" "rr_ok q2"
    "q2 = q1\<lparr>cfqqs := (cfqqs q1)(a \<mapsto> c1\<lparr>p_root := p\<rparr>), prio_trees := prio_trees q2\<rparr>" .
  have "replaced c (c1\<lparr>p_root := p\<rparr>)" using s(3) by (rule replaced_prio)
  moreover have gs2: "cfqgs q2 = cfqgs q1" by (subst p(3)) simp
  moreover have "q2 = q\<lparr>cfqqs := (cfqqs q)(a \<mapsto> c1\<lparr>p_root := p\<rparr>), cfqgs := cfqgs q2, prio_trees := prio_trees q2\<rparr>"
    by (subst p(3), subst (2) s(4)) (simp add: e gs2)
  ultimately show ?thesis using True a s(1,5) p(1,2)
    by (intro exI [of _ q2] exI [of _ "c1\<lparr>p_root := p\<rparr>"]) (simp add: cfq_resort_rr_list_def)
qed

section \<open>Adding and removing\<close>

lemma tree_of_side: "queue_side H = queue_side G \<Longrightarrow> tree_of H cls ty = tree_of G cls ty"
  by (simp add: queue_side_def tree_of_def)

lemma trees_ok_side:
  assumes T: "trees_ok q" and g: "cfqgs q g = Some G" and side: "same_side ((cfqgs q)(g \<mapsto> G\<lparr>nr_cfqq := n\<rparr>)) gs'"
  shows "trees_ok (q\<lparr>grp_service_tree := st, cfqgs := gs'\<rparr>)"
proof -
  let ?gs = "(cfqgs q)(g \<mapsto> G\<lparr>nr_cfqq := n\<rparr>)"
  have opt: "map_option queue_side (?gs x) = map_option queue_side (gs' x)" for x using side by (simp add: same_side_def)
  have "dom gs' = dom ?gs" unfolding dom_def using opt by (metis map_option_is_None)
  then have d: "dom gs' = dom (cfqgs q)" using g by auto
  have "st_ok (cfqqs q) (st_for h cls ty) (tree_of H' cls ty)" if "gs' h = Some H'" for h H' cls ty
  proof -
    from opt [of h] that obtain H where H: "?gs h = Some H" "queue_side H' = queue_side H"
      by (cases "?gs h") (simp_all del: fun_upd_apply)
    then obtain H0 where "cfqgs q h = Some H0" "tree_of H0 cls ty = tree_of H cls ty"
      using g by (auto simp: tree_of_def split: if_splits)
    with trees_okD(2) [OF T this(1), of cls ty] tree_of_side [OF H(2)] show ?thesis by metis
  qed
  with T show ?thesis by (simp add: trees_ok_def placed_same [OF d])
qed

lemma mark_fields [simp]:
  "rb_linked (mark f c) = rb_linked c" "rb_key (mark f c) = rb_key c" "service_tree (mark f c) = service_tree c"
  "cfqg (mark f c) = cfqg c" "next_rq (mark f c) = next_rq c" "p_root (mark f c) = p_root c"
  "org_ioprio (mark f c) = org_ioprio c" "sort_list (mark f c) = sort_list c" "qfifo (mark f c) = qfifo c"
  "queued (mark f c) = queued c" "ioprio_class (mark f c) = ioprio_class c"
  "rb_linked (clear f c) = rb_linked c" "rb_key (clear f c) = rb_key c" "service_tree (clear f c) = service_tree c"
  "cfqg (clear f c) = cfqg c" "next_rq (clear f c) = next_rq c" "p_root (clear f c) = p_root c"
  "org_ioprio (clear f c) = org_ioprio c" "sort_list (clear f c) = sort_list c" "qfifo (clear f c) = qfifo c"
  "queued (clear f c) = queued c" "ioprio_class (clear f c) = ioprio_class c"
  by (simp_all add: mark_def clear_def)

lemma add_cfqq_rr_ok:
  assumes L: "lib_ok L" and ok: "rr_ok q" and a: "cfqqs q a = Some c" "\<not> has On_rr c"
  shows "\<exists>q' c'. cfq_add_cfqq_rr L now a q = Some (Inr q') \<and> rr_ok q' \<and> replaced (mark On_rr c) c' \<and>
     q' = q\<lparr>cfqqs := (cfqqs q)(a \<mapsto> c'), cfqgs := cfqgs q', grp_service_tree := grp_service_tree q',
            prio_trees := prio_trees q', busy_queues := busy_queues q + 1, busy_sync_queues := busy_sync_queues q'\<rparr>"
proof -
  let ?c0 = "mark On_rr c"
  let ?bs = "if has Sync c then busy_sync_queues q + 1 else busy_sync_queues q"
  let ?q0 = "q\<lparr>cfqqs := (cfqqs q)(a \<mapsto> ?c0), busy_queues := busy_queues q + 1, busy_sync_queues := ?bs\<rparr>"
  obtain g where g: "cfqg c = Some g" using trees_okD(1) [OF rr_okD(2) [OF ok] a(1)] by (auto simp: placed_def)
  have lk: "\<not> rb_linked c" using flags_okD [OF rr_okD(4) [OF ok] a(1)] a(2) by simp
  have "trees_ok (q\<lparr>cfqqs := (cfqqs q)(a \<mapsto> ?c0)\<rparr>)" by (rule trees_ok_queue [OF rr_okD(2) [OF ok] a(1)]) simp_all
  then have T0: "trees_ok ?q0" by (simp add: trees_ok_def)
  have R0: "room ?q0" using rr_okD(3) [OF ok] a(1) by (simp add: room_def insert_absorb domI)
  have "cfqqs ?q0 a = Some ?c0" "cfqg ?c0 = Some g" by (simp_all add: g)
  from service_tree_place [OF L T0 R0 this, of now False] obtain q1 c1 where s:
    "cfq_service_tree_add L now a False ?q0 = cfq_group_notify_queue_add L g q1" "trees_ok q1"
    "same_but_trees (cfqgs ?q0) (cfqgs q1)" "placed_queue g ?c0 c1"
    "q1 = ?q0\<lparr>cfqqs := (cfqqs ?q0)(a \<mapsto> c1), cfqgs := cfqgs q1\<rparr>" "grp_ok q1"
    using lk rr_okD(1) [OF ok] by (auto simp: grp_ok_def)
  note f = placed_queue_fields [OF s(4)]
  have e: "cfqqs q1 = (cfqqs q)(a \<mapsto> c1)" "rqs q1 = rqs q" "busy_queues q1 = busy_queues q + 1"
    "busy_sync_queues q1 = ?bs" "prio_trees q1 = prio_trees q"
    by (subst s(5), simp)+
  obtain G1 where G1: "cfqgs q1 g = Some G1"
    using trees_okD(1) [OF s(2), of a c1] f(2) g by (auto simp: e placed_def)
  from notify_add_ok [OF L s(6) G1] obtain q2 G2 where n:
    "cfq_group_notify_queue_add L g q1 = Some (Inr q2)" "grp_ok q2" "cfqgs q2 g = Some G2" "nr_cfqq G2 = nr_cfqq G1 + 1"
    "q2 = q1\<lparr>grp_service_tree := grp_service_tree q2, cfqgs := cfqgs q2\<rparr>"
    "same_side ((cfqgs q1)(g \<mapsto> G1\<lparr>nr_cfqq := nr_cfqq G1 + 1\<rparr>)) (cfqgs q2)"
    "linked (cfqgs q2) = insert g (linked (cfqgs q1))"
    by (elim exE conjE) (rule that; assumption)
  have e2: "cfqqs q2 = (cfqqs q)(a \<mapsto> c1)" "rqs q2 = rqs q" "busy_queues q2 = busy_queues q + 1"
    "busy_sync_queues q2 = ?bs" "prio_trees q2 = prio_trees q"
    by (subst n(5), simp add: e)+
  have fin: "finite (on_rr (cfqqs q))" "finite (sync_rr (cfqqs q))" "finite (busy_in (cfqqs q) g)"
    using finite_rr [OF rr_okD(3) [OF ok]] by auto
  have out: "a \<notin> on_rr (cfqqs q)" "a \<notin> sync_rr (cfqqs q)" "a \<notin> busy_in (cfqqs q) g"
    using a by (auto simp: on_rr_def sync_rr_def busy_in_def)
  have sets: "on_rr (cfqqs q2) = insert a (on_rr (cfqqs q))"
    "sync_rr (cfqqs q2) = (if has Sync c then insert a (sync_rr (cfqqs q)) else sync_rr (cfqqs q))"
    "busy_in (cfqqs q2) h = (if h = g then insert a (busy_in (cfqqs q) h) else busy_in (cfqqs q) h)" for h
    using out a g by (auto simp: e2 on_rr_upd sync_rr_upd busy_in_upd f busy_in_def)
  have nr1: "nr_ok (cfqqs q) (cfqgs q1)" by (rule nr_ok_trees [OF rr_okD(5) [OF ok]]) (use s(3) in simp_all)
  then have cnt: "nr_cfqq G1 = int (card (busy_in (cfqqs q) g))" using G1 by (simp add: nr_ok_def)
  have T2: "trees_ok q2" by (subst n(5)) (rule trees_ok_side [OF s(2) G1 n(6)])
  have "nr_ok (cfqqs q2) (cfqgs q2)"
    by (rule nr_ok_count [OF nr1 G1 n(6)]) (use cnt sets(3) fin(3) out(3) n(7) in auto)
  moreover have "counts_ok q2"
    using rr_okD(6) [OF ok] fin out by (auto simp: counts_ok_def e2(3,4) sets)
  moreover have "room q2" using rr_okD(3) [OF ok] a by (simp add: room_def e2 insert_absorb domI)
  moreover have "flags_ok (cfqqs q2)"
    unfolding e2(1) by (rule flags_ok_upd [OF rr_okD(4) [OF ok]]) (simp add: f)
  moreover have "nexts_ok q2" by (rule nexts_ok_queue [OF rr_okD(8) [OF ok] a(1) _ _ e2(1,2)]) (simp_all add: f)
  moreover have "prio_live {} q2" by (rule prio_live_queue [OF rr_okD(7) [OF ok] a(1) _ _ e2(1,2,5)]) (simp_all add: f)
  then have "prio_live {a} q2" by (rule prio_live_mono) simp
  moreover have "cfqqs q2 a = Some c1" by (simp add: e2)
  ultimately obtain q3 p where p: "cfq_prio_tree_add L a q2 = Inr q3" "rr_ok q3"
    "q3 = q2\<lparr>cfqqs := (cfqqs q2)(a \<mapsto> c1\<lparr>p_root := p\<rparr>), prio_trees := prio_trees q3\<rparr>"
    using prio_step [OF L n(2) T2] by blast
  have "cfq_add_cfqq_rr L now a q = Some (Inr q3)"
    using a s(1) n(1) p(1) by (simp add: cfq_add_cfqq_rr_def cfq_resort_rr_list_def)
  moreover have "replaced ?c0 (c1\<lparr>p_root := p\<rparr>)"
    using s(4) unfolding placed_queue_def replaced_def by (auto, metis)
  moreover have "q3 = q\<lparr>cfqqs := (cfqqs q)(a \<mapsto> c1\<lparr>p_root := p\<rparr>), cfqgs := cfqgs q3,
      grp_service_tree := grp_service_tree q3, prio_trees := prio_trees q3, busy_queues := busy_queues q + 1,
      busy_sync_queues := busy_sync_queues q3\<rparr>"
  proof -
    have q3: "cfqgs q3 = cfqgs q2" "grp_service_tree q3 = grp_service_tree q2" "busy_sync_queues q3 = ?bs"
      by (subst p(3), simp add: e2)+
    have "q2\<lparr>cfqqs := X, prio_trees := Y\<rparr> = q\<lparr>cfqqs := X, cfqgs := cfqgs q2, grp_service_tree := grp_service_tree q2,
        prio_trees := Y, busy_queues := busy_queues q + 1, busy_sync_queues := ?bs\<rparr>" for X Y
      by (subst n(5), subst s(5)) simp
    then show ?thesis unfolding q3 by (subst p(3)) (simp add: e2)
  qed
  ultimately show ?thesis using p(2) by blast
qed

lemma set_counters:
  "r = q\<lparr>cfqqs := A, cfqgs := B, grp_service_tree := C, prio_trees := D\<rparr> \<Longrightarrow>
   r\<lparr>busy_queues := X, busy_sync_queues := Y\<rparr> = q\<lparr>cfqqs := A, cfqgs := B, grp_service_tree := C, prio_trees := D,
     busy_queues := X, busy_sync_queues := Y\<rparr>"
  by simp

lemma del_cfqq_rr_ok:
  assumes L: "lib_ok L" and ok: "rr_ok q" and a: "cfqqs q a = Some c" "has On_rr c"
  shows "\<exists>q'. cfq_del_cfqq_rr L a q = Some (Inr q') \<and> rr_ok q' \<and>
     cfqqs q' = (cfqqs q)(a \<mapsto> (clear On_rr c)\<lparr>rb_linked := False, service_tree := None, p_root := None\<rparr>) \<and>
     q' = q\<lparr>cfqqs := cfqqs q', cfqgs := cfqgs q', grp_service_tree := grp_service_tree q',
            prio_trees := prio_trees q', busy_queues := busy_queues q - 1, busy_sync_queues := busy_sync_queues q'\<rparr>"
proof -
  let ?c0 = "clear On_rr c"
  let ?c1 = "?c0\<lparr>rb_linked := False, service_tree := None\<rparr>"
  let ?c2 = "?c1\<lparr>p_root := None\<rparr>"
  let ?q0 = "q\<lparr>cfqqs := (cfqqs q)(a \<mapsto> ?c0)\<rparr>"
  let ?bs = "if has Sync c then busy_sync_queues q - 1 else busy_sync_queues q"
  obtain g where g: "cfqg c = Some g" "g \<in> dom (cfqgs q)"
    using trees_okD(1) [OF rr_okD(2) [OF ok] a(1)] by (auto simp: placed_def)
  have T0: "trees_ok ?q0" by (rule trees_ok_queue [OF rr_okD(2) [OF ok] a(1)]) simp_all
  have a0: "cfqqs ?q0 a = Some ?c0" by simp
  from leave_service_tree_ok [OF L T0 a0] obtain q1 where s:
    "leave_service_tree L a ?q0 = Inr q1" "trees_ok q1" "same_but_trees (cfqgs ?q0) (cfqgs q1)"
    "q1 = ?q0\<lparr>cfqqs := (cfqqs ?q0)(a \<mapsto> ?c1), cfqgs := cfqgs q1\<rparr>" "grp_ok ?q0 \<longrightarrow> grp_ok q1"
    by (elim exE conjE) (rule that; assumption)
  have e: "cfqqs q1 = (cfqqs q)(a \<mapsto> ?c1)" "rqs q1 = rqs q" "busy_queues q1 = busy_queues q"
    "busy_sync_queues q1 = busy_sync_queues q" "prio_trees q1 = prio_trees q"
    by (subst s(4), simp)+
  have "prio_live {} q1" by (rule prio_live_queue [OF rr_okD(7) [OF ok] a(1) _ _ e(1,2,5)]) simp_all
  then have P1: "prio_live {a} q1" by (rule prio_live_mono) simp
  have a1: "cfqqs q1 a = Some ?c1" by (simp add: e)
  from leave_prio_tree_live [OF L P1 a1] obtain q2 where r: "leave_prio_tree L a q1 = Inr q2" "prio_live {} q2"
    "q2 = q1\<lparr>cfqqs := (cfqqs q1)(a \<mapsto> ?c2), prio_trees := prio_trees q2\<rparr>"
    by (elim exE conjE) (rule that; assumption)
  have e2: "cfqqs q2 = (cfqqs q)(a \<mapsto> ?c2)" "rqs q2 = rqs q" "busy_queues q2 = busy_queues q"
    "busy_sync_queues q2 = busy_sync_queues q" "cfqgs q2 = cfqgs q1" "grp_service_tree q2 = grp_service_tree q1"
    by (subst r(3), simp add: e)+
  have "grp_ok ?q0" using rr_okD(1) [OF ok] by (simp add: grp_ok_def)
  with s(5) have "grp_ok q1" by simp
  then have G2: "grp_ok q2" by (simp add: grp_ok_def e2)
  have "q2 = q1\<lparr>cfqqs := (cfqqs q1)(a \<mapsto> ?c1\<lparr>p_root := None\<rparr>), prio_trees := prio_trees q2\<rparr>" by (rule r(3))
  then have T2: "trees_ok q2" by (metis trees_ok_prio [OF s(2) a1])
  have nr2: "nr_ok (cfqqs q) (cfqgs q2)" unfolding e2
    by (rule nr_ok_trees [OF rr_okD(5) [OF ok]]) (use s(3) in simp_all)
  obtain G where G: "cfqgs q2 g = Some G"
    using trees_okD(1) [OF T2, of a ?c2] g by (auto simp: e2(1) placed_def)
  have cnt: "nr_cfqq G = int (card (busy_in (cfqqs q) g))" "g_linked G \<longleftrightarrow> 0 < nr_cfqq G"
    using nr2 G by (auto simp: nr_ok_def)
  have fin: "finite (on_rr (cfqqs q))" "finite (sync_rr (cfqqs q))" "finite (busy_in (cfqqs q) g)"
    using finite_rr [OF rr_okD(3) [OF ok]] by auto
  have inn: "a \<in> on_rr (cfqqs q)" "has Sync c \<longleftrightarrow> a \<in> sync_rr (cfqqs q)" "a \<in> busy_in (cfqqs q) g"
    using a g by (auto simp: on_rr_def sync_rr_def busy_in_def)
  have pos: "1 \<le> nr_cfqq G" using fin(3) inn(3) card_gt_0_iff [of "busy_in (cfqqs q) g"] cnt(1) by auto
  from notify_del_ok [OF L G2 G pos] cnt(2) pos obtain q3 G3 where n:
    "cfq_group_notify_queue_del L g q2 = Some (Inr q3)" "grp_ok q3" "cfqgs q3 g = Some G3" "nr_cfqq G3 = nr_cfqq G - 1"
    "q3 = q2\<lparr>grp_service_tree := grp_service_tree q3, cfqgs := cfqgs q3\<rparr>"
    "same_side ((cfqgs q2)(g \<mapsto> G\<lparr>nr_cfqq := nr_cfqq G - 1\<rparr>)) (cfqgs q3)"
    "linked (cfqgs q3) = (if nr_cfqq G = 1 then linked (cfqgs q2) - {g} else linked (cfqgs q2))"
    by auto
  let ?q4 = "q3\<lparr>busy_queues := busy_queues q3 - 1, busy_sync_queues := ?bs\<rparr>"
  have e3: "cfqqs q3 = (cfqqs q)(a \<mapsto> ?c2)" "rqs q3 = rqs q" "busy_queues q3 = busy_queues q"
    "busy_sync_queues q3 = busy_sync_queues q" "prio_trees q3 = prio_trees q2"
    by (subst n(5), simp add: e2)+
  have sets: "on_rr (cfqqs q3) = on_rr (cfqqs q) - {a}" "sync_rr (cfqqs q3) = sync_rr (cfqqs q) - {a}"
    "busy_in (cfqqs q3) h = busy_in (cfqqs q) h - {a}" for h
    by (simp_all add: e3 on_rr_upd sync_rr_upd busy_in_upd has_def clear_def)
  have others: "busy_in (cfqqs q3) h = busy_in (cfqqs q) h" if "h \<noteq> g" for h
  proof -
    have "a \<notin> busy_in (cfqqs q) h" using that a g by (auto simp: busy_in_def)
    then show ?thesis by (simp add: sets)
  qed
  have "g \<in> linked (cfqgs q2)" using G cnt(2) pos by (simp add: linked_def)
  then have lk: "linked (cfqgs q3) = (if 0 < nr_cfqq G - 1 then insert g (linked (cfqgs q2)) else linked (cfqgs q2) - {g})"
    using n(7) pos by auto
  have c1: "nr_cfqq G - 1 = int (card (busy_in (cfqqs q3) g))"
    using cnt(1) fin(3) inn(3) pos by (simp add: sets(3) card_Diff_singleton of_nat_diff)
  have "nr_ok (cfqqs q3) (cfqgs q3)" by (rule nr_ok_count [OF nr2 G n(6) c1 others lk])
  moreover have bq: "0 < busy_queues q"
    using rr_okD(6) [OF ok] fin(1) inn(1) card_gt_0_iff [of "on_rr (cfqqs q)"] by (auto simp: counts_ok_def)
  moreover have "counts_ok ?q4"
  proof -
    have "busy_queues q - 1 = card (on_rr (cfqqs q) - {a})"
      using rr_okD(6) [OF ok] inn(1) by (simp add: counts_ok_def card_Diff_singleton)
    moreover have "?bs = of_nat (card (sync_rr (cfqqs q) - {a}))"
    proof (cases "has Sync c")
      case True
      then have "card (sync_rr (cfqqs q)) = Suc (card (sync_rr (cfqqs q) - {a}))"
        using fin(2) inn(2) card_Suc_Diff1 by metis
      with True rr_okD(6) [OF ok] show ?thesis by (simp add: counts_ok_def)
    qed (use rr_okD(6) [OF ok] inn(2) in \<open>simp add: counts_ok_def\<close>)
    ultimately show ?thesis by (simp add: counts_ok_def sets e3(3))
  qed
  moreover have "room ?q4" using rr_okD(3) [OF ok] a by (simp add: room_def e3 insert_absorb domI)
  moreover have "flags_ok (cfqqs ?q4)"
    by (simp add: e3) (rule flags_ok_upd [OF rr_okD(4) [OF ok]], simp add: has_def clear_def)
  moreover have "trees_ok ?q4"
  proof -
    have "trees_ok q3" by (subst n(5)) (rule trees_ok_side [OF T2 G n(6)])
    then show ?thesis by (simp add: trees_ok_def)
  qed
  moreover have "grp_ok ?q4" using n(2) by (simp add: grp_ok_def)
  moreover have "nexts_ok ?q4"
    by (rule nexts_ok_queue [OF rr_okD(8) [OF ok] a(1), where c' = ?c2]) (simp_all add: e3)
  moreover have "prio_live {} ?q4"
  proof -
    have "next_at q2 = next_at ?q4" by (rule next_at_cong) (simp_all add: e3 e2)
    then show ?thesis using r(2) by (simp add: prio_live_def prio_nodes_def e3 e2)
  qed
  ultimately have "rr_ok ?q4" by (simp add: rr_ok_def)
  moreover have "cfq_del_cfqq_rr L a q = Some (Inr ?q4)"
    using a s(1) r(1) n(1) bq by (simp add: cfq_del_cfqq_rr_def upd_cfqq_def g e3)
  moreover have "?q4 = q\<lparr>cfqqs := cfqqs ?q4, cfqgs := cfqgs ?q4, grp_service_tree := grp_service_tree ?q4,
       prio_trees := prio_trees ?q4, busy_queues := busy_queues q - 1, busy_sync_queues := busy_sync_queues ?q4\<rparr>"
  proof -
    have q1: "q1\<lparr>cfqqs := A, prio_trees := B, grp_service_tree := C, cfqgs := D\<rparr> =
        q\<lparr>cfqqs := A, cfqgs := D, grp_service_tree := C, prio_trees := B\<rparr>" for A B C D
      by (subst s(4)) simp
    have "q3 = q1\<lparr>cfqqs := (cfqqs q1)(a \<mapsto> ?c2), prio_trees := prio_trees q2,
        grp_service_tree := grp_service_tree q3, cfqgs := cfqgs q3\<rparr>"
      by (rule trans [OF n(5)], rule arg_cong [OF r(3)])
    note u = set_counters [OF trans [OF this q1]]
    show ?thesis by (rule trans [OF u]) (simp add: e3 e)
  qed
  ultimately show ?thesis by (intro exI [of _ ?q4]) (simp add: e3)
qed

end
