(* ===== verification/Cfq_Requests.thy ===== *)
theory Cfq_Requests
  imports Cfq_Life Cfq_Rr_Correct
begin

text \<open>
  The requests that CFQ holds: every queue's sorted tree, FIFO, next request and counters
  describe the same requests.  Dispatching one request and ending a slice keep that.
\<close>

section \<open>The rest of the device data\<close>

text \<open>What of \<open>rr_ok\<close> does not speak of the priority trees.\<close>

definition rr_core :: "'a cfq_data_scheme \<Rightarrow> bool" where
  "rr_core q \<longleftrightarrow> grp_ok q \<and> trees_ok q \<and> room q \<and> flags_ok (cfqqs q) \<and> nr_ok (cfqqs q) (cfqgs q) \<and> counts_ok q"

lemma rr_ok_core: "rr_ok q \<longleftrightarrow> rr_core q \<and> prio_live {} q \<and> nexts_ok q"
  by (auto simp: rr_ok_def rr_core_def)

lemma rr_core_frame:
  assumes "cfqqs q' = cfqqs q" "cfqgs q' = cfqgs q" "grp_service_tree q' = grp_service_tree q"
    "busy_queues q' = busy_queues q" "busy_sync_queues q' = busy_sync_queues q"
  shows "rr_core q' = rr_core q"
  using assms by (simp add: rr_core_def grp_ok_def trees_ok_def room_def counts_ok_def)

lemma prio_live_frame:
  assumes "cfqqs q' = cfqqs q" "rqs q' = rqs q" "prio_trees q' = prio_trees q"
  shows "prio_live X q' = prio_live X q"
  using assms by (simp add: prio_live_def prio_nodes_def)

lemma rr_ok_frame:
  assumes "cfqqs q' = cfqqs q" "cfqgs q' = cfqgs q" "grp_service_tree q' = grp_service_tree q"
    "busy_queues q' = busy_queues q" "busy_sync_queues q' = busy_sync_queues q"
    "rqs q' = rqs q" "prio_trees q' = prio_trees q"
  shows "rr_ok q' = rr_ok q"
  using rr_core_frame [OF assms(1-5)] prio_live_frame [OF assms(1,6,7)] assms
  by (simp add: rr_ok_core nexts_ok_def)

lemma rr_core_queue:
  assumes ok: "rr_core q" and a: "cfqqs q a = Some c"
    and same: "service_tree c' = service_tree c" "rb_linked c' = rb_linked c" "rb_key c' = rb_key c"
      "cfqg c' = cfqg c" "has On_rr c' = has On_rr c" "has Sync c' = has Sync c"
  shows "rr_core (q\<lparr>cfqqs := (cfqqs q)(a \<mapsto> c')\<rparr>)"
proof -
  let ?q = "q\<lparr>cfqqs := (cfqqs q)(a \<mapsto> c')\<rparr>"
  from ok have q: "grp_ok q" "trees_ok q" "room q" "flags_ok (cfqqs q)" "nr_ok (cfqqs q) (cfqgs q)" "counts_ok q"
    by (simp_all add: rr_core_def)
  note sets = rr_sets_same [where cs = "cfqqs q", OF a same(5,6,4)]
  have "trees_ok ?q" by (rule trees_ok_queue [OF q(2) a same(1-4)])
  moreover have "room ?q" using q(3) a by (simp add: room_def insert_absorb domI)
  moreover have "flags_ok (cfqqs ?q)"
    using flags_ok_upd [OF q(4), of c' a] flags_okD [OF q(4) a] same by simp
  moreover have "nr_ok (cfqqs ?q) (cfqgs ?q)" using q(5) by (simp add: nr_ok_def sets)
  moreover have "counts_ok ?q" using q(6) by (simp add: counts_ok_def sets)
  ultimately show ?thesis using q(1) by (simp add: rr_core_def grp_ok_def)
qed

lemma rr_ok_queue:
  assumes ok: "rr_ok q" and a: "cfqqs q a = Some c"
    and same: "service_tree c' = service_tree c" "rb_linked c' = rb_linked c" "rb_key c' = rb_key c"
      "cfqg c' = cfqg c" "has On_rr c' = has On_rr c" "has Sync c' = has Sync c"
    and prio: "next_rq c' = next_rq c" "p_root c' = p_root c" "org_ioprio c' < CFQ_PRIO_LISTS \<or> org_ioprio c' = org_ioprio c"
  shows "rr_ok (q\<lparr>cfqqs := (cfqqs q)(a \<mapsto> c')\<rparr>)"
proof -
  let ?q = "q\<lparr>cfqqs := (cfqqs q)(a \<mapsto> c')\<rparr>"
  from ok have q: "rr_core q" "prio_live {} q" "nexts_ok q" by (simp_all add: rr_ok_core)
  have "rr_core ?q" by (rule rr_core_queue [OF q(1) a same])
  moreover have "prio_live {} ?q" by (rule prio_live_queue [OF q(2) a prio(1,2)]) simp_all
  moreover have "nexts_ok ?q"
    using q(3) prio(1,3) nexts_okD [OF q(3) a] by (auto simp: nexts_ok_def ran_def)
  ultimately show ?thesis by (simp add: rr_ok_core)
qed

text \<open>Changes of a group that no tree and no count sees.\<close>

lemma rr_core_groups:
  assumes ok: "rr_core q" and side: "same_side (cfqgs q) gs'" and lk: "linked gs' = linked (cfqgs q)"
    and grp: "grp_ok (q\<lparr>cfqgs := gs', grp_service_tree := st\<rparr>)"
  shows "rr_core (q\<lparr>cfqgs := gs', grp_service_tree := st\<rparr>)"
proof -
  let ?gs = "cfqgs q"
  from ok have q: "trees_ok q" "room q" "flags_ok (cfqqs q)" "nr_ok (cfqqs q) ?gs" "counts_ok q"
    by (simp_all add: rr_core_def)
  have nr: "nr_ok (cfqqs q) gs'"
    unfolding nr_ok_def
  proof (intro allI impI)
    fix h H' assume H': "gs' h = Some H'"
    from side have "map_option queue_side (?gs h) = map_option queue_side (gs' h)" by (simp add: same_side_def)
    with H' obtain H where H: "?gs h = Some H" "queue_side H = queue_side H'" by (cases "?gs h") auto
    have "g_linked H' \<longleftrightarrow> g_linked H"
    proof -
      have "h \<in> linked gs' \<longleftrightarrow> h \<in> linked ?gs" by (simp only: lk)
      with H(1) H' show ?thesis by (simp add: linked_def)
    qed
    moreover have "nr_cfqq H' = nr_cfqq H" "g_ttime H' = g_ttime H" using H(2) by (simp_all add: queue_side_def)
    ultimately show "nr_cfqq H' = int (card (busy_in (cfqqs q) h)) \<and> (g_linked H' \<longleftrightarrow> 0 < nr_cfqq H') \<and> samples_ok (g_ttime H')"
      using q(4) H(1) by (simp add: nr_ok_def)
  qed
  have d: "dom gs' = dom ?gs" using side unfolding same_side_def dom_def by (metis map_option_is_None)
  have "st_ok (cfqqs q) (st_for h cls ty) (tree_of H' cls ty)" if "gs' h = Some H'" for h H' cls ty
  proof -
    from side have "map_option queue_side (?gs h) = map_option queue_side (gs' h)" by (simp add: same_side_def)
    with that obtain H where H: "?gs h = Some H" "queue_side H' = queue_side H" by (cases "?gs h") auto
    from trees_okD(2) [OF q(1) H(1), of cls ty] tree_of_side [OF H(2)] show ?thesis by metis
  qed
  then have "trees_ok (q\<lparr>cfqgs := gs', grp_service_tree := st\<rparr>)"
    using q(1) by (simp add: trees_ok_def placed_same [OF d])
  with grp nr q(2,3,5) show ?thesis by (simp add: rr_core_def room_def counts_ok_def)
qed

text \<open>A change of one group that no tree, no count and no weight sees.\<close>

definition plain_group :: "cfq_group \<Rightarrow> cfq_group \<Rightarrow> bool" where
  "plain_group G G' \<longleftrightarrow> g_linked G' = g_linked G \<and> gparent G' = gparent G \<and> weight G' = weight G \<and>
     leaf_weight G' = leaf_weight G \<and> nr_active G' = nr_active G \<and> children_weight G' = children_weight G \<and>
     weight_room G' = weight_room G \<and> vfraction G' = vfraction G \<and> vdisktime G' = vdisktime G \<and>
     service_trees G' = service_trees G \<and> service_tree_idle G' = service_tree_idle G \<and> nr_cfqq G' = nr_cfqq G \<and>
     (samples_ok (g_ttime G) \<longrightarrow> samples_ok (g_ttime G'))"

lemma rr_core_group:
  assumes ok: "rr_core q" and g: "cfqgs q g = Some G" and p: "plain_group G G'"
  shows "rr_core (q\<lparr>cfqgs := (cfqgs q)(g \<mapsto> G')\<rparr>)"
proof -
  let ?q = "q\<lparr>cfqgs := (cfqgs q)(g \<mapsto> G')\<rparr>"
  note p = p [unfolded plain_group_def]
  from ok have q: "grp_ok q" "trees_ok q" "nr_ok (cfqqs q) (cfqgs q)" by (simp_all add: rr_core_def)
  have "grp_ok ?q"
  proof (rule grp_ok_upd [OF q(1) g])
    show "grp_tree ((cfqgs q)(g \<mapsto> G')) (grp_service_tree q)"
      by (rule grp_tree_fields [OF grp_okD(4) [OF q(1)] g]) (use p in simp_all)
  qed (use p in simp_all)
  moreover have "trees_ok ?q"
  proof -
    have "tree_of G' = tree_of G" using p by (simp add: tree_of_def fun_eq_iff)
    with trees_okD(2) [OF q(2)] g have "st_ok (cfqqs q) (st_for h cls ty) (tree_of H cls ty)"
      if "cfqgs ?q h = Some H" for h H cls ty using that by (auto split: if_splits)
    with q(2) show ?thesis by (simp add: trees_ok_def placed_upd [where gs = "cfqgs q", OF g])
  qed
  moreover have "nr_ok (cfqqs q) (cfqgs ?q)" using q(3) g p by (auto simp: nr_ok_def)
  ultimately show ?thesis using ok by (simp add: rr_core_def room_def counts_ok_def)
qed

lemma rr_ok_group:
  assumes ok: "rr_ok q" and g: "cfqgs q g = Some G" and p: "plain_group G G'"
  shows "rr_ok (q\<lparr>cfqgs := (cfqgs q)(g \<mapsto> G')\<rparr>)"
  using rr_core_group [OF _ g p] ok
  by (simp add: rr_ok_core prio_live_frame [of "q\<lparr>cfqgs := (cfqgs q)(g \<mapsto> G')\<rparr>" q] nexts_ok_def)

section \<open>The synchronous queues of a group\<close>

lemma sint32_of_int: "- (2 ^ 31) \<le> v \<Longrightarrow> v < 2 ^ 31 \<Longrightarrow> sint (of_int v :: u32) = v"
  by (simp add: signed_of_int signed_take_bit_int_eq_self_iff)

text \<open>The count that \<open>cfq_group_served\<close> checks by \<open>BUG_ON\<close> is the count of some of the busy queues.\<close>

lemma nr_sync_queues_ok:
  assumes ok: "rr_core q" and g: "cfqgs q g = Some G"
  shows "0 \<le> nr_sync_queues G"
proof -
  from ok have q: "trees_ok q" "room q" "flags_ok (cfqqs q)" "nr_ok (cfqqs q) (cfqgs q)"
    by (simp_all add: rr_core_def)
  let ?n = "\<lambda>cls ty. members (cfqqs q) (st_for g cls ty)"
  have cnt: "st_count (tree_of G cls ty) = of_nat (card (?n cls ty))" for cls ty
    using trees_okD(2) [OF q(1) g, of cls ty] distinct_card [of "inorder (rb (tree_of G cls ty))"]
    unfolding st_ok_def by metis
  have sub: "?n cls ty \<subseteq> busy_in (cfqqs q) g" for cls ty
  proof
    fix x assume "x \<in> ?n cls ty"
    then obtain c where c: "cfqqs q x = Some c" "service_tree c = Some (st_for g cls ty)" by (auto simp: members_def)
    from trees_okD(1) [OF q(1) c(1)] c(2) obtain h cls' ty' where h: "cfqg c = Some h" "rb_linked c"
      "st_for g cls ty = st_for h cls' ty'" unfolding placed_def by auto
    with flags_okD [OF q(3) c(1)] c(1) show "x \<in> busy_in (cfqqs q) g" by (auto simp: busy_in_def)
  qed
  let ?A = "?n RT_WORKLOAD ASYNC_WORKLOAD" and ?B = "?n BE_WORKLOAD ASYNC_WORKLOAD"
    and ?C = "?n IDLE_WORKLOAD ASYNC_WORKLOAD"
  have fin: "finite (busy_in (cfqqs q) g)" by (rule finite_rr(3) [OF q(2)])
  then have f: "finite ?A" "finite ?B" "finite ?C" using sub finite_subset by blast+
  have d: "?A \<inter> ?B = {}" "(?A \<union> ?B) \<inter> ?C = {}" by (auto simp: members_def st_for_def)
  have "card ?A + card ?B + card ?C = card (?A \<union> ?B \<union> ?C)"
    using f d by (simp add: card_Un_disjoint)
  also have "\<dots> \<le> card (busy_in (cfqqs q) g)" by (rule card_mono [OF fin]) (use sub in blast)
  finally have le: "card ?A + card ?B + card ?C \<le> card (busy_in (cfqqs q) g)" .
  have "busy_in (cfqqs q) g \<subseteq> dom (cfqqs q)" by (auto simp: busy_in_def)
  then have lt: "card (busy_in (cfqqs q) g) < 2 ^ 31"
    using q(2) card_mono [of "dom (cfqqs q)"] unfolding room_def by (meson le_less_trans)
  have nr: "nr_cfqq G = int (card (busy_in (cfqqs q) g))" using q(4) g by (simp add: nr_ok_def)
  define v where "v = nr_cfqq G - int (card ?A) - int (card ?B) - int (card ?C)"
  have v: "0 \<le> v" "v < 2 ^ 31" using le lt nr unfolding v_def by simp_all
  have "nr_sync_queues G = sint (of_int v :: u32)" unfolding v_def
    using cnt [of RT_WORKLOAD ASYNC_WORKLOAD] cnt [of BE_WORKLOAD ASYNC_WORKLOAD] cnt [of IDLE_WORKLOAD ASYNC_WORKLOAD]
    by (simp add: nr_sync_queues_def cfqg_busy_async_queues_def tree_of_def algebra_simps)
  then show ?thesis using v sint32_of_int [of v] by linarith
qed

section \<open>The invariant\<close>

definition waiting :: "(nat \<rightharpoonup> cfq_queue) \<Rightarrow> nat set" where
  "waiting cs = {x. \<exists>a c. cs a = Some c \<and> x \<in> set_tree (sort_list c)}"

definition sync_of :: "(nat \<rightharpoonup> request) \<Rightarrow> nat \<Rightarrow> bool" where
  "sync_of rs x = rq_sync (the (rs x))"

definition queue_ok :: "(nat \<rightharpoonup> request) \<Rightarrow> nat \<Rightarrow> cfq_queue \<Rightarrow> bool" where
  "queue_ok rs a c \<longleftrightarrow> distinct (inorder (sort_list c)) \<and> mset (qfifo c) = mset (inorder (sort_list c)) \<and>
     (case next_rq c of None \<Rightarrow> sort_list c = Leaf | Some x \<Rightarrow> x \<in> set_tree (sort_list c)) \<and>
     (\<forall>x \<in> set_tree (sort_list c). \<exists>r. rs x = Some r \<and> priv0 r = Some a \<and> priv1 r = cfqg c) \<and>
     (\<forall>s. queued c s = int (length (filter (\<lambda>x. sync_of rs x = s) (inorder (sort_list c))))) \<and>
     (sort_list c \<noteq> Leaf \<longrightarrow> has On_rr c)"

text \<open>
  A queue on the list of busy queues that holds no request is the active one: it is kept there
  while the scheduler waits for its next request.
\<close>

definition cfq_ok :: "'a cfq_data_scheme \<Rightarrow> bool" where
  "cfq_ok q \<longleftrightarrow> rr_ok q \<and> (\<forall>a c. cfqqs q a = Some c \<longrightarrow> queue_ok (rqs q) a c) \<and>
     rq_queued q = int (card (waiting (cfqqs q))) \<and> nr_sorted q = rq_queued q \<and> set (queue_head q) \<subseteq> dom (rqs q) \<and>
     (\<forall>a. active_queue q = Some a \<longrightarrow> a \<in> on_rr (cfqqs q)) \<and>
     (\<forall>i. active_cic q = Some i \<longrightarrow> i \<in> dom (cics q)) \<and>
     (\<forall>a c. cfqqs q a = Some c \<longrightarrow> has On_rr c \<longrightarrow> sort_list c = Leaf \<longrightarrow> active_queue q = Some a)"

lemma cfq_okD:
  "cfq_ok q \<Longrightarrow> rr_ok q" "cfq_ok q \<Longrightarrow> cfqqs q a = Some c \<Longrightarrow> queue_ok (rqs q) a c"
  "cfq_ok q \<Longrightarrow> rq_queued q = int (card (waiting (cfqqs q)))" "cfq_ok q \<Longrightarrow> set (queue_head q) \<subseteq> dom (rqs q)"
  "cfq_ok q \<Longrightarrow> active_queue q = Some a \<Longrightarrow> a \<in> on_rr (cfqqs q)"
  "cfq_ok q \<Longrightarrow> active_cic q = Some i \<Longrightarrow> i \<in> dom (cics q)"
  "cfq_ok q \<Longrightarrow> cfqqs q a = Some c \<Longrightarrow> has On_rr c \<Longrightarrow> sort_list c = Leaf \<Longrightarrow> active_queue q = Some a"
  "cfq_ok q \<Longrightarrow> nr_sorted q = rq_queued q"
  by (simp_all add: cfq_ok_def)

lemma queue_okD:
  assumes "queue_ok rs a c"
  shows "distinct (inorder (sort_list c))" "mset (qfifo c) = mset (inorder (sort_list c))"
    "next_rq c = None \<longleftrightarrow> sort_list c = Leaf" "next_rq c = Some x \<Longrightarrow> x \<in> set_tree (sort_list c)"
    "x \<in> set_tree (sort_list c) \<Longrightarrow> \<exists>r. rs x = Some r \<and> priv0 r = Some a \<and> priv1 r = cfqg c"
    "queued c s = int (length (filter (\<lambda>x. sync_of rs x = s) (inorder (sort_list c))))"
    "sort_list c \<noteq> Leaf \<Longrightarrow> has On_rr c"
  using assms by (auto simp: queue_ok_def split: option.splits)

text \<open>A queue that differs only in what the invariant does not read.\<close>

lemma queue_ok_fields:
  assumes "queue_ok rs a c" "sort_list c' = sort_list c" "qfifo c' = qfifo c" "next_rq c' = next_rq c"
    "queued c' = queued c" "cfqg c' = cfqg c" "has On_rr c' = has On_rr c"
  shows "queue_ok rs a c'"
  using assms by (simp add: queue_ok_def split: option.splits)

lemma queue_ok_same:
  assumes "queue_ok rs a c" "same_requests rs rs'"
  shows "queue_ok rs' a c"
proof -
  have live: "\<exists>r'. rs' x = Some r' \<and> priv0 r' = priv0 r \<and> priv1 r' = priv1 r \<and> rq_sync r' = rq_sync r"
    if "rs x = Some r" for x r
    using same_requestsD [OF assms(2) that] by (metis rq_core_simps(5,7,8))
  have "filter (\<lambda>x. sync_of rs' x = s) (inorder (sort_list c)) = filter (\<lambda>x. sync_of rs x = s) (inorder (sort_list c))" for s
  proof (rule filter_cong [OF refl])
    fix x assume "x \<in> set (inorder (sort_list c))"
    then obtain r where "rs x = Some r" using queue_okD(5) [OF assms(1)] by force
    with live show "(sync_of rs' x = s) = (sync_of rs x = s)" by (force simp: sync_of_def)
  qed
  moreover have "\<exists>r. rs' x = Some r \<and> priv0 r = Some a \<and> priv1 r = cfqg c" if "x \<in> set_tree (sort_list c)" for x
    using queue_okD(5) [OF assms(1) that] live by metis
  ultimately show ?thesis using assms(1) by (simp add: queue_ok_def)
qed

lemma waiting_upd_same:
  "cs a = Some c \<Longrightarrow> sort_list c' = sort_list c \<Longrightarrow> waiting (cs(a \<mapsto> c')) = waiting cs"
  unfolding waiting_def by (metis (no_types, lifting) fun_upd_apply option.inject)

lemma finite_waiting: "room q \<Longrightarrow> finite (waiting (cfqqs q))"
proof -
  assume "room q"
  then have "finite (\<Union>a \<in> dom (cfqqs q). set_tree (sort_list (the (cfqqs q a))))" by (simp add: room_def)
  moreover have "waiting (cfqqs q) \<subseteq> (\<Union>a \<in> dom (cfqqs q). set_tree (sort_list (the (cfqqs q a))))"
    by (force simp: waiting_def)
  ultimately show ?thesis using finite_subset by blast
qed

text \<open>A request waits in one queue only.\<close>

lemma waiting_in:
  assumes ok: "cfq_ok q" and a: "cfqqs q a = Some c" "cfqqs q b = Some d"
    and x: "x \<in> set_tree (sort_list c)" "x \<in> set_tree (sort_list d)"
  shows "a = b"
  using queue_okD(5) [OF cfq_okD(2) [OF ok a(1)] x(1)] queue_okD(5) [OF cfq_okD(2) [OF ok a(2)] x(2)] by auto

text \<open>
  What dispatching leaves alone: the references of every queue and its planned merge, the
  contexts that exist, the requests but for their hash flag, and the slice lengths.
\<close>

definition ref_side :: "cfq_queue \<Rightarrow> int \<times> (data_dir \<Rightarrow> int) \<times> nat option" where
  "ref_side c = (qref c, allocated c, new_cfqq c)"

text \<open>A context has a bounded number of samples and a priority that a priority tree exists for.\<close>

definition cic_ok :: "cfq_io_cq \<Rightarrow> bool" where
  "cic_ok ic \<longleftrightarrow> samples_ok (c_ttime ic) \<and> IOPRIO_PRIO_DATA (c_ioprio ic) < CFQ_PRIO_LISTS"

definition cics_ok :: "(nat \<rightharpoonup> cfq_io_cq) \<Rightarrow> bool" where
  "cics_ok cs \<longleftrightarrow> (\<forall>ic \<in> ran cs. cic_ok ic)"

lemma cics_ok_upd: "cics_ok cs \<Longrightarrow> cic_ok ic \<Longrightarrow> cics_ok (cs(i \<mapsto> ic))"
  by (auto simp: cics_ok_def ran_def)

lemma cics_okD: "cics_ok cs \<Longrightarrow> cs i = Some ic \<Longrightarrow> cic_ok ic"
  by (auto simp: cics_ok_def ran_def)

definition keeps :: "'a cfq_data_scheme \<Rightarrow> 'a cfq_data_scheme \<Rightarrow> bool" where
  "keeps q q' \<longleftrightarrow> cfq_slice q' = cfq_slice q \<and> dom (cics q') = dom (cics q) \<and>
     (cics_ok (cics q) \<longrightarrow> cics_ok (cics q')) \<and> same_requests (rqs q) (rqs q') \<and>
     waiting (cfqqs q') \<subseteq> waiting (cfqqs q) \<and>
     (\<forall>x. map_option ref_side (cfqqs q' x) = map_option ref_side (cfqqs q x))"

lemma keeps_refl: "keeps q q"
  by (simp add: keeps_def)

lemma keeps_trans: "keeps a b \<Longrightarrow> keeps b c \<Longrightarrow> keeps a c"
  unfolding keeps_def using same_requests_trans by (metis subset_trans)

section \<open>Dispatching one request\<close>

lemma choose_total:
  assumes "\<And>x. n1 = Some x \<or> n2 = Some x \<Longrightarrow> rqs q x \<noteq> None"
  shows "\<exists>nx. cfq_choose_req q n1 n2 p = Inr nx \<and> (nx = None \<longleftrightarrow> n1 = None \<and> n2 = None) \<and>
     (\<forall>x. nx = Some x \<longrightarrow> n1 = Some x \<or> n2 = Some x)"
proof (cases n1)
  case (Some x)
  show ?thesis
  proof (cases n2)
    case (Some y)
    with \<open>n1 = Some x\<close> assms choose_req_min [of q x y p] show ?thesis by auto
  qed (simp add: Some)
qed simp

lemma find_next_total:
  assumes ok: "queue_ok (rqs q) a c" and l: "l \<in> set_tree (sort_list c)"
  shows "\<exists>nx. cfq_find_next_rq c l q = Inr nx \<and> (nx = None \<longleftrightarrow> inorder (sort_list c) = [l]) \<and>
     (\<forall>x. nx = Some x \<longrightarrow> x \<noteq> l \<and> x \<in> set_tree (sort_list c))"
proof -
  from l obtain xs ys where io: "inorder (sort_list c) = xs @ l # ys" by (metis set_inorder split_list)
  have d: "distinct (xs @ l # ys)" using queue_okD(1) [OF ok] io by simp
  have sets: "set_tree (sort_list c) = set xs \<union> insert l (set ys)" by (metis io set_inorder set_append list.simps(15))
  from queue_okD(5) [OF ok l] obtain r where r: "rqs q l = Some r" by blast
  let ?n1 = "case ys of y # _ \<Rightarrow> Some y | [] \<Rightarrow> list_first xs" and ?n2 = "list_first (rev xs)"
  have mem: "x \<in> set xs \<union> set ys" if "?n1 = Some x \<or> ?n2 = Some x" for x
  proof -
    have "hd xs \<in> set xs" "hd (rev xs) \<in> set xs" if "xs \<noteq> []" using that hd_in_set [of "rev xs"] by auto
    with that show ?thesis by (auto simp: list_first_eq_Some split: list.splits)
  qed
  then have "rqs q x \<noteq> None" if "?n1 = Some x \<or> ?n2 = Some x" for x
    using queue_okD(5) [OF ok, of x] that sets by force
  from choose_total [where q = q and p = "pos_of q l" and ?n1.0 = ?n1 and ?n2.0 = ?n2, OF this] obtain nx where nx:
    "cfq_choose_req q ?n1 ?n2 (pos_of q l) = Inr nx" "nx = None \<longleftrightarrow> ?n1 = None \<and> ?n2 = None"
    "\<forall>x. nx = Some x \<longrightarrow> ?n1 = Some x \<or> ?n2 = Some x" by blast
  have "nx = None \<longleftrightarrow> inorder (sort_list c) = [l]"
    unfolding io nx(2) by (cases xs; cases ys) auto
  moreover have "x \<noteq> l \<and> x \<in> set_tree (sort_list c)" if "nx = Some x" for x
    using mem [of x] nx(3) that d sets by auto
  ultimately show ?thesis using find_next_rq_split [OF io d r] nx(1) by auto
qed

text \<open>What taking a request from its queue changes, when it is not the next request.\<close>

definition without :: "kernel_lib \<Rightarrow> nat \<Rightarrow> bool \<Rightarrow> cfq_queue \<Rightarrow> cfq_queue" where
  "without L rq s c = (queued_add s (- 1) c)\<lparr>qfifo := remove1 rq (qfifo c), sort_list := rb_erase L rq (sort_list c)\<rparr>"

lemma without_fields [simp]:
  "dispatched (without L rq s c) = dispatched c" "nr_sectors (without L rq s c) = nr_sectors c"
  "has f (without L rq s c) = has f c" "p_root (without L rq s c) = p_root c" "cfqg (without L rq s c) = cfqg c"
  "service_tree (without L rq s c) = service_tree c" "rb_linked (without L rq s c) = rb_linked c"
  "rb_key (without L rq s c) = rb_key c" "org_ioprio (without L rq s c) = org_ioprio c"
  "sort_list (without L rq s c) = rb_erase L rq (sort_list c)"
  by (simp_all add: without_def queued_add_def has_def)

lemma remove_request_shape:
  assumes L: "lib_ok L" and P: "prio_nodes q" and a: "cfqqs q a = Some c" and r: "rqs q rq = Some r" "priv0 r = Some a"
    and nx: "next_rq c \<noteq> Some rq" and t: "rq \<in> set_tree (sort_list c)" "queued c (rq_sync r) \<noteq> 0"
  defines "c1 \<equiv> without L rq (rq_sync r) c"
  shows "\<exists>p ts pp. cfq_remove_request L rq q = Inr (q\<lparr>cfqqs := (cfqqs q)(a \<mapsto> c1\<lparr>p_root := p, prio_pending := pp\<rparr>),
       prio_trees := ts, rq_queued := rq_queued q - 1\<rparr>) \<and>
     prio_nodes (q\<lparr>cfqqs := (cfqqs q)(a \<mapsto> c1\<lparr>p_root := p, prio_pending := pp\<rparr>), prio_trees := ts\<rparr>) \<and>
     (has On_rr c \<and> sort_list c1 = Leaf \<longrightarrow> p = None) \<and> (p = None \<or> p = p_root c)"
proof -
  let ?q = "q\<lparr>cfqqs := (cfqqs q)(a \<mapsto> c1)\<rparr>"
  let ?del = "if has On_rr c \<and> sort_list c1 = Leaf then leave_prio_tree L a ?q else Inr ?q"
  have h: "has On_rr c1 = has On_rr c" by (simp add: has_def c1_def without_def queued_add_def)
  have e: "(queued_add (rq_sync r) (- 1) (c\<lparr>qfifo := remove1 rq (qfifo c)\<rparr>))\<lparr>sort_list := rb_erase L rq (sort_list c)\<rparr> = c1"
    by (cases c) (simp add: c1_def without_def queued_add_def)
  have "sort_list c1 = rb_erase L rq (sort_list c)" by (simp add: c1_def without_def)
  then have "cfq_del_rq_rb L rq (q\<lparr>cfqqs := (cfqqs q)(a \<mapsto> c\<lparr>qfifo := remove1 rq (qfifo c)\<rparr>)\<rparr>) = ?del"
    using r t h by (simp add: cfq_del_rq_rb_def RQ_CFQQ_def elv_rb_del_def Let_def split del: if_split) (simp only: e)
  then have rem: "cfq_remove_request L rq q = bindE ?del (\<lambda>q.
      let q = q\<lparr>rq_queued := rq_queued q - 1\<rparr> in
      if REQ_PRIO \<in> cmd_flags r then upd_cfqq a (\<lambda>c. c\<lparr>prio_pending := prio_pending c - 1\<rparr>) q else Inr q)"
    using a r nx by (simp add: cfq_remove_request_def RQ_CFQQ_def upd_cfqq_def)
  have P1: "prio_nodes ?q" using P a by (auto simp: prio_nodes_def prio_members_def c1_def without_def queued_add_def)
  let ?pp = "if REQ_PRIO \<in> cmd_flags r then prio_pending c1 - 1 else prio_pending c1"
  show ?thesis
  proof (cases "has On_rr c \<and> sort_list c1 = Leaf")
    case True
    have "cfqqs ?q a = Some c1" by simp
    from leave_prio_tree_shape [OF L P1 this] obtain ts where ts:
      "leave_prio_tree L a ?q = Inr (q\<lparr>cfqqs := (cfqqs q)(a \<mapsto> c1\<lparr>p_root := None\<rparr>), prio_trees := ts\<rparr>)"
      "prio_nodes (q\<lparr>cfqqs := (cfqqs q)(a \<mapsto> c1\<lparr>p_root := None\<rparr>), prio_trees := ts\<rparr>)" by auto
    have "prio_nodes (q\<lparr>cfqqs := (cfqqs q)(a \<mapsto> c1\<lparr>p_root := None, prio_pending := ?pp\<rparr>), prio_trees := ts\<rparr>)"
      using ts(2) by (auto simp: prio_nodes_def prio_members_def split: if_splits)
    with True ts(1) show ?thesis unfolding rem
      by (intro exI [of _ None] exI [of _ ts] exI [of _ ?pp]) (simp add: upd_cfqq_def Let_def)
  next
    case False
    have "prio_nodes (q\<lparr>cfqqs := (cfqqs q)(a \<mapsto> c1\<lparr>p_root := p_root c, prio_pending := ?pp\<rparr>), prio_trees := prio_trees q\<rparr>)"
      using P a by (auto simp: prio_nodes_def prio_members_def)
    moreover have "c1\<lparr>p_root := p_root c, prio_pending := n\<rparr> = c1\<lparr>prio_pending := n\<rparr>" for n
      by (simp add: c1_def without_def queued_add_def)
    ultimately show ?thesis using False unfolding rem
      by (intro exI [of _ "p_root c"] exI [of _ "prio_trees q"] exI [of _ ?pp]) (auto simp: upd_cfqq_def Let_def)
  qed
qed

lemma queue_ok_without:
  assumes L: "lib_ok L" and ok: "queue_ok rs a c" and x: "rq \<in> set_tree (sort_list c)" and r: "rs rq = Some r"
    and nx: "nx = None \<longleftrightarrow> inorder (sort_list c) = [rq]" "\<And>y. nx = Some y \<Longrightarrow> y \<noteq> rq \<and> y \<in> set_tree (sort_list c)"
  shows "queue_ok rs a ((without L rq (rq_sync r) c)\<lparr>next_rq := nx\<rparr>)"
proof -
  let ?io = "inorder (sort_list c)"
  have d: "distinct ?io" by (rule queue_okD(1) [OF ok])
  have io: "inorder (rb_erase L rq (sort_list c)) = remove1 rq ?io" by (rule lib_okD(2) [OF L])
  have set: "set_tree (rb_erase L rq (sort_list c)) = set_tree (sort_list c) - {rq}"
    using set_inorder io set_remove1_eq [OF d] by metis
  have leaf: "rb_erase L rq (sort_list c) = Leaf \<longleftrightarrow> ?io = [rq]"
  proof -
    have "rb_erase L rq (sort_list c) = Leaf \<longleftrightarrow> remove1 rq ?io = []" 
      unfolding io [symmetric] by (cases "rb_erase L rq (sort_list c)") auto
    also have "\<dots> \<longleftrightarrow> ?io = [rq]" using x by (cases ?io) auto
    finally show ?thesis .
  qed
  have "Suc (length (filter (\<lambda>y. sync_of rs y = rq_sync r) (remove1 rq ?io))) = length (filter (\<lambda>y. sync_of rs y = rq_sync r) ?io)"
  proof -
    have "rq \<in> set (filter (\<lambda>y. sync_of rs y = rq_sync r) ?io)" using x r by (simp add: sync_of_def)
    from length_pos_if_in_set [OF this] this show ?thesis unfolding filter_remove1 length_remove1 by simp
  qed
  moreover have "filter (\<lambda>y. sync_of rs y = s) (remove1 rq ?io) = filter (\<lambda>y. sync_of rs y = s) ?io" if "s \<noteq> rq_sync r" for s
  proof -
    have "rq \<notin> set (filter (\<lambda>y. sync_of rs y = s) ?io)" using r that by (auto simp: sync_of_def)
    then show ?thesis unfolding filter_remove1 by (rule remove1_idem)
  qed
  ultimately have cnt: "queued c s - of_bool (s = rq_sync r) = int (length (filter (\<lambda>y. sync_of rs y = s) (remove1 rq ?io)))" for s
    using queue_okD(6) [OF ok, of s] by (cases "s = rq_sync r") auto
  have "has On_rr c" using queue_okD(7) [OF ok] x by (cases "sort_list c") auto
  let ?c = "(without L rq (rq_sync r) c)\<lparr>next_rq := nx\<rparr>"
  have "distinct (inorder (sort_list ?c))" "mset (qfifo ?c) = mset (inorder (sort_list ?c))"
    using d queue_okD(2) [OF ok] by (simp_all add: without_def io)
  moreover have "case next_rq ?c of None \<Rightarrow> sort_list ?c = Leaf | Some y \<Rightarrow> y \<in> set_tree (sort_list ?c)"
    using nx leaf set by (auto simp: without_def split: option.split)
  moreover have "\<forall>y \<in> set_tree (sort_list ?c). \<exists>r. rs y = Some r \<and> priv0 r = Some a \<and> priv1 r = cfqg ?c"
    using queue_okD(5) [OF ok] set by (auto simp: without_def queued_add_def)
  moreover have "queued ?c s = int (length (filter (\<lambda>y. sync_of rs y = s) (inorder (sort_list ?c))))" for s
    using cnt [of s] by (auto simp: without_def queued_add_def io)
  moreover have "has On_rr ?c" using \<open>has On_rr c\<close> by (simp add: has_def without_def queued_add_def)
  ultimately show ?thesis unfolding queue_ok_def by blast
qed

lemma waiting_without:
  assumes ok: "cfq_ok q" and a: "cfqqs q a = Some c" and t: "set_tree (sort_list c') = set_tree (sort_list c) - {rq}"
    and x: "rq \<in> set_tree (sort_list c)"
  shows "waiting ((cfqqs q)(a \<mapsto> c')) = waiting (cfqqs q) - {rq}"
proof (intro set_eqI iffI)
  fix y assume "y \<in> waiting ((cfqqs q)(a \<mapsto> c'))"
  then obtain b d where b: "((cfqqs q)(a \<mapsto> c')) b = Some d" "y \<in> set_tree (sort_list d)" by (auto simp: waiting_def)
  show "y \<in> waiting (cfqqs q) - {rq}"
  proof (cases "b = a")
    case True
    with b t a show ?thesis by (auto simp: waiting_def)
  next
    case False
    with b(1) have d: "cfqqs q b = Some d" by simp
    have "y \<noteq> rq" using waiting_in [OF ok a d x] b(2) False by auto
    with d b(2) show ?thesis by (auto simp: waiting_def)
  qed
next
  fix y assume "y \<in> waiting (cfqqs q) - {rq}"
  then obtain b d where b: "cfqqs q b = Some d" "y \<in> set_tree (sort_list d)" "y \<noteq> rq" by (auto simp: waiting_def)
  show "y \<in> waiting ((cfqqs q)(a \<mapsto> c'))"
  proof (cases "b = a")
    case True
    with b a t have "y \<in> set_tree (sort_list c')" by auto
    then show ?thesis unfolding waiting_def by force
  next
    case False
    with b show ?thesis unfolding waiting_def by force
  qed
qed

text \<open>The queue after one of its requests was sent off.\<close>

definition sent :: "kernel_lib \<Rightarrow> nat \<Rightarrow> request \<Rightarrow> nat option \<Rightarrow> nat option \<Rightarrow> int \<Rightarrow> cfq_queue \<Rightarrow> cfq_queue" where
  "sent L rq r nx p pp c = ((without L rq (rq_sync r) c)\<lparr>next_rq := nx, p_root := p, prio_pending := pp,
     dispatched := dispatched c + 1, nr_sectors := nr_sectors c + rq_sectors r\<rparr>)"

lemma dispatch_insert_shape:
  assumes L: "lib_ok L" and ok: "cfq_ok q" and a: "cfqqs q a = Some c" and x: "rq \<in> set_tree (sort_list c)"
  shows "\<exists>q' r g G nx p ts pp m lm h n f. cfq_dispatch_insert L rq q = Inr q' \<and>
     q' = q\<lparr>prio_trees := ts, rq_queued := rq_queued q - 1, cfqgs := (cfqgs q)(g \<mapsto> G\<lparr>g_dispatched := n\<rparr>),
       rqs := m, last_merge := lm, nr_sorted := nr_sorted q - 1, rqhash := h, queue_head := queue_head q',
       cfqqs := (cfqqs q)(a \<mapsto> sent L rq r nx p pp c), rq_in_flight := f\<rparr> \<and>
     mset (queue_head q') = add_mset rq (mset (queue_head q)) \<and> cfqgs q g = Some G \<and>
     same_requests (rqs q) m \<and> rqs q rq = Some r \<and> (nx = None \<longleftrightarrow> inorder (sort_list c) = [rq]) \<and>
     (\<forall>y. nx = Some y \<longrightarrow> y \<noteq> rq \<and> y \<in> set_tree (sort_list c)) \<and>
     prio_nodes (q\<lparr>cfqqs := (cfqqs q)(a \<mapsto> sent L rq r nx p pp c), prio_trees := ts\<rparr>) \<and>
     (nx = None \<longrightarrow> p = None) \<and> (p = None \<or> p = p_root c)"
proof -
  note qok = cfq_okD(2) [OF ok a]
  have rr: "rr_ok q" by (rule cfq_okD(1) [OF ok])
  from queue_okD(5) [OF qok x] obtain r where r: "rqs q rq = Some r" "priv0 r = Some a" "priv1 r = cfqg c" by blast
  from trees_okD(1) [OF rr_okD(2) [OF rr] a] obtain g G where g: "cfqg c = Some g" "cfqgs q g = Some G"
    by (auto simp: placed_def)
  from find_next_total [OF qok x] obtain nx where nx: "cfq_find_next_rq c rq q = Inr nx"
    "nx = None \<longleftrightarrow> inorder (sort_list c) = [rq]" "\<forall>y. nx = Some y \<longrightarrow> y \<noteq> rq \<and> y \<in> set_tree (sort_list c)" by blast
  let ?c1 = "c\<lparr>next_rq := nx\<rparr>"
  let ?q1 = "q\<lparr>cfqqs := (cfqqs q)(a \<mapsto> ?c1)\<rparr>"
  have cnt: "queued ?c1 (rq_sync r) \<noteq> 0"
  proof -
    have "rq \<in> set (filter (\<lambda>y. sync_of (rqs q) y = rq_sync r) (inorder (sort_list c)))"
      using x r(1) by (simp add: sync_of_def)
    from length_pos_if_in_set [OF this] queue_okD(6) [OF qok, of "rq_sync r"] show ?thesis by simp
  qed
  have P1: "prio_nodes ?q1" using rr_okD(7) [OF rr] a by (auto simp: prio_live_def prio_nodes_def prio_members_def)
  have "cfqqs ?q1 a = Some ?c1" "rqs ?q1 rq = Some r" "next_rq ?c1 \<noteq> Some rq" "rq \<in> set_tree (sort_list ?c1)"
    using r nx(3) x by auto
  from remove_request_shape [OF L P1 this(1,2) r(2) this(3,4) cnt] obtain p ts pp where rem:
    "cfq_remove_request L rq ?q1 = Inr (?q1\<lparr>cfqqs := (cfqqs ?q1)(a \<mapsto> (without L rq (rq_sync r) ?c1)\<lparr>p_root := p, prio_pending := pp\<rparr>),
       prio_trees := ts, rq_queued := rq_queued ?q1 - 1\<rparr>)"
    "prio_nodes (?q1\<lparr>cfqqs := (cfqqs ?q1)(a \<mapsto> (without L rq (rq_sync r) ?c1)\<lparr>p_root := p, prio_pending := pp\<rparr>), prio_trees := ts\<rparr>)"
    "has On_rr ?c1 \<and> sort_list (without L rq (rq_sync r) ?c1) = Leaf \<longrightarrow> p = None" "p = None \<or> p = p_root ?c1"
    by blast
  let ?c2 = "(without L rq (rq_sync r) ?c1)\<lparr>p_root := p, prio_pending := pp\<rparr>"
  let ?c3 = "?c2\<lparr>dispatched := dispatched ?c2 + 1\<rparr>"
  let ?q2 = "q\<lparr>prio_trees := ts, rq_queued := rq_queued q - 1, cfqqs := (cfqqs q)(a \<mapsto> ?c3),
     cfqgs := (cfqgs q)(g \<mapsto> G\<lparr>g_dispatched := g_dispatched G + 1\<rparr>)\<rparr>"
  have "rqs ?q2 rq = Some r" "set (queue_head ?q2) \<subseteq> dom (rqs ?q2)" using r(1) cfq_okD(4) [OF ok] by simp_all
  from elv_dispatch_sort_ok [OF this] obtain m lm h where srt: "elv_dispatch_sort rq ?q2 =
       Inr (?q2\<lparr>rqs := m, last_merge := lm, nr_sorted := nr_sorted ?q2 - 1, rqhash := h,
              queue_head := sorted_slot ?q2 rq\<rparr>)" "same_requests (rqs q) m" by auto
  from same_requestsD [OF srt(2) r(1)] obtain r' where r': "m rq = Some r'" "rq_core r' = rq_core r" by blast
  have sec: "rq_sectors r' = rq_sectors r" using r'(2) by (metis rq_core_simps(2))
  let ?c = "sent L rq r nx p pp c"
  have e3: "?c3\<lparr>nr_sectors := nr_sectors ?c3 + rq_sectors r'\<rparr> = ?c"
    by (cases c) (simp add: sent_def without_def queued_add_def sec)
  let ?r1 = "?q1\<lparr>cfqqs := (cfqqs ?q1)(a \<mapsto> ?c2), prio_trees := ts, rq_queued := rq_queued ?q1 - 1\<rparr>"
  let ?r2 = "q\<lparr>prio_trees := ts, rq_queued := rq_queued q - 1, cfqqs := (cfqqs q)(a \<mapsto> ?c3)\<rparr>"
  let ?r3 = "?q2\<lparr>rqs := m, last_merge := lm, nr_sorted := nr_sorted ?q2 - 1, rqhash := h, queue_head := sorted_slot ?q2 rq\<rparr>"
  let ?r4 = "?r3\<lparr>cfqqs := (cfqqs q)(a \<mapsto> ?c)\<rparr>"
  let ?f = "(rq_in_flight ?r4)(has Sync c := rq_in_flight ?r4 (has Sync c) + 1)"
  let ?q = "?r4\<lparr>rq_in_flight := ?f\<rparr>"
  have s: "RQ_CFQQ rq q = Inr a" "deref (cfqqs q) a = Inr c" "upd_cfqq a (\<lambda>c. c\<lparr>next_rq := nx\<rparr>) q = Inr ?q1"
    using r a by (simp_all add: RQ_CFQQ_def)
  have s2: "upd_cfqq a (\<lambda>c. c\<lparr>dispatched := dispatched c + 1\<rparr>) ?r1 = Inr ?r2"
    by (subst upd_cfqq_Some [where c = ?c2]) simp_all
  have s3: "RQ_CFQG rq ?r2 = Inr g" "upd_cfqg g (\<lambda>c. c\<lparr>g_dispatched := g_dispatched c + 1\<rparr>) ?r2 = Inr ?q2"
    using r g by (simp_all add: RQ_CFQG_def)
  have s4: "deref (rqs ?r3) rq = Inr r'" using r'(1) by simp
  have s5: "upd_cfqq a (\<lambda>c. c\<lparr>nr_sectors := nr_sectors c + rq_sectors r'\<rparr>) ?r3 = Inr ?r4"
    by (subst upd_cfqq_Some [where c = ?c3], simp, unfold e3, simp)
  have res: "cfq_dispatch_insert L rq q = Inr ?q"
    unfolding cfq_dispatch_insert_def s nx(1) rem(1) s2 s3 srt(1) s4 s5 bindE.simps by (rule refl)
  have pn: "prio_nodes (q\<lparr>cfqqs := (cfqqs q)(a \<mapsto> ?c), prio_trees := ts\<rparr>)"
  proof -
    have "p_root ?c = p" by (simp add: sent_def)
    with rem(2) show ?thesis by (auto simp: prio_nodes_def prio_members_def split: if_splits)
  qed
  have leaf: "nx = None \<longrightarrow> p = None"
  proof
    assume "nx = None"
    then have "inorder (rb_erase L rq (sort_list c)) = []" using nx(2) lib_okD(2) [OF L] by simp
    then have "rb_erase L rq (sort_list c) = Leaf" by (cases "rb_erase L rq (sort_list c)") auto
    moreover have "has On_rr c" using queue_okD(7) [OF qok] x by (cases "sort_list c") auto
    ultimately show "p = None" using rem(3) by (simp add: without_def has_def)
  qed
  show ?thesis
    by (intro exI [of _ ?q] exI [of _ r] exI [of _ g] exI [of _ G] exI [of _ nx] exI [of _ p] exI [of _ ts] exI [of _ pp]
        exI [of _ m] exI [of _ lm] exI [of _ h] exI [of _ "g_dispatched G + 1"] exI [of _ ?f])
      (use res pn leaf rem(4) srt(2) r(1) g(2) nx(2,3) in simp)
qed

lemma sent_fields [simp]:
  "has f (sent L rq r nx p pp c) = has f c" "cfqg (sent L rq r nx p pp c) = cfqg c"
  "service_tree (sent L rq r nx p pp c) = service_tree c" "rb_linked (sent L rq r nx p pp c) = rb_linked c"
  "rb_key (sent L rq r nx p pp c) = rb_key c" "org_ioprio (sent L rq r nx p pp c) = org_ioprio c"
  "sort_list (sent L rq r nx p pp c) = rb_erase L rq (sort_list c)"
  "p_root (sent L rq r nx p pp c) = p" "next_rq (sent L rq r nx p pp c) = nx"
  by (simp_all add: sent_def without_def queued_add_def has_def)

lemma rr_core_sent:
  assumes ok: "rr_core q" and a: "cfqqs q a = Some c" and g: "cfqgs q g = Some G"
  shows "rr_core (q\<lparr>cfqqs := (cfqqs q)(a \<mapsto> sent L rq r nx p pp c), cfqgs := (cfqgs q)(g \<mapsto> G\<lparr>g_dispatched := n\<rparr>)\<rparr>)"
proof -
  let ?q = "q\<lparr>cfqqs := (cfqqs q)(a \<mapsto> sent L rq r nx p pp c)\<rparr>"
  have "rr_core ?q" by (rule rr_core_queue [OF ok a]) simp_all
  from rr_core_group [OF this, of g G "G\<lparr>g_dispatched := n\<rparr>"] g show ?thesis
    by (simp add: plain_group_def weight_room_def)
qed

lemma dispatch_insert_ok:
  assumes L: "lib_ok L" and ok: "cfq_ok q" and a: "cfqqs q a = Some c" and x: "rq \<in> set_tree (sort_list c)"
    and act: "active_queue q = Some a"
  shows "\<exists>q' c'. cfq_dispatch_insert L rq q = Inr q' \<and> cfq_ok q' \<and> cfqqs q' a = Some c' \<and> active_queue q' = Some a \<and>
     waiting (cfqqs q') = waiting (cfqqs q) - {rq} \<and> mset (queue_head q') = add_mset rq (mset (queue_head q)) \<and>
     set_tree (sort_list c') = set_tree (sort_list c) - {rq} \<and> keeps q q'"
proof -
  note qok = cfq_okD(2) [OF ok]
  have rr: "rr_ok q" by (rule cfq_okD(1) [OF ok])
  from dispatch_insert_shape [OF L ok a x] obtain q' r g G nx p ts pp m lm h n f where
    res: "cfq_dispatch_insert L rq q = Inr q'" and
    q': "q' = q\<lparr>prio_trees := ts, rq_queued := rq_queued q - 1, cfqgs := (cfqgs q)(g \<mapsto> G\<lparr>g_dispatched := n\<rparr>),
       rqs := m, last_merge := lm, nr_sorted := nr_sorted q - 1, rqhash := h, queue_head := queue_head q',
       cfqqs := (cfqqs q)(a \<mapsto> sent L rq r nx p pp c), rq_in_flight := f\<rparr>" and
    head: "mset (queue_head q') = add_mset rq (mset (queue_head q))" and G: "cfqgs q g = Some G" and
    m: "same_requests (rqs q) m" and r: "rqs q rq = Some r" and
    nx: "nx = None \<longleftrightarrow> inorder (sort_list c) = [rq]" "\<forall>y. nx = Some y \<longrightarrow> y \<noteq> rq \<and> y \<in> set_tree (sort_list c)" and
    pn: "prio_nodes (q\<lparr>cfqqs := (cfqqs q)(a \<mapsto> sent L rq r nx p pp c), prio_trees := ts\<rparr>)" and
    pr: "nx = None \<longrightarrow> p = None" "p = None \<or> p = p_root c"
    by (elim exE conjE) (rule that; assumption)
  let ?c = "sent L rq r nx p pp c"
  let ?cs = "(cfqqs q)(a \<mapsto> ?c)"
  have e: "cfqqs q' = ?cs" "rqs q' = m" "prio_trees q' = ts" "active_queue q' = active_queue q" "active_cic q' = active_cic q"
    "cics q' = cics q" "rq_queued q' = rq_queued q - 1" "cfqgs q' = (cfqgs q)(g \<mapsto> G\<lparr>g_dispatched := n\<rparr>)"
    "grp_service_tree q' = grp_service_tree q" "busy_queues q' = busy_queues q" "busy_sync_queues q' = busy_sync_queues q"
    "nr_sorted q' = nr_sorted q - 1" "cfq_slice q' = cfq_slice q"
    by (subst q', simp)+
  have live: "m y \<noteq> None \<longleftrightarrow> rqs q y \<noteq> None" for y using same_requests_dom [OF m] by auto
  have "rr_core q' = rr_core (q\<lparr>cfqqs := ?cs, cfqgs := (cfqgs q)(g \<mapsto> G\<lparr>g_dispatched := n\<rparr>)\<rparr>)"
    by (rule rr_core_frame) (simp_all add: e)
  moreover have "rr_core q" using rr by (simp add: rr_ok_core)
  ultimately have core: "rr_core q'" using rr_core_sent [OF _ a G] by blast
  have pl: "prio_live {} q" "nexts_ok q" using rr by (simp_all add: rr_ok_core)
  have nxl: "rqs q y \<noteq> None" if "nx = Some y" for y
    using that nx(2) queue_okD(5) [OF qok [OF a], of y] by auto
  have "prio_live {} q'"
    unfolding prio_live_def
  proof (intro conjI allI impI)
    show "prio_nodes q'" using pn by (simp add: prio_nodes_def e)
    fix b d i assume b: "cfqqs q' b = Some d" "p_root d = Some i"
    show "i < CFQ_PRIO_LISTS"
      using b pl(1) a pr(2) unfolding prio_live_def e by (auto split: if_splits)
    show "\<exists>x r. next_rq d = Some x \<and> rqs q' x = Some r"
    proof (cases "b = a")
      case True
      with b pr(1) nxl live show ?thesis by (auto simp: e)
    next
      case False
      with b(1) have "cfqqs q b = Some d" by (simp add: e)
      with pl(1) b(2) obtain x r where "next_rq d = Some x" "rqs q x = Some r" unfolding prio_live_def by blast
      with live show ?thesis by (auto simp: e)
    qed
  qed
  moreover have "nexts_ok q'"
    unfolding nexts_ok_def e
  proof
    fix d assume "d \<in> ran ?cs"
    then consider "d = ?c" | b where "cfqqs q b = Some d" by (auto simp: ran_def split: if_splits)
    then show "org_ioprio d < CFQ_PRIO_LISTS \<and> (\<forall>x. next_rq d = Some x \<longrightarrow> m x \<noteq> None)"
      by cases (use nexts_okD [OF pl(2)] a nxl live in auto)
  qed
  ultimately have rr': "rr_ok q'" using core by (simp add: rr_ok_core)
  have set: "set_tree (sort_list ?c) = set_tree (sort_list c) - {rq}"
    using lib_okD(2) [OF L, of rq "sort_list c"] set_remove1_eq [OF queue_okD(1) [OF qok [OF a]]]
    by (metis sent_fields(7) set_inorder)
  have w: "waiting (cfqqs q') = waiting (cfqqs q) - {rq}"
    unfolding e(1) by (rule waiting_without [OF ok a set x])
  have mem: "rq \<in> waiting (cfqqs q)" using a x by (auto simp: waiting_def)
  have "queue_ok (rqs q') b d" if "cfqqs q' b = Some d" for b d
    unfolding e(2)
  proof (rule queue_ok_same [OF _ m], cases "b = a")
    case True
    have "queue_ok (rqs q) a ?c"
      by (rule queue_ok_fields [OF queue_ok_without [where nx = nx, OF L qok [OF a] x r nx(1)]])
        (use nx(2) in \<open>simp_all add: sent_def without_def queued_add_def has_def\<close>)
    with that True show "queue_ok (rqs q) b d" by (simp add: e)
  qed (use that qok in \<open>simp add: e\<close>)
  moreover have "rq_queued q' = int (card (waiting (cfqqs q')))"
  proof -
    have fin: "finite (waiting (cfqqs q))" by (rule finite_waiting [OF rr_okD(3) [OF rr]])
    then have "0 < card (waiting (cfqqs q))" using mem card_gt_0_iff by blast
    with mem show ?thesis unfolding w e(7) cfq_okD(3) [OF ok] by (simp add: card_Diff_singleton of_nat_diff)
  qed
  moreover have "set (queue_head q') \<subseteq> dom (rqs q')"
  proof -
    have "set (queue_head q') = insert rq (set (queue_head q))"
      using arg_cong [OF head, of set_mset] by simp
    with cfq_okD(4) [OF ok] r same_requests_dom [OF m] show ?thesis unfolding e by auto
  qed
  moreover have "b \<in> on_rr (cfqqs q')" if "active_queue q' = Some b" for b
  proof -
    have "on_rr (cfqqs q') = on_rr (cfqqs q)" unfolding e by (rule rr_sets_same [where cs = "cfqqs q", OF a]) simp_all
    with that cfq_okD(5) [OF ok, of b] show ?thesis by (simp add: e)
  qed
  moreover have "i \<in> dom (cics q')" if "active_cic q' = Some i" for i using cfq_okD(6) [OF ok] that by (simp add: e)
  moreover have "active_queue q' = Some b" if "cfqqs q' b = Some d" "has On_rr d" "sort_list d = Leaf" for b d
    using that cfq_okD(7) [OF ok] act by (cases "b = a") (simp_all add: e)
  moreover have "nr_sorted q' = rq_queued q'" using cfq_okD(8) [OF ok] by (simp add: e)
  ultimately have "cfq_ok q'" using rr' unfolding cfq_ok_def by blast
  moreover have "keeps q q'"
  proof -
    have "ref_side ?c = ref_side c" by (simp add: ref_side_def sent_def without_def queued_add_def)
    then show ?thesis using a m w by (auto simp: keeps_def e)
  qed
  moreover have "cfqqs q' a = Some ?c" by (simp add: e)
  ultimately show ?thesis using res w head set act e(4) by metis
qed

section \<open>Ending a slice\<close>

text \<open>A queue with the same requests, and a device with the same requests and active queue.\<close>

definition same_reqs :: "cfq_queue \<Rightarrow> cfq_queue \<Rightarrow> bool" where
  "same_reqs c c' \<longleftrightarrow> sort_list c' = sort_list c \<and> qfifo c' = qfifo c \<and> next_rq c' = next_rq c \<and>
     queued c' = queued c \<and> cfqg c' = cfqg c \<and> ref_side c' = ref_side c"

definition same_rest :: "'a cfq_data_scheme \<Rightarrow> 'a cfq_data_scheme \<Rightarrow> bool" where
  "same_rest q q' \<longleftrightarrow> rqs q' = rqs q \<and> rq_queued q' = rq_queued q \<and> queue_head q' = queue_head q \<and>
     cics q' = cics q \<and> active_queue q' = active_queue q \<and> active_cic q' = active_cic q \<and>
     nr_sorted q' = nr_sorted q \<and> cfq_slice q' = cfq_slice q"

lemma replaced_same: "replaced c c' \<Longrightarrow> same_reqs c c' \<and> qflags c' = qflags c"
  by (auto simp: replaced_def same_reqs_def ref_side_def)

lemma same_reqs_trans: "same_reqs a b \<Longrightarrow> same_reqs b c \<Longrightarrow> same_reqs a c"
  by (simp add: same_reqs_def)

lemma expire_place:
  assumes L: "lib_ok L" and ok: "rr_ok q" and a: "cfqqs q a = Some c" "has On_rr c"
  shows "\<exists>q' c'. bindO (if has On_rr c \<and> sort_list c = Leaf then cfq_del_cfqq_rr L a q else Some (Inr q))
       (cfq_resort_rr_list L now a) = Some (Inr q') \<and> rr_ok q' \<and> cfqqs q' = (cfqqs q)(a \<mapsto> c') \<and>
     same_reqs c c' \<and> (has On_rr c' \<longleftrightarrow> sort_list c \<noteq> Leaf) \<and> same_rest q q'"
proof (cases "sort_list c = Leaf")
  case True
  from del_cfqq_rr_ok [OF L ok a] obtain q1 where d: "cfq_del_cfqq_rr L a q = Some (Inr q1)" "rr_ok q1"
    "cfqqs q1 = (cfqqs q)(a \<mapsto> (clear On_rr c)\<lparr>rb_linked := False, service_tree := None, p_root := None\<rparr>)"
    "q1 = q\<lparr>cfqqs := cfqqs q1, cfqgs := cfqgs q1, grp_service_tree := grp_service_tree q1,
            prio_trees := prio_trees q1, busy_queues := busy_queues q - 1, busy_sync_queues := busy_sync_queues q1\<rparr>"
    by (elim exE conjE) (rule that; assumption)
  let ?c = "(clear On_rr c)\<lparr>rb_linked := False, service_tree := None, p_root := None\<rparr>"
  have off: "\<not> has On_rr ?c" by (simp add: has_def clear_def)
  have "same_rest q q1" unfolding same_rest_def by (subst d(4), simp)+
  moreover have "cfq_resort_rr_list L now a q1 = Some (Inr q1)" using off by (simp add: cfq_resort_rr_list_def d(3))
  moreover have "same_reqs c ?c" by (simp add: same_reqs_def ref_side_def clear_def)
  ultimately show ?thesis using True a d(1-3) off by (intro exI [of _ q1] exI [of _ ?c]) simp
next
  case False
  from resort_ok [OF L ok a(1)] obtain q1 c1 where r: "cfq_resort_rr_list L now a q = Some (Inr q1)" "rr_ok q1" "replaced c c1"
    "q1 = q\<lparr>cfqqs := (cfqqs q)(a \<mapsto> c1), cfqgs := cfqgs q1, prio_trees := prio_trees q1\<rparr>" by blast
  have "same_rest q q1" unfolding same_rest_def by (subst r(4), simp)+
  moreover have "cfqqs q1 = (cfqqs q)(a \<mapsto> c1)" by (subst r(4), simp)
  moreover have "has On_rr c1" using replaced_same [OF r(3)] a(2) by (simp add: has_def)
  ultimately show ?thesis using False r(1,2) replaced_same [OF r(3)] by (intro exI [of _ q1] exI [of _ c1]) simp
qed

lemma served_rr_ok:
  assumes L: "lib_ok L" and ok: "rr_ok q" and a: "cfqqs q a = Some c" "has On_rr c"
  obtains g q' where "cfqg c = Some g" "cfq_group_served L now g c q = Some (Inr q')" "rr_ok q'"
    "cfqqs q' = cfqqs q" "same_rest q q'"
proof -
  from trees_okD(1) [OF rr_okD(2) [OF ok] a(1)] obtain g G where g: "cfqg c = Some g" "cfqgs q g = Some G"
    by (auto simp: placed_def)
  have core: "rr_core q" using ok by (simp add: rr_ok_core)
  have "a \<in> busy_in (cfqqs q) g" using a g by (auto simp: busy_in_def)
  then have "0 < card (busy_in (cfqqs q) g)" using finite_rr(3) [OF rr_okD(3) [OF ok]] card_gt_0_iff by blast
  then have lk: "g_linked G" using rr_okD(5) [OF ok] g(2) by (simp add: nr_ok_def)
  from group_served_ok [where now = now and c = c, OF L rr_okD(1) [OF ok] g(2) lk nr_sync_queues_ok [OF core g(2)] refl] obtain q' where s:
    "cfq_group_served L now g c q = Some (Inr q')" "grp_ok q'"
    "q' = q\<lparr>grp_service_tree := grp_service_tree q', cfqgs := cfqgs q'\<rparr>"
    "same_side (cfqgs q) (cfqgs q')" "linked (cfqgs q') = linked (cfqgs q)"
    by (elim exE conjE) (rule that; assumption)
  have e: "cfqqs q' = cfqqs q" "rqs q' = rqs q" "prio_trees q' = prio_trees q" "same_rest q q'"
    unfolding same_rest_def by (subst s(3), simp)+
  have q'': "q' = q\<lparr>cfqgs := cfqgs q', grp_service_tree := grp_service_tree q'\<rparr>" by (rule trans [OF s(3)]) simp
  have "grp_ok (q\<lparr>cfqgs := cfqgs q', grp_service_tree := grp_service_tree q'\<rparr>)" using s(2) q'' by metis
  from rr_core_groups [OF core s(4,5) this] have "rr_core q'" using q'' by metis
  moreover have "prio_live {} q' = prio_live {} q" by (rule prio_live_frame) (simp_all add: e)
  ultimately have "rr_ok q'" using ok by (simp add: rr_ok_core nexts_ok_def e)
  then show thesis by (rule that [OF g(1) s(1) _ e(1,4)])
qed

lemma same_rest_trans: "same_rest a b \<Longrightarrow> same_rest b c \<Longrightarrow> same_rest a c"
  by (simp add: same_rest_def)

text \<open>The active queue leaves; what it holds stays, and so does everything that waits.\<close>

lemma cfq_ok_inactive:
  assumes ok: "cfq_ok q" and a: "cfqqs q a = Some c" and act: "active_queue q = Some a"
    and q': "rr_ok q'" "cfqqs q' = (cfqqs q)(a \<mapsto> c')" "same_reqs c c'" "has On_rr c' \<longleftrightarrow> sort_list c \<noteq> Leaf"
      "rqs q' = rqs q" "rq_queued q' = rq_queued q" "queue_head q' = queue_head q" "active_queue q' = None"
      "active_cic q' = None" "nr_sorted q' = nr_sorted q"
  shows "cfq_ok q'" "waiting (cfqqs q') = waiting (cfqqs q)"
proof -
  have same: "sort_list c' = sort_list c" "qfifo c' = qfifo c" "next_rq c' = next_rq c" "queued c' = queued c"
    "cfqg c' = cfqg c" using q'(3) by (simp_all add: same_reqs_def)
  show w: "waiting (cfqqs q') = waiting (cfqqs q)" unfolding q'(2) by (rule waiting_upd_same [where cs = "cfqqs q", OF a same(1)])
  have "queue_ok (rqs q') b d" if "cfqqs q' b = Some d" for b d
  proof (cases "b = a")
    case True
    have "queue_ok (rqs q) a c'"
      using cfq_okD(2) [OF ok a] same q'(4) by (simp add: queue_ok_def split: option.splits)
    with that True q'(2,5) show ?thesis by simp
  qed (use that cfq_okD(2) [OF ok] q'(2,5) in simp)
  moreover have "sort_list d \<noteq> Leaf" if "cfqqs q' b = Some d" "has On_rr d" for b d
    using that cfq_okD(7) [OF ok] act q'(2,4) same(1) by (cases "b = a") auto
  ultimately show "cfq_ok q'"
    using q'(1,6,7,8,9,10) w cfq_okD(3,4,8) [OF ok] q'(5) unfolding cfq_ok_def by auto
qed

lemma put_active_cic_ok:
  assumes "\<And>i. active_cic q = Some i \<Longrightarrow> i \<in> dom (cics q)"
  obtains cs where "put_active_cic q = Inr (q\<lparr>cics := cs, active_cic := None\<rparr>)" "dom cs = dom (cics q)"
    "cics_ok (cics q) \<Longrightarrow> cics_ok cs"
proof (cases "active_cic q")
  case None
  then have "q\<lparr>cics := cics q, active_cic := None\<rparr> = q" by simp
  with None that [of "cics q"] show thesis by (simp add: put_active_cic_def)
next
  case (Some i)
  with assms obtain ic where "cics q i = Some ic" by blast
  with Some show thesis
    by (intro that [of "(cics q)(i \<mapsto> ic\<lparr>ioc_refcount := ioc_refcount ic - 1\<rparr>)"])
      (auto simp: put_active_cic_def cic_ok_def intro!: cics_ok_upd dest: cics_okD)
qed

text \<open>The length of a slice moves an average of the group and nothing else.\<close>

lemma scaled_slice_ok:
  assumes ok: "rr_ok q" and a: "cfqqs q a = Some c"
  shows "\<exists>sl gs. cfq_scaled_cfqq_slice a q = Inr (sl, q\<lparr>cfqgs := gs\<rparr>) \<and> rr_ok (q\<lparr>cfqgs := gs\<rparr>)"
proof (cases "cfq_latency q")
  case True
  from trees_okD(1) [OF rr_okD(2) [OF ok] a] obtain g G where g: "cfqg c = Some g" "cfqgs q g = Some G"
    by (auto simp: placed_def)
  let ?G = "snd (cfq_group_get_avg_queues (cfq_class_rt c) G)"
  have "plain_group G ?G" by (simp add: cfq_group_get_avg_queues_def plain_group_def weight_room_def Let_def)
  then have "rr_ok (q\<lparr>cfqgs := (cfqgs q)(g \<mapsto> ?G)\<rparr>)" by (rule rr_ok_group [OF ok g(2)])
  with True a g show ?thesis
    by (intro exI [of _ "latency_slice (cfq_prio_to_slice q c) (cfq_slice q True) (cfq_slice_idle q)
        (fst (cfq_group_get_avg_queues (cfq_class_rt c) G)) (cfq_group_slice q G)"] exI [of _ "(cfqgs q)(g \<mapsto> ?G)"])
      (simp add: cfq_scaled_cfqq_slice_def Let_def case_prod_beta)
next
  case False
  then have "cfq_scaled_cfqq_slice a q = Inr (cfq_prio_to_slice q c, q\<lparr>cfqgs := cfqgs q\<rparr>)"
    using a by (simp add: cfq_scaled_cfqq_slice_def)
  with ok show ?thesis by (intro exI [of _ "cfq_prio_to_slice q c"] exI [of _ "cfqgs q"]) simp
qed

lemma save_resid_ok:
  assumes ok: "rr_ok q" and a: "cfqqs q a = Some c"
  obtains q' v where "(if timed_out then save_resid now a q else Inr q) = Inr q'" "rr_ok q'" "same_rest q q'"
    "cfqqs q' = (cfqqs q)(a \<mapsto> c\<lparr>slice_resid := v\<rparr>)"
proof (cases timed_out)
  case False
  with a ok that [of q "slice_resid c"] show thesis by (simp add: fun_upd_idem same_rest_def)
next
  case True
  have put: "rr_ok (p\<lparr>cfqqs := (cfqqs p)(a \<mapsto> c\<lparr>slice_resid := v\<rparr>)\<rparr>)" if "rr_ok p" "cfqqs p a = Some c" for p :: "'a cfq_data_scheme" and v
    by (rule rr_ok_queue [OF that]) (simp_all add: has_def)
  show thesis
  proof (cases "has Slice_new c")
    case True': True
    from scaled_slice_ok [OF ok a] obtain sl gs where s: "cfq_scaled_cfqq_slice a q = Inr (sl, q\<lparr>cfqgs := gs\<rparr>)"
      "rr_ok (q\<lparr>cfqgs := gs\<rparr>)" by blast
    with put [OF s(2), of sl] True True' a that [of "(q\<lparr>cfqgs := gs\<rparr>)\<lparr>cfqqs := (cfqqs q)(a \<mapsto> c\<lparr>slice_resid := sl\<rparr>)\<rparr>" sl]
    show thesis by (simp add: save_resid_def same_rest_def)
  next
    case False
    with put [OF ok a, of "slice_end c - now"] True a
      that [of "q\<lparr>cfqqs := (cfqqs q)(a \<mapsto> c\<lparr>slice_resid := slice_end c - now\<rparr>)\<rparr>" "slice_end c - now"]
    show thesis by (simp add: save_resid_def same_rest_def)
  qed
qed

lemma slice_expired'_ok:
  assumes L: "lib_ok L" and ok: "cfq_ok q" and act: "active_queue q = Some a"
  shows "\<exists>q'. cfq_slice_expired' L now a timed_out q = Some (Inr q') \<and> cfq_ok q' \<and> active_queue q' = None \<and>
     waiting (cfqqs q') = waiting (cfqqs q) \<and> queue_head q' = queue_head q \<and> keeps q q' \<and>
     (\<forall>b. b \<noteq> a \<longrightarrow> cfqqs q' b = cfqqs q b)"
proof -
  from cfq_okD(5) [OF ok act] obtain c where a: "cfqqs q a = Some c" "has On_rr c" by (auto simp: on_rr_def)
  define q0 where "q0 = (if has Wait_request c then cfq_del_timer q else q)"
  define c0 where "c0 = clear Wait_busy (clear Wait_request c)"
  define c1 where "c1 = (if has Coop c0 \<and> CFQQ_SEEKY c0 then mark Split_coop c0 else c0)"
  define p1 where "p1 = q0\<lparr>cfqqs := (cfqqs q)(a \<mapsto> c1)\<rparr>"
  have q0: "cfqqs q0 = cfqqs q" "same_rest q q0" "rr_ok q0 = rr_ok q"
    using rr_ok_frame [of "cfq_del_timer q" q] by (simp_all add: q0_def cfq_del_timer_def same_rest_def)
  have c1: "same_reqs c c1" "has On_rr c1" "has Sync c1 = has Sync c" "service_tree c1 = service_tree c"
    "rb_linked c1 = rb_linked c" "rb_key c1 = rb_key c" "p_root c1 = p_root c" "org_ioprio c1 = org_ioprio c"
    using a(2) by (simp_all add: c1_def c0_def same_reqs_def) (simp_all add: ref_side_def mark_def clear_def)
  have a0: "cfqqs q0 a = Some c" using a q0(1) by simp
  have rr0: "rr_ok p1"
    unfolding p1_def q0(1) [symmetric]
    by (rule rr_ok_queue [OF _ a0]) (use c1 a(2) q0(3) cfq_okD(1) [OF ok] in \<open>simp_all add: same_reqs_def\<close>)
  have a0': "cfqqs p1 a = Some c1" and rest0: "same_rest q p1"
    using q0(2) by (simp_all add: p1_def same_rest_def)
  from save_resid_ok [where timed_out = timed_out and now = now, OF rr0 a0'] obtain q1 v where
    res: "(if timed_out then save_resid now a p1 else Inr p1) = Inr q1" "rr_ok q1" "same_rest p1 q1"
      "cfqqs q1 = (cfqqs p1)(a \<mapsto> c1\<lparr>slice_resid := v\<rparr>)" .
  note rr1 = res(2)
  define d where "d = c1\<lparr>slice_resid := v\<rparr>"
  have d: "same_reqs c d" "has On_rr d" "sort_list d = sort_list c"
    using c1(1,2) by (simp_all add: d_def same_reqs_def ref_side_def has_def)
  have a1: "cfqqs q1 a = Some d" and rest1: "same_rest q q1"
    using res(3,4) rest0 same_rest_trans by (simp_all add: d_def, blast)
  from served_rr_ok [OF L rr1 a1 d(2)] obtain g q2 where s: "cfqg d = Some g" "cfq_group_served L now g d q1 = Some (Inr q2)"
    "rr_ok q2" "cfqqs q2 = cfqqs q1" "same_rest q1 q2" by blast
  have a2: "cfqqs q2 a = Some d" using s(4) a1 by simp
  from expire_place [OF L s(3) a2 d(2), of now] obtain q3 c3 where p:
    "bindO (if has On_rr d \<and> sort_list d = Leaf then cfq_del_cfqq_rr L a q2 else Some (Inr q2))
       (cfq_resort_rr_list L now a) = Some (Inr q3)" "rr_ok q3" "cfqqs q3 = (cfqqs q2)(a \<mapsto> c3)"
    "same_reqs d c3" "has On_rr c3 \<longleftrightarrow> sort_list d \<noteq> Leaf" "same_rest q2 q3" by blast
  have rest: "same_rest q q3" using rest1 s(5) p(6) same_rest_trans by metis
  let ?q4 = "q3\<lparr>active_queue := None\<rparr>"
  obtain cs where put: "put_active_cic ?q4 = Inr (?q4\<lparr>cics := cs, active_cic := None\<rparr>)" "dom cs = dom (cics q3)"
    "cics_ok (cics q3) \<Longrightarrow> cics_ok cs"
    using put_active_cic_ok [of ?q4] cfq_okD(6) [OF ok] rest by (auto simp: same_rest_def)
  let ?q = "?q4\<lparr>cics := cs, active_cic := None\<rparr>"
  have act3: "active_queue q3 = Some a" using rest act by (simp add: same_rest_def)
  have "cfq_slice_expired' L now a timed_out q = Some (Inr ?q)"
  proof -
    have u: "upd_cfqq a (\<lambda>_. c1) q0 = Inr p1" using a0 q0(1) by (simp add: p1_def)
    obtain r where r: "(if has On_rr d \<and> sort_list d = Leaf then cfq_del_cfqq_rr L a q2 else Some (Inr q2)) = Some (Inr r)"
      "cfq_resort_rr_list L now a r = Some (Inr q3)"
    proof (cases "if has On_rr d \<and> sort_list d = Leaf then cfq_del_cfqq_rr L a q2 else Some (Inr q2)")
      case (Some x)
      with p(1) that show thesis by (cases x) auto
    qed (use p(1) in auto)
    show ?thesis
      unfolding cfq_slice_expired'_def deref_Some [where m = "cfqqs q", OF a(1)] bindO_simps Let_def
        q0_def [symmetric] c0_def [symmetric] c1_def [symmetric] u res(1) deref_Some [where m = "cfqqs q1", OF a1] s(1,2) option.case r
      using act3 put by simp
  qed
  moreover have cs: "cfqqs ?q = (cfqqs q)(a \<mapsto> c3)" using p(3) s(4) by (simp add: res(4) p1_def)
  have rr: "rr_ok ?q" using p(2) rr_ok_frame [of ?q q3] by simp
  have sr: "same_reqs c c3" by (rule same_reqs_trans [OF d(1) p(4)])
  moreover have "has On_rr c3 \<longleftrightarrow> sort_list c \<noteq> Leaf" using p(5) d(3) by simp
  moreover have keep: "keeps q ?q"
  proof -
    have "waiting ((cfqqs q)(a \<mapsto> c3)) = waiting (cfqqs q)"
      using waiting_upd_same [where cs = "cfqqs q", OF a(1)] sr by (simp add: same_reqs_def)
    moreover have "ref_side c3 = ref_side c" using sr by (simp add: same_reqs_def)
    ultimately show ?thesis using a(1) cs rest put(2,3) by (simp add: keeps_def same_rest_def)
  qed
  moreover have "\<forall>b. b \<noteq> a \<longrightarrow> cfqqs ?q b = cfqqs q b" unfolding cs by simp
  ultimately show ?thesis
    using cfq_ok_inactive [OF ok a(1) act rr cs] rest by (intro exI [of _ ?q]) (simp add: same_rest_def)
qed

end
