(* ===== verification/Cfq_Merge.thy ===== *)
theory Cfq_Merge
  imports Cfq_Requests
begin

text \<open>
  Planned merges of cooperating queues: the chain of \<open>new_cfqq\<close> pointers that
  \<open>cfq_setup_merge\<close> walks and extends, and the references that go with it.
\<close>

section \<open>Chains\<close>

fun merges :: "(nat \<rightharpoonup> cfq_queue) \<Rightarrow> nat \<Rightarrow> nat list \<Rightarrow> bool" where
  "merges cs a [] \<longleftrightarrow> (\<exists>c. cs a = Some c \<and> new_cfqq c = None)"
| "merges cs a (b # us) \<longleftrightarrow> (\<exists>c. cs a = Some c \<and> new_cfqq c = Some b) \<and> merges cs b us"

text \<open>Every chain ends: no queue plans to merge into itself, however indirectly.\<close>

definition merge_ok :: "(nat \<rightharpoonup> cfq_queue) \<Rightarrow> bool" where
  "merge_ok cs \<longleftrightarrow> (\<forall>a \<in> dom cs. \<exists>us. merges cs a us)"

text \<open>A queue is referenced at least once for every request allocated from it.\<close>

definition refs_ok :: "(nat \<rightharpoonup> cfq_queue) \<Rightarrow> bool" where
  "refs_ok cs \<longleftrightarrow> (\<forall>c \<in> ran cs. allocated c READ + allocated c WRITE \<le> qref c)"

lemma merges_chain:
  "merges cs b us \<Longrightarrow> merge_chain cs a b = Some (Inr (if a \<in> set us then None else Some (last (b # us))))"
  by (induction us arbitrary: b) (subst merge_chain.simps; auto)+

lemma merges_last: "merges cs a us \<Longrightarrow> \<exists>c. cs (last (a # us)) = Some c \<and> new_cfqq c = None"
  by (induction us arbitrary: a) auto

lemma merges_same:
  assumes "\<And>x. map_option new_cfqq (cs' x) = map_option new_cfqq (cs x)"
  shows "merges cs a us \<Longrightarrow> merges cs' a us"
proof (induction us arbitrary: a)
  case Nil
  then show ?case using assms [of a] by (cases "cs' a") auto
next
  case (Cons b us)
  then show ?case using assms [of a] by (cases "cs' a") auto
qed

lemma merge_ok_same:
  assumes "\<And>x. map_option ref_side (cs' x) = map_option ref_side (cs x)" "merge_ok cs"
  shows "merge_ok cs'"
proof -
  have n: "map_option new_cfqq (cs' x) = map_option new_cfqq (cs x)" for x
  proof -
    have "new_cfqq c = snd (snd (ref_side c))" for c by (simp add: ref_side_def)
    then have "map_option new_cfqq d = map_option (\<lambda>p. snd (snd p)) (map_option ref_side d)" for d
      by (cases d) simp_all
    then show ?thesis using assms(1) [of x] by simp
  qed
  show ?thesis
    unfolding merge_ok_def
  proof
    fix a assume "a \<in> dom cs'"
    then have "a \<in> dom cs" using assms(1) [of a] by (cases "cs a") auto
    with assms(2) obtain us where "merges cs a us" by (auto simp: merge_ok_def)
    from merges_same [OF n this] show "\<exists>us. merges cs' a us" by blast
  qed
qed

lemma refs_ok_same:
  assumes "\<And>x. map_option ref_side (cs' x) = map_option ref_side (cs x)" "refs_ok cs"
  shows "refs_ok cs'"
  unfolding refs_ok_def
proof
  fix d assume "d \<in> ran cs'"
  then obtain x where "cs' x = Some d" by (auto simp: ran_def)
  with assms(1) [of x] obtain c where "cs x = Some c" "ref_side c = ref_side d" by (cases "cs x") auto
  with assms(2) show "allocated d READ + allocated d WRITE \<le> qref d"
    by (auto simp: refs_ok_def ran_def ref_side_def)
qed

text \<open>Linking the ends of two chains.\<close>

lemma merges_link:
  assumes x: "cs x = Some c" "new_cfqq c = None" and y: "cs y = Some d" "new_cfqq d = None" "x \<noteq> y"
  shows "merges cs a us \<Longrightarrow> \<exists>vs. merges (cs(x \<mapsto> c\<lparr>new_cfqq := Some y\<rparr>)) a vs"
proof (induction us arbitrary: a)
  case Nil
  have "merges (cs(x \<mapsto> c\<lparr>new_cfqq := Some y\<rparr>)) x [y]" using y by simp
  moreover have "merges (cs(x \<mapsto> c\<lparr>new_cfqq := Some y\<rparr>)) a []" if "a \<noteq> x" using Nil that by simp
  ultimately show ?case by blast
next
  case (Cons b us)
  then obtain e where e: "cs a = Some e" "new_cfqq e = Some b" by auto
  with x have "a \<noteq> x" by auto
  from Cons.prems have "merges cs b us" by simp
  from Cons.IH [OF this] obtain vs where "merges (cs(x \<mapsto> c\<lparr>new_cfqq := Some y\<rparr>)) b vs" by blast
  moreover have "(cs(x \<mapsto> c\<lparr>new_cfqq := Some y\<rparr>)) a = Some e" using e(1) \<open>a \<noteq> x\<close> by simp
  ultimately have "merges (cs(x \<mapsto> c\<lparr>new_cfqq := Some y\<rparr>)) a (b # vs)"
    unfolding merges.simps using e(2) by blast
  then show ?case by blast
qed

lemma merge_ok_link:
  assumes "merge_ok cs" "cs x = Some c" "new_cfqq c = None" "cs y = Some d" "new_cfqq d = None" "x \<noteq> y"
  shows "merge_ok (cs(x \<mapsto> c\<lparr>new_cfqq := Some y\<rparr>))"
proof -
  have "dom (cs(x \<mapsto> c\<lparr>new_cfqq := Some y\<rparr>)) = dom cs" using assms(2) by auto
  with assms merges_link [where cs = cs, OF assms(2-6)] show ?thesis unfolding merge_ok_def by metis
qed

lemma merge_ok_upd:
  assumes "merge_ok cs" "cs x = Some c" "new_cfqq c' = new_cfqq c"
  shows "merge_ok (cs(x \<mapsto> c'))"
proof -
  have "map_option new_cfqq ((cs(x \<mapsto> c')) z) = map_option new_cfqq (cs z)" for z using assms(2,3) by simp
  note same = merges_same [where cs = cs and cs' = "cs(x \<mapsto> c')", OF this]
  have "dom (cs(x \<mapsto> c')) = dom cs" using assms(2) by auto
  with assms(1) same show ?thesis unfolding merge_ok_def by metis
qed

lemma refs_ok_upd:
  "refs_ok cs \<Longrightarrow> allocated c READ + allocated c WRITE \<le> qref c \<Longrightarrow> refs_ok (cs(x \<mapsto> c))"
  by (auto simp: refs_ok_def ran_def)

section \<open>Setting up a merge\<close>

text \<open>Linking \<open>x\<close> to \<open>y\<close>, which gains \<open>n\<close> references.\<close>

definition link_queues :: "nat \<Rightarrow> nat \<Rightarrow> int \<Rightarrow> (nat \<rightharpoonup> cfq_queue) \<Rightarrow> (nat \<rightharpoonup> cfq_queue)" where
  "link_queues x y n cs = cs(x \<mapsto> (the (cs x))\<lparr>new_cfqq := Some y\<rparr>, y \<mapsto> (the (cs y))\<lparr>qref := qref (the (cs y)) + n\<rparr>)"

lemma link_queues_ok:
  assumes m: "merge_ok cs" and r: "refs_ok cs" and x: "cs x = Some c" "new_cfqq c = None"
    and y: "cs y = Some d" "new_cfqq d = None" "x \<noteq> y" and n: "0 \<le> n"
  shows "merge_ok (link_queues x y n cs)" "refs_ok (link_queues x y n cs)"
proof -
  let ?c = "c\<lparr>new_cfqq := Some y\<rparr>" and ?d = "d\<lparr>qref := qref d + n\<rparr>"
  have e: "link_queues x y n cs = (cs(x \<mapsto> ?c))(y \<mapsto> ?d)" using x(1) y(1) by (simp add: link_queues_def)
  have "merge_ok (cs(x \<mapsto> ?c))" by (rule merge_ok_link [OF m x y])
  moreover have "(cs(x \<mapsto> ?c)) y = Some d" using y by simp
  ultimately show "merge_ok (link_queues x y n cs)" unfolding e by (rule merge_ok_upd) simp
  have "allocated c READ + allocated c WRITE \<le> qref c" "allocated d READ + allocated d WRITE \<le> qref d"
    using r x(1) y(1) by (auto simp: refs_ok_def ran_def)
  then show "refs_ok (link_queues x y n cs)" unfolding e using r n by (intro refs_ok_upd) simp_all
qed

lemma setup_merge_shape:
  assumes m: "merge_ok (cfqqs q)" and r: "refs_ok (cfqqs q)" and a: "cfqqs q a = Some c" "new_cfqq c = None"
    and b: "b \<in> dom (cfqqs q)" "a \<noteq> b"
  shows "cfq_setup_merge a b q = Some (Inr q) \<or>
     (\<exists>x y n. cfq_setup_merge a b q = Some (Inr (q\<lparr>cfqqs := link_queues x y n (cfqqs q)\<rparr>)) \<and>
        x \<noteq> y \<and> a \<in> {x, y} \<and> 0 < n \<and> (\<forall>z \<in> {x, y}. \<exists>d. cfqqs q z = Some d \<and> new_cfqq d = None))"
proof -
  let ?cs = "cfqqs q"
  have p: "cfqq_process_refs d = Inr (qref d - (allocated d READ + allocated d WRITE))" "0 \<le> qref d - (allocated d READ + allocated d WRITE)"
    if "?cs z = Some d" for z d
    using r that by (auto simp: refs_ok_def ran_def cfqq_process_refs_def Let_def)
  from b obtain d where d: "?cs b = Some d" by blast
  from m b obtain us where us: "merges ?cs b us" by (auto simp: merge_ok_def)
  let ?l = "last (b # us)"
  from merges_last [OF us] obtain e where e: "?cs ?l = Some e" "new_cfqq e = None" by blast
  let ?n = "qref c - (allocated c READ + allocated c WRITE)" and ?k = "qref e - (allocated e READ + allocated e WRITE)"
  show ?thesis
  proof (cases "qref d - (allocated d READ + allocated d WRITE) = 0 \<or> a \<in> set us")
    case True
    then have "cfq_setup_merge a b q = Some (Inr q)"
      using d p(1) [OF d] merges_chain [OF us, of a] by (auto simp: cfq_setup_merge_def)
    then show ?thesis by blast
  next
    case False
    then have al: "a \<noteq> ?l" using b(2) by (cases us rule: rev_cases) auto
    have res: "cfq_setup_merge a b q = Some (if ?n = 0 \<or> ?k = 0 then Inr q
        else if ?k \<ge> ?n then Inr (q\<lparr>cfqqs := link_queues a ?l ?n ?cs\<rparr>) else Inr (q\<lparr>cfqqs := link_queues ?l a ?k ?cs\<rparr>))"
      using False d p(1) [OF d] merges_chain [OF us, of a] a(1) p(1) [OF a(1)] e(1) p(1) [OF e(1)] al
      by (simp add: cfq_setup_merge_def link_queues_def del: last.simps)
    show ?thesis
    proof (cases "?n = 0 \<or> ?k = 0")
      case True
      with res show ?thesis by simp
    next
      case nz: False
      with p(2) [OF a(1)] p(2) [OF e(1)] have pos: "0 < ?n" "0 < ?k" by auto
      have ends: "\<forall>z \<in> {a, ?l}. \<exists>d. ?cs z = Some d \<and> new_cfqq d = None" using a e by blast
      show ?thesis
      proof (cases "?k \<ge> ?n")
        case True
        with res nz have "cfq_setup_merge a b q = Some (Inr (q\<lparr>cfqqs := link_queues a ?l ?n ?cs\<rparr>))" by simp
        with al pos(1) ends show ?thesis by blast
      next
        case False
        with res nz have "cfq_setup_merge a b q = Some (Inr (q\<lparr>cfqqs := link_queues ?l a ?k ?cs\<rparr>))" by simp
        moreover have "\<forall>z \<in> {?l, a}. \<exists>d. ?cs z = Some d \<and> new_cfqq d = None" using ends by blast
        ultimately show ?thesis using al pos(2) by (metis insertCI)
      qed
    qed
  qed
qed

section \<open>Property\<close>

text \<open>C8: Planning a merge: the walk down the chain of planned merges ends, the reference counts it
  checks by \<open>BUG_ON\<close> are never negative, and whichever of the two queues is to be merged into the
  other, no chain of planned merges closes into a ring and no queue has fewer references than
  requests; so the later walks and releases along the chains end too.\<close>

theorem setup_merge_acyclic:
  assumes "merge_ok (cfqqs q)" "refs_ok (cfqqs q)" "cfqqs q a = Some c" "new_cfqq c = None"
    and "b \<in> dom (cfqqs q)" "a \<noteq> b"
  shows "\<exists>q'. cfq_setup_merge a b q = Some (Inr q') \<and> merge_ok (cfqqs q') \<and> refs_ok (cfqqs q')"
  using setup_merge_shape [OF assms]
proof (elim disjE exE conjE)
  assume "cfq_setup_merge a b q = Some (Inr q)"
  with assms(1,2) show ?thesis by blast
next
  fix x y n
  assume r: "cfq_setup_merge a b q = Some (Inr (q\<lparr>cfqqs := link_queues x y n (cfqqs q)\<rparr>))" "x \<noteq> y" "0 < n"
    and "\<forall>z \<in> {x, y}. \<exists>d. cfqqs q z = Some d \<and> new_cfqq d = None"
  then obtain d e where "cfqqs q x = Some d" "new_cfqq d = None" "cfqqs q y = Some e" "new_cfqq e = None" by auto
  from link_queues_ok [OF assms(1,2) this r(2), of n] r(1,3) show ?thesis by simp
qed

theorem setup_merge_acyclic_witness:
  "\<exists>q'. cfq_setup_merge 1 2 (cfq_example\<lparr>cfqqs := [1 \<mapsto> cfqq_example, 2 \<mapsto> cfqq_example\<lparr>new_cfqq := Some 3\<rparr>,
     3 \<mapsto> cfqq_example]\<rparr>) = Some (Inr q') \<and> merge_ok (cfqqs q')"
proof -
  let ?cs = "[1 \<mapsto> cfqq_example, 2 \<mapsto> cfqq_example\<lparr>new_cfqq := Some 3\<rparr>, 3 \<mapsto> cfqq_example] :: nat \<rightharpoonup> cfq_queue"
  have "merges ?cs 1 []" "merges ?cs 2 [3]" "merges ?cs 3 []" by (simp_all add: cfqq_example_def)
  moreover have d: "dom ?cs = {1, 2, 3}" by auto
  ultimately have "merge_ok ?cs" unfolding merge_ok_def d by blast
  moreover have "refs_ok ?cs" by (auto simp: refs_ok_def ran_def cfqq_example_def)
  ultimately show ?thesis
    using setup_merge_acyclic [of "cfq_example\<lparr>cfqqs := ?cs\<rparr>" 1 cfqq_example 2] by (auto simp: cfqq_example_def)
qed

end
