(* ===== verification/Cfq_Drain.thy ===== *)
theory Cfq_Drain
  imports Cfq_Requests ElvSched
begin

text \<open>
  Forced dispatch: the loops of \<open>cfq_forced_dispatch\<close> end, raise none of their \<open>BUG_ON\<close>s,
  and leave no request behind, so that \<open>elv_drain_elevator\<close> empties the scheduler.
\<close>

section \<open>The next queue\<close>

lemma cfq_ok_rest:
  assumes "cfq_ok q" "rr_ok q'" "cfqqs q' = cfqqs q" "same_rest q q'"
  shows "cfq_ok q'"
  using assms by (simp add: cfq_ok_def same_rest_def)

lemma keeps_rest: "cfqqs q' = cfqqs q \<Longrightarrow> same_rest q q' \<Longrightarrow> keeps q q'"
  by (simp add: keeps_def same_rest_def)

lemma rr_ok_put:
  assumes ok: "rr_ok q" and G: "cfqgs q g = Some G" and st: "st_ok (cfqqs q) (st_for g cls ty) st"
  shows "rr_ok (q\<lparr>cfqgs := (cfqgs q)(g \<mapsto> put_tree cls ty st G)\<rparr>)"
proof -
  let ?q = "q\<lparr>cfqgs := (cfqgs q)(g \<mapsto> put_tree cls ty st G)\<rparr>"
  have "grp_ok ?q" by (rule grp_ok_put [OF rr_okD(1) [OF ok] G])
  moreover have "trees_ok ?q" by (rule trees_ok_put [OF rr_okD(2) [OF ok] G st])
  moreover have "nr_ok (cfqqs ?q) (cfqgs ?q)"
    using nr_ok_trees [OF rr_okD(5) [OF ok] same_but_trees_put [where gs = "cfqgs q", OF G]] by simp
  moreover have "prio_live {} ?q = prio_live {} q" by (rule prio_live_frame) simp_all
  ultimately show ?thesis using ok by (simp add: rr_ok_def room_def counts_ok_def nexts_ok_def)
qed

lemma first_of_trees_ok:
  assumes "cfq_ok q" "\<forall>n \<in> set ns. \<exists>g cls ty. n = st_for g cls ty \<and> g \<in> dom (cfqgs q)"
  shows "\<exists>f q'. first_of_trees ns q = Inr (f, q') \<and> cfq_ok q' \<and> cfqqs q' = cfqqs q \<and> same_rest q q' \<and>
     (case f of None \<Rightarrow> \<forall>n \<in> set ns. members (cfqqs q) n = {} | Some a \<Rightarrow> \<exists>n \<in> set ns. a \<in> members (cfqqs q) n)"
  using assms
proof (induction ns arbitrary: q)
  case Nil
  then show ?case by (simp add: same_rest_def)
next
  case (Cons n ns)
  from Cons.prems(2) obtain g cls ty G where n: "n = st_for g cls ty" "cfqgs q g = Some G" by auto
  note rr = cfq_okD(1) [OF Cons.prems(1)]
  let ?st = "tree_of G cls ty"
  have st: "st_ok (cfqqs q) n ?st" using trees_okD(2) [OF rr_okD(2) [OF rr] n(2)] n(1) by simp
  note f = st_ok_first [OF st members_room [OF rr_okD(3) [OF rr]]]
  let ?q = "q\<lparr>cfqgs := (cfqgs q)(g \<mapsto> put_tree cls ty (snd (cfq_rb_first ?st)) G)\<rparr>"
  have "rr_ok ?q" by (rule rr_ok_put [OF rr n(2)]) (use f(2) n(1) in simp)
  then have ok: "cfq_ok ?q" by (rule cfq_ok_rest [OF Cons.prems(1)]) (simp_all add: same_rest_def)
  have step: "first_of_trees (n # ns) q =
      (case rb_first (rb ?st) of Some a \<Rightarrow> Inr (Some a, ?q) | None \<Rightarrow> first_of_trees ns ?q)"
    using f(1) n by (simp add: get_st_for set_st_for case_prod_beta Let_def split: option.split)
  have mem: "set (inorder (rb ?st)) = members (cfqqs q) n" using st by (simp add: st_ok_def)
  show ?case
  proof (cases "rb_first (rb ?st)")
    case (Some a)
    with rb_first_in [OF Some] mem have "a \<in> members (cfqqs q) n" by blast
    with step Some ok show ?thesis by (intro exI [of _ "Some a"] exI [of _ ?q]) (simp add: same_rest_def)
  next
    case None
    then have "members (cfqqs q) n = {}" using mem by (simp add: rb_first_def)
    moreover have d: "dom (cfqgs ?q) = dom (cfqgs q)" using n(2) by auto
    have sub: "\<forall>m \<in> set ns. \<exists>g cls ty. m = st_for g cls ty \<and> g \<in> dom (cfqgs ?q)"
      unfolding d using Cons.prems(2) by simp
    from Cons.IH [OF ok sub] obtain a q' where "first_of_trees ns ?q = Inr (a, q')" "cfq_ok q'" "cfqqs q' = cfqqs ?q"
      "same_rest ?q q'" "case a of None \<Rightarrow> \<forall>n \<in> set ns. members (cfqqs ?q) n = {} | Some a \<Rightarrow> \<exists>n \<in> set ns. a \<in> members (cfqqs ?q) n"
      by (elim exE conjE) (rule that; assumption)
    ultimately show ?thesis using step None
      by (intro exI [of _ a] exI [of _ q']) (auto simp: same_rest_def split: option.splits)
  qed
qed

text \<open>Something waits, so a group is on the tree, and one of its trees has a queue.\<close>

lemma next_group_ok:
  assumes ok: "cfq_ok q" and w: "waiting (cfqqs q) \<noteq> {}"
  obtains x q' where "cfq_get_next_cfqg q = Inr (Some x, q')" "cfq_ok q'" "cfqqs q' = cfqqs q" "same_rest q q'"
    "x \<in> dom (cfqgs q')" "busy_in (cfqqs q) x \<noteq> {}"
proof -
  note rr = cfq_okD(1) [OF ok]
  from w obtain a c y where a: "cfqqs q a = Some c" "y \<in> set_tree (sort_list c)" by (auto simp: waiting_def)
  then have on: "has On_rr c" using queue_okD(7) [OF cfq_okD(2) [OF ok a(1)]] by (cases "sort_list c") auto
  from trees_okD(1) [OF rr_okD(2) [OF rr] a(1)] obtain g G where g: "cfqg c = Some g" "cfqgs q g = Some G"
    by (auto simp: placed_def)
  have busy: "g_linked G' \<longleftrightarrow> busy_in (cfqqs q) h \<noteq> {}" if "cfqgs q h = Some G'" for h G'
    using rr_okD(5) [OF rr] that finite_rr(3) [OF rr_okD(3) [OF rr], of h] by (simp add: nr_ok_def card_gt_0_iff)
  have "a \<in> busy_in (cfqqs q) g" using a on g by (auto simp: busy_in_def)
  then have "g \<in> linked (cfqgs q)" using busy [OF g(2)] g(2) by (auto simp: linked_def)
  then have "set (inorder (rb (grp_service_tree q))) \<noteq> {}" using grp_okD(4) [OF rr_okD(1) [OF rr]] by (auto simp: grp_tree_def)
  then obtain x where x: "rb_first (rb (grp_service_tree q)) = Some x"
    by (cases "inorder (rb (grp_service_tree q))") (auto simp: rb_first_def)
  from get_next_cfqg_ok [OF rr_okD(1) [OF rr] x] obtain st where st:
    "cfq_get_next_cfqg q = Inr (Some x, q\<lparr>grp_service_tree := st\<rparr>)" "grp_ok (q\<lparr>grp_service_tree := st\<rparr>)" by blast
  let ?q = "q\<lparr>grp_service_tree := st\<rparr>"
  have "rr_ok ?q"
  proof -
    have "prio_live {} ?q = prio_live {} q" by (rule prio_live_frame) simp_all
    with st(2) rr show ?thesis by (simp add: rr_ok_def trees_ok_def room_def counts_ok_def nexts_ok_def)
  qed
  then have "cfq_ok ?q" by (rule cfq_ok_rest [OF ok]) (simp_all add: same_rest_def)
  moreover have "x \<in> linked (cfqgs q)" using rb_first_in [OF x] grp_okD(4) [OF rr_okD(1) [OF rr]] by (simp add: grp_tree_def)
  then obtain X where "cfqgs q x = Some X" "g_linked X" by (auto simp: linked_def)
  ultimately show thesis using that [OF st(1)] busy by (auto simp: same_rest_def)
qed

lemma cfqg_trees_all: "st_for g cls ty \<in> set (cfqg_trees g)"
  by (cases cls; cases ty) (simp_all add: cfqg_trees_def st_for_def)

lemma cfqg_trees_named: "n \<in> set (cfqg_trees g) \<Longrightarrow> \<exists>cls ty. n = st_for g cls ty"
proof -
  have "cfqg_trees g = map (\<lambda>(cls, ty). st_for g cls ty)
      (List.product [BE_WORKLOAD, RT_WORKLOAD] [ASYNC_WORKLOAD, SYNC_NOIDLE_WORKLOAD, SYNC_WORKLOAD] @
       [(IDLE_WORKLOAD, ASYNC_WORKLOAD)])"
    by (simp add: cfqg_trees_def st_for_def)
  then show "n \<in> set (cfqg_trees g) \<Longrightarrow> \<exists>cls ty. n = st_for g cls ty" by auto
qed

lemma next_queue_forced_ok:
  assumes ok: "cfq_ok q"
  shows "\<exists>f q'. cfq_get_next_queue_forced q = Inr (f, q') \<and> cfq_ok q' \<and> cfqqs q' = cfqqs q \<and> same_rest q q' \<and>
     (case f of None \<Rightarrow> waiting (cfqqs q) = {} | Some a \<Rightarrow> a \<in> on_rr (cfqqs q))"
proof (cases "waiting (cfqqs q) = {}")
  case True
  with ok show ?thesis
    by (intro exI [of _ None] exI [of _ q]) (simp add: cfq_get_next_queue_forced_def cfq_okD(3) same_rest_def)
next
  case False
  note rr = cfq_okD(1) [OF ok]
  have "rq_queued q \<noteq> 0"
    using False cfq_okD(3) [OF ok] finite_waiting [OF rr_okD(3) [OF rr]] by (simp add: card_gt_0_iff)
  from next_group_ok [OF ok False] obtain x q1 where x: "cfq_get_next_cfqg q = Inr (Some x, q1)" "cfq_ok q1"
    "cfqqs q1 = cfqqs q" "same_rest q q1" "x \<in> dom (cfqgs q1)" "busy_in (cfqqs q) x \<noteq> {}" by blast
  have on: "has On_rr c \<longleftrightarrow> service_tree c \<noteq> None" if "cfqqs q a = Some c" for a c
    using flags_okD [OF rr_okD(4) [OF rr] that] trees_okD(1) [OF rr_okD(2) [OF rr] that] by (auto simp: placed_def)
  from x(6) obtain b d where b: "cfqqs q b = Some d" "has On_rr d" "cfqg d = Some x" by (auto simp: busy_in_def)
  from trees_okD(1) [OF rr_okD(2) [OF rr] b(1)] on [OF b(1)] b(2,3) obtain cls ty where
    "service_tree d = Some (st_for x cls ty)" unfolding placed_def by (metis option.exhaust option.inject)
  with b(1) have mem: "b \<in> members (cfqqs q) (st_for x cls ty)" by (auto simp: members_def)
  have "\<forall>n \<in> set (cfqg_trees x). \<exists>g cls ty. n = st_for g cls ty \<and> g \<in> dom (cfqgs q1)"
    using x(5) cfqg_trees_named by blast
  from first_of_trees_ok [OF x(2) this] obtain f q2 where f: "first_of_trees (cfqg_trees x) q1 = Inr (f, q2)" "cfq_ok q2"
    "cfqqs q2 = cfqqs q" "same_rest q1 q2"
    "case f of None \<Rightarrow> \<forall>n \<in> set (cfqg_trees x). members (cfqqs q) n = {} | Some a \<Rightarrow> \<exists>n \<in> set (cfqg_trees x). a \<in> members (cfqqs q) n"
    unfolding x(3) by (elim exE conjE) (rule that; assumption)
  then obtain a n where a: "f = Some a" "a \<in> members (cfqqs q) n" using mem cfqg_trees_all [of x cls ty] by (cases f) auto
  then have "a \<in> on_rr (cfqqs q)" using on unfolding members_def on_rr_def by (cases n) auto
  moreover have "cfq_get_next_queue_forced q = Inr (f, q2)"
    using \<open>rq_queued q \<noteq> 0\<close> x(1) f(1) by (simp add: cfq_get_next_queue_forced_def)
  ultimately show ?thesis using f(2,3,4) x(3,4) a(1) same_rest_trans by (intro exI [of _ f] exI [of _ q2]) auto
qed

section \<open>Forced dispatch\<close>

text \<open>Dispatching a queue to the end: its requests, all of them, go to the dispatch list.\<close>

lemma dispatch_all_ok:
  assumes L: "lib_ok L"
  shows "cfq_ok q \<Longrightarrow> active_queue q = Some a \<Longrightarrow> cfqqs q a = Some c \<Longrightarrow>
     \<exists>q' c'. dispatch_all L a n q = Some (Inr (n + int (card (set_tree (sort_list c))), q')) \<and> cfq_ok q' \<and>
       active_queue q' = Some a \<and> cfqqs q' a = Some c' \<and> sort_list c' = Leaf \<and>
       waiting (cfqqs q') = waiting (cfqqs q) - set_tree (sort_list c) \<and>
       mset (queue_head q') = mset_set (set_tree (sort_list c)) + mset (queue_head q) \<and> keeps q q'"
proof (induction "card (set_tree (sort_list c))" arbitrary: q c n rule: less_induct)
  case less
  note qok = cfq_okD(2) [OF less.prems(1,3)]
  show ?case
  proof (cases "next_rq c")
    case None
    then have "sort_list c = Leaf" using queue_okD(3) [OF qok] by simp
    with None less.prems keeps_refl [of q] show ?thesis by (subst dispatch_all.simps) auto
  next
    case (Some rq)
    have x: "rq \<in> set_tree (sort_list c)" by (rule queue_okD(4) [OF qok Some])
    from dispatch_insert_ok [OF L less.prems(1,3) x less.prems(2)] obtain q1 c1 where d:
      "cfq_dispatch_insert L rq q = Inr q1" "cfq_ok q1" "cfqqs q1 a = Some c1" "active_queue q1 = Some a"
      "waiting (cfqqs q1) = waiting (cfqqs q) - {rq}" "mset (queue_head q1) = add_mset rq (mset (queue_head q))"
      "set_tree (sort_list c1) = set_tree (sort_list c) - {rq}" "keeps q q1"
      by (elim exE conjE) (rule that; assumption)
    have fin: "finite (set_tree (sort_list c))" by simp
    then have card: "card (set_tree (sort_list c)) = Suc (card (set_tree (sort_list c1)))"
      using x unfolding d(7) by (simp only: card.remove)
    then have "card (set_tree (sort_list c1)) < card (set_tree (sort_list c))" by simp
    from less.hyps [OF this d(2,4,3), of "n + 1"] obtain q2 c2 where e:
      "dispatch_all L a (n + 1) q1 = Some (Inr (n + 1 + int (card (set_tree (sort_list c1))), q2))" "cfq_ok q2"
      "active_queue q2 = Some a" "cfqqs q2 a = Some c2" "sort_list c2 = Leaf"
      "waiting (cfqqs q2) = waiting (cfqqs q1) - set_tree (sort_list c1)"
      "mset (queue_head q2) = mset_set (set_tree (sort_list c1)) + mset (queue_head q1)" "keeps q1 q2"
      by (elim exE conjE) (rule that; assumption)
    have "dispatch_all L a n q = Some (Inr (n + int (card (set_tree (sort_list c))), q2))"
      using less.prems(3) Some d(1) e(1) card by (subst dispatch_all.simps) (simp add: add.assoc)
    moreover have "waiting (cfqqs q2) = waiting (cfqqs q) - set_tree (sort_list c)" using e(6) d(5,7) x by auto
    moreover have "mset (queue_head q2) = mset_set (set_tree (sort_list c)) + mset (queue_head q)"
      using e(7) d(6,7) mset_set.remove [OF fin x] by simp
    ultimately show ?thesis using e(2-5) keeps_trans [OF d(8) e(8)] by blast
  qed
qed

lemma forced_cfqq_ok:
  assumes L: "lib_ok L" and ok: "cfq_ok q" and act: "active_queue q = Some a" and a: "cfqqs q a = Some c"
  shows "\<exists>q'. cfq_forced_dispatch_cfqq L now a q = Some (Inr (int (card (set_tree (sort_list c))), q')) \<and> cfq_ok q' \<and>
     active_queue q' = None \<and> waiting (cfqqs q') = waiting (cfqqs q) - set_tree (sort_list c) \<and>
     mset (queue_head q') = mset_set (set_tree (sort_list c)) + mset (queue_head q) \<and> keeps q q'"
proof -
  from dispatch_all_ok [OF L ok act a, of 0] obtain q1 c1 where d:
    "dispatch_all L a 0 q = Some (Inr (int (card (set_tree (sort_list c))), q1))" "cfq_ok q1" "active_queue q1 = Some a"
    "cfqqs q1 a = Some c1" "sort_list c1 = Leaf" "waiting (cfqqs q1) = waiting (cfqqs q) - set_tree (sort_list c)"
    "mset (queue_head q1) = mset_set (set_tree (sort_list c)) + mset (queue_head q)" "keeps q q1"
    unfolding add_0 by (elim exE conjE) (rule that; assumption)
  have "qfifo c1 = []" using queue_okD(2) [OF cfq_okD(2) [OF d(2,4)]] d(5) by simp
  moreover from slice_expired'_ok [OF L d(2,3), of now] obtain q2 where "cfq_slice_expired' L now a False q1 = Some (Inr q2)"
    "cfq_ok q2" "active_queue q2 = None" "waiting (cfqqs q2) = waiting (cfqqs q1)" "queue_head q2 = queue_head q1" "keeps q1 q2" by blast
  ultimately show ?thesis using d keeps_trans [of q q1 q2] by (intro exI [of _ q2]) (simp add: cfq_forced_dispatch_cfqq_def)
qed

lemma set_active_ok:
  assumes ok: "cfq_ok q" and act: "active_queue q = None" and a: "a \<in> on_rr (cfqqs q)"
  shows "\<exists>q' c. cfq_set_active_queue' now (Some a) q = Inr q' \<and> cfq_ok q' \<and> active_queue q' = Some a \<and>
     waiting (cfqqs q') = waiting (cfqqs q) \<and> queue_head q' = queue_head q \<and> cfqqs q' a = Some c \<and> sort_list c \<noteq> Leaf \<and>
     keeps q q'"
proof -
  from a obtain c where c: "cfqqs q a = Some c" "has On_rr c" by (auto simp: on_rr_def)
  let ?c = "slice_reset now c"
  let ?q1 = "q\<lparr>cfqqs := (cfqqs q)(a \<mapsto> ?c)\<rparr>"
  let ?q = "(cfq_del_timer ?q1)\<lparr>active_queue := Some a\<rparr>"
  have f: "has On_rr ?c = has On_rr c" "has Sync ?c = has Sync c" "service_tree ?c = service_tree c" "rb_linked ?c = rb_linked c"
    "rb_key ?c = rb_key c" "cfqg ?c = cfqg c" "next_rq ?c = next_rq c" "p_root ?c = p_root c" "org_ioprio ?c = org_ioprio c"
    "sort_list ?c = sort_list c" "qfifo ?c = qfifo c" "queued ?c = queued c"
    by (simp_all add: slice_reset_def has_def)
  have "rr_ok ?q1" by (rule rr_ok_queue [OF cfq_okD(1) [OF ok] c(1)]) (simp_all add: f)
  then have rr: "rr_ok ?q" using rr_ok_frame [of ?q ?q1] by (simp add: cfq_del_timer_def)
  have w: "waiting (cfqqs ?q) = waiting (cfqqs q)"
    by (simp add: cfq_del_timer_def) (rule waiting_upd_same [where cs = "cfqqs q", OF c(1) f(10)])
  have ne: "sort_list c \<noteq> Leaf" using cfq_okD(7) [OF ok c] act by auto
  have "queue_ok (rqs ?q) b d" if "cfqqs ?q b = Some d" for b d
    using that cfq_okD(2) [OF ok] queue_ok_fields [OF cfq_okD(2) [OF ok c(1)] f(10,11,7,12,6,1)]
    by (auto simp: cfq_del_timer_def split: if_splits)
  moreover have "a \<in> on_rr (cfqqs ?q)" using c(2) f(1) by (simp add: cfq_del_timer_def on_rr_def)
  moreover have "active_queue ?q = Some b" if "cfqqs ?q b = Some d" "has On_rr d" "sort_list d = Leaf" for b d
    using that cfq_okD(7) [OF ok] act ne f(10) by (auto simp: cfq_del_timer_def split: if_splits)
  ultimately have "cfq_ok ?q" using ok rr w by (simp add: cfq_ok_def cfq_del_timer_def)
  moreover have "keeps q ?q"
  proof -
    have "ref_side ?c = ref_side c" by (simp add: ref_side_def slice_reset_def)
    with w c(1) show ?thesis by (simp add: keeps_def cfq_del_timer_def)
  qed
  ultimately show ?thesis using c ne w f(10)
    by (intro exI [of _ ?q] exI [of _ ?c]) (simp add: cfq_set_active_queue'_def cfq_del_timer_def)
qed

lemma forced_loop_ok:
  assumes L: "lib_ok L"
  shows "cfq_ok q \<Longrightarrow> active_queue q = None \<Longrightarrow>
     \<exists>q'. forced_loop L now n q = Some (Inr (n + int (card (waiting (cfqqs q))), q')) \<and> cfq_ok q' \<and>
       active_queue q' = None \<and> waiting (cfqqs q') = {} \<and>
       mset (queue_head q') = mset_set (waiting (cfqqs q)) + mset (queue_head q) \<and> keeps q q'"
proof (induction "card (waiting (cfqqs q))" arbitrary: q n rule: less_induct)
  case less
  from next_queue_forced_ok [OF less.prems(1)] obtain f q1 where f: "cfq_get_next_queue_forced q = Inr (f, q1)" "cfq_ok q1"
    "cfqqs q1 = cfqqs q" "same_rest q q1" "case f of None \<Rightarrow> waiting (cfqqs q) = {} | Some a \<Rightarrow> a \<in> on_rr (cfqqs q)" by blast
  show ?case
  proof (cases f)
    case None
    with f less.prems keeps_rest [OF f(3,4)] show ?thesis by (subst forced_loop.simps) (simp add: same_rest_def)
  next
    case (Some a)
    have act: "active_queue q1 = None" and a: "a \<in> on_rr (cfqqs q1)" using f(3-5) Some less.prems(2) by (simp_all add: same_rest_def)
    from set_active_ok [OF f(2) act a, of now] obtain q2 c where s: "cfq_set_active_queue' now (Some a) q1 = Inr q2" "cfq_ok q2"
      "active_queue q2 = Some a" "waiting (cfqqs q2) = waiting (cfqqs q1)" "queue_head q2 = queue_head q1"
      "cfqqs q2 a = Some c" "sort_list c \<noteq> Leaf" "keeps q1 q2" by (elim exE conjE) (rule that; assumption)
    from forced_cfqq_ok [OF L s(2,3,6), of now] obtain q3 where d:
      "cfq_forced_dispatch_cfqq L now a q2 = Some (Inr (int (card (set_tree (sort_list c))), q3))" "cfq_ok q3"
      "active_queue q3 = None" "waiting (cfqqs q3) = waiting (cfqqs q2) - set_tree (sort_list c)"
      "mset (queue_head q3) = mset_set (set_tree (sort_list c)) + mset (queue_head q2)" "keeps q2 q3" by blast
    let ?W = "waiting (cfqqs q)" and ?S = "set_tree (sort_list c)"
    have fin: "finite ?W" by (rule finite_waiting [OF rr_okD(3) [OF cfq_okD(1) [OF less.prems(1)]]])
    have W: "waiting (cfqqs q2) = ?W" using s(4) f(3) by simp
    have sub: "?S \<subseteq> ?W" unfolding W [symmetric] using s(6) by (auto simp: waiting_def)
    have "?S \<noteq> {}" using s(7) by (cases "sort_list c") auto
    then have "0 < card ?S" by (simp add: card_gt_0_iff)
    moreover have "finite ?S" by simp
    then have "card (?W - ?S) = card ?W - card ?S" by (rule card_Diff_subset) (rule sub)
    moreover have "card ?S \<le> card ?W" by (rule card_mono [OF fin sub])
    ultimately have cards: "card (?W - ?S) < card ?W" "card ?W = card ?S + card (?W - ?S)" by linarith+
    from less.hyps [OF _ d(2,3), of "n + int (card ?S)"] cards(1) d(4) W obtain q4 where e:
      "forced_loop L now (n + int (card ?S)) q3 = Some (Inr (n + int (card ?S) + int (card (?W - ?S)), q4))" "cfq_ok q4"
      "active_queue q4 = None" "waiting (cfqqs q4) = {}" "mset (queue_head q4) = mset_set (?W - ?S) + mset (queue_head q3)" "keeps q3 q4" by auto
    have "forced_loop L now n q = Some (Inr (n + int (card ?W), q4))"
      using f(1) Some s(1) d(1) e(1) cards(2) by (subst forced_loop.simps) (simp add: add.assoc)
    moreover have "mset (queue_head q4) = mset_set ?W + mset (queue_head q)"
    proof -
      have "mset_set ?W = mset_set ?S + mset_set (?W - ?S)"
        using mset_set_Union [of ?S "?W - ?S"] fin sub by (simp add: Un_absorb1)
      with e(5) d(5) s(5) f(4) show ?thesis by (simp add: same_rest_def)
    qed
    moreover have "keeps q q4"
      using keeps_rest [OF f(3,4)] s(8) d(6) e(6) keeps_trans by blast
    ultimately show ?thesis using e(2-4) by blast
  qed
qed

lemma none_busy: "cfq_ok q \<Longrightarrow> active_queue q = None \<Longrightarrow> waiting (cfqqs q) = {} \<Longrightarrow> busy_queues q = 0"
proof -
  assume ok: "cfq_ok q" and act: "active_queue q = None" and w: "waiting (cfqqs q) = {}"
  have "on_rr (cfqqs q) = {}"
  proof (rule equals0I)
    fix a assume "a \<in> on_rr (cfqqs q)"
    then obtain c where c: "cfqqs q a = Some c" "has On_rr c" by (auto simp: on_rr_def)
    have "set_tree (sort_list c) = {}" using w c(1) unfolding waiting_def by blast
    then have "sort_list c = Leaf" by (cases "sort_list c") auto
    from cfq_okD(7) [OF ok c this] act show False by simp
  qed
  then show ?thesis using rr_okD(6) [OF cfq_okD(1) [OF ok]] by (simp add: counts_ok_def)
qed

lemma busy_waiting: "cfq_ok q \<Longrightarrow> busy_queues q = 0 \<Longrightarrow> waiting (cfqqs q) = {}"
proof -
  assume ok: "cfq_ok q" and b: "busy_queues q = 0"
  note rr = cfq_okD(1) [OF ok]
  have "on_rr (cfqqs q) = {}"
    using rr_okD(6) [OF rr] b finite_rr(1) [OF rr_okD(3) [OF rr]] by (simp add: counts_ok_def)
  then have off: "\<not> has On_rr c" if "cfqqs q a = Some c" for a c using that by (auto simp: on_rr_def)
  have "sort_list c = Leaf" if "cfqqs q a = Some c" for a c
    using queue_okD(7) [OF cfq_okD(2) [OF ok that]] off [OF that] by blast
  then show ?thesis by (auto simp: waiting_def)
qed

lemma forced_dispatch_ok:
  assumes L: "lib_ok L" and ok: "cfq_ok q"
  shows "\<exists>q'. cfq_forced_dispatch L now q = Some (Inr (int (card (waiting (cfqqs q))), q')) \<and> cfq_ok q' \<and>
     waiting (cfqqs q') = {} \<and> mset (queue_head q') = mset_set (waiting (cfqqs q)) + mset (queue_head q) \<and> keeps q q'"
proof -
  obtain q1 where e: "cfq_slice_expired L now False q = Some (Inr q1)" "cfq_ok q1" "active_queue q1 = None"
    "waiting (cfqqs q1) = waiting (cfqqs q)" "queue_head q1 = queue_head q" "keeps q q1"
  proof (cases "active_queue q")
    case None
    with ok that [of q] keeps_refl [of q] show thesis by (simp add: cfq_slice_expired_def)
  next
    case (Some a)
    from slice_expired'_ok [OF L ok this, of now] that Some show thesis by (auto simp: cfq_slice_expired_def)
  qed
  from forced_loop_ok [OF L e(2,3), of now 0] obtain q2 where f:
    "forced_loop L now 0 q1 = Some (Inr (int (card (waiting (cfqqs q))), q2))" "cfq_ok q2" "active_queue q2 = None"
    "waiting (cfqqs q2) = {}" "mset (queue_head q2) = mset_set (waiting (cfqqs q)) + mset (queue_head q)" "keeps q1 q2"
    unfolding add_0 e(4,5) by blast
  with e(1) keeps_trans [OF e(6) f(6)] none_busy [OF f(2-4)] show ?thesis by (intro exI [of _ q2]) (simp add: cfq_forced_dispatch_def)
qed

section \<open>The contract of the elevator core\<close>

interpretation forced: batch_conserving "\<lambda>q. lib_ok L \<and> cfq_ok q" "\<lambda>q. mset_set (waiting (cfqqs q))"
  "\<lambda>q. mset (queue_head q)" "cfq_dispatch_requests L now True"
  for L now
proof (unfold_locales, goal_cases)
  case (1 q)
  then have ok: "lib_ok L" "cfq_ok q" by auto
  show ?case
  proof (cases "busy_queues q = 0")
    case True
    with ok show ?thesis by (intro exI [of _ 0] exI [of _ q] exI [of _ "{#}"]) (simp add: cfq_dispatch_requests_def)
  next
    case False
    from forced_dispatch_ok [OF ok, of now] obtain q' where
      "cfq_forced_dispatch L now q = Some (Inr (int (card (waiting (cfqqs q))), q'))" "cfq_ok q'"
      "waiting (cfqqs q') = {}" "mset (queue_head q') = mset_set (waiting (cfqqs q)) + mset (queue_head q)" by blast
    moreover have "finite (waiting (cfqqs q))" by (rule finite_waiting [OF rr_okD(3) [OF cfq_okD(1) [OF ok(2)]]])
    ultimately show ?thesis using False ok(1)
      by (intro exI [of _ "int (card (waiting (cfqqs q)))"] exI [of _ q'] exI [of _ "mset_set (waiting (cfqqs q))"])
        (simp add: cfq_dispatch_requests_def mset_set_empty_iff)
  qed
next
  case (2 q n q')
  then have ok: "lib_ok L" "cfq_ok q" and w: "waiting (cfqqs q) \<noteq> {}" by auto
  then have b: "busy_queues q \<noteq> 0" using busy_waiting by blast
  have "finite (waiting (cfqqs q))" by (rule finite_waiting [OF rr_okD(3) [OF cfq_okD(1) [OF ok(2)]]])
  with w forced_dispatch_ok [OF ok, of now] 2(3) b show ?case by (auto simp: cfq_dispatch_requests_def)
qed

section \<open>A scheduler with two requests\<close>

text \<open>One queue of the example group, active, holding the requests at the sectors 40 and 100;
  a third request is set up and not yet inserted.\<close>

definition drain_queue :: cfq_queue where
  "drain_queue = cfqq_example\<lparr>qflags := {Sync, On_rr}, rb_linked := True, rb_key := 30,
     service_tree := Some (1, BE_WORKLOAD, SYNC_NOIDLE_WORKLOAD), cfqg := Some 1, p_root := Some 4,
     sort_list := Node (Node Leaf 2 Leaf) 1 Leaf, qfifo := [1, 2], queued := (\<lambda>s. if s then 2 else 0)\<rparr>"

definition drain_tree :: cfq_rb_root where
  "drain_tree = (CFQ_RB_ROOT 0)\<lparr>rb := Node Leaf 5 Leaf, leftmost := Some 5, st_count := 1\<rparr>"

definition drain_group :: cfq_group where
  "drain_group = blank_group\<lparr>g_linked := True, nr_active := 1, children_weight := 500, vfraction := 4096,
     vdisktime := 70, nr_cfqq := 1, gparent := Some 0\<rparr>"

definition drain_cic :: cfq_io_cq where
  "drain_cic = \<lparr>cic_cfqq = (\<lambda>s. if s then Some 5 else None),
     c_ttime = \<lparr>last_end_request = 0, ttime_total = 0, ttime_mean = 0, ttime_samples = 0\<rparr>,
     c_ioprio = 0, blkcg_serial_nr = 1, ioc_ioprio = 0, ioc_active_ref = 1, ioc_refcount = 1\<rparr>"

definition drain_example :: cfq_data where
  "drain_example = group_example\<lparr>
     rqs := [1 \<mapsto> (plain_request 100)\<lparr>priv0 := Some 5, priv1 := Some 1, rq_icq := Some 9\<rparr>,
             2 \<mapsto> (plain_request 40)\<lparr>priv0 := Some 5, priv1 := Some 1, rq_icq := Some 9\<rparr>,
             3 \<mapsto> (plain_request 60)\<lparr>priv0 := Some 5, priv1 := Some 1, rq_icq := Some 9\<rparr>],
     cfqqs := [5 \<mapsto> drain_queue], cics := [9 \<mapsto> drain_cic],
     cfqgs := (cfqgs group_example)(1 \<mapsto> put_tree BE_WORKLOAD SYNC_NOIDLE_WORKLOAD drain_tree drain_group),
     prio_trees := (\<lambda>i. if i = 4 then Node Leaf 5 Leaf else Leaf), busy_queues := 1, busy_sync_queues := 1,
     rq_queued := 2, nr_sorted := 2, active_queue := Some 5\<rparr>"

lemma drain_example_queue [simp]:
  "cfqqs drain_example = [5 \<mapsto> drain_queue]" "active_queue drain_example = Some 5" "queue_head drain_example = []"
  by (simp_all add: drain_example_def group_example_def cfq_example_def)

lemma drain_example_rr: "rr_ok drain_example"
proof -
  let ?q = "drain_example"
  have g1: "cfqgs group_example 1 = Some drain_group" by (simp add: group_example_groups drain_group_def)
  have gs: "cfqgs ?q = (cfqgs group_example)(1 \<mapsto> put_tree BE_WORKLOAD SYNC_NOIDLE_WORKLOAD drain_tree drain_group)"
    by (simp add: drain_example_def)
  have "grp_ok ?q" using grp_ok_put [OF group_example_ok g1] by (simp add: grp_ok_def drain_example_def)
  moreover have "trees_ok ?q"
  proof -
    have m: "members [5 \<mapsto> drain_queue] n = (if n = (1, BE_WORKLOAD, SYNC_NOIDLE_WORKLOAD) then {5} else {})" for n
      by (auto simp: members_def drain_queue_def)
    have e: "st_ok (cfqqs ?q) n (CFQ_RB_ROOT 0)" if "n \<noteq> (1, BE_WORKLOAD, SYNC_NOIDLE_WORKLOAD)" for n
      using that by (simp add: st_ok_def m st_sorted_def CFQ_RB_ROOT_def samples_ok_def no_ttime_def)
    have d: "st_ok (cfqqs ?q) (1, BE_WORKLOAD, SYNC_NOIDLE_WORKLOAD) drain_tree"
      by (simp add: st_ok_def m st_sorted_def samples_ok_def no_ttime_def drain_tree_def CFQ_RB_ROOT_def rb_first_def)
    have "st_ok (cfqqs ?q) (st_for g cls ty) (tree_of G cls ty)" if "cfqgs ?q g = Some G" for g G cls ty
    proof (cases "st_for g cls ty = (1, BE_WORKLOAD, SYNC_NOIDLE_WORKLOAD)")
      case True
      then have "g = 1" "cls = BE_WORKLOAD" "ty = SYNC_NOIDLE_WORKLOAD" by (auto simp: st_for_def split: if_splits)
      with that d True show ?thesis by (auto simp: gs tree_of_put)
    next
      case False
      have "tree_of H cls ty = CFQ_RB_ROOT 0" if "cfqgs group_example h = Some H" for h H
        using that by (auto simp: group_example_groups blank_group_def tree_of_def split: if_splits)
      then have "tree_of G cls ty = CFQ_RB_ROOT 0"
        using that False g1 by (auto simp: gs tree_of_put st_for_def split: if_splits)
      with e [OF False] show ?thesis by simp
    qed
    moreover have "placed (cfqgs ?q) drain_queue"
      by (auto simp: placed_def drain_queue_def gs intro!: exI [of _ BE_WORKLOAD] exI [of _ SYNC_NOIDLE_WORKLOAD] simp: st_for_def)
    ultimately show ?thesis by (simp add: trees_ok_def)
  qed
  moreover have "room ?q" by (simp add: room_def)
  moreover have "flags_ok (cfqqs ?q)" by (simp add: flags_ok_def drain_queue_def has_def)
  moreover have "nr_ok (cfqqs ?q) (cfqgs ?q)"
  proof -
    have "busy_in (cfqqs ?q) g = (if g = 1 then {5} else {})" for g
      by (auto simp: busy_in_def drain_queue_def has_def)
    then show ?thesis
      by (auto simp: nr_ok_def samples_ok_def no_ttime_def gs group_example_groups blank_group_def drain_group_def)
  qed
  moreover have "counts_ok ?q"
  proof -
    have "on_rr (cfqqs ?q) = {5}" "sync_rr (cfqqs ?q) = {5}"
      by (auto simp: on_rr_def sync_rr_def drain_queue_def has_def)
    then show ?thesis by (simp add: counts_ok_def drain_example_def)
  qed
  moreover have "prio_live {} ?q"
    by (auto simp: prio_live_def prio_nodes_def prio_members_def drain_queue_def cfqq_example_def drain_example_def
        CFQ_PRIO_LISTS_def ioprio_defs)
  moreover have "nexts_ok ?q"
    by (simp add: nexts_ok_def drain_queue_def cfqq_example_def drain_example_def CFQ_PRIO_LISTS_def ioprio_defs)
  ultimately show ?thesis by (simp add: rr_ok_def)
qed

lemma drain_example_waiting: "waiting [5 \<mapsto> drain_queue] = {1, 2}"
  by (auto simp: waiting_def drain_queue_def)

lemma drain_example_ok: "cfq_ok drain_example"
proof -
  have "queue_ok (rqs drain_example) 5 drain_queue"
    by (auto simp: queue_ok_def drain_queue_def cfqq_example_def drain_example_def sync_of_def plain_request_def has_def)
  moreover have "5 \<in> on_rr (cfqqs drain_example)" by (simp add: on_rr_def drain_queue_def has_def)
  ultimately show ?thesis using drain_example_rr drain_example_waiting
    by (simp add: cfq_ok_def) (simp add: drain_example_def group_example_def cfq_example_def)
qed

section \<open>Property\<close>

text \<open>C7: Draining CFQ: when the elevator core switches schedulers it calls forced dispatch until it
  reports nothing; these calls end, none of the scheduler's \<open>BUG_ON\<close>s fires and no freed memory
  is read, every request that waited in any queue of any group is on the dispatch list exactly once, no queue
  stays on the list of busy queues, and the core has nothing to complain about.\<close>

theorem cfq_drain:
  assumes "lib_ok L" "cfq_ok q"
  shows "\<exists>q'. elv_drain_elevator (cfq_dispatch_requests L now True) printed q = Some (Inr (printed, q')) \<and>
     cfq_ok q' \<and> waiting (cfqqs q') = {} \<and>
     mset (queue_head q') = mset_set (waiting (cfqqs q)) + mset (queue_head q)"
proof -
  from forced.drain_empties [OF conjI [OF assms], of now] obtain q' where d:
    "drain_loop (cfq_dispatch_requests L now True) q = Some (Inr q')" "cfq_ok q'" "mset_set (waiting (cfqqs q')) = {#}"
    "mset (queue_head q') = mset_set (waiting (cfqqs q)) + mset (queue_head q)" by blast
  have "finite (waiting (cfqqs q'))" by (rule finite_waiting [OF rr_okD(3) [OF cfq_okD(1) [OF d(2)]]])
  then have w: "waiting (cfqqs q') = {}" using d(3) by (simp add: mset_set_empty_iff)
  then have "nr_sorted q' = 0" using cfq_okD(3,8) [OF d(2)] by simp
  with d w show ?thesis by (intro exI [of _ q']) (simp add: elv_drain_elevator_def)
qed

theorem cfq_drain_witness:
  "\<exists>q'. elv_drain_elevator (cfq_dispatch_requests lib_example 9000000 True) 3 drain_example = Some (Inr (3, q')) \<and>
     waiting (cfqqs q') = {} \<and> mset (queue_head q') = {#1, 2#}"
  using cfq_drain [OF lib_example_ok drain_example_ok, of 9000000 3] by (auto simp: drain_example_waiting)

end
