(* ===== verification/Cfq_Choose.thy ===== *)
theory Cfq_Choose
  imports Cfq_Merge Cfq_Drain
begin

text \<open>
  Choosing a queue: group, class, type, cooperating queue and idling.  None of it faults,
  and a queue that is chosen is the active one and holds a request.
\<close>

section \<open>The invariant\<close>

text \<open>Every waiting request names the I/O context it came from.\<close>

definition icqs_ok :: "'a cfq_data_scheme \<Rightarrow> bool" where
  "icqs_ok q \<longleftrightarrow> (\<forall>x \<in> waiting (cfqqs q). \<exists>r i. rqs q x = Some r \<and> rq_icq r = Some i \<and> i \<in> dom (cics q))"

definition sel_ok :: "'a cfq_data_scheme \<Rightarrow> bool" where
  "sel_ok q \<longleftrightarrow> cfq_ok q \<and> merge_ok (cfqqs q) \<and> refs_ok (cfqqs q) \<and> icqs_ok q \<and>
     cfq_slice q True \<noteq> 0 \<and> cics_ok (cics q)"

lemma sel_okD:
  "sel_ok q \<Longrightarrow> cfq_ok q" "sel_ok q \<Longrightarrow> merge_ok (cfqqs q)" "sel_ok q \<Longrightarrow> refs_ok (cfqqs q)" "sel_ok q \<Longrightarrow> icqs_ok q"
  "sel_ok q \<Longrightarrow> cfq_slice q True \<noteq> 0" "sel_ok q \<Longrightarrow> rr_ok q"
  "sel_ok q \<Longrightarrow> cics_ok (cics q)"
  by (simp_all add: sel_ok_def cfq_ok_def)

lemma rq_core_icq [simp]: "rq_icq (rq_core r) = rq_icq r"
  by (simp add: rq_core_def)

lemma sel_ok_keeps:
  assumes ok: "sel_ok q" and k: "keeps q q'" and ok': "cfq_ok q'"
  shows "sel_ok q'"
proof -
  have r: "map_option ref_side (cfqqs q' x) = map_option ref_side (cfqqs q x)" for x using k by (simp add: keeps_def)
  have "icqs_ok q'"
    unfolding icqs_ok_def
  proof
    fix x assume "x \<in> waiting (cfqqs q')"
    then have "x \<in> waiting (cfqqs q)" using k by (auto simp: keeps_def)
    with sel_okD(4) [OF ok] obtain r i where r: "rqs q x = Some r" "rq_icq r = Some i" "i \<in> dom (cics q)"
      unfolding icqs_ok_def by blast
    have "same_requests (rqs q) (rqs q')" using k by (simp add: keeps_def)
    from same_requestsD [OF this r(1)] obtain r' where r': "rqs q' x = Some r'" "rq_core r' = rq_core r" by blast
    then have "rq_icq r' = Some i" using r(2) rq_core_icq by metis
    with r' r(3) k show "\<exists>r i. rqs q' x = Some r \<and> rq_icq r = Some i \<and> i \<in> dom (cics q')" by (simp add: keeps_def)
  qed
  then show ?thesis
    using merge_ok_same [OF r sel_okD(2) [OF ok]] refs_ok_same [OF r sel_okD(3) [OF ok]] ok' k sel_okD(5,7) [OF ok]
    by (simp add: sel_ok_def keeps_def)
qed

section \<open>Class and type\<close>

lemma st_count_members:
  assumes "rr_ok q" "cfqgs q g = Some G"
  shows "st_count (tree_of G cls ty) = of_nat (card (members (cfqqs q) (st_for g cls ty)))"
  using trees_okD(2) [OF rr_okD(2) [OF assms(1)] assms(2), of cls ty]
    distinct_card [of "inorder (rb (tree_of G cls ty))"]
  unfolding st_ok_def by metis

text \<open>The counts of a group follow from the queues alone.\<close>

lemma busy_wl_same:
  assumes "rr_ok q" "rr_ok q'" "cfqqs q' = cfqqs q" "cfqgs q g = Some G" "cfqgs q' g = Some G'"
  shows "cfq_group_busy_queues_wl cls G' = cfq_group_busy_queues_wl cls G"
proof -
  have e: "st_count (tree_of G' cls ty) = st_count (tree_of G cls ty)" for cls ty
    using st_count_members [OF assms(1,4)] st_count_members [OF assms(2,5)] assms(3) by simp
  show ?thesis
    using e [of IDLE_WORKLOAD ASYNC_WORKLOAD] e [of cls ASYNC_WORKLOAD] e [of cls SYNC_NOIDLE_WORKLOAD] e [of cls SYNC_WORKLOAD]
    by (cases "cls = IDLE_WORKLOAD") (simp_all add: cfq_group_busy_queues_wl_def tree_of_def)
qed

lemma lowest_key_type_ok:
  assumes "cfq_ok q" "g \<in> dom (cfqgs q)"
  shows "\<exists>ty q'. lowest_key_type g cls tys best q = Inr (ty, q') \<and> cfq_ok q' \<and> cfqqs q' = cfqqs q \<and> same_rest q q' \<and>
     dom (cfqgs q') = dom (cfqgs q) \<and> serving_group q' = serving_group q \<and> serving_wl_class q' = serving_wl_class q"
  using assms
proof (induction tys arbitrary: best q)
  case Nil
  then show ?case by (simp add: same_rest_def)
next
  case (Cons ty tys)
  from Cons.prems(2) obtain G where G: "cfqgs q g = Some G" by blast
  note rr = cfq_okD(1) [OF Cons.prems(1)]
  let ?n = "st_for g cls ty" and ?st = "tree_of G cls ty"
  have st: "st_ok (cfqqs q) ?n ?st" by (rule trees_okD(2) [OF rr_okD(2) [OF rr] G])
  note f = st_ok_first [OF st members_room [OF rr_okD(3) [OF rr]]]
  let ?q = "q\<lparr>cfqgs := (cfqgs q)(g \<mapsto> put_tree cls ty (snd (cfq_rb_first ?st)) G)\<rparr>"
  have "rr_ok ?q" by (rule rr_ok_put [OF rr G f(2)])
  then have ok: "cfq_ok ?q" by (rule cfq_ok_rest [OF Cons.prems(1)]) (simp_all add: same_rest_def)
  have d: "dom (cfqgs ?q) = dom (cfqgs q)" using G by auto
  have "\<exists>best'. lowest_key_type g cls (ty # tys) best q = lowest_key_type g cls tys best' ?q"
  proof (cases "rb_first (rb ?st)")
    case None
    with f(1) show ?thesis
      by (intro exI [of _ best]) (simp add: get_st_for [OF G] set_st_for [OF G] case_prod_beta Let_def)
  next
    case (Some a)
    with rb_first_in [OF Some] st have "a \<in> members (cfqqs q) ?n" unfolding st_ok_def by blast
    from members_live [OF this] obtain c where c: "cfqqs q a = Some c" by blast
    with Some f(1) show ?thesis
      by (intro exI [of _ "if (case snd best of None \<Rightarrow> True | Some k \<Rightarrow> rb_key c < k) then (ty, Some (rb_key c)) else best"])
        (simp add: get_st_for [OF G] set_st_for [OF G] case_prod_beta Let_def)
  qed
  then obtain best' where step: "lowest_key_type g cls (ty # tys) best q = lowest_key_type g cls tys best' ?q" by blast
  have "g \<in> dom (cfqgs ?q)" by simp
  from Cons.IH [OF ok this, of best'] obtain t q' where "lowest_key_type g cls tys best' ?q = Inr (t, q')" "cfq_ok q'"
    "cfqqs q' = cfqqs ?q" "same_rest ?q q'" "dom (cfqgs q') = dom (cfqgs ?q)"
    "serving_group q' = serving_group ?q" "serving_wl_class q' = serving_wl_class ?q" by (elim exE conjE) (rule that; assumption)
  with step d show ?case by (intro exI [of _ t] exI [of _ q']) (simp add: same_rest_def)
qed

lemma divE_ok: "b \<noteq> 0 \<Longrightarrow> \<exists>v. divE a b = Inr v"
  by (simp add: divE_def)

lemma workload_slice_ok:
  assumes "cfq_group_busy_queues_wl cls G \<noteq> 0" "busy_queues q \<noteq> 0" "busy_queues q < 2 ^ 31" "cfq_slice q True \<noteq> 0"
  shows "\<exists>v. workload_slice L G cls typ q = Inr v"
proof -
  have "max (busy_queues_avg G cls) (cfq_group_busy_queues_wl cls G) \<noteq> 0"
  proof
    assume "max (busy_queues_avg G cls) (cfq_group_busy_queues_wl cls G) = 0"
    then have "cfq_group_busy_queues_wl cls G \<le> 0" by (metis max.cobounded2)
    with assms(1) show False by simp
  qed
  then have "ucast (max (busy_queues_avg G cls) (cfq_group_busy_queues_wl cls G)) \<noteq> (0 :: u64)"
    by (metis unat_ucast64 unat_0 unat_eq_zero)
  moreover have "of_nat (busy_queues q) \<noteq> (0 :: u64)"
  proof
    assume "of_nat (busy_queues q) = (0 :: u64)"
    then have "unat (of_nat (busy_queues q) :: u64) = 0" by simp
    with assms(2,3) show False by (simp add: unat_of_nat)
  qed
  ultimately show ?thesis using assms(4) by (simp add: workload_slice_def divE_def)
qed

lemma cfq_ok_simple:
  assumes "cfq_ok q" "cfqqs q' = cfqqs q" "same_rest q q'" "cfqgs q' = cfqgs q" "grp_service_tree q' = grp_service_tree q"
    "busy_queues q' = busy_queues q" "busy_sync_queues q' = busy_sync_queues q" "prio_trees q' = prio_trees q"
  shows "cfq_ok q'"
  by (rule cfq_ok_rest [OF assms(1) _ assms(2,3)])
    (use assms rr_ok_frame [of q' q] cfq_okD(1) [OF assms(1)] in \<open>simp add: same_rest_def\<close>)

definition chosen :: "'a cfq_data_scheme \<Rightarrow> 'a cfq_data_scheme \<Rightarrow> bool" where
  "chosen q q' \<longleftrightarrow> cfq_ok q' \<and> cfqqs q' = cfqqs q \<and> same_rest q q' \<and> dom (cfqgs q') = dom (cfqgs q) \<and>
     serving_group q' = serving_group q"

lemma new_workload_ok:
  assumes ok: "cfq_ok q" and s: "cfq_slice q True \<noteq> 0" and g: "cfqgs q g = Some G"
    and b: "cfq_group_busy_queues_wl (serving_wl_class q) G \<noteq> 0" "on_rr (cfqqs q) \<noteq> {}"
  shows "\<exists>q'. new_workload L now g q = Inr q' \<and> chosen q q'"
proof -
  let ?cls = "serving_wl_class q"
  have "g \<in> dom (cfqgs q)" using g by blast
  from lowest_key_type_ok [where cls = ?cls and tys = "[ASYNC_WORKLOAD, SYNC_NOIDLE_WORKLOAD, SYNC_WORKLOAD]"
      and best = "(SYNC_NOIDLE_WORKLOAD, None)", OF ok this, folded cfq_choose_wl_type_def] obtain ty q1 where l:
    "cfq_choose_wl_type g ?cls q = Inr (ty, q1)" "cfq_ok q1" "cfqqs q1 = cfqqs q" "same_rest q q1" "dom (cfqgs q1) = dom (cfqgs q)"
    and sg: "serving_group q1 = serving_group q" and cls: "serving_wl_class q1 = ?cls"
    by (elim exE conjE) (rule that; assumption)
  let ?q2 = "q1\<lparr>serving_wl_type := ty\<rparr>"
  have ok2: "cfq_ok ?q2" by (rule cfq_ok_simple [OF l(2)]) (simp_all add: same_rest_def)
  from g l(5) obtain G1 where G1: "cfqgs q1 g = Some G1" by blast
  have bw: "cfq_group_busy_queues_wl ?cls G1 \<noteq> 0"
    using busy_wl_same [OF cfq_okD(1) [OF ok] cfq_okD(1) [OF l(2)] l(3) g G1] b(1) by simp
  note rr = cfq_okD(1) [OF ok2]
  have fin: "finite (on_rr (cfqqs q))" using finite_rr(1) [OF rr_okD(3) [OF cfq_okD(1) [OF ok]]] .
  have bq: "busy_queues ?q2 = card (on_rr (cfqqs q))" using rr_okD(6) [OF rr] l(3) by (simp add: counts_ok_def)
  then have nz: "busy_queues ?q2 \<noteq> 0" using b(2) fin by (simp add: card_gt_0_iff)
  have "on_rr (cfqqs q) \<subseteq> dom (cfqqs q)" by (auto simp: on_rr_def)
  then have "busy_queues ?q2 < 2 ^ 31"
    using bq rr_okD(3) [OF cfq_okD(1) [OF ok]] card_mono [of "dom (cfqqs q)"] unfolding room_def by (metis le_less_trans)
  moreover have "cfq_slice ?q2 True \<noteq> 0" using s l(4) by (simp add: same_rest_def)
  ultimately obtain v where v: "workload_slice L G1 ?cls ty ?q2 = Inr v" using workload_slice_ok [OF bw nz] by blast
  let ?q3 = "?q2\<lparr>workload_expires := now + v\<rparr>"
  have "new_workload L now g q = Inr ?q3" using l(1) G1 v cls by (simp add: new_workload_def)
  moreover have "cfq_ok ?q3" by (rule cfq_ok_simple [OF ok2]) (simp_all add: same_rest_def)
  ultimately show ?thesis using l(3-5) sg by (intro exI [of _ ?q3]) (simp add: chosen_def same_rest_def)
qed

lemma choose_class_ok:
  assumes ok: "cfq_ok q" and s: "cfq_slice q True \<noteq> 0" and g: "cfqgs q g = Some G" and b: "on_rr (cfqqs q) \<noteq> {}"
  shows "\<exists>q'. choose_wl_class_and_type L now g q = Inr q' \<and> chosen q q'"
proof -
  define cls where "cls = (if cfq_group_busy_queues_wl RT_WORKLOAD G \<noteq> 0 then RT_WORKLOAD
    else if cfq_group_busy_queues_wl BE_WORKLOAD G \<noteq> 0 then BE_WORKLOAD else IDLE_WORKLOAD)"
  let ?q = "q\<lparr>serving_wl_class := cls\<rparr>"
  have okq: "cfq_ok ?q" by (rule cfq_ok_simple [OF ok]) (simp_all add: same_rest_def)
  have keep: "chosen q (?q\<lparr>workload_expires := t\<rparr>)" "chosen q ?q" for t
    using okq cfq_ok_simple [OF ok, of "?q\<lparr>workload_expires := t\<rparr>"] by (simp_all add: chosen_def same_rest_def)
  have step: "choose_wl_class_and_type L now g q = (if cls = IDLE_WORKLOAD then Inr (?q\<lparr>workload_expires := now + jiffy_ns L\<rparr>)
     else if serving_wl_class q \<noteq> cls then new_workload L now g ?q
     else if st_count (tree_of G cls (serving_wl_type q)) \<noteq> 0 \<and> \<not> now > workload_expires q then Inr ?q
     else new_workload L now g ?q)"
    using g by (simp add: choose_wl_class_and_type_def Let_def cls_def [symmetric])
  show ?thesis
  proof (cases "cls = IDLE_WORKLOAD")
    case True
    with step keep show ?thesis by auto
  next
    case False
    then have "cfq_group_busy_queues_wl cls G \<noteq> 0" by (auto simp: cls_def split: if_splits)
    then have "\<exists>q'. new_workload L now g ?q = Inr q' \<and> chosen ?q q'"
      using okq s g b by (intro new_workload_ok) simp_all
    then obtain q' where q': "new_workload L now g ?q = Inr q'" "chosen ?q q'" by blast
    then have "chosen q q'" by (simp add: chosen_def same_rest_def)
    with False step keep(2) q'(1) show ?thesis by auto
  qed
qed

lemma choose_cfqg_ok:
  assumes ok: "cfq_ok q" and s: "cfq_slice q True \<noteq> 0" and w: "waiting (cfqqs q) \<noteq> {}"
  shows "\<exists>x q'. cfq_choose_cfqg L now q = Inr q' \<and> cfq_ok q' \<and> cfqqs q' = cfqqs q \<and> same_rest q q' \<and>
     serving_group q' = Some x \<and> x \<in> dom (cfqgs q')"
proof -
  from next_group_ok [OF ok w] obtain x q1 where n: "cfq_get_next_cfqg q = Inr (Some x, q1)" "cfq_ok q1"
    "cfqqs q1 = cfqqs q" "same_rest q q1" "x \<in> dom (cfqgs q1)" "busy_in (cfqqs q) x \<noteq> {}" by blast
  from n(5) obtain G where G: "cfqgs q1 x = Some G" by blast
  define q2 where "q2 = (if saved_wl_slice G \<noteq> 0
    then q1\<lparr>serving_group := Some x, workload_expires := now + saved_wl_slice G, serving_wl_type := saved_wl_type G,
           serving_wl_class := saved_wl_class G\<rparr>
    else q1\<lparr>serving_group := Some x, workload_expires := now - 1\<rparr>)"
  have e: "cfqqs q2 = cfqqs q1" "same_rest q1 q2" "cfqgs q2 = cfqgs q1" "serving_group q2 = Some x"
    by (simp_all add: q2_def same_rest_def)
  have ok2: "cfq_ok q2" by (rule cfq_ok_simple [OF n(2)]) (simp_all add: q2_def same_rest_def)
  have "on_rr (cfqqs q2) \<noteq> {}" using n(6) e(1) n(3) by (auto simp: busy_in_def on_rr_def)
  moreover have "cfq_slice q2 True \<noteq> 0" using s n(4) e(2) by (simp add: same_rest_def)
  moreover have "cfqgs q2 x = Some G" using G e(3) by simp
  ultimately obtain q' where q': "choose_wl_class_and_type L now x q2 = Inr q'" "chosen q2 q'"
    using choose_class_ok [OF ok2] by blast
  have "cfq_choose_cfqg L now q = choose_wl_class_and_type L now x q2"
    using n(1) G by (simp add: cfq_choose_cfqg_def Let_def q2_def)
  moreover have "same_rest q q'" using n(4) e(2) q'(2) unfolding chosen_def by (blast intro: same_rest_trans)
  ultimately show ?thesis using q' e n(3,5) by (intro exI [of _ x] exI [of _ q']) (simp add: chosen_def)
qed

section \<open>The next queue becomes the active one\<close>

lemma get_next_queue_ok:
  assumes ok: "cfq_ok q" and g: "\<And>x. serving_group q = Some x \<Longrightarrow> x \<in> dom (cfqgs q)"
  shows "\<exists>f q'. cfq_get_next_queue q = Inr (f, q') \<and> cfq_ok q' \<and> cfqqs q' = cfqqs q \<and> same_rest q q' \<and>
     (\<forall>a. f = Some a \<longrightarrow> a \<in> on_rr (cfqqs q))"
proof (cases "rq_queued q = 0 \<or> serving_group q = None")
  case True
  with ok show ?thesis by (auto simp: cfq_get_next_queue_def same_rest_def split: option.splits)
next
  case False
  then obtain x where x: "serving_group q = Some x" by blast
  from g [OF x] obtain G where G: "cfqgs q x = Some G" by blast
  note rr = cfq_okD(1) [OF ok]
  let ?cls = "serving_wl_class q" and ?ty = "serving_wl_type q"
  let ?n = "st_for x ?cls ?ty" and ?st = "tree_of G ?cls ?ty"
  have st: "st_ok (cfqqs q) ?n ?st" by (rule trees_okD(2) [OF rr_okD(2) [OF rr] G])
  note f = st_ok_first [OF st members_room [OF rr_okD(3) [OF rr]]]
  let ?q = "q\<lparr>cfqgs := (cfqgs q)(x \<mapsto> put_tree ?cls ?ty (snd (cfq_rb_first ?st)) G)\<rparr>"
  have "rr_ok ?q" by (rule rr_ok_put [OF rr G f(2)])
  then have okq: "cfq_ok ?q" by (rule cfq_ok_rest [OF ok]) (simp_all add: same_rest_def)
  show ?thesis
  proof (cases "rb ?st = Leaf")
    case True
    with ok False x show ?thesis by (auto simp: cfq_get_next_queue_def get_st_for [OF G] same_rest_def)
  next
    case ne: False
    have "cfq_get_next_queue q = Inr (rb_first (rb ?st), ?q)"
      using False x ne f(1) by (simp add: cfq_get_next_queue_def get_st_for [OF G] set_st_for [OF G] case_prod_beta Let_def)
    moreover have "a \<in> on_rr (cfqqs q)" if a: "rb_first (rb ?st) = Some a" for a
    proof -
      from rb_first_in [OF a] st have "a \<in> members (cfqqs q) ?n" unfolding st_ok_def by blast
      then obtain c where c: "cfqqs q a = Some c" "service_tree c = Some ?n" by (auto simp: members_def)
      with flags_okD [OF rr_okD(4) [OF rr] c(1)] trees_okD(1) [OF rr_okD(2) [OF rr] c(1)]
      show ?thesis by (auto simp: placed_def on_rr_def)
    qed
    ultimately show ?thesis using okq by (intro exI [of _ "rb_first (rb ?st)"] exI [of _ ?q]) (simp add: same_rest_def)
  qed
qed

text \<open>What every way of choosing promises.\<close>

definition picked :: "'a cfq_data_scheme \<Rightarrow> nat option \<Rightarrow> 'a cfq_data_scheme \<Rightarrow> bool" where
  "picked q f q' \<longleftrightarrow> sel_ok q' \<and> waiting (cfqqs q') = waiting (cfqqs q) \<and> queue_head q' = queue_head q \<and>
     (\<forall>a. f = Some a \<longrightarrow> active_queue q' = Some a \<and> (\<exists>c. cfqqs q' a = Some c \<and> sort_list c \<noteq> Leaf))"

lemma set_active_queue_ok:
  assumes ok: "sel_ok q" and act: "active_queue q = None" and b: "\<And>b. f = Some b \<Longrightarrow> b \<in> on_rr (cfqqs q)"
  shows "\<exists>q'. cfq_set_active_queue' now f q = Inr q' \<and> picked q f q'"
proof (cases f)
  case None
  have "q\<lparr>active_queue := None\<rparr> = q" using act by simp
  with None ok show ?thesis by (simp add: cfq_set_active_queue'_def picked_def)
next
  case (Some b)
  from set_active_ok [OF sel_okD(1) [OF ok] act assms(3) [OF Some], of now] obtain q' c where
    "cfq_set_active_queue' now (Some b) q = Inr q'" "cfq_ok q'" "active_queue q' = Some b"
    "waiting (cfqqs q') = waiting (cfqqs q)" "queue_head q' = queue_head q" "cfqqs q' b = Some c" "sort_list c \<noteq> Leaf" "keeps q q'"
    by (elim exE conjE) (rule that; assumption)
  with Some sel_ok_keeps [OF ok] show ?thesis by (intro exI [of _ q']) (simp add: picked_def)
qed

lemma select_new_queue_ok:
  assumes ok: "sel_ok q" and act: "active_queue q = None"
    and w: "new = None \<Longrightarrow> waiting (cfqqs q) \<noteq> {}" and b: "\<And>b. new = Some b \<Longrightarrow> b \<in> on_rr (cfqqs q)"
  shows "\<exists>f q'. select_new_queue L now new q = Inr (f, q') \<and> picked q f q'"
proof (cases new)
  case (Some b)
  from set_active_queue_ok [of q "Some b" now, OF ok act] assms(4) Some obtain q' where
    "cfq_set_active_queue' now (Some b) q = Inr q'" "picked q (Some b) q'" by blast
  with Some show ?thesis by (simp add: select_new_queue_def cfq_set_active_queue_def)
next
  case None
  from choose_cfqg_ok [OF sel_okD(1,5) [OF ok] w [OF None]] obtain x q1 where g: "cfq_choose_cfqg L now q = Inr q1" "cfq_ok q1"
    "cfqqs q1 = cfqqs q" "same_rest q q1" "serving_group q1 = Some x" "x \<in> dom (cfqgs q1)" by blast
  have "y \<in> dom (cfqgs q1)" if "serving_group q1 = Some y" for y using g(5,6) that by simp
  from get_next_queue_ok [OF g(2) this] obtain f q2 where n: "cfq_get_next_queue q1 = Inr (f, q2)" "cfq_ok q2"
    "cfqqs q2 = cfqqs q1" "same_rest q1 q2" "\<And>a. f = Some a \<Longrightarrow> a \<in> on_rr (cfqqs q1)" by blast
  have r2: "same_rest q q2" by (rule same_rest_trans [OF g(4) n(4)])
  have cs: "cfqqs q2 = cfqqs q" using n(3) g(3) by simp
  have ok2: "sel_ok q2" by (rule sel_ok_keeps [OF ok keeps_rest [OF cs r2] n(2)])
  have a2: "active_queue q2 = None" using r2 act by (simp add: same_rest_def)
  have "b \<in> on_rr (cfqqs q2)" if "f = Some b" for b using n(5) [OF that] n(3) by simp
  from set_active_queue_ok [OF ok2 a2 this, of f now] obtain q' where "cfq_set_active_queue' now f q2 = Inr q'" "picked q2 f q'" by blast
  with None g(1) n(1) cs r2 show ?thesis
    by (intro exI [of _ f] exI [of _ q']) (simp add: select_new_queue_def cfq_set_active_queue_def picked_def same_rest_def)
qed

lemma select_expire_ok:
  assumes L: "lib_ok L" and ok: "sel_ok q" and act: "active_queue q = Some a"
    and w: "new = None \<Longrightarrow> waiting (cfqqs q) \<noteq> {}" and b: "\<And>b. new = Some b \<Longrightarrow> b \<in> on_rr (cfqqs q) \<and> b \<noteq> a"
  shows "\<exists>f q'. select_expire L now new q = Some (Inr (f, q')) \<and> picked q f q'"
proof -
  from slice_expired'_ok [OF L sel_okD(1) [OF ok] act, of now] obtain q1 where e:
    "cfq_slice_expired' L now a False q = Some (Inr q1)" "cfq_ok q1" "active_queue q1 = None"
    "waiting (cfqqs q1) = waiting (cfqqs q)" "queue_head q1 = queue_head q" "keeps q q1"
    "\<And>b. b \<noteq> a \<Longrightarrow> cfqqs q1 b = cfqqs q b" by blast
  have "sel_ok q1" by (rule sel_ok_keeps [OF ok e(6,2)])
  moreover have "b \<in> on_rr (cfqqs q1)" if "new = Some b" for b using assms(5) [OF that] e(7) by (auto simp: on_rr_def)
  ultimately obtain f q' where "select_new_queue L now new q1 = Inr (f, q')" "picked q1 f q'"
    using select_new_queue_ok [of q1 new L now] e(3,4) w by auto
  with e(1,4,5) act show ?thesis
    by (intro exI [of _ f] exI [of _ q']) (simp add: select_expire_def cfq_slice_expired_def picked_def)
qed

section \<open>Cooperators and idling\<close>

lemma prio_lookup_parent:
  assumes "\<And>x. x \<in> set_tree t \<Longrightarrow> pos x = Inr (p x)"
  shows "\<exists>f y. cfq_prio_tree_lookup pos s par t = Inr (f, y) \<and> (\<forall>x. f = Some x \<longrightarrow> x \<in> set_tree t) \<and>
     (\<forall>x. y = Some x \<longrightarrow> x \<in> set_tree t \<or> y = par) \<and> (y = None \<longrightarrow> par = None \<and> t = Leaf)"
  using assms
proof (induction t arbitrary: par)
  case (Node l x r)
  then have x: "pos x = Inr (p x)" by simp
  from Node.IH(1) [of "Some x"] Node.prems obtain f y where l: "cfq_prio_tree_lookup pos s (Some x) l = Inr (f, y)"
    "\<forall>x. f = Some x \<longrightarrow> x \<in> set_tree l" "\<forall>z. y = Some z \<longrightarrow> z \<in> set_tree l \<or> y = Some x" "y \<noteq> None" by auto
  from Node.IH(2) [of "Some x"] Node.prems obtain g z where r: "cfq_prio_tree_lookup pos s (Some x) r = Inr (g, z)"
    "\<forall>x. g = Some x \<longrightarrow> x \<in> set_tree r" "\<forall>w. z = Some w \<longrightarrow> w \<in> set_tree r \<or> z = Some x" "z \<noteq> None" by auto
  show ?case using x l r by auto
qed simp

lemma next_in_mem: "next_in l x = Some y \<Longrightarrow> y \<in> set l"
  using list_next_after_in [of l x] by (auto simp: next_in_def split: lnode.splits)

lemma cfqq_close_ok:
  assumes P: "prio_live {} q" and i: "org_ioprio c < CFQ_PRIO_LISTS"
  shows "\<exists>f. cfqq_close c q = Inr f \<and> (\<forall>b. f = Some b \<longrightarrow> b \<in> set_tree (prio_trees q (org_ioprio c)))"
proof -
  let ?t = "prio_trees q (org_ioprio c)"
  have pos: "next_pos q x = Inr (next_at q x)" if "x \<in> set_tree ?t" for x using prio_live_pos [OF P that] .
  have node: "\<exists>r. node_rq q x = Inr r" if "x \<in> set_tree ?t" for x
    using pos [OF that] by (auto simp: next_pos_def node_rq_def res_simps)
  from prio_lookup_parent [where t = ?t and pos = "next_pos q" and p = "next_at q" and s = "last_position q" and par = None, OF pos]
  obtain f y where l: "cfq_prio_tree_lookup (next_pos q) (last_position q) None ?t = Inr (f, y)"
    "\<forall>x. f = Some x \<longrightarrow> x \<in> set_tree ?t" "\<forall>x. y = Some x \<longrightarrow> x \<in> set_tree ?t" "y = None \<longrightarrow> ?t = Leaf" by auto
  show ?thesis
  proof (cases "?t = Leaf \<or> f \<noteq> None")
    case True
    with i l(1,2) show ?thesis by (auto simp: cfqq_close_def Let_def)
  next
    case False
    with l(4) obtain w where w: "y = Some w" "w \<in> set_tree ?t" using l(3) by auto
    from node [OF w(2)] obtain r where r: "node_rq q w = Inr r" by blast
    let ?n = "if rq_pos r < last_position q then next_in (inorder ?t) w else next_in (rev (inorder ?t)) w"
    have n: "x \<in> set_tree ?t" if "?n = Some x" for x using that by (auto dest!: next_in_mem split: if_splits)
    have res: "cfqq_close c q = (if cfq_rq_close q r then Inr (Some w) else (case ?n of None \<Rightarrow> Inr None
        | Some n \<Rightarrow> bindE (node_rq q n) (\<lambda>r. Inr (if cfq_rq_close q r then Some n else None))))"
      using False i l(1) w r by (simp add: cfqq_close_def Let_def)
    show ?thesis
    proof (cases ?n)
      case None
      with res w show ?thesis by simp
    next
      case (Some x)
      from node [OF n [OF Some]] obtain r' where "node_rq q x = Inr r'" by blast
      with res Some w n [OF Some] show ?thesis by simp
    qed
  qed
qed

lemma close_cooperator_ok:
  assumes ok: "cfq_ok q" and a: "cfqqs q a = Some c" "sort_list c = Leaf"
  shows "\<exists>f. cfq_close_cooperator a q = Inr f \<and> (\<forall>b. f = Some b \<longrightarrow> b \<in> on_rr (cfqqs q) \<and> b \<noteq> a)"
proof -
  note rr = cfq_okD(1) [OF ok]
  from trees_okD(1) [OF rr_okD(2) [OF rr] a(1)] obtain g G where g: "cfqg c = Some g" "cfqgs q g = Some G"
    by (auto simp: placed_def)
  from cfqq_close_ok [OF rr_okD(7) [OF rr] nexts_okD(1) [OF rr_okD(8) [OF rr] a(1)]] obtain f where f:
    "cfqq_close c q = Inr f" "\<And>b. f = Some b \<Longrightarrow> b \<in> set_tree (prio_trees q (org_ioprio c))" by blast
  have b: "\<exists>d. cfqqs q b = Some d \<and> has On_rr d \<and> b \<noteq> a" if "f = Some b" for b
  proof -
    from f(2) [OF that] rr_okD(7) [OF rr] obtain d where d: "cfqqs q b = Some d" "p_root d = Some (org_ioprio c)"
      by (auto simp: prio_live_def prio_nodes_def prio_members_def)
    with rr_okD(7) [OF rr] obtain x where x: "next_rq d = Some x" unfolding prio_live_def by blast
    note qd = cfq_okD(2) [OF ok d(1)]
    have ne: "sort_list d \<noteq> Leaf" using queue_okD(3) [OF qd] x by auto
    then have "has On_rr d" by (rule queue_okD(7) [OF qd])
    moreover have "b \<noteq> a" using ne a d(1) by auto
    ultimately show ?thesis using d(1) by blast
  qed
  show ?thesis
  proof (cases f)
    case None
    with f(1) a(1) g show ?thesis by (simp add: cfq_close_cooperator_def)
  next
    case (Some b)
    with b [OF Some] f(1) a(1) g show ?thesis by (auto simp: cfq_close_cooperator_def on_rr_def)
  qed
qed

lemma should_idle_ok:
  assumes rr: "rr_ok q" and a: "a \<in> on_rr (cfqqs q)"
  shows "\<exists>b. cfq_should_idle a q = Inr b"
proof -
  from a obtain c where c: "cfqqs q a = Some c" "has On_rr c" by (auto simp: on_rr_def)
  with flags_okD [OF rr_okD(4) [OF rr] c(1)] have "rb_linked c" by simp
  from placed_linked [OF trees_okD(1) [OF rr_okD(2) [OF rr] c(1)] this] obtain g cls ty G where
    n: "service_tree c = Some (st_for g cls ty)" "cfqgs q g = Some G" by blast
  have mem: "a \<in> members (cfqqs q) (st_for g cls ty)" using c(1) n(1) by (auto simp: members_def)
  have "st_count (tree_of G cls ty) \<noteq> 0"
  proof
    assume "st_count (tree_of G cls ty) = 0"
    then have "unat (of_nat (card (members (cfqqs q) (st_for g cls ty))) :: u32) = 0"
      using st_count_members [OF rr n(2), of cls ty] by simp
    then have "card (members (cfqqs q) (st_for g cls ty)) = 0"
      using members_room [OF rr_okD(3) [OF rr], of "st_for g cls ty"] by (simp add: unat_of_nat)
    moreover have "finite (members (cfqqs q) (st_for g cls ty))"
      by (rule finite_subset [of _ "dom (cfqqs q)"]) (use rr_okD(3) [OF rr] in \<open>auto simp: members_def room_def\<close>)
    ultimately show False using mem by auto
  qed
  with c n have "ok_res (cfq_should_idle a q)" by (simp add: cfq_should_idle_def get_st_for ok_res_def)
  then show ?thesis by (cases "cfq_should_idle a q") (auto simp: ok_res_def)
qed

section \<open>Changes of a queue that choosing does not see\<close>

definition plain_change :: "cfq_queue \<Rightarrow> cfq_queue \<Rightarrow> bool" where
  "plain_change c c' \<longleftrightarrow> service_tree c' = service_tree c \<and> rb_linked c' = rb_linked c \<and> rb_key c' = rb_key c \<and>
     cfqg c' = cfqg c \<and> next_rq c' = next_rq c \<and> p_root c' = p_root c \<and> org_ioprio c' = org_ioprio c \<and>
     sort_list c' = sort_list c \<and> qfifo c' = qfifo c \<and> queued c' = queued c \<and>
     has On_rr c' = has On_rr c \<and> has Sync c' = has Sync c"

lemma plain_change_refl: "plain_change c c"
  by (simp add: plain_change_def)

lemma cfq_ok_plain:
  assumes ok: "cfq_ok q" and a: "cfqqs q a = Some c" and p: "plain_change c c'"
  shows "cfq_ok (q\<lparr>cfqqs := (cfqqs q)(a \<mapsto> c')\<rparr>)" "waiting ((cfqqs q)(a \<mapsto> c')) = waiting (cfqqs q)"
proof -
  let ?q = "q\<lparr>cfqqs := (cfqqs q)(a \<mapsto> c')\<rparr>"
  note f = p [unfolded plain_change_def]
  show w: "waiting ((cfqqs q)(a \<mapsto> c')) = waiting (cfqqs q)"
    by (rule waiting_upd_same [where cs = "cfqqs q", OF a]) (use f in simp)
  have "rr_ok ?q" by (rule rr_ok_queue [OF cfq_okD(1) [OF ok] a]) (use f in simp_all)
  moreover have "queue_ok (rqs q) a c'" by (rule queue_ok_fields [OF cfq_okD(2) [OF ok a]]) (use f in simp_all)
  then have "queue_ok (rqs ?q) b d" if "cfqqs ?q b = Some d" for b d
    using that cfq_okD(2) [OF ok] by (auto split: if_splits)
  moreover have "on_rr (cfqqs ?q) = on_rr (cfqqs q)"
    using rr_sets_same(1) [where cs = "cfqqs q", OF a] f by simp
  moreover have "active_queue ?q = Some b" if "cfqqs ?q b = Some d" "has On_rr d" "sort_list d = Leaf" for b d
    using that cfq_okD(7) [OF ok] a f by (auto split: if_splits)
  ultimately show "cfq_ok ?q" using ok w by (simp add: cfq_ok_def)
qed

lemma sel_ok_plain:
  assumes ok: "sel_ok q" and a: "cfqqs q a = Some c" and p: "plain_change c c'" and r: "ref_side c' = ref_side c"
  shows "sel_ok (q\<lparr>cfqqs := (cfqqs q)(a \<mapsto> c')\<rparr>)"
  by (rule sel_ok_keeps [OF ok _ cfq_ok_plain(1) [OF sel_okD(1) [OF ok] a p]])
    (use a r cfq_ok_plain(2) [OF sel_okD(1) [OF ok] a p] in \<open>simp add: keeps_def\<close>)

lemma sel_ok_link:
  assumes ok: "sel_ok q" and x: "cfqqs q x = Some c" "new_cfqq c = None"
    and y: "cfqqs q y = Some d" "new_cfqq d = None" "x \<noteq> y" and n: "0 < n"
  defines "q' \<equiv> q\<lparr>cfqqs := link_queues x y n (cfqqs q)\<rparr>"
  shows "sel_ok q'" "waiting (cfqqs q') = waiting (cfqqs q)" "on_rr (cfqqs q') = on_rr (cfqqs q)"
proof -
  let ?c = "c\<lparr>new_cfqq := Some y\<rparr>" and ?d = "d\<lparr>qref := qref d + n\<rparr>"
  let ?q1 = "q\<lparr>cfqqs := (cfqqs q)(x \<mapsto> ?c)\<rparr>"
  have e: "q' = ?q1\<lparr>cfqqs := (cfqqs ?q1)(y \<mapsto> ?d)\<rparr>" using x(1) y(1) by (simp add: q'_def link_queues_def)
  have p: "plain_change c ?c" "plain_change d ?d" by (simp_all add: plain_change_def has_def)
  note s1 = cfq_ok_plain [OF sel_okD(1) [OF ok] x(1) p(1)]
  have y1: "cfqqs ?q1 y = Some d" using y by simp
  note s2 = cfq_ok_plain [OF s1(1) y1 p(2)]
  show w: "waiting (cfqqs q') = waiting (cfqqs q)" using s1(2) s2(2) by (simp add: e)
  show "on_rr (cfqqs q') = on_rr (cfqqs q)"
    using x(1) y by (auto simp: e on_rr_def has_def)
  have "icqs_ok q'" using sel_okD(4) [OF ok] w by (simp add: icqs_ok_def q'_def)
  moreover have "merge_ok (cfqqs q')" "refs_ok (cfqqs q')"
    using link_queues_ok [OF sel_okD(2,3) [OF ok] x y, of n] n by (simp_all add: q'_def)
  ultimately show "sel_ok q'" using s2(1) sel_okD(5,7) [OF ok] by (simp add: sel_ok_def e)
qed

lemma setup_merge_ok:
  assumes ok: "sel_ok q" and a: "cfqqs q a = Some c" "new_cfqq c = None" and b: "b \<in> on_rr (cfqqs q)" "b \<noteq> a"
  shows "\<exists>q'. cfq_setup_merge a b q = Some (Inr q') \<and> sel_ok q' \<and> waiting (cfqqs q') = waiting (cfqqs q) \<and>
     queue_head q' = queue_head q \<and> active_queue q' = active_queue q \<and> on_rr (cfqqs q') = on_rr (cfqqs q)"
proof -
  have "b \<in> dom (cfqqs q)" using b(1) by (auto simp: on_rr_def)
  from setup_merge_shape [OF sel_okD(2,3) [OF ok] a this b(2) [symmetric]] show ?thesis
  proof (elim disjE exE conjE)
    assume "cfq_setup_merge a b q = Some (Inr q)"
    with ok show ?thesis by blast
  next
    fix x y n
    assume r: "cfq_setup_merge a b q = Some (Inr (q\<lparr>cfqqs := link_queues x y n (cfqqs q)\<rparr>))" "x \<noteq> y" "0 < n"
      and "\<forall>z \<in> {x, y}. \<exists>d. cfqqs q z = Some d \<and> new_cfqq d = None"
    then obtain d e where "cfqqs q x = Some d" "new_cfqq d = None" "cfqqs q y = Some e" "new_cfqq e = None" by auto
    from sel_ok_link [OF ok this r(2,3)] r(1) show ?thesis by auto
  qed
qed

section \<open>The choice\<close>

lemma picked_none: "sel_ok q \<Longrightarrow> picked q None q"
  by (simp add: picked_def)

lemma picked_trans:
  "waiting (cfqqs q1) = waiting (cfqqs q) \<Longrightarrow> queue_head q1 = queue_head q \<Longrightarrow> picked q1 f q' \<Longrightarrow> picked q f q'"
  by (simp add: picked_def)

lemma group_idle_ok:
  assumes L: "lib_ok L" and ok: "sel_ok q" and act: "active_queue q = Some a" and w: "waiting (cfqqs q) \<noteq> {}"
  shows "\<exists>f q'. select_group_idle L now a q = Some (Inr (f, q')) \<and> picked q f q'"
proof -
  from cfq_okD(5) [OF sel_okD(1) [OF ok] act] obtain c where c: "cfqqs q a = Some c" by (auto simp: on_rr_def)
  from trees_okD(1) [OF rr_okD(2) [OF sel_okD(6) [OF ok]] c] obtain g G where g: "cfqg c = Some g" "cfqgs q g = Some G"
    by (auto simp: placed_def)
  from select_expire_ok [OF L ok act, of None now] w obtain f q' where
    e: "select_expire L now None q = Some (Inr (f, q'))" "picked q f q'" by auto
  have "select_group_idle L now a q = Some (Inr (None, q)) \<or> select_group_idle L now a q = select_expire L now None q"
    using c g by (simp add: select_group_idle_def)
  with e picked_none [OF ok] show ?thesis by auto
qed

lemma select_queue_ok:
  assumes L: "lib_ok L" and ok: "sel_ok q" and busy: "active_queue q = None \<Longrightarrow> waiting (cfqqs q) \<noteq> {}"
  shows "\<exists>f q'. cfq_select_queue L now q = Some (Inr (f, q')) \<and> picked q f q'"
proof (cases "active_queue q")
  case None
  from select_new_queue_ok [of q None L now, OF ok None] busy None obtain f q' where
    "select_new_queue L now None q = Inr (f, q')" "picked q f q'" by auto
  with None show ?thesis by (simp add: cfq_select_queue_def)
next
  case (Some a)
  note cok = sel_okD(1) [OF ok]
  note rr = sel_okD(6) [OF ok]
  note on = cfq_okD(5) [OF cok Some]
  from on obtain c where c: "cfqqs q a = Some c" "has On_rr c" by (auto simp: on_rr_def)
  from trees_okD(1) [OF rr_okD(2) [OF rr] c(1)] obtain g G where g: "cfqg c = Some g" "cfqgs q g = Some G"
    by (auto simp: placed_def)
  show ?thesis
  proof (cases "rq_queued q = 0")
    case True
    with Some picked_none [OF ok] show ?thesis by (simp add: cfq_select_queue_def)
  next
    case False
    have w: "waiting (cfqqs q) \<noteq> {}" using False cfq_okD(3) [OF cok] by auto
    from select_expire_ok [OF L ok Some, of None now] w obtain f1 q1 where
      ex: "select_expire L now None q = Some (Inr (f1, q1))" "picked q f1 q1" by auto
    from group_idle_ok [OF L ok Some w] obtain f2 q2 where
      gi: "select_group_idle L now a q = Some (Inr (f2, q2))" "picked q f2 q2" by blast
    from should_idle_ok [OF rr on] obtain idle where idle: "cfq_should_idle a q = Inr idle" by blast
    consider (busy) "has Wait_busy c \<and> sort_list c \<noteq> Leaf"
      | (used) "\<not> (has Wait_busy c \<and> sort_list c \<noteq> Leaf)" "cfq_slice_used now c \<and> \<not> has Must_dispatch c"
      | (more) "\<not> (has Wait_busy c \<and> sort_list c \<noteq> Leaf)" "\<not> (cfq_slice_used now c \<and> \<not> has Must_dispatch c)" "sort_list c \<noteq> Leaf"
      | (empty) "\<not> (cfq_slice_used now c \<and> \<not> has Must_dispatch c)" "sort_list c = Leaf" by blast
    then show ?thesis
    proof cases
      case busy
      with Some False c(1) ex show ?thesis by (simp add: cfq_select_queue_def)
    next
      case used
      let ?i = "nr_cfqq G = 1 \<and> sort_list c = Leaf \<and> dispatched c \<noteq> 0 \<and> idle"
      have "cfq_select_queue L now q = (if ?i then Some (Inr (None, q)) else select_group_idle L now a q)"
        using Some False c(1) used g idle by (auto simp: cfq_select_queue_def)
      with gi picked_none [OF ok] show ?thesis by auto
    next
      case more
      with Some False c(1) have "cfq_select_queue L now q = Some (Inr (Some a, q))" by (auto simp: cfq_select_queue_def)
      moreover have "picked q (Some a) q" using ok Some c(1) more(3) by (simp add: picked_def)
      ultimately show ?thesis by blast
    next
      case empty
      then have wb: "\<not> (has Wait_busy c \<and> sort_list c \<noteq> Leaf)" and e: "\<not> sort_list c \<noteq> Leaf" by simp_all
      from close_cooperator_ok [OF cok c(1) empty(2)] obtain co where co: "cfq_close_cooperator a q = Inr co"
        "\<And>b. co = Some b \<Longrightarrow> b \<in> on_rr (cfqqs q) \<and> b \<noteq> a" by blast
      show ?thesis
      proof (cases co)
        case (Some b)
        note b = co(2) [OF Some]
        obtain q3 where m: "(if new_cfqq c = None then cfq_setup_merge a b q else Some (Inr q)) = Some (Inr q3)" "sel_ok q3"
          "waiting (cfqqs q3) = waiting (cfqqs q)" "queue_head q3 = queue_head q" "active_queue q3 = Some a"
          "on_rr (cfqqs q3) = on_rr (cfqqs q)"
          using setup_merge_ok [OF ok c(1), of b] b ok \<open>active_queue q = Some a\<close> that by (cases "new_cfqq c = None") auto
        from select_expire_ok [OF L m(2,5), of "Some b" now] b m(6) obtain f q' where
          "select_expire L now (Some b) q3 = Some (Inr (f, q'))" "picked q3 f q'" by auto
        moreover have "cfq_select_queue L now q = select_expire L now (Some b) q3"
          unfolding cfq_select_queue_def \<open>active_queue q = Some a\<close> option.case if_not_P [OF False]
            deref_Some [where m = "cfqqs q", OF c(1)] bindO_simps if_not_P [OF wb] if_not_P [OF empty(1)] if_not_P [OF e]
            co(1) Some m(1) by (rule refl)
        ultimately show ?thesis using picked_trans [OF m(3,4)] by metis
      next
        case None
        define b where "b = (CFQQ_SEEKY c \<and> has Idle_window c \<and> (has Slice_new c \<or> slice_end c - now > now - slice_start c))"
        define c1 where "c1 = (if b then clear Idle_window (clear Deep c) else c)"
        define q3 where "q3 = q\<lparr>cfqqs := (cfqqs q)(a \<mapsto> c1)\<rparr>"
        have p: "plain_change c c1" "ref_side c1 = ref_side c"
          by (simp_all add: c1_def plain_change_def ref_side_def) (simp_all add: clear_def)
        have ok3: "sel_ok q3" unfolding q3_def by (rule sel_ok_plain [OF ok c(1) p])
        have w3: "waiting (cfqqs q3) = waiting (cfqqs q)" using cfq_ok_plain(2) [OF cok c(1) p(1)] by (simp add: q3_def)
        have a3: "active_queue q3 = Some a" using Some by (simp add: q3_def)
        have "waiting (cfqqs q3) \<noteq> {}" using w w3 by simp
        from group_idle_ok [OF L ok3 a3 this, of now] obtain f q' where
          gi3: "select_group_idle L now a q3 = Some (Inr (f, q'))" "picked q3 f q'" by blast
        from should_idle_ok [OF sel_okD(6) [OF ok3] cfq_okD(5) [OF sel_okD(1) [OF ok3] a3]] obtain i3 where
          i3: "cfq_should_idle a q3 = Inr i3" by blast
        have u: "(if b then upd_cfqq a (\<lambda>c. clear Idle_window (clear Deep c)) q else Inr q) = Inr q3"
          using c(1) by (auto simp: q3_def c1_def fun_upd_idem)
        have "cfq_select_queue L now q = (if idle_timer q \<noteq> None then Some (Inr (None, q))
            else if dispatched c \<noteq> 0 \<and> i3 then Some (Inr (None, q3)) else select_group_idle L now a q3)"
          unfolding cfq_select_queue_def \<open>active_queue q = Some a\<close> option.case if_not_P [OF False]
            deref_Some [where m = "cfqqs q", OF c(1)] bindO_simps if_not_P [OF wb] if_not_P [OF empty(1)] if_not_P [OF e]
            co(1) None u [unfolded b_def] i3 by simp
        with gi3 picked_none [OF ok] picked_trans [of q3 q, OF w3 _ picked_none [OF ok3]] picked_trans [of q3 q, OF w3 _ gi3(2)]
        show ?thesis by (auto simp: q3_def)
      qed
    qed
  qed
qed

end
