(* ===== verification/Cfq_Serve.thy ===== *)
theory Cfq_Serve
  imports Cfq_Choose
begin

text \<open>
  The ordinary dispatch of CFQ, one request at a time: \<open>cfq_dispatch_requests\<close> keeps the
  invariant, never faults, and reports exactly what it moved.
\<close>

section \<open>One dispatch from the chosen queue\<close>

lemma check_fifo_ok:
  assumes ok: "sel_ok q" and a: "cfqqs q a = Some c"
  shows "\<exists>f c'. cfq_check_fifo now a q = Inr (f, q\<lparr>cfqqs := (cfqqs q)(a \<mapsto> c')\<rparr>) \<and> plain_change c c' \<and>
     ref_side c' = ref_side c \<and> (\<forall>x. f = Some x \<longrightarrow> x \<in> set_tree (sort_list c))"
proof (cases "has Fifo_expire c")
  case True
  with a show ?thesis
    by (intro exI [of _ None] exI [of _ c]) (simp add: cfq_check_fifo_def fun_upd_idem plain_change_refl)
next
  case False
  note qok = cfq_okD(2) [OF sel_okD(1) [OF ok] a]
  let ?c = "mark Fifo_expire c"
  have p: "plain_change c ?c" "ref_side ?c = ref_side c" by (simp_all add: plain_change_def) (simp add: mark_def ref_side_def)
  show ?thesis
  proof (cases "qfifo c")
    case Nil
    with False a p show ?thesis by (intro exI [of _ None] exI [of _ ?c]) (simp add: cfq_check_fifo_def)
  next
    case (Cons x xs)
    then have "x \<in> set (qfifo c)" by simp
    then have x: "x \<in> set_tree (sort_list c)" using queue_okD(2) [OF qok] by (metis set_inorder set_mset_mset)
    from queue_okD(5) [OF qok x] obtain r where r: "rqs q x = Some r" by blast
    with False a p Cons x show ?thesis
      by (intro exI [of _ "if unat now < fifo_time r then None else Some x"] exI [of _ ?c]) (simp add: cfq_check_fifo_def)
  qed
qed

lemma may_dispatch_ok:
  assumes ok: "sel_ok q" and act: "active_queue q = Some a"
  shows "\<exists>b. cfq_may_dispatch now a q = Inr b"
proof -
  note on = cfq_okD(5) [OF sel_okD(1) [OF ok] act]
  from on obtain c where c: "cfqqs q a = Some c" by (auto simp: on_rr_def)
  from should_idle_ok [OF sel_okD(6) [OF ok] on] obtain i where i: "cfq_should_idle a q = Inr i" by blast
  have d: "\<exists>v. async_depth now c n q = Inr v" for n
    using sel_okD(5) [OF ok] by (simp add: async_depth_def divE_def Let_def)
  have "\<exists>b. (case full_depth now c q of None \<Rightarrow> Inr False
      | Some n \<Rightarrow> bindE (async_depth now c n q) (\<lambda>n. Inr (of_int (dispatched c) < n))) = Inr b"
  proof (cases "full_depth now c q")
    case (Some n)
    from d [of n] obtain v where "async_depth now c n q = Inr v" by blast
    with Some show ?thesis by simp
  qed auto
  with c i show ?thesis by (auto simp: cfq_may_dispatch_def)
qed

lemma sel_ok_cic:
  assumes ok: "sel_ok q" and i: "cics q i = Some ic" "cic_ok ic \<Longrightarrow> cic_ok ic'"
  shows "sel_ok (q\<lparr>cics := (cics q)(i \<mapsto> ic'), active_cic := Some i\<rparr>)"
proof -
  let ?q = "q\<lparr>cics := (cics q)(i \<mapsto> ic'), active_cic := Some i\<rparr>"
  have d: "dom (cics ?q) = dom (cics q)" using i(1) by auto
  have "cfq_ok ?q"
    using sel_okD(1) [OF ok] rr_ok_frame [of ?q q] by (simp add: cfq_ok_def)
  moreover have "keeps q ?q" using d cics_okD [where cs = "cics q", OF _ i(1)] i(2) by (simp add: keeps_def cics_ok_upd)
  ultimately show ?thesis using sel_ok_keeps [OF ok] by blast
qed

lemma request_icq:
  assumes ok: "sel_ok q" and x: "x \<in> waiting (cfqqs q)" and k: "keeps q q'"
  obtains i ic where "RQ_CIC x q' = Inr i" "cics q' i = Some ic"
proof -
  from sel_okD(4) [OF ok] x obtain r i where r: "rqs q x = Some r" "rq_icq r = Some i" "i \<in> dom (cics q)"
    unfolding icqs_ok_def by blast
  have "same_requests (rqs q) (rqs q')" "dom (cics q') = dom (cics q)" using k by (simp_all add: keeps_def)
  from same_requestsD [OF this(1) r(1)] this(2) obtain r' where r': "rqs q' x = Some r'" "rq_core r' = rq_core r" "i \<in> dom (cics q')"
    using r(3) by blast
  then have "rq_icq r' = Some i" using r(2) rq_core_icq by metis
  with r' that show thesis by (auto simp: RQ_CIC_def)
qed

text \<open>The three steps of \<open>cfq_dispatch_request\<close> after the check of the FIFO.\<close>

lemma insert_and_hold_ok:
  assumes L: "lib_ok L" and ok: "sel_ok q" and act: "active_queue q = Some a" and a: "cfqqs q a = Some c"
    and x: "x \<in> set_tree (sort_list c)"
  shows "\<exists>q'. bindE (cfq_dispatch_insert L x q) (\<lambda>q.
       if active_cic q = None then
         bindE (RQ_CIC x q) (\<lambda>i.
         bindE (upd_cic i (\<lambda>ic. ic\<lparr>ioc_refcount := ioc_refcount ic + 1\<rparr>) q) (\<lambda>q.
           Inr (True, q\<lparr>active_cic := Some i\<rparr>)))
       else Inr (True, q)) = Inr (True, q') \<and> sel_ok q' \<and> active_queue q' = Some a \<and>
     waiting (cfqqs q') = waiting (cfqqs q) - {x} \<and> mset (queue_head q') = add_mset x (mset (queue_head q))"
proof -
  from dispatch_insert_ok [OF L sel_okD(1) [OF ok] a x act] obtain q1 where d: "cfq_dispatch_insert L x q = Inr q1" "cfq_ok q1"
    "active_queue q1 = Some a" "waiting (cfqqs q1) = waiting (cfqqs q) - {x}"
    "mset (queue_head q1) = add_mset x (mset (queue_head q))" "keeps q q1" by (elim exE conjE) (rule that; assumption)
  have ok1: "sel_ok q1" by (rule sel_ok_keeps [OF ok d(6,2)])
  show ?thesis
  proof (cases "active_cic q1")
    case None
    have "x \<in> waiting (cfqqs q)" using a x by (auto simp: waiting_def)
    from request_icq [OF ok this d(6)] obtain i ic where i: "RQ_CIC x q1 = Inr i" "cics q1 i = Some ic" by blast
    have "sel_ok (q1\<lparr>cics := (cics q1)(i \<mapsto> ic\<lparr>ioc_refcount := ioc_refcount ic + 1\<rparr>), active_cic := Some i\<rparr>)"
      by (rule sel_ok_cic [OF ok1 i(2)]) (simp add: cic_ok_def)
    with i None d(1,3-5) show ?thesis by simp
  next
    case (Some i)
    with d ok1 show ?thesis by simp
  qed
qed

lemma cfq_dispatch_request_ok:
  assumes L: "lib_ok L" and ok: "sel_ok q" and act: "active_queue q = Some a" and a: "cfqqs q a = Some c" "sort_list c \<noteq> Leaf"
  shows "\<exists>b q'. cfq_dispatch_request L now a q = Inr (b, q') \<and> sel_ok q' \<and> active_queue q' = Some a \<and>
     (if b then \<exists>x \<in> waiting (cfqqs q). waiting (cfqqs q') = waiting (cfqqs q) - {x} \<and>
                mset (queue_head q') = add_mset x (mset (queue_head q))
      else waiting (cfqqs q') = waiting (cfqqs q) \<and> queue_head q' = queue_head q)"
proof -
  from check_fifo_ok [OF ok a(1)] obtain f c1 where f: "cfq_check_fifo now a q = Inr (f, q\<lparr>cfqqs := (cfqqs q)(a \<mapsto> c1)\<rparr>)"
    "plain_change c c1" "ref_side c1 = ref_side c" "\<And>x. f = Some x \<Longrightarrow> x \<in> set_tree (sort_list c)" by blast
  define c2 where "c2 = (if f \<noteq> None then mark Must_dispatch c1 else c1)"
  define q2 where "q2 = q\<lparr>cfqqs := (cfqqs q)(a \<mapsto> c2)\<rparr>"
  have p: "plain_change c c2" "ref_side c2 = ref_side c"
    using f(2,3) by (simp_all add: c2_def plain_change_def ref_side_def) (simp_all add: mark_def)
  have ok2: "sel_ok q2" unfolding q2_def by (rule sel_ok_plain [OF ok a(1) p])
  have w2: "waiting (cfqqs q2) = waiting (cfqqs q)"
    using cfq_ok_plain(2) [OF sel_okD(1) [OF ok] a(1) p(1)] by (simp add: q2_def)
  have act2: "active_queue q2 = Some a" and a2: "cfqqs q2 a = Some c2" using act by (simp_all add: q2_def)
  have sl: "sort_list c2 = sort_list c" "next_rq c2 = next_rq c" using p(1) by (simp_all add: plain_change_def)
  have u: "(if f \<noteq> None then upd_cfqq a (mark Must_dispatch) (q\<lparr>cfqqs := (cfqqs q)(a \<mapsto> c1)\<rparr>)
      else Inr (q\<lparr>cfqqs := (cfqqs q)(a \<mapsto> c1)\<rparr>)) = Inr q2"
    by (simp add: q2_def c2_def)
  from may_dispatch_ok [OF ok2 act2] obtain may where m: "cfq_may_dispatch now a q2 = Inr may" by blast
  have next_rq: "next_rq c \<noteq> None" using queue_okD(3) [OF cfq_okD(2) [OF sel_okD(1) [OF ok] a(1)]] a(2) by simp
  then obtain x where x: "(if f = None then next_rq c else f) = Some x" by (cases f) auto
  then have xin: "x \<in> set_tree (sort_list c2)"
    using f(4) queue_okD(4) [OF cfq_okD(2) [OF sel_okD(1) [OF ok] a(1)]] sl by (auto split: if_splits)
  show ?thesis
  proof (cases may)
    case False
    have "cfq_dispatch_request L now a q = Inr (False, q2)"
      unfolding cfq_dispatch_request_def deref_Some [where m = "cfqqs q", OF a(1)] bindE.simps if_not_P [OF a(2)] f(1)
        prod.case u m using False by simp
    with ok2 act2 w2 show ?thesis by (intro exI [of _ False] exI [of _ q2]) (simp add: q2_def)
  next
    case True
    from insert_and_hold_ok [OF L ok2 act2 a2 xin] obtain q3 where d: "bindE (cfq_dispatch_insert L x q2) (\<lambda>q.
       if active_cic q = None then
         bindE (RQ_CIC x q) (\<lambda>i.
         bindE (upd_cic i (\<lambda>ic. ic\<lparr>ioc_refcount := ioc_refcount ic + 1\<rparr>) q) (\<lambda>q.
           Inr (True, q\<lparr>active_cic := Some i\<rparr>)))
       else Inr (True, q)) = Inr (True, q3)" "sel_ok q3" "active_queue q3 = Some a"
      "waiting (cfqqs q3) = waiting (cfqqs q2) - {x}" "mset (queue_head q3) = add_mset x (mset (queue_head q2))" by blast
    have "\<not> \<not> may" using True by simp
    then have "cfq_dispatch_request L now a q = Inr (True, q3)"
      unfolding cfq_dispatch_request_def deref_Some [where m = "cfqqs q", OF a(1)] bindE.simps if_not_P [OF a(2)] f(1)
        prod.case u m x option.case d(1) by (simp only: if_False)
    moreover have "x \<in> waiting (cfqqs q)" unfolding w2 [symmetric] using xin a2 by (auto simp: waiting_def)
    moreover have "queue_head q2 = queue_head q" by (simp add: q2_def)
    ultimately show ?thesis using d(2-5) w2 by (intro exI [of _ True] exI [of _ q3]) auto
  qed
qed

section \<open>The dispatch function\<close>

lemma served_update:
  assumes ok: "sel_ok q" and a: "cfqqs q a = Some c" and p: "plain_change c (f c)" "ref_side (f c) = ref_side c"
  obtains q' where "upd_cfqq a f q = Inr q'" "sel_ok q'" "waiting (cfqqs q') = waiting (cfqqs q)" "queue_head q' = queue_head q"
    "active_queue q' = active_queue q" "cfqqs q' a = Some (f c)"
  using sel_ok_plain [OF ok a p] cfq_ok_plain(2) [OF sel_okD(1) [OF ok] a p(1)] a
  by (intro that [of "q\<lparr>cfqqs := (cfqqs q)(a \<mapsto> f c)\<rparr>"]) simp_all

lemma dispatch_requests_ok:
  assumes L: "lib_ok L" and ok: "sel_ok q"
  shows "\<exists>n q'. cfq_dispatch_requests L now False q = Some (Inr (n, q')) \<and> sel_ok q' \<and>
     (n = 0 \<and> waiting (cfqqs q') = waiting (cfqqs q) \<and> queue_head q' = queue_head q \<or>
      n = 1 \<and> (\<exists>x \<in> waiting (cfqqs q). waiting (cfqqs q') = waiting (cfqqs q) - {x} \<and>
        mset (queue_head q') = add_mset x (mset (queue_head q))))"
proof (cases "busy_queues q = 0")
  case True
  with ok show ?thesis by (intro exI [of _ 0] exI [of _ q]) (simp add: cfq_dispatch_requests_def)
next
  case False
  have "waiting (cfqqs q) \<noteq> {}" if "active_queue q = None" using none_busy [OF sel_okD(1) [OF ok] that] False by blast
  from select_queue_ok [OF L ok this, of now] obtain f q1 where s: "cfq_select_queue L now q = Some (Inr (f, q1))"
    "picked q f q1" by auto
  from s(2) have ok1: "sel_ok q1" and w1: "waiting (cfqqs q1) = waiting (cfqqs q)" "queue_head q1 = queue_head q"
    by (simp_all add: picked_def)
  show ?thesis
  proof (cases f)
    case None
    with False s(1) ok1 w1 show ?thesis by (intro exI [of _ 0] exI [of _ q1]) (simp add: cfq_dispatch_requests_def)
  next
    case (Some a)
    with s(2) obtain c where a: "active_queue q1 = Some a" "cfqqs q1 a = Some c" "sort_list c \<noteq> Leaf" by (auto simp: picked_def)
    from cfq_dispatch_request_ok [OF L ok1 a, of now] obtain b q2 where d: "cfq_dispatch_request L now a q1 = Inr (b, q2)"
      "sel_ok q2" "active_queue q2 = Some a" "if b then \<exists>x \<in> waiting (cfqqs q1). waiting (cfqqs q2) = waiting (cfqqs q1) - {x} \<and>
                mset (queue_head q2) = add_mset x (mset (queue_head q1))
      else waiting (cfqqs q2) = waiting (cfqqs q1) \<and> queue_head q2 = queue_head q1" by blast
    show ?thesis
    proof (cases b)
      case False': False
      with False s(1) Some d w1 show ?thesis
        by (intro exI [of _ 0] exI [of _ q2]) (simp add: cfq_dispatch_requests_def)
    next
      case True
      from cfq_okD(5) [OF sel_okD(1) [OF d(2)] d(3)] obtain c2 where c2: "cfqqs q2 a = Some c2" by (auto simp: on_rr_def)
      let ?f = "\<lambda>c. clear Must_dispatch (c\<lparr>slice_dispatch := slice_dispatch c + 1\<rparr>)"
      have p: "plain_change c2 (?f c2)" "ref_side (?f c2) = ref_side c2"
        by (simp_all add: plain_change_def ref_side_def) (simp_all add: has_def clear_def)
      from served_update [where f = ?f, OF d(2) c2 p] obtain q3 where u: "upd_cfqq a ?f q2 = Inr q3" "sel_ok q3"
        "waiting (cfqqs q3) = waiting (cfqqs q2)" "queue_head q3 = queue_head q2" "active_queue q3 = active_queue q2"
        "cfqqs q3 a = Some (?f c2)" by blast
      let ?g = "\<lambda>c. c\<lparr>slice_end := now + 1\<rparr>"
      have "plain_change (?f c2) (?g (?f c2))" "ref_side (?g (?f c2)) = ref_side (?f c2)"
        by (simp_all add: plain_change_def ref_side_def has_def)
      from served_update [where f = ?g, OF u(2,6) this] obtain q4 where v: "upd_cfqq a ?g q3 = Inr q4" "sel_ok q4"
        "waiting (cfqqs q4) = waiting (cfqqs q3)" "queue_head q4 = queue_head q3" "active_queue q4 = active_queue q3"
        by blast
      have act4: "active_queue q4 = Some a" using v(5) u(5) d(3) by simp
      from slice_expired'_ok [OF L sel_okD(1) [OF v(2)] act4, of now] obtain q5 where e:
        "cfq_slice_expired' L now a False q4 = Some (Inr q5)" "cfq_ok q5" "waiting (cfqqs q5) = waiting (cfqqs q4)"
        "queue_head q5 = queue_head q4" "keeps q4 q5" by blast
      have ok5: "sel_ok q5" by (rule sel_ok_keeps [OF v(2) e(5,2)])
      define ex where "ex \<longleftrightarrow> busy_queues q3 > 1 \<and>
        (\<not> has Sync (?f c2) \<and> slice_dispatch (?f c2) \<ge> of_int (cfq_prio_to_maxrq q3 (?f c2)) \<or> cfq_class_idle (?f c2))"
      have "cfq_dispatch_requests L now False q = Some (Inr (1, if ex then q5 else q3))"
      proof -
        have "(if ex then bindO (Some (upd_cfqq a ?g q3)) (cfq_slice_expired L now False) else Some (Inr q3)) =
            Some (Inr (if ex then q5 else q3))"
          using v(1) act4 e(1) by (simp add: cfq_slice_expired_def)
        note ex = this [unfolded ex_def]
        have "\<not> \<not> b" using True by simp
        note t = if_not_P [OF this]
        show ?thesis
          unfolding cfq_dispatch_requests_def if_not_P [OF False] if_False s(1) bindO_simps prod.case Some option.case d(1) t u(1)
            deref_Some [where m = "cfqqs q3", OF u(6)] ex by (simp only: ex_def)
      qed
      moreover have "sel_ok (if ex then q5 else q3)" using ok5 u(2) by simp
      moreover have "waiting (cfqqs (if ex then q5 else q3)) = waiting (cfqqs q2)" "queue_head (if ex then q5 else q3) = queue_head q2"
        using e(3,4) v(3,4) u(3,4) by simp_all
      moreover have "\<exists>x \<in> waiting (cfqqs q). waiting (cfqqs q2) = waiting (cfqqs q) - {x} \<and>
          mset (queue_head q2) = add_mset x (mset (queue_head q))" using d(4) True w1 by simp
      ultimately show ?thesis by metis
    qed
  qed
qed

interpretation ordinary: elv_sched "\<lambda>q. lib_ok L \<and> sel_ok q" "\<lambda>q. mset_set (waiting (cfqqs q))"
  "\<lambda>q. mset (queue_head q)" "cfq_dispatch_requests L now False"
  for L now
proof (unfold_locales, goal_cases)
  case (1 q)
  then have ok: "lib_ok L" "sel_ok q" by auto
  from dispatch_requests_ok [OF ok, of now] obtain n q' where d: "cfq_dispatch_requests L now False q = Some (Inr (n, q'))"
    "sel_ok q'" "n = 0 \<and> waiting (cfqqs q') = waiting (cfqqs q) \<and> queue_head q' = queue_head q \<or>
      n = 1 \<and> (\<exists>x \<in> waiting (cfqqs q). waiting (cfqqs q') = waiting (cfqqs q) - {x} \<and>
        mset (queue_head q') = add_mset x (mset (queue_head q)))" by blast
  have fin: "finite (waiting (cfqqs q))" by (rule finite_waiting [OF rr_okD(3) [OF sel_okD(6) [OF ok(2)]]])
  have "mset_set (waiting (cfqqs q)) = add_mset x (mset_set (waiting (cfqqs q) - {x}))" if "x \<in> waiting (cfqqs q)" for x
    by (rule mset_set.remove [OF fin that])
  with d ok(1) show ?case by auto
qed

section \<open>Property\<close>

text \<open>C4: A dispatch of CFQ, whatever the state of groups, slices, cooperating queues and timers:
  no \<open>BUG_ON\<close> fires, nothing freed is read and no division by 0 happens; it returns 1 and moves exactly one
  waiting request to the dispatch list, or returns 0 and changes neither; all invariants
  hold again afterwards, so every further dispatch does the same.\<close>

theorem cfq_dispatch:
  assumes "lib_ok L" "sel_ok q"
  shows "\<exists>n q'. cfq_dispatch_requests L now False q = Some (Inr (n, q')) \<and> sel_ok q' \<and>
     (n = 0 \<and> waiting (cfqqs q') = waiting (cfqqs q) \<and> queue_head q' = queue_head q \<or>
      n = 1 \<and> (\<exists>x \<in> waiting (cfqqs q). waiting (cfqqs q') = waiting (cfqqs q) - {x} \<and>
        mset (queue_head q') = add_mset x (mset (queue_head q))))"
  by (rule dispatch_requests_ok [OF assms])

lemma drain_example_sel: "sel_ok drain_example"
proof -
  have "\<exists>us. merges [5 \<mapsto> drain_queue] 5 us" by (rule exI [of _ "[]"]) (simp add: drain_queue_def cfqq_example_def)
  then have "merge_ok (cfqqs drain_example)" by (simp add: merge_ok_def)
  moreover have "refs_ok (cfqqs drain_example)" by (simp add: refs_ok_def drain_queue_def cfqq_example_def)
  moreover have "icqs_ok drain_example" by (simp add: icqs_ok_def drain_example_waiting) (simp add: drain_example_def)
  moreover have "cfq_slice drain_example True \<noteq> 0" by (simp add: drain_example_def group_example_def cfq_example_def)
  moreover have "cics_ok (cics drain_example)" by (simp add: cics_ok_def cic_ok_def drain_example_def drain_cic_def samples_ok_def IOPRIO_PRIO_DATA_def CFQ_PRIO_LISTS_def ioprio_defs)
  ultimately show ?thesis using drain_example_ok by (simp add: sel_ok_def)
qed

theorem cfq_dispatch_witness:
  "\<exists>n q'. cfq_dispatch_requests lib_example 9000000 False drain_example = Some (Inr (n, q')) \<and> sel_ok q' \<and>
     size (queue_head q') + card (waiting (cfqqs q')) = 2"
  using cfq_dispatch [OF lib_example_ok drain_example_sel, of 9000000]
proof (elim exE conjE disjE bexE)
  fix n q' x
  assume "cfq_dispatch_requests lib_example 9000000 False drain_example = Some (Inr (n, q'))" "sel_ok q'" "x \<in> waiting (cfqqs drain_example)"
    "waiting (cfqqs q') = waiting (cfqqs drain_example) - {x}" "mset (queue_head q') = add_mset x (mset (queue_head drain_example))"
  then show ?thesis using arg_cong [of "mset (queue_head q')" "{#x#}" size] by (auto simp: drain_example_waiting)
qed (auto simp: drain_example_waiting)

end
