(* ===== verification/Cfq_Insert.thy ===== *)
theory Cfq_Insert
  imports Cfq_Requests
begin

text \<open>
  A request enters its queue: \<open>cfq_add_rq_rb\<close> puts it on the sorted tree, the queue on the
  list of busy queues, and chooses the next request anew.
\<close>

section \<open>The queue with one more request\<close>

definition with_rq :: "kernel_lib \<Rightarrow> (nat \<Rightarrow> nat) \<Rightarrow> nat \<Rightarrow> bool \<Rightarrow> cfq_queue \<Rightarrow> cfq_queue" where
  "with_rq L pos rq s c =
     (queued_add s 1 c)\<lparr>sort_list := elv_rb_add (rb_insert_color L) pos rq (sort_list c)\<rparr>"

lemma with_rq_fields [simp]:
  "has f (with_rq L pos rq s c) = has f c" "p_root (with_rq L pos rq s c) = p_root c" "cfqg (with_rq L pos rq s c) = cfqg c"
  "service_tree (with_rq L pos rq s c) = service_tree c" "rb_linked (with_rq L pos rq s c) = rb_linked c"
  "rb_key (with_rq L pos rq s c) = rb_key c" "org_ioprio (with_rq L pos rq s c) = org_ioprio c"
  "next_rq (with_rq L pos rq s c) = next_rq c" "qfifo (with_rq L pos rq s c) = qfifo c"
  "queued (with_rq L pos rq s c) = (queued c)(s := queued c s + 1)"
  "sort_list (with_rq L pos rq s c) = elv_rb_add (rb_insert_color L) pos rq (sort_list c)"
  by (simp_all add: with_rq_def queued_add_def has_def)

lemma elv_rb_add_mset:
  "lib_ok L \<Longrightarrow> mset (inorder (elv_rb_add (rb_insert_color L) pos rq t)) = add_mset rq (mset (inorder t))"
  by (simp add: elv_rb_add_def lib_okD(1) mset_inorder_link)

lemma elv_rb_add_set:
  assumes "lib_ok L"
  shows "set_tree (elv_rb_add (rb_insert_color L) pos rq t) = insert rq (set_tree t)"
  using arg_cong [OF elv_rb_add_mset [OF assms, of pos rq t], of set_mset] by simp

lemma elv_rb_add_sorted:
  "lib_ok L \<Longrightarrow> sorted (map pos (inorder t)) \<Longrightarrow> sorted (map pos (inorder (elv_rb_add (rb_insert_color L) pos rq t)))"
  by (simp add: elv_rb_add_def lib_okD(1) rb_link_sorted)

text \<open>The queue is right again when the FIFO, the tree, the count and the next request all know it.\<close>

lemma queue_ok_with:
  assumes L: "lib_ok L" and ok: "queue_ok rs a c" and new: "rq \<notin> set_tree (sort_list c)"
    and r: "rs rq = Some r" "priv0 r = Some a" "priv1 r = cfqg c"
    and c': "sort_list c' = elv_rb_add (rb_insert_color L) pos rq (sort_list c)" "qfifo c' = qfifo c @ [rq]"
      "queued c' = (queued c)(rq_sync r := queued c (rq_sync r) + 1)" "cfqg c' = cfqg c" "has On_rr c'"
      "next_rq c' = next_rq c \<and> next_rq c \<noteq> None \<or> next_rq c' = Some rq"
  shows "queue_ok rs a c'"
proof -
  note m = elv_rb_add_mset [OF L, of pos rq "sort_list c"]
  note set = elv_rb_add_set [OF L, of pos rq "sort_list c"]
  have "distinct (inorder (sort_list c'))"
    using mset_eq_imp_distinct_iff [of "inorder (sort_list c')" "rq # inorder (sort_list c)"] m new queue_okD(1) [OF ok]
    by (simp add: c'(1))
  moreover have "mset (qfifo c') = mset (inorder (sort_list c'))" using queue_okD(2) [OF ok] m by (simp add: c'(1,2))
  moreover have "case next_rq c' of None \<Rightarrow> sort_list c' = Leaf | Some x \<Rightarrow> x \<in> set_tree (sort_list c')"
    using c'(6) queue_okD(4) [OF ok] set by (auto simp: c'(1) split: option.split)
  moreover have "\<exists>r. rs x = Some r \<and> priv0 r = Some a \<and> priv1 r = cfqg c'" if "x \<in> set_tree (sort_list c')" for x
    using that set queue_okD(5) [OF ok, of x] r by (auto simp: c'(1,4))
  moreover have "queued c' s = int (length (filter (\<lambda>x. sync_of rs x = s) (inorder (sort_list c'))))" for s
  proof -
    have cnt: "length (filter P (inorder t)) = size (filter_mset P (mset (inorder t)))" for P and t :: "nat tree"
      by (metis mset_filter size_mset)
    have "sync_of rs rq = rq_sync r" using r(1) by (simp add: sync_of_def)
    moreover have "queued c t = int (size (filter_mset (\<lambda>x. sync_of rs x = t) (mset (inorder (sort_list c)))))" for t
      using queue_okD(6) [OF ok, of t] by (simp only: cnt)
    ultimately show ?thesis unfolding cnt c'(1) m by (auto simp: c'(3))
  qed
  ultimately show ?thesis using c'(5) by (simp add: queue_ok_def)
qed

section \<open>Adding\<close>

lemma choose_one:
  assumes "\<And>x. n = Some x \<Longrightarrow> rqs q x \<noteq> None" "rqs q rq \<noteq> None"
  shows "\<exists>nx. cfq_choose_req q n (Some rq) p = Inr nx \<and> (nx = n \<and> n \<noteq> None \<or> nx = Some rq) \<and> (\<exists>x. nx = Some x \<and> rqs q x \<noteq> None)"
proof (cases n)
  case None
  with assms(2) show ?thesis by simp
next
  case (Some x)
  with choose_req_min [of q x rq p] assms show ?thesis by auto
qed

lemma add_rq_rb_ok:
  assumes L: "lib_ok L" and ok: "rr_ok q" and a: "cfqqs q a = Some (c\<lparr>qfifo := qfifo c @ [rq]\<rparr>)"
    and qok: "queue_ok (rqs q) a c" and new: "rq \<notin> set_tree (sort_list c)"
    and r: "rqs q rq = Some r" "priv0 r = Some a" "priv1 r = cfqg c"
  shows "\<exists>q' c'. cfq_add_rq_rb L now rq q = Some (Inr q') \<and> rr_ok q' \<and> cfqqs q' = (cfqqs q)(a \<mapsto> c') \<and>
     queue_ok (rqs q) a c' \<and> same_rest q q' \<and> has On_rr c' \<and>
     sort_list c' = elv_rb_add (rb_insert_color L) (pos_of q) rq (sort_list c) \<and> ref_side c' = ref_side c"
proof -
  let ?c = "c\<lparr>qfifo := qfifo c @ [rq]\<rparr>"
  define c1 where "c1 = with_rq L (pos_of q) rq (rq_sync r) ?c"
  define q1 where "q1 = q\<lparr>cfqqs := (cfqqs q)(a \<mapsto> c1)\<rparr>"
  have h: "has f ?c = has f c" for f by (simp add: has_def)
  have rr1: "rr_ok q1" unfolding q1_def by (rule rr_ok_queue [OF ok a]) (simp_all add: c1_def)
  have a1: "cfqqs q1 a = Some c1" by (simp add: q1_def)
  have rest1: "same_rest q q1" by (simp add: same_rest_def q1_def)
  obtain q2 c2 where s: "(if \<not> has On_rr c1 then cfq_add_cfqq_rr L now a q1 else Some (Inr q1)) = Some (Inr q2)" "rr_ok q2"
    "cfqqs q2 = (cfqqs q1)(a \<mapsto> c2)" "replaced (mark On_rr c1) c2" "same_rest q1 q2"
  proof (cases "has On_rr c1")
    case True
    then have "mark On_rr c1 = c1" by (simp add: mark_def has_def insert_absorb)
    with True rr1 a1 that [of q1 c1] show thesis by (simp add: fun_upd_idem replaced_refl same_rest_def)
  next
    case False
    from add_cfqq_rr_ok [OF L rr1 a1 False, of now] obtain q2 c2 where e: "cfq_add_cfqq_rr L now a q1 = Some (Inr q2)" "rr_ok q2"
      "replaced (mark On_rr c1) c2" "q2 = q1\<lparr>cfqqs := (cfqqs q1)(a \<mapsto> c2), cfqgs := cfqgs q2, grp_service_tree := grp_service_tree q2,
        prio_trees := prio_trees q2, busy_queues := busy_queues q1 + 1, busy_sync_queues := busy_sync_queues q2\<rparr>"
      by (elim exE conjE) (rule that; assumption)
    have "cfqqs q2 = (cfqqs q1)(a \<mapsto> c2)" "same_rest q1 q2" unfolding same_rest_def by (subst e(4), simp)+
    with False e(1-3) that show thesis by simp
  qed
  have f2: "same_reqs (mark On_rr c1) c2" "qflags c2 = qflags (mark On_rr c1)" using replaced_same [OF s(4)] by auto
  have on2: "has On_rr c2" using f2(2) by (simp add: has_def mark_def)
  have c2: "sort_list c2 = elv_rb_add (rb_insert_color L) (pos_of q) rq (sort_list c)" "next_rq c2 = next_rq c"
    "qfifo c2 = qfifo c @ [rq]" "queued c2 = (queued c)(rq_sync r := queued c (rq_sync r) + 1)" "cfqg c2 = cfqg c"
    "ref_side c2 = ref_side c"
    using f2(1) by (simp_all add: same_reqs_def c1_def) (simp add: ref_side_def mark_def with_rq_def queued_add_def)
  have a2: "cfqqs q2 a = Some c2" by (simp add: s(3))
  have rq2: "rqs q2 = rqs q" using s(5) rest1 by (simp add: same_rest_def)
  have live: "rqs q2 x \<noteq> None" if "next_rq c2 = Some x" for x
    using that nexts_okD(2) [OF rr_okD(8) [OF s(2)] a2] by simp
  from choose_one [where n = "next_rq c2" and q = q2 and p = "last_position q2" and rq = rq, OF live] r(1) rq2 obtain nx where
    nx: "cfq_choose_req q2 (next_rq c2) (Some rq) (last_position q2) = Inr nx" "nx = next_rq c2 \<and> next_rq c2 \<noteq> None \<or> nx = Some rq"
    "\<exists>x. nx = Some x \<and> rqs q2 x \<noteq> None" by auto
  let ?c3 = "c2\<lparr>next_rq := nx\<rparr>"
  let ?q3 = "q2\<lparr>cfqqs := (cfqqs q2)(a \<mapsto> ?c3)\<rparr>"
  have h3: "has f ?c3 = has f c2" for f by (simp add: has_def)
  obtain q4 p where t: "(if next_rq c2 \<noteq> nx then cfq_prio_tree_add L a ?q3 else Inr ?q3) = Inr q4" "rr_ok q4"
    "q4 = ?q3\<lparr>cfqqs := (cfqqs ?q3)(a \<mapsto> ?c3\<lparr>p_root := p\<rparr>), prio_trees := prio_trees q4\<rparr>"
  proof (cases "next_rq c2 = nx")
    case True
    then have "?q3 = q2" using a2 by (simp add: fun_upd_idem)
    moreover have "q2 = ?q3\<lparr>cfqqs := (cfqqs ?q3)(a \<mapsto> ?c3\<lparr>p_root := p_root c2\<rparr>), prio_trees := prio_trees q2\<rparr>"
      using True a2 by (simp add: fun_upd_idem)
    ultimately show thesis using that [of q2 "p_root c2"] True s(2) by simp
  next
    case False
    note rr = rr_okD [OF s(2)]
    have core: "rr_core ?q3"
      by (rule rr_core_queue [OF _ a2]) (use s(2) in \<open>simp_all add: rr_ok_core h3\<close>)
    have "prio_live {a} ?q3"
      unfolding prio_live_def
    proof (intro conjI allI impI)
      show "prio_nodes ?q3" using rr(7) a2 by (auto simp: prio_live_def prio_nodes_def prio_members_def)
      fix b d i assume b: "b \<notin> {a}" "cfqqs ?q3 b = Some d" "p_root d = Some i"
      then have "cfqqs q2 b = Some d" by simp
      with rr(7) b(3) show "i < CFQ_PRIO_LISTS" "\<exists>rq r. next_rq d = Some rq \<and> rqs ?q3 rq = Some r"
        unfolding prio_live_def by auto
    qed
    moreover have "nexts_ok ?q3" using rr(8) nexts_okD(1) [OF rr(8) a2] nx(3) by (auto simp: nexts_ok_def ran_def)
    moreover have "cfqqs ?q3 a = Some ?c3" by simp
    ultimately obtain q' p where "cfq_prio_tree_add L a ?q3 = Inr q'" "rr_ok q'"
      "q' = ?q3\<lparr>cfqqs := (cfqqs ?q3)(a \<mapsto> ?c3\<lparr>p_root := p\<rparr>), prio_trees := prio_trees q'\<rparr>"
      using prio_step [OF L] core unfolding rr_core_def by blast
    with False that show thesis by simp
  qed
  let ?c4 = "?c3\<lparr>p_root := p\<rparr>"
  have e4: "cfqqs q4 = (cfqqs q)(a \<mapsto> ?c4)" "same_rest q2 q4"
    unfolding same_rest_def by (subst t(3), simp add: s(3) q1_def)+
  have "cfq_add_rq_rb L now rq q = Some (Inr q4)"
  proof -
    have u: "RQ_CFQQ rq q = Inr a" "deref (rqs q) rq = Inr r" using r by (simp_all add: RQ_CFQQ_def)
    have v: "upd_cfqq a (\<lambda>c. (queued_add (rq_sync r) 1 c)
       \<lparr>sort_list := elv_rb_add (rb_insert_color L) (pos_of q) rq (sort_list c)\<rparr>) q = Inr q1"
      using a by (simp add: q1_def c1_def with_rq_def)
    have w: "upd_cfqq a (\<lambda>c. c\<lparr>next_rq := nx\<rparr>) q2 = Inr ?q3" using a2 by simp
    show ?thesis
      unfolding cfq_add_rq_rb_def u bindO_simps v deref_Some [where m = "cfqqs q1", OF a1] s(1)
        deref_Some [where m = "cfqqs q2", OF a2] bindE.simps nx(1) w t(1) using nx(3) by auto
  qed
  moreover have "queue_ok (rqs q) a ?c4"
    by (rule queue_ok_with [OF L qok new r]) (use c2 on2 nx(2) in \<open>simp_all add: has_def\<close>)
  moreover have "same_rest q q4" using rest1 s(5) e4(2) by (blast intro: same_rest_trans)
  moreover have "has On_rr ?c4" using on2 by (simp add: has_def)
  moreover have "ref_side ?c4 = ref_side c" using c2(6) by (simp add: ref_side_def)
  ultimately show ?thesis using t(2) e4(1) c2(1) by (intro exI [of _ q4] exI [of _ ?c4]) simp
qed

end
