(* ===== verification/Cfq_Arrive.thy ===== *)
theory Cfq_Arrive
  imports Cfq_Serve Cfq_Insert Cfq_Enqueue
begin

text \<open>
  A request arrives: \<open>cfq_insert_request\<close> puts it into the queue it was set up for, brings think
  times, seek history and the idle window up to date, and lets the queue preempt the active one.
\<close>

section \<open>Changes that the invariant does not see\<close>

lemma sel_ok_rest:
  "sel_ok q \<Longrightarrow> rr_ok q' \<Longrightarrow> cfqqs q' = cfqqs q \<Longrightarrow> same_rest q q' \<Longrightarrow> sel_ok q'"
  using sel_ok_keeps keeps_rest cfq_ok_rest sel_okD(1) by metis

lemma sel_ok_frame:
  assumes "sel_ok q" "cfqqs q' = cfqqs q" "cfqgs q' = cfqgs q" "grp_service_tree q' = grp_service_tree q"
    "busy_queues q' = busy_queues q" "busy_sync_queues q' = busy_sync_queues q" "prio_trees q' = prio_trees q"
    "same_rest q q'"
  shows "sel_ok q'"
proof (rule sel_ok_rest [OF assms(1) _ assms(2,8)])
  have "rqs q' = rqs q" using assms(8) by (simp add: same_rest_def)
  with rr_ok_frame [OF assms(2-6) _ assms(7)] sel_okD(6) [OF assms(1)] show "rr_ok q'" by simp
qed

lemma sel_ok_group:
  assumes "sel_ok q" "cfqgs q g = Some G" "plain_group G G'"
  shows "sel_ok (q\<lparr>cfqgs := (cfqgs q)(g \<mapsto> G')\<rparr>)"
  by (rule sel_ok_rest [OF assms(1) rr_ok_group [OF sel_okD(6) [OF assms(1)] assms(2,3)]])
    (simp_all add: same_rest_def)

lemma sel_ok_ttime:
  assumes ok: "sel_ok q" and G: "cfqgs q g = Some G" and t: "samples_ok t"
  shows "sel_ok (q\<lparr>cfqgs := (cfqgs q)(g \<mapsto> put_tree cls ty ((tree_of G cls ty)\<lparr>st_ttime := t\<rparr>) G)\<rparr>)"
proof (rule sel_ok_rest [OF ok rr_ok_put [OF sel_okD(6) [OF ok] G]])
  show "st_ok (cfqqs q) (st_for g cls ty) ((tree_of G cls ty)\<lparr>st_ttime := t\<rparr>)"
    using trees_okD(2) [OF rr_okD(2) [OF sel_okD(6) [OF ok]] G, of cls ty] t by (simp add: st_ok_def st_sorted_def)
qed (simp_all add: same_rest_def)

lemma sel_ok_cics:
  assumes ok: "sel_ok q" and i: "cics q i = Some ic" "cic_ok ic \<Longrightarrow> cic_ok ic'"
  shows "sel_ok (q\<lparr>cics := (cics q)(i \<mapsto> ic')\<rparr>)"
proof -
  let ?q = "q\<lparr>cics := (cics q)(i \<mapsto> ic')\<rparr>"
  have d: "dom (cics ?q) = dom (cics q)" using i(1) by auto
  then have "keeps q ?q" using cics_okD [where cs = "cics q", OF _ i(1)] i(2) by (simp add: keeps_def cics_ok_upd)
  moreover have "cfq_ok ?q" using sel_okD(1) [OF ok] rr_ok_frame [of ?q q] d by (simp add: cfq_ok_def)
  ultimately show ?thesis using sel_ok_keeps [OF ok] by blast
qed

lemma rr_ok_rqs:
  assumes "rr_ok q" "dom (rqs q) \<subseteq> dom rs"
  shows "rr_ok (q\<lparr>rqs := rs\<rparr>)"
proof -
  have d: "rqs q x = Some r \<Longrightarrow> \<exists>r. rs x = Some r" for x r using assms(2) by blast
  have "prio_live {} (q\<lparr>rqs := rs\<rparr>)"
    using rr_okD(7) [OF assms(1)] d unfolding prio_live_def prio_nodes_def by simp blast
  moreover have "nexts_ok (q\<lparr>rqs := rs\<rparr>)" using rr_okD(8) [OF assms(1)] d unfolding nexts_ok_def by fastforce
  ultimately show ?thesis using assms(1) rr_core_frame [of "q\<lparr>rqs := rs\<rparr>" q] by (simp add: rr_ok_core)
qed

lemma queue_ok_stamp:
  assumes ok: "queue_ok rs b d" and r: "rs x = Some r"
  shows "queue_ok (rs(x \<mapsto> r\<lparr>fifo_time := n\<rparr>)) b d"
proof -
  have "sync_of (rs(x \<mapsto> r\<lparr>fifo_time := n\<rparr>)) = sync_of rs" using r by (auto simp: sync_of_def fun_eq_iff)
  then show ?thesis using ok r by (auto simp: queue_ok_def)
qed

section \<open>The queue of the request takes it in\<close>

text \<open>What \<open>cfq_set_request\<close> leaves behind: the request names its queue, its group and its context.\<close>

definition held :: "'a cfq_data_scheme \<Rightarrow> nat \<Rightarrow> nat \<Rightarrow> nat \<Rightarrow> bool" where
  "held q rq a i \<longleftrightarrow> (\<exists>r c. rqs q rq = Some r \<and> priv0 r = Some a \<and> cfqqs q a = Some c \<and> priv1 r = cfqg c \<and>
     rq_icq r = Some i \<and> i \<in> dom (cics q))"

text \<open>The state after the arrival is counted: right, with the queue busy and the context alive.\<close>

definition arrived :: "nat set \<Rightarrow> nat list \<Rightarrow> nat \<Rightarrow> nat \<Rightarrow> 'a cfq_data_scheme \<Rightarrow> bool" where
  "arrived W H a i q \<longleftrightarrow> sel_ok q \<and> waiting (cfqqs q) = W \<and> queue_head q = H \<and> i \<in> dom (cics q) \<and>
     (\<exists>c. cfqqs q a = Some c \<and> sort_list c \<noteq> Leaf)"

lemma init_prio_data_ok:
  assumes E: "task_nice_ioprio E < CFQ_PRIO_LISTS" and cs: "cics_ok (cics q)" "i \<in> dom (cics q)" and a: "cfqqs q a = Some c"
  shows "\<exists>c'. cfq_init_prio_data E a i q = Inr (q\<lparr>cfqqs := (cfqqs q)(a \<mapsto> c')\<rparr>) \<and> same_reqs c c' \<and>
     service_tree c' = service_tree c \<and> rb_linked c' = rb_linked c \<and> rb_key c' = rb_key c \<and>
     has On_rr c' = has On_rr c \<and> has Sync c' = has Sync c \<and> p_root c' = p_root c \<and>
     (org_ioprio c' < CFQ_PRIO_LISTS \<or> org_ioprio c' = org_ioprio c)"
proof (cases "has Prio_changed c")
  case False
  with a show ?thesis by (intro exI [of _ c]) (simp add: cfq_init_prio_data_def fun_upd_idem same_reqs_def)
next
  case True
  from cs(2) obtain ic where ic: "cics q i = Some ic" by blast
  define d where "d = prio_data E (c_ioprio ic) c"
  let ?c = "clear Prio_changed (d\<lparr>org_ioprio := ioprio d, org_ioprio_class := ioprio_class d\<rparr>)"
  have d: "ioprio d < CFQ_PRIO_LISTS" "same_reqs c d" "service_tree d = service_tree c" "rb_linked d = rb_linked c"
    "rb_key d = rb_key c" "has On_rr d = has On_rr c" "has Sync d = has Sync c" "p_root d = p_root c"
    using E cics_okD [OF cs(1) ic]
    by (simp_all add: d_def prio_data_def cic_ok_def CFQ_PRIO_LISTS_def ioprio_defs same_reqs_def ref_side_def)
      (simp_all add: clear_def has_def)
  have "same_reqs d ?c" by (simp add: same_reqs_def) (simp add: ref_side_def clear_def)
  with d(2) have "same_reqs c ?c" by (rule same_reqs_trans)
  moreover have "has f (d\<lparr>org_ioprio := x, org_ioprio_class := y\<rparr>) = has f d" for f x y by (simp add: has_def)
  ultimately show ?thesis using True a ic d
    by (intro exI [of _ ?c]) (simp add: cfq_init_prio_data_def d_def Let_def)
qed

lemma waiting_with:
  assumes "cs a = Some c" "set_tree (sort_list c') = insert x (set_tree (sort_list c))"
  shows "waiting (cs(a \<mapsto> c')) = insert x (waiting cs)"
proof (rule set_eqI)
  fix y
  have "y \<in> waiting (cs(a \<mapsto> c')) \<longleftrightarrow> y \<in> set_tree (sort_list c') \<or> (\<exists>b d. b \<noteq> a \<and> cs b = Some d \<and> y \<in> set_tree (sort_list d))"
    by (auto simp: waiting_def)
  moreover have "y \<in> waiting cs \<longleftrightarrow> y \<in> set_tree (sort_list c) \<or> (\<exists>b d. b \<noteq> a \<and> cs b = Some d \<and> y \<in> set_tree (sort_list d))"
    using assms(1) by (force simp: waiting_def)
  ultimately show "y \<in> waiting (cs(a \<mapsto> c')) \<longleftrightarrow> y \<in> insert x (waiting cs)" using assms(2) by auto
qed

text \<open>The state between the queue's new request and the counters: everything but the counters holds.\<close>

lemma arrived_counted:
  assumes ok: "sel_ok q" and a: "cfqqs q a = Some c" and new: "rq \<notin> waiting (cfqqs q)"
    and r: "rqs q rq = Some r" "rq_icq r = Some i" "i \<in> dom (cics q)"
    and q': "rr_ok q'" "cfqqs q' = (cfqqs q)(a \<mapsto> c')" "rqs q' = (rqs q)(rq \<mapsto> r\<lparr>fifo_time := n\<rparr>)"
      "queue_ok (rqs q') a c'" "set_tree (sort_list c') = insert rq (set_tree (sort_list c))" "ref_side c' = ref_side c" "has On_rr c'"
    and rest: "same_rest (q\<lparr>nr_sorted := nr_sorted q + 1, rqs := rqs q'\<rparr>) q'"
  shows "arrived (insert rq (waiting (cfqqs q))) (queue_head q) a i (q'\<lparr>rq_queued := rq_queued q' + 1\<rparr>)"
proof -
  let ?q = "q'\<lparr>rq_queued := rq_queued q' + 1\<rparr>"
  note rest = rest [unfolded same_rest_def, simplified]
  note qok = cfq_okD [OF sel_okD(1) [OF ok]]
  have w: "waiting (cfqqs ?q) = insert rq (waiting (cfqqs q))"
    using waiting_with [where cs = "cfqqs q", OF a q'(5)] q'(2) by simp
  have d: "dom (rqs q') = dom (rqs q)" using r(1) q'(3) by auto
  have leaf: "sort_list c' \<noteq> Leaf" using q'(5) by auto
  have queues: "queue_ok (rqs ?q) b e" if "cfqqs ?q b = Some e" for b e
  proof (cases "b = a")
    case True
    with that q'(2,4) show ?thesis by simp
  next
    case False
    with that q'(2) have "cfqqs q b = Some e" by simp
    from queue_ok_stamp [OF qok(2) [OF this] r(1)] q'(3) show ?thesis by simp
  qed
  have "rr_ok ?q" using q'(1) rr_ok_frame [of ?q q'] by simp
  moreover have "rq_queued ?q = int (card (waiting (cfqqs ?q)))"
    using finite_waiting [OF rr_okD(3) [OF qok(1)]] new rest qok(3) w by simp
  moreover have "nr_sorted ?q = rq_queued ?q" using rest qok(8) by simp
  moreover have "set (queue_head ?q) \<subseteq> dom (rqs ?q)" using rest qok(4) d by simp
  moreover have "b \<in> on_rr (cfqqs ?q)" if "active_queue ?q = Some b" for b
    using that rest qok(5) [of b] q'(2,7) by (auto simp: on_rr_def)
  moreover have "j \<in> dom (cics ?q)" if "active_cic ?q = Some j" for j using that rest qok(6) [of j] by simp
  moreover have "active_queue ?q = Some b" if "cfqqs ?q b = Some e" "has On_rr e" "sort_list e = Leaf" for b e
    using that rest leaf q'(2) qok(7) [of b e] by (auto split: if_splits)
  ultimately have "cfq_ok ?q" using queues unfolding cfq_ok_def by blast
  moreover have m: "map_option ref_side (cfqqs ?q x) = map_option ref_side (cfqqs q x)" for x
    using a q'(2,6) by simp
  note merge_ok_same [OF m sel_okD(2) [OF ok]] refs_ok_same [OF m sel_okD(3) [OF ok]]
  moreover have "icqs_ok ?q"
    unfolding icqs_ok_def w
  proof
    fix x assume "x \<in> insert rq (waiting (cfqqs q))"
    with sel_okD(4) [OF ok] r have "\<exists>s j. rqs q x = Some s \<and> rq_icq s = Some j \<and> j \<in> dom (cics q)"
      unfolding icqs_ok_def by blast
    then show "\<exists>s j. rqs ?q x = Some s \<and> rq_icq s = Some j \<and> j \<in> dom (cics ?q)"
      using q'(3) rest r(1) by (cases "x = rq") auto
  qed
  moreover have "cfq_slice ?q True \<noteq> 0" "cics_ok (cics ?q)" using rest sel_okD(5,7) [OF ok] by simp_all
  ultimately have "sel_ok ?q" by (simp add: sel_ok_def)
  with w leaf rest r(3) q'(2) show ?thesis by (simp add: arrived_def)
qed

lemma take_in:
  assumes L: "lib_ok L" and E: "task_nice_ioprio E < CFQ_PRIO_LISTS" and ok: "sel_ok q" and h: "held q rq a i"
    and new: "rq \<notin> waiting (cfqqs q)"
  shows "\<exists>q'. cfq_insert_request L now E rq (q\<lparr>nr_sorted := nr_sorted q + 1\<rparr>) = cfq_rq_enqueued L now E a rq q' \<and>
     arrived (insert rq (waiting (cfqqs q))) (queue_head q) a i (q'\<lparr>rq_queued := rq_queued q' + 1\<rparr>) \<and>
     (\<exists>r. rqs q' rq = Some r \<and> rq_icq r = Some i)"
proof -
  from h obtain r c where r: "rqs q rq = Some r" "priv0 r = Some a" "priv1 r = cfqg c" "rq_icq r = Some i"
    and a: "cfqqs q a = Some c" and i: "i \<in> dom (cics q)" unfolding held_def by blast
  let ?p0 = "q\<lparr>nr_sorted := nr_sorted q + 1\<rparr>"
  from init_prio_data_ok [of E ?p0 i a c] E sel_okD(7) [OF ok] i a obtain c1 where c1:
    "cfq_init_prio_data E a i ?p0 = Inr (?p0\<lparr>cfqqs := (cfqqs q)(a \<mapsto> c1)\<rparr>)" "same_reqs c c1"
    "service_tree c1 = service_tree c" "rb_linked c1 = rb_linked c" "rb_key c1 = rb_key c" "has On_rr c1 = has On_rr c"
    "has Sync c1 = has Sync c" "p_root c1 = p_root c" "org_ioprio c1 < CFQ_PRIO_LISTS \<or> org_ioprio c1 = org_ioprio c" by auto
  note same = c1(2) [unfolded same_reqs_def]
  define n where "n = unat (now + cfq_fifo_expire q (rq_sync r))"
  define rs where "rs = (rqs q)(rq \<mapsto> r\<lparr>fifo_time := n\<rparr>)"
  let ?d = "c1\<lparr>qfifo := qfifo c1 @ [rq]\<rparr>"
  define p2 where "p2 = ?p0\<lparr>cfqqs := (cfqqs q)(a \<mapsto> c1), rqs := rs\<rparr>"
  define p3 where "p3 = ?p0\<lparr>cfqqs := (cfqqs q)(a \<mapsto> ?d), rqs := rs\<rparr>"
  have hd: "has f ?d = has f c1" for f by (simp add: has_def)
  have rr3: "rr_ok p3"
  proof -
    have "rr_ok (q\<lparr>cfqqs := (cfqqs q)(a \<mapsto> ?d)\<rparr>)"
      by (rule rr_ok_queue [OF sel_okD(6) [OF ok] a]) (use same c1 hd in simp_all)
    moreover have "dom (rqs q) \<subseteq> dom rs" by (auto simp: rs_def)
    ultimately have "rr_ok (q\<lparr>cfqqs := (cfqqs q)(a \<mapsto> ?d), rqs := rs\<rparr>)"
      using rr_ok_rqs [of "q\<lparr>cfqqs := (cfqqs q)(a \<mapsto> ?d)\<rparr>" rs] by simp
    then show ?thesis using rr_ok_frame [of p3 "q\<lparr>cfqqs := (cfqqs q)(a \<mapsto> ?d), rqs := rs\<rparr>"] by (simp add: p3_def)
  qed
  have a3: "cfqqs p3 a = Some (c1\<lparr>qfifo := qfifo c1 @ [rq]\<rparr>)" by (simp add: p3_def)
  have r3: "rqs p3 rq = Some (r\<lparr>fifo_time := n\<rparr>)" "priv0 (r\<lparr>fifo_time := n\<rparr>) = Some a" "priv1 (r\<lparr>fifo_time := n\<rparr>) = cfqg c1"
    using r same by (simp_all add: p3_def rs_def)
  have qok: "queue_ok (rqs p3) a c1"
    unfolding p3_def rs_def
    using queue_ok_stamp [OF queue_ok_fields [OF cfq_okD(2) [OF sel_okD(1) [OF ok] a]] r(1), of c1 n] same c1(6) by simp
  have out: "rq \<notin> set_tree (sort_list c1)" using new a same by (auto simp: waiting_def)
  from add_rq_rb_ok [where now = now, OF L rr3 a3 qok out r3] obtain q4 c4 where add:
    "cfq_add_rq_rb L now rq p3 = Some (Inr q4)" "rr_ok q4" "cfqqs q4 = (cfqqs p3)(a \<mapsto> c4)" "queue_ok (rqs p3) a c4"
    "same_rest p3 q4" "has On_rr c4" "sort_list c4 = elv_rb_add (rb_insert_color L) (pos_of p3) rq (sort_list c1)"
    "ref_side c4 = ref_side c1" by (elim exE conjE) (rule that; assumption)
  have rqs4: "rqs q4 = rs" using add(5) by (simp add: same_rest_def p3_def)
  have "cfq_insert_request L now E rq ?p0 = cfq_rq_enqueued L now E a rq q4"
  proof -
    have u: "RQ_CFQQ rq ?p0 = Inr a" "RQ_CIC rq ?p0 = Inr i" using r by (simp_all add: RQ_CFQQ_def RQ_CIC_def)
    let ?p1 = "?p0\<lparr>cfqqs := (cfqqs q)(a \<mapsto> c1)\<rparr>"
    have v: "deref (rqs ?p1) rq = Inr r" "cfq_fifo_expire ?p1 = cfq_fifo_expire q" using r(1) by simp_all
    have w: "upd_rq rq (\<lambda>r. r\<lparr>fifo_time := unat (now + cfq_fifo_expire q (rq_sync r))\<rparr>) ?p1 = Inr p2"
      using r(1) by (simp add: p2_def rs_def n_def)
    have x: "upd_cfqq a (\<lambda>c. c\<lparr>qfifo := qfifo c @ [rq]\<rparr>) p2 = Inr p3" by (simp add: p2_def p3_def)
    show ?thesis unfolding cfq_insert_request_def u c1(1) bindO_simps v w x add(1) ..
  qed
  moreover have "arrived (insert rq (waiting (cfqqs q))) (queue_head q) a i (q4\<lparr>rq_queued := rq_queued q4 + 1\<rparr>)"
  proof (rule arrived_counted [OF ok a new r(1,4) i add(2)])
    show "cfqqs q4 = (cfqqs q)(a \<mapsto> c4)" using add(3) by (simp add: p3_def)
    show "rqs q4 = (rqs q)(rq \<mapsto> r\<lparr>fifo_time := n\<rparr>)" by (simp add: rqs4 rs_def)
    show "queue_ok (rqs q4) a c4" using add(4) by (simp add: rqs4 p3_def)
    show "set_tree (sort_list c4) = insert rq (set_tree (sort_list c))" using elv_rb_add_set [OF L] add(7) same by simp
    show "ref_side c4 = ref_side c" using add(8) same by simp
    show "same_rest (q\<lparr>nr_sorted := nr_sorted q + 1, rqs := rqs q4\<rparr>) q4"
      using add(5) by (simp add: same_rest_def p3_def rqs4)
  qed (rule add(6))
  ultimately show ?thesis using r(4) by (intro exI [of _ q4]) (simp add: rqs4 rs_def)
qed

end
