(* ===== verification/Cfq_Preempt.thy ===== *)
theory Cfq_Preempt
  imports Cfq_Arrive
begin

text \<open>
  What an arrival sets off: think times, seek history and the idle window are brought up to
  date, and the queue of the request may end the slice of the active queue.
\<close>

section \<open>Think times\<close>

text \<open>
  The number of samples is a moving average: whatever it was, it is between 32 and 256 after one
  update, so that the mean is never a division by 0.
\<close>

lemma samples_step:
  fixes s :: u64
  assumes "s \<le> 256"
  shows "unat ((7 * s + 256) div 8) = (7 * unat s + 256) div 8"
proof -
  have "unat s \<le> 256" using assms by (simp add: word_le_nat_alt)
  then have "unat (7 * s + 256) = 7 * unat s + 256" by (simp add: unat_word_ariths)
  then show ?thesis by (simp add: unat_div_distrib)
qed

lemma thinktime_ok:
  assumes "samples_ok t"
  shows "\<exists>t'. cfq_update_io_thinktime' now idle t = Inr t' \<and> samples_ok t' \<and>
     unat (ttime_samples t') = (7 * unat (ttime_samples t) + 256) div 8"
proof -
  let ?s = "(7 * ttime_samples t + 256) div 8"
  note u = samples_step [OF assms [unfolded samples_ok_def]]
  have "unat (ttime_samples t) \<le> 256" using assms by (simp add: samples_ok_def word_le_nat_alt)
  with u have "32 \<le> unat ?s" "unat ?s \<le> 256" by simp_all
  then have "?s \<noteq> 0" "?s \<le> 256" by (auto simp: word_le_nat_alt unat_eq_zero simp del: unat_div)
  with u show ?thesis by (simp add: cfq_update_io_thinktime'_def divE_def Let_def samples_ok_def)
qed

section \<open>The statistics of the queue\<close>

lemma arrivedD:
  assumes "arrived W H a i q"
  shows "sel_ok q" "waiting (cfqqs q) = W" "queue_head q = H" "i \<in> dom (cics q)"
  using assms by (simp_all add: arrived_def)

lemma arrived_busy:
  assumes "arrived W H a i q" "cfqqs q a = Some c"
  shows "sort_list c \<noteq> Leaf" "has On_rr c" "rb_linked c"
proof -
  show leaf: "sort_list c \<noteq> Leaf" using assms by (simp add: arrived_def)
  show on: "has On_rr c" by (rule queue_okD(7) [OF cfq_okD(2) [OF sel_okD(1) [OF arrivedD(1) [OF assms(1)]] assms(2)] leaf])
  then show "rb_linked c" using flags_okD [OF rr_okD(4) [OF sel_okD(6) [OF arrivedD(1) [OF assms(1)]]] assms(2)] by simp
qed

lemma arrived_queue: "arrived W H a i q \<Longrightarrow> \<exists>c. cfqqs q a = Some c"
  by (auto simp: arrived_def)

lemma arrived_same:
  "arrived W H a i q \<Longrightarrow> sel_ok q' \<Longrightarrow> cfqqs q' = cfqqs q \<Longrightarrow> queue_head q' = queue_head q \<Longrightarrow>
   dom (cics q') = dom (cics q) \<Longrightarrow> arrived W H a i q'"
  by (simp add: arrived_def)

lemma arrived_upd:
  assumes A: "arrived W H a i q" and a: "cfqqs q a = Some c" and p: "plain_change c (f c)" "ref_side (f c) = ref_side c"
  shows "\<exists>q'. upd_cfqq a f q = Inr q' \<and> arrived W H a i q' \<and> q' = q\<lparr>cfqqs := (cfqqs q)(a \<mapsto> f c)\<rparr>"
proof -
  have "sort_list (f c) \<noteq> Leaf" using p(1) arrived_busy(1) [OF A a] by (simp add: plain_change_def)
  then show ?thesis
    using sel_ok_plain [OF arrivedD(1) [OF A] a p] cfq_ok_plain(2) [OF sel_okD(1) [OF arrivedD(1) [OF A]] a p(1)] A a
    by (simp add: arrived_def)
qed

lemma arrived_group:
  assumes A: "arrived W H a i q" and a: "cfqqs q a = Some c"
  obtains g G where "cfqg c = Some g" "cfqgs q g = Some G"
  using trees_okD(1) [OF rr_okD(2) [OF sel_okD(6) [OF arrivedD(1) [OF A]]] a] by (auto simp: placed_def)

lemma sync_thinktime_ok:
  assumes A: "arrived W H a i q" and a: "cfqqs q a = Some c" and n: "service_tree c = Some n"
  shows "\<exists>q'. bindE (deref (cics q) i) (\<lambda>ic.
              bindE (cfq_update_io_thinktime' now (cfq_slice_idle q) (c_ttime ic)) (\<lambda>t.
              bindE (upd_cic i (\<lambda>ic. ic\<lparr>c_ttime := t\<rparr>) q) (\<lambda>q.
                  bindE (get_st n q) (\<lambda>st.
                  bindE (cfq_update_io_thinktime' now (cfq_slice_idle q) (st_ttime st)) (\<lambda>t.
                    set_st n (st\<lparr>st_ttime := t\<rparr>) q))))) = Inr q' \<and> arrived W H a i q' \<and> cfqqs q' = cfqqs q"
proof -
  note ok = arrivedD(1) [OF A]
  from arrivedD(4) [OF A] obtain ic where ic: "cics q i = Some ic" by blast
  note cic = cics_okD [OF sel_okD(7) [OF ok] ic, unfolded cic_ok_def]
  from thinktime_ok [of "c_ttime ic" now "cfq_slice_idle q"] cic obtain t where t:
    "cfq_update_io_thinktime' now (cfq_slice_idle q) (c_ttime ic) = Inr t" "samples_ok t" by blast
  let ?q1 = "q\<lparr>cics := (cics q)(i \<mapsto> ic\<lparr>c_ttime := t\<rparr>)\<rparr>"
  have ok1: "sel_ok ?q1" by (rule sel_ok_cics [OF ok ic]) (simp add: cic_ok_def t(2))
  from placed_linked [OF trees_okD(1) [OF rr_okD(2) [OF sel_okD(6) [OF ok]] a] arrived_busy(3) [OF A a]] n obtain g cls ty G where
    g: "n = st_for g cls ty" "cfqgs q g = Some G" by auto
  have G1: "cfqgs ?q1 g = Some G" using g(2) by simp
  have "samples_ok (st_ttime (tree_of G cls ty))"
    using trees_okD(2) [OF rr_okD(2) [OF sel_okD(6) [OF ok]] g(2), of cls ty] by (simp add: st_ok_def)
  from thinktime_ok [OF this, of now "cfq_slice_idle q"] obtain u where u:
    "cfq_update_io_thinktime' now (cfq_slice_idle q) (st_ttime (tree_of G cls ty)) = Inr u" "samples_ok u" by blast
  let ?q2 = "?q1\<lparr>cfqgs := (cfqgs ?q1)(g \<mapsto> put_tree cls ty ((tree_of G cls ty)\<lparr>st_ttime := u\<rparr>) G)\<rparr>"
  have "arrived W H a i ?q2"
  proof (rule arrived_same [OF A])
    show "sel_ok ?q2" by (rule sel_ok_ttime [OF ok1 G1 u(2)])
    show "dom (cics ?q2) = dom (cics q)" using ic by auto
  qed simp_all
  then show ?thesis
    using ic t(1) u(1) by (simp add: g(1) get_st_for [OF G1] set_st_for [OF G1])
qed

lemma update_io_thinktime_ok:
  assumes A: "arrived W H a i q"
  shows "\<exists>q'. cfq_update_io_thinktime now a i q = Inr q' \<and> arrived W H a i q' \<and> cfqqs q' = cfqqs q"
proof -
  from arrived_queue [OF A] obtain c where a: "cfqqs q a = Some c" by blast
  from placed_linked [OF trees_okD(1) [OF rr_okD(2) [OF sel_okD(6) [OF arrivedD(1) [OF A]]] a] arrived_busy(3) [OF A a]]
  obtain n where n: "service_tree c = Some n" by blast
  obtain q1 where q1: "(if has Sync c then
              bindE (deref (cics q) i) (\<lambda>ic.
              bindE (cfq_update_io_thinktime' now (cfq_slice_idle q) (c_ttime ic)) (\<lambda>t.
              bindE (upd_cic i (\<lambda>ic. ic\<lparr>c_ttime := t\<rparr>) q) (\<lambda>q.
                  bindE (get_st n q) (\<lambda>st.
                  bindE (cfq_update_io_thinktime' now (cfq_slice_idle q) (st_ttime st)) (\<lambda>t.
                    set_st n (st\<lparr>st_ttime := t\<rparr>) q)))))
            else Inr q) = Inr q1" "arrived W H a i q1" "cfqqs q1 = cfqqs q"
  proof (cases "has Sync c")
    case True
    from sync_thinktime_ok [OF A a n, of now] that show thesis unfolding if_P [OF True] by blast
  next
    case False
    with A that [of q] show thesis by simp
  qed
  have a1: "cfqqs q1 a = Some c" using a q1(3) by simp
  from arrived_group [OF q1(2) a1] obtain g G where g: "cfqg c = Some g" "cfqgs q1 g = Some G" .
  note ok1 = arrivedD(1) [OF q1(2)]
  have "samples_ok (g_ttime G)" using rr_okD(5) [OF sel_okD(6) [OF ok1]] g(2) by (simp add: nr_ok_def)
  from thinktime_ok [OF this, of now "cfq_group_idle q1"] obtain t where t:
    "cfq_update_io_thinktime' now (cfq_group_idle q1) (g_ttime G) = Inr t" "samples_ok t" by blast
  let ?q = "q1\<lparr>cfqgs := (cfqgs q1)(g \<mapsto> G\<lparr>g_ttime := t\<rparr>)\<rparr>"
  have "plain_group G (G\<lparr>g_ttime := t\<rparr>)" using t(2) by (simp add: plain_group_def weight_room_def)
  then have "arrived W H a i ?q" using arrived_same [OF q1(2) sel_ok_group [OF ok1 g(2)]] by simp
  moreover have "cfq_update_io_thinktime now a i q = Inr ?q"
  proof -
    have "deref_ptr (cfqgs q1) (cfqg c) = Inr G" using g by simp
    moreover have "upd_cfqg (the (cfqg c)) (\<lambda>g. g\<lparr>g_ttime := t\<rparr>) q1 = Inr ?q" using g by simp
    ultimately show ?thesis
      unfolding cfq_update_io_thinktime_def deref_Some [where m = "cfqqs q", OF a] bindE.simps n option.case q1(1)
      by (simp add: t(1))
  qed
  ultimately show ?thesis using q1(3) by simp
qed

lemma update_idle_window_ok:
  assumes A: "arrived W H a i q"
  shows "\<exists>q'. cfq_update_idle_window a i q = Inr q' \<and> arrived W H a i q'"
proof -
  from arrived_queue [OF A] obtain c where a: "cfqqs q a = Some c" by blast
  from arrivedD(4) [OF A] obtain ic where ic: "cics q i = Some ic" by blast
  note qok = cfq_okD(2) [OF sel_okD(1) [OF arrivedD(1) [OF A]] a]
  from queue_okD(3) [OF qok] arrived_busy(1) [OF A a] obtain x where x: "next_rq c = Some x" by auto
  from queue_okD(5) [OF qok queue_okD(4) [OF qok x]] obtain r where r: "rqs q x = Some r" by blast
  have p: "plain_change c d \<and> ref_side d = ref_side c"
    if "d \<in> {c, mark Deep c, mark Idle_window c, clear Idle_window c, mark Idle_window (mark Deep c), clear Idle_window (mark Deep c)}" for d
    using that by (auto simp: plain_change_def ref_side_def) (simp_all add: mark_def clear_def)
  show ?thesis
  proof (cases "\<not> has Sync c \<or> cfq_class_idle c")
    case True
    with A a show ?thesis by (intro exI [of _ q]) (auto simp: cfq_update_idle_window_def)
  next
    case False
    define d where "d = (if queued c False + queued c True \<ge> 4 then mark Deep c else c)"
    have "next_rq d = Some x" using x by (simp add: d_def)
    then obtain e where "cfq_update_idle_window a i q = upd_cfqq a (\<lambda>_. e) q" "e \<in> {d, mark Idle_window d, clear Idle_window d}"
      using False a r ic unfolding cfq_update_idle_window_def d_def [symmetric] Let_def by (auto simp: Let_def d_def [symmetric])
    moreover have "e \<in> {d, mark Idle_window d, clear Idle_window d} \<Longrightarrow> plain_change c e \<and> ref_side e = ref_side c" for e
      using p [of e] by (auto simp: d_def split: if_splits)
    ultimately show ?thesis using arrived_upd [OF A a, of "\<lambda>_. e"] by auto
  qed
qed

section \<open>Preemption\<close>

lemma should_preempt_ok:
  assumes ok: "sel_ok q" and b: "cfqqs q b = Some new"
  shows "\<exists>v. cfq_should_preempt now E b r q = Inr v \<and> (v \<longrightarrow> active_queue q \<noteq> None)"
proof (cases "active_queue q")
  case None
  then show ?thesis by (intro exI [of _ False]) (simp add: cfq_should_preempt_def)
next
  case (Some a)
  note on = cfq_okD(5) [OF sel_okD(1) [OF ok] Some]
  then obtain c where a: "cfqqs q a = Some c" by (auto simp: on_rr_def)
  note trees = rr_okD(2) [OF sel_okD(6) [OF ok]]
  from trees_okD(1) [OF trees a] trees_okD(1) [OF trees b] obtain g h where g: "cfqg c = Some g" "cfqg new = Some h"
    by (auto simp: placed_def)
  from should_idle_ok [OF sel_okD(6) [OF ok] on] obtain i where "cfq_should_idle a q = Inr i" by blast
  moreover have "\<exists>v. v" "\<exists>v. \<not> v" by blast+
  ultimately show ?thesis using a b g unfolding cfq_should_preempt_def Some by simp
qed

text \<open>A queue that is placed anew holds the same requests.\<close>

lemma sel_ok_replaced:
  assumes ok: "sel_ok q" and b: "cfqqs q b = Some c" and q': "rr_ok q'" "cfqqs q' = (cfqqs q)(b \<mapsto> c')"
    and c': "same_reqs c c'" "qflags c' = qflags c" and rest: "same_rest q q'"
  shows "sel_ok q'" "waiting (cfqqs q') = waiting (cfqqs q)"
proof -
  note f = c'(1) [unfolded same_reqs_def]
  have h: "has f c' = has f c" for f using c'(2) by (simp add: has_def)
  note r = rest [unfolded same_rest_def]
  note qok = cfq_okD [OF sel_okD(1) [OF ok]]
  show w: "waiting (cfqqs q') = waiting (cfqqs q)"
    unfolding q'(2) by (rule waiting_upd_same [where cs = "cfqqs q", OF b]) (use f in simp)
  have "queue_ok (rqs q) b c'" by (rule queue_ok_fields [OF qok(2) [OF b]]) (use f h in simp_all)
  then have "queue_ok (rqs q') x d" if "cfqqs q' x = Some d" for x d
    using that qok(2) q'(2) r by (auto split: if_splits)
  moreover have "on_rr (cfqqs q') = on_rr (cfqqs q)"
    unfolding q'(2) by (rule rr_sets_same(1) [where cs = "cfqqs q", OF b h h]) (use f in simp)
  moreover have "active_queue q' = Some x" if "cfqqs q' x = Some d" "has On_rr d" "sort_list d = Leaf" for x d
    using that qok(7) b f h q'(2) r by (auto split: if_splits)
  ultimately have "cfq_ok q'" using qok(3-6,8) q'(1) w r by (simp add: cfq_ok_def)
  moreover have "keeps q q'" using b f w r q'(2) by (simp add: keeps_def)
  ultimately show "sel_ok q'" using sel_ok_keeps [OF ok] by blast
qed

lemma preempt_ok:
  assumes L: "lib_ok L" and A: "arrived W H b i q" and act: "active_queue q = Some a" "a \<noteq> b"
  shows "\<exists>q'. cfq_preempt_queue L now b q = Some (Inr q') \<and> arrived W H b i q'"
proof -
  note ok = arrivedD(1) [OF A]
  from cfq_okD(5) [OF sel_okD(1) [OF ok] act(1)] obtain c where a: "cfqqs q a = Some c" by (auto simp: on_rr_def)
  from arrived_queue [OF A] obtain new where b: "cfqqs q b = Some new" by blast
  from slice_expired'_ok [OF L sel_okD(1) [OF ok] act(1), of now True] obtain q1 where e:
    "cfq_slice_expired' L now a True q = Some (Inr q1)" "cfq_ok q1" "waiting (cfqqs q1) = waiting (cfqqs q)"
    "queue_head q1 = queue_head q" "keeps q q1" "\<And>x. x \<noteq> a \<Longrightarrow> cfqqs q1 x = cfqqs q x" by blast
  have b1: "cfqqs q1 b = Some new" using e(6) [of b] act(2) b by simp
  have A1: "arrived W H b i q1"
    using A e(3-5) b b1 sel_ok_keeps [OF ok e(5,2)] by (simp add: arrived_def keeps_def)
  from arrived_group [OF A1 b1] obtain g G where g: "cfqg new = Some g" "cfqgs q1 g = Some G" .
  define q2 where "q2 = (if cfqq_type c \<noteq> cfqq_type new
    then q1\<lparr>cfqgs := (cfqgs q1)(g \<mapsto> G\<lparr>saved_wl_slice := 0\<rparr>)\<rparr> else q1)"
  have "plain_group G (G\<lparr>saved_wl_slice := 0\<rparr>)" by (simp add: plain_group_def weight_room_def)
  then have A2: "arrived W H b i q2"
    using A1 arrived_same [OF A1 sel_ok_group [OF arrivedD(1) [OF A1] g(2)]] by (simp add: q2_def)
  have b2: "cfqqs q2 b = Some new" using b1 by (simp add: q2_def)
  note on = arrived_busy(2) [OF A2 b2]
  from place_ok [OF L sel_okD(6) [OF arrivedD(1) [OF A2]] b2 on, of now True] obtain q3 c3 where p:
    "cfq_service_tree_add L now b True q2 = Some (Inr q3)" "rr_ok q3" "replaced new c3"
    "q3 = q2\<lparr>cfqqs := (cfqqs q2)(b \<mapsto> c3), cfqgs := cfqgs q3\<rparr>" by (elim exE conjE) (rule that; assumption)
  have cs3: "cfqqs q3 = (cfqqs q2)(b \<mapsto> c3)" and rest: "same_rest q2 q3" unfolding same_rest_def by (subst p(4), simp)+
  note f = replaced_same [OF p(3)]
  have ok3: "sel_ok q3" "waiting (cfqqs q3) = waiting (cfqqs q2)"
    using sel_ok_replaced [OF arrivedD(1) [OF A2] b2 p(2) cs3 _ _ rest] f by simp_all
  have b3: "cfqqs q3 b = Some c3" by (simp add: cs3)
  have A3: "arrived W H b i q3"
    using A2 ok3 rest f b2 b3 by (simp add: arrived_def same_rest_def same_reqs_def)
  let ?f = "\<lambda>c. mark Slice_new (c\<lparr>slice_end := 0\<rparr>)"
  have "plain_change c3 (?f c3)" "ref_side (?f c3) = ref_side c3"
    by (simp_all add: plain_change_def ref_side_def) (simp_all add: has_def mark_def)
  from arrived_upd [where f = ?f, OF A3 b3 this] obtain q4 where u: "upd_cfqq b ?f q3 = Inr q4" "arrived W H b i q4" by blast
  have "cfq_preempt_queue L now b q = Some (Inr q4)"
  proof -
    have d: "deref_ptr (cfqqs q) (active_queue q) = Inr c" using act(1) a by simp
    have x: "cfq_slice_expired L now True q = Some (Inr q1)" using act(1) e(1) by (simp add: cfq_slice_expired_def)
    have y: "(if cfqq_type c \<noteq> cfqq_type new then (case cfqg new of None \<Rightarrow> Inl NullDeref
        | Some g \<Rightarrow> upd_cfqg g (\<lambda>g. g\<lparr>saved_wl_slice := 0\<rparr>) q1) else Inr q1) = Inr q2"
      using g by (simp add: q2_def)
    have "\<not> \<not> has On_rr new" using on by simp
    then show ?thesis
      unfolding cfq_preempt_queue_def d bindO_simps Let_def x deref_Some [where m = "cfqqs q1", OF b1] y by (simp add: p(1) u(1))
  qed
  with u(2) show ?thesis by blast
qed

section \<open>The whole arrival\<close>

text \<open>The five updates of \<open>cfq_rq_enqueued\<close> on the queue of the request.\<close>

lemma statistics_ok:
  assumes A: "arrived W H a i (q\<lparr>rq_queued := rq_queued q + 1\<rparr>)"
  shows "\<exists>q'. bindE (upd_cfqq a (\<lambda>c. if REQ_PRIO \<in> cmd_flags r then c\<lparr>prio_pending := prio_pending c + 1\<rparr> else c)
         (q\<lparr>rq_queued := rq_queued q + 1\<rparr>)) (\<lambda>q.
       bindE (cfq_update_io_thinktime now a i q) (\<lambda>q.
       bindE (upd_cfqq a (cfq_update_io_seektime (nonrot q) r) q) (\<lambda>q.
       bindE (cfq_update_idle_window a i q)
         (upd_cfqq a (\<lambda>c. c\<lparr>last_request_pos := rq_pos r + rq_sectors r\<rparr>))))) = Inr q' \<and> arrived W H a i q'"
proof -
  let ?f = "\<lambda>c :: cfq_queue. if REQ_PRIO \<in> cmd_flags r then c\<lparr>prio_pending := prio_pending c + 1\<rparr> else c"
  have upd: "\<exists>q'. upd_cfqq a f p = Inr q' \<and> arrived W H a i q'"
    if "arrived W H a i p" "\<And>c. plain_change c (f c) \<and> ref_side (f c) = ref_side c" for p :: "'a cfq_data_scheme" and f
    using arrived_queue [OF that(1)] arrived_upd [OF that(1), where f = f] that(2) by blast
  have "plain_change c (?f c) \<and> ref_side (?f c) = ref_side c" for c by (simp add: plain_change_def ref_side_def has_def)
  from upd [OF A this] obtain q1 where 1: "upd_cfqq a ?f (q\<lparr>rq_queued := rq_queued q + 1\<rparr>) = Inr q1" "arrived W H a i q1" by blast
  from update_io_thinktime_ok [OF 1(2), of now] obtain q2 where 2: "cfq_update_io_thinktime now a i q1 = Inr q2" "arrived W H a i q2" by blast
  have "plain_change c (cfq_update_io_seektime s r c) \<and> ref_side (cfq_update_io_seektime s r c) = ref_side c" for c s
    by (simp add: cfq_update_io_seektime_def plain_change_def ref_side_def has_def)
  from upd [OF 2(2) this [of _ "nonrot q2"]] obtain q3 where 3: "upd_cfqq a (cfq_update_io_seektime (nonrot q2) r) q2 = Inr q3" "arrived W H a i q3" by blast
  from update_idle_window_ok [OF 3(2)] obtain q4 where 4: "cfq_update_idle_window a i q3 = Inr q4" "arrived W H a i q4" by blast
  let ?g = "\<lambda>c :: cfq_queue. c\<lparr>last_request_pos := rq_pos r + rq_sectors r\<rparr>"
  have "plain_change c (?g c) \<and> ref_side (?g c) = ref_side c" for c by (simp add: plain_change_def ref_side_def has_def)
  from upd [OF 4(2) this] obtain q5 where 5: "upd_cfqq a ?g q4 = Inr q5" "arrived W H a i q5" by blast
  show ?thesis unfolding 1(1) bindE.simps 2(1) 3(1) 4(1) 5(1) using 5(2) by blast
qed

lemma arrived_frame:
  "arrived W H a i q \<Longrightarrow> arrived W H a i (q\<lparr>idle_timer := t\<rparr>)" "arrived W H a i q \<Longrightarrow> arrived W H a i (blk_run_queue q)"
  by (rule arrived_same; simp add: blk_run_queue_def sel_ok_frame [OF arrivedD(1)] same_rest_def)+

lemma rq_enqueued_ok:
  assumes L: "lib_ok L" and A: "arrived W H a i (q\<lparr>rq_queued := rq_queued q + 1\<rparr>)" and r: "rqs q rq = Some r" "rq_icq r = Some i"
  shows "\<exists>q'. cfq_rq_enqueued L now E a rq q = Some (Inr q') \<and> arrived W H a i q'"
proof -
  from statistics_ok [OF A, of r now] obtain q1 where s: "bindE (upd_cfqq a (\<lambda>c. if REQ_PRIO \<in> cmd_flags r then c\<lparr>prio_pending := prio_pending c + 1\<rparr> else c)
         (q\<lparr>rq_queued := rq_queued q + 1\<rparr>)) (\<lambda>q.
       bindE (cfq_update_io_thinktime now a i q) (\<lambda>q.
       bindE (upd_cfqq a (cfq_update_io_seektime (nonrot q) r) q) (\<lambda>q.
       bindE (cfq_update_idle_window a i q)
         (upd_cfqq a (\<lambda>c. c\<lparr>last_request_pos := rq_pos r + rq_sectors r\<rparr>))))) = Inr q1" "arrived W H a i q1" by blast
  from arrived_queue [OF s(2)] obtain c where a: "cfqqs q1 a = Some c" by blast
  have icq: "RQ_CIC rq q = Inr i" using r by (simp add: RQ_CIC_def)
  note eq = cfq_rq_enqueued_def icq bindO_simps deref_Some [where m = "rqs q", OF r(1)] s(1) deref_Some [where m = "cfqqs q1", OF a]
  have p: "plain_change c (clear Wait_request c)" "ref_side (clear Wait_request c) = ref_side c"
    "plain_change c (mark Must_dispatch c)" "ref_side (mark Must_dispatch c) = ref_side c"
    by (simp_all add: plain_change_def) (simp_all add: ref_side_def mark_def clear_def)
  show ?thesis
  proof (cases "active_queue q1 = Some a")
    case True
    consider "\<not> has Wait_request c" | "has Wait_request c" "blk_rq_bytes r > page_size E \<or> busy_queues q1 > 1"
      | "has Wait_request c" "\<not> (blk_rq_bytes r > page_size E \<or> busy_queues q1 > 1)" by blast
    then show ?thesis
    proof cases
      case 1
      with True s(2) show ?thesis unfolding eq by simp
    next
      case 2
      have A1: "arrived W H a i (cfq_del_timer q1)" using arrived_frame(1) [OF s(2)] by (simp add: cfq_del_timer_def)
      have "cfqqs (cfq_del_timer q1) a = Some c" using a by (simp add: cfq_del_timer_def)
      from arrived_upd [where f = "clear Wait_request", OF A1 this p(1,2)] obtain q2 where
        "upd_cfqq a (clear Wait_request) (cfq_del_timer q1) = Inr q2" "arrived W H a i q2" by auto
      with True 2 arrived_frame(2) [OF this(2)] show ?thesis unfolding eq by simp
    next
      case 3
      from arrived_upd [where f = "mark Must_dispatch", OF s(2) a p(3,4)] obtain q2 where
        "upd_cfqq a (mark Must_dispatch) q1 = Inr q2" "arrived W H a i q2" by auto
      with True 3 show ?thesis unfolding eq by simp
    qed
  next
    case False
    from should_preempt_ok [OF arrivedD(1) [OF s(2)] a, of now E r] obtain v where v: "cfq_should_preempt now E a r q1 = Inr v"
      "v \<longrightarrow> active_queue q1 \<noteq> None" by blast
    show ?thesis
    proof (cases v)
      case True
      with v(2) obtain b where "active_queue q1 = Some b" by auto
      with preempt_ok [OF L s(2) this, of now] False obtain q2 where
        "cfq_preempt_queue L now a q1 = Some (Inr q2)" "arrived W H a i q2" by auto
      with False True v(1) arrived_frame(2) [OF this(2)] show ?thesis unfolding eq by simp
    next
      case False': False
      with False v(1) s(2) show ?thesis unfolding eq by simp
    qed
  qed
qed

lemma insert_request_ok:
  assumes "lib_ok L" "task_nice_ioprio E < CFQ_PRIO_LISTS" "sel_ok q" "held q rq a i" "rq \<notin> waiting (cfqqs q)"
  shows "\<exists>q'. cfq_insert_request L now E rq (q\<lparr>nr_sorted := nr_sorted q + 1\<rparr>) = Some (Inr q') \<and> sel_ok q' \<and>
     waiting (cfqqs q') = insert rq (waiting (cfqqs q)) \<and> queue_head q' = queue_head q"
proof -
  from take_in [OF assms, of now] obtain p r where p:
    "cfq_insert_request L now E rq (q\<lparr>nr_sorted := nr_sorted q + 1\<rparr>) = cfq_rq_enqueued L now E a rq p"
    "arrived (insert rq (waiting (cfqqs q))) (queue_head q) a i (p\<lparr>rq_queued := rq_queued p + 1\<rparr>)"
    "rqs p rq = Some r" "rq_icq r = Some i" by blast
  from rq_enqueued_ok [OF assms(1) p(2-4), of now E] obtain q' where
    "cfq_rq_enqueued L now E a rq p = Some (Inr q')" "arrived (insert rq (waiting (cfqqs q))) (queue_head q) a i q'" by blast
  with p(1) show ?thesis by (intro exI [of _ q']) (simp add: arrived_def)
qed

section \<open>Property\<close>

text \<open>C5: The arrival of a request at CFQ: the insertion never faults, whether the queue is new on the
  list of busy queues or not and whether it preempts the active queue or not; exactly this request is
  waiting in addition, the dispatch list is as before, and all invariants hold again with the core's count.\<close>

theorem cfq_insert:
  assumes "lib_ok L" "task_nice_ioprio E < CFQ_PRIO_LISTS" "sel_ok q" "held q rq a i" "rq \<notin> waiting (cfqqs q)"
  shows "\<exists>q'. cfq_insert_request L now E rq (q\<lparr>nr_sorted := nr_sorted q + 1\<rparr>) = Some (Inr q') \<and> sel_ok q' \<and>
     waiting (cfqqs q') = insert rq (waiting (cfqqs q)) \<and> queue_head q' = queue_head q"
  by (rule insert_request_ok [OF assms])

definition env_example :: cfq_env where
  "env_example = \<lparr>env_pid = 7, task_nice_ioprio = 4, task_nice_ioclass = 2, blkg_lookup = Some 1, css_serial_nr = 1,
     cgroup_is_descendant = (=), alloc_cfqq = (\<lambda>_. None), page_size = 4096\<rparr>"

lemma env_example_prio: "task_nice_ioprio env_example < CFQ_PRIO_LISTS"
  by (simp add: env_example_def CFQ_PRIO_LISTS_def ioprio_defs)

lemma drain_example_held: "held drain_example 3 5 9"
  by (simp add: held_def) (simp add: drain_example_def drain_queue_def)

theorem cfq_insert_witness:
  "\<exists>q'. cfq_insert_request lib_example 9000000 env_example 3 (drain_example\<lparr>nr_sorted := nr_sorted drain_example + 1\<rparr>) =
       Some (Inr q') \<and> sel_ok q' \<and> waiting (cfqqs q') = {1, 2, 3}"
  using cfq_insert [OF lib_example_ok env_example_prio drain_example_sel drain_example_held, of 9000000]
  by (auto simp: drain_example_waiting insert_commute)

end
