(* ===== verification/Cfq_Complete.thy ===== *)
theory Cfq_Complete
  imports Cfq_Preempt
begin

text \<open>
  A request completes, or the idle timer fires: the books of the driver, the end times, the
  slice of the active queue and the timer change, and every invariant is kept.
\<close>

section \<open>Calm steps\<close>

text \<open>A step that moves no request, makes and frees nothing, and leaves the active queue active.\<close>

definition calm :: "'a cfq_data_scheme \<Rightarrow> 'a cfq_data_scheme \<Rightarrow> bool" where
  "calm q q' \<longleftrightarrow> sel_ok q' \<and> waiting (cfqqs q') = waiting (cfqqs q) \<and> dom (cfqqs q') = dom (cfqqs q) \<and>
     dom (cics q') = dom (cics q) \<and> rqs q' = rqs q \<and> queue_head q' = queue_head q \<and> active_queue q' = active_queue q"

lemma calm_refl: "sel_ok q \<Longrightarrow> calm q q"
  by (simp add: calm_def)

lemma calm_trans: "calm p q \<Longrightarrow> calm q r \<Longrightarrow> calm p r"
  by (simp add: calm_def)

lemma calmD: "calm q q' \<Longrightarrow> sel_ok q'"
  by (simp add: calm_def)

lemma calm_queue: "calm q q' \<Longrightarrow> a \<in> dom (cfqqs q) \<Longrightarrow> \<exists>c. cfqqs q' a = Some c"
  unfolding calm_def by blast

lemma calm_rest: "sel_ok q' \<Longrightarrow> cfqqs q' = cfqqs q \<Longrightarrow> same_rest q q' \<Longrightarrow> calm q q'"
  by (simp add: calm_def same_rest_def)

lemma calm_frame:
  assumes "sel_ok q" "cfqqs q' = cfqqs q" "cfqgs q' = cfqgs q" "grp_service_tree q' = grp_service_tree q"
    "busy_queues q' = busy_queues q" "busy_sync_queues q' = busy_sync_queues q" "prio_trees q' = prio_trees q"
    "same_rest q q'"
  shows "calm q q'"
  by (rule calm_rest [OF sel_ok_frame [OF assms] assms(2,8)])

lemma calm_upd:
  assumes ok: "sel_ok q" and a: "cfqqs q a = Some c" and p: "plain_change c (f c)" "ref_side (f c) = ref_side c"
  obtains q' where "upd_cfqq a f q = Inr q'" "calm q q'" "cfqqs q' = (cfqqs q)(a \<mapsto> f c)" "cfqgs q' = cfqgs q"
proof -
  let ?q = "q\<lparr>cfqqs := (cfqqs q)(a \<mapsto> f c)\<rparr>"
  have "dom (cfqqs ?q) = dom (cfqqs q)" using a by auto
  then have "calm q ?q"
    using sel_ok_plain [OF ok a p] cfq_ok_plain(2) [OF sel_okD(1) [OF ok] a p(1)] by (simp add: calm_def)
  then show thesis by (intro that [of ?q]) (simp_all add: a)
qed

lemma calm_group:
  assumes ok: "sel_ok q" and g: "cfqgs q g = Some G" and p: "plain_group G (f G)"
  obtains q' where "upd_cfqg g f q = Inr q'" "calm q q'" "cfqqs q' = cfqqs q" "cics q' = cics q"
proof -
  let ?q = "q\<lparr>cfqgs := (cfqgs q)(g \<mapsto> f G)\<rparr>"
  have "calm q ?q" by (rule calm_rest [OF sel_ok_group [OF ok g p]]) (simp_all add: same_rest_def)
  then show thesis by (intro that [of ?q]) (simp_all add: g)
qed

lemma calm_cic:
  assumes ok: "sel_ok q" and i: "cics q i = Some ic" "cic_ok ic \<Longrightarrow> cic_ok (f ic)"
  obtains q' where "upd_cic i f q = Inr q'" "calm q q'" "cfqqs q' = cfqqs q" "cfqgs q' = cfqgs q"
proof -
  let ?q = "q\<lparr>cics := (cics q)(i \<mapsto> f ic)\<rparr>"
  have "dom (cics ?q) = dom (cics q)" using i(1) by auto
  then have "calm q ?q" using sel_ok_cics [OF ok i] by (simp add: calm_def)
  then show thesis by (intro that [of ?q]) (simp_all add: i(1))
qed

lemma queue_group:
  assumes "sel_ok q" "cfqqs q a = Some c"
  obtains g G where "cfqg c = Some g" "cfqgs q g = Some G"
  using trees_okD(1) [OF rr_okD(2) [OF sel_okD(6) [OF assms(1)]] assms(2)] by (auto simp: placed_def)

text \<open>The tree a busy queue is on, or any tree of a live group.\<close>

lemma calm_tree:
  assumes ok: "sel_ok q" and G: "cfqgs q g = Some G" and n: "n = st_for g cls ty"
  obtains st q' where "get_st n q = Inr st" "set_st n (st\<lparr>st_ttime := (st_ttime st)\<lparr>last_end_request := t\<rparr>\<rparr>) q = Inr q'"
    "calm q q'" "cfqqs q' = cfqqs q"
proof -
  let ?st = "tree_of G cls ty"
  have "samples_ok (st_ttime ?st)"
    using trees_okD(2) [OF rr_okD(2) [OF sel_okD(6) [OF ok]] G, of cls ty] by (simp add: st_ok_def)
  then have s: "samples_ok ((st_ttime ?st)\<lparr>last_end_request := t\<rparr>)" by (simp add: samples_ok_def)
  let ?q = "q\<lparr>cfqgs := (cfqgs q)(g \<mapsto> put_tree cls ty (?st\<lparr>st_ttime := (st_ttime ?st)\<lparr>last_end_request := t\<rparr>\<rparr>) G)\<rparr>"
  have "calm q ?q" by (rule calm_rest [OF sel_ok_ttime [OF ok G s]]) (simp_all add: same_rest_def)
  then show thesis by (intro that [of ?st ?q]) (simp_all add: n get_st_for [OF G] set_st_for [OF G])
qed

lemma busy_tree:
  assumes ok: "sel_ok q" and a: "cfqqs q a = Some c" "has On_rr c"
  obtains g cls ty G where "service_tree c = Some (st_for g cls ty)" "cfqgs q g = Some G"
proof -
  have "rb_linked c" using flags_okD [OF rr_okD(4) [OF sel_okD(6) [OF ok]] a(1)] a(2) by simp
  from placed_linked [OF trees_okD(1) [OF rr_okD(2) [OF sel_okD(6) [OF ok]] a(1)] this] that show thesis by blast
qed

section \<open>Command queueing\<close>

lemma update_hw_tag_shape:
  assumes ok: "sel_ok q"
  defines "p \<equiv> if rq_in_driver q > hw_tag_est_depth q then q\<lparr>hw_tag_est_depth := rq_in_driver q\<rparr> else q"
  obtains n h where "cfq_update_hw_tag q = Inr (p\<lparr>hw_tag_samples := n, hw_tag := h\<rparr>)"
    "h = hw_tag q \<or> hw_tag q \<noteq> 1 \<and> 50 \<le> hw_tag_samples q \<and> h = (if CFQ_HW_QUEUE_MIN \<le> hw_tag_est_depth p then 1 else 0)"
proof -
  have f: "cfqqs p = cfqqs q" "active_queue p = active_queue q" "hw_tag p = hw_tag q" "hw_tag_samples p = hw_tag_samples q"
    by (simp_all add: p_def)
  have "\<exists>b. (case active_queue p of None \<Rightarrow> Inr False
      | Some a \<Rightarrow> bindE (deref (cfqqs p) a) (\<lambda>c.
          Inr (has Idle_window c \<and> dispatched c + queued c False + queued c True < CFQ_HW_QUEUE_MIN \<and>
               rq_in_driver p < CFQ_HW_QUEUE_MIN))) = Inr b"
  proof (cases "active_queue p")
    case (Some a)
    then have "active_queue q = Some a" by (simp add: f)
    from cfq_okD(5) [OF sel_okD(1) [OF ok] this] obtain c where "cfqqs p a = Some c" by (auto simp: on_rr_def f)
    with Some show ?thesis by simp
  qed (auto intro: exI [of _ False])
  then obtain b where b: "(case active_queue p of None \<Rightarrow> Inr False
      | Some a \<Rightarrow> bindE (deref (cfqqs p) a) (\<lambda>c.
          Inr (has Idle_window c \<and> dispatched c + queued c False + queued c True < CFQ_HW_QUEUE_MIN \<and>
               rq_in_driver p < CFQ_HW_QUEUE_MIN))) = Inr b" by blast
  note eq = cfq_update_hw_tag_def p_def [symmetric] Let_def b bindE.simps
  show thesis
  proof (cases "hw_tag q = 1 \<or> rq_queued p \<le> CFQ_HW_QUEUE_MIN \<and> rq_in_driver p \<le> CFQ_HW_QUEUE_MIN \<or> b")
    case True
    with f(3) have "cfq_update_hw_tag q = Inr p" unfolding eq by auto
    with that [where n = "hw_tag_samples p" and h = "hw_tag p"] f(3) show thesis by simp
  next
    case False
    show thesis
    proof (cases "hw_tag_samples q < 50")
      case True
      with False f(3,4) have "cfq_update_hw_tag q = Inr (p\<lparr>hw_tag_samples := hw_tag_samples q + 1\<rparr>)" unfolding eq by auto
      with that [where n = "hw_tag_samples q + 1" and h = "hw_tag p"] f(3) show thesis by simp
    next
      case False': False
      with False f(3,4) have "cfq_update_hw_tag q = Inr (p\<lparr>hw_tag_samples := hw_tag_samples q + 1,
          hw_tag := (if CFQ_HW_QUEUE_MIN \<le> hw_tag_est_depth p then 1 else 0)\<rparr>)" unfolding eq by auto
      with that False False' show thesis by (auto simp: not_less)
    qed
  qed
qed

lemma update_hw_tag_ok:
  assumes ok: "sel_ok q"
  shows "\<exists>q'. cfq_update_hw_tag q = Inr q' \<and> calm q q' \<and> cfqqs q' = cfqqs q"
proof -
  from update_hw_tag_shape [OF ok] obtain n h where s: "cfq_update_hw_tag q =
    Inr ((if rq_in_driver q > hw_tag_est_depth q then q\<lparr>hw_tag_est_depth := rq_in_driver q\<rparr> else q)\<lparr>hw_tag_samples := n, hw_tag := h\<rparr>)"
    by blast
  have "calm q ((if rq_in_driver q > hw_tag_est_depth q then q\<lparr>hw_tag_est_depth := rq_in_driver q\<rparr> else q)\<lparr>hw_tag_samples := n, hw_tag := h\<rparr>)"
    by (rule calm_frame [OF ok]) (simp_all add: same_rest_def)
  with s show ?thesis by simp
qed

section \<open>The end times\<close>

lemma sync_completed_ok:
  assumes ok: "sel_ok q" and h: "held q rq a i"
  shows "\<exists>q'. sync_completed L now jiffies a rq q = Inr q' \<and> calm q q' \<and> cfqqs q' = cfqqs q"
proof -
  from h obtain r c where r: "rqs q rq = Some r" "rq_icq r = Some i" and a: "cfqqs q a = Some c" and i: "i \<in> dom (cics q)"
    unfolding held_def by blast
  from i obtain ic where ic: "cics q i = Some ic" by blast
  let ?f = "\<lambda>ic. ic\<lparr>c_ttime := (c_ttime ic)\<lparr>last_end_request := now\<rparr>\<rparr>"
  obtain q1 where 1: "upd_cic i ?f q = Inr q1" "calm q q1" "cfqqs q1 = cfqqs q" "cfqgs q1 = cfqgs q"
    by (rule calm_cic [where f = ?f, OF ok ic]) (simp_all add: cic_ok_def samples_ok_def)
  note ok1 = calmD [OF 1(2)]
  have a1: "cfqqs q1 a = Some c" using a 1(3) by simp
  obtain g cls ty G where n: "(if has On_rr c then service_tree c
      else map_option (\<lambda>g. st_for g (cfqq_class c) (cfqq_type c)) (cfqg c)) = Some (st_for g cls ty)" "cfqgs q1 g = Some G"
  proof (cases "has On_rr c")
    case True
    from busy_tree [OF ok1 a1 True] that True show thesis by auto
  next
    case False
    from queue_group [OF ok1 a1] that False show thesis by auto
  qed
  from calm_tree [OF ok1 n(2) refl, of cls ty now] obtain st q2 where 2: "get_st (st_for g cls ty) q1 = Inr st"
    "set_st (st_for g cls ty) (st\<lparr>st_ttime := (st_ttime st)\<lparr>last_end_request := now\<rparr>\<rparr>) q1 = Inr q2" "calm q1 q2" "cfqqs q2 = cfqqs q1" .
  have r2: "rqs q2 rq = Some r" using r(1) 1(2) 2(3) by (simp add: calm_def)
  let ?q3 = "if \<not> time_after (of_nat (start_time r + nsecs_to_jiffies L (cfq_fifo_expire q2 True))) (of_nat jiffies) then q2\<lparr>last_delayed_sync := now\<rparr> else q2"
  have "calm q2 ?q3" by (rule calm_frame [OF calmD [OF 2(3)]]) (simp_all add: same_rest_def)
  then have "calm q ?q3" using 1(2) 2(3) calm_trans by blast
  moreover have "RQ_CIC rq q = Inr i" using r by (simp add: RQ_CIC_def)
  then have "sync_completed L now jiffies a rq q = Inr ?q3"
    unfolding sync_completed_def by (simp only: bindE.simps 1(1) deref_Some [where m = "cfqqs q1", OF a1] n(1) option.case 2(1,2)
      deref_Some [where m = "rqs q2", OF r2])
  ultimately show ?thesis using 1(3) 2(4) by (intro exI [of _ ?q3]) simp
qed

section \<open>The active queue\<close>

lemma should_wait_busy_ok:
  assumes ok: "sel_ok q" and a: "cfqqs q a = Some c"
  shows "\<exists>b. cfq_should_wait_busy L now a q = Inr b"
proof -
  from queue_group [OF ok a] obtain g G where g: "cfqg c = Some g" "cfqgs q g = Some G" .
  have "\<exists>b. (case active_cic q of None \<Rightarrow> Inr False | Some i \<Rightarrow>
      bindE (deref (cics q) i) (\<lambda>ic. Inr (sample_valid (ttime_samples (c_ttime ic)) \<and> slice_end c - now < ttime_mean (c_ttime ic)))) = Inr b"
  proof (cases "active_cic q")
    case (Some i)
    from cfq_okD(6) [OF sel_okD(1) [OF ok] Some] obtain ic where "cics q i = Some ic" by blast
    with Some show ?thesis by simp
  qed (auto intro: exI [of _ False])
  then obtain b where b: "(case active_cic q of None \<Rightarrow> Inr False | Some i \<Rightarrow>
      bindE (deref (cics q) i) (\<lambda>ic. Inr (sample_valid (ttime_samples (c_ttime ic)) \<and> slice_end c - now < ttime_mean (c_ttime ic)))) = Inr b"
    by blast
  have "deref_ptr (cfqgs q) (cfqg c) = Inr G" using g by simp
  then show ?thesis
    unfolding cfq_should_wait_busy_def deref_Some [where m = "cfqqs q", OF a] bindE.simps b by auto
qed

lemma set_prio_slice_ok:
  assumes ok: "sel_ok q" and a: "cfqqs q a = Some c"
  shows "\<exists>q'. (if has Slice_new c then bindE (cfq_set_prio_slice now a q) (upd_cfqq a (clear Slice_new)) else Inr q) = Inr q' \<and>
     calm q q' \<and> (\<exists>c'. cfqqs q' a = Some c' \<and> sort_list c' = sort_list c)"
proof (cases "has Slice_new c")
  case False
  with a calm_refl [OF ok] show ?thesis by simp
next
  case True
  from scaled_slice_ok [OF sel_okD(6) [OF ok] a] obtain sl gs where s: "cfq_scaled_cfqq_slice a q = Inr (sl, q\<lparr>cfqgs := gs\<rparr>)"
    "rr_ok (q\<lparr>cfqgs := gs\<rparr>)" by blast
  have c1: "calm q (q\<lparr>cfqgs := gs\<rparr>)"
    by (rule calm_rest [OF sel_ok_rest [OF ok s(2)]]) (simp_all add: same_rest_def)
  let ?f = "\<lambda>c. c\<lparr>slice_start := now, slice_end := now + sl, allocated_slice := sl\<rparr>"
  have a1: "cfqqs (q\<lparr>cfqgs := gs\<rparr>) a = Some c" using a by simp
  obtain q2 where 2: "upd_cfqq a ?f (q\<lparr>cfqgs := gs\<rparr>) = Inr q2" "calm (q\<lparr>cfqgs := gs\<rparr>) q2" "cfqqs q2 = (cfqqs (q\<lparr>cfqgs := gs\<rparr>))(a \<mapsto> ?f c)"
    by (rule calm_upd [where f = ?f, OF calmD [OF c1] a1]) (simp_all add: plain_change_def ref_side_def has_def)
  have a2: "cfqqs q2 a = Some (?f c)" by (simp add: 2(3))
  obtain q3 where 3: "upd_cfqq a (clear Slice_new) q2 = Inr q3" "calm q2 q3" "cfqqs q3 = (cfqqs q2)(a \<mapsto> clear Slice_new (?f c))"
    by (rule calm_upd [where f = "clear Slice_new", OF calmD [OF 2(2)] a2])
      (simp_all add: plain_change_def ref_side_def, simp_all add: clear_def)
  have "calm q q3" using c1 2(2) 3(2) calm_trans by blast
  with True s(1) 2(1) 3(1,3) show ?thesis by (intro exI [of _ q3]) (simp add: cfq_set_prio_slice_def)
qed

lemma arm_slice_timer_ok:
  assumes ok: "sel_ok q" and act: "active_queue q = Some a"
  shows "\<exists>q'. cfq_arm_slice_timer now q = Inr q' \<and> calm q q'"
proof -
  note on = cfq_okD(5) [OF sel_okD(1) [OF ok] act]
  from on obtain c where a: "cfqqs q a = Some c" "has On_rr c" by (auto simp: on_rr_def)
  from should_idle_ok [OF sel_okD(6) [OF ok] on] obtain idle where idle: "cfq_should_idle a q = Inr idle" by blast
  from busy_tree [OF ok a] obtain h cls ty H where n: "service_tree c = Some (st_for h cls ty)" "cfqgs q h = Some H" .
  from queue_group [OF ok a(1)] obtain g G where g: "cfqg c = Some g" "cfqgs q g = Some G" .
  obtain q1 where 1: "upd_cfqq a (mark Wait_request) q = Inr q1" "calm q q1"
    by (rule calm_upd [where f = "mark Wait_request", OF ok a(1)])
      (simp_all add: plain_change_def ref_side_def, simp_all add: mark_def)
  have t: "calm q (q1\<lparr>idle_timer := x\<rparr>)" for x
    by (rule calm_trans [OF 1(2)], rule calm_frame [OF calmD [OF 1(2)]]) (simp_all add: same_rest_def)
  have tree: "(case service_tree c of None \<Rightarrow> Inl NullDeref | Some n \<Rightarrow> get_st n q) = Inr (tree_of H cls ty)"
    using n by (simp add: get_st_for)
  have group: "deref_ptr (cfqgs q) (cfqg c) = Inr G" using g by simp
  note eq = cfq_arm_slice_timer_def act option.case deref_Some [where m = "cfqqs q", OF a(1)] bindE.simps idle
  show ?thesis
  proof (cases "active_cic q")
    case None
    with calm_refl [OF ok] show ?thesis unfolding eq by simp
  next
    case (Some i)
    from cfq_okD(6) [OF sel_okD(1) [OF ok] Some] obtain ic where ic: "cics q i = Some ic" by blast
    show ?thesis
      unfolding eq Some deref_Some [where m = "cics q", OF ic] tree group 1(1) Let_def using calm_refl [OF ok] t by auto
  qed
qed

text \<open>A step that may end the slice of the active queue, and moves no request.\<close>

definition settled :: "'a cfq_data_scheme \<Rightarrow> 'a cfq_data_scheme \<Rightarrow> bool" where
  "settled q q' \<longleftrightarrow> sel_ok q' \<and> waiting (cfqqs q') = waiting (cfqqs q) \<and> queue_head q' = queue_head q"

lemma settled_calm: "calm p q \<Longrightarrow> settled q r \<Longrightarrow> settled p r" "calm p q \<Longrightarrow> settled p q"
  by (simp_all add: calm_def settled_def)

lemma slice_expired_ok:
  assumes L: "lib_ok L" and ok: "sel_ok q"
  shows "\<exists>q'. cfq_slice_expired L now timed_out q = Some (Inr q') \<and> settled q q'"
proof (cases "active_queue q")
  case None
  with ok show ?thesis by (simp add: cfq_slice_expired_def settled_def)
next
  case (Some a)
  from slice_expired'_ok [OF L sel_okD(1) [OF ok] Some, of now timed_out] obtain q' where
    "cfq_slice_expired' L now a timed_out q = Some (Inr q')" "cfq_ok q'" "waiting (cfqqs q') = waiting (cfqqs q)"
    "queue_head q' = queue_head q" "keeps q q'" by blast
  with Some sel_ok_keeps [OF ok] show ?thesis by (simp add: cfq_slice_expired_def settled_def)
qed

lemma active_completed_ok:
  assumes L: "lib_ok L" and ok: "sel_ok q" and act: "active_queue q = Some a"
  shows "\<exists>q'. active_completed L now sync a q = Some (Inr q') \<and> settled q q'"
proof -
  from cfq_okD(5) [OF sel_okD(1) [OF ok] act] obtain c where a: "cfqqs q a = Some c" by (auto simp: on_rr_def)
  from set_prio_slice_ok [OF ok a, of now] obtain q1 c1 where 1: "(if has Slice_new c then bindE (cfq_set_prio_slice now a q)
      (upd_cfqq a (clear Slice_new)) else Inr q) = Inr q1" "calm q q1" "cfqqs q1 a = Some c1" "sort_list c1 = sort_list c" by blast
  from should_wait_busy_ok [OF calmD [OF 1(2)] 1(3), of L now] obtain w where w: "cfq_should_wait_busy L now a q1 = Inr w" by blast
  let ?f = "\<lambda>c. mark Wait_busy (c\<lparr>slice_end := now + (if cfq_slice_idle q1 = 0 then cfq_group_idle q1 else cfq_slice_idle q1)\<rparr>)"
  obtain q2 c2 where 2: "(if w then let extend_sl = (if cfq_slice_idle q1 = 0 then cfq_group_idle q1 else cfq_slice_idle q1) in
      upd_cfqq a (\<lambda>c. mark Wait_busy (c\<lparr>slice_end := now + extend_sl\<rparr>)) q1 else Inr q1) = Inr q2"
    "calm q1 q2" "cfqqs q2 a = Some c2" "sort_list c2 = sort_list c1"
  proof (cases w)
    case True
    obtain q2 where "upd_cfqq a ?f q1 = Inr q2" "calm q1 q2" "cfqqs q2 = (cfqqs q1)(a \<mapsto> ?f c1)"
      by (rule calm_upd [where f = ?f, OF calmD [OF 1(2)] 1(3)])
        (simp_all add: plain_change_def ref_side_def, simp_all add: has_def mark_def)
    with True that [of q2 "?f c1"] show thesis by (simp add: Let_def)
  next
    case False
    with that [of q1 c1] 1(3) calm_refl [OF calmD [OF 1(2)]] show thesis by simp
  qed
  have c: "calm q q2" by (rule calm_trans [OF 1(2) 2(2)])
  note ok2 = calmD [OF 2(2)]
  have act2: "active_queue q2 = Some a" using c act by (simp add: calm_def)
  note eq = active_completed_def deref_Some [where m = "cfqqs q", OF a] bindO_simps 1(1) w 2(1) deref_Some [where m = "cfqqs q2", OF 2(3)]
  show ?thesis
  proof (cases "cfq_slice_used now c2 \<or> cfq_class_idle c2")
    case True
    from slice_expired_ok [OF L ok2, of now True] obtain q' where "cfq_slice_expired L now True q2 = Some (Inr q')" "settled q2 q'" by blast
    with settled_calm(1) [OF c] True show ?thesis unfolding eq Let_def [where s = "sort_list c = Leaf"] by auto
  next
    case False
    show ?thesis
    proof (cases "sync \<and> sort_list c = Leaf")
      case True
      then have "sort_list c2 = Leaf" using 1(4) 2(4) by simp
      from close_cooperator_ok [OF sel_okD(1) [OF ok2] 2(3) this] obtain co where co: "cfq_close_cooperator a q2 = Inr co" by blast
      from arm_slice_timer_ok [OF ok2 act2, of now] obtain q3 where "cfq_arm_slice_timer now q2 = Inr q3" "calm q2 q3" by blast
      with False True co settled_calm(2) [OF c] settled_calm(2) [OF calm_trans [OF c]] show ?thesis
        unfolding eq Let_def [where s = "sort_list c = Leaf"] by auto
    next
      case False': False
      with False settled_calm(2) [OF c] show ?thesis unfolding eq Let_def [where s = "sort_list c = Leaf"] by auto
    qed
  qed
qed

section \<open>Completion\<close>

lemma settled_frame:
  assumes "settled p q" "cfqqs q' = cfqqs q" "cfqgs q' = cfqgs q" "grp_service_tree q' = grp_service_tree q"
    "busy_queues q' = busy_queues q" "busy_sync_queues q' = busy_sync_queues q" "prio_trees q' = prio_trees q"
    "same_rest q q'"
  shows "settled p q'"
  using calm_frame [OF _ assms(2-8)] assms(1) by (simp add: settled_def calm_def)

lemma held_calm: "held q rq a i \<Longrightarrow> calm q q' \<Longrightarrow> map_option cfqg (cfqqs q' a) = map_option cfqg (cfqqs q a) \<Longrightarrow> held q' rq a i"
  unfolding held_def calm_def by auto

text \<open>The books of the driver: the queue, the group and the direction lose a request in flight.\<close>

lemma books_ok:
  assumes ok: "sel_ok q" and h: "held q rq a i"
  obtains q1 q2 c where
    "upd_cfqq a (\<lambda>c. c\<lparr>dispatched := dispatched c - 1\<rparr>) (q\<lparr>rq_in_driver := rq_in_driver q - 1\<rparr>) = Inr q1"
    "bindE (RQ_CFQG rq q1) (\<lambda>g. upd_cfqg g (\<lambda>c. c\<lparr>g_dispatched := g_dispatched c - 1\<rparr>) q1) = Inr q2"
    "calm q q2" "cfqqs q2 a = Some c" "held q2 rq a i"
proof -
  from h obtain r c where r: "rqs q rq = Some r" "priv1 r = cfqg c" and a: "cfqqs q a = Some c" unfolding held_def by blast
  let ?q = "q\<lparr>rq_in_driver := rq_in_driver q - 1\<rparr>" and ?f = "\<lambda>c. c\<lparr>dispatched := dispatched c - 1\<rparr>"
  have c0: "calm q ?q" by (rule calm_frame [OF ok]) (simp_all add: same_rest_def)
  have a0: "cfqqs ?q a = Some c" using a by simp
  obtain q1 where 1: "upd_cfqq a ?f ?q = Inr q1" "calm ?q q1" "cfqqs q1 = (cfqqs ?q)(a \<mapsto> ?f c)"
    by (rule calm_upd [where f = ?f, OF calmD [OF c0] a0]) (simp_all add: plain_change_def ref_side_def has_def)
  have a1: "cfqqs q1 a = Some (?f c)" by (simp add: 1(3))
  from queue_group [OF calmD [OF 1(2)] a1] obtain g G where g: "cfqg c = Some g" "cfqgs q1 g = Some G" by auto
  let ?g = "\<lambda>c. c\<lparr>g_dispatched := g_dispatched c - 1\<rparr>"
  obtain q2 where 2: "upd_cfqg g ?g q1 = Inr q2" "calm q1 q2" "cfqqs q2 = cfqqs q1"
    by (rule calm_group [where f = ?g, OF calmD [OF 1(2)] g(2)]) (simp_all add: plain_group_def weight_room_def)
  have "rqs q1 rq = Some r" using r(1) 1(2) by (simp add: calm_def)
  then have "RQ_CFQG rq q1 = Inr g" using r(2) g(1) by (simp add: RQ_CFQG_def)
  moreover have c: "calm q q2" using c0 1(2) 2(2) calm_trans by blast
  moreover have "held q2 rq a i" by (rule held_calm [OF h c]) (simp add: a 2(3) a1)
  ultimately show thesis using that [OF 1(1)] 2 a1 by simp
qed

lemma group_ttime_ok:
  assumes ok: "sel_ok q" and a: "cfqqs q a = Some c"
  obtains g q' where "cfqg c = Some g" "upd_cfqg g (\<lambda>c. c\<lparr>g_ttime := (g_ttime c)\<lparr>last_end_request := now\<rparr>\<rparr>) q = Inr q'"
    "calm q q'"
proof -
  from queue_group [OF ok a] obtain g G where g: "cfqg c = Some g" "cfqgs q g = Some G" .
  obtain q' where "upd_cfqg g (\<lambda>c. c\<lparr>g_ttime := (g_ttime c)\<lparr>last_end_request := now\<rparr>\<rparr>) q = Inr q'" "calm q q'"
    by (rule calm_group [where f = "\<lambda>c. c\<lparr>g_ttime := (g_ttime c)\<lparr>last_end_request := now\<rparr>\<rparr>", OF ok g(2)])
      (simp_all add: plain_group_def weight_room_def samples_ok_def)
  with that g(1) show thesis by blast
qed

lemma completed_request_ok:
  assumes L: "lib_ok L" and ok: "sel_ok q" and h: "held q rq a i"
  shows "\<exists>q'. cfq_completed_request L now jiffies rq q = Some (Inr q') \<and> settled q q'"
proof -
  from h obtain r c where r: "rqs q rq = Some r" "priv0 r = Some a" and a: "cfqqs q a = Some c" unfolding held_def by blast
  from update_hw_tag_ok [OF ok] obtain q1 where 1: "cfq_update_hw_tag q = Inr q1" "calm q q1" "cfqqs q1 = cfqqs q" by blast
  have h1: "held q1 rq a i" by (rule held_calm [OF h 1(2)]) (simp add: 1(3))
  from books_ok [OF calmD [OF 1(2)] h1] obtain q2 q3 c3 where 2:
    "upd_cfqq a (\<lambda>c. c\<lparr>dispatched := dispatched c - 1\<rparr>) (q1\<lparr>rq_in_driver := rq_in_driver q1 - 1\<rparr>) = Inr q2"
    "bindE (RQ_CFQG rq q2) (\<lambda>g. upd_cfqg g (\<lambda>c. c\<lparr>g_dispatched := g_dispatched c - 1\<rparr>) q2) = Inr q3"
    "calm q1 q3" "cfqqs q3 a = Some c3" "held q3 rq a i" .
  define q4 where "q4 = q3\<lparr>rq_in_flight := (rq_in_flight q3)(has Sync c3 := rq_in_flight q3 (has Sync c3) - 1)\<rparr>"
  have 4: "calm q3 q4" "cfqqs q4 = cfqqs q3"
    using calm_frame [OF calmD [OF 2(3)], of q4] by (simp_all add: q4_def same_rest_def)
  have h4: "held q4 rq a i" by (rule held_calm [OF 2(5) 4(1)]) (simp add: 4(2))
  obtain q5 where 5: "(if rq_sync r then sync_completed L now jiffies a rq q4 else Inr q4) = Inr q5" "calm q4 q5" "cfqqs q5 = cfqqs q4"
    using sync_completed_ok [OF calmD [OF 4(1)] h4, of L now jiffies] calm_refl [OF calmD [OF 4(1)]] by (cases "rq_sync r") auto
  have a5: "cfqqs q5 a = Some c3" using 2(4) 4(2) 5(3) by simp
  from group_ttime_ok [OF calmD [OF 5(2)] a5] obtain g q6 where 6: "cfqg c3 = Some g"
    "upd_cfqg g (\<lambda>c. c\<lparr>g_ttime := (g_ttime c)\<lparr>last_end_request := now\<rparr>\<rparr>) q5 = Inr q6" "calm q5 q6" .
  have c6: "calm q q6" using 1(2) 2(3) 4(1) 5(2) 6(3) calm_trans by blast
  obtain q7 where 7: "(if active_queue q6 = Some a then active_completed L now (rq_sync r) a q6 else Some (Inr q6)) = Some (Inr q7)" "settled q6 q7"
  proof (cases "active_queue q6 = Some a")
    case True
    from active_completed_ok [OF L calmD [OF 6(3)] True, of now "rq_sync r"] that show thesis by (auto simp: True)
  next
    case False
    with that settled_calm(2) [OF calm_refl [OF calmD [OF 6(3)]]] show thesis by simp
  qed
  let ?q = "if rq_in_driver q7 = 0 then cfq_schedule_dispatch q7 else q7"
  have "settled q ?q"
    by (rule settled_frame [OF settled_calm(1) [OF c6 7(2)]]) (simp_all add: cfq_schedule_dispatch_def same_rest_def)
  moreover have "cfq_completed_request L now jiffies rq q = Some (Inr ?q)"
  proof -
    have "RQ_CFQQ rq q = Inr a" using r by (simp add: RQ_CFQQ_def)
    then show ?thesis
      unfolding cfq_completed_request_def by (simp only: bindO_simps deref_Some [where m = "rqs q", OF r(1)] 1(1) 2(1,2)
        deref_Some [where m = "cfqqs q3", OF 2(4)] Let_def q4_def [symmetric] 5(1) 6(1,2) option.case 7(1))
  qed
  ultimately show ?thesis by blast
qed

section \<open>The idle timer\<close>

lemma idle_slice_timer_ok:
  assumes L: "lib_ok L" and ok: "sel_ok q"
  shows "\<exists>q'. cfq_idle_slice_timer L now q = Some (Inr q') \<and> settled q q'"
proof -
  let ?q = "q\<lparr>idle_timer := None\<rparr>"
  have c0: "calm q ?q" by (rule calm_frame [OF ok]) (simp_all add: same_rest_def)
  obtain act q1 where t: "timer_action_of now ?q = Inr (act, q1)" "calm ?q q1"
  proof (cases "active_queue q")
    case None
    with that calm_refl [OF calmD [OF c0]] show thesis by (simp add: timer_action_of_def)
  next
    case (Some a)
    from cfq_okD(5) [OF sel_okD(1) [OF ok] Some] obtain c where a: "cfqqs ?q a = Some c" by (auto simp: on_rr_def)
    obtain q2 where 2: "upd_cfqq a (clear Deep) ?q = Inr q2" "calm ?q q2"
      by (rule calm_upd [where f = "clear Deep", OF calmD [OF c0] a])
        (simp_all add: plain_change_def ref_side_def, simp_all add: clear_def)
    have act: "active_queue ?q = Some a" using Some by simp
    note eq = timer_action_of_def act option.case deref_Some [where m = "cfqqs ?q", OF a] bindE.simps 2(1)
    have "\<exists>act q1. timer_action_of now ?q = Inr (act, q1) \<and> calm ?q q1"
      unfolding eq using 2(2) calm_refl [OF calmD [OF c0]] by auto
    with that show thesis by blast
  qed
  have c1: "calm q q1" by (rule calm_trans [OF c0 t(2)])
  have sched: "settled q (cfq_schedule_dispatch p)" if "settled q p" for p
    by (rule settled_frame [OF that]) (simp_all add: cfq_schedule_dispatch_def same_rest_def)
  show ?thesis
  proof (cases act)
    case Kick
    with t(1) sched [OF settled_calm(2) [OF c1]] show ?thesis by (simp add: cfq_idle_slice_timer_def)
  next
    case Continue
    with t(1) settled_calm(2) [OF c1] show ?thesis by (simp add: cfq_idle_slice_timer_def)
  next
    case (ExpireSlice x)
    from slice_expired_ok [OF L calmD [OF t(2)], of now x] obtain q2 where
      "cfq_slice_expired L now x q1 = Some (Inr q2)" "settled q1 q2" by blast
    with t(1) ExpireSlice sched [OF settled_calm(1) [OF c1]] show ?thesis by (simp add: cfq_idle_slice_timer_def)
  qed
qed

section \<open>Property\<close>

text \<open>C38: The detection of command queueing: \<open>hw_tag\<close> is always -1 (unknown), 0 or 1; once it is 1 it
  stays 1, and it changes only after 50 samples, to 1 exactly if five requests (\<open>CFQ_HW_QUEUE_MIN\<close>) or more have been in the driver at once.\<close>

theorem hw_tag_detection:
  assumes "sel_ok q" "hw_tag q \<in> {-1, 0, 1}"
  shows "\<exists>q'. cfq_update_hw_tag q = Inr q' \<and> hw_tag q' \<in> {-1, 0, 1} \<and> (hw_tag q = 1 \<longrightarrow> hw_tag q' = 1) \<and>
     hw_tag_est_depth q' = max (hw_tag_est_depth q) (rq_in_driver q) \<and>
     (hw_tag q' \<noteq> hw_tag q \<longrightarrow> 50 \<le> hw_tag_samples q \<and> (hw_tag q' = 1 \<longleftrightarrow> CFQ_HW_QUEUE_MIN \<le> hw_tag_est_depth q'))"
proof -
  from update_hw_tag_shape [OF assms(1)] obtain n h where u: "cfq_update_hw_tag q =
      Inr ((if rq_in_driver q > hw_tag_est_depth q then q\<lparr>hw_tag_est_depth := rq_in_driver q\<rparr> else q)\<lparr>hw_tag_samples := n, hw_tag := h\<rparr>)"
    "h = hw_tag q \<or> hw_tag q \<noteq> 1 \<and> 50 \<le> hw_tag_samples q \<and> h = (if CFQ_HW_QUEUE_MIN \<le> hw_tag_est_depth
      (if rq_in_driver q > hw_tag_est_depth q then q\<lparr>hw_tag_est_depth := rq_in_driver q\<rparr> else q) then 1 else 0)" by blast
  then show ?thesis using assms(2)
    by (intro exI [of _ "(if rq_in_driver q > hw_tag_est_depth q then q\<lparr>hw_tag_est_depth := rq_in_driver q\<rparr> else q)
        \<lparr>hw_tag_samples := n, hw_tag := h\<rparr>"]) (auto simp: max_def split: if_splits)
qed

theorem hw_tag_detection_witness:
  "\<exists>q'. cfq_update_hw_tag drain_example = Inr q' \<and> hw_tag q' \<in> {-1, 0, 1}"
proof -
  have "hw_tag drain_example \<in> {-1, 0, 1}" by (simp add: drain_example_def group_example_def cfq_example_def)
  from hw_tag_detection [OF drain_example_sel this] show ?thesis by blast
qed

end
