(* ===== verification/Cfq_Reach.thy ===== *)
theory Cfq_Reach
  imports Cfq_Complete
begin

text \<open>
  CFQ as a state machine: requests arrive, are dispatched, activated, put back and completed, the
  idle timer fires and the work item runs, in any order, while the block layer takes and sets up
  requests.  The set of queues and of contexts stays: making, merging and freeing queues is not a step.
\<close>

section \<open>Setting up\<close>

text \<open>The groups as \<open>blkcg_activate_policy\<close> leaves them: linked nowhere, with empty trees.\<close>

definition fresh_group :: "cfq_group \<Rightarrow> bool" where
  "fresh_group G \<longleftrightarrow> \<not> g_linked G \<and> nr_active G = 0 \<and> children_weight G = 0 \<and> nr_cfqq G = 0 \<and>
     weight G \<noteq> 0 \<and> leaf_weight G \<noteq> 0 \<and> samples_ok (g_ttime G) \<and>
     (\<forall>cls ty. \<exists>t. tree_of G cls ty = CFQ_RB_ROOT t)"

definition fresh_groups :: "(nat \<rightharpoonup> cfq_group) \<Rightarrow> bool" where
  "fresh_groups gs \<longleftrightarrow> forest gs \<and> (\<forall>G \<in> ran gs. fresh_group G) \<and>
     (\<Sum>x \<in> dom gs. weight_room (the (gs x))) < 2 ^ 20"

lemma root_samples [simp]: "samples_ok (st_ttime (CFQ_RB_ROOT t))"
  by (simp add: CFQ_RB_ROOT_def no_ttime_def samples_ok_def)

lemma fresh_grp_ok:
  assumes "fresh_groups (cfqgs q)" "grp_service_tree q = CFQ_RB_ROOT t"
  shows "grp_ok q"
proof -
  let ?gs = "cfqgs q"
  have f: "fresh_group G" if "?gs x = Some G" for x G using assms(1) that by (auto simp: fresh_groups_def ran_def)
  have l: "linked ?gs = {}" and a: "actives ?gs = {}" using f by (force simp: linked_def actives_def fresh_group_def)+
  have "balanced ?gs"
    using f by (auto simp: balanced_def books_def l a kids_def fresh_group_def)
  moreover have "weights_ok ?gs"
    using assms(1) f by (auto simp: weights_ok_def fresh_groups_def forest_def fresh_group_def ran_def)
  moreover have "fractions_ok ?gs" using f by (auto simp: fractions_ok_def fresh_group_def)
  moreover have "grp_tree ?gs (grp_service_tree q)" by (simp add: grp_tree_def assms(2) l st_sorted_def CFQ_RB_ROOT_def)
  ultimately show ?thesis using assms(1) by (simp add: grp_ok_def fresh_groups_def)
qed

text \<open>A queue that holds nothing and is nowhere, in a group.\<close>

definition idle_queue :: "nat \<Rightarrow> cfq_queue \<Rightarrow> bool" where
  "idle_queue g c \<longleftrightarrow> cfqg c = Some g \<and> \<not> rb_linked c \<and> service_tree c = None \<and> p_root c = None \<and> sort_list c = Leaf \<and>
     qfifo c = [] \<and> next_rq c = None \<and> queued c = (\<lambda>_. 0) \<and> \<not> has On_rr c \<and> org_ioprio c < CFQ_PRIO_LISTS \<and>
     new_cfqq c = None \<and> allocated c = (\<lambda>_. 0) \<and> 0 \<le> qref c"

lemma start_ok:
  assumes gs: "fresh_groups (cfqgs q)" "grp_service_tree q = CFQ_RB_ROOT t"
    and cs: "cfqqs q = [a \<mapsto> c]" "idle_queue g c" "g \<in> dom (cfqgs q)" "prio_trees q = (\<lambda>_. Leaf)"
    and n: "busy_queues q = 0" "busy_sync_queues q = 0" "rq_queued q = 0" "nr_sorted q = 0" "active_queue q = None" "active_cic q = None"
    and rest: "set (queue_head q) \<subseteq> dom (rqs q)" "cics_ok (cics q)" "cfq_slice q True \<noteq> 0"
  shows "sel_ok q"
proof -
  note c = cs(2) [unfolded idle_queue_def]
  have f: "fresh_group G" if "cfqgs q x = Some G" for x G using gs(1) that by (auto simp: fresh_groups_def ran_def)
  have none: "on_rr (cfqqs q) = {}" "sync_rr (cfqqs q) = {}" "busy_in (cfqqs q) h = {}" "members (cfqqs q) m = {}" for h m
    using c by (auto simp: cs(1) on_rr_def sync_rr_def busy_in_def members_def)
  have "trees_ok q"
    unfolding trees_ok_def
  proof (intro conjI allI impI)
    show "\<forall>d \<in> ran (cfqqs q). placed (cfqgs q) d" using c cs(3) by (simp add: cs(1) placed_def)
    fix h G cls ty assume "cfqgs q h = Some G"
    from f [OF this] obtain u where "tree_of G cls ty = CFQ_RB_ROOT u" unfolding fresh_group_def by blast
    then show "st_ok (cfqqs q) (st_for h cls ty) (tree_of G cls ty)"
      by (simp add: st_ok_def none st_sorted_def) (simp add: CFQ_RB_ROOT_def)
  qed
  moreover have "grp_ok q" by (rule fresh_grp_ok [OF gs])
  moreover have "room q" by (simp add: room_def cs(1))
  moreover have "flags_ok (cfqqs q)" using c by (simp add: flags_ok_def cs(1))
  moreover have "nr_ok (cfqqs q) (cfqgs q)" using f by (auto simp: nr_ok_def none fresh_group_def)
  moreover have "counts_ok q" by (simp add: counts_ok_def none n)
  moreover have "prio_live {} q" using c by (auto simp: prio_live_def prio_nodes_def prio_members_def cs(1,4))
  moreover have "nexts_ok q" using c by (simp add: nexts_ok_def cs(1))
  ultimately have "rr_ok q" by (simp add: rr_ok_def)
  moreover have "waiting (cfqqs q) = {}" using c by (auto simp: waiting_def cs(1))
  moreover have "queue_ok (rqs q) b d" if "cfqqs q b = Some d" for b d
    using that c by (auto simp: cs(1) queue_ok_def split: if_splits)
  ultimately have "cfq_ok q" using n rest(1) c by (simp add: cfq_ok_def) (simp add: cs(1))
  moreover have "\<exists>us. merges (cfqqs q) a us" by (rule exI [of _ "[]"]) (use c in \<open>simp add: cs(1)\<close>)
  then have "merge_ok (cfqqs q)" by (simp add: merge_ok_def cs(1))
  moreover have "refs_ok (cfqqs q)" using c by (simp add: refs_ok_def cs(1))
  moreover have "icqs_ok q" using \<open>waiting (cfqqs q) = {}\<close> by (simp add: icqs_ok_def)
  ultimately show ?thesis using rest by (simp add: sel_ok_def)
qed

text \<open>What the block layer hands to a scheduler: no queue yet, fresh groups, nothing sorted.\<close>

definition handed_over :: "nat \<Rightarrow> 'a cfq_data_scheme \<Rightarrow> bool" where
  "handed_over root q \<longleftrightarrow> cfqqs q = Map.empty \<and> fresh_groups (cfqgs q) \<and> root \<in> dom (cfqgs q) \<and> nr_sorted q = 0 \<and>
     set (queue_head q) \<subseteq> dom (rqs q) \<and> cics_ok (cics q)"

lemma init_queue_ok:
  assumes "handed_over root q"
  shows "\<exists>i. cfq_init_queue now (Some eq) True 0 root oom q = Inr i \<and> ret i = 0 \<and> sel_ok (result_queue i) \<and>
     waiting (cfqqs (result_queue i)) = {} \<and> q_elevator (result_queue i) = Some eq \<and> \<not> eq_released i"
proof -
  note h = assms [unfolded handed_over_def]
  from h obtain G where G: "cfqgs q root = Some G" by blast
  let ?c = "(cfq_init_cfqq 1 False zero_cfqq)\<lparr>qref := 1, cfqg := Some root\<rparr>"
  obtain i where i: "cfq_init_queue now (Some eq) True 0 root oom q = Inr i" "ret i = 0"
    "cfqgs (result_queue i) = cfqgs q" "grp_service_tree (result_queue i) = CFQ_RB_ROOT now"
    "cfqqs (result_queue i) = [oom \<mapsto> ?c]" "prio_trees (result_queue i) = (\<lambda>_. Leaf)"
    "busy_queues (result_queue i) = 0" "busy_sync_queues (result_queue i) = 0" "rq_queued (result_queue i) = 0"
    "nr_sorted (result_queue i) = nr_sorted q" "active_queue (result_queue i) = None" "active_cic (result_queue i) = None"
    "queue_head (result_queue i) = queue_head q" "rqs (result_queue i) = rqs q" "cics (result_queue i) = cics q"
    "cfq_slice (result_queue i) True \<noteq> 0" "q_elevator (result_queue i) = Some eq" "\<not> eq_released i"
    using h G by (simp add: cfq_init_queue_def zero_cfqd_def cfq_link_cfqq_cfqg_def cfqg_get_def cfqg_put_def NSEC_PER_SEC_def Let_def fun_upd_idem)
  have "idle_queue root ?c"
    by (simp add: idle_queue_def cfq_init_cfqq_def zero_cfqq_def mark_def has_def Let_def CFQ_PRIO_LISTS_def ioprio_defs)
  then have "sel_ok (result_queue i)"
    using h by (intro start_ok [OF _ i(4,5)]) (auto simp: i)
  moreover have "waiting (cfqqs (result_queue i)) = {}"
    by (simp add: i(5) waiting_def cfq_init_cfqq_def zero_cfqq_def mark_def Let_def)
  ultimately show ?thesis using i by blast
qed

section \<open>The block layer's own steps\<close>



section \<open>The step relation\<close>

inductive cfq_step :: "kernel_lib \<Rightarrow> cfq_data \<Rightarrow> cfq_data \<Rightarrow> bool" for L where
  arrive: "task_nice_ioprio E < CFQ_PRIO_LISTS \<Longrightarrow> held q rq a i \<Longrightarrow> rq \<notin> waiting (cfqqs q) \<Longrightarrow>
    cfq_insert_request L now E rq (q\<lparr>nr_sorted := nr_sorted q + 1\<rparr>) = Some (Inr q') \<Longrightarrow> cfq_step L q q'"
| dispatch: "cfq_dispatch_requests L now force q = Some (Inr (n, q')) \<Longrightarrow> cfq_step L q q'"
| activate: "cfq_activate_request rq q = Inr q' \<Longrightarrow> cfq_step L q q'"
| deactivate: "cfq_step L q (cfq_deactivate_request rq q)"
| complete: "held q rq a i \<Longrightarrow> cfq_completed_request L now jiffies rq q = Some (Inr q') \<Longrightarrow> cfq_step L q q'"
| timer: "cfq_idle_slice_timer L now q = Some (Inr q') \<Longrightarrow> cfq_step L q q'"
| kick: "cfq_step L q (cfq_kick_queue q)"
| set_up: "rq \<notin> waiting (cfqqs q) \<Longrightarrow> cfq_step L q (q\<lparr>rqs := (rqs q)(rq \<mapsto> r)\<rparr>)"
| fetch: "cfq_step L q (q\<lparr>queue_head := removeAll rq (queue_head q)\<rparr>)"

inductive_cases cfq_stepE: "cfq_step L q q'"






section \<open>Properties\<close>

text \<open>C6: Setting up CFQ reports each failure.  When the elevator object or the device data cannot be
  allocated the queue is as before, and the object given back if there was one; when the cgroup
  policy cannot be activated, its error is returned and the object given back too, but the queue is
  left pointing to that freed object.  Otherwise 0 is returned, the queue points to the
  live object, nothing waits, and every invariant of the scheduler holds: the state machine
  starts in a good state.\<close>

theorem cfq_init:
  assumes "handed_over root q"
  shows "\<exists>i. cfq_init_queue now eq have_cfqd pol root oom q = Inr i \<and>
     (if eq = None \<or> \<not> have_cfqd then ret i = - ENOMEM \<and> result_queue i = q \<and> (eq_released i \<longleftrightarrow> eq \<noteq> None)
      else if pol \<noteq> 0 then ret i = pol \<and> eq_released i \<and> result_queue i = q\<lparr>q_elevator := eq\<rparr>
      else ret i = 0 \<and> \<not> eq_released i \<and> q_elevator (result_queue i) = eq \<and>
        sel_ok (result_queue i) \<and> waiting (cfqqs (result_queue i)) = {})"
proof (cases "eq \<noteq> None \<and> have_cfqd \<and> pol = 0")
  case True
  then obtain e where e: "eq = Some e" by auto
  from init_queue_ok [OF assms, of now e oom] obtain i where i: "cfq_init_queue now (Some e) True 0 root oom q = Inr i" "ret i = 0"
    "sel_ok (result_queue i)" "waiting (cfqqs (result_queue i)) = {}" "q_elevator (result_queue i) = Some e" "\<not> eq_released i"
    by blast
  with True e show ?thesis by (intro exI [of _ i]) simp
next
  case False
  then show ?thesis by (auto simp: cfq_init_queue_def Let_def)
qed

definition init_example :: cfq_data where
  "init_example = cfq_example\<lparr>cfqgs := [0 \<mapsto> blank_group]\<rparr>"

theorem cfq_init_witness:
  "(\<exists>i. cfq_init_queue 1000 (Some 7) True 0 0 3 init_example = Inr i \<and> ret i = 0 \<and> sel_ok (result_queue i)) \<and>
   (\<exists>i. cfq_init_queue 1000 (Some 7) True (- ENOMEM) 0 3 init_example = Inr i \<and> ret i = - ENOMEM \<and>
      eq_released i \<and> q_elevator (result_queue i) = Some 7) \<and>
   (\<exists>i. cfq_init_queue 1000 (Some 7) False 0 0 3 init_example = Inr i \<and> ret i = - ENOMEM \<and>
      eq_released i \<and> result_queue i = init_example)"
proof -
  have "\<exists>us. climbs [0 \<mapsto> blank_group] 0 us"
    by (rule exI [of _ "[]"], rule climbs.intros, simp, simp add: blank_group_def)
  then have "forest [0 \<mapsto> blank_group]" by (simp add: forest_def)
  moreover have "fresh_group blank_group"
    by (simp add: fresh_group_def blank_group_def tree_of_def samples_ok_def no_ttime_def CFQ_WEIGHT_LEGACY_DFL_def)
      (metis)
  moreover have "weight_room blank_group < 2 ^ 20" by (simp add: weight_room_def blank_group_def CFQ_WEIGHT_LEGACY_DFL_def)
  ultimately have "handed_over 0 init_example"
    by (simp add: handed_over_def fresh_groups_def init_example_def cics_ok_def) (simp add: cfq_example_def)
  note init = cfq_init [OF this, of 1000 "Some 7" _ _ 3]
  show ?thesis using init [of True 0] init [of True "- ENOMEM"] init [of False 0] by (auto simp: ENOMEM_def)
qed



end
