(* ===== verification/Spec2Isabelle.thy ===== *)
theory Spec2Isabelle
  imports MinHeap_Props BinaryHeap NoopElevator Noop_Variants Noop_Time ElvRegistry_Correct Deadline
    Sfq_Launch Sfq_Merge Sfq_Beta_Reach Sfq_Theta Alpha9 Alpha16
    Cfq_Control Cfq_Reach
begin

text \<open>
  A model of the I/O schedulers of this repository and of the part of the Linux block layer
  they plug into, with the theorems that say what they guarantee and where they do not.

  \<^bold>\<open>The program.\<close>  The elevator core (\<open>elevator_experiment/elevator.c\<close>) owns the dispatch
  list and the merge hash of a request queue and calls a scheduler through a table of
  operations: set up a request, merge, add, dispatch, complete, release.  The schedulers are
  the generations of start-time fair queueing (SFQ) this repository develops
  (\<open>ssd_scheduler_alpha\<close>, \<open>ssd_scheduler_beta\<close>, \<open>ssd_scheduler_theta\<close> and the released
  \<open>launch_sfq.c\<close>), no-op schedulers grown by experiments, a deadline scheduler, and the
  instrumented CFQ scheduler (\<open>cfq_experiment/cfq-iosched.c\<close>).  \<open>heap_experiments\<close> are
  user-space heaps that the request heaps of the schedulers were taken from.

  \<^bold>\<open>Conventions.\<close>  Kernel objects live in stores from addresses to records; a pointer is an
  optional address.  A fallible operation returns \<open>fault + result\<close>: a NULL or freed pointer,
  the list head used as an entry, an index outside an array, a variable read before it is
  written, a division by 0 or a \<open>BUG_ON\<close> is a fault of theory \<open>Prelude\<close>.  A loop that may run
  forever is a \<open>partial_function (option)\<close>, \<open>None\<close> being "does not return"; no fuel is used,
  and that a loop returns is part of the theorems.  Locks, RCU and printing do nothing;
  allocation outcomes, random numbers, the clock, the current process and cgroup look-ups are
  arguments.  Signed counters are integers (\<open>s32\<close> writes a wrap-around out where a tag can
  reach it), CFQ's times and counters that the code lets wrap are machine words.

  \<^bold>\<open>Foundations.\<close>  \<open>Prelude\<close> (faults, stores, kernel lists, heap indices), \<open>Block\<close> (requests
  and \<open>struct request_queue\<close>, extended by each scheduler's private data).

  \<^bold>\<open>Elevator core.\<close>  \<open>ElvDispatch\<close>: merge hash, \<open>elv_dispatch_sort\<close>, \<open>elv_dispatch_add_tail\<close>
  with the position a sorted insertion chooses.  \<open>ElvHash\<close>: hash invariant and the rb-tree
  helpers.  \<open>ElvSched\<close>: the contracts of a dispatch function, and \<open>elv_drain_elevator\<close>, proved to end
  from them alone.  \<open>batch_sched\<close> is the contract of a call that moves any number of requests,
  \<open>elv_sched\<close> of one that moves at most one; \<open>batch_conserving\<close> and \<open>work_conserving\<close> add that
  0 is reported only when nothing waits.
  \<open>ElvCore\<close>, \<open>ElvCore_Correct\<close>: every hook wrapper, merge look-up, the insert-time merge
  loop, \<open>__elv_add_request\<close>.  \<open>ElvRegistry\<close>, \<open>ElvRegistry_Correct\<close>: registration, set-up,
  switching with its roll-back, sysfs.

  \<^bold>\<open>Heaps.\<close>  \<open>ArrayHeap\<close> is the abstract heap, \<open>HeapStore\<close> the heap of pointers that
  refines it, \<open>MinHeap\<close>, \<open>MinHeap_Correct\<close>, \<open>MinHeap_Props\<close> the user-space heap
  \<open>min_heap_2\<close> with its client, \<open>BinaryHeap\<close> the linked heap of \<open>min_heap_binary\<close>.
  \<open>MinQueue\<close> is the contract of a priority queue; it is interpreted on the user-space heap
  and on CFQ's service trees.

  \<^bold>\<open>SFQ.\<close>  \<open>Sfq_Base\<close> and \<open>Sfq_Inv\<close> hold what the generations share and its invariant,
  \<open>RoundRobin\<close> the abstract round-robin that the dispatchers refine.  \<open>Sfq_Launch\<close>,
  \<open>Sfq_Beta\<close>, \<open>Sfq_Theta\<close>, \<open>Alpha_Base\<close>, \<open>Alpha9\<close>, \<open>Alpha16\<close> are the generations;
  \<open>Sfq_Beta_Reach\<close> has the step relation of the beta scheduler with all reachable states,
  \<open>Sfq_Merge\<close> the released scheduler plugged into the core.

  \<^bold>\<open>Other small schedulers.\<close>  \<open>Noop\<close>, \<open>NoopElevator\<close> (in the core), \<open>Noop_Variants\<close>,
  \<open>Noop_Time\<close>, \<open>Deadline\<close>.  Every dispatch function that the core drains interprets one of the
  contracts of \<open>ElvSched\<close>.

  \<^bold>\<open>CFQ.\<close>  \<open>Cfq_Base\<close> has the structs (\<open>cfq_queue\<close>, \<open>cfq_group\<close>, \<open>cfq_io_cq\<close>,
  \<open>cfq_data\<close> as an extension of the request queue) and the classifications; \<open>Cfq_Slice\<close> slice
  lengths, virtual time and \<open>cfq_choose_req\<close>; \<open>Cfq_Tree\<close> service trees; \<open>Cfq_Group\<close> the
  hierarchy of groups, with \<open>Cfq_Weights\<close> and \<open>Cfq_Group_Correct\<close> proving its books;
  \<open>Cfq_Queue\<close> the places of queues on trees, the busy list, the requests of a queue, merging;
  \<open>Cfq_Select\<close> expiry, cooperators, idling, \<open>cfq_select_queue\<close>; \<open>Cfq_Dispatch\<close> dispatch and
  forced dispatch; \<open>Cfq_Life\<close> references, priorities, set and put request; \<open>Cfq_Enqueue\<close>
  arrival, preemption, completion, timer, init and exit; \<open>Cfq_Control\<close> tunables and weights.
  One operation reads the clock once; \<open>rb_insert_color\<close> and \<open>rb_erase\<close> are the parameter
  \<open>kernel_lib\<close>, of which only "the in-order sequence is kept" is used (\<open>lib_ok\<close>, with an instance).

  \<^bold>\<open>Correctness of CFQ.\<close>  \<open>Cfq_Busy\<close>, \<open>Cfq_Rr\<close>, \<open>Cfq_Prio\<close> and \<open>Cfq_Rr_Correct\<close> prove that the
  service trees, the priority trees, the groups and the counters of busy queues agree with one
  another (\<open>rr_ok\<close>) and that moving, adding and removing a queue keeps that.  \<open>Cfq_Requests\<close>
  adds the requests: \<open>cfq_ok\<close> says that every waiting request is on the sort tree and on the FIFO of
  one queue, that the queue's counters count them, and that a queue is busy when it has any.
  \<open>Cfq_Merge\<close> shows that planned merges never form a cycle, \<open>Cfq_Drain\<close> that forced dispatch,
  and with it the core's drain, empties the scheduler, \<open>Cfq_Choose\<close> and \<open>Cfq_Serve\<close> that choosing
  a queue and dispatching from it finish without a fault under \<open>sel_ok\<close> (\<open>cfq_ok\<close> with the state of
  the active queue), \<open>Cfq_Insert\<close>, \<open>Cfq_Arrive\<close>, \<open>Cfq_Preempt\<close> the same of a new request,
  \<open>Cfq_Complete\<close> of a completion and of the idle timer.  \<open>Cfq_Reach\<close> collects them: the step
  relation \<open>cfq_step\<close> and \<open>cfq_reach\<close>, the state \<open>cfq_init_queue\<close> sets up, and that \<open>sel_ok\<close>
  holds in every reachable state, in which every operation is free of faults and ends.  The
  steps are arrival of a request already set up, ordinary and forced dispatch, activation,
  deactivation, completion, the timer and the work it schedules.  Making and freeing queues
  (\<open>cfq_set_request\<close>, \<open>cfq_put_request\<close>), merging requests and changes of priority, cgroup or
  weight are definitions with lemmas of their own and are not steps of this relation.

  \<^bold>\<open>Not modelled.\<close>  The statistics of CFQ (\<open>cfqg_stats\<close>), the cgroup files that print them,
  and module registration only count, print or register.  \<open>cfq_1.c\<close> to \<open>cfq_7.c\<close> are incomplete
  excerpts of \<open>cfq-iosched.c\<close>; the other \<open>sfq-sched\<close>, \<open>sfq-shed\<close>, \<open>sfq-iosched\<close> and \<open>sfq\<close> files,
  among them the write and offset experiments, and the other heaps are earlier or later drafts
  of a file that is modelled, with other print statements or counters that are only printed.
  Samples of kernel timers and caches keep no scheduler state; user-space measuring tools, logs
  and test data have no behaviour of their own.
\<close>

end
